(* ===== verification/Prelude.thy ===== *)
theory Prelude
  imports Main "HOL-Library.Char_ord" "HOL-Library.List_Lexorder" "HOL-Library.Word"
begin

text \<open>
  Shared vocabulary of the development: byte strings with the searching operations of
  \<^verbatim>\<open>std::string_view\<close> that the code uses, the index loop that walks over a separated list,
  the number conversions of the C++ standard library (\<^verbatim>\<open>std::stoul\<close>, \<^verbatim>\<open>std::stoi\<close>,
  \<^verbatim>\<open>std::to_string\<close>, \<^verbatim>\<open>"%zx"\<close>) and the ordered map \<^verbatim>\<open>std::map<std::string, V>\<close>.

  A \<^verbatim>\<open>std::string\<close> is a list of \<^typ>\<open>char\<close> (a byte).  A \<^verbatim>\<open>size_t\<close> that counts bytes of
  a string in memory is a \<^typ>\<open>nat\<close>; the result of a search is a \<^typ>\<open>nat option\<close>, with
  \<^const>\<open>None\<close> for \<^verbatim>\<open>npos\<close>.  A \<^verbatim>\<open>size_t\<close> that is read from the wire keeps its 64 bits:
  its conversion checks the range and wraps as the library does.
\<close>

named_theorems str_defs \<open>definitions of the string operations\<close>
named_theorems num_defs \<open>definitions of the number conversions\<close>


section \<open>Searching in byte strings\<close>

type_synonym bytes = string

abbreviation (input) byte_of :: "char \<Rightarrow> nat" where
  "byte_of c \<equiv> of_char c"

fun find_index :: "('a \<Rightarrow> bool) \<Rightarrow> 'a list \<Rightarrow> nat option" where
  "find_index P [] = None"
| "find_index P (x # xs) = (if P x then Some 0 else map_option Suc (find_index P xs))"

definition find_char :: "char \<Rightarrow> string \<Rightarrow> nat option" where
  [str_defs]: "find_char c s = find_index (\<lambda>x. x = c) s"

definition find_char_from :: "char \<Rightarrow> nat \<Rightarrow> string \<Rightarrow> nat option" where
  [str_defs]: "find_char_from c pos s = map_option (\<lambda>i. pos + i) (find_char c (drop pos s))"

definition find_first_not_of :: "char \<Rightarrow> nat \<Rightarrow> string \<Rightarrow> nat option" where
  [str_defs]: "find_first_not_of c pos s =
     map_option (\<lambda>i. pos + i) (find_index (\<lambda>x. x \<noteq> c) (drop pos s))"

definition find_last_not_of :: "char \<Rightarrow> string \<Rightarrow> nat option" where
  [str_defs]: "find_last_not_of c s =
     map_option (\<lambda>i. length s - 1 - i) (find_index (\<lambda>x. x \<noteq> c) (rev s))"

definition find_last_not_of_upto :: "char \<Rightarrow> nat \<Rightarrow> string \<Rightarrow> nat option" where
  [str_defs]: "find_last_not_of_upto c pos s = find_last_not_of c (take (Suc pos) s)"

fun find_sub :: "string \<Rightarrow> string \<Rightarrow> nat option" where
  "find_sub p [] = (if p = [] then Some 0 else None)"
| "find_sub p (x # xs) =
     (if take (length p) (x # xs) = p then Some 0 else map_option Suc (find_sub p xs))"

definition substr :: "nat \<Rightarrow> nat \<Rightarrow> string \<Rightarrow> string" where
  [str_defs]: "substr pos n s = take n (drop pos s)"

text \<open>\<^verbatim>\<open>std::tolower\<close>, \<^verbatim>\<open>std::toupper\<close>, \<^verbatim>\<open>std::isalpha\<close> and \<^verbatim>\<open>isspace\<close> in the C locale.\<close>

definition tolower :: "char \<Rightarrow> char" where
  [str_defs]: "tolower c = (if 65 \<le> byte_of c \<and> byte_of c \<le> (90::nat)
     then char_of (byte_of c + (32::nat)) else c)"

definition toupper :: "char \<Rightarrow> char" where
  [str_defs]: "toupper c = (if 97 \<le> byte_of c \<and> byte_of c \<le> (122::nat)
     then char_of (byte_of c - (32::nat)) else c)"

definition isalpha :: "char \<Rightarrow> bool" where
  [str_defs]: "isalpha c \<longleftrightarrow> (65 \<le> byte_of c \<and> byte_of c \<le> (90::nat)) \<or>
     (97 \<le> byte_of c \<and> byte_of c \<le> (122::nat))"

definition isspace :: "char \<Rightarrow> bool" where
  [str_defs]: "isspace c \<longleftrightarrow> byte_of c = (32::nat) \<or> (9 \<le> byte_of c \<and> byte_of c \<le> (13::nat))"

text \<open>
  The trimming lambda that \<^verbatim>\<open>HttpParser\<close> and \<^verbatim>\<open>Cookie\<close> both write: the part between the
  first and the last byte that is not a blank, and nothing when there is none.
\<close>

definition trim_blanks :: "string \<Rightarrow> string" where
  [str_defs]: "trim_blanks s =
     (case (find_first_not_of CHR '' '' 0 s, find_last_not_of CHR '' '' s) of
        (Some l, Some r) \<Rightarrow> substr l (r - l + 1) s
      | _ \<Rightarrow> [])"


section \<open>Bytes as machine words\<close>

type_synonym u8 = "8 word"
type_synonym u32 = "32 word"
type_synonym u64 = "64 word"

definition to_u8 :: "char \<Rightarrow> u8" where
  "to_u8 c = word_of_nat (of_char c)"

definition from_u8 :: "u8 \<Rightarrow> char" where
  "from_u8 w = char_of (unat w)"


section \<open>The loop over a separated list\<close>

text \<open>
  Query strings, form bodies, cookie lists and cookie attributes are walked by the same
  loop: from \<^verbatim>\<open>start\<close>, find the next separator, hand the part before it to the body,
  leave the loop when there was no separator, and continue behind it otherwise.
  \<open>scan_loop\<close> keeps the index of the source; \<open>segments\<close> is the list of parts it visits.
\<close>

function scan_loop :: "char \<Rightarrow> (string \<Rightarrow> 's \<Rightarrow> 's) \<Rightarrow> string \<Rightarrow> nat \<Rightarrow> 's \<Rightarrow> 's" where
  "scan_loop sep body s start st =
     (if start < length s then
        (case find_char_from sep start s of
           None \<Rightarrow> body (substr start (length s - start) s) st
         | Some pos \<Rightarrow> scan_loop sep body s (pos + 1) (body (substr start (pos - start) s) st))
      else st)"
  by pat_completeness auto
termination
  by (relation "measure (\<lambda>(sep, body, s, start, st). length s - start)")
     (auto simp: find_char_from_def)

declare scan_loop.simps [simp del]

fun split_at :: "char \<Rightarrow> string \<Rightarrow> string \<times> string option" where
  "split_at sep [] = ([], None)"
| "split_at sep (c # cs) =
     (if c = sep then ([], Some cs)
      else (case split_at sep cs of (a, r) \<Rightarrow> (c # a, r)))"

lemma split_at_shorter [termination_simp]:
  "(a, Some r) = split_at sep s \<Longrightarrow> length r < length s"
  by (induction s arbitrary: a) (auto split: if_splits prod.splits)

fun segments :: "char \<Rightarrow> string \<Rightarrow> string list" where
  "segments sep s =
     (if s = [] then []
      else (case split_at sep s of (a, None) \<Rightarrow> [a] | (a, Some r) \<Rightarrow> a # segments sep r))"

declare segments.simps [simp del]


section \<open>Numbers and their decimal and hexadecimal texts\<close>

datatype num_error = Invalid_argument | Out_of_range

definition hexVal_nat :: "char \<Rightarrow> nat option" where
  [num_defs]: "hexVal_nat c =
     (let n = byte_of c in
      if 48 \<le> n \<and> n \<le> 57 then Some (n - 48)
      else if 65 \<le> n \<and> n \<le> 70 then Some (n - 55)
      else if 97 \<le> n \<and> n \<le> 102 then Some (n - 87)
      else None)"

definition is_digit :: "nat \<Rightarrow> char \<Rightarrow> bool" where
  [num_defs]: "is_digit base c = (case hexVal_nat c of None \<Rightarrow> False | Some d \<Rightarrow> d < base)"

definition digit_value :: "char \<Rightarrow> nat" where
  [num_defs]: "digit_value c = (case hexVal_nat c of None \<Rightarrow> 0 | Some d \<Rightarrow> d)"

definition magnitude :: "nat \<Rightarrow> string \<Rightarrow> nat" where
  [num_defs]: "magnitude base ds = foldl (\<lambda>a c. a * base + digit_value c) 0 ds"

text \<open>\<^verbatim>\<open>strtoul\<close> in base 16 skips a \<^verbatim>\<open>0x\<close> that is followed by a hexadecimal digit.\<close>

fun skip_0x :: "string \<Rightarrow> string" where
  "skip_0x (z # x # d # r) =
     (if z = CHR ''0'' \<and> (x = CHR ''x'' \<or> x = CHR ''X'') \<and> is_digit 16 d
      then d # r else z # x # d # r)"
| "skip_0x s = s"

fun split_sign :: "string \<Rightarrow> bool \<times> string" where
  "split_sign [] = (False, [])"
| "split_sign (c # r) =
     (if c = CHR ''-'' then (True, r) else if c = CHR ''+'' then (False, r) else (False, c # r))"

definition parse_integer :: "nat \<Rightarrow> string \<Rightarrow> (bool \<times> nat) option" where
  [num_defs]: "parse_integer base s =
     (let (neg, u) = split_sign (dropWhile isspace s);
          ds = takeWhile (is_digit base) (if base = 16 then skip_0x u else u)
      in if ds = [] then None else Some (neg, magnitude base ds))"

text \<open>
  \<^verbatim>\<open>std::stoul(s, nullptr, base)\<close>: leading white space, an optional sign, digits; what
  follows the digits is ignored.  A minus sign negates modulo \<open>2 ^ 64\<close>.
\<close>

definition stoul :: "nat \<Rightarrow> string \<Rightarrow> num_error + nat" where
  [num_defs]: "stoul base s =
     (case parse_integer base s of
        None \<Rightarrow> Inl Invalid_argument
      | Some (neg, v) \<Rightarrow>
          if 2 ^ 64 \<le> v then Inl Out_of_range
          else Inr (if neg then (2 ^ 64 - v) mod 2 ^ 64 else v))"

definition stoi :: "string \<Rightarrow> num_error + int" where
  [num_defs]: "stoi s =
     (case parse_integer 10 s of
        None \<Rightarrow> Inl Invalid_argument
      | Some (neg, v) \<Rightarrow>
          (let i = (if neg then - int v else int v)
           in if i < - (2 ^ 31) \<or> 2 ^ 31 \<le> i then Inl Out_of_range else Inr i))"

definition digit_char :: "nat \<Rightarrow> char" where
  [num_defs]: "digit_char d = char_of (if d < 10 then 48 + d else 87 + d)"

fun show_base :: "nat \<Rightarrow> nat \<Rightarrow> string" where
  "show_base base n =
     (if base < 2 \<or> n < base then [digit_char n]
      else show_base base (n div base) @ [digit_char (n mod base)])"

declare show_base.simps [simp del]

abbreviation to_string :: "nat \<Rightarrow> string" where
  "to_string n \<equiv> show_base 10 n"

abbreviation to_hex :: "nat \<Rightarrow> string" where
  "to_hex n \<equiv> show_base 16 n"

definition to_string_int :: "int \<Rightarrow> string" where
  [num_defs]: "to_string_int i = (if i < 0 then CHR ''-'' # to_string (nat (- i)) else to_string (nat i))"


section \<open>Ordered maps\<close>

text \<open>
  \<^verbatim>\<open>std::map<std::string, V, std::less<>>\<close> as an association list that is sorted by key;
  iteration is the order of the list.  \<^verbatim>\<open>emplace\<close> keeps an existing entry and
  \<^verbatim>\<open>insert_or_assign\<close> (and \<^verbatim>\<open>m[k] = v\<close>) replaces it.
\<close>

type_synonym 'v omap = "(string \<times> 'v) list"

abbreviation omap_find :: "'v omap \<Rightarrow> string \<Rightarrow> 'v option" where
  "omap_find m k \<equiv> map_of m k"

fun omap_assign :: "string \<Rightarrow> 'v \<Rightarrow> 'v omap \<Rightarrow> 'v omap" where
  "omap_assign k v [] = [(k, v)]"
| "omap_assign k v ((k', v') # m) =
     (if k < k' then (k, v) # (k', v') # m
      else if k = k' then (k, v) # m
      else (k', v') # omap_assign k v m)"

definition omap_emplace :: "string \<Rightarrow> 'v \<Rightarrow> 'v omap \<Rightarrow> 'v omap" where
  "omap_emplace k v m = (case omap_find m k of None \<Rightarrow> omap_assign k v m | Some _ \<Rightarrow> m)"

definition omap_erase :: "string \<Rightarrow> 'v omap \<Rightarrow> 'v omap" where
  "omap_erase k m = filter (\<lambda>e. fst e \<noteq> k) m"

definition omap_inv :: "'v omap \<Rightarrow> bool" where
  "omap_inv m \<longleftrightarrow> sorted_wrt (<) (map fst m)"



section \<open>Facts about bytes\<close>

lemma of_char_less_256: "(of_char c :: nat) < 256"
  using of_char_mod_256 [of c] by (metis mod_less_divisor zero_less_numeral)

lemma from_u8_to_u8 [simp]: "from_u8 (to_u8 c) = c"
  using of_char_less_256 [of c] by (simp add: from_u8_def to_u8_def unat_of_nat take_bit_nat_eq_self)

lemma to_u8_from_u8 [simp]: "to_u8 (from_u8 w) = w"
proof -
  have "unat w < 256" using unsigned_less [of w, where ?'a = nat] by simp
  then show ?thesis by (simp add: from_u8_def to_u8_def of_char_of)
qed

lemma unat_to_u8: "unat (to_u8 c) = of_char c"
  using of_char_less_256 [of c] by (simp add: to_u8_def unat_of_nat)


text \<open>Evaluation of the character classification on literals.\<close>

named_theorems char_eval \<open>unfolding character functions on literals\<close>

lemma bit_one_zero [char_eval]: "bit (Suc 0) 0"
  by (simp add: bit_0)

lemmas [char_eval] = char_of_def tolower_def toupper_def isalpha_def isspace_def


section \<open>Facts about searching\<close>

lemma find_index_None: "find_index P xs = None \<longleftrightarrow> (\<forall>x \<in> set xs. \<not> P x)"
  by (induction xs) auto

lemma find_index_Some:
  "find_index P xs = Some i \<longleftrightarrow> i < length xs \<and> P (xs ! i) \<and> (\<forall>j < i. \<not> P (xs ! j))"
proof (induction xs arbitrary: i)
  case (Cons x xs)
  show ?case
  proof (cases i)
    case 0
    then show ?thesis by auto
  next
    case (Suc k)
    have "(\<forall>j < Suc k. \<not> P ((x # xs) ! j)) \<longleftrightarrow> \<not> P x \<and> (\<forall>j < k. \<not> P (xs ! j))"
      by (auto simp: less_Suc_eq_0_disj)
    then show ?thesis using Suc Cons.IH by auto
  qed
qed simp

lemma find_index_append:
  "find_index P (xs @ ys) =
     (case find_index P xs of Some i \<Rightarrow> Some i | None \<Rightarrow> map_option (\<lambda>i. length xs + i) (find_index P ys))"
proof (induction xs)
  case Nil
  show ?case by (cases "find_index P ys") auto
next
  case (Cons a xs)
  then show ?case by (cases "find_index P xs"; cases "find_index P ys") auto
qed

lemma find_index_less: "find_index P xs = Some i \<Longrightarrow> i < length xs"
  by (simp add: find_index_Some)

lemma find_char_None: "find_char c s = None \<longleftrightarrow> c \<notin> set s"
  by (auto simp: find_char_def find_index_None)

lemma find_char_notin [simp]: "c \<notin> set s \<Longrightarrow> find_char c s = None"
  by (simp add: find_char_None)

lemma find_char_append:
  assumes "c \<notin> set a"
  shows "find_char c (a @ c # b) = Some (length a)"
proof -
  have "find_index (\<lambda>x. x = c) a = None" using assms by (auto simp: find_index_None)
  then show ?thesis by (simp add: find_char_def find_index_append)
qed

lemma find_char_Some_split:
  assumes "find_char c s = Some i"
  shows "s = take i s @ c # drop (Suc i) s" and "c \<notin> set (take i s)" and "i < length s"
proof -
  have i: "i < length s" "s ! i = c" "\<forall>j < i. s ! j \<noteq> c"
    using assms by (auto simp: find_char_def find_index_Some)
  show "s = take i s @ c # drop (Suc i) s" using i id_take_nth_drop by metis
  show "c \<notin> set (take i s)" using i by (auto simp: in_set_conv_nth)
  show "i < length s" using i by simp
qed

lemma split_at_find:
  "split_at c s = (case find_char c s of None \<Rightarrow> (s, None) | Some i \<Rightarrow> (take i s, Some (drop (Suc i) s)))"
  by (induction s) (auto simp: find_char_def split: option.splits)

lemma split_at_notin [simp]: "c \<notin> set s \<Longrightarrow> split_at c s = (s, None)"
  by (induction s) auto

lemma split_at_append [simp]: "c \<notin> set a \<Longrightarrow> split_at c (a @ c # b) = (a, Some b)"
  by (induction a) auto

lemma find_sub_Some_take:
  "find_sub p s = Some i \<Longrightarrow> take (length p) (drop i s) = p \<and> i + length p \<le> length s"
proof (induction s arbitrary: i)
  case (Cons x xs)
  show ?case
  proof (cases "take (length p) (x # xs) = p")
    case True
    then have "length p \<le> length (x # xs)" by (metis length_take min.cobounded1)
    then show ?thesis using True Cons.prems by simp
  next
    case False
    then show ?thesis using Cons by auto
  qed
qed (auto split: if_splits)

lemma find_sub_Some_drop:
  assumes "find_sub p s = Some i"
  shows "s = take i s @ p @ drop (i + length p) s"
proof -
  have "drop i s = p @ drop (length p) (drop i s)"
    using find_sub_Some_take [OF assms] by (metis append_take_drop_id)
  then show ?thesis by (metis add.commute append_take_drop_id drop_drop)
qed


section \<open>The scanning loop visits the segments\<close>

lemma segments_Nil [simp]: "segments sep [] = []"
  by (simp add: segments.simps)

lemma segments_single: "s \<noteq> [] \<Longrightarrow> sep \<notin> set s \<Longrightarrow> segments sep s = [s]"
  by (simp add: segments.simps)

lemma segments_cons: "sep \<notin> set a \<Longrightarrow> segments sep (a @ sep # b) = a # segments sep b"
  by (subst segments.simps) simp

lemma segments_no_sep: "x \<in> set (segments sep s) \<Longrightarrow> sep \<notin> set x"
proof (induction sep s rule: segments.induct)
  case (1 sep s)
  then show ?case
    by (subst (asm) (2) segments.simps)
       (auto simp: split_at_find find_char_None dest: find_char_Some_split split: if_splits option.splits)
qed

lemma scan_loop_segments:
  "scan_loop sep body s start st = fold body (segments sep (drop start s)) st"
proof (induction sep body s start st rule: scan_loop.induct)
  case (1 sep body s start st)
  show ?case
  proof (cases "start < length s")
    case False
    then show ?thesis by (simp add: scan_loop.simps)
  next
    case True
    show ?thesis
    proof (cases "find_char sep (drop start s)")
      case None
      then have "sep \<notin> set (drop start s)" by (simp add: find_char_None)
      with True None show ?thesis
        by (simp add: scan_loop.simps [of sep body s start st] find_char_from_def substr_def segments_single)
    next
      case (Some i)
      have "segments sep (drop start s) = take i (drop start s) # segments sep (drop (start + i + 1) s)"
        using True Some by (subst segments.simps) (simp add: split_at_find add.commute add.assoc)
      moreover have "find_char_from sep start s = Some (start + i)"
        using Some by (simp add: find_char_from_def)
      ultimately show ?thesis using "1.IH" True
        by (simp add: scan_loop.simps [of sep body s start st] substr_def)
    qed
  qed
qed


section \<open>Trimming\<close>

lemma find_first_not_of_blank:
  "find_first_not_of c 0 s = None \<longleftrightarrow> (\<forall>x \<in> set s. x = c)"
  by (auto simp: find_first_not_of_def find_index_None)

lemma trim_blanks_append_simple:
  assumes "s \<noteq> []" "hd s \<noteq> CHR '' ''" "last s \<noteq> CHR '' ''"
  shows "trim_blanks (replicate m CHR '' '' @ s @ replicate n CHR '' '') = s"
proof -
  have f: "find_index (\<lambda>x. x \<noteq> CHR '' '') (replicate k CHR '' '' @ t) = Some k"
    if "t \<noteq> []" "hd t \<noteq> CHR '' ''" for k t
  proof -
    have "find_index (\<lambda>x. x \<noteq> CHR '' '') (replicate k CHR '' '') = None"
      by (auto simp: find_index_None)
    then show ?thesis using that by (cases t) (auto simp: find_index_append)
  qed
  let ?u = "replicate m CHR '' '' @ s @ replicate n CHR '' ''"
  have l: "find_first_not_of CHR '' '' 0 ?u = Some m"
    using assms f [of "s @ replicate n CHR '' ''" m] by (simp add: find_first_not_of_def hd_append)
  have "find_index (\<lambda>x. x \<noteq> CHR '' '') (rev ?u) = Some n"
    using assms f [of "rev s @ replicate m CHR '' ''" n]
    by (simp add: hd_append hd_rev)
  then have r: "find_last_not_of CHR '' '' ?u = Some (m + length s - 1)"
    using assms(1) by (cases s) (auto simp: find_last_not_of_def)
  have "m + length s - 1 - m + 1 = length s" using assms(1) by (cases s) auto
  then show ?thesis by (simp add: trim_blanks_def l r substr_def)
qed

lemma trim_blanks_id: "s \<noteq> [] \<Longrightarrow> hd s \<noteq> CHR '' '' \<Longrightarrow> last s \<noteq> CHR '' '' \<Longrightarrow> trim_blanks s = s"
  using trim_blanks_append_simple [of s 0 0] by simp

lemma trim_blanks_Nil [simp]: "trim_blanks [] = []"
  by (simp add: trim_blanks_def find_first_not_of_def)

lemma set_trim_blanks: "set (trim_blanks s) \<subseteq> set s"
  by (auto simp: trim_blanks_def substr_def split: option.splits prod.splits
      dest: in_set_takeD in_set_dropD)



section \<open>Printing and reading numbers\<close>

lemma of_char_of_nat [simp]: "n < 256 \<Longrightarrow> of_char (char_of (n::nat)) = n"
  by (simp add: of_char_of)

lemma digit_char_numerals [simp]:
  "digit_char 0 = CHR ''0''" "digit_char (Suc 0) = CHR ''1''" "digit_char 1 = CHR ''1''"
  "digit_char 2 = CHR ''2''" "digit_char 3 = CHR ''3''" "digit_char 4 = CHR ''4''"
  "digit_char 5 = CHR ''5''" "digit_char 6 = CHR ''6''" "digit_char 7 = CHR ''7''"
  "digit_char 8 = CHR ''8''" "digit_char 9 = CHR ''9''" "digit_char 10 = CHR ''a''"
  "digit_char 11 = CHR ''b''" "digit_char 12 = CHR ''c''" "digit_char 13 = CHR ''d''"
  "digit_char 14 = CHR ''e''" "digit_char 15 = CHR ''f''"
  by (simp_all add: digit_char_def char_of_def bit_iff_odd)

lemma hexVal_digit_char: "d < 16 \<Longrightarrow> hexVal_nat (digit_char d) = Some d"
  by (auto simp: hexVal_nat_def digit_char_def Let_def)

lemma digit_char_facts:
  assumes "d < base" "base \<le> 16"
  shows "is_digit base (digit_char d)" and "digit_value (digit_char d) = d"
    and "\<not> isspace (digit_char d)" and "digit_char d \<noteq> CHR ''-''" and "digit_char d \<noteq> CHR ''+''"
proof -
  have h: "hexVal_nat (digit_char d) = Some d" using assms by (simp add: hexVal_digit_char)
  show "is_digit base (digit_char d)" "digit_value (digit_char d) = d"
    using h assms by (simp_all add: is_digit_def digit_value_def)
  have b: "of_char (digit_char d) \<ge> (48::nat)" using assms by (simp add: digit_char_def)
  then show "\<not> isspace (digit_char d)" by (simp add: isspace_def)
  show "digit_char d \<noteq> CHR ''-''" and "digit_char d \<noteq> CHR ''+''" using b by auto
qed

lemma show_base_neq_Nil [simp]: "show_base base n \<noteq> []"
  by (subst show_base.simps) simp

lemma show_base_digits:
  "2 \<le> base \<Longrightarrow> base \<le> 16 \<Longrightarrow> c \<in> set (show_base base n) \<Longrightarrow> is_digit base c"
proof (induction base n arbitrary: c rule: show_base.induct)
  case (1 base n)
  show ?case
  proof (cases "n < base")
    case True
    with "1.prems" show ?thesis
      by (subst (asm) show_base.simps) (auto intro: digit_char_facts(1))
  next
    case False
    with "1.prems" have "c \<in> set (show_base base (n div base)) \<or> c = digit_char (n mod base)"
      by (subst (asm) show_base.simps) (auto split: if_splits)
    with "1.IH" "1.prems" False show ?thesis
      by (auto intro: digit_char_facts(1))
  qed
qed

lemma magnitude_snoc: "magnitude base (ds @ [c]) = magnitude base ds * base + digit_value c"
  by (simp add: magnitude_def)

lemma magnitude_show_base: "2 \<le> base \<Longrightarrow> base \<le> 16 \<Longrightarrow> magnitude base (show_base base n) = n"
proof (induction base n rule: show_base.induct)
  case (1 base n)
  show ?case
  proof (cases "n < base")
    case True
    with "1.prems" show ?thesis
      by (subst show_base.simps) (simp add: magnitude_def digit_char_facts)
  next
    case False
    with "1.prems" have "show_base base n = show_base base (n div base) @ [digit_char (n mod base)]"
      by (subst show_base.simps) auto
    moreover have "digit_value (digit_char (n mod base)) = n mod base"
      using "1.prems" by (intro digit_char_facts(2) [of _ base]) auto
    ultimately show ?thesis using "1.IH" "1.prems" False
      by (simp add: magnitude_snoc)
  qed
qed

lemma hd_show_base:
  assumes "2 \<le> base" "base \<le> 16"
  shows "\<exists>d < base. hd (show_base base n) = digit_char d"
  using assms
proof (induction base n rule: show_base.induct)
  case (1 base n)
  then show ?case by (subst show_base.simps) (auto simp: hd_append)
qed

lemma digit_char_0x: "d < 16 \<Longrightarrow> digit_char d \<noteq> CHR ''x'' \<and> digit_char d \<noteq> CHR ''X''"
proof -
  assume d: "d < 16"
  have "of_char (digit_char d) \<noteq> (120::nat)" and "of_char (digit_char d) \<noteq> (88::nat)"
    using d by (auto simp: digit_char_def)
  then show ?thesis by auto
qed

lemma is_digit_not_x: "is_digit base c \<Longrightarrow> c \<noteq> CHR ''x'' \<and> c \<noteq> CHR ''X''"
  by (auto simp: is_digit_def hexVal_nat_def)

lemma skip_0x_id: "(2 \<le> length s \<Longrightarrow> s ! 1 \<noteq> CHR ''x'' \<and> s ! 1 \<noteq> CHR ''X'') \<Longrightarrow> skip_0x s = s"
  by (cases s rule: skip_0x.cases) auto

lemma parse_integer_show_base:
  assumes "2 \<le> base" "base \<le> 16" "t = [] \<or> \<not> is_digit base (hd t) \<and> hd t \<noteq> CHR ''x'' \<and> hd t \<noteq> CHR ''X''"
  shows "parse_integer base (show_base base n @ t) = Some (False, n)"
proof -
  obtain d where d: "d < base" "hd (show_base base n) = digit_char d"
    using hd_show_base [OF assms(1,2)] by blast
  obtain r where r: "show_base base n = digit_char d # r"
    using d(2) by (cases "show_base base n") auto
  have dw: "dropWhile isspace (show_base base n @ t) = show_base base n @ t"
    using r d digit_char_facts(3) [OF d(1) assms(2)] by simp
  have sg: "split_sign (show_base base n @ t) = (False, show_base base n @ t)"
    using r digit_char_facts(4,5) [OF d(1) assms(2)] by simp
  have sk: "skip_0x (show_base base n @ t) = show_base base n @ t"
  proof (rule skip_0x_id)
    assume l: "2 \<le> length (show_base base n @ t)"
    show "(show_base base n @ t) ! 1 \<noteq> CHR ''x'' \<and> (show_base base n @ t) ! 1 \<noteq> CHR ''X''"
    proof (cases r)
      case Nil
      with r l assms(3) show ?thesis by (cases t) auto
    next
      case (Cons c r')
      with r have "c \<in> set (show_base base n)" by simp
      then have "is_digit base c" by (rule show_base_digits [OF assms(1,2)])
      then have "c \<noteq> CHR ''x'' \<and> c \<noteq> CHR ''X''" by (rule is_digit_not_x)
      with r Cons show ?thesis by simp
    qed
  qed
  have "takeWhile (is_digit base) (show_base base n @ t) = show_base base n"
    using assms show_base_digits [OF assms(1,2)] by (cases t) (auto simp: takeWhile_append)
  moreover have "(if base = 16 then skip_0x (show_base base n @ t) else show_base base n @ t) = show_base base n @ t"
    by (simp only: sk if_cancel)
  ultimately show ?thesis
    using magnitude_show_base [OF assms(1,2)] by (simp add: parse_integer_def dw sg)
qed

lemma stoul_show_base:
  assumes "2 \<le> base" "base \<le> 16" "n < 2 ^ 64"
    "t = [] \<or> \<not> is_digit base (hd t) \<and> hd t \<noteq> CHR ''x'' \<and> hd t \<noteq> CHR ''X''"
  shows "stoul base (show_base base n @ t) = Inr n"
  using assms by (simp add: stoul_def parse_integer_show_base)

lemma stoul_to_string [simp]: "n < 2 ^ 64 \<Longrightarrow> stoul 10 (to_string n) = Inr n"
  using stoul_show_base [of 10 n "[]"] by simp

lemma stoul_to_hex [simp]: "n < 2 ^ 64 \<Longrightarrow> stoul 16 (to_hex n) = Inr n"
  using stoul_show_base [of 16 n "[]"] by simp

lemma stoi_to_string [simp]: "n < 2 ^ 31 \<Longrightarrow> stoi (to_string n) = Inr (int n)"
  using parse_integer_show_base [of 10 "[]" n] by (simp add: stoi_def)

lemma stoul_bound: "stoul base s = Inr n \<Longrightarrow> n < 2 ^ 64"
  by (auto simp: stoul_def split: option.splits if_splits)

lemma stoi_bound: "stoi s = Inr i \<Longrightarrow> - (2 ^ 31) \<le> i \<and> i < 2 ^ 31"
  by (auto simp: stoi_def Let_def split: option.splits if_splits)

lemma to_string_no_control:
  "c \<in> set (to_string n) \<Longrightarrow> 48 \<le> (of_char c :: nat) \<and> of_char c \<le> (57 :: nat)"
  using show_base_digits [of 10 c n]
  by (auto simp: is_digit_def hexVal_nat_def Let_def split: if_splits)


section \<open>The contract of an ordered map\<close>

locale ordered_map =
  fixes lookup :: "'m \<Rightarrow> 'k \<Rightarrow> 'v option"
    and assign :: "'k \<Rightarrow> 'v \<Rightarrow> 'm \<Rightarrow> 'm"
    and emplace :: "'k \<Rightarrow> 'v \<Rightarrow> 'm \<Rightarrow> 'm"
    and erase :: "'k \<Rightarrow> 'm \<Rightarrow> 'm"
    and invar :: "'m \<Rightarrow> bool"
  assumes lookup_assign: "invar m \<Longrightarrow> lookup (assign k v m) k' = (if k' = k then Some v else lookup m k')"
    and lookup_emplace: "invar m \<Longrightarrow> lookup (emplace k v m) k' =
          (if k' = k \<and> lookup m k = None then Some v else lookup m k')"
    and lookup_erase: "invar m \<Longrightarrow> lookup (erase k m) k' = (if k' = k then None else lookup m k')"
    and invar_assign: "invar m \<Longrightarrow> invar (assign k v m)"
    and invar_emplace: "invar m \<Longrightarrow> invar (emplace k v m)"
    and invar_erase: "invar m \<Longrightarrow> invar (erase k m)"
begin

lemma fold_assign_invar: "invar m \<Longrightarrow> invar (fold (\<lambda>(k, v). assign k v) kvs m)"
  by (induction kvs arbitrary: m) (auto simp: invar_assign)

lemma fold_emplace_invar: "invar m \<Longrightarrow> invar (fold (\<lambda>(k, v). emplace k v) kvs m)"
  by (induction kvs arbitrary: m) (auto simp: invar_emplace)

text \<open>A series of assignments: the last value of a key wins.\<close>

lemma fold_assign_last:
  "invar m \<Longrightarrow> lookup (fold (\<lambda>(k, v). assign k v) kvs m) k =
     (case map_of (rev kvs) k of Some v \<Rightarrow> Some v | None \<Rightarrow> lookup m k)"
  by (induction kvs arbitrary: m)
     (auto simp: lookup_assign invar_assign map_add_def split: option.splits)

text \<open>A series of emplacements: the first value of a key wins.\<close>

lemma fold_emplace_first:
  "invar m \<Longrightarrow> lookup (fold (\<lambda>(k, v). emplace k v) kvs m) k =
     (case lookup m k of Some v \<Rightarrow> Some v | None \<Rightarrow> map_of kvs k)"
  by (induction kvs arbitrary: m)
     (auto simp: lookup_emplace invar_emplace split: option.splits)

lemma erase_assign_new: "invar m \<Longrightarrow> lookup m k = None \<Longrightarrow> lookup (erase k (assign k v m)) = lookup m"
  by (auto simp: fun_eq_iff lookup_erase invar_assign lookup_assign)

end

lemma omap_find_assign: "omap_find (omap_assign k v m) k' = (if k' = k then Some v else omap_find m k')"
  by (induction m) auto

lemma omap_find_emplace: "omap_find (omap_emplace k v m) k' =
    (if k' = k \<and> omap_find m k = None then Some v else omap_find m k')"
  by (auto simp: omap_emplace_def omap_find_assign split: option.splits)

lemma omap_find_erase: "omap_find (omap_erase k m) k' = (if k' = k then None else omap_find m k')"
  by (induction m) (auto simp: omap_erase_def split: if_splits)

lemmas omap_find_simps [simp] = omap_find_assign omap_find_emplace omap_find_erase

lemma fst_omap_assign: "fst ` set (omap_assign k v m) = insert k (fst ` set m)"
proof (induction m)
  case (Cons e m)
  then show ?case by (cases e) (simp add: insert_commute)
qed simp

lemma omap_inv_Nil [simp]: "omap_inv []"
  by (simp add: omap_inv_def)

lemma omap_inv_assign [simp]: "omap_inv m \<Longrightarrow> omap_inv (omap_assign k v m)"
proof (induction m)
  case (Cons e m)
  obtain k' v' where e: "e = (k', v')" by fastforce
  have keys: "fst x = k \<or> fst x \<in> fst ` set m" if "x \<in> set (omap_assign k v m)" for x
    using that fst_omap_assign [of k v m] by (metis image_eqI insert_iff)
  consider "k < k'" | "k = k'" | "k' < k" by (rule linorder_cases)
  then show ?case
  proof cases
    case 1
    with Cons e show ?thesis by (auto simp: omap_inv_def intro: less_trans)
  next
    case 2
    with Cons e show ?thesis by (auto simp: omap_inv_def)
  next
    case 3
    with Cons e keys show ?thesis by (fastforce simp: omap_inv_def)
  qed
qed (simp add: omap_inv_def)

lemma omap_inv_emplace [simp]: "omap_inv m \<Longrightarrow> omap_inv (omap_emplace k v m)"
  by (simp add: omap_emplace_def split: option.splits)

lemma omap_inv_erase [simp]: "omap_inv m \<Longrightarrow> omap_inv (omap_erase k m)"
  by (induction m) (auto simp: omap_inv_def omap_erase_def)

interpretation omap: ordered_map map_of omap_assign omap_emplace omap_erase omap_inv
  by unfold_locales simp_all


text \<open>An ordered map is determined by its lookups.\<close>

lemma omap_rebuild: "omap_inv m \<Longrightarrow> map (\<lambda>k. (k, the (omap_find m k))) (map fst m) = m"
proof -
  assume "omap_inv m"
  then have "distinct (map fst m)" by (simp add: omap_inv_def strict_sorted_iff)
  then show ?thesis by (auto intro: map_idI)
qed

lemma omap_ext:
  assumes "omap_inv a" "omap_inv b" "\<And>k. omap_find a k = omap_find b k"
  shows "a = b"
proof -
  have "map_of a = map_of b" using assms(3) by (rule ext)
  then have "fst ` set a = fst ` set b" by (metis dom_map_of_conv_image_fst)
  then have "map fst a = map fst b"
    using assms(1,2) by (intro sorted_distinct_set_unique) (simp_all add: omap_inv_def strict_sorted_iff)
  with omap_rebuild [OF assms(1)] omap_rebuild [OF assms(2)] \<open>map_of a = map_of b\<close> show ?thesis by metis
qed

lemma fold_emplace_sorted: "omap_inv m \<Longrightarrow> fold (\<lambda>(k, v). omap_emplace k v) m [] = m"
  using omap.fold_emplace_first [of "[]" m] omap.fold_emplace_invar [of "[]" m] by (intro omap_ext) simp_all

lemma map_of_rev_sorted: "omap_inv m \<Longrightarrow> map_of (rev m) = map_of m"
  by (rule map_of_inject_set [THEN iffD2]) (simp_all add: omap_inv_def strict_sorted_iff rev_map [symmetric])

lemma fold_assign_sorted: "omap_inv m \<Longrightarrow> fold (\<lambda>(k, v). omap_assign k v) m [] = m"
  using omap.fold_assign_last [of "[]" m] omap.fold_assign_invar [of "[]" m]
  by (intro omap_ext) (simp_all add: map_of_rev_sorted split: option.splits)

lemma omap_assign_same: "omap_inv m \<Longrightarrow> omap_find m k = Some v \<Longrightarrow> omap_assign k v m = m"
  by (intro omap_ext) simp_all

end
