(* ===== verification/Url_Encode.thy ===== *)
theory Url_Encode
  imports Prelude
begin

text \<open>
  Percent-encoding: \<^verbatim>\<open>src/src/utils/UrlEncode.cc\<close>, all of its functions, and the form variant
  of \<^verbatim>\<open>extensions/http/src/Form.cc\<close>, whose private helpers (\<^verbatim>\<open>isUnreserved\<close>, \<^verbatim>\<open>hexVal\<close>,
  \<^verbatim>\<open>percentEncode\<close>) are the same text and are modelled once.  The form parsers are here too.

  The lemmas give the three round trips through one locale for encoders that work byte by
  byte, and the facts the router and the request parser rely on: percent-decoding a path
  never creates a slash, and decoding never lengthens a string.
\<close>

section \<open>Helpers\<close>

definition kHex :: string where
  "kHex = ''0123456789ABCDEF''"

definition isUnreserved :: "char \<Rightarrow> bool" where
  "isUnreserved c \<longleftrightarrow>
     (let n = byte_of c in
      (65 \<le> n \<and> n \<le> (90::nat)) \<or> (97 \<le> n \<and> n \<le> 122) \<or> (48 \<le> n \<and> n \<le> 57)
      \<or> c = CHR ''-'' \<or> c = CHR ''_'' \<or> c = CHR ''.'' \<or> c = CHR ''~'')"

definition hexVal :: "char \<Rightarrow> int" where
  "hexVal c =
     (let n = int (byte_of c) in
      if 48 \<le> n \<and> n \<le> 57 then n - 48
      else if 65 \<le> n \<and> n \<le> 70 then n - 65 + 10
      else if 97 \<le> n \<and> n \<le> 102 then n - 97 + 10
      else - 1)"

definition percentEncode :: "char \<Rightarrow> string" where
  "percentEncode c = [CHR ''%'', kHex ! (byte_of c div 16), kHex ! (byte_of c mod 16)]"


section \<open>Decoding\<close>

text \<open>
  One iteration of the loop per equation; the branch for \<^verbatim>\<open>%\<close> looks two bytes ahead
  (\<^verbatim>\<open>i + 2 < input.size()\<close>) and keeps the sign when they are not hexadecimal digits.
\<close>

fun decodeImpl :: "bool \<Rightarrow> bool \<Rightarrow> string \<Rightarrow> string" where
  "decodeImpl decodePlus skipSlash [] = []"
| "decodeImpl decodePlus skipSlash (c # cs) =
     (if decodePlus \<and> c = CHR ''+'' then CHR '' '' # decodeImpl decodePlus skipSlash cs
      else if c = CHR ''%'' then
        (case cs of
           h # l # rest \<Rightarrow>
             (if 0 \<le> hexVal h \<and> 0 \<le> hexVal l then
                (let decoded = char_of (nat (hexVal h * 16 + hexVal l)) in
                 (if skipSlash \<and> decoded = CHR ''/'' then ''%2F'' else [decoded])
                 @ decodeImpl decodePlus skipSlash rest)
              else CHR ''%'' # decodeImpl decodePlus skipSlash cs)
         | _ \<Rightarrow> CHR ''%'' # decodeImpl decodePlus skipSlash cs)
      else c # decodeImpl decodePlus skipSlash cs)"

definition urlDecode :: "string \<Rightarrow> string" where
  "urlDecode input = decodeImpl False True input"

definition urlDecodeComponent :: "string \<Rightarrow> string" where
  "urlDecodeComponent input = decodeImpl True False input"

fun formDecode :: "string \<Rightarrow> string" where
  "formDecode [] = []"
| "formDecode (c # cs) =
     (if c = CHR ''+'' then CHR '' '' # formDecode cs
      else if c = CHR ''%'' then
        (case cs of
           h # l # rest \<Rightarrow>
             (if 0 \<le> hexVal h \<and> 0 \<le> hexVal l
              then char_of (nat (hexVal h * 16 + hexVal l)) # formDecode rest
              else CHR ''%'' # formDecode cs)
         | _ \<Rightarrow> CHR ''%'' # formDecode cs)
      else c # formDecode cs)"


section \<open>Encoding\<close>

fun urlEncode :: "string \<Rightarrow> string" where
  "urlEncode [] = []"
| "urlEncode (c # cs) =
     (if isUnreserved c \<or> c = CHR ''/'' then [c]
      else if c = CHR ''+'' then ''%2B''
      else percentEncode c) @ urlEncode cs"

fun urlEncodeComponent :: "string \<Rightarrow> string" where
  "urlEncodeComponent [] = []"
| "urlEncodeComponent (c # cs) =
     (if isUnreserved c then [c]
      else if c = CHR ''+'' then ''%2B''
      else percentEncode c) @ urlEncodeComponent cs"

fun formEncode :: "string \<Rightarrow> string" where
  "formEncode [] = []"
| "formEncode (c # cs) =
     (if isUnreserved c then [c]
      else if c = CHR '' '' then ''+''
      else if c = CHR ''+'' then ''%2B''
      else percentEncode c) @ formEncode cs"


section \<open>Form bodies\<close>

text \<open>
  \<^verbatim>\<open>parseFormData\<close> and \<^verbatim>\<open>parseMultiFormData\<close> walk over the pairs separated by \<^verbatim>\<open>&\<close>.  The first
  assigns (\<^verbatim>\<open>result[key] = value\<close>), the second appends to the key's vector; a part with no
  \<^verbatim>\<open>=\<close> assigns the empty string, and in the second the empty vector.
\<close>

definition form_pair :: "string \<Rightarrow> string omap \<Rightarrow> string omap" where
  "form_pair pair result =
     (case find_char CHR ''='' pair of
        Some eqPos \<Rightarrow>
          omap_assign (formDecode (take eqPos pair)) (formDecode (drop (eqPos + 1) pair)) result
      | None \<Rightarrow> if pair \<noteq> [] then omap_assign (formDecode pair) [] result else result)"

definition parseFormData :: "string \<Rightarrow> string omap" where
  "parseFormData formBody = scan_loop CHR ''&'' form_pair formBody 0 []"

definition push_back :: "string \<Rightarrow> string \<Rightarrow> string list omap \<Rightarrow> string list omap" where
  "push_back key v m =
     omap_assign key ((case omap_find m key of None \<Rightarrow> [] | Some vs \<Rightarrow> vs) @ [v]) m"

definition multi_form_pair :: "string \<Rightarrow> string list omap \<Rightarrow> string list omap" where
  "multi_form_pair pair result =
     (case find_char CHR ''='' pair of
        Some eqPos \<Rightarrow>
          push_back (formDecode (take eqPos pair)) (formDecode (drop (eqPos + 1) pair)) result
      | None \<Rightarrow> if pair \<noteq> [] then omap_assign (formDecode pair) [] result else result)"

definition parseMultiFormData :: "string \<Rightarrow> string list omap" where
  "parseMultiFormData formBody = scan_loop CHR ''&'' multi_form_pair formBody 0 []"


section \<open>Bytes and hexadecimal digits\<close>

lemma kHex_nth: "n < 16 \<Longrightarrow> kHex ! n = char_of (if n < 10 then 48 + n else 55 + n)"
proof -
  assume "n < 16"
  then have "n \<in> set [0..<16]" by simp
  moreover have "list_all (\<lambda>n. kHex ! n = char_of (if n < 10 then 48 + n else 55 + n)) [0..<16]"
    by code_simp
  ultimately show ?thesis by (simp only: list_all_iff)
qed

lemma hexVal_kHex: "n < 16 \<Longrightarrow> hexVal (kHex ! n) = int n"
  by (auto simp: kHex_nth hexVal_def Let_def)

lemma hexVal_range: "hexVal c < 16 \<and> - 1 \<le> hexVal c"
  by (auto simp: hexVal_def Let_def)

lemma percentEncode_decoded:
  "hexVal (kHex ! (of_char c div 16)) * 16 + hexVal (kHex ! (of_char c mod 16)) = int (of_char c)"
  "0 \<le> hexVal (kHex ! (of_char c div 16))" "0 \<le> hexVal (kHex ! (of_char c mod 16))"
proof -
  have b: "of_char c div 16 < (16::nat)"
    using of_char_less_256 [of c] by (intro less_mult_imp_div_less) simp
  show "hexVal (kHex ! (of_char c div 16)) * 16 + hexVal (kHex ! (of_char c mod 16)) = int (of_char c)"
    using b by (simp add: hexVal_kHex) (metis div_mult_mod_eq of_nat_add of_nat_mult of_nat_numeral)
  show "0 \<le> hexVal (kHex ! (of_char c div 16))" "0 \<le> hexVal (kHex ! (of_char c mod 16))"
    using b by (simp_all add: hexVal_kHex)
qed

lemma char_of_percentEncode:
  "char_of (nat (hexVal (kHex ! (of_char c div 16)) * 16 + hexVal (kHex ! (of_char c mod 16)))) = c"
  by (simp add: percentEncode_decoded)


lemma decodeImpl_percentEncode:
  "decodeImpl dp ss (percentEncode c @ rest) =
     (if ss \<and> c = CHR ''/'' then ''%2F'' else [c]) @ decodeImpl dp ss rest"
  by (simp add: percentEncode_def percentEncode_decoded char_of_percentEncode Let_def)

lemma formDecode_percentEncode: "formDecode (percentEncode c @ rest) = c # formDecode rest"
  by (simp add: percentEncode_def percentEncode_decoded char_of_percentEncode)

lemma isUnreserved_plain: "isUnreserved c \<Longrightarrow> c \<noteq> CHR ''%'' \<and> c \<noteq> CHR ''+''"
  by (auto simp: isUnreserved_def)

lemma decode_2B: "decodeImpl dp ss (''%2B'' @ rest) = CHR ''+'' # decodeImpl dp ss rest"
  using decodeImpl_percentEncode [of dp ss "CHR ''+''" rest] by (simp add: percentEncode_def kHex_def)


section \<open>Codecs that work byte by byte\<close>

locale byte_codec =
  fixes enc :: "string \<Rightarrow> string" and dec :: "string \<Rightarrow> string"
  assumes enc_Nil: "enc [] = []"
    and enc_Cons: "enc (c # cs) = enc [c] @ enc cs"
    and dec_Nil: "dec [] = []"
    and dec_unit: "dec (enc [c] @ rest) = c # dec rest"
begin

lemma enc_append: "enc (s @ t) = enc s @ enc t"
proof (induction s)
  case (Cons c s)
  then show ?case using enc_Cons [of c "s @ t"] enc_Cons [of c s] by simp
qed (simp add: enc_Nil)

lemma dec_enc_append: "dec (enc s @ rest) = s @ dec rest"
proof (induction s)
  case (Cons c s)
  then show ?case using enc_Cons [of c s] by (simp add: dec_unit)
qed (simp add: enc_Nil)

lemma round_trip: "dec (enc s) = s"
  using dec_enc_append [of s "[]"] by (simp add: dec_Nil)

lemma enc_inj: "enc s = enc t \<Longrightarrow> s = t"
  by (metis round_trip)

lemma enc_alphabet:
  assumes "\<And>c. P_list (enc [c])" "P_list []" "\<And>a b. P_list a \<Longrightarrow> P_list b \<Longrightarrow> P_list (a @ b)"
  shows "P_list (enc s)"
proof (induction s)
  case (Cons c s)
  then show ?case using enc_Cons [of c s] assms by simp
qed (simp add: enc_Nil assms)

end

interpretation url: byte_codec urlEncode urlDecode
  by unfold_locales
     (auto simp: urlDecode_def decode_2B [simplified] decodeImpl_percentEncode isUnreserved_plain)

interpretation component: byte_codec urlEncodeComponent urlDecodeComponent
  by unfold_locales
     (auto simp: urlDecodeComponent_def decode_2B [simplified] decodeImpl_percentEncode isUnreserved_plain)

lemma formDecode_2B: "formDecode (CHR ''%'' # CHR ''2'' # CHR ''B'' # rest) = CHR ''+'' # formDecode rest"
  using formDecode_percentEncode [of "CHR ''+''" rest] by (simp add: percentEncode_def kHex_def)

lemma formDecode_plain: "c \<noteq> CHR ''%'' \<Longrightarrow> c \<noteq> CHR ''+'' \<Longrightarrow> formDecode (c # rest) = c # formDecode rest"
  by simp

lemma formDecode_plus: "formDecode (CHR ''+'' # rest) = CHR '' '' # formDecode rest"
  by simp

interpretation form: byte_codec formEncode formDecode
proof unfold_locales
  fix c cs rest
  show "formEncode (c # cs) = formEncode [c] @ formEncode cs" by simp
  show "formDecode (formEncode [c] @ rest) = c # formDecode rest"
    using isUnreserved_plain [of c]
    by (cases "isUnreserved c")
       (auto simp: formDecode_2B formDecode_plain formDecode_plus formDecode_percentEncode
          simp del: formDecode.simps(2))
qed simp_all


section \<open>What decoding can and cannot produce\<close>

lemma hexVal_slash: "hexVal CHR ''/'' = - 1"
  by (simp add: hexVal_def)

declare decodeImpl.simps(2) [simp del]

text \<open>One iteration of the loop either copies a byte or consumes a percent triple.\<close>

lemma decodeImpl_step:
  obtains (empty) "s = []"
  | (copy) c c' cs where "s = c # cs" "decodeImpl dp ss s = c' # decodeImpl dp ss cs"
      "c' = c \<or> dp \<and> c = CHR ''+'' \<and> c' = CHR '' ''"
  | (hex) h l rest d where "s = CHR ''%'' # h # l # rest" "0 \<le> hexVal h" "0 \<le> hexVal l"
      "decodeImpl dp ss s = (if ss \<and> d = CHR ''/'' then ''%2F'' else [d]) @ decodeImpl dp ss rest"
proof (cases s)
  case Nil
  then show thesis by (rule empty)
next
  case (Cons c cs)
  show thesis
  proof (cases "c = CHR ''%'' \<and> (\<exists>h l rest. cs = h # l # rest \<and> 0 \<le> hexVal h \<and> 0 \<le> hexVal l)")
    case True
    then obtain h l rest where "c = CHR ''%''" "cs = h # l # rest" "0 \<le> hexVal h" "0 \<le> hexVal l"
      by blast
    with Cons show thesis
      by (intro hex [of h l rest "char_of (nat (hexVal h * 16 + hexVal l))"])
         (simp_all add: Let_def decodeImpl.simps(2) [of _ _ "CHR ''%''"])
  next
    case False
    then have "decodeImpl dp ss (c # cs) =
        (if dp \<and> c = CHR ''+'' then CHR '' '' else c) # decodeImpl dp ss cs"
      by (auto simp: decodeImpl.simps(2) [of dp ss c cs] split: list.splits)
    with Cons show thesis
      by (intro copy [of c cs "if dp \<and> c = CHR ''+'' then CHR '' '' else c"]) auto
  qed
qed

lemma decodeImpl_slashes:
  "count_list (decodeImpl False True s) CHR ''/'' = count_list s CHR ''/''"
proof (induction s rule: length_induct)
  case (1 s)
  show ?case
  proof (cases s rule: decodeImpl_step [where dp = False and ss = True])
    case (hex h l rest d)
    then have "h \<noteq> CHR ''/''" "l \<noteq> CHR ''/''" using hexVal_slash by auto
    with hex 1 show ?thesis by simp
  qed (use 1 in auto)
qed

lemma decodeImpl_length: "length (decodeImpl dp ss s) \<le> length s"
proof (induction s rule: length_induct)
  case (1 s)
  show ?case
  proof (cases s rule: decodeImpl_step [where dp = dp and ss = ss])
    case (hex h l rest d)
    with 1 have "length (decodeImpl dp ss rest) \<le> length rest" by simp
    with hex show ?thesis by (cases "ss \<and> d = CHR ''/''") auto
  qed (use 1 in auto)
qed

lemma percentEncode_alphabet: "c \<in> set (percentEncode d) \<Longrightarrow> isUnreserved c \<or> c = CHR ''%''"
proof -
  assume c: "c \<in> set (percentEncode d)"
  have "isUnreserved (kHex ! n)" if "n < 16" for n
    using that by (auto simp: kHex_nth isUnreserved_def Let_def)
  moreover have "of_char d div 16 < (16::nat)"
    using of_char_less_256 [of d] by (intro less_mult_imp_div_less) simp
  ultimately show ?thesis using c by (auto simp: percentEncode_def)
qed

lemma isUnreserved_2B: "isUnreserved CHR ''2''" "isUnreserved CHR ''B''"
  by (simp_all add: isUnreserved_def)

lemma formEncode_alphabet:
  "c \<in> set (formEncode s) \<Longrightarrow> isUnreserved c \<or> c = CHR ''+'' \<or> c = CHR ''%''"
  by (induction s) (auto dest: percentEncode_alphabet simp: isUnreserved_2B split: if_splits)

lemma urlEncodeComponent_alphabet:
  "c \<in> set (urlEncodeComponent s) \<Longrightarrow> isUnreserved c \<or> c = CHR ''%''"
  by (induction s) (auto dest: percentEncode_alphabet simp: isUnreserved_2B split: if_splits)

lemma urlEncode_alphabet:
  "c \<in> set (urlEncode s) \<Longrightarrow> isUnreserved c \<or> c = CHR ''%'' \<or> c = CHR ''/''"
  by (induction s) (auto dest: percentEncode_alphabet simp: isUnreserved_2B split: if_splits)

lemma isUnreserved_no_separator:
  "isUnreserved c \<Longrightarrow> c \<notin> {CHR ''&'', CHR ''='', CHR ''?'', CHR '' '', CHR ''#'', CHR 0x0D, CHR 0x0A}"
  by (auto simp: isUnreserved_def Let_def)


section \<open>Encoded lists of pairs\<close>

text \<open>Form bodies and query strings as a client writes them, for a codec of the two sides.\<close>

definition pair_text :: "(string \<Rightarrow> string) \<Rightarrow> string \<times> string \<Rightarrow> string" where
  "pair_text encode kv = encode (fst kv) @ CHR ''='' # encode (snd kv)"

fun pair_body :: "(string \<Rightarrow> string) \<Rightarrow> (string \<times> string) list \<Rightarrow> string" where
  "pair_body encode [] = []"
| "pair_body encode [kv] = pair_text encode kv"
| "pair_body encode (kv # kvs) = pair_text encode kv @ CHR ''&'' # pair_body encode kvs"

locale pair_codec = byte_codec +
  assumes no_amp: "CHR ''&'' \<notin> set (enc s)" and no_eq: "CHR ''='' \<notin> set (enc s)"
begin

lemma pair_text_facts: "pair_text enc kv \<noteq> []" "CHR ''&'' \<notin> set (pair_text enc kv)"
  by (simp_all add: pair_text_def no_amp)

lemma segments_pair_body: "segments CHR ''&'' (pair_body enc kvs) = map (pair_text enc) kvs"
  by (induction kvs rule: induct_list012)
     (simp_all add: segments_single segments_cons pair_text_facts)

lemma find_eq_pair_text: "find_char CHR ''='' (pair_text enc kv) = Some (length (enc (fst kv)))"
  by (simp add: pair_text_def find_char_append no_eq)

lemma pair_text_parts:
  "dec (take (length (enc (fst kv))) (pair_text enc kv)) = fst kv"
  "dec (drop (Suc (length (enc (fst kv)))) (pair_text enc kv)) = snd kv"
  by (simp_all add: pair_text_def round_trip)

lemma scan_pair_body:
  assumes "\<And>kv m. body (pair_text enc kv) m = (case kv of (k, v) \<Rightarrow> upd k v m)"
  shows "scan_loop CHR ''&'' body (pair_body enc kvs) 0 m = fold (\<lambda>(k, v). upd k v) kvs m"
proof -
  have "fold body (map (pair_text enc) kvs) m = fold (\<lambda>(k, v). upd k v) kvs m" for m
    by (induction kvs arbitrary: m) (auto simp: assms)
  then show ?thesis by (simp add: scan_loop_segments segments_pair_body)
qed

end

interpretation form: pair_codec formEncode formDecode
  using formEncode_alphabet isUnreserved_no_separator by unfold_locales fastforce+

interpretation component: pair_codec urlEncodeComponent urlDecodeComponent
  using urlEncodeComponent_alphabet isUnreserved_no_separator by unfold_locales fastforce+

abbreviation form_body :: "(string \<times> string) list \<Rightarrow> string" where
  "form_body kvs \<equiv> pair_body formEncode kvs"

abbreviation query_text :: "(string \<times> string) list \<Rightarrow> string" where
  "query_text kvs \<equiv> pair_body urlEncodeComponent kvs"

lemma parseFormData_form_body:
  "parseFormData (form_body kvs) = fold (\<lambda>(k, v). omap_assign k v) kvs []"
  unfolding parseFormData_def
  by (rule form.scan_pair_body)
     (simp add: form_pair_def form.find_eq_pair_text form.pair_text_parts split: prod.splits)

lemma parseMultiFormData_form_body:
  "parseMultiFormData (form_body kvs) = fold (\<lambda>(k, v). push_back k v) kvs []"
  unfolding parseMultiFormData_def
  by (rule form.scan_pair_body)
     (simp add: multi_form_pair_def form.find_eq_pair_text form.pair_text_parts split: prod.splits)

lemma find_push_back:
  "omap_find (push_back k v m) k' =
     (if k' = k then Some ((case omap_find m k of None \<Rightarrow> [] | Some vs \<Rightarrow> vs) @ [v]) else omap_find m k')"
  by (simp add: push_back_def)

lemma fold_push_back:
  "omap_find (fold (\<lambda>(k, v). push_back k v) kvs m) k =
     (if k \<in> fst ` set kvs
      then Some ((case omap_find m k of None \<Rightarrow> [] | Some vs \<Rightarrow> vs) @ map snd (filter (\<lambda>p. fst p = k) kvs))
      else omap_find m k)"
proof (induction kvs arbitrary: m)
  case (Cons kv kvs)
  have "filter (\<lambda>p. fst p = k) kvs = []" if "k \<notin> fst ` set kvs"
    using that by (auto simp: filter_empty_conv)
  with Cons show ?case by (cases kv) (auto simp: find_push_back split: option.splits)
qed simp


section \<open>Properties\<close>

text \<open>Percent-encoding a path with \<^verbatim>\<open>urlEncode\<close> and decoding it with \<^verbatim>\<open>urlDecode\<close> gives the
  path back, for every byte string: the slashes that \<^verbatim>\<open>urlEncode\<close> leaves alone are the only
  ones, so the slash rule of \<^verbatim>\<open>urlDecode\<close> does not interfere.  The component pair and the
  form pair are inverse in the same way.\<close>

theorem url_codecs_round_trip:
  "urlDecode (urlEncode s) = s \<and> urlDecodeComponent (urlEncodeComponent s) = s \<and>
   formDecode (formEncode s) = s"
  by (simp add: url.round_trip component.round_trip form.round_trip)

text \<open>Decoding the path of a request cannot change its division into segments: \<^verbatim>\<open>urlDecode\<close>
  produces exactly as many slashes as its input has, whatever percent triples (valid,
  invalid or cut off) the input contains, and never a longer string.\<close>

theorem urlDecode_keeps_slashes:
  "count_list (urlDecode s) CHR ''/'' = count_list s CHR ''/'' \<and> length (urlDecode s) \<le> length s"
  by (simp add: urlDecode_def decodeImpl_slashes decodeImpl_length)

text \<open>A form body written with \<^verbatim>\<open>formEncode\<close> is read back by both parsers: the single-value
  parser keeps the last value of every key, the multi-value parser keeps all values of
  every key in the order of the body, and neither has any other key.\<close>

theorem form_body_round_trip:
  "omap_find (parseFormData (form_body kvs)) k = map_of (rev kvs) k \<and>
   omap_find (parseMultiFormData (form_body kvs)) k =
     (if k \<in> fst ` set kvs then Some (map snd (filter (\<lambda>p. fst p = k) kvs)) else None)"
  using omap.fold_assign_last [of "[]" kvs k]
  by (auto simp: parseFormData_form_body parseMultiFormData_form_body fold_push_back split: option.splits)

text \<open>In \<^verbatim>\<open>parseMultiFormData\<close> a key that occurs once more without an equals sign loses the
  values collected for it: \<^verbatim>\<open>a=1&a=2&a\<close> gives the empty vector for \<^verbatim>\<open>a\<close>, while the same
  body without the last part gives both values.\<close>

theorem multi_form_valueless_key_resets:
  "parseMultiFormData ''a=1&a=2&a'' = [(''a'', [])] \<and>
   parseMultiFormData ''a=1&a=2'' = [(''a'', [''1'', ''2''])]"
  by (simp add: parseMultiFormData_def scan_loop_segments segments.simps multi_form_pair_def
      find_char_def push_back_def)

end
