(* ===== verification/Base64.thy ===== *)
theory Base64
  imports Prelude
begin

unbundle bit_operations_syntax

text \<open>
  \<^verbatim>\<open>src/src/utils/Base64.cc\<close>: the two tables, \<^verbatim>\<open>base64Encode\<close> and \<^verbatim>\<open>base64Decode\<close>.  The decoder
  writes into a result string of a length it computes first; every read of the input and
  every write of the result is checked in the model, and an access outside of its string
  is the error \<open>Out_of_bounds\<close>.  The lemmas show that no access of a call on a non-empty
  input is out of bounds, and that decoding inverts encoding.
\<close>

section \<open>Tables\<close>

definition kEncTable :: string where
  "kEncTable = ''ABCDEFGHIJKLMNOPQRSTUVWXYZabcdefghijklmnopqrstuvwxyz0123456789+/''"

definition kDecTable :: "int list" where
  "kDecTable = [
    -1,-1,-1,-1,-1,-1,-1,-1,-1,-1,-1,-1,-1,-1,-1,-1,
    -1,-1,-1,-1,-1,-1,-1,-1,-1,-1,-1,-1,-1,-1,-1,-1,
    -1,-1,-1,-1,-1,-1,-1,-1,-1,-1,-1,62,-1,-1,-1,63,
    52,53,54,55,56,57,58,59,60,61,-1,-1,-1,-1,-1,-1,
    -1, 0, 1, 2, 3, 4, 5, 6, 7, 8, 9,10,11,12,13,14,
    15,16,17,18,19,20,21,22,23,24,25,-1,-1,-1,-1,-1,
    -1,26,27,28,29,30,31,32,33,34,35,36,37,38,39,40,
    41,42,43,44,45,46,47,48,49,50,51,-1,-1,-1,-1,-1,
    -1,-1,-1,-1,-1,-1,-1,-1,-1,-1,-1,-1,-1,-1,-1,-1,
    -1,-1,-1,-1,-1,-1,-1,-1,-1,-1,-1,-1,-1,-1,-1,-1,
    -1,-1,-1,-1,-1,-1,-1,-1,-1,-1,-1,-1,-1,-1,-1,-1,
    -1,-1,-1,-1,-1,-1,-1,-1,-1,-1,-1,-1,-1,-1,-1,-1,
    -1,-1,-1,-1,-1,-1,-1,-1,-1,-1,-1,-1,-1,-1,-1,-1,
    -1,-1,-1,-1,-1,-1,-1,-1,-1,-1,-1,-1,-1,-1,-1,-1,
    -1,-1,-1,-1,-1,-1,-1,-1,-1,-1,-1,-1,-1,-1,-1,-1,
    -1,-1,-1,-1,-1,-1,-1,-1,-1,-1,-1,-1,-1,-1,-1,-1]"

definition enc_at :: "u8 \<Rightarrow> char" where
  "enc_at w = kEncTable ! unat w"

definition dec_at :: "char \<Rightarrow> int" where
  "dec_at c = kDecTable ! of_char c"


section \<open>Encoding\<close>

fun encode_bytes :: "u8 list \<Rightarrow> string" where
  "encode_bytes (a # b # c # rest) =
     enc_at (drop_bit 2 a)
     # enc_at (push_bit 4 (a AND 3) OR drop_bit 4 b)
     # enc_at (push_bit 2 (b AND 0xf) OR drop_bit 6 c)
     # enc_at (c AND 0x3f)
     # encode_bytes rest"
| "encode_bytes [a, b] =
     [enc_at (drop_bit 2 a), enc_at (push_bit 4 (a AND 3) OR drop_bit 4 b),
      enc_at (push_bit 2 (b AND 0xf)), CHR ''='']"
| "encode_bytes [a] =
     [enc_at (drop_bit 2 a), enc_at (push_bit 4 (a AND 3)), CHR ''='', CHR ''='']"
| "encode_bytes [] = []"

definition base64Encode :: "string \<Rightarrow> string" where
  "base64Encode input = encode_bytes (map to_u8 input)"


section \<open>Decoding\<close>

datatype b64_error = Invalid_character | Out_of_bounds

definition write_at :: "nat \<Rightarrow> u8 \<Rightarrow> string \<Rightarrow> b64_error + string" where
  "write_at j w result = (if j < length result then Inr (result[j := from_u8 w]) else Inl Out_of_bounds)"

definition pad_input :: "string \<Rightarrow> string" where
  "pad_input input =
     (if length input mod 4 \<noteq> 0 then input @ replicate (4 - length input mod 4) CHR ''='' else input)"

definition out_len :: "string \<Rightarrow> nat" where
  "out_len input =
     (length input div 4) * 3
     - (if input ! (length input - 1) = CHR ''='' then 1 else 0)
     - (if input ! (length input - 2) = CHR ''='' then 1 else 0)"

text \<open>One iteration: up to three writes, each behind its own check of the table value.\<close>

definition decode_group ::
  "char \<Rightarrow> char \<Rightarrow> char \<Rightarrow> char \<Rightarrow> string \<Rightarrow> nat \<Rightarrow> b64_error + string \<times> nat" where
  "decode_group ca cb cc cd result j =
     (let a = dec_at ca; b = dec_at cb; c = dec_at cc; d = dec_at cd;
          wa = word_of_int a; wb = word_of_int b; wc = word_of_int c; wd = word_of_int d in
      if a < 0 \<or> b < 0 then Inl Invalid_character
      else case write_at j (push_bit 2 wa OR drop_bit 4 wb) result of
        Inl e \<Rightarrow> Inl e
      | Inr r1 \<Rightarrow>
          (case (if cc \<noteq> CHR ''='' then
                   (if c < 0 then Inl Invalid_character
                    else map_sum id (\<lambda>r. (r, j + 2))
                           (write_at (j + 1) (push_bit 4 (wb AND 0xf) OR drop_bit 2 wc) r1))
                 else Inr (r1, j + 1)) of
             Inl e \<Rightarrow> Inl e
           | Inr (r2, j2) \<Rightarrow>
               (if cd \<noteq> CHR ''='' then
                  (if d < 0 then Inl Invalid_character
                   else map_sum id (\<lambda>r. (r, j2 + 1)) (write_at j2 (push_bit 6 (wc AND 3) OR wd) r2))
                else Inr (r2, j2))))"

fun decode_loop :: "string \<Rightarrow> string \<Rightarrow> nat \<Rightarrow> b64_error + string" where
  "decode_loop [] result j = Inr result"
| "decode_loop (ca # cb # cc # cd # rest) result j =
     (case decode_group ca cb cc cd result j of
        Inl e \<Rightarrow> Inl e
      | Inr (result', j') \<Rightarrow> decode_loop rest result' j')"
| "decode_loop _ result j = Inl Out_of_bounds"

definition base64Decode :: "string \<Rightarrow> b64_error + string" where
  "base64Decode input =
     (let padded = pad_input input in
      if padded = [] then Inl Out_of_bounds
      else decode_loop padded (replicate (out_len padded) (CHR 0x00)) 0)"

section \<open>The tables are inverse\<close>

lemma dec_enc_table:
  "list_all (\<lambda>n. kDecTable ! of_char (kEncTable ! n) = int n \<and> kEncTable ! n \<noteq> CHR ''='') [0..<64]"
  by code_simp

lemma dec_at_enc_at:
  assumes "take_bit 6 w = w"
  shows "dec_at (enc_at w) = uint w" and "enc_at w \<noteq> CHR ''=''"
proof -
  have "unat w = take_bit 6 (unat w)" using assms by (metis unsigned_take_bit_eq)
  then have "unat w < 64" using take_bit_nat_less_exp [of 6 "unat w"] by simp
  then show "dec_at (enc_at w) = uint w" "enc_at w \<noteq> CHR ''=''"
    using dec_enc_table by (auto simp: list_all_iff dec_at_def enc_at_def)
qed


section \<open>Sextets\<close>

lemma byte_eqI:
  fixes a b :: u8
  assumes "bit a 0 = bit b 0" "bit a 1 = bit b 1" "bit a 2 = bit b 2" "bit a 3 = bit b 3"
    "bit a 4 = bit b 4" "bit a 5 = bit b 5" "bit a 6 = bit b 6" "bit a 7 = bit b 7"
  shows "a = b"
proof (rule bit_word_eqI)
  fix n assume "n < LENGTH(8)"
  then have "n \<in> {0, 1, 2, 3, 4, 5, 6, 7}" by auto
  then show "bit a n = bit b n" using assms by auto
qed

lemma byte_high: "8 \<le> n \<Longrightarrow> \<not> bit (a :: u8) n"
  using bit_imp_le_length [of a n] by auto

lemma byte_masks:
  fixes a :: u8
  shows "a AND 3 = take_bit 2 a" "a AND 0xf = take_bit 4 a" "a AND 0x3f = take_bit 6 a"
  by (simp_all add: take_bit_eq_mask mask_eq_exp_minus_1)

lemma sextets_small:
  fixes a b c :: u8
  shows "take_bit 6 (drop_bit 2 a) = drop_bit 2 a"
    and "take_bit 6 (push_bit 4 (take_bit 2 a) OR drop_bit 4 b) = push_bit 4 (take_bit 2 a) OR drop_bit 4 b"
    and "take_bit 6 (push_bit 2 (take_bit 4 b) OR drop_bit 6 c) = push_bit 2 (take_bit 4 b) OR drop_bit 6 c"
    and "take_bit 6 (push_bit 4 (take_bit 2 a)) = push_bit 4 (take_bit 2 a)"
    and "take_bit 6 (push_bit 2 (take_bit 4 b)) = push_bit 2 (take_bit 4 b)"
    and "take_bit 6 (take_bit 6 c) = take_bit 6 c"
  by (rule byte_eqI; simp add: bit_simps byte_high)+

lemma sextets_join:
  fixes a b c :: u8
  shows "push_bit 2 (drop_bit 2 a) OR drop_bit 4 (push_bit 4 (take_bit 2 a) OR drop_bit 4 b) = a"
    and "push_bit 2 (drop_bit 2 a) OR drop_bit 4 (push_bit 4 (take_bit 2 a)) = a"
    and "push_bit 4 (take_bit 4 (push_bit 4 (take_bit 2 a) OR drop_bit 4 b)) OR
           drop_bit 2 (push_bit 2 (take_bit 4 b) OR drop_bit 6 c) = b"
    and "push_bit 4 (take_bit 4 (push_bit 4 (take_bit 2 a) OR drop_bit 4 b)) OR
           drop_bit 2 (push_bit 2 (take_bit 4 b)) = b"
    and "push_bit 6 (take_bit 2 (push_bit 2 (take_bit 4 b) OR drop_bit 6 c)) OR take_bit 6 c = c"
  by (rule byte_eqI; simp add: bit_simps byte_high)+

lemmas dec_sextets = sextets_small [THEN dec_at_enc_at(1)] sextets_small [THEN dec_at_enc_at(2)]
lemmas sextet_simps = byte_masks sextets_join dec_sextets
lemmas encode_bytes_masked = encode_bytes.simps [unfolded byte_masks]


section \<open>Decoding inverts encoding\<close>

lemma decode_group_3:
  "j + 2 < length r \<Longrightarrow>
   decode_group (enc_at (drop_bit 2 a)) (enc_at (push_bit 4 (take_bit 2 a) OR drop_bit 4 b))
     (enc_at (push_bit 2 (take_bit 4 b) OR drop_bit 6 c)) (enc_at (take_bit 6 c)) r j =
   Inr (r[j := from_u8 a, Suc j := from_u8 b, Suc (Suc j) := from_u8 c], Suc (Suc (Suc j)))"
  by (simp add: decode_group_def Let_def sextet_simps write_at_def del: take_bit_or push_bit_or drop_bit_or)

lemma decode_group_2:
  "j + 1 < length r \<Longrightarrow>
   decode_group (enc_at (drop_bit 2 a)) (enc_at (push_bit 4 (take_bit 2 a) OR drop_bit 4 b))
     (enc_at (push_bit 2 (take_bit 4 b))) CHR ''='' r j =
   Inr (r[j := from_u8 a, Suc j := from_u8 b], Suc (Suc j))"
  by (simp add: decode_group_def Let_def sextet_simps write_at_def del: take_bit_or push_bit_or drop_bit_or)

lemma decode_group_1:
  "j < length r \<Longrightarrow>
   decode_group (enc_at (drop_bit 2 a)) (enc_at (push_bit 4 (take_bit 2 a))) CHR ''='' CHR ''='' r j =
   Inr (r[j := from_u8 a], j + 1)"
  by (simp add: decode_group_def Let_def sextet_simps write_at_def del: take_bit_or push_bit_or drop_bit_or)

lemma decode_encode_loop:
  "decode_loop (encode_bytes ws) (pre @ replicate (length ws) (CHR 0x00)) (length pre) =
     Inr (pre @ map from_u8 ws)"
proof (induction ws arbitrary: pre rule: encode_bytes.induct)
  case (1 a b c rest)
  have "decode_loop (encode_bytes (a # b # c # rest))
          (pre @ replicate (length (a # b # c # rest)) (CHR 0x00)) (length pre) =
        decode_loop (encode_bytes rest)
          ((pre @ [from_u8 a, from_u8 b, from_u8 c]) @ replicate (length rest) (CHR 0x00))
          (length (pre @ [from_u8 a, from_u8 b, from_u8 c]))"
    by (simp add: encode_bytes_masked decode_group_3 list_update_append del: encode_bytes.simps)
  then show ?case by (simp only: "1.IH") simp
qed (simp_all add: encode_bytes_masked decode_group_2 decode_group_1 list_update_append
       del: encode_bytes.simps(1-3))

lemma length_encode_bytes: "length (encode_bytes ws) = (length ws + 2) div 3 * 4"
proof (induction ws rule: encode_bytes.induct)
  case (1 a b c rest)
  have "(length (a # b # c # rest) + 2) div 3 = (length rest + 2) div 3 + 1" by simp
  with 1 show ?case by simp
qed auto

lemma out_len_step:
  assumes "4 \<le> length r"
  shows "out_len (x # y # z # t # r) = out_len r + 3"
proof -
  have "(4 + length r) div 4 = length r div 4 + 1" by simp
  then have "(4 + length r) div 4 * 3 = length r div 4 * 3 + 3" by (simp only: distrib_right)
  moreover have "(x # y # z # t # r) ! (length r + 3) = r ! (length r - 1)"
    "(x # y # z # t # r) ! (length r + 2) = r ! (length r - 2)"
    using assms by (auto simp: nth_Cons' Suc_diff_le numeral_2_eq_2)
  moreover have "3 \<le> length r div 4 * 3" using assms by simp
  ultimately show ?thesis by (simp add: out_len_def)
qed

lemma out_len_encode: "ws \<noteq> [] \<Longrightarrow> out_len (encode_bytes ws) = length ws"
proof (induction ws rule: encode_bytes.induct)
  case (1 a b c rest)
  show ?case
  proof (cases rest)
    case Nil
    then show ?thesis by (simp add: out_len_def encode_bytes_masked dec_sextets del: encode_bytes.simps(1-3))
  next
    case (Cons w ws)
    then have "4 \<le> length (encode_bytes rest)" by (simp add: length_encode_bytes)
    with 1 Cons show ?thesis by (simp add: out_len_step)
  qed
qed (simp_all add: out_len_def encode_bytes_masked dec_sextets del: encode_bytes.simps(1-3))


section \<open>No access is out of bounds\<close>

definition group_writes :: "char \<Rightarrow> char \<Rightarrow> nat" where
  "group_writes cc cd = 1 + (if cc \<noteq> CHR ''='' then 1 else 0) + (if cd \<noteq> CHR ''='' then 1 else 0)"

fun total_writes :: "string \<Rightarrow> nat" where
  "total_writes (ca # cb # cc # cd # rest) = group_writes cc cd + total_writes rest"
| "total_writes _ = 0"

lemma decode_group_safe:
  assumes "j + group_writes cc cd \<le> length result"
  shows "decode_group ca cb cc cd result j \<noteq> Inl Out_of_bounds"
    and "decode_group ca cb cc cd result j = Inr (r', j') \<Longrightarrow>
           length r' = length result \<and> j' = j + group_writes cc cd"
  using assms
  by (auto simp: decode_group_def group_writes_def write_at_def Let_def split: if_splits)

lemma decode_loop_safe:
  "length inp mod 4 = 0 \<Longrightarrow> j + total_writes inp \<le> length result \<Longrightarrow>
   decode_loop inp result j \<noteq> Inl Out_of_bounds"
proof (induction inp result j rule: decode_loop.induct)
  case (2 ca cb cc cd rest result j)
  have w: "j + group_writes cc cd \<le> length result" using "2.prems" by simp
  show ?case
  proof (cases "decode_group ca cb cc cd result j")
    case (Inl e)
    with decode_group_safe(1) [OF w] show ?thesis by auto
  next
    case (Inr p)
    obtain r' j' where p: "p = (r', j')" by fastforce
    with Inr decode_group_safe(2) [OF w, of ca cb r' j'] 2 show ?thesis by auto
  qed
qed auto

lemma total_writes_le_out_len:
  "length inp mod 4 = 0 \<Longrightarrow> inp \<noteq> [] \<Longrightarrow> total_writes inp \<le> out_len inp"
proof (induction inp rule: total_writes.induct)
  case (1 ca cb cc cd rest)
  show ?case
  proof (cases "rest = []")
    case True
    then show ?thesis by (auto simp: out_len_def group_writes_def)
  next
    case False
    with "1.prems" have "4 \<le> length rest" by (cases "length rest < 4") auto
    with 1 False show ?thesis by (simp add: out_len_step group_writes_def)
  qed
qed auto

lemma pad_input_facts: "length (pad_input s) mod 4 = 0" "pad_input s = [] \<longleftrightarrow> s = []"
proof -
  show "length (pad_input s) mod 4 = 0"
  proof (cases "length s mod 4 = 0")
    case False
    have "(length s + (4 - length s mod 4)) mod 4 = 0" by presburger
    with False show ?thesis by (simp add: pad_input_def)
  qed (simp add: pad_input_def)
qed (auto simp: pad_input_def)

lemma pad_input_id: "length s mod 4 = 0 \<Longrightarrow> pad_input s = s"
  by (simp add: pad_input_def)


section \<open>Properties\<close>

text \<open>\<^verbatim>\<open>base64Decode\<close> inverts \<^verbatim>\<open>base64Encode\<close> on every non-empty byte string, and the encoding
  has the length that \<^verbatim>\<open>base64Encode\<close> reserves for it.\<close>

theorem base64_round_trip:
  assumes "s \<noteq> []"
  shows "base64Decode (base64Encode s) = Inr s \<and> length (base64Encode s) = (length s + 2) div 3 * 4"
proof -
  let ?ws = "map to_u8 s"
  have "encode_bytes ?ws \<noteq> []"
    using assms by (cases ?ws rule: encode_bytes.cases) auto
  moreover have "length (encode_bytes ?ws) mod 4 = 0"
    by (simp add: length_encode_bytes)
  ultimately have e: "length (encode_bytes ?ws) mod 4 = 0" "encode_bytes ?ws \<noteq> []" by auto
  have "decode_loop (encode_bytes ?ws) (replicate (length s) (CHR 0x00)) 0 = Inr s"
    using decode_encode_loop [of ?ws "[]"] by (simp add: comp_def)
  then show ?thesis using assms e
    by (simp add: base64Decode_def base64Encode_def pad_input_id out_len_encode length_encode_bytes)
qed

theorem base64_round_trip_witness:
  "base64Decode (base64Encode ''Man!'') = Inr ''Man!'' \<and> length (base64Encode ''Man!'') = 8"
  using base64_round_trip [of "''Man!''"] by simp

text \<open>Memory safety of \<^verbatim>\<open>base64Decode\<close>: for every non-empty input, well formed or not, padded
  or not, every read and write stays inside its string.  The empty input is the only one
  for which the code reads outside of it (\<^verbatim>\<open>input[input.size() - 1]\<close>).\<close>

theorem base64Decode_in_bounds:
  "base64Decode input = Inl Out_of_bounds \<longleftrightarrow> input = []"
proof
  assume oob: "base64Decode input = Inl Out_of_bounds"
  show "input = []"
  proof (rule ccontr)
    assume "input \<noteq> []"
    then have "pad_input input \<noteq> []" by (simp add: pad_input_facts)
    moreover from this have "total_writes (pad_input input) \<le> out_len (pad_input input)"
      using pad_input_facts(1) by (intro total_writes_le_out_len)
    ultimately show False
      using oob decode_loop_safe [OF pad_input_facts(1), of 0 input
          "replicate (out_len (pad_input input)) (CHR 0x00)"]
      by (simp add: base64Decode_def Let_def)
  qed
qed (simp add: base64Decode_def pad_input_def)

end
