(* ===== verification/Digest.thy ===== *)
theory Digest
  imports Prelude
begin

unbundle bit_operations_syntax

text \<open>
  The message digests of \<^verbatim>\<open>src/src/utils/Sha1.cc\<close> and \<^verbatim>\<open>src/src/utils/Md5.cc\<close> on 32-bit and
  64-bit words: padding, message schedule, rounds, and the hexadecimal printing.  The
  length of the padded message is computed as the code computes it, with the 32-bit mask
  \<^verbatim>\<open>~63u\<close> applied to a 64-bit length, and writing behind the end of the padded buffer is the
  value \<^const>\<open>None\<close>.
\<close>

section \<open>Padding\<close>

text \<open>\<^verbatim>\<open>padLen = input.size() + 1 + 8; padLen = (padLen + 63) & ~63u\<close>\<close>

definition pad_len :: "u64 \<Rightarrow> u64" where
  "pad_len sz = (sz + 1 + 8 + 63) AND 0xFFFFFFC0"

definition be_bytes64 :: "u64 \<Rightarrow> u8 list" where
  "be_bytes64 n = map (\<lambda>i. ucast (drop_bit (56 - i * 8) n)) [0..<8]"

definition le_bytes64 :: "u64 \<Rightarrow> u8 list" where
  "le_bytes64 n = map (\<lambda>i. ucast (drop_bit (i * 8) n)) [0..<8]"

text \<open>
  The zero-filled buffer of \<^verbatim>\<open>padLen\<close> bytes after the message, the byte \<^verbatim>\<open>0x80\<close> and the
  encoded bit length were stored; \<^const>\<open>None\<close> when the message and the marker do not fit.
\<close>

definition pad_message :: "(u64 \<Rightarrow> u8 list) \<Rightarrow> u8 list \<Rightarrow> u8 list option" where
  "pad_message len_bytes input =
     (let sz = of_nat (length input); padLen = unat (pad_len sz);
          msg = replicate padLen 0
      in if length input < padLen \<and> 8 \<le> padLen
         then (let m1 = input @ drop (length input) msg;
                   m2 = m1[length input := 0x80]
               in Some (take (padLen - 8) m2 @ len_bytes (sz * 8)))
         else None)"

fun chunks64 :: "'a list \<Rightarrow> 'a list list" where
  "chunks64 xs = (if xs = [] then [] else take 64 xs # chunks64 (drop 64 xs))"

declare chunks64.simps [simp del]

fun words_be :: "u8 list \<Rightarrow> u32 list" where
  "words_be (a # b # c # d # r) =
     (push_bit 24 (ucast a) OR push_bit 16 (ucast b) OR push_bit 8 (ucast c) OR ucast d) # words_be r"
| "words_be _ = []"

fun words_le :: "u8 list \<Rightarrow> u32 list" where
  "words_le (a # b # c # d # r) =
     (ucast a OR push_bit 8 (ucast b) OR push_bit 16 (ucast c) OR push_bit 24 (ucast d)) # words_le r"
| "words_le _ = []"

definition rotl :: "nat \<Rightarrow> u32 \<Rightarrow> u32" where
  "rotl n x = push_bit n x OR drop_bit (32 - n) x"


section \<open>SHA-1\<close>

type_synonym sha1_state = "u32 \<times> u32 \<times> u32 \<times> u32 \<times> u32"

definition sha1_init :: sha1_state where
  "sha1_init = (0x67452301, 0xEFCDAB89, 0x98BADCFE, 0x10325476, 0xC3D2E1F0)"

text \<open>\<^verbatim>\<open>w[i] = rotl(w[i - 3] ^ w[i - 8] ^ w[i - 14] ^ w[i - 16], 1)\<close> for \<open>i\<close> from 16 to 79.\<close>

fun sha1_extend :: "nat \<Rightarrow> u32 list \<Rightarrow> u32 list" where
  "sha1_extend 0 w = w"
| "sha1_extend (Suc n) w =
     (let i = length w in
      sha1_extend n (w @ [rotl 1 (w ! (i - 3) XOR w ! (i - 8) XOR w ! (i - 14) XOR w ! (i - 16))]))"

definition sha1_schedule :: "u8 list \<Rightarrow> u32 list" where
  "sha1_schedule block = sha1_extend 64 (words_be block)"

definition sha1_fk :: "nat \<Rightarrow> u32 \<Rightarrow> u32 \<Rightarrow> u32 \<Rightarrow> u32 \<times> u32" where
  "sha1_fk i b c d =
     (if i < 20 then ((b AND c) OR (NOT b AND d), 0x5A827999)
      else if i < 40 then (b XOR c XOR d, 0x6ED9EBA1)
      else if i < 60 then ((b AND c) OR (b AND d) OR (c AND d), 0x8F1BBCDC)
      else (b XOR c XOR d, 0xCA62C1D6))"

fun sha1_round :: "nat \<times> u32 \<Rightarrow> sha1_state \<Rightarrow> sha1_state" where
  "sha1_round (i, wi) (a, b, c, d, e) =
     (let (f, k) = sha1_fk i b c d;
          tmp = rotl 5 a + f + e + k + wi
      in (tmp, a, rotl 30 b, c, d))"

fun sha1_block :: "u8 list \<Rightarrow> sha1_state \<Rightarrow> sha1_state" where
  "sha1_block block (h0, h1, h2, h3, h4) =
     (case fold sha1_round (zip [0..<80] (sha1_schedule block)) (h0, h1, h2, h3, h4) of
        (a, b, c, d, e) \<Rightarrow> (h0 + a, h1 + b, h2 + c, h3 + d, h4 + e))"

definition store_be :: "u32 \<Rightarrow> u8 list" where
  "store_be h = [ucast (drop_bit 24 h), ucast (drop_bit 16 h), ucast (drop_bit 8 h), ucast h]"

definition sha1 :: "u8 list \<Rightarrow> u8 list option" where
  "sha1 input =
     map_option (\<lambda>msg.
       case fold sha1_block (chunks64 msg) sha1_init of
         (h0, h1, h2, h3, h4) \<Rightarrow>
           store_be h0 @ store_be h1 @ store_be h2 @ store_be h3 @ store_be h4)
     (pad_message be_bytes64 input)"

definition hex_lower :: string where
  "hex_lower = ''0123456789abcdef''"

definition hex_digest :: "u8 list \<Rightarrow> string" where
  "hex_digest d = concat (map (\<lambda>b. [hex_lower ! unat (drop_bit 4 b), hex_lower ! unat (b AND 0xf)]) d)"

definition sha1Hex :: "string \<Rightarrow> string option" where
  "sha1Hex input = map_option hex_digest (sha1 (map to_u8 input))"


section \<open>MD5\<close>

definition kS :: "nat list" where
  "kS = [
    7,12,17,22, 7,12,17,22, 7,12,17,22, 7,12,17,22,
    5, 9,14,20, 5, 9,14,20, 5, 9,14,20, 5, 9,14,20,
    4,11,16,23, 4,11,16,23, 4,11,16,23, 4,11,16,23,
    6,10,15,21, 6,10,15,21, 6,10,15,21, 6,10,15,21]"

definition kK :: "u32 list" where
  "kK = [
    0xd76aa478,0xe8c7b756,0x242070db,0xc1bdceee,0xf57c0faf,0x4787c62a,0xa8304613,0xfd469501,
    0x698098d8,0x8b44f7af,0xffff5bb1,0x895cd7be,0x6b901122,0xfd987193,0xa679438e,0x49b40821,
    0xf61e2562,0xc040b340,0x265e5a51,0xe9b6c7aa,0xd62f105d,0x02441453,0xd8a1e681,0xe7d3fbc8,
    0x21e1cde6,0xc33707d6,0xf4d50d87,0x455a14ed,0xa9e3e905,0xfcefa3f8,0x676f02d9,0x8d2a4c8a,
    0xfffa3942,0x8771f681,0x6d9d6122,0xfde5380c,0xa4beea44,0x4bdecfa9,0xf6bb4b60,0xbebfbc70,
    0x289b7ec6,0xeaa127fa,0xd4ef3085,0x04881d05,0xd9d4d039,0xe6db99e5,0x1fa27cf8,0xc4ac5665,
    0xf4292244,0x432aff97,0xab9423a7,0xfc93a039,0x655b59c3,0x8f0ccc92,0xffeff47d,0x85845dd1,
    0x6fa87e4f,0xfe2ce6e0,0xa3014314,0x4e0811a1,0xf7537e82,0xbd3af235,0x2ad7d2bb,0xeb86d391]"

type_synonym md5_state = "u32 \<times> u32 \<times> u32 \<times> u32"

definition md5_init :: md5_state where
  "md5_init = (0x67452301, 0xefcdab89, 0x98badcfe, 0x10325476)"

definition md5_fg :: "nat \<Rightarrow> u32 \<Rightarrow> u32 \<Rightarrow> u32 \<Rightarrow> u32 \<times> nat" where
  "md5_fg i B C D =
     (if i < 16 then ((B AND C) OR (NOT B AND D), i)
      else if i < 32 then ((D AND B) OR (NOT D AND C), (5 * i + 1) mod 16)
      else if i < 48 then (B XOR C XOR D, (3 * i + 5) mod 16)
      else (C XOR (B OR NOT D), (7 * i) mod 16))"

fun md5_round :: "u32 list \<Rightarrow> nat \<Rightarrow> md5_state \<Rightarrow> md5_state" where
  "md5_round M i (A, B, C, D) =
     (let (F0, g) = md5_fg i B C D;
          F = F0 + (A + kK ! i + M ! g)
      in (D, B + rotl (kS ! i) F, B, C))"

fun md5_block :: "u8 list \<Rightarrow> md5_state \<Rightarrow> md5_state" where
  "md5_block block (a0, b0, c0, d0) =
     (case fold (md5_round (words_le block)) [0..<64] (a0, b0, c0, d0) of
        (A, B, C, D) \<Rightarrow> (a0 + A, b0 + B, c0 + C, d0 + D))"

definition store_le :: "u32 \<Rightarrow> u8 list" where
  "store_le h = [ucast h, ucast (drop_bit 8 h), ucast (drop_bit 16 h), ucast (drop_bit 24 h)]"

definition md5 :: "u8 list \<Rightarrow> u8 list option" where
  "md5 input =
     map_option (\<lambda>msg.
       case fold md5_block (chunks64 msg) md5_init of
         (a0, b0, c0, d0) \<Rightarrow> store_le a0 @ store_le b0 @ store_le c0 @ store_le d0)
     (pad_message le_bytes64 input)"

definition md5Hex :: "string \<Rightarrow> string option" where
  "md5Hex input = map_option hex_digest (md5 (map to_u8 input))"


section \<open>The padded length\<close>

lemma mask_low_words: "(x :: u64) AND 0xFFFFFFC0 = take_bit 32 (push_bit 6 (drop_bit 6 x))"
proof -
  have m: "(0xFFFFFFC0 :: u64) = push_bit 6 (mask 26)"
    by (simp add: mask_eq_exp_minus_1)
  show ?thesis
    unfolding m by (rule bit_word_eqI) (auto simp: bit_simps)
qed

lemma unat_pad_len:
  assumes "n < 2 ^ 63"
  shows "unat (pad_len (of_nat n)) = ((n + 72) div 64 * 64) mod 2 ^ 32"
proof -
  have w: "(of_nat n + 1 + 8 + 63 :: u64) = of_nat (n + 72)" by simp
  have u: "unat (of_nat (n + 72) :: u64) = n + 72"
  proof -
    have "n + 72 < 2 ^ LENGTH(64)" using assms by simp
    then show ?thesis by (simp only: unat_of_nat mod_less)
  qed
  have d: "unat (drop_bit 6 (of_nat (n + 72) :: u64)) = (n + 72) div 64"
    unfolding unat_drop_bit_eq u by (simp add: drop_bit_eq_div)
  have p: "unat (push_bit 6 (drop_bit 6 (of_nat (n + 72) :: u64))) = (n + 72) div 64 * 64"
  proof -
    have "(n + 72) div 64 * 64 < 2 ^ 64" using assms by simp
    then show ?thesis using d by (simp add: push_bit_eq_mult unat_word_ariths mult.commute)
  qed
  show ?thesis
    unfolding pad_len_def w mask_low_words unsigned_take_bit_eq p
    by (simp add: take_bit_eq_mod)
qed



lemma pad_len_least:
  assumes "n + 72 < 2 ^ 32"
  shows "unat (pad_len (of_nat n)) = (n + 72) div 64 * 64"
proof -
  have "(n + 72) div 64 * 64 \<le> n + 72" by simp
  with assms have "(n + 72) div 64 * 64 < 2 ^ 32" by linarith
  with assms show ?thesis by (subst unat_pad_len) simp_all
qed

lemma padded_bounds: "n + 9 \<le> (n + 72) div 64 * 64" "(n + 72) div 64 * 64 < n + 9 + (64 :: nat)"
proof -
  have "(n + 72) div 64 * 64 + (n + 72) mod 64 = n + 72" by (rule div_mult_mod_eq)
  moreover have "(n + 72) mod 64 < 64" by simp
  ultimately show "n + 9 \<le> (n + 72) div 64 * 64" "(n + 72) div 64 * 64 < n + 9 + (64 :: nat)"
    by linarith+
qed

lemma pad_message_ok:
  assumes "length input + 72 < 2 ^ 32" "(length input + 72) div 64 * 64 = length input + 9 + zeros"
    "\<And>n. length (len_bytes n) = 8"
  shows "pad_message len_bytes input =
    Some (input @ 0x80 # replicate zeros 0 @ len_bytes (of_nat (length input) * 8))"
proof -
  let ?n = "length input"
  have p: "unat (pad_len (of_nat ?n)) = ?n + 9 + zeros"
    using pad_len_least [OF assms(1)] assms(2) by simp
  have r: "replicate (9 + zeros) (0 :: u8) = 0 # replicate zeros 0 @ replicate 8 0"
  proof -
    have "9 + zeros = Suc (zeros + 8)" by simp
    then show ?thesis by (simp only: replicate_Suc replicate_add)
  qed
  have "drop ?n (replicate (?n + 9 + zeros) (0 :: u8)) = 0 # replicate zeros 0 @ replicate 8 0"
    using r by simp
  then have "take (?n + 9 + zeros - 8) ((input @ drop ?n (replicate (?n + 9 + zeros) (0 :: u8)))[?n := 0x80]) =
      input @ 0x80 # replicate zeros 0"
    by (simp add: list_update_append)
  then show ?thesis
    by (simp add: pad_message_def p Let_def)
qed

lemma length_len_bytes [simp]: "length (be_bytes64 n) = 8" "length (le_bytes64 n) = 8"
  by (simp_all add: be_bytes64_def le_bytes64_def)

lemma length_store [simp]: "length (store_be h) = 4" "length (store_le h) = 4"
  by (simp_all add: store_be_def store_le_def)

lemma length_hex_digest: "length (hex_digest d) = 2 * length d"
  by (induction d) (simp_all add: hex_digest_def)


definition sha1_digest :: "u8 list \<Rightarrow> u8 list" where
  "sha1_digest msg =
     (case fold sha1_block (chunks64 msg) sha1_init of
        (h0, h1, h2, h3, h4) \<Rightarrow>
          store_be h0 @ store_be h1 @ store_be h2 @ store_be h3 @ store_be h4)"

definition md5_digest :: "u8 list \<Rightarrow> u8 list" where
  "md5_digest msg =
     (case fold md5_block (chunks64 msg) md5_init of
        (a0, b0, c0, d0) \<Rightarrow> store_le a0 @ store_le b0 @ store_le c0 @ store_le d0)"

lemma length_sha1_digest: "length (sha1_digest msg) = 20"
  unfolding sha1_digest_def by (split prod.split)+ simp

lemma length_md5_digest: "length (md5_digest msg) = 16"
  unfolding md5_digest_def by (split prod.split)+ simp

lemma sha1_digest_eq: "sha1 input = map_option sha1_digest (pad_message be_bytes64 input)"
  unfolding sha1_def sha1_digest_def ..

lemma md5_digest_eq: "md5 input = map_option md5_digest (pad_message le_bytes64 input)"
  unfolding md5_def md5_digest_def ..

text \<open>What a padded message is: the first multiple of the block size with room for the marker.\<close>

definition padded_message :: "u8 list \<Rightarrow> u8 list \<Rightarrow> u8 list \<Rightarrow> bool" where
  "padded_message input lenb msg \<longleftrightarrow>
     (\<exists>zeros. msg = input @ 0x80 # replicate zeros 0 @ lenb) \<and> length msg mod 64 = 0 \<and>
     length input + 9 \<le> length msg \<and> length msg < length input + 9 + 64"

lemma pad_message_padded:
  assumes "length input + 72 < 2 ^ 32" "\<And>n. length (len_bytes n) = 8"
  shows "\<exists>msg. pad_message len_bytes input = Some msg \<and>
      padded_message input (len_bytes (of_nat (length input) * 8)) msg"
proof -
  obtain z where z: "(length input + 72) div 64 * 64 = length input + 9 + z"
    using padded_bounds(1) [of "length input"] le_Suc_ex by blast
  let ?m = "input @ 0x80 # replicate z 0 @ len_bytes (of_nat (length input) * 8)"
  have pm: "pad_message len_bytes input = Some ?m"
    using assms z by (intro pad_message_ok) simp_all
  have len: "length ?m = (length input + 72) div 64 * 64" using z assms(2) by simp
  then have "length ?m mod 64 = 0" by (simp only: mod_mult_self2_is_0)
  moreover have "length input + 9 \<le> length ?m" "length ?m < length input + 9 + 64"
    unfolding len by (rule padded_bounds)+
  ultimately have "padded_message input (len_bytes (of_nat (length input) * 8)) ?m"
    unfolding padded_message_def by (intro conjI exI [of _ z]) (rule refl)
  with pm show ?thesis by (intro exI [of _ ?m] conjI)
qed


section \<open>Properties\<close>

text \<open>Padding and digest length: for a message shorter than \<open>2 ^ 32 - 72\<close> bytes the buffer of
  \<^verbatim>\<open>sha1\<close> is large enough and is the message, the byte \<^verbatim>\<open>0x80\<close>, zeros and the bit length in
  big-endian order, of the least length that is a multiple of 64 with room for nine more
  bytes; the digest has 20 bytes and 40 hexadecimal digits.  The same holds for \<^verbatim>\<open>md5\<close> with
  the little-endian length, 16 bytes and 32 digits.\<close>

theorem digest_padding:
  assumes "length input + 72 < 2 ^ 32"
  shows "(\<exists>msg d. pad_message be_bytes64 input = Some msg \<and>
            padded_message input (be_bytes64 (of_nat (length input) * 8)) msg \<and>
            sha1 input = Some d \<and> length d = 20 \<and> length (hex_digest d) = 40) \<and>
         (\<exists>msg d. pad_message le_bytes64 input = Some msg \<and>
            padded_message input (le_bytes64 (of_nat (length input) * 8)) msg \<and>
            md5 input = Some d \<and> length d = 16 \<and> length (hex_digest d) = 32)"
proof -
  obtain m1 where m1: "pad_message be_bytes64 input = Some m1"
      "padded_message input (be_bytes64 (of_nat (length input) * 8)) m1"
    using pad_message_padded [OF assms, of be_bytes64] by auto
  obtain m2 where m2: "pad_message le_bytes64 input = Some m2"
      "padded_message input (le_bytes64 (of_nat (length input) * 8)) m2"
    using pad_message_padded [OF assms, of le_bytes64] by auto
  have "sha1 input = Some (sha1_digest m1)" "md5 input = Some (md5_digest m2)"
    by (simp_all only: sha1_digest_eq md5_digest_eq m1 m2 option.map)
  moreover have "length (hex_digest (sha1_digest m1)) = 40" "length (hex_digest (md5_digest m2)) = 32"
    by (simp_all add: length_hex_digest length_sha1_digest length_md5_digest)
  ultimately show ?thesis using m1 m2 length_sha1_digest length_md5_digest by blast
qed

theorem digest_padding_witness:
  "length ([0x61, 0x62, 0x63] :: u8 list) + 72 < 2 ^ 32 \<and>
   (\<exists>d. sha1 [0x61, 0x62, 0x63] = Some d \<and> length d = 20)"
  using digest_padding [of "[0x61, 0x62, 0x63]"] by auto

text \<open>The mask \<^verbatim>\<open>~63u\<close> has 32 bits: for a message of \<open>2 ^ 32 - 72\<close> bytes or more the computed
  buffer is at most as long as the message, so that the message and its marker do not fit
  into it, and no digest is computed.\<close>

theorem digest_overflow_4gib:
  assumes "2 ^ 32 \<le> length input + 72" "length input < 2 ^ 63"
  shows "pad_message len_bytes input = None \<and> sha1 input = None \<and> md5 input = None"
proof -
  let ?m = "(length input + 72) div 64 * 64"
  have "?m mod 2 ^ 32 \<le> length input"
  proof (cases "length input < 2 ^ 32")
    case True
    have m: "2 ^ 32 \<le> ?m" "?m < 2 ^ 33"
      using assms(1) True padded_bounds [of "length input"] by simp_all
    then have "?m mod 2 ^ 32 = ?m - 2 ^ 32" by (simp add: le_mod_geq)
    with m padded_bounds(2) [of "length input"] show ?thesis by simp
  next
    case False
    have "?m mod 2 ^ 32 < 2 ^ 32" by simp
    with False show ?thesis by linarith
  qed
  then have "unat (pad_len (of_nat (length input))) \<le> length input"
    using unat_pad_len [OF assms(2)] by simp
  then show ?thesis by (simp add: pad_message_def Let_def sha1_digest_eq md5_digest_eq)
qed

theorem digest_overflow_4gib_witness:
  "sha1 (replicate (2 ^ 32) 0) = None"
proof -
  have "2 ^ 32 \<le> length (replicate (2 ^ 32) (0 :: u8)) + 72" "length (replicate (2 ^ 32) (0 :: u8)) < 2 ^ 63"
    by (simp_all only: length_replicate) simp_all
  then show ?thesis by (rule digest_overflow_4gib [THEN conjunct2, THEN conjunct1])
qed

end
