(* ===== verification/Url.thy ===== *)
theory Url
  imports Prelude
begin

text \<open>
  \<^verbatim>\<open>net::Url\<close> (\<^verbatim>\<open>src/src/Url.cc\<close>, \<^verbatim>\<open>include/nitrocoro/net/Url.h\<close>): the record of its fields, the
  whole \<^verbatim>\<open>parse\<close> with its early returns, and the default ports.  The port is a 16-bit word
  that wraps while its digits are read.
\<close>

section \<open>The class\<close>

record url =
  scheme :: string
  host :: string
  port :: "16 word"
  path :: string
  query :: string
  valid :: bool

definition url_default :: url where
  "url_default = \<lparr>scheme = [], host = [], port = 0, path = [], query = [], valid = False\<rparr>"

definition getDefaultPort :: "string \<Rightarrow> 16 word" where
  "getDefaultPort s =
     (if s = ''http'' \<or> s = ''ws'' then 80
      else if s = ''https'' \<or> s = ''wss'' then 443
      else 0)"

text \<open>The loop over the digits: the port so far, and whether a byte that is no digit ended it.\<close>

fun parse_port :: "string \<Rightarrow> 16 word \<Rightarrow> 16 word \<times> bool" where
  "parse_port [] p = (p, True)"
| "parse_port (c # cs) p =
     (if byte_of c < (48::nat) \<or> 57 < byte_of c then (p, False)
      else parse_port cs (p * 10 + of_nat (byte_of c - 48)))"

definition min_pos :: "nat option \<Rightarrow> nat option \<Rightarrow> nat option" where
  "min_pos a b =
     (case (a, b) of (None, _) \<Rightarrow> b | (_, None) \<Rightarrow> a | (Some i, Some j) \<Rightarrow> Some (min i j))"

definition parse_host :: "string \<Rightarrow> url \<Rightarrow> url \<times> bool" where
  "parse_host hostPart u =
     (case find_char CHR '':'' hostPart of
        Some portPos \<Rightarrow>
          (let (p, ok) = parse_port (drop (portPos + 1) hostPart) 0
           in (u\<lparr>host := take portPos hostPart, port := p\<rparr>, ok))
      | None \<Rightarrow> (u\<lparr>host := hostPart, port := getDefaultPort (scheme u)\<rparr>, True))"

text \<open>Path, query and the final validity, from the position behind the host.\<close>

definition parse_path :: "string \<Rightarrow> nat \<Rightarrow> url \<Rightarrow> url" where
  "parse_path s pos u =
     (let (u1, pos1) =
        (if pos < length s \<and> s ! pos = CHR ''/'' then
           (case find_char_from CHR ''?'' pos s of
              None \<Rightarrow> (u\<lparr>path := drop pos s\<rparr>, pos)
            | Some pathEnd \<Rightarrow> (u\<lparr>path := substr pos (pathEnd - pos) s\<rparr>, pathEnd))
         else (u\<lparr>path := ''/''\<rparr>, pos));
        u2 = (if pos1 < length s \<and> s ! pos1 = CHR ''?'' then u1\<lparr>query := drop (pos1 + 1) s\<rparr> else u1)
      in u2\<lparr>valid := scheme u2 \<noteq> [] \<and> host u2 \<noteq> [] \<and> 0 < port u2\<rparr>)"

definition parse :: "string \<Rightarrow> url" where
  "parse s =
     (if s = [] then url_default
      else case find_sub ''://'' s of
        None \<Rightarrow> url_default
      | Some schemeEnd \<Rightarrow>
          (let u = url_default\<lparr>scheme := map tolower (take schemeEnd s)\<rparr>;
               pos = schemeEnd + 3;
               hostEnd = (case min_pos (find_char_from CHR ''/'' pos s) (find_char_from CHR ''?'' pos s) of
                            None \<Rightarrow> length s | Some e \<Rightarrow> e);
               (u1, ok) = parse_host (substr pos (hostEnd - pos) s) u
           in if \<not> ok then u1 else parse_path s hostEnd u1))"


section \<open>Lemmas\<close>

lemma parse_port_digits:
  "\<forall>c \<in> set ds. is_digit 10 c \<Longrightarrow>
   parse_port ds (of_nat n) = (of_nat (foldl (\<lambda>a c. a * 10 + digit_value c) n ds), True)"
proof (induction ds arbitrary: n)
  case (Cons c ds)
  then have c: "48 \<le> (of_char c :: nat)" "of_char c \<le> (57 :: nat)"
    by (auto simp: is_digit_def hexVal_nat_def Let_def split: if_splits)
  have v: "digit_value c = of_char c - 48"
    using c by (simp add: digit_value_def hexVal_nat_def)
  have "(of_nat n * 10 + of_nat (of_char c - 48) :: 16 word) = of_nat (n * 10 + digit_value c)"
    by (simp add: v)
  then show ?case using c Cons.prems Cons.IH [of "n * 10 + digit_value c"]
    by (simp del: of_nat_add of_nat_mult of_nat_diff)
qed simp

lemma parse_port_to_string: "parse_port (to_string n) 0 = (of_nat n, True)"
  using parse_port_digits [of "to_string n" 0] show_base_digits [of 10 _ n] magnitude_show_base [of 10 n]
  by (simp add: magnitude_def)

lemma find_sub_scheme:
  "CHR '':'' \<notin> set s \<Longrightarrow> find_sub ''://'' (s @ ''://'' @ r) = Some (length s)"
  by (induction s) auto

lemma find_char_from_append:
  "c \<notin> set b \<Longrightarrow> find_char_from c (length a) (a @ b @ c # r) = Some (length a + length b)"
  by (simp add: find_char_from_def find_char_append)

lemma find_char_from_None:
  "c \<notin> set b \<Longrightarrow> find_char_from c (length a) (a @ b) = None"
  by (simp add: find_char_from_def)

text \<open>
  The parse of an address in its usual form: a scheme, a host with an optional port, a
  path that starts with a slash, and an optional query.
\<close>

definition url_text :: "string \<Rightarrow> string \<Rightarrow> nat option \<Rightarrow> string \<Rightarrow> string option \<Rightarrow> string" where
  "url_text sc h p pa q =
     sc @ ''://'' @ h @ (case p of None \<Rightarrow> [] | Some n \<Rightarrow> CHR '':'' # to_string n)
     @ pa @ (case q of None \<Rightarrow> [] | Some t \<Rightarrow> CHR ''?'' # t)"

definition url_parts_ok :: "string \<Rightarrow> string \<Rightarrow> string \<Rightarrow> bool" where
  "url_parts_ok sc h pa \<longleftrightarrow>
     sc \<noteq> [] \<and> map tolower sc = sc \<and> CHR '':'' \<notin> set sc \<and>
     h \<noteq> [] \<and> set h \<inter> {CHR '':'', CHR ''/'', CHR ''?''} = {} \<and>
     pa \<noteq> [] \<and> hd pa = CHR ''/'' \<and> CHR ''?'' \<notin> set pa"

lemma to_string_no_marks: "set (to_string n) \<inter> {CHR '':'', CHR ''/'', CHR ''?''} = {}"
  using to_string_no_control [of _ n] by fastforce

lemma parse_host_text:
  assumes "url_parts_ok sc h pa"
  shows "parse_host (h @ (case p of None \<Rightarrow> [] | Some n \<Rightarrow> CHR '':'' # to_string n)) u =
    (u\<lparr>host := h, port := (case p of None \<Rightarrow> getDefaultPort (scheme u) | Some n \<Rightarrow> of_nat n)\<rparr>, True)"
  using assms
  by (cases p) (auto simp: parse_host_def url_parts_ok_def find_char_append parse_port_to_string)

lemma parse_path_text:
  assumes "url_parts_ok sc h pa"
  shows "parse_path (pre @ pa @ (case q of None \<Rightarrow> [] | Some t \<Rightarrow> CHR ''?'' # t)) (length pre) u =
    (let u' = u\<lparr>path := pa, query := (case q of None \<Rightarrow> query u | Some t \<Rightarrow> t)\<rparr>
     in u'\<lparr>valid := scheme u \<noteq> [] \<and> host u \<noteq> [] \<and> 0 < port u\<rparr>)"
proof -
  obtain r where r: "pa = CHR ''/'' # r" using assms by (cases pa) (auto simp: url_parts_ok_def)
  have q: "CHR ''?'' \<notin> set pa" using assms by (simp add: url_parts_ok_def)
  show ?thesis
  proof (cases q)
    case None
    with r q show ?thesis
      by (simp add: parse_path_def find_char_from_None nth_append Let_def)
  next
    case (Some t)
    have "find_char_from CHR ''?'' (length pre) (pre @ pa @ CHR ''?'' # t) = Some (length pre + length pa)"
      using q by (rule find_char_from_append)
    with r q Some show ?thesis
      by (simp add: parse_path_def nth_append Let_def substr_def)
  qed
qed

lemma host_end:
  assumes "url_parts_ok sc h pa"
    and hp: "hp = h @ (case p of None \<Rightarrow> [] | Some n \<Rightarrow> CHR '':'' # to_string n)"
  shows "min_pos (find_char_from CHR ''/'' (length pre) (pre @ hp @ pa @ r))
           (find_char_from CHR ''?'' (length pre) (pre @ hp @ pa @ r)) = Some (length pre + length hp)"
proof -
  obtain pa' where pa: "pa = CHR ''/'' # pa'" using assms by (cases pa) (auto simp: url_parts_ok_def)
  have no: "CHR ''/'' \<notin> set hp" "CHR ''?'' \<notin> set hp"
    using assms to_string_no_marks by (auto simp: url_parts_ok_def hp split: option.splits)
  have 1: "find_char_from CHR ''/'' (length pre) (pre @ hp @ pa @ r) = Some (length pre + length hp)"
    using no pa find_char_from_append [of "CHR ''/''" hp pre] by simp
  have 2: "i \<ge> length pre + length hp"
    if "find_char_from CHR ''?'' (length pre) (pre @ hp @ pa @ r) = Some i" for i
  proof -
    have "find_index (\<lambda>x. x = CHR ''?'') hp = None" using no by (auto simp: find_index_None)
    with that show ?thesis
      by (auto simp: find_char_from_def find_char_def find_index_append)
  qed
  show ?thesis
    by (cases "find_char_from CHR ''?'' (length pre) (pre @ hp @ pa @ r)")
       (use 1 2 in \<open>auto simp: min_pos_def\<close>)
qed


section \<open>Properties\<close>

text \<open>Parsing an address of the usual form gives back exactly its parts: scheme, host, the
  port (or the scheme's default port when none is written), path and query; it is valid
  exactly when that port is not zero modulo \<open>2 ^ 16\<close>.\<close>

theorem url_parse_round_trip:
  assumes "url_parts_ok sc h pa"
  shows "parse (url_text sc h p pa q) =
    (let n = (case p of None \<Rightarrow> getDefaultPort sc | Some n \<Rightarrow> of_nat n)
     in \<lparr>scheme = sc, host = h, port = n, path = pa,
          query = (case q of None \<Rightarrow> [] | Some t \<Rightarrow> t), valid = (0 < n)\<rparr>)"
proof -
  define hp where "hp = h @ (case p of None \<Rightarrow> [] | Some n \<Rightarrow> CHR '':'' # to_string n)"
  define r where "r = (case q of None \<Rightarrow> [] | Some t \<Rightarrow> CHR ''?'' # t)"
  define pre where "pre = sc @ ''://''"
  define full where "full = pre @ hp @ pa @ r"
  have s: "url_text sc h p pa q = full" by (simp add: url_text_def full_def pre_def hp_def r_def)
  have lp: "length sc + 3 = length pre" "take (length sc) full = sc" "full \<noteq> []"
    by (simp_all add: full_def pre_def)
  have sc: "find_sub ''://'' full = Some (length sc)"
    using assms find_sub_scheme [of sc "hp @ pa @ r"] by (simp add: url_parts_ok_def full_def pre_def)
  have he: "min_pos (find_char_from CHR ''/'' (length pre) full)
      (find_char_from CHR ''?'' (length pre) full) = Some (length pre + length hp)"
    unfolding full_def by (rule host_end [OF assms hp_def])
  have ho: "substr (length pre) (length hp) full = hp"
    by (simp add: substr_def full_def)
  have pp: "parse_path full (length pre + length hp) u =
      (let u' = u\<lparr>path := pa, query := (case q of None \<Rightarrow> query u | Some t \<Rightarrow> t)\<rparr>
       in u'\<lparr>valid := scheme u \<noteq> [] \<and> host u \<noteq> [] \<and> 0 < port u\<rparr>)" for u
    using parse_path_text [OF assms, of "pre @ hp" q u] by (simp add: r_def full_def)
  show ?thesis
    using assms parse_host_text [OF assms, of p, folded hp_def]
    by (simp add: s parse_def sc he ho pp lp url_default_def url_parts_ok_def Let_def
        split: option.splits)
qed

theorem url_parse_round_trip_witness:
  "url_parts_ok ''https'' ''example.org'' ''/a'' \<and>
   parse ''https://example.org:8443/a?x=1'' =
     \<lparr>scheme = ''https'', host = ''example.org'', port = 8443, path = ''/a'', query = ''x=1'', valid = True\<rparr>"
proof -
  have ok: "url_parts_ok ''https'' ''example.org'' ''/a''"
    by (simp add: url_parts_ok_def tolower_def)
  moreover have "url_text ''https'' ''example.org'' (Some 8443) ''/a'' (Some ''x=1'') =
      ''https://example.org:8443/a?x=1''"
    by (simp add: url_text_def show_base.simps)
  ultimately show ?thesis
    using url_parse_round_trip [OF ok, of "Some 8443" "Some ''x=1''"] by simp
qed

text \<open>The port is read modulo \<open>2 ^ 16\<close>: an address whose written port is out of range is
  not rejected but parsed as the reduced port, and it is valid unless that is zero.\<close>

theorem url_port_wraps:
  "parse ''http://h:65616/'' = parse ''http://h:80/'' \<and> valid (parse ''http://h:65616/'')"
  by (simp add: parse_def url_default_def find_char_from_def find_char_def min_pos_def substr_def
      parse_host_def parse_path_def tolower_def)

end
