(* ===== verification/Byte_Stream.thy ===== *)
theory Byte_Stream
  imports Prelude
begin

text \<open>
  The two ends of a connection as the HTTP code sees them.

  \<^verbatim>\<open>utils::StringBuffer\<close> (\<^verbatim>\<open>include/nitrocoro/utils/StringBuffer.h\<close>) is modelled with its storage and
  its two offsets; its contract is the locale \<open>byte_buffer\<close>, whose laws speak about the
  unconsumed bytes only.  Every client of the buffer uses just those operations, so the
  other theories keep the unconsumed bytes as a string.

  \<^verbatim>\<open>io::Stream\<close> (\<^verbatim>\<open>include/nitrocoro/io/Stream.h\<close>) forwards to a socket.  What the peer sends is
  the list of the segments in which it arrives: a read of at most \<open>n\<close> bytes returns a prefix
  of the first segment, and zero bytes at the end of the stream (or it throws, when the
  connection ended with an error).  The theorems about readers quantify over all lists of
  segments.
\<close>

section \<open>StringBuffer\<close>

record string_buffer =
  storage :: string
  readOffset :: nat
  writeOffset :: nat

definition sb_empty :: string_buffer where
  "sb_empty = \<lparr>storage = [], readOffset = 0, writeOffset = 0\<rparr>"

definition remainSize :: "string_buffer \<Rightarrow> nat" where
  "remainSize b = writeOffset b - readOffset b"

definition view :: "string_buffer \<Rightarrow> string" where
  "view b = substr (readOffset b) (writeOffset b - readOffset b) (storage b)"

definition sb_find :: "string \<Rightarrow> string_buffer \<Rightarrow> nat option" where
  "sb_find pattern b = find_sub pattern (view b)"

definition hasRemaining :: "string_buffer \<Rightarrow> bool" where
  "hasRemaining b \<longleftrightarrow> readOffset b < writeOffset b"

definition consume :: "nat \<Rightarrow> string_buffer \<Rightarrow> string_buffer" where
  "consume n b = b\<lparr>readOffset := readOffset b + n\<rparr>"

definition writableSize :: "string_buffer \<Rightarrow> nat" where
  "writableSize b = length (storage b) - writeOffset b"

text \<open>
  \<^verbatim>\<open>memmove\<close> of the unconsumed bytes to the front leaves the bytes behind them as they were;
  \<^verbatim>\<open>resize\<close> fills with zeros.
\<close>

definition prepareWrite :: "nat \<Rightarrow> string_buffer \<Rightarrow> string_buffer" where
  "prepareWrite len b =
     (if length (storage b) - writeOffset b < len then
        (if 0 < readOffset b \<and> len \<le> length (storage b) - (writeOffset b - readOffset b) then
           (let remaining = writeOffset b - readOffset b in
            b\<lparr>storage := substr (readOffset b) remaining (storage b) @ drop remaining (storage b),
              writeOffset := remaining, readOffset := 0\<rparr>)
         else b\<lparr>storage := take (writeOffset b + len) (storage b)
                  @ replicate (writeOffset b + len - length (storage b)) (CHR 0x00)\<rparr>)
      else b)"

text \<open>The caller's store through the returned pointer, followed by \<^verbatim>\<open>commitWrite\<close>.\<close>

definition store :: "string \<Rightarrow> string_buffer \<Rightarrow> string_buffer" where
  "store d b = b\<lparr>storage := take (writeOffset b) (storage b) @ d
                       @ drop (writeOffset b + length d) (storage b)\<rparr>"

definition commitWrite :: "nat \<Rightarrow> string_buffer \<Rightarrow> string_buffer" where
  "commitWrite n b = b\<lparr>writeOffset := writeOffset b + n\<rparr>"

definition feed :: "nat \<Rightarrow> string \<Rightarrow> string_buffer \<Rightarrow> string_buffer" where
  "feed len d b = commitWrite (length d) (store d (prepareWrite len b))"

definition reset :: "string_buffer \<Rightarrow> string_buffer" where
  "reset b = b\<lparr>readOffset := 0, writeOffset := 0\<rparr>"

definition sb_extract :: "string_buffer \<Rightarrow> string \<times> string_buffer" where
  "sb_extract b =
     (if readOffset b = 0
      then (take (writeOffset b) (storage b), sb_empty)
      else (substr (readOffset b) (writeOffset b - readOffset b) (storage b), sb_empty))"

definition sb_inv :: "string_buffer \<Rightarrow> bool" where
  "sb_inv b \<longleftrightarrow> readOffset b \<le> writeOffset b \<and> writeOffset b \<le> length (storage b)"


section \<open>Streams\<close>

datatype io_error = Io_error | Runtime_error string | Number_error num_error

record stream =
  incoming :: "string list"
  fails :: bool
  sent :: "string list"
  closed :: bool

definition stream_read :: "nat \<Rightarrow> stream \<Rightarrow> io_error + string \<times> stream" where
  "stream_read len s =
     (case incoming s of
        [] \<Rightarrow> if fails s then Inl Io_error else Inr ([], s)
      | seg # rest \<Rightarrow>
          Inr (take len seg,
               s\<lparr>incoming := (if length seg \<le> len then rest else drop len seg # rest)\<rparr>))"

definition stream_write :: "string \<Rightarrow> stream \<Rightarrow> stream" where
  "stream_write d s = s\<lparr>sent := sent s @ [d]\<rparr>"

definition stream_shutdown :: "stream \<Rightarrow> stream" where
  "stream_shutdown s = s\<lparr>closed := True\<rparr>"

definition to_come :: "stream \<Rightarrow> string" where
  "to_come s = concat (incoming s)"

definition stream_wf :: "stream \<Rightarrow> bool" where
  "stream_wf s \<longleftrightarrow> [] \<notin> set (incoming s) \<and> \<not> fails s"


section \<open>The contract of a byte buffer\<close>

datatype buffer_op = Feed nat string | Consume nat

definition buffer_step :: "(nat \<Rightarrow> string \<Rightarrow> 'b \<Rightarrow> 'b) \<Rightarrow> (nat \<Rightarrow> 'b \<Rightarrow> 'b) \<Rightarrow> buffer_op \<Rightarrow> 'b \<Rightarrow> 'b" where
  "buffer_step add rem op b = (case op of Feed n d \<Rightarrow> add n d b | Consume n \<Rightarrow> rem n b)"

text \<open>The abstract buffer, and the calls that respect the preconditions of the operations.\<close>

fun run_bytes :: "buffer_op list \<Rightarrow> string \<Rightarrow> string option" where
  "run_bytes [] s = Some s"
| "run_bytes (Feed n d # ops) s = (if length d \<le> n then run_bytes ops (s @ d) else None)"
| "run_bytes (Consume n # ops) s = (if n \<le> length s then run_bytes ops (drop n s) else None)"

locale byte_buffer =
  fixes empty :: 'b
    and contents :: "'b \<Rightarrow> string"
    and append :: "nat \<Rightarrow> string \<Rightarrow> 'b \<Rightarrow> 'b"
    and remove :: "nat \<Rightarrow> 'b \<Rightarrow> 'b"
    and invar :: "'b \<Rightarrow> bool"
  assumes contents_empty: "contents empty = []"
    and contents_append: "invar b \<Longrightarrow> length d \<le> n \<Longrightarrow> contents (append n d b) = contents b @ d"
    and contents_remove: "invar b \<Longrightarrow> n \<le> length (contents b) \<Longrightarrow> contents (remove n b) = drop n (contents b)"
    and invar_empty: "invar empty"
    and invar_append: "invar b \<Longrightarrow> length d \<le> n \<Longrightarrow> invar (append n d b)"
    and invar_remove: "invar b \<Longrightarrow> n \<le> length (contents b) \<Longrightarrow> invar (remove n b)"
begin

lemma run_refines:
  "invar b \<Longrightarrow> run_bytes ops (contents b) = Some s \<Longrightarrow>
     invar (fold (buffer_step append remove) ops b) \<and> contents (fold (buffer_step append remove) ops b) = s"
proof (induction ops arbitrary: b)
  case (Cons op ops)
  then show ?case
    by (cases op)
       (auto simp: buffer_step_def contents_append contents_remove invar_append invar_remove split: if_splits)
qed simp

lemma run_empty_refines:
  "run_bytes ops [] = Some s \<Longrightarrow>
     invar (fold (buffer_step append remove) ops empty) \<and>
     contents (fold (buffer_step append remove) ops empty) = s"
  using run_refines [of empty ops s] by (simp add: invar_empty contents_empty)

end

lemma view_length: "sb_inv b \<Longrightarrow> length (view b) = remainSize b"
  by (auto simp: sb_inv_def view_def substr_def remainSize_def)

lemma prepareWrite_facts:
  assumes "sb_inv b"
  shows "sb_inv (prepareWrite len b)" "view (prepareWrite len b) = view b"
    "len \<le> writableSize (prepareWrite len b)"
  using assms by (auto simp: sb_inv_def prepareWrite_def view_def substr_def writableSize_def Let_def)

lemma store_commit_facts:
  assumes "sb_inv b" "length d \<le> writableSize b"
  shows "sb_inv (commitWrite (length d) (store d b))"
    "view (commitWrite (length d) (store d b)) = view b @ d"
  using assms
  by (auto simp: sb_inv_def commitWrite_def store_def view_def substr_def writableSize_def drop_take)

interpretation sb: byte_buffer sb_empty view feed consume sb_inv
proof unfold_locales
  show "view sb_empty = []" by (simp add: view_def sb_empty_def substr_def)
  show "sb_inv sb_empty" by (simp add: sb_inv_def sb_empty_def)
next
  fix b and d :: string and n :: nat
  assume inv: "sb_inv b" and "length d \<le> n"
  then have "length d \<le> writableSize (prepareWrite n b)"
    using prepareWrite_facts(3) [OF inv, of n] by simp
  with store_commit_facts [OF prepareWrite_facts(1) [OF inv]] prepareWrite_facts(2) [OF inv]
  show "view (feed n d b) = view b @ d" "sb_inv (feed n d b)"
    by (simp_all add: feed_def)
next
  fix b and n :: nat
  assume "sb_inv b" "n \<le> length (view b)"
  then show "view (consume n b) = drop n (view b)" "sb_inv (consume n b)"
    by (auto simp: sb_inv_def view_def consume_def substr_def drop_take add.commute)
qed

lemma sb_extract_view: "sb_inv b \<Longrightarrow> sb_extract b = (view b, sb_empty)"
  by (simp add: sb_extract_def view_def sb_inv_def substr_def)

text \<open>
  \<^verbatim>\<open>StringBuffer\<close> is a queue of bytes: after any sequence of writes (each of at most
  the prepared length) and of consumptions (each of at most the unconsumed length), through
  compaction and growth of the storage, the offsets stay within the storage, \<^verbatim>\<open>view\<close> is
  the bytes written and not yet consumed, in order, and \<^verbatim>\<open>remainSize\<close>, \<^verbatim>\<open>hasRemaining\<close>,
  \<^verbatim>\<open>find\<close> and \<^verbatim>\<open>extract\<close> answer for those bytes; a prepared write always has its room.
\<close>

theorem string_buffer_is_a_queue:
  assumes "run_bytes ops [] = Some s"
    and "b = fold (buffer_step feed consume) ops sb_empty"
  shows "sb_inv b \<and> view b = s \<and> remainSize b = length s \<and> hasRemaining b = (s \<noteq> []) \<and>
    sb_find pat b = find_sub pat s \<and> sb_extract b = (s, sb_empty) \<and>
    len \<le> writableSize (prepareWrite len b) \<and> view (reset b) = []"
proof -
  have b: "sb_inv b" "view b = s" using sb.run_empty_refines [OF assms(1)] assms(2) by simp_all
  have "remainSize b = length s" using view_length [OF b(1)] b(2) by simp
  moreover from this have "hasRemaining b = (s \<noteq> [])"
    by (metis hasRemaining_def remainSize_def length_greater_0_conv zero_less_diff)
  ultimately show ?thesis
    using b sb_extract_view [OF b(1)] prepareWrite_facts(3) [OF b(1), of len]
    by (simp add: sb_find_def view_def reset_def substr_def)
qed

theorem string_buffer_is_a_queue_witness:
  "view (fold (buffer_step feed consume) [Feed 4 ''abc'', Consume 2, Feed 2 ''de'', Consume 1] sb_empty) = ''de''"
  using string_buffer_is_a_queue [of "[Feed 4 ''abc'', Consume 2, Feed 2 ''de'', Consume 1]" "''de''" _ "[]" 0]
  by simp

end
