(* ===== verification/Http_Header.thy ===== *)
theory Http_Header
  imports Prelude
begin

text \<open>
  The vocabulary of an HTTP message (\<^verbatim>\<open>extensions/http\<close>): versions, transfer modes and status
  codes (\<^verbatim>\<open>include/nitrocoro/http/HttpTypes.h\<close>), the registry of methods (\<^verbatim>\<open>src/HttpMethod.cc\<close>)
  and header fields (\<^verbatim>\<open>include/nitrocoro/http/HttpHeader.h\<close>, \<^verbatim>\<open>src/HttpHeader.cc\<close>).

  The registry is a process-wide singleton in the code; here it is a value that the functions
  which consult it take as an argument.  A method is its 16-bit id.
\<close>

section \<open>Versions, transfer modes, methods\<close>

datatype version = KUnknown | KHttp10 | KHttp11

datatype transfer_mode = ContentLength | Chunked | UntilClose

type_synonym u16 = "16 word"

type_synonym http_method = u16

definition method_Get :: http_method where "method_Get = 0"

definition method_Head :: http_method where "method_Head = 1"

definition method_Options :: http_method where "method_Options = 5"

definition method_Invalid :: http_method where "method_Invalid = 9"

lemmas method_defs [simp] = method_Get_def method_Head_def method_Options_def method_Invalid_def

record method_registry =
  names :: "string list"
  ids :: "string \<rightharpoonup> u16"

definition standardMethodName :: "nat \<Rightarrow> string" where
  "standardMethodName i =
     (if i = 0 then ''GET'' else if i = 1 then ''HEAD'' else if i = 2 then ''POST''
      else if i = 3 then ''PUT'' else if i = 4 then ''DELETE'' else if i = 5 then ''OPTIONS''
      else if i = 6 then ''PATCH'' else if i = 7 then ''TRACE'' else if i = 8 then ''CONNECT''
      else [])"

text \<open>\<^verbatim>\<open>emplace\<close> leaves an existing entry alone; the id of a new one is the size cut to 16 bits.\<close>

definition registry_add :: "string \<Rightarrow> method_registry \<Rightarrow> http_method \<times> method_registry" where
  "registry_add nm reg =
     (case ids reg nm of
        Some i \<Rightarrow> (i, reg)
      | None \<Rightarrow>
          (let i = word_of_nat (length (names reg))
           in (i, reg\<lparr>names := names reg @ [nm], ids := (ids reg)(nm \<mapsto> i)\<rparr>)))"

definition methodRegistry :: method_registry where
  "methodRegistry =
     snd (registry_add []
       (fold (\<lambda>i reg. snd (registry_add (standardMethodName i) reg)) [0..<9]
         \<lparr>names = [], ids = Map.empty\<rparr>))"

definition method_toString :: "method_registry \<Rightarrow> http_method \<Rightarrow> string" where
  "method_toString reg m = (if unat m < length (names reg) then names reg ! unat m else [])"

definition method_fromString :: "method_registry \<Rightarrow> string \<Rightarrow> http_method" where
  "method_fromString reg s = (case ids reg s of None \<Rightarrow> method_Invalid | Some i \<Rightarrow> i)"

definition registerMethod :: "string \<Rightarrow> method_registry \<Rightarrow> http_method \<times> method_registry" where
  "registerMethod nm reg = registry_add nm reg"

text \<open>
  What the registry keeps: no name twice, the ids are the positions, and the first ten
  places belong to the standard methods and the invalid one.
\<close>

definition registry_inv :: "method_registry \<Rightarrow> bool" where
  "registry_inv reg \<longleftrightarrow>
     distinct (names reg) \<and> length (names reg) \<le> 2 ^ 16 \<and>
     (\<forall>i < length (names reg). ids reg (names reg ! i) = Some (word_of_nat i)) \<and>
     dom (ids reg) = set (names reg) \<and>
     take 10 (names reg) = map standardMethodName [0..<10]"


section \<open>Header names\<close>

datatype name_code =
    NC_CacheControl
  | NC_Connection
  | NC_Date
  | NC_TransferEncoding
  | NC_Upgrade
  | NC_Accept
  | NC_AcceptEncoding
  | NC_AcceptLanguage
  | NC_Authorization
  | NC_Host
  | NC_IfModifiedSince
  | NC_IfNoneMatch
  | NC_Referer
  | NC_UserAgent
  | NC_Expect
  | NC_AcceptRanges
  | NC_Age
  | NC_ETag
  | NC_Location
  | NC_RetryAfter
  | NC_Server
  | NC_Vary
  | NC_WwwAuthenticate
  | NC_Allow
  | NC_ContentEncoding
  | NC_ContentLanguage
  | NC_ContentLength
  | NC_ContentRange
  | NC_ContentType
  | NC_Expires
  | NC_LastModified
  | NC_Cookie
  | NC_SetCookie
  | NC_AccessControlAllowOrigin
  | NC_AccessControlAllowMethods
  | NC_AccessControlAllowHeaders
  | NC_AccessControlAllowCredentials
  | NC_Origin
  | NC_SecWebSocketKey
  | NC_SecWebSocketAccept
  | NC_SecWebSocketVersion
  | NC_SecWebSocketProtocol
  | NC_SecWebSocketExtensions
  | NC_XForwardedFor
  | NC_XForwardedProto
  | NC_XRealIp
  | NC_Unknown

fun codeToNames :: "name_code \<Rightarrow> string \<times> string" where
  "codeToNames NC_CacheControl = (''cache-control'', ''Cache-Control'')"
| "codeToNames NC_Connection = (''connection'', ''Connection'')"
| "codeToNames NC_Date = (''date'', ''Date'')"
| "codeToNames NC_TransferEncoding = (''transfer-encoding'', ''Transfer-Encoding'')"
| "codeToNames NC_Upgrade = (''upgrade'', ''Upgrade'')"
| "codeToNames NC_Accept = (''accept'', ''Accept'')"
| "codeToNames NC_AcceptEncoding = (''accept-encoding'', ''Accept-Encoding'')"
| "codeToNames NC_AcceptLanguage = (''accept-language'', ''Accept-Language'')"
| "codeToNames NC_Authorization = (''authorization'', ''Authorization'')"
| "codeToNames NC_Host = (''host'', ''Host'')"
| "codeToNames NC_IfModifiedSince = (''if-modified-since'', ''If-Modified-Since'')"
| "codeToNames NC_IfNoneMatch = (''if-none-match'', ''If-None-Match'')"
| "codeToNames NC_Referer = (''referer'', ''Referer'')"
| "codeToNames NC_UserAgent = (''user-agent'', ''User-Agent'')"
| "codeToNames NC_Expect = (''expect'', ''Expect'')"
| "codeToNames NC_AcceptRanges = (''accept-ranges'', ''Accept-Ranges'')"
| "codeToNames NC_Age = (''age'', ''Age'')"
| "codeToNames NC_ETag = (''etag'', ''ETag'')"
| "codeToNames NC_Location = (''location'', ''Location'')"
| "codeToNames NC_RetryAfter = (''retry-after'', ''Retry-After'')"
| "codeToNames NC_Server = (''server'', ''Server'')"
| "codeToNames NC_Vary = (''vary'', ''Vary'')"
| "codeToNames NC_WwwAuthenticate = (''www-authenticate'', ''WWW-Authenticate'')"
| "codeToNames NC_Allow = (''allow'', ''Allow'')"
| "codeToNames NC_ContentEncoding = (''content-encoding'', ''Content-Encoding'')"
| "codeToNames NC_ContentLanguage = (''content-language'', ''Content-Language'')"
| "codeToNames NC_ContentLength = (''content-length'', ''Content-Length'')"
| "codeToNames NC_ContentRange = (''content-range'', ''Content-Range'')"
| "codeToNames NC_ContentType = (''content-type'', ''Content-Type'')"
| "codeToNames NC_Expires = (''expires'', ''Expires'')"
| "codeToNames NC_LastModified = (''last-modified'', ''Last-Modified'')"
| "codeToNames NC_Cookie = (''cookie'', ''Cookie'')"
| "codeToNames NC_SetCookie = (''set-cookie'', ''Set-Cookie'')"
| "codeToNames NC_AccessControlAllowOrigin = (''access-control-allow-origin'', ''Access-Control-Allow-Origin'')"
| "codeToNames NC_AccessControlAllowMethods = (''access-control-allow-methods'', ''Access-Control-Allow-Methods'')"
| "codeToNames NC_AccessControlAllowHeaders = (''access-control-allow-headers'', ''Access-Control-Allow-Headers'')"
| "codeToNames NC_AccessControlAllowCredentials = (''access-control-allow-credentials'', ''Access-Control-Allow-Credentials'')"
| "codeToNames NC_Origin = (''origin'', ''Origin'')"
| "codeToNames NC_SecWebSocketKey = (''sec-websocket-key'', ''Sec-WebSocket-Key'')"
| "codeToNames NC_SecWebSocketAccept = (''sec-websocket-accept'', ''Sec-WebSocket-Accept'')"
| "codeToNames NC_SecWebSocketVersion = (''sec-websocket-version'', ''Sec-WebSocket-Version'')"
| "codeToNames NC_SecWebSocketProtocol = (''sec-websocket-protocol'', ''Sec-WebSocket-Protocol'')"
| "codeToNames NC_SecWebSocketExtensions = (''sec-websocket-extensions'', ''Sec-WebSocket-Extensions'')"
| "codeToNames NC_XForwardedFor = (''x-forwarded-for'', ''X-Forwarded-For'')"
| "codeToNames NC_XForwardedProto = (''x-forwarded-proto'', ''X-Forwarded-Proto'')"
| "codeToNames NC_XRealIp = (''x-real-ip'', ''X-Real-IP'')"
| "codeToNames NC_Unknown = ([], [])"

definition nameMap :: "(string \<times> name_code) list" where
  "nameMap = [
     (''cache-control'', NC_CacheControl),
     (''connection'', NC_Connection),
     (''date'', NC_Date),
     (''transfer-encoding'', NC_TransferEncoding),
     (''upgrade'', NC_Upgrade),
     (''accept'', NC_Accept),
     (''accept-encoding'', NC_AcceptEncoding),
     (''accept-language'', NC_AcceptLanguage),
     (''authorization'', NC_Authorization),
     (''host'', NC_Host),
     (''if-modified-since'', NC_IfModifiedSince),
     (''if-none-match'', NC_IfNoneMatch),
     (''referer'', NC_Referer),
     (''user-agent'', NC_UserAgent),
     (''expect'', NC_Expect),
     (''accept-ranges'', NC_AcceptRanges),
     (''age'', NC_Age),
     (''etag'', NC_ETag),
     (''location'', NC_Location),
     (''retry-after'', NC_RetryAfter),
     (''server'', NC_Server),
     (''vary'', NC_Vary),
     (''www-authenticate'', NC_WwwAuthenticate),
     (''allow'', NC_Allow),
     (''content-encoding'', NC_ContentEncoding),
     (''content-language'', NC_ContentLanguage),
     (''content-length'', NC_ContentLength),
     (''content-range'', NC_ContentRange),
     (''content-type'', NC_ContentType),
     (''expires'', NC_Expires),
     (''last-modified'', NC_LastModified),
     (''cookie'', NC_Cookie),
     (''set-cookie'', NC_SetCookie),
     (''access-control-allow-origin'', NC_AccessControlAllowOrigin),
     (''access-control-allow-methods'', NC_AccessControlAllowMethods),
     (''access-control-allow-headers'', NC_AccessControlAllowHeaders),
     (''access-control-allow-credentials'', NC_AccessControlAllowCredentials),
     (''origin'', NC_Origin),
     (''sec-websocket-key'', NC_SecWebSocketKey),
     (''sec-websocket-accept'', NC_SecWebSocketAccept),
     (''sec-websocket-version'', NC_SecWebSocketVersion),
     (''sec-websocket-protocol'', NC_SecWebSocketProtocol),
     (''sec-websocket-extensions'', NC_SecWebSocketExtensions),
     (''x-forwarded-for'', NC_XForwardedFor),
     (''x-forwarded-proto'', NC_XForwardedProto),
     (''x-real-ip'', NC_XRealIp)]"

definition nameToCode :: "string \<Rightarrow> name_code" where
  "nameToCode lowerName = (case map_of nameMap lowerName of Some c \<Rightarrow> c | None \<Rightarrow> NC_Unknown)"

definition codeToName :: "name_code \<Rightarrow> string" where
  "codeToName c = fst (codeToNames c)"

definition codeToCanonicalName :: "name_code \<Rightarrow> string" where
  "codeToCanonicalName c = snd (codeToNames c)"

definition toLower :: "string \<Rightarrow> string" where
  "toLower str = map tolower str"

fun toCanonical_loop :: "bool \<Rightarrow> string \<Rightarrow> string" where
  "toCanonical_loop capitalizeNext [] = []"
| "toCanonical_loop capitalizeNext (c # cs) =
     (if capitalizeNext \<and> isalpha c then toupper c # toCanonical_loop False cs
      else if c = CHR ''-'' then c # toCanonical_loop True cs
      else tolower c # toCanonical_loop capitalizeNext cs)"

definition toCanonical :: "string \<Rightarrow> string" where
  "toCanonical str = toCanonical_loop True str"

record http_header =
  header_name :: string
  header_value :: string
  header_nameCode :: name_code

definition httpHeader :: "string \<Rightarrow> string \<Rightarrow> http_header" where
  "httpHeader nm v =
     \<lparr>header_name = toLower nm, header_value = v, header_nameCode = nameToCode (toLower nm)\<rparr>"

definition httpHeader_of_code :: "name_code \<Rightarrow> string \<Rightarrow> http_header" where
  "httpHeader_of_code code v =
     \<lparr>header_name = fst (codeToNames code), header_value = v, header_nameCode = code\<rparr>"

definition canonicalName :: "http_header \<Rightarrow> string" where
  "canonicalName h =
     (if header_nameCode h \<noteq> NC_Unknown then codeToCanonicalName (header_nameCode h)
      else toCanonical (header_name h))"

fun nameEquals_loop :: "string \<Rightarrow> string \<Rightarrow> bool" where
  "nameEquals_loop (a # as) (b # bs) = (if tolower a \<noteq> b then False else nameEquals_loop as bs)"
| "nameEquals_loop _ _ = True"

definition nameEquals :: "http_header \<Rightarrow> string \<Rightarrow> bool" where
  "nameEquals h nm =
     (if length nm \<noteq> length (header_name h) then False else nameEquals_loop nm (header_name h))"

type_synonym header_map = "http_header omap"


section \<open>The registry\<close>

lemma registry_inv_lookup:
  "registry_inv reg \<Longrightarrow> i < length (names reg) \<Longrightarrow> ids reg (names reg ! i) = Some (word_of_nat i)"
  by (simp add: registry_inv_def)

lemma registry_inv_find:
  assumes "registry_inv reg" "ids reg s = Some m"
  shows "unat m < length (names reg) \<and> names reg ! unat m = s"
proof -
  from assms have "s \<in> set (names reg)" by (auto simp: registry_inv_def)
  then obtain i where i: "i < length (names reg)" "names reg ! i = s" by (auto simp: in_set_conv_nth)
  have "i < 2 ^ 16" using i assms(1) by (simp add: registry_inv_def)
  moreover have "m = word_of_nat i" using registry_inv_lookup [OF assms(1) i(1)] i(2) assms(2) by simp
  ultimately have "unat m = i" by (simp add: unat_of_nat)
  with i show ?thesis by simp
qed

lemma registry_add_inv:
  assumes inv: "registry_inv reg" and room: "length (names reg) < 2 ^ 16"
  shows "registry_inv (snd (registry_add nm reg))"
proof (cases "ids reg nm")
  case None
  then have new: "nm \<notin> set (names reg)" using inv by (metis domIff registry_inv_def)
  have len: "10 \<le> length (names reg)"
    using inv by (auto simp: registry_inv_def dest!: arg_cong [where f = length])
  have "ids reg (names reg ! i) = Some (word_of_nat i)" if "i < length (names reg)" for i
    using registry_inv_lookup [OF inv that] .
  moreover have "names reg ! i \<noteq> nm" if "i < length (names reg)" for i
    using that new by (auto simp: in_set_conv_nth)
  ultimately show ?thesis using inv room None new len
    by (auto simp: registry_inv_def registry_add_def Let_def nth_append less_Suc_eq)
qed (use inv in \<open>simp add: registry_add_def\<close>)

lemma methodRegistry_eval:
  "methodRegistry =
     \<lparr>names = [''GET'', ''HEAD'', ''POST'', ''PUT'', ''DELETE'', ''OPTIONS'', ''PATCH'', ''TRACE'',
        ''CONNECT'', []],
      ids = [''GET'' \<mapsto> 0, ''HEAD'' \<mapsto> 1, ''POST'' \<mapsto> 2, ''PUT'' \<mapsto> 3, ''DELETE'' \<mapsto> 4,
        ''OPTIONS'' \<mapsto> 5, ''PATCH'' \<mapsto> 6, ''TRACE'' \<mapsto> 7, ''CONNECT'' \<mapsto> 8, [] \<mapsto> 9]\<rparr>"
  by (simp add: methodRegistry_def registry_add_def standardMethodName_def upt_rec Let_def)

lemma methodRegistry_ids:
  "\<forall>i < length (names methodRegistry). ids methodRegistry (names methodRegistry ! i) = Some (word_of_nat i)"
  by (simp add: methodRegistry_eval All_less_Suc)

lemma registry_inv_methodRegistry: "registry_inv methodRegistry"
  unfolding registry_inv_def
proof (intro conjI methodRegistry_ids)
  show "dom (ids methodRegistry) = set (names methodRegistry)" by (auto simp: methodRegistry_eval)
  show "take 10 (names methodRegistry) = map standardMethodName [0..<10]"
    by (simp add: methodRegistry_eval standardMethodName_def upt_rec)
qed (simp_all add: methodRegistry_eval)

lemma registry_add_facts:
  shows registry_add_length: "length (names (snd (registry_add nm reg))) \<le> Suc (length (names reg))"
    and registry_add_known: "ids reg s = Some m \<Longrightarrow> ids (snd (registry_add nm reg)) s = Some m"
    and registry_add_result: "ids (snd (registry_add nm reg)) nm = Some (fst (registry_add nm reg))"
    and registry_add_dom: "dom (ids (snd (registry_add nm reg))) = insert nm (dom (ids reg))"
  by (auto simp: registry_add_def Let_def split: option.splits)

definition register_all :: "string list \<Rightarrow> method_registry \<Rightarrow> method_registry" where
  "register_all nms reg = fold (\<lambda>nm r. snd (registerMethod nm r)) nms reg"

lemma register_all_inv:
  "registry_inv reg \<Longrightarrow> length (names reg) + length nms \<le> 2 ^ 16 \<Longrightarrow> registry_inv (register_all nms reg)"
proof (induction nms arbitrary: reg)
  case (Cons nm nms)
  then have "registry_inv (snd (registry_add nm reg))" by (simp add: registry_add_inv)
  with Cons show ?case
    using registry_add_length [of nm reg] by (simp add: register_all_def registerMethod_def)
qed (simp add: register_all_def)

lemma register_all_dom: "dom (ids (register_all nms reg)) = set nms \<union> dom (ids reg)"
  by (induction nms arbitrary: reg) (auto simp: register_all_def registerMethod_def registry_add_dom)

lemma register_all_known: "ids reg s = Some m \<Longrightarrow> ids (register_all nms reg) s = Some m"
  by (induction nms arbitrary: reg) (auto simp: register_all_def registerMethod_def registry_add_known)


section \<open>Case folding of names\<close>

lemma of_char_less: "(of_char c :: nat) < 256"
  by (rule of_char_less_256)

lemma tolower_idem [simp]: "tolower (tolower c) = tolower c"
  using of_char_less [of c] by (auto simp: tolower_def)

lemma tolower_toupper [simp]: "isalpha c \<Longrightarrow> tolower (toupper c) = tolower c"
  using of_char_less [of c] by (auto simp: tolower_def toupper_def isalpha_def)

lemma toLower_idem [simp]: "toLower (toLower s) = toLower s"
  by (simp add: toLower_def)

lemma tolower_hyphen [simp]: "tolower CHR ''-'' = CHR ''-''"
  by (simp add: tolower_def)

lemma toLower_toCanonical_loop: "toLower (toCanonical_loop b s) = toLower s"
  by (induction b s rule: toCanonical_loop.induct) (auto simp: toLower_def)

lemma nameEquals_loop_iff: "length a = length b \<Longrightarrow> nameEquals_loop a b \<longleftrightarrow> toLower a = b"
  by (induction a b rule: list_induct2) (auto simp: toLower_def)

lemma toLower_literals:
  "toLower (codeToCanonicalName c) = codeToName c"
  by (cases c) (simp_all add: toLower_def codeToCanonicalName_def codeToName_def char_eval)

lemma nameToCode_codeToName: "nameToCode (codeToName c) = c"
  by (cases c) (simp_all add: nameToCode_def codeToName_def nameMap_def)

lemma nameToCode_Some: "map_of nameMap s = Some c \<Longrightarrow> codeToName c = s"
  by (drule map_of_SomeD) (auto simp: nameMap_def codeToName_def)

lemma nameToCode_known: "nameToCode s = c \<Longrightarrow> c \<noteq> NC_Unknown \<Longrightarrow> codeToName c = s"
  by (auto simp: nameToCode_def nameToCode_Some split: option.splits)

lemma toLower_canonicalName: "toLower (canonicalName (httpHeader nm v)) = toLower nm"
  using nameToCode_known [of "toLower nm"]
  by (auto simp: canonicalName_def httpHeader_def toLower_literals toCanonical_def toLower_toCanonical_loop)


section \<open>Properties\<close>

text \<open>
  Whatever custom methods are registered (as long as the ids fit in 16 bits), the
  standard methods keep their ids, \<^verbatim>\<open>fromString\<close> and \<^verbatim>\<open>toString\<close> are inverse on the registered
  names, \<^verbatim>\<open>fromString\<close> answers \<^verbatim>\<open>_Invalid\<close> exactly for the names that were never registered
  (and for the empty name), and registering a known name once more changes nothing.
\<close>

theorem method_registry_correct:
  assumes "length nms \<le> 2 ^ 16 - 10" and "reg = register_all nms methodRegistry"
  shows "(\<forall>i < 9. method_fromString reg (standardMethodName i) = word_of_nat i) \<and>
    (\<forall>s \<in> set nms. method_toString reg (method_fromString reg s) = s) \<and>
    (\<forall>i < length (names reg). method_fromString reg (method_toString reg (word_of_nat i)) = word_of_nat i) \<and>
    (\<forall>s. method_fromString reg s = method_Invalid \<longleftrightarrow>
       s = [] \<or> s \<notin> set nms \<union> standardMethodName ` {0..<9}) \<and>
    (\<forall>s \<in> set nms. registerMethod s reg = (method_fromString reg s, reg))"
proof -
  have inv: "registry_inv reg"
    using assms register_all_inv [OF registry_inv_methodRegistry, of nms] by (simp add: methodRegistry_eval)
  have known: "ids reg (standardMethodName i) = Some (word_of_nat i)" if "i < 10" for i
  proof -
    have "take 10 (names reg) = map standardMethodName [0..<10]" using inv by (simp add: registry_inv_def)
    moreover from this have "10 \<le> length (names reg)" by (auto dest!: arg_cong [where f = length])
    ultimately have "names reg ! i = standardMethodName i" "i < length (names reg)"
      using that by (metis nth_take nth_map_upt minus_nat.diff_0 plus_nat.add_0, simp)
    then show ?thesis using registry_inv_lookup [OF inv] by metis
  qed
  have some: "\<exists>m. ids reg s = Some m" if "s \<in> set nms" for s
    using that assms(2) register_all_dom [of nms methodRegistry] by (auto simp: dom_def set_eq_iff)
  have small: "i < 2 ^ 16" if "i < length (names reg)" for i
    using that inv by (simp add: registry_inv_def)
  have "method_fromString reg s = method_Invalid \<longleftrightarrow>
      s = [] \<or> s \<notin> set nms \<union> standardMethodName ` {0..<9}" for s
  proof (cases "ids reg s")
    case None
    then have "s \<notin> set nms" "s \<notin> standardMethodName ` {0..<9}" using some known by fastforce+
    with None show ?thesis by (simp add: method_fromString_def)
  next
    case (Some m)
    have "m = 9 \<longleftrightarrow> s = []"
      using registry_inv_find [OF inv Some] registry_inv_find [OF inv known [of 9]] known [of 9] Some
      by (auto simp: standardMethodName_def)
    moreover have "s \<in> set nms \<union> standardMethodName ` {0..<9}" if "s \<noteq> []"
    proof -
      have "s \<in> dom (ids reg)" using Some by auto
      then have "s \<in> set nms \<union> dom (ids methodRegistry)" using assms(2) register_all_dom by blast
      moreover have "dom (ids methodRegistry) = set (names methodRegistry)"
        using registry_inv_methodRegistry by (simp add: registry_inv_def)
      moreover have "set (names methodRegistry) - {[]} = standardMethodName ` set [0..<9]"
        by (auto simp: methodRegistry_eval standardMethodName_def upt_rec)
      ultimately show ?thesis using that by auto
    qed
    ultimately show ?thesis using Some by (auto simp: method_fromString_def)
  qed
  moreover have "method_toString reg (method_fromString reg s) = s" if "s \<in> set nms" for s
    using some [OF that] registry_inv_find [OF inv] by (auto simp: method_toString_def method_fromString_def)
  moreover have "method_fromString reg (method_toString reg (word_of_nat i)) = word_of_nat i"
    if "i < length (names reg)" for i
    using that small [OF that] registry_inv_lookup [OF inv that]
    by (simp add: method_toString_def method_fromString_def unat_of_nat)
  moreover have "registerMethod s reg = (method_fromString reg s, reg)" if "s \<in> set nms" for s
    using some [OF that] by (auto simp: registerMethod_def registry_add_def method_fromString_def)
  ultimately show ?thesis using known by (auto simp: method_fromString_def)
qed

theorem method_registry_correct_witness:
  "method_toString (register_all [''PROPFIND'', ''GET''] methodRegistry)
     (method_fromString (register_all [''PROPFIND'', ''GET''] methodRegistry) ''PROPFIND'') = ''PROPFIND''"
  using method_registry_correct [of "[''PROPFIND'', ''GET'']"] by simp

text \<open>
  The table of well-known header names is consistent with the conversion functions: a
  header built from a code is the header built from that code's canonical spelling or from
  any other capitalisation of it, names with no entry have the code \<^verbatim>\<open>Unknown\<close>, the
  canonical name under which a header is written out is read back as the same header, and
  \<^verbatim>\<open>nameEquals\<close> is comparison without case.
\<close>

theorem header_names_consistent:
  "(toLower nm = codeToName c \<longrightarrow> httpHeader nm v = httpHeader_of_code c v) \<and>
   httpHeader (codeToCanonicalName c) v = httpHeader_of_code c v \<and>
   (nameToCode nm \<noteq> NC_Unknown \<longrightarrow> codeToName (nameToCode nm) = nm) \<and>
   httpHeader (canonicalName (httpHeader nm v)) v = httpHeader nm v \<and>
   (nameEquals (httpHeader nm v) nm' \<longleftrightarrow> toLower nm' = toLower nm)"
proof -
  have "nameEquals (httpHeader nm v) nm' \<longleftrightarrow> toLower nm' = toLower nm"
  proof (cases "length nm' = length nm")
    case True
    then show ?thesis by (simp add: nameEquals_def httpHeader_def nameEquals_loop_iff toLower_def)
  next
    case False
    then show ?thesis by (auto simp: nameEquals_def httpHeader_def toLower_def dest!: arg_cong [where f = length])
  qed
  moreover have "httpHeader (canonicalName (httpHeader nm v)) v = httpHeader nm v"
    by (subst httpHeader_def) (simp add: toLower_canonicalName, simp add: httpHeader_def)
  ultimately show ?thesis
    using nameToCode_known [of nm]
    by (auto simp: httpHeader_def httpHeader_of_code_def toLower_literals nameToCode_codeToName codeToName_def [symmetric])
qed

theorem header_names_consistent_witness:
  "httpHeader ''CONTENT-length'' ''5'' = httpHeader_of_code NC_ContentLength ''5''"
proof -
  have "toLower ''CONTENT-length'' = codeToName NC_ContentLength"
    by (simp add: toLower_def codeToName_def char_eval)
  then show ?thesis using header_names_consistent [of "''CONTENT-length''" NC_ContentLength "''5''" "[]"] by simp
qed

end
