(* ===== verification/Cookie.thy ===== *)
theory Cookie
  imports Prelude Http_Header
begin

text \<open>
  Cookies (\<^verbatim>\<open>extensions/http/include/nitrocoro/http/Cookie.h\<close>, \<^verbatim>\<open>extensions/http/src/Cookie.cc\<close>):
  the text of a \<^verbatim>\<open>Set-Cookie\<close> header and its parser.  \<^verbatim>\<open>maxAge\<close> is an \<^verbatim>\<open>int\<close> of 32 bits, kept as
  an \<^typ>\<open>int\<close>; \<^verbatim>\<open>std::stoi\<close> does the range check.
\<close>

datatype same_site = SS_Unset | SS_Strict | SS_Lax | SS_None

record cookie =
  cookie_name :: string
  cookie_value :: string
  cookie_domain :: string
  cookie_path :: string
  cookie_expires :: string
  cookie_maxAge :: int
  cookie_sameSite :: same_site
  cookie_secure :: bool
  cookie_httpOnly :: bool

definition cookie_default :: cookie where
  "cookie_default =
     \<lparr>cookie_name = [], cookie_value = [], cookie_domain = [], cookie_path = [],
      cookie_expires = [], cookie_maxAge = - 1, cookie_sameSite = SS_Unset,
      cookie_secure = False, cookie_httpOnly = False\<rparr>"

definition cookie_set_attribute :: "string \<Rightarrow> string \<Rightarrow> cookie \<Rightarrow> cookie" where
  "cookie_set_attribute attrName attrValue c =
     (if attrName = ''path'' then c\<lparr>cookie_path := attrValue\<rparr>
      else if attrName = ''domain'' then c\<lparr>cookie_domain := attrValue\<rparr>
      else if attrName = ''expires'' then c\<lparr>cookie_expires := attrValue\<rparr>
      else if attrName = ''max-age'' then
        (case stoi attrValue of Inr n \<Rightarrow> c\<lparr>cookie_maxAge := n\<rparr> | Inl _ \<Rightarrow> c)
      else if attrName = ''samesite'' then
        (let v = toLower attrValue in
         if v = ''strict'' then c\<lparr>cookie_sameSite := SS_Strict\<rparr>
         else if v = ''lax'' then c\<lparr>cookie_sameSite := SS_Lax\<rparr>
         else if v = ''none'' then c\<lparr>cookie_sameSite := SS_None\<rparr>
         else c)
      else c)"

definition cookie_attribute :: "string \<Rightarrow> cookie \<Rightarrow> cookie" where
  "cookie_attribute part c =
     (let token = trim_blanks part; tokenLower = toLower token in
      if tokenLower = ''secure'' then c\<lparr>cookie_secure := True\<rparr>
      else if tokenLower = ''httponly'' then c\<lparr>cookie_httpOnly := True\<rparr>
      else (case find_char CHR ''='' token of
              None \<Rightarrow> c
            | Some eq \<Rightarrow>
                cookie_set_attribute (toLower (trim_blanks (take eq token)))
                  (trim_blanks (drop (eq + 1) token)) c))"

definition cookie_fromString :: "string \<Rightarrow> cookie" where
  "cookie_fromString raw =
     (let semiPos = find_char CHR '';'' raw;
          part = trim_blanks (case semiPos of None \<Rightarrow> raw | Some p \<Rightarrow> take p raw)
      in case find_char CHR ''='' part of
           None \<Rightarrow> cookie_default
         | Some eqPos \<Rightarrow>
             (let c = cookie_default\<lparr>cookie_name := trim_blanks (take eqPos part),
                                      cookie_value := trim_blanks (drop (eqPos + 1) part)\<rparr>
              in if cookie_name c = [] then c
                 else scan_loop CHR '';'' cookie_attribute raw
                        (case semiPos of None \<Rightarrow> length raw | Some p \<Rightarrow> p + 1) c))"

definition cookie_toString :: "cookie \<Rightarrow> string" where
  "cookie_toString c =
     cookie_name c @ ''='' @ cookie_value c @
     (if cookie_expires c \<noteq> [] then ''; Expires='' @ cookie_expires c else []) @
     (if 0 \<le> cookie_maxAge c then ''; Max-Age='' @ to_string_int (cookie_maxAge c) else []) @
     (if cookie_domain c \<noteq> [] then ''; Domain='' @ cookie_domain c else []) @
     (if cookie_path c \<noteq> [] then ''; Path='' @ cookie_path c else []) @
     (if cookie_secure c then ''; Secure'' else []) @
     (if cookie_httpOnly c then ''; HttpOnly'' else []) @
     (case cookie_sameSite c of
        SS_Strict \<Rightarrow> ''; SameSite=Strict''
      | SS_Lax \<Rightarrow> ''; SameSite=Lax''
      | SS_None \<Rightarrow> ''; SameSite=None''
      | SS_Unset \<Rightarrow> [])"

text \<open>
  The cookies whose text is unambiguous: no blank at either end of a field, no semicolon
  inside one, no equals sign in the name, and a \<^verbatim>\<open>Max-Age\<close> that is unset or not negative.
\<close>

definition trimmed :: "string \<Rightarrow> bool" where
  "trimmed s \<longleftrightarrow> s = [] \<or> (hd s \<noteq> CHR '' '' \<and> last s \<noteq> CHR '' '')"

definition cookie_wf :: "cookie \<Rightarrow> bool" where
  "cookie_wf c \<longleftrightarrow>
     cookie_name c \<noteq> [] \<and> CHR ''='' \<notin> set (cookie_name c) \<and>
     (\<forall>s \<in> {cookie_name c, cookie_value c, cookie_domain c, cookie_path c, cookie_expires c}.
        trimmed s \<and> CHR '';'' \<notin> set s) \<and>
     - 1 \<le> cookie_maxAge c \<and> cookie_maxAge c < 2 ^ 31"


section \<open>The attribute list\<close>

lemma trim_trimmed: "trimmed s \<Longrightarrow> trim_blanks s = s"
  by (cases "s = []") (auto simp: trimmed_def trim_blanks_id)

lemma trim_blank_Cons: "trimmed s \<Longrightarrow> s \<noteq> [] \<Longrightarrow> trim_blanks (CHR '' '' # s) = s"
  using trim_blanks_append_simple [of s 1 0] by (simp add: trimmed_def)

lemma trimmed_pair:
  "nm \<noteq> [] \<Longrightarrow> trimmed nm \<Longrightarrow> trimmed v \<Longrightarrow> trimmed (nm @ CHR ''='' # v)"
  by (auto simp: trimmed_def)

definition attr_pair :: "string \<Rightarrow> string \<Rightarrow> string" where
  "attr_pair nm v = nm @ CHR ''='' # v"

text \<open>The attribute texts in the order of \<^const>\<open>cookie_toString\<close>.\<close>

definition attribute_texts :: "cookie \<Rightarrow> string list" where
  "attribute_texts c =
     (if cookie_expires c \<noteq> [] then [attr_pair ''Expires'' (cookie_expires c)] else []) @
     (if 0 \<le> cookie_maxAge c then [attr_pair ''Max-Age'' (to_string (nat (cookie_maxAge c)))] else []) @
     (if cookie_domain c \<noteq> [] then [attr_pair ''Domain'' (cookie_domain c)] else []) @
     (if cookie_path c \<noteq> [] then [attr_pair ''Path'' (cookie_path c)] else []) @
     (if cookie_secure c then [''Secure''] else []) @
     (if cookie_httpOnly c then [''HttpOnly''] else []) @
     (case cookie_sameSite c of
        SS_Strict \<Rightarrow> [attr_pair ''SameSite'' ''Strict'']
      | SS_Lax \<Rightarrow> [attr_pair ''SameSite'' ''Lax'']
      | SS_None \<Rightarrow> [attr_pair ''SameSite'' ''None'']
      | SS_Unset \<Rightarrow> [])"

definition attribute_list :: "string list \<Rightarrow> string" where
  "attribute_list as = concat (map (\<lambda>a. CHR '';'' # CHR '' '' # a) as)"

lemma cookie_toString_attributes:
  "cookie_toString c = (cookie_name c @ CHR ''='' # cookie_value c) @ attribute_list (attribute_texts c)"
  by (auto simp: cookie_toString_def attribute_list_def attribute_texts_def to_string_int_def attr_pair_def
      split: same_site.splits)

lemma segments_attribute_list:
  "\<forall>a \<in> set as. CHR '';'' \<notin> set a \<Longrightarrow> as \<noteq> [] \<Longrightarrow>
   segments CHR '';'' (tl (attribute_list as)) = map (\<lambda>a. CHR '' '' # a) as"
proof (induction as)
  case (Cons a as)
  show ?case
  proof (cases "as = []")
    case True
    with Cons.prems show ?thesis by (simp add: attribute_list_def segments_single)
  next
    case False
    then have "attribute_list as = CHR '';'' # tl (attribute_list as)"
      by (cases as) (simp_all add: attribute_list_def)
    then have "tl (attribute_list (a # as)) = (CHR '' '' # a) @ CHR '';'' # tl (attribute_list as)"
      by (simp add: attribute_list_def)
    with Cons False show ?thesis using segments_cons [of "CHR '';''" "CHR '' '' # a"] by simp
  qed
qed simp

lemma cookie_attribute_pair:
  assumes "nm \<noteq> []" "trimmed nm" "CHR ''='' \<notin> set nm" "trimmed v"
  shows "cookie_attribute (CHR '' '' # attr_pair nm v) c = cookie_set_attribute (toLower nm) v c"
proof -
  have trim: "trim_blanks (CHR '' '' # nm @ CHR ''='' # v) = nm @ CHR ''='' # v"
    using trim_blank_Cons [OF trimmed_pair [OF assms(1,2,4)]] by simp
  have "CHR ''='' \<in> set (toLower (nm @ CHR ''='' # v))" by (simp add: toLower_def char_eval)
  then have "toLower (nm @ CHR ''='' # v) \<noteq> ''secure''" "toLower (nm @ CHR ''='' # v) \<noteq> ''httponly''"
    by auto
  with assms trim show ?thesis
    by (simp add: cookie_attribute_def Let_def find_char_append trim_trimmed attr_pair_def)
qed

lemma cookie_attribute_flag:
  "cookie_attribute (CHR '' '' # ''Secure'') c = c\<lparr>cookie_secure := True\<rparr>"
  "cookie_attribute (CHR '' '' # ''HttpOnly'') c = c\<lparr>cookie_httpOnly := True\<rparr>"
  by (simp_all add: cookie_attribute_def Let_def trim_blank_Cons trimmed_def toLower_def char_eval)

lemma to_string_plain: "c \<in> {CHR '' '', CHR '';'', CHR ''=''} \<Longrightarrow> c \<notin> set (to_string n)"
  using to_string_no_control [of c n] by auto

lemma trimmed_to_string: "trimmed (to_string n)"
proof -
  have "hd (to_string n) \<in> set (to_string n)" "last (to_string n) \<in> set (to_string n)" by simp_all
  then show ?thesis using to_string_plain [of "CHR '' ''" n] by (metis insertI1 trimmed_def)
qed

lemma attribute_names_lower:
  "toLower ''Expires'' = ''expires''" "toLower ''Max-Age'' = ''max-age''" "toLower ''Domain'' = ''domain''"
  "toLower ''Path'' = ''path''" "toLower ''SameSite'' = ''samesite''" "toLower ''Strict'' = ''strict''"
  "toLower ''Lax'' = ''lax''" "toLower ''None'' = ''none''"
  by (simp_all add: toLower_def char_eval)

lemma trimmed_literals:
  "trimmed ''Expires''" "trimmed ''Max-Age''" "trimmed ''Domain''" "trimmed ''Path''" "trimmed ''SameSite''"
  "trimmed ''Strict''" "trimmed ''Lax''" "trimmed ''None''"
  by (simp_all add: trimmed_def)

lemma cookie_attribute_known:
  "trimmed v \<Longrightarrow> cookie_attribute (CHR '' '' # attr_pair ''Expires'' v) c = c\<lparr>cookie_expires := v\<rparr>"
  "trimmed v \<Longrightarrow> cookie_attribute (CHR '' '' # attr_pair ''Domain'' v) c = c\<lparr>cookie_domain := v\<rparr>"
  "trimmed v \<Longrightarrow> cookie_attribute (CHR '' '' # attr_pair ''Path'' v) c = c\<lparr>cookie_path := v\<rparr>"
  "n < 2 ^ 31 \<Longrightarrow> cookie_attribute (CHR '' '' # attr_pair ''Max-Age'' (to_string n)) c = c\<lparr>cookie_maxAge := int n\<rparr>"
  "cookie_attribute (CHR '' '' # attr_pair ''SameSite'' ''Strict'') c = c\<lparr>cookie_sameSite := SS_Strict\<rparr>"
  "cookie_attribute (CHR '' '' # attr_pair ''SameSite'' ''Lax'') c = c\<lparr>cookie_sameSite := SS_Lax\<rparr>"
  "cookie_attribute (CHR '' '' # attr_pair ''SameSite'' ''None'') c = c\<lparr>cookie_sameSite := SS_None\<rparr>"
  by (simp_all add: cookie_attribute_pair trimmed_literals trimmed_to_string attribute_names_lower
      cookie_set_attribute_def)

lemma fold_attributes:
  assumes "cookie_wf c"
    and "c0 = cookie_default\<lparr>cookie_name := cookie_name c, cookie_value := cookie_value c\<rparr>"
  shows "fold cookie_attribute (map (\<lambda>a. CHR '' '' # a) (attribute_texts c)) c0 = c"
  using assms
  by (cases c; cases "cookie_sameSite c")
     (auto simp: cookie_wf_def attribute_texts_def cookie_default_def cookie_attribute_known
       cookie_attribute_flag)

lemma attribute_texts_plain:
  assumes "cookie_wf c" "a \<in> set (attribute_texts c)"
  shows "CHR '';'' \<notin> set a"
  using assms to_string_plain [of "CHR '';''"]
  by (auto simp: attribute_texts_def cookie_wf_def attr_pair_def split: if_splits same_site.splits)


lemma cookie_text_parses:
  assumes "cookie_wf c"
  shows "cookie_fromString (cookie_toString c) = c"
proof -
  let ?h = "cookie_name c @ CHR ''='' # cookie_value c" and ?as = "attribute_texts c"
  have wf: "trimmed (cookie_name c)" "trimmed (cookie_value c)" "cookie_name c \<noteq> []"
    "CHR ''='' \<notin> set (cookie_name c)" "CHR '';'' \<notin> set ?h"
    using assms by (auto simp: cookie_wf_def)
  have trim: "trim_blanks ?h = ?h" using trimmed_pair [OF wf(3,1,2)] by (rule trim_trimmed)
  let ?c0 = "cookie_default\<lparr>cookie_name := cookie_name c, cookie_value := cookie_value c\<rparr>"
  have attrs: "fold cookie_attribute (map (\<lambda>a. CHR '' '' # a) ?as) ?c0 = c"
    using fold_attributes [OF assms] by simp
  show ?thesis
  proof (cases "?as = []")
    case True
    then have "cookie_toString c = ?h" by (simp add: cookie_toString_attributes attribute_list_def)
    moreover have "?c0 = c" using attrs True by simp
    ultimately show ?thesis using wf trim
      by (simp add: cookie_fromString_def Let_def find_char_append trim_trimmed scan_loop_segments)
  next
    case False
    then have split: "attribute_list ?as = CHR '';'' # tl (attribute_list ?as)"
      by (cases ?as) (simp_all add: attribute_list_def)
    have "segments CHR '';'' (tl (attribute_list ?as)) = map (\<lambda>a. CHR '' '' # a) ?as"
      using segments_attribute_list [OF _ False] attribute_texts_plain [OF assms] by blast
    moreover have "find_char CHR '';'' (cookie_toString c) = Some (length ?h)"
      using find_char_append [OF wf(5)] split by (metis cookie_toString_attributes)
    moreover have "take (length ?h) (cookie_toString c) = ?h"
      "drop (length ?h + 1) (cookie_toString c) = tl (attribute_list ?as)"
      by (simp_all add: cookie_toString_attributes drop_Suc)
    ultimately show ?thesis using wf trim attrs
      by (simp add: cookie_fromString_def Let_def find_char_append trim_trimmed scan_loop_segments)
  qed
qed

section \<open>Properties\<close>

text \<open>
  A cookie that is written into a \<^verbatim>\<open>Set-Cookie\<close> header and parsed again is the same
  cookie, in every field: name, value, expiry text, maximal age, domain, path, the two flags
  and the same-site policy.
\<close>

theorem cookie_round_trip:
  assumes "cookie_wf c"
  shows "cookie_fromString (cookie_toString c) = c"
  using assms by (rule cookie_text_parses)

theorem cookie_round_trip_witness:
  "cookie_fromString (cookie_toString (cookie_default\<lparr>cookie_name := ''id'', cookie_value := ''a=b'',
      cookie_path := ''/x'', cookie_maxAge := 60, cookie_secure := True, cookie_sameSite := SS_Lax\<rparr>)) =
    cookie_default\<lparr>cookie_name := ''id'', cookie_value := ''a=b'', cookie_path := ''/x'',
      cookie_maxAge := 60, cookie_secure := True, cookie_sameSite := SS_Lax\<rparr>"
  by (rule cookie_round_trip) (simp add: cookie_wf_def trimmed_def cookie_default_def)

end
