(* ===== verification/Http_Message.thy ===== *)
theory Http_Message
  imports Prelude Http_Header Cookie Url_Encode
begin

text \<open>
  Requests and responses (\<^verbatim>\<open>extensions/http/include/nitrocoro/http/HttpMessage.h\<close>) and the
  read access to them (\<^verbatim>\<open>HttpMessageAccessor.h\<close>).  The \<^verbatim>\<open>std::map\<close> members are ordered maps of the
  prelude.
\<close>

record http_request =
  req_version :: version
  req_method :: http_method
  req_path :: string
  req_rawPath :: string
  req_query :: string
  req_headers :: header_map
  req_cookies :: "string omap"
  req_queries :: "string omap"
  req_transferMode :: transfer_mode
  req_contentLength :: nat
  req_keepAlive :: bool

definition request_default :: http_request where
  "request_default =
     \<lparr>req_version = KHttp11, req_method = method_Invalid, req_path = [], req_rawPath = [],
      req_query = [], req_headers = [], req_cookies = [], req_queries = [],
      req_transferMode = UntilClose, req_contentLength = 0, req_keepAlive = False\<rparr>"

record http_response =
  resp_version :: version
  resp_statusCode :: u16
  resp_statusReason :: string
  resp_headers :: header_map
  resp_cookies :: "cookie list"
  resp_transferMode :: transfer_mode
  resp_contentLength :: nat
  resp_shouldClose :: bool

definition response_default :: http_response where
  "response_default =
     \<lparr>resp_version = KHttp11, resp_statusCode = 200, resp_statusReason = [], resp_headers = [],
      resp_cookies = [], resp_transferMode = ContentLength, resp_contentLength = 0,
      resp_shouldClose = False\<rparr>"


section \<open>Access\<close>

text \<open>
  \<^verbatim>\<open>HttpMessageAccessor\<close> is a template over the message; its lookups depend on the maps only.
\<close>

definition getHeader :: "header_map \<Rightarrow> string \<Rightarrow> string" where
  "getHeader hs nm = (case omap_find hs (map tolower nm) of Some h \<Rightarrow> header_value h | None \<Rightarrow> [])"

definition getHeader_code :: "header_map \<Rightarrow> name_code \<Rightarrow> string" where
  "getHeader_code hs c = (case omap_find hs (codeToName c) of Some h \<Rightarrow> header_value h | None \<Rightarrow> [])"

definition getCookie :: "http_request \<Rightarrow> string \<Rightarrow> string" where
  "getCookie r nm = (case omap_find (req_cookies r) nm of Some v \<Rightarrow> v | None \<Rightarrow> [])"

definition getQuery :: "http_request \<Rightarrow> string \<Rightarrow> string" where
  "getQuery r nm = (case omap_find (req_queries r) nm of Some v \<Rightarrow> v | None \<Rightarrow> [])"

text \<open>\<^verbatim>\<open>result[key]\<close> on its own creates an empty vector when the key is new.\<close>

definition touch :: "string \<Rightarrow> string list omap \<Rightarrow> string list omap" where
  "touch k m = (case omap_find m k of None \<Rightarrow> omap_assign k [] m | Some _ \<Rightarrow> m)"

definition multi_query_pair :: "string \<Rightarrow> string list omap \<Rightarrow> string list omap" where
  "multi_query_pair pair result =
     (case find_char CHR ''='' pair of
        Some eqPos \<Rightarrow>
          push_back (urlDecodeComponent (take eqPos pair)) (urlDecodeComponent (drop (eqPos + 1) pair)) result
      | None \<Rightarrow> if pair \<noteq> [] then touch (urlDecodeComponent pair) result else result)"

definition multiQueries :: "http_request \<Rightarrow> string list omap" where
  "multiQueries r = scan_loop CHR ''&'' multi_query_pair (req_query r) 0 []"


section \<open>Header maps\<close>

text \<open>
  Every entry of a header map is stored under its own lower-case name, with the code of that
  name.  Both \<^verbatim>\<open>HttpParser\<close> and \<^verbatim>\<open>HttpOutgoingStream\<close> keep this.
\<close>

definition header_map_inv :: "header_map \<Rightarrow> bool" where
  "header_map_inv hs \<longleftrightarrow>
     omap_inv hs \<and> (\<forall>(k, h) \<in> set hs. h = httpHeader k (header_value h) \<and> toLower k = k)"

lemma httpHeader_name [simp]: "header_name (httpHeader nm v) = toLower nm"
  "header_value (httpHeader nm v) = v" "header_nameCode (httpHeader nm v) = nameToCode (toLower nm)"
  by (simp_all add: httpHeader_def)

lemma httpHeader_toLower [simp]: "httpHeader (toLower nm) v = httpHeader nm v"
  by (simp add: httpHeader_def)

lemma set_omap_assign: "set (omap_assign k v m) \<subseteq> insert (k, v) (set m)"
  by (induction m rule: omap_assign.induct) auto

lemma header_map_inv_Nil [simp]: "header_map_inv []"
  by (simp add: header_map_inv_def)

lemma header_map_inv_assign [simp]:
  "header_map_inv hs \<Longrightarrow> header_map_inv (omap_assign (toLower nm) (httpHeader nm v) hs)"
  using set_omap_assign [of "toLower nm" "httpHeader nm v" hs] by (fastforce simp: header_map_inv_def)

lemma header_map_inv_emplace [simp]:
  "header_map_inv hs \<Longrightarrow> header_map_inv (omap_emplace (toLower nm) (httpHeader nm v) hs)"
  by (simp add: omap_emplace_def split: option.splits)

lemma header_map_inv_erase [simp]: "header_map_inv hs \<Longrightarrow> header_map_inv (omap_erase k hs)"
  by (auto simp: header_map_inv_def omap_erase_def omap_inv_def sorted_wrt_map intro: sorted_wrt_filter)

lemma getHeader_code_name: "getHeader hs (codeToCanonicalName c) = getHeader_code hs c"
  using toLower_literals [of c] by (simp add: getHeader_def getHeader_code_def toLower_def)

end
