(* ===== verification/Http_Parser.thy ===== *)
theory Http_Parser
  imports Prelude Http_Header Cookie Url_Encode Http_Message
begin

text \<open>
  The line parsers \<^verbatim>\<open>HttpParser<HttpRequest>\<close> and \<^verbatim>\<open>HttpParser<HttpResponse>\<close>
  (\<^verbatim>\<open>extensions/http/src/HttpParser.h\<close>, \<^verbatim>\<open>extensions/http/src/HttpParser.cc\<close>).  A parser is a record with
  the message under construction, the parser state and the recorded error; every member
  function becomes a function on that record, and one that returns \<^verbatim>\<open>bool\<close> returns it beside
  the new record.
\<close>

datatype parse_error =
    PE_None
  | PE_ConnectionClosed
  | PE_MalformedRequestLine
  | PE_AmbiguousContentLength
  | PE_UnsupportedTransferEncoding

datatype parser_state = ExpectStatusLine | ExpectHeader | HeaderComplete | ParserError

record 'm http_parser =
  parser_data :: 'm
  parser_state :: parser_state
  parser_errorCode :: parse_error
  parser_errorMessage :: string

record 'm parse_result =
  result_message :: 'm
  result_errorCode :: parse_error
  result_errorMessage :: string

definition result_error :: "'m parse_result \<Rightarrow> bool" where
  "result_error r \<longleftrightarrow> result_errorCode r \<noteq> PE_None"

definition parser_init :: "'m \<Rightarrow> 'm http_parser" where
  "parser_init m =
     \<lparr>parser_data = m, parser_state = ExpectStatusLine, parser_errorCode = PE_None, parser_errorMessage = []\<rparr>"

definition setError :: "parse_error \<Rightarrow> string \<Rightarrow> 'm http_parser \<Rightarrow> 'm http_parser" where
  "setError code msg p =
     p\<lparr>parser_errorCode := code, parser_errorMessage := msg, parser_state := ParserError\<rparr>"

definition extractResult :: "'m http_parser \<Rightarrow> 'm parse_result" where
  "extractResult p =
     \<lparr>result_message = parser_data p, result_errorCode = parser_errorCode p,
      result_errorMessage = parser_errorMessage p\<rparr>"

definition is_tchar :: "char \<Rightarrow> bool" where
  "is_tchar c \<longleftrightarrow>
     \<not> ((of_char c :: nat) \<le> 32 \<or> 127 \<le> (of_char c :: nat)) \<and>
     c \<notin> set [CHR ''('', CHR '')'', CHR ''<'', CHR ''>'', CHR ''@'', CHR '','', CHR '';'', CHR '':'',
       CHR 0x5C, CHR 0x22, CHR ''/'', CHR ''['', CHR '']'', CHR ''?'', CHR ''='', CHR ''{'', CHR ''}'']"

definition isValidToken :: "string \<Rightarrow> bool" where
  "isValidToken s = (if s = [] then False else list_all is_tchar s)"

definition parseHttpVersion :: "string \<Rightarrow> version" where
  "parseHttpVersion s =
     (if s = ''HTTP/1.0'' then KHttp10 else if s = ''HTTP/1.1'' then KHttp11 else KUnknown)"

text \<open>
  The bounds are \<^verbatim>\<open>size_t\<close>: with the colon in front, \<^verbatim>\<open>colonPos - 1\<close> is \<^verbatim>\<open>npos\<close> and the search for
  the end of the name covers the whole line; with only blanks before the colon \<^verbatim>\<open>nameEnd\<close> is
  \<^verbatim>\<open>npos\<close> and the length wraps to \<open>2 ^ 64 - nameStart\<close>, so the name is the rest of the line.
\<close>

definition parseHeaderLine :: "string \<Rightarrow> string \<times> string" where
  "parseHeaderLine line =
     (case find_char CHR '':'' line of
        None \<Rightarrow> ([], [])
      | Some colonPos \<Rightarrow>
          (let nameStart = find_first_not_of CHR '' '' 0 line;
               nameEnd = (if colonPos = 0 then find_last_not_of CHR '' '' line
                          else find_last_not_of_upto CHR '' '' (colonPos - 1) line);
               valueStart = find_first_not_of CHR '' '' (colonPos + 1) line;
               valueEnd = find_last_not_of CHR '' '' line
           in case nameStart of
                None \<Rightarrow> ([], [])
              | Some ns \<Rightarrow>
                  (substr ns (case nameEnd of None \<Rightarrow> 2 ^ 64 - ns | Some ne \<Rightarrow> ne - ns + 1) line,
                   case valueStart of
                     None \<Rightarrow> []
                   | Some vs \<Rightarrow>
                       substr vs (case valueEnd of None \<Rightarrow> 2 ^ 64 - vs | Some ve \<Rightarrow> ve - vs + 1) line)))"


section \<open>Requests\<close>

definition query_pair :: "string \<Rightarrow> string omap \<Rightarrow> string omap" where
  "query_pair pair queries =
     (case find_char CHR ''='' pair of
        Some eqPos \<Rightarrow>
          omap_emplace (urlDecodeComponent (take eqPos pair)) (urlDecodeComponent (drop (eqPos + 1) pair)) queries
      | None \<Rightarrow> queries)"

definition parseQueryString :: "string \<Rightarrow> string omap \<Rightarrow> string omap" where
  "parseQueryString queryStr queries = scan_loop CHR ''&'' query_pair queryStr 0 queries"

definition cookie_pair :: "string \<Rightarrow> string omap \<Rightarrow> string omap" where
  "cookie_pair pair cookies =
     (case find_char CHR ''='' pair of
        None \<Rightarrow> cookies
      | Some eqPos \<Rightarrow>
          (let nm = trim_blanks (take eqPos pair); v = trim_blanks (drop (eqPos + 1) pair)
           in if nm \<noteq> [] then omap_assign nm v cookies else cookies))"

definition request_parseCookies :: "string \<Rightarrow> string omap \<Rightarrow> string omap" where
  "request_parseCookies cookieHeader cookies = scan_loop CHR '';'' cookie_pair cookieHeader 0 cookies"

definition set_target :: "string \<Rightarrow> http_request \<Rightarrow> http_request" where
  "set_target fullPath d =
     (let qPos = find_char CHR ''?'' fullPath;
          rawPath = (case qPos of None \<Rightarrow> fullPath | Some q \<Rightarrow> take q fullPath);
          d = d\<lparr>req_rawPath := rawPath, req_path := (if rawPath = [] then ''/'' else urlDecode rawPath)\<rparr>
      in case qPos of
           Some q \<Rightarrow>
             (let query = drop (q + 1) fullPath
              in d\<lparr>req_query := query, req_queries := parseQueryString query (req_queries d)\<rparr>)
         | None \<Rightarrow> d\<lparr>req_query := []\<rparr>)"

definition parseRequestLine ::
    "method_registry \<Rightarrow> string \<Rightarrow> http_request http_parser \<Rightarrow> bool \<times> http_request http_parser" where
  "parseRequestLine reg line p =
     (case find_char CHR '' '' line of
        None \<Rightarrow> (False, setError PE_MalformedRequestLine ''Missing space in request line'' p)
      | Some pos1 \<Rightarrow>
     (case find_char_from CHR '' '' (pos1 + 1) line of
        None \<Rightarrow> (False, setError PE_MalformedRequestLine ''Missing second space in request line'' p)
      | Some pos2 \<Rightarrow>
     (let meth = method_fromString reg (take pos1 line);
          ver = parseHttpVersion (drop (pos2 + 1) line);
          p = p\<lparr>parser_data := (parser_data p)\<lparr>req_method := meth, req_version := ver\<rparr>\<rparr>
      in if meth = method_Invalid then (False, setError PE_MalformedRequestLine ''Invalid http method'' p)
         else if ver = KUnknown then (False, setError PE_MalformedRequestLine ''Invalid http version'' p)
         else (True, p\<lparr>parser_data := set_target (substr (pos1 + 1) (pos2 - pos1 - 1) line) (parser_data p)\<rparr>))))"

definition request_parseHeader :: "string \<Rightarrow> http_request http_parser \<Rightarrow> http_request http_parser" where
  "request_parseHeader line p =
     (let (nm, v) = parseHeaderLine line in
      if nm = [] \<or> \<not> isValidToken nm then p
      else
        (let header = httpHeader nm v; d = parser_data p in
         if header_nameCode header = NC_Cookie then
           p\<lparr>parser_data := d\<lparr>req_cookies := request_parseCookies v (req_cookies d)\<rparr>\<rparr>
         else
           (let found = omap_find (req_headers d) (header_name header);
                p' = p\<lparr>parser_data := d\<lparr>req_headers := omap_emplace (header_name header) header (req_headers d)\<rparr>\<rparr>
            in case found of
                 None \<Rightarrow> p'
               | Some old \<Rightarrow>
                   if header_nameCode header = NC_ContentLength \<and> v \<noteq> header_value old
                   then setError PE_AmbiguousContentLength ''Multiple Content-Length headers'' p'
                   else p')))"

text \<open>
  \<^verbatim>\<open>processTransferMode\<close> of the two parsers differs in the last case only: without
  \<^verbatim>\<open>Transfer-Encoding\<close> and \<^verbatim>\<open>Content-Length\<close> a request has no body, a response ends with
  the connection.  The decision, as the mode with the length to store (if any):
\<close>

datatype body_decision = Fail parse_error string | Decide transfer_mode "nat option"

definition content_length_decision :: "header_map \<Rightarrow> body_decision \<Rightarrow> body_decision" where
  "content_length_decision hs otherwise =
     (case omap_find hs ''content-length'' of
        Some h \<Rightarrow>
          (let clValue = header_value h in
           if clValue = [] \<or> hd clValue = CHR ''-'' then Fail PE_AmbiguousContentLength ''Invalid content length''
           else (case stoul 10 clValue of
                   Inl _ \<Rightarrow> Fail PE_AmbiguousContentLength ''Invalid content length''
                 | Inr n \<Rightarrow> Decide ContentLength (Some n)))
      | None \<Rightarrow> otherwise)"

definition body_decision :: "header_map \<Rightarrow> body_decision \<Rightarrow> body_decision" where
  "body_decision hs otherwise =
     (case omap_find hs ''transfer-encoding'' of
        Some h \<Rightarrow>
          (let v = header_value h in
           if find_sub ''chunked'' v \<noteq> None then Decide Chunked None
           else if v \<noteq> ''identity'' then Fail PE_UnsupportedTransferEncoding (''Unsupported Transfer-Encoding: '' @ v)
           else content_length_decision hs otherwise)
      | None \<Rightarrow> content_length_decision hs otherwise)"

definition request_processTransferMode ::
    "http_request http_parser \<Rightarrow> bool \<times> http_request http_parser" where
  "request_processTransferMode p =
     (case body_decision (req_headers (parser_data p)) (Decide ContentLength (Some 0)) of
        Fail code msg \<Rightarrow> (False, setError code msg p)
      | Decide mode len \<Rightarrow>
          (True, p\<lparr>parser_data := (parser_data p)\<lparr>req_transferMode := mode,
             req_contentLength := (case len of None \<Rightarrow> req_contentLength (parser_data p) | Some n \<Rightarrow> n)\<rparr>\<rparr>))"

definition processKeepAlive :: "http_request http_parser \<Rightarrow> bool \<times> http_request http_parser" where
  "processKeepAlive p =
     (let d = parser_data p;
          keep = (case omap_find (req_headers d) ''connection'' of
                    Some h \<Rightarrow> toLower (header_value h) = ''keep-alive''
                  | None \<Rightarrow> req_version d = KHttp11)
      in (True, p\<lparr>parser_data := d\<lparr>req_keepAlive := keep\<rparr>\<rparr>))"

definition request_processHeaders :: "http_request http_parser \<Rightarrow> bool \<times> http_request http_parser" where
  "request_processHeaders p =
     (let (ok, p) = request_processTransferMode p in if ok then processKeepAlive p else (False, p))"

definition request_parseLine ::
    "method_registry \<Rightarrow> string \<Rightarrow> http_request http_parser \<Rightarrow> parser_state \<times> http_request http_parser" where
  "request_parseLine reg line p =
     (if parser_state p = ExpectStatusLine then
        (let (ok, p) = parseRequestLine reg line p in
         if \<not> ok then (ParserError, p)
         else (let p = p\<lparr>parser_state := ExpectHeader\<rparr> in (parser_state p, p)))
      else if line \<noteq> [] then
        (let p = request_parseHeader line p in (parser_state p, p))
      else
        (let (ok, p) = request_processHeaders p in
         if \<not> ok then (ParserError, p)
         else (let p = p\<lparr>parser_state := HeaderComplete\<rparr> in (parser_state p, p))))"


section \<open>Responses\<close>

definition parseStatusLine :: "string \<Rightarrow> http_response http_parser \<Rightarrow> bool \<times> http_response http_parser" where
  "parseStatusLine line p =
     (case find_char CHR '' '' line of
        None \<Rightarrow> (False, setError PE_MalformedRequestLine ''Invalid status line'' p)
      | Some sp1 \<Rightarrow>
     (let ver = parseHttpVersion (take sp1 line);
          p = p\<lparr>parser_data := (parser_data p)\<lparr>resp_version := ver\<rparr>\<rparr>
      in if ver = KUnknown then (False, setError PE_MalformedRequestLine ''Invalid HTTP version'' p)
         else
           (let (codeStr, reason) =
                  (case find_char_from CHR '' '' (sp1 + 1) line of
                     None \<Rightarrow> (drop (sp1 + 1) line, [])
                   | Some sp2 \<Rightarrow> (substr (sp1 + 1) (sp2 - sp1 - 1) line, drop (sp2 + 1) line))
            in case stoi codeStr of
                 Inl _ \<Rightarrow> (False, setError PE_MalformedRequestLine ''Invalid status code'' p)
               | Inr i \<Rightarrow>
                   (let code = word_of_int i;
                        p = p\<lparr>parser_data := (parser_data p)\<lparr>resp_statusCode := code\<rparr>\<rparr>
                    in if code < 100 \<or> 999 < code
                       then (False, setError PE_MalformedRequestLine ''Invalid status code'' p)
                       else (True, p\<lparr>parser_data := (parser_data p)\<lparr>resp_statusReason := reason\<rparr>\<rparr>)))))"

definition response_parseCookies :: "string \<Rightarrow> cookie list \<Rightarrow> cookie list" where
  "response_parseCookies cookieHeader cookies =
     (let c = cookie_fromString cookieHeader in if cookie_name c \<noteq> [] then cookies @ [c] else cookies)"

definition response_parseHeader :: "string \<Rightarrow> http_response http_parser \<Rightarrow> http_response http_parser" where
  "response_parseHeader line p =
     (let (nm, v) = parseHeaderLine line in
      if nm = [] \<or> \<not> isValidToken nm then p
      else
        (let header = httpHeader nm v; d = parser_data p in
         if header_nameCode header = NC_SetCookie then
           p\<lparr>parser_data := d\<lparr>resp_cookies := response_parseCookies v (resp_cookies d)\<rparr>\<rparr>
         else
           p\<lparr>parser_data := d\<lparr>resp_headers := omap_emplace (header_name header) header (resp_headers d)\<rparr>\<rparr>))"

definition response_processTransferMode ::
    "http_response http_parser \<Rightarrow> bool \<times> http_response http_parser" where
  "response_processTransferMode p =
     (case body_decision (resp_headers (parser_data p)) (Decide UntilClose None) of
        Fail code msg \<Rightarrow> (False, setError code msg p)
      | Decide mode len \<Rightarrow>
          (True, p\<lparr>parser_data := (parser_data p)\<lparr>resp_transferMode := mode,
             resp_contentLength := (case len of None \<Rightarrow> resp_contentLength (parser_data p) | Some n \<Rightarrow> n)\<rparr>\<rparr>))"

definition processConnectionClose :: "http_response http_parser \<Rightarrow> bool \<times> http_response http_parser" where
  "processConnectionClose p =
     (let d = parser_data p;
          close = (case omap_find (resp_headers d) ''connection'' of
                     Some h \<Rightarrow> toLower (header_value h) = ''close''
                   | None \<Rightarrow> resp_version d = KHttp10)
      in (True, p\<lparr>parser_data := d\<lparr>resp_shouldClose := close\<rparr>\<rparr>))"

definition response_processHeaders :: "http_response http_parser \<Rightarrow> bool \<times> http_response http_parser" where
  "response_processHeaders p =
     (let (ok, p) = response_processTransferMode p in if ok then processConnectionClose p else (False, p))"

definition response_parseLine ::
    "string \<Rightarrow> http_response http_parser \<Rightarrow> parser_state \<times> http_response http_parser" where
  "response_parseLine line p =
     (if parser_state p = ExpectStatusLine then
        (let (ok, p) = parseStatusLine line p in
         if \<not> ok then (ParserError, p)
         else (let p = p\<lparr>parser_state := ExpectHeader\<rparr> in (parser_state p, p)))
      else if line \<noteq> [] then
        (let p = response_parseHeader line p in (parser_state p, p))
      else
        (let (ok, p) = response_processHeaders p in
         if \<not> ok then (ParserError, p)
         else (let p = p\<lparr>parser_state := HeaderComplete\<rparr> in (parser_state p, p))))"


section \<open>Runs over lines\<close>

definition request_run :: "method_registry \<Rightarrow> string list \<Rightarrow> http_request http_parser \<Rightarrow> http_request http_parser" where
  "request_run reg ls p = fold (\<lambda>l p. snd (request_parseLine reg l p)) ls p"

definition response_run :: "string list \<Rightarrow> http_response http_parser \<Rightarrow> http_response http_parser" where
  "response_run ls p = fold (\<lambda>l p. snd (response_parseLine l p)) ls p"

lemma run_simps [simp]:
  "request_run reg [] p = p" "request_run reg (l # ls) p = request_run reg ls (snd (request_parseLine reg l p))"
  "request_run reg (ls @ ls') p = request_run reg ls' (request_run reg ls p)"
  "response_run [] q = q" "response_run (l # ls) q = response_run ls (snd (response_parseLine l q))"
  "response_run (ls @ ls') q = response_run ls' (response_run ls q)"
  by (simp_all add: request_run_def response_run_def)

lemma setError_simps [simp]:
  "parser_data (setError code msg p) = parser_data p" "parser_state (setError code msg p) = ParserError"
  "parser_errorCode (setError code msg p) = code" "parser_errorMessage (setError code msg p) = msg"
  by (simp_all add: setError_def)

lemma parser_init_simps [simp]:
  "parser_data (parser_init m) = m" "parser_state (parser_init m) = ExpectStatusLine"
  "parser_errorCode (parser_init m) = PE_None"
  "req_queries request_default = []" "req_query request_default = []"
  by (simp_all add: parser_init_def request_default_def)

lemmas request_defs = parseRequestLine_def request_parseHeader_def request_processTransferMode_def
  processKeepAlive_def request_processHeaders_def

lemmas response_defs = parseStatusLine_def response_parseHeader_def response_processTransferMode_def
  processConnectionClose_def response_processHeaders_def

lemma body_decision_Fail:
  "body_decision hs other = Fail code msg \<Longrightarrow> other \<noteq> Fail code msg \<Longrightarrow> code \<noteq> PE_None"
  by (auto simp: body_decision_def content_length_decision_def Let_def split: option.splits if_splits sum.splits)

text \<open>
  What every step does to the error state: a failing step records an error code, a
  succeeding one leaves the code alone.
\<close>

definition step_ok :: "bool \<Rightarrow> 'm http_parser \<Rightarrow> 'm http_parser \<Rightarrow> bool" where
  "step_ok ok p p' \<longleftrightarrow>
     (if ok then parser_errorCode p' = parser_errorCode p \<and> parser_state p' = parser_state p
      else parser_errorCode p' \<noteq> PE_None \<and> parser_state p' = ParserError)"

lemma step_ok_request_line: "parseRequestLine reg l p = (ok, p') \<Longrightarrow> step_ok ok p p'"
  by (auto simp: parseRequestLine_def step_ok_def Let_def split: option.splits if_splits)

lemma step_ok_request_header: "\<exists>ok. step_ok ok p (request_parseHeader l p)"
  by (auto simp: request_parseHeader_def step_ok_def Let_def split: option.splits if_splits prod.splits)

lemma step_ok_request_headers: "request_processHeaders p = (ok, p') \<Longrightarrow> step_ok ok p p'"
  by (auto simp: request_processHeaders_def request_processTransferMode_def processKeepAlive_def step_ok_def Let_def
      split: option.splits if_splits prod.splits body_decision.splits dest: body_decision_Fail)

lemma step_ok_status_line: "parseStatusLine l p = (ok, p') \<Longrightarrow> step_ok ok p p'"
  by (auto simp: parseStatusLine_def step_ok_def Let_def split: option.splits if_splits sum.splits prod.splits)

lemma step_ok_response_header: "step_ok True p (response_parseHeader l p)"
  by (auto simp: response_parseHeader_def step_ok_def Let_def split: prod.splits)

lemma step_ok_response_headers: "response_processHeaders p = (ok, p') \<Longrightarrow> step_ok ok p p'"
  by (auto simp: response_processHeaders_def response_processTransferMode_def processConnectionClose_def step_ok_def Let_def
      split: option.splits if_splits prod.splits body_decision.splits dest: body_decision_Fail)

definition error_recorded :: "'m http_parser \<Rightarrow> bool" where
  "error_recorded p \<longleftrightarrow> (parser_state p = ParserError \<longrightarrow> parser_errorCode p \<noteq> PE_None)"

lemma request_parseLine_error:
  assumes "request_parseLine reg l p = (st, p')" and "error_recorded p"
  shows "error_recorded p' \<and> (st = ParserError \<longrightarrow> parser_errorCode p' \<noteq> PE_None) \<and>
    (parser_errorCode p \<noteq> PE_None \<longrightarrow> parser_errorCode p' \<noteq> PE_None)"
  using assms step_ok_request_header [of p l]
  by (auto simp: request_parseLine_def Let_def error_recorded_def step_ok_def split: if_splits prod.splits
      dest!: step_ok_request_line step_ok_request_headers)

lemma response_parseLine_error:
  assumes "response_parseLine l p = (st, p')" and "error_recorded p"
  shows "error_recorded p' \<and> (st = ParserError \<longrightarrow> parser_errorCode p' \<noteq> PE_None) \<and>
    (parser_errorCode p \<noteq> PE_None \<longrightarrow> parser_errorCode p' \<noteq> PE_None)"
  using assms step_ok_response_header [of p l]
  by (auto simp: response_parseLine_def Let_def error_recorded_def step_ok_def split: if_splits prod.splits
      dest!: step_ok_status_line step_ok_response_headers)

lemma request_run_error:
  "error_recorded p \<Longrightarrow> error_recorded (request_run reg ls p) \<and>
   (parser_errorCode p \<noteq> PE_None \<longrightarrow> parser_errorCode (request_run reg ls p) \<noteq> PE_None)"
proof (induction ls arbitrary: p)
  case (Cons l ls)
  then show ?case
    using request_parseLine_error [of reg l p "fst (request_parseLine reg l p)" "snd (request_parseLine reg l p)"]
    by simp
qed simp

lemma response_run_error:
  "error_recorded p \<Longrightarrow> error_recorded (response_run ls p) \<and>
   (parser_errorCode p \<noteq> PE_None \<longrightarrow> parser_errorCode (response_run ls p) \<noteq> PE_None)"
proof (induction ls arbitrary: p)
  case (Cons l ls)
  then show ?case
    using response_parseLine_error [of l p "fst (response_parseLine l p)" "snd (response_parseLine l p)"]
    by simp
qed simp

lemma error_recorded_init [simp]: "error_recorded (parser_init m)"
  by (simp add: error_recorded_def parser_init_def)

lemma request_errors_final:
  assumes "fst (request_parseLine reg l (request_run reg ls (parser_init d))) = ParserError \<or>
    parser_state (request_run reg (ls @ [l]) (parser_init d)) = ParserError"
  shows "result_error (extractResult (request_run reg (ls @ l # ls') (parser_init d)))"
proof -
  define p where "p = request_run reg ls (parser_init d)"
  define p' where "p' = snd (request_parseLine reg l p)"
  have p: "error_recorded p" using request_run_error [of "parser_init d"] by (simp add: p_def)
  have p': "error_recorded p'" "fst (request_parseLine reg l p) = ParserError \<longrightarrow> parser_errorCode p' \<noteq> PE_None"
    using request_parseLine_error [OF _ p, of reg l "fst (request_parseLine reg l p)" p'] by (simp_all add: p'_def)
  then have "parser_errorCode p' \<noteq> PE_None" using assms by (auto simp: error_recorded_def p_def p'_def)
  then show ?thesis using request_run_error [OF p'(1), of reg ls']
    by (simp add: result_error_def extractResult_def p_def p'_def)
qed

lemma response_errors_final:
  assumes "fst (response_parseLine l (response_run ls (parser_init d))) = ParserError \<or>
    parser_state (response_run (ls @ [l]) (parser_init d)) = ParserError"
  shows "result_error (extractResult (response_run (ls @ l # ls') (parser_init d)))"
proof -
  define p where "p = response_run ls (parser_init d)"
  define p' where "p' = snd (response_parseLine l p)"
  have p: "error_recorded p" using response_run_error [of "parser_init d"] by (simp add: p_def)
  have p': "error_recorded p'" "fst (response_parseLine l p) = ParserError \<longrightarrow> parser_errorCode p' \<noteq> PE_None"
    using response_parseLine_error [OF _ p, of l "fst (response_parseLine l p)" p'] by (simp_all add: p'_def)
  then have "parser_errorCode p' \<noteq> PE_None" using assms by (auto simp: error_recorded_def p_def p'_def)
  then show ?thesis using response_run_error [OF p'(1), of ls']
    by (simp add: result_error_def extractResult_def p_def p'_def)
qed

lemma run_state_started:
  "parser_state (snd (request_parseLine reg l p)) \<noteq> ExpectStatusLine"
  using step_ok_request_header [of p l]
  by (auto simp: request_parseLine_def Let_def step_ok_def split: if_splits prod.splits
      dest!: step_ok_request_line step_ok_request_headers)


section \<open>Framing of requests\<close>

text \<open>The value that a header line gives for \<^verbatim>\<open>Content-Length\<close>, if it is such a line.\<close>

definition content_length_line :: "string \<Rightarrow> string option" where
  "content_length_line l =
     (let (nm, v) = parseHeaderLine l in
      if isValidToken nm \<and> toLower nm = ''content-length'' then Some v else None)"

lemma nameToCode_content_length: "nameToCode s = NC_ContentLength \<longleftrightarrow> s = ''content-length''"
  using nameToCode_known [of s NC_ContentLength] nameToCode_codeToName [of NC_ContentLength]
  by (auto simp: codeToName_def)

definition cl_of :: "http_request http_parser \<Rightarrow> string option" where
  "cl_of p = map_option header_value (omap_find (req_headers (parser_data p)) ''content-length'')"

lemma nameToCode_cookie: "nameToCode s = NC_Cookie \<longleftrightarrow> s = ''cookie''"
  using nameToCode_known [of s NC_Cookie] nameToCode_codeToName [of NC_Cookie]
  by (auto simp: codeToName_def)

lemma request_parseHeader_cases:
  obtains (ignored) "request_parseHeader l p = p" "content_length_line l = None"
  | (cookies) cs where "request_parseHeader l p = p\<lparr>parser_data := (parser_data p)\<lparr>req_cookies := cs\<rparr>\<rparr>"
      "content_length_line l = None"
  | (header) nm v where "isValidToken nm" "parseHeaderLine l = (nm, v)" "toLower nm \<noteq> ''cookie''"
      "parser_data (request_parseHeader l p) =
         (parser_data p)\<lparr>req_headers := omap_emplace (toLower nm) (httpHeader nm v) (req_headers (parser_data p))\<rparr>"
      "content_length_line l = (if toLower nm = ''content-length'' then Some v else None)"
      "toLower nm = ''content-length'' \<Longrightarrow> cl_of p \<notin> {None, Some v} \<Longrightarrow>
         parser_errorCode (request_parseHeader l p) \<noteq> PE_None"
proof (cases "parseHeaderLine l")
  case (Pair nm v)
  show ?thesis
  proof (cases "isValidToken nm")
    case False
    then show ?thesis using ignored Pair by (simp add: request_parseHeader_def content_length_line_def)
  next
    case valid: True
    then have ne: "nm \<noteq> []" by (auto simp: isValidToken_def)
    show ?thesis
    proof (cases "toLower nm = ''cookie''")
      case True
      with valid ne Pair show ?thesis
        using cookies [of "request_parseCookies v (req_cookies (parser_data p))"]
        by (simp add: request_parseHeader_def content_length_line_def Let_def nameToCode_cookie)
    next
      case False
      with valid ne Pair show ?thesis
        by (intro header [of nm v])
           (auto simp: request_parseHeader_def content_length_line_def Let_def nameToCode_cookie
             nameToCode_content_length cl_of_def split: option.splits)
    qed
  qed
qed

lemma request_parseHeader_cl:
  shows cl_of_parseHeader: "cl_of (request_parseHeader l p) =
      (case cl_of p of Some v \<Rightarrow> Some v | None \<Rightarrow> content_length_line l)"
    and cl_conflict: "content_length_line l = Some v \<Longrightarrow> cl_of p = Some w \<Longrightarrow> v \<noteq> w \<Longrightarrow>
      parser_errorCode (request_parseHeader l p) \<noteq> PE_None"
  by (rule request_parseHeader_cases [of l p]; auto simp: cl_of_def split: option.splits if_splits)+

lemma request_parseHeader_started:
  "parser_state p \<noteq> ExpectStatusLine \<Longrightarrow> parser_state (request_parseHeader l p) \<noteq> ExpectStatusLine"
  using step_ok_request_header [of p l] by (auto simp: step_ok_def split: if_splits)

lemma request_run_headers:
  "parser_state p \<noteq> ExpectStatusLine \<Longrightarrow> [] \<notin> set ls \<Longrightarrow>
   request_run reg ls p = fold request_parseHeader ls p \<and>
   parser_state (fold request_parseHeader ls p) \<noteq> ExpectStatusLine"
proof (induction ls arbitrary: p)
  case (Cons l ls)
  then show ?case
    by (cases "l = []") (simp_all add: request_parseLine_def Let_def request_parseHeader_started)
qed simp

lemma parseHeader_error:
  "parser_errorCode p \<noteq> PE_None \<Longrightarrow> parser_errorCode (request_parseHeader l p) \<noteq> PE_None"
  using step_ok_request_header [of p l] by (auto simp: step_ok_def split: if_splits)

lemma fold_parseHeader_error:
  "parser_errorCode p \<noteq> PE_None \<Longrightarrow> parser_errorCode (fold request_parseHeader ls p) \<noteq> PE_None"
  by (induction ls arbitrary: p) (simp_all add: parseHeader_error)

lemma fold_parseHeader_cl_kept: "cl_of p = Some v \<Longrightarrow> cl_of (fold request_parseHeader ls p) = Some v"
proof (induction ls arbitrary: p)
  case (Cons l ls)
  have "cl_of (request_parseHeader l p) = Some v" using cl_of_parseHeader [of l p] Cons.prems by simp
  then show ?case using Cons.IH by simp
qed simp

lemma fold_parseHeader_cl_None:
  "cl_of p = None \<Longrightarrow> \<forall>l \<in> set ls. content_length_line l = None \<Longrightarrow>
   cl_of (fold request_parseHeader ls p) = None"
proof (induction ls arbitrary: p)
  case (Cons l ls)
  have "cl_of (request_parseHeader l p) = None" using cl_of_parseHeader [of l p] Cons.prems by simp
  then show ?case using Cons by simp
qed simp

lemma fold_parseHeader_cl:
  "parser_errorCode (fold request_parseHeader ls p) = PE_None \<Longrightarrow> l \<in> set ls \<Longrightarrow>
   content_length_line l = Some v \<Longrightarrow> cl_of (fold request_parseHeader ls p) = Some v"
proof (induction ls arbitrary: p)
  case (Cons a ls)
  show ?case
  proof (cases "l = a")
    case True
    have "cl_of (request_parseHeader a p) = Some v"
    proof (cases "cl_of p")
      case None
      then show ?thesis using cl_of_parseHeader [of a p] Cons.prems True by simp
    next
      case (Some w)
      moreover have "v = w"
        using cl_conflict [of a v p w] Some Cons.prems True fold_parseHeader_error by auto
      ultimately show ?thesis using cl_of_parseHeader [of a p] by simp
    qed
    then show ?thesis using fold_parseHeader_cl_kept by simp
  qed (use Cons in simp)
qed simp

lemma set_target_headers [simp]: "req_headers (set_target t d) = req_headers d"
  by (simp add: set_target_def Let_def split: option.splits)

lemma parseRequestLine_headers:
  "parseRequestLine reg l p = (ok, p') \<Longrightarrow> req_headers (parser_data p') = req_headers (parser_data p)"
  by (auto simp: parseRequestLine_def Let_def split: option.splits if_splits)

lemma first_line_cl:
  "cl_of (snd (request_parseLine reg l (parser_init request_default))) = None"
  by (auto simp: request_parseLine_def parser_init_def request_default_def cl_of_def
      split: prod.splits if_splits dest!: parseRequestLine_headers)

lemma last_line_framing:
  assumes "request_parseLine reg [] p = (st, p')" "parser_state p \<noteq> ExpectStatusLine" "parser_errorCode p' = PE_None"
  shows "parser_state p' = HeaderComplete"
    and "req_transferMode (parser_data p') = Chunked \<longleftrightarrow>
      (\<exists>h. omap_find (req_headers (parser_data p')) ''transfer-encoding'' = Some h \<and>
         find_sub ''chunked'' (header_value h) \<noteq> None)"
    and "req_transferMode (parser_data p') \<noteq> Chunked \<Longrightarrow> req_transferMode (parser_data p') = ContentLength"
    and "req_transferMode (parser_data p') \<noteq> Chunked \<Longrightarrow> cl_of p = None \<Longrightarrow> req_contentLength (parser_data p') = 0"
    and "req_transferMode (parser_data p') \<noteq> Chunked \<Longrightarrow> cl_of p = Some v \<Longrightarrow>
      v \<noteq> [] \<and> hd v \<noteq> CHR ''-'' \<and> stoul 10 v = Inr (req_contentLength (parser_data p'))"
  using assms
  by (auto simp: request_parseLine_def request_processHeaders_def request_processTransferMode_def
      processKeepAlive_def body_decision_def content_length_decision_def cl_of_def Let_def
      split: if_splits option.splits sum.splits prod.splits body_decision.splits)


section \<open>Well-formed lines\<close>

lemma is_tchar_plain: "is_tchar c \<Longrightarrow> c \<noteq> CHR '' '' \<and> c \<noteq> CHR '':'' \<and> c \<noteq> CHR 0x0D \<and> c \<noteq> CHR 0x0A"
  by (intro conjI notI) (simp_all add: is_tchar_def)

lemma isValidToken_plain:
  assumes "isValidToken nm"
  shows "nm \<noteq> []" "CHR '':'' \<notin> set nm" "hd nm \<noteq> CHR '' ''" "last nm \<noteq> CHR '' ''"
proof -
  show ne: "nm \<noteq> []" using assms by (auto simp: isValidToken_def)
  have all: "\<forall>c \<in> set nm. is_tchar c" using assms by (auto simp: isValidToken_def list_all_iff split: if_splits)
  then show "CHR '':'' \<notin> set nm" using is_tchar_plain by blast
  show "hd nm \<noteq> CHR '' ''" "last nm \<noteq> CHR '' ''" 
    using all ne is_tchar_plain [of "hd nm"] is_tchar_plain [of "last nm"] by simp_all
qed

lemma find_first_not_of_hd: "s \<noteq> [] \<Longrightarrow> hd s \<noteq> c \<Longrightarrow> find_first_not_of c 0 s = Some 0"
  by (cases s) (simp_all add: find_first_not_of_def)

lemma find_last_not_of_last: "s \<noteq> [] \<Longrightarrow> last s \<noteq> c \<Longrightarrow> find_last_not_of c s = Some (length s - 1)"
  by (cases "rev s") (auto simp: find_last_not_of_def last_append)

lemma parseHeaderLine_text:
  assumes nm: "isValidToken nm" and v: "trimmed v"
  shows "parseHeaderLine (nm @ '': '' @ v) = (nm, v)"
proof -
  note nm = isValidToken_plain [OF nm]
  let ?l = "nm @ CHR '':'' # CHR '' '' # v"
  have ns: "find_first_not_of CHR '' '' 0 ?l = Some 0" using nm by (simp add: find_first_not_of_hd)
  have "take (Suc (length nm - 1)) ?l = nm" using nm(1) by simp
  then have ne: "find_last_not_of_upto CHR '' '' (length nm - 1) ?l = Some (length nm - 1)"
    using nm by (simp add: find_last_not_of_upto_def find_last_not_of_last)
  have vs: "find_first_not_of CHR '' '' (length nm + 1) ?l = (if v = [] then None else Some (length nm + 2))"
  proof (cases v)
    case (Cons a b)
    then show ?thesis using v by (simp add: find_first_not_of_def trimmed_def)
  qed (simp add: find_first_not_of_def)
  have ve: "find_last_not_of CHR '' '' ?l = Some (length nm + 1 + length v)" if "v \<noteq> []"
    using that v find_last_not_of_last [of ?l "CHR '' ''"] by (simp add: trimmed_def)
  have "find_char CHR '':'' ?l = Some (length nm)" using nm(2) by (rule find_char_append)
  then show ?thesis
    using nm(1) ns ne vs ve by (cases "v = []") (simp_all add: parseHeaderLine_def Let_def substr_def)
qed

lemma parseRequestLine_text:
  assumes "CHR '' '' \<notin> set m" "CHR '' '' \<notin> set t" "method_fromString reg m \<noteq> method_Invalid"
    and "parseHttpVersion ver \<noteq> KUnknown"
  shows "parseRequestLine reg (m @ CHR '' '' # t @ CHR '' '' # ver) p =
    (True, p\<lparr>parser_data := set_target t
       ((parser_data p)\<lparr>req_method := method_fromString reg m, req_version := parseHttpVersion ver\<rparr>)\<rparr>)"
proof -
  let ?l = "m @ CHR '' '' # t @ CHR '' '' # ver"
  have "find_char CHR '' '' ?l = Some (length m)" using assms(1) by (rule find_char_append)
  moreover have "find_char_from CHR '' '' (length m + 1) ?l = Some (length m + 1 + length t)"
    using assms(2) by (simp add: find_char_from_def find_char_append)
  ultimately show ?thesis using assms(3,4)
    by (simp add: parseRequestLine_def Let_def substr_def)
qed


section \<open>Queries\<close>

lemma parseQueryString_text: "parseQueryString (query_text kvs) m = fold (\<lambda>(k, v). omap_emplace k v) kvs m"
  unfolding parseQueryString_def
  by (rule component.scan_pair_body)
     (simp add: query_pair_def component.find_eq_pair_text component.pair_text_parts split: prod.splits)

lemma multiQueries_text:
  "req_query d = query_text kvs \<Longrightarrow> multiQueries d = fold (\<lambda>(k, v). push_back k v) kvs []"
  unfolding multiQueries_def
  by (simp, rule component.scan_pair_body)
     (simp add: multi_query_pair_def component.find_eq_pair_text component.pair_text_parts split: prod.splits)

text \<open>The two views of one query string: the first of all the values of a key.\<close>

definition first_value :: "string list option \<Rightarrow> string option" where
  "first_value vs = (case vs of Some (v # _) \<Rightarrow> Some v | _ \<Rightarrow> None)"

lemma query_views_step:
  assumes "\<forall>k. omap_find q k = first_value (omap_find m k)"
  shows "omap_find (query_pair pair q) k = first_value (omap_find (multi_query_pair pair m) k)"
  using assms
  by (auto simp: query_pair_def multi_query_pair_def first_value_def touch_def find_push_back
      split: option.splits list.splits)

lemma query_views:
  "\<forall>k. omap_find q k = first_value (omap_find m k) \<Longrightarrow>
   omap_find (fold query_pair ps q) k = first_value (omap_find (fold multi_query_pair ps m) k)"
proof (induction ps arbitrary: q m)
  case (Cons a ps)
  then show ?case using query_views_step [OF Cons.prems] by simp
qed simp

lemma set_target_views:
  "req_queries d = [] \<Longrightarrow> omap_find (req_queries (set_target t d)) k = first_value (omap_find (multiQueries (set_target t d)) k)"
  using query_views [of "[]" "[]"]
  by (auto simp: set_target_def Let_def multiQueries_def parseQueryString_def scan_loop_segments first_value_def
      split: option.splits)

lemma parseRequestLine_target:
  "(req_queries (parser_data (snd (parseRequestLine reg l p))) = req_queries (parser_data p) \<and>
    req_query (parser_data (snd (parseRequestLine reg l p))) = req_query (parser_data p)) \<or>
   (\<exists>t d. parser_data (snd (parseRequestLine reg l p)) = set_target t d \<and> req_queries d = req_queries (parser_data p))"
  by (fastforce simp: parseRequestLine_def Let_def split: option.splits)

lemma urlEncode_plain: "c \<in> {CHR ''?'', CHR '' '', CHR 0x0D, CHR 0x0A} \<Longrightarrow> c \<notin> set (urlEncode s)"
  using urlEncode_alphabet [of c s] isUnreserved_no_separator [of c] by auto

lemma query_text_plain: "CHR '' '' \<notin> set (query_text kvs)"
proof (induction kvs rule: induct_list012)
  case (2 kv)
  then show ?case
    using urlEncodeComponent_alphabet [of "CHR '' ''"] isUnreserved_no_separator [of "CHR '' ''"] by (auto simp: pair_text_def)
next
  case (3 kv kv' kvs)
  then show ?case
    using urlEncodeComponent_alphabet [of "CHR '' ''"] isUnreserved_no_separator [of "CHR '' ''"] by (auto simp: pair_text_def)
qed simp


section \<open>Properties\<close>

text \<open>
  C11. The framing of a request is unambiguous.  Take any request line and header lines that are
  accepted without error: then the body is chunked exactly when the effective
  \<^verbatim>\<open>Transfer-Encoding\<close> mentions chunked, and otherwise it has a fixed length, on which every
  \<^verbatim>\<open>Content-Length\<close> line of the request agrees, in whatever capitalisation and order (no
  line at all means zero).  In particular two lines with different values are never accepted,
  and neither is a value that is empty, starts with a minus sign or is no number of 64 bits.
\<close>

theorem request_framing_unambiguous:
  assumes "[] \<notin> set ls" and "p = request_run reg (l # ls @ [[]]) (parser_init request_default)"
    and "\<not> result_error (extractResult p)"
  shows "parser_state p = HeaderComplete \<and>
    (req_transferMode (parser_data p) = Chunked \<longleftrightarrow>
       (\<exists>h. omap_find (req_headers (parser_data p)) ''transfer-encoding'' = Some h \<and>
          find_sub ''chunked'' (header_value h) \<noteq> None)) \<and>
    (req_transferMode (parser_data p) \<noteq> Chunked \<longrightarrow>
       req_transferMode (parser_data p) = ContentLength \<and>
       (\<forall>l \<in> set ls. \<forall>v. content_length_line l = Some v \<longrightarrow>
          v \<noteq> [] \<and> hd v \<noteq> CHR ''-'' \<and> stoul 10 v = Inr (req_contentLength (parser_data p))) \<and>
       ((\<forall>l \<in> set ls. content_length_line l = None) \<longrightarrow> req_contentLength (parser_data p) = 0)) \<and>
    (\<forall>l1 \<in> set ls. \<forall>l2 \<in> set ls. \<forall>v w.
       content_length_line l1 = Some v \<longrightarrow> content_length_line l2 = Some w \<longrightarrow> v = w)"
proof -
  define p1 where "p1 = snd (request_parseLine reg l (parser_init request_default))"
  define p2 where "p2 = fold request_parseHeader ls p1"
  obtain st where last: "request_parseLine reg [] p2 = (st, p)"
    using assms(2) request_run_headers [of p1 ls reg] assms(1) run_state_started
    by (auto simp: p1_def p2_def prod_eq_iff)
  have started: "parser_state p2 \<noteq> ExpectStatusLine"
    using request_run_headers [of p1 ls reg] assms(1) run_state_started by (simp add: p1_def p2_def)
  have ok: "parser_errorCode p = PE_None" using assms(3) by (simp add: result_error_def extractResult_def)
  have rec1: "error_recorded p1"
    using request_run_error [of "parser_init request_default" reg "[l]"] by (simp add: p1_def)
  then have "error_recorded p2"
    using request_run_error [OF rec1, of reg ls] request_run_headers [of p1 ls reg] assms(1) run_state_started
    by (simp add: p1_def p2_def)
  then have ok2: "parser_errorCode p2 = PE_None" using request_parseLine_error [OF last] ok by auto
  have cl: "cl_of p2 = Some v" if "l \<in> set ls" "content_length_line l = Some v" for l v
    using fold_parseHeader_cl [of ls p1] ok2 that by (simp add: p2_def)
  have cl0: "cl_of p2 = None" if "\<forall>l \<in> set ls. content_length_line l = None"
    using fold_parseHeader_cl_None [of p1 ls] first_line_cl that by (simp add: p2_def p1_def)
  note framing = last_line_framing [OF last started ok]
  show ?thesis
  proof (intro conjI impI ballI allI)
    fix l1 l2 v w
    assume "l1 \<in> set ls" "l2 \<in> set ls" "content_length_line l1 = Some v" "content_length_line l2 = Some w"
    then have "cl_of p2 = Some v" "cl_of p2 = Some w" using cl by blast+
    then show "v = w" by simp
  next
    assume fixed: "req_transferMode (parser_data p) \<noteq> Chunked"
    show "req_transferMode (parser_data p) = ContentLength" by (rule framing(3) [OF fixed])
    show "req_contentLength (parser_data p) = 0" if "\<forall>l \<in> set ls. content_length_line l = None"
      by (rule framing(4) [OF fixed cl0 [OF that]])
    fix l v assume "l \<in> set ls" "content_length_line l = Some v"
    from framing(5) [OF fixed cl [OF this]]
    show "v \<noteq> []" "hd v \<noteq> CHR ''-''" "stoul 10 v = Inr (req_contentLength (parser_data p))" by simp_all
  qed (rule framing(1) framing(2))+
qed

lemma sample_request_accepted:
  "\<not> result_error (extractResult (request_run methodRegistry (''GET / HTTP/1.1'' # [''Content-Length: 12''] @ [[]])
     (parser_init request_default)))"
proof -
  have "nameToCode ''content-length'' = NC_ContentLength" by (simp add: nameToCode_content_length)
  moreover have "parseHeaderLine ''Content-Length: 12'' = (''Content-Length'', ''12'')"
    using parseHeaderLine_text [of "''Content-Length''" "''12''"]
    by (simp add: isValidToken_def is_tchar_def trimmed_def)
  moreover have "toLower ''Content-Length'' = ''content-length''" by (simp add: toLower_def char_eval)
  moreover have "stoul 10 ''12'' = Inr 12" by (simp add: num_defs isspace_def)
  ultimately show ?thesis
    by (simp add: request_parseLine_def parseRequestLine_def str_defs method_fromString_def methodRegistry_eval
        parseHttpVersion_def parser_init_def request_default_def set_target_def urlDecode_def
        request_parseHeader_def isValidToken_def is_tchar_def request_processHeaders_def
        request_processTransferMode_def body_decision_def content_length_decision_def processKeepAlive_def
        omap_emplace_def result_error_def extractResult_def Let_def)
qed

theorem request_framing_unambiguous_witness:
  "parser_state (request_run methodRegistry (''GET / HTTP/1.1'' # [''Content-Length: 12''] @ [[]])
     (parser_init request_default)) = HeaderComplete"
  using request_framing_unambiguous [OF _ refl sample_request_accepted] by simp

text \<open>
  A request line that a client writes, with its path percent-encoded and its parameters
  encoded component-wise, is read back exactly: the method, the version, the path as the
  client meant it, the first value of every parameter in \<^verbatim>\<open>queries\<close> and all its values in
  order in \<^verbatim>\<open>multiQueries\<close>.
\<close>

theorem request_line_round_trip:
  assumes "method_fromString reg m \<noteq> method_Invalid" "CHR '' '' \<notin> set m" "path \<noteq> []"
    and "parseRequestLine reg (m @ CHR '' '' # (urlEncode path @ CHR ''?'' # query_text kvs) @ CHR '' '' # ''HTTP/1.1'')
           (parser_init request_default) = (ok, p)"
  shows "ok \<and> req_method (parser_data p) = method_fromString reg m \<and> req_version (parser_data p) = KHttp11 \<and>
    req_path (parser_data p) = path \<and> req_query (parser_data p) = query_text kvs \<and>
    omap_find (req_queries (parser_data p)) k = map_of kvs k \<and>
    omap_find (multiQueries (parser_data p)) k =
      (if k \<in> fst ` set kvs then Some (map snd (filter (\<lambda>kv. fst kv = k) kvs)) else None)"
proof -
  let ?t = "urlEncode path @ CHR ''?'' # query_text kvs"
  have "CHR '' '' \<notin> set ?t" using urlEncode_plain [of "CHR '' ''"] query_text_plain by simp
  then have p: "ok" "parser_data p = set_target ?t
      (request_default\<lparr>req_method := method_fromString reg m, req_version := KHttp11\<rparr>)"
    using parseRequestLine_text [of m ?t reg "''HTTP/1.1''" "parser_init request_default"] assms
    by (auto simp: parseHttpVersion_def parser_init_def)
  have "find_char CHR ''?'' ?t = Some (length (urlEncode path))"
    using urlEncode_plain [of "CHR ''?''"] by (simp add: find_char_append)
  moreover have "urlEncode path \<noteq> []" using assms(3) url.round_trip [of path] url.dec_Nil by auto
  ultimately have "parser_data p = request_default\<lparr>req_method := method_fromString reg m, req_version := KHttp11,
      req_rawPath := urlEncode path, req_path := path, req_query := query_text kvs,
      req_queries := fold (\<lambda>(k, v). omap_emplace k v) kvs []\<rparr>"
    by (simp add: p set_target_def url.round_trip parseQueryString_text request_default_def)
  then show ?thesis
    using p(1) omap.fold_emplace_first [of "[]" kvs k] fold_push_back [of kvs "[]" k]
    by (simp add: multiQueries_text)
qed

theorem request_line_round_trip_witness:
  "fst (parseRequestLine methodRegistry
     (''GET'' @ CHR '' '' # (urlEncode ''/a b'' @ CHR ''?'' # query_text [(''q'', ''x&y'')]) @ CHR '' '' # ''HTTP/1.1'')
     (parser_init request_default))"
proof -
  have "method_fromString methodRegistry ''GET'' \<noteq> method_Invalid"
    by (simp add: method_fromString_def methodRegistry_eval)
  then show ?thesis
    by (rule request_line_round_trip [OF _ _ _ prod.collapse [symmetric], THEN conjunct1]) simp_all
qed

text \<open>
  Whatever the request line, the two ways of reading its parameters agree: \<^verbatim>\<open>getQuery\<close> has
  the first value that \<^verbatim>\<open>multiQueries\<close> lists for the name, and a name that
  \<^verbatim>\<open>multiQueries\<close> lists without a value or not at all is absent.
\<close>

theorem query_views_agree:
  "omap_find (req_queries (parser_data (snd (request_parseLine reg l (parser_init request_default))))) k =
   first_value (omap_find (multiQueries (parser_data (snd (request_parseLine reg l (parser_init request_default))))) k)"
proof -
  define p where "p = snd (parseRequestLine reg l (parser_init request_default))"
  have d: "parser_data (snd (request_parseLine reg l (parser_init request_default))) = parser_data p"
    by (simp add: request_parseLine_def p_def Let_def split: prod.splits)
  from parseRequestLine_target [of reg l "parser_init request_default"] show ?thesis
    unfolding d p_def [symmetric]
  proof (elim disjE exE)
    fix t d' assume "parser_data p = set_target t d' \<and> req_queries d' = req_queries (parser_data (parser_init request_default))"
    then show "omap_find (req_queries (parser_data p)) k = first_value (omap_find (multiQueries (parser_data p)) k)"
      using set_target_views [of d' t k] by simp
  qed (simp add: multiQueries_def scan_loop_segments first_value_def)
qed

text \<open>
  In both parsers an error is final: whenever \<^verbatim>\<open>parseLine\<close> returns the error state or leaves
  the parser in it, the extracted result is an error, and no further line, not even the empty
  one that completes the head, turns it into a success again.
\<close>

theorem parser_errors_final:
  "(fst (request_parseLine reg l (request_run reg ls (parser_init d))) = ParserError \<or>
    parser_state (request_run reg (ls @ [l]) (parser_init d)) = ParserError \<longrightarrow>
      result_error (extractResult (request_run reg (ls @ l # ls') (parser_init d)))) \<and>
   (fst (response_parseLine l (response_run ls (parser_init d'))) = ParserError \<or>
    parser_state (response_run (ls @ [l]) (parser_init d')) = ParserError \<longrightarrow>
      result_error (extractResult (response_run (ls @ l # ls') (parser_init d'))))"
  using request_errors_final response_errors_final by blast

theorem parser_errors_final_witness:
  "result_error (extractResult (request_run methodRegistry ([] @ ''x'' # [[]]) (parser_init request_default)))"
proof -
  have "fst (request_parseLine methodRegistry ''x'' (request_run methodRegistry [] (parser_init request_default))) = ParserError"
    by (simp add: request_parseLine_def parseRequestLine_def find_char_def)
  then show ?thesis
    using parser_errors_final [of methodRegistry "''x''" "[]" request_default "[[]]" response_default] by blast
qed

text \<open>
  The status code is cut to 16 bits before its range is checked: a status line with code
  65736 is accepted as status 200.
\<close>

theorem status_code_wraps:
  "parseStatusLine ''HTTP/1.1 65736 OK'' (parser_init response_default) =
   parseStatusLine ''HTTP/1.1 200 OK'' (parser_init response_default) \<and>
   fst (parseStatusLine ''HTTP/1.1 65736 OK'' (parser_init response_default)) \<and>
   resp_statusCode (parser_data (snd (parseStatusLine ''HTTP/1.1 65736 OK'' (parser_init response_default)))) = 200"
  by (simp add: parseStatusLine_def str_defs num_defs parseHttpVersion_def Let_def)

end
