(* ===== verification/Http_Router.thy ===== *)
theory Http_Router
  imports Prelude Http_Header "HOL-Library.Multiset"
begin

text \<open>
  The request router (\<^verbatim>\<open>extensions/http/include/nitrocoro/http/HttpRouter.h\<close>,
  \<^verbatim>\<open>extensions/http/src/HttpRouter.cc\<close>): a table of exact paths, a tree of path patterns and a list of
  regular expressions.  Handlers are of an arbitrary type \<open>'h\<close>.

  The iteration order of an \<^verbatim>\<open>std::unordered_map\<close> is not specified; it is visible in
  \<^verbatim>\<open>allowedMethods\<close> only, and is the parameter \<open>order\<close>.  Matching against a \<^verbatim>\<open>std::regex\<close> is the
  parameter \<open>rx\<close>, which gives the captured groups of a full match.  Captured path parameters
  (\<^verbatim>\<open>PathParams\<close>, an unordered map that is only looked up) are a map.
\<close>

section \<open>Entries\<close>

record 'h entry =
  handlers :: "(http_method \<times> 'h) list"
  allowedMethods :: string

definition entry_empty :: "'h entry" where
  "entry_empty = \<lparr>handlers = [], allowedMethods = []\<rparr>"

fun table_assign :: "'k \<Rightarrow> 'v \<Rightarrow> ('k \<times> 'v) list \<Rightarrow> ('k \<times> 'v) list" where
  "table_assign k v [] = [(k, v)]"
| "table_assign k v ((k', v') # t) = (if k = k' then (k, v) # t else (k', v') # table_assign k v t)"

fun join_names :: "string list \<Rightarrow> string" where
  "join_names [] = []"
| "join_names [n] = n"
| "join_names (n # ns) = n @ '', '' @ join_names ns"

definition addMethodToEntry ::
    "(http_method list \<Rightarrow> http_method list) \<Rightarrow> method_registry \<Rightarrow> 'h entry \<Rightarrow> http_method \<Rightarrow> 'h \<Rightarrow> 'h entry" where
  "addMethodToEntry order reg e m h =
     (let hs = table_assign m h (handlers e);
          hs = (if m = method_Get \<and> map_of hs method_Head = None then table_assign method_Head h hs else hs)
      in \<lparr>handlers = hs, allowedMethods = join_names (map (method_toString reg) (order (map fst hs)))\<rparr>)"

definition add_methods ::
    "(http_method list \<Rightarrow> http_method list) \<Rightarrow> method_registry \<Rightarrow> http_method list \<Rightarrow> 'h \<Rightarrow> 'h entry \<Rightarrow> 'h entry" where
  "add_methods order reg ms h e = fold (\<lambda>m e. addMethodToEntry order reg e m h) ms e"


section \<open>The pattern tree\<close>

datatype 'h radix_node =
  RadixNode (node_entry: "'h entry") (children: "(string \<times> 'h radix_node) list")
    (paramChildren: "(string \<times> 'h radix_node) list") (wildcardChildren: "(string \<times> 'h radix_node) list")

definition node_empty :: "'h radix_node" where
  "node_empty = RadixNode entry_empty [] [] []"

definition nextSegment :: "string \<Rightarrow> nat \<Rightarrow> string \<times> nat" where
  "nextSegment path pos =
     (if length path \<le> pos then ([], pos)
      else (let start = (if path ! pos = CHR ''/'' then pos + 1 else pos);
                seg = takeWhile (\<lambda>c. c \<noteq> CHR ''/'') (drop start path)
            in (seg, start + length seg)))"

lemma nextSegment_progress:
  "nextSegment path pos = (seg, pos') \<Longrightarrow> seg \<noteq> [] \<Longrightarrow> pos < pos' \<and> pos' \<le> length path"
proof -
  assume seg: "nextSegment path pos = (seg, pos')" "seg \<noteq> []"
  then have "pos < length path" by (auto simp: nextSegment_def split: if_splits)
  define start where "start = (if path ! pos = CHR ''/'' then pos + 1 else pos)"
  have *: "seg = takeWhile (\<lambda>c. c \<noteq> CHR ''/'') (drop start path)" "pos' = start + length seg"
    using seg \<open>pos < length path\<close> by (auto simp: nextSegment_def start_def Let_def)
  have "length seg \<le> length path - start"
    using *(1) length_takeWhile_le [of "\<lambda>c. c \<noteq> CHR ''/''" "drop start path"] by simp
  with * seg(2) \<open>pos < length path\<close> show ?thesis
    by (auto simp: start_def split: if_splits)
qed

text \<open>
  \<^verbatim>\<open>insertRadix\<close> follows or creates the child of every segment; a wildcard segment ends the
  pattern and what follows it is ignored.
\<close>

function insertRadix ::
    "('h entry \<Rightarrow> 'h entry) \<Rightarrow> string \<Rightarrow> nat \<Rightarrow> 'h radix_node \<Rightarrow> 'h radix_node" where
  "insertRadix add path pos (RadixNode e cs ps ws) =
     (case nextSegment path pos of (seg, pos') \<Rightarrow>
        if seg = [] then RadixNode (add e) cs ps ws
        else if hd seg = CHR '':'' then
          RadixNode e cs (omap_assign (tl seg)
            (insertRadix add path pos' (case omap_find ps (tl seg) of Some c \<Rightarrow> c | None \<Rightarrow> node_empty)) ps) ws
        else if hd seg = CHR ''*'' then
          RadixNode e cs ps (omap_assign (tl seg)
            (case omap_find ws (tl seg) of
               Some (RadixNode we wc wp ww) \<Rightarrow> RadixNode (add we) wc wp ww
             | None \<Rightarrow> RadixNode (add entry_empty) [] [] []) ws)
        else
          RadixNode e (omap_assign seg
            (insertRadix add path pos' (case omap_find cs seg of Some c \<Rightarrow> c | None \<Rightarrow> node_empty)) cs) ps ws)"
  by pat_completeness auto
termination
  by (relation "measure (\<lambda>(add, path, pos, n). length path - pos)") (auto dest!: nextSegment_progress [OF sym])

definition kMaxPathLength :: nat where "kMaxPathLength = 2048"

definition kMaxPathSegments :: nat where "kMaxPathSegments = 32"

text \<open>The first child with handlers, in the order of the map.\<close>

fun first_wildcard :: "(string \<times> 'h radix_node) list \<Rightarrow> (string \<times> 'h entry) option" where
  "first_wildcard [] = None"
| "first_wildcard ((w, n) # ws) =
     (if handlers (node_entry n) \<noteq> [] then Some (w, node_entry n) else first_wildcard ws)"

type_synonym path_params = "string \<rightharpoonup> string"

function matchRadix :: "'h radix_node \<Rightarrow> string \<Rightarrow> path_params \<Rightarrow> nat \<Rightarrow> 'h entry option \<times> path_params"
  and matchParams :: "(string \<times> 'h radix_node) list \<Rightarrow> string \<Rightarrow> string \<Rightarrow> path_params \<Rightarrow> nat
    \<Rightarrow> 'h entry option \<times> path_params"
where
  "matchRadix (RadixNode e cs ps ws) path params depth =
     (if kMaxPathSegments < depth then (None, params)
      else (case nextSegment path 0 of (seg, pos) \<Rightarrow>
        if seg = [] then
          (case first_wildcard ws of
             Some (w, we) \<Rightarrow> (Some we, params(w \<mapsto> []))
           | None \<Rightarrow> (if handlers e = [] then None else Some e, params))
        else
          (let rest = drop pos path;
               (r1, params) = (case omap_find cs seg of
                                 Some c \<Rightarrow> matchRadix c rest params (depth + 1)
                               | None \<Rightarrow> (None, params))
           in case r1 of
                Some e' \<Rightarrow> (Some e', params)
              | None \<Rightarrow>
                  (let (r2, params) = matchParams ps seg rest params depth in
                   case r2 of
                     Some e' \<Rightarrow> (Some e', params)
                   | None \<Rightarrow>
                       (case first_wildcard ws of
                          Some (w, we) \<Rightarrow> (Some we, params(w \<mapsto> drop (pos - length seg) path))
                        | None \<Rightarrow> (None, params))))))"
| "matchParams [] seg rest params depth = (None, params)"
| "matchParams ((n, c) # ps) seg rest params depth =
     (let (r, params) = matchRadix c rest (params(n \<mapsto> seg)) (depth + 1) in
      case r of
        Some e \<Rightarrow> (Some e, params)
      | None \<Rightarrow> matchParams ps seg rest (params(n := None)) depth)"
  by pat_completeness auto
termination
proof (relation "measures [\<lambda>x. case x of Inl (n, path, p, d) \<Rightarrow> length path | Inr (ps, s, rest, p, d) \<Rightarrow> length rest,
    \<lambda>x. case x of Inl (n, path, p, d) \<Rightarrow> 0 | Inr (ps, s, rest, p, d) \<Rightarrow> Suc (length ps)]")
qed (auto dest!: nextSegment_progress [OF sym])


section \<open>The router\<close>

record 'h regex_entry =
  regex_pattern :: string
  regex_entry :: "'h entry"

record 'h http_router =
  exactRoutes :: "(string \<times> 'h entry) list"
  radixRoot :: "'h radix_node"
  regexRoutes :: "'h regex_entry list"

definition router_empty :: "'h http_router" where
  "router_empty = \<lparr>exactRoutes = [], radixRoot = node_empty, regexRoutes = []\<rparr>"

datatype router_error = Invalid_method

definition checkInvalidMethods :: "http_method list \<Rightarrow> bool" where
  "checkInvalidMethods ms \<longleftrightarrow> method_Invalid \<notin> set ms"

fun after_slash :: "char \<Rightarrow> string \<Rightarrow> bool" where
  "after_slash c (a # b # s) \<longleftrightarrow> (b = c \<and> a = CHR ''/'') \<or> after_slash c (b # s)"
| "after_slash c _ \<longleftrightarrow> False"

definition isParamOrWild :: "string \<Rightarrow> char \<Rightarrow> bool" where
  "isParamOrWild p c \<longleftrightarrow> (p \<noteq> [] \<and> hd p = c) \<or> after_slash c p"

definition addRouteImpl ::
    "(http_method list \<Rightarrow> http_method list) \<Rightarrow> method_registry \<Rightarrow> string \<Rightarrow> http_method list \<Rightarrow> 'h \<Rightarrow>
     'h http_router \<Rightarrow> 'h http_router" where
  "addRouteImpl order reg path ms h r =
     (if \<not> isParamOrWild path CHR '':'' \<and> \<not> isParamOrWild path CHR ''*'' then
        r\<lparr>exactRoutes :=
            fold (\<lambda>m t. table_assign path
                (addMethodToEntry order reg (case map_of t path of Some e \<Rightarrow> e | None \<Rightarrow> entry_empty) m h) t)
              ms (exactRoutes r)\<rparr>
      else r\<lparr>radixRoot := insertRadix (add_methods order reg ms h) path 0 (radixRoot r)\<rparr>)"

definition addRoute ::
    "(http_method list \<Rightarrow> http_method list) \<Rightarrow> method_registry \<Rightarrow> string \<Rightarrow> http_method list \<Rightarrow> 'h \<Rightarrow>
     'h http_router \<Rightarrow> router_error + 'h http_router" where
  "addRoute order reg path ms h r =
     (if \<not> checkInvalidMethods ms then Inl Invalid_method else Inr (addRouteImpl order reg path ms h r))"

fun add_regex ::
    "('h entry \<Rightarrow> 'h entry) \<Rightarrow> string \<Rightarrow> 'h regex_entry list \<Rightarrow> 'h regex_entry list" where
  "add_regex add pattern [] = [\<lparr>regex_pattern = pattern, regex_entry = add entry_empty\<rparr>]"
| "add_regex add pattern (r # rs) =
     (if regex_pattern r = pattern then r\<lparr>regex_entry := add (regex_entry r)\<rparr> # rs
      else r # add_regex add pattern rs)"

definition addRouteRegex ::
    "(http_method list \<Rightarrow> http_method list) \<Rightarrow> method_registry \<Rightarrow> string \<Rightarrow> http_method list \<Rightarrow> 'h \<Rightarrow>
     'h http_router \<Rightarrow> router_error + 'h http_router" where
  "addRouteRegex order reg pattern ms h r =
     (if \<not> checkInvalidMethods ms then Inl Invalid_method
      else Inr (r\<lparr>regexRoutes := add_regex (add_methods order reg ms h) pattern (regexRoutes r)\<rparr>))"

datatype route_reason = Reason_Ok | Reason_NotFound | Reason_MethodNotAllowed

record 'h route_result =
  route_handler :: "'h option"
  route_params :: path_params
  route_reason :: route_reason
  route_allowed :: string

definition route_default :: "'h route_result" where
  "route_default =
     \<lparr>route_handler = None, route_params = Map.empty, route_reason = Reason_NotFound, route_allowed = []\<rparr>"

definition lookupMethod :: "http_method \<Rightarrow> 'h entry \<Rightarrow> 'h route_result" where
  "lookupMethod m e =
     (case map_of (handlers e) m of
        Some h \<Rightarrow> \<lparr>route_handler = Some h, route_params = Map.empty, route_reason = Reason_Ok, route_allowed = []\<rparr>
      | None \<Rightarrow> \<lparr>route_handler = None, route_params = Map.empty, route_reason = Reason_MethodNotAllowed,
                  route_allowed = allowedMethods e\<rparr>)"

fun capture_params :: "nat \<Rightarrow> string list \<Rightarrow> path_params \<Rightarrow> path_params" where
  "capture_params i [] params = params"
| "capture_params i (c # cs) params = capture_params (Suc i) cs (params(CHR ''$'' # to_string i \<mapsto> c))"

fun route_regex ::
    "(string \<Rightarrow> string \<Rightarrow> string list option) \<Rightarrow> http_method \<Rightarrow> string \<Rightarrow> 'h regex_entry list \<Rightarrow> 'h route_result" where
  "route_regex rx m path [] = route_default"
| "route_regex rx m path (r # rs) =
     (case rx (regex_pattern r) path of
        Some captures \<Rightarrow> (lookupMethod m (regex_entry r))\<lparr>route_params := capture_params 1 captures Map.empty\<rparr>
      | None \<Rightarrow> route_regex rx m path rs)"

definition route ::
    "(string \<Rightarrow> string \<Rightarrow> string list option) \<Rightarrow> 'h http_router \<Rightarrow> http_method \<Rightarrow> string \<Rightarrow> 'h route_result" where
  "route rx r m path =
     (if kMaxPathLength < length path then route_default
      else (case map_of (exactRoutes r) path of
              Some e \<Rightarrow> lookupMethod m e
            | None \<Rightarrow>
                (case matchRadix (radixRoot r) path Map.empty 0 of
                   (Some e, params) \<Rightarrow> (lookupMethod m e)\<lparr>route_params := params\<rparr>
                 | (None, _) \<Rightarrow> route_regex rx m path (regexRoutes r))))"


section \<open>Patterns and what they match\<close>

datatype pattern_segment = Static string | Param string | Wild string

text \<open>The segments of a path or pattern up to the first empty one.\<close>

function path_segments :: "string \<Rightarrow> nat \<Rightarrow> string list" where
  "path_segments path pos =
     (case nextSegment path pos of (seg, pos') \<Rightarrow> if seg = [] then [] else seg # path_segments path pos')"
  by pat_completeness auto
termination
  by (relation "measure (\<lambda>(path, pos). length path - pos)") (auto dest!: nextSegment_progress [OF sym])

declare path_segments.simps [simp del]

fun pattern_of_segments :: "string list \<Rightarrow> pattern_segment list" where
  "pattern_of_segments [] = []"
| "pattern_of_segments (s # ss) =
     (if hd s = CHR '':'' then Param (tl s) # pattern_of_segments ss
      else if hd s = CHR ''*'' then [Wild (tl s)]
      else Static s # pattern_of_segments ss)"

definition pattern_of :: "string \<Rightarrow> pattern_segment list" where
  "pattern_of path = pattern_of_segments (path_segments path 0)"

text \<open>A pattern with a path it matches and the values it binds, in order.\<close>

inductive pattern_match :: "pattern_segment list \<Rightarrow> string \<Rightarrow> (string \<times> string) list \<Rightarrow> bool" where
  match_end: "nextSegment path 0 = ([], pos) \<Longrightarrow> pattern_match [] path []"
| match_static: "nextSegment path 0 = (seg, pos) \<Longrightarrow> seg \<noteq> [] \<Longrightarrow> pattern_match ps (drop pos path) bs \<Longrightarrow>
    pattern_match (Static seg # ps) path bs"
| match_param: "nextSegment path 0 = (seg, pos) \<Longrightarrow> seg \<noteq> [] \<Longrightarrow> pattern_match ps (drop pos path) bs \<Longrightarrow>
    pattern_match (Param n # ps) path ((n, seg) # bs)"
| match_wild: "nextSegment path 0 = (seg, pos) \<Longrightarrow>
    pattern_match [Wild n] path [(n, if seg = [] then [] else drop (pos - length seg) path)]"

text \<open>The entry that the tree has for a pattern; it is without handlers when no route was added for it.\<close>

fun entry_slot :: "'h radix_node \<Rightarrow> pattern_segment list \<Rightarrow> 'h entry" where
  "entry_slot (RadixNode e cs ps ws) [] = e"
| "entry_slot (RadixNode e cs ps ws) (Static s # p) =
     (case omap_find cs s of Some c \<Rightarrow> entry_slot c p | None \<Rightarrow> entry_empty)"
| "entry_slot (RadixNode e cs ps ws) (Param n # p) =
     (case omap_find ps n of Some c \<Rightarrow> entry_slot c p | None \<Rightarrow> entry_empty)"
| "entry_slot (RadixNode e cs ps ws) (Wild n # p) =
     (if p = [] then (case omap_find ws n of Some c \<Rightarrow> node_entry c | None \<Rightarrow> entry_empty) else entry_empty)"

fun radix_inv :: "'h radix_node \<Rightarrow> bool" where
  "radix_inv (RadixNode e cs ps ws) \<longleftrightarrow>
     omap_inv cs \<and> omap_inv ps \<and> omap_inv ws \<and>
     (\<forall>x \<in> set cs. radix_inv (snd x)) \<and> (\<forall>x \<in> set ps. radix_inv (snd x))"

text \<open>No branch of the tree uses the name of a parameter twice.\<close>

fun names_distinct :: "string set \<Rightarrow> 'h radix_node \<Rightarrow> bool" where
  "names_distinct used (RadixNode e cs ps ws) \<longleftrightarrow>
     (\<forall>x \<in> set cs. names_distinct used (snd x)) \<and>
     (\<forall>x \<in> set ps. fst x \<notin> used \<and> names_distinct (insert (fst x) used) (snd x))"


section \<open>Inserting a pattern\<close>

lemma entry_slot_empty [simp]: "entry_slot node_empty p = entry_empty"
  by (cases p rule: list.exhaust; cases "hd p") (auto simp: node_empty_def)

lemma radix_inv_empty [simp]: "radix_inv node_empty"
  by (simp add: node_empty_def)

lemma names_distinct_empty [simp]: "names_distinct used node_empty"
  by (simp add: node_empty_def)

lemma omap_find_in: "omap_inv m \<Longrightarrow> omap_find m k = Some v \<longleftrightarrow> (k, v) \<in> set m"
  by (simp add: omap_inv_def strict_sorted_iff)

lemma entry_slot_insert:
  "entry_slot (insertRadix add path pos n) p =
     (if p = pattern_of_segments (path_segments path pos) then add (entry_slot n p) else entry_slot n p)"
proof (induction add path pos n arbitrary: p rule: insertRadix.induct)
  case (1 add path pos e cs ps ws)
  obtain seg pos' where seg: "nextSegment path pos = (seg, pos')" by fastforce
  show ?case
  proof (cases "seg = []")
    case True
    with seg have "path_segments path pos = []" by (simp add: path_segments.simps)
    with seg True show ?thesis by (cases p; cases "hd p") auto
  next
    case False
    with seg have segs: "path_segments path pos = seg # path_segments path pos'" by (simp add: path_segments.simps)
    consider "hd seg = CHR '':''" | "hd seg = CHR ''*''" | "hd seg \<noteq> CHR '':''" "hd seg \<noteq> CHR ''*''" by blast
    then show ?thesis
    proof cases
      case 1
      with "1.IH"(1) [OF seg [symmetric]] seg segs False show ?thesis
        by (cases p; cases "hd p") (auto split: option.splits)
    next
      case 2
      with seg segs False show ?thesis
        by (cases p; cases "hd p") (auto split: option.splits radix_node.splits)
    next
      case 3
      with "1.IH"(2) [OF seg [symmetric]] seg segs False show ?thesis
        by (cases p; cases "hd p") (auto split: option.splits)
    qed
  qed
qed

lemma set_omap_assign_subset: "x \<in> set (omap_assign k v m) \<Longrightarrow> x = (k, v) \<or> x \<in> set m"
  by (induction m rule: omap_assign.induct) (auto split: if_splits)

lemma omap_find_set: "omap_find m k = Some v \<Longrightarrow> (k, v) \<in> set m"
  by (rule map_of_SomeD)

lemma radix_inv_insert: "radix_inv n \<Longrightarrow> radix_inv (insertRadix add path pos n)"
proof (induction add path pos n rule: insertRadix.induct)
  case (1 add path pos e cs ps ws)
  obtain seg pos' where seg: "nextSegment path pos = (seg, pos')" by fastforce
  have child: "radix_inv (case omap_find m k of None \<Rightarrow> node_empty | Some c \<Rightarrow> c)"
    if "\<forall>x \<in> set m. radix_inv (snd x)" for m k and c :: "'a radix_node"
    using that by (fastforce split: option.splits dest: omap_find_set)
  show ?case
    using 1(3) "1.IH"(1) [OF seg [symmetric]] "1.IH"(2) [OF seg [symmetric]] seg child [of ps "tl seg"] child [of cs seg]
    by (auto dest!: set_omap_assign_subset)
qed

fun param_names :: "pattern_segment list \<Rightarrow> string list" where
  "param_names [] = []"
| "param_names (Param n # p) = n # param_names p"
| "param_names (_ # p) = param_names p"

lemma names_distinct_insert:
  "names_distinct used n \<Longrightarrow> distinct (param_names (pattern_of_segments (path_segments path pos))) \<Longrightarrow>
   set (param_names (pattern_of_segments (path_segments path pos))) \<inter> used = {} \<Longrightarrow>
   names_distinct used (insertRadix add path pos n)"
proof (induction add path pos n arbitrary: used rule: insertRadix.induct)
  case (1 add path pos e cs ps ws)
  obtain seg pos' where seg: "nextSegment path pos = (seg, pos')" by fastforce
  have segs: "path_segments path pos = (if seg = [] then [] else seg # path_segments path pos')"
    using seg by (simp add: path_segments.simps)
  have child: "names_distinct u (case omap_find m k of None \<Rightarrow> node_empty | Some c \<Rightarrow> c)"
    if "\<forall>x \<in> set m. fst x = k \<longrightarrow> names_distinct u (snd x)" for m k u and c :: "'a radix_node"
    using that by (fastforce split: option.splits dest: omap_find_set)
  have "names_distinct (insert (tl seg) used) (case omap_find ps (tl seg) of None \<Rightarrow> node_empty | Some c \<Rightarrow> c)"
    "names_distinct used (case omap_find cs seg of None \<Rightarrow> node_empty | Some c \<Rightarrow> c)"
    using 1(3) by (intro child; auto)+
  then show ?case
    using 1(3-5) "1.IH"(1) [OF seg [symmetric], of "insert (tl seg) used"] "1.IH"(2) [OF seg [symmetric], of used] seg segs
    by (auto dest!: set_omap_assign_subset split: if_splits)
qed


section \<open>Matching finds what is stored\<close>

lemma matchParams_found:
  "(n, c) \<in> set ps \<Longrightarrow> \<forall>params. fst (matchRadix c rest params (depth + 1)) \<noteq> None \<Longrightarrow>
   fst (matchParams ps seg rest params depth) \<noteq> None"
proof (induction ps arbitrary: params)
  case (Cons x ps)
  obtain n' c' where x: "x = (n', c')" by fastforce
  obtain r p' where r: "matchRadix c' rest (params(n' \<mapsto> seg)) (depth + 1) = (r, p')" by fastforce
  show ?case
  proof (cases r)
    case None
    have "(n, c) \<in> set ps"
    proof (rule ccontr)
      assume "(n, c) \<notin> set ps"
      then have "c = c'" using Cons.prems(1) x by auto
      then have "r \<noteq> None" using Cons.prems(2) r by (metis fst_conv)
      with None show False by simp
    qed
    with Cons None x r show ?thesis by simp
  qed (use x r in simp)
qed simp

lemma first_wildcard_found:
  "(w, n) \<in> set ws \<Longrightarrow> handlers (node_entry n) \<noteq> [] \<Longrightarrow> first_wildcard ws \<noteq> None"
  by (induction ws rule: first_wildcard.induct) auto

lemma first_wildcard_in:
  "first_wildcard ws = Some (w, e) \<Longrightarrow> \<exists>n. (w, n) \<in> set ws \<and> e = node_entry n \<and> handlers e \<noteq> []"
  by (induction ws rule: first_wildcard.induct) (auto split: if_splits)

lemma matchRadix_complete:
  "pattern_match p path bs \<Longrightarrow> handlers (entry_slot n p) \<noteq> [] \<Longrightarrow> depth + length p \<le> kMaxPathSegments \<Longrightarrow>
   fst (matchRadix n path params depth) \<noteq> None"
proof (induction p path bs arbitrary: n depth params rule: pattern_match.induct)
  case (match_end path pos)
  then show ?case by (cases n) (auto split: option.splits)
next
  case (match_static path seg pos p bs)
  obtain e cs ps ws where n: "n = RadixNode e cs ps ws" by (cases n)
  with match_static.prems obtain c where c: "omap_find cs seg = Some c" "handlers (entry_slot c p) \<noteq> []"
    by (auto simp: entry_empty_def split: option.splits)
  then have "fst (matchRadix c (drop pos path) params (depth + 1)) \<noteq> None"
    using match_static.IH [of c "depth + 1" params] match_static.prems by simp
  with n c match_static.hyps match_static.prems show ?case by (auto simp: Let_def split: prod.splits option.splits)
next
  case (match_param path seg pos p bs nm)
  obtain e cs ps ws where n: "n = RadixNode e cs ps ws" by (cases n)
  with match_param.prems obtain c where c: "omap_find ps nm = Some c" "handlers (entry_slot c p) \<noteq> []"
    by (auto simp: entry_empty_def split: option.splits)
  then have "\<forall>params. fst (matchRadix c (drop pos path) params (depth + 1)) \<noteq> None"
    using match_param.IH [of c "depth + 1"] match_param.prems by simp
  then have "matchParams ps seg (drop pos path) params depth \<noteq> (None, params')" for params params'
    using matchParams_found [OF omap_find_set [OF c(1)]] by (metis fst_conv)
  with n match_param.hyps match_param.prems show ?case
    by (auto simp: Let_def split: prod.splits option.splits)
next
  case (match_wild path seg pos w)
  obtain e cs ps ws where n: "n = RadixNode e cs ps ws" by (cases n)
  with match_wild.prems obtain c where c: "omap_find ws w = Some c" "handlers (node_entry c) \<noteq> []"
    by (auto simp: entry_empty_def split: option.splits)
  then have "first_wildcard ws \<noteq> None" using first_wildcard_found omap_find_set by metis
  with n match_wild show ?case by (auto simp: Let_def split: prod.splits option.splits)
qed


section \<open>Matching finds only what is stored\<close>

definition match_ok :: "(pattern_segment list \<Rightarrow> 'h entry) \<Rightarrow> string \<Rightarrow> path_params \<Rightarrow> 'h entry option \<times> path_params \<Rightarrow> bool" where
  "match_ok slot path params res \<longleftrightarrow>
     (case res of
        (None, params') \<Rightarrow> params' = params
      | (Some e, params') \<Rightarrow>
          (\<exists>p bs. slot p = e \<and> handlers e \<noteq> [] \<and> pattern_match p path bs \<and> params' = params ++ map_of (rev bs)))"

lemma match_okI:
  "slot p = e \<Longrightarrow> handlers e \<noteq> [] \<Longrightarrow> pattern_match p path bs \<Longrightarrow> params' = params ++ map_of (rev bs) \<Longrightarrow>
   match_ok slot path params (Some e, params')"
  by (auto simp: match_ok_def)

definition params_ok ::
    "(string \<times> 'h radix_node) list \<Rightarrow> string \<Rightarrow> string \<Rightarrow> path_params \<Rightarrow> 'h entry option \<times> path_params \<Rightarrow> bool" where
  "params_ok ps seg rest params res \<longleftrightarrow>
     (case res of
        (None, params') \<Rightarrow> params' = params
      | (Some e, params') \<Rightarrow>
          (\<exists>n c p bs. (n, c) \<in> set ps \<and> entry_slot c p = e \<and> handlers e \<noteq> [] \<and> pattern_match p rest bs \<and>
             params' = params ++ map_of (rev ((n, seg) # bs))))"

lemma params_ok_Cons: "params_ok ps seg rest params res \<Longrightarrow> params_ok (x # ps) seg rest params res"
  unfolding params_ok_def by (cases res; cases "fst res"; simp; blast)

lemma match_wildcard:
  assumes "first_wildcard ws = Some (w, e')" "omap_inv ws" "nextSegment path 0 = (seg, pos)"
  shows "match_ok (entry_slot (RadixNode e cs ps ws)) path params
    (Some e', params(w \<mapsto> (if seg = [] then [] else drop (pos - length seg) path)))"
proof -
  obtain n where n: "(w, n) \<in> set ws" "e' = node_entry n" "handlers e' \<noteq> []"
    using first_wildcard_in [OF assms(1)] by blast
  then have "omap_find ws w = Some n" using omap_find_in [OF assms(2)] by blast
  then have "entry_slot (RadixNode e cs ps ws) [Wild w] = e'" using n by simp
  then show ?thesis using n(3) match_wild [OF assms(3), of w] by (rule match_okI) simp
qed

lemma matchRadix_sound:
  fixes n :: "'h radix_node" and ps :: "(string \<times> 'h radix_node) list"
  shows "radix_inv n \<Longrightarrow> names_distinct (dom params) n \<Longrightarrow>
     match_ok (entry_slot n) path params (matchRadix n path params depth)"
  "\<forall>x \<in> set ps. radix_inv (snd x) \<and> fst x \<notin> dom qs \<and> names_distinct (insert (fst x) (dom qs)) (snd x) \<Longrightarrow>
     params_ok ps seg rest qs (matchParams ps seg rest qs level)"
proof (induction n path params depth and ps seg rest qs level rule: matchRadix_matchParams.induct)
  case (1 e cs ps ws path params depth)
  let ?n = "RadixNode e cs ps ws"
  obtain seg pos where seg: "nextSegment path 0 = (seg, pos)" by fastforce
  note wild = match_wildcard [OF _ _ seg, of ws]
  have inv: "omap_inv cs" "omap_inv ps" "omap_inv ws" using 1(3) by simp_all
  show ?case
  proof (cases "kMaxPathSegments < depth \<or> seg = []")
    case True
    have "match_ok (entry_slot ?n) path params (Some e, params)" if "seg = []" "handlers e \<noteq> []"
      using that seg match_end [of path pos] by (intro match_okI [where p = "[]" and bs = "[]"]) simp_all
    moreover have "match_ok (entry_slot ?n) path params (None, params)" by (simp add: match_ok_def)
    ultimately show ?thesis using True seg wild [of _ _ e cs ps params] inv by (auto split: option.splits)
  next
    case False
    then have go: "\<not> kMaxPathSegments < depth" "seg \<noteq> []" by simp_all
    define rest where "rest = drop pos path"
    define res where "res = (case omap_find cs seg of Some c \<Rightarrow> matchRadix c rest params (depth + 1) | None \<Rightarrow> (None, params))"
    obtain r1 params1 where res: "res = (r1, params1)" by fastforce
    have static: "match_ok (entry_slot ?n) path params (r1, params1)"
    proof (cases "omap_find cs seg")
      case None
      then show ?thesis using res by (simp add: res_def match_ok_def)
    next
      case (Some c)
      then have "radix_inv c" "names_distinct (dom params) c" using 1(3,4) by (auto dest!: omap_find_set)
      then have "match_ok (entry_slot c) rest params (r1, params1)"
        using "1.IH"(1) [OF go(1) seg [symmetric] go(2) rest_def Some] res Some by (simp add: res_def)
      then show ?thesis
      proof (cases r1)
        case (Some e')
        with \<open>match_ok (entry_slot c) rest params (r1, params1)\<close> obtain p bs where
          *: "entry_slot c p = e'" "handlers e' \<noteq> []" "pattern_match p rest bs" "params1 = params ++ map_of (rev bs)"
          by (auto simp: match_ok_def)
        have "entry_slot ?n (Static seg # p) = e'" using *(1) \<open>omap_find cs seg = Some c\<close> by simp
        from match_okI [of "entry_slot ?n", OF this *(2) match_static [OF seg go(2) *(3) [unfolded rest_def]] *(4)] Some
        show ?thesis by simp
      qed (simp add: match_ok_def)
    qed
    show ?thesis
    proof (cases r1)
      case (Some e')
      then show ?thesis using static seg go res [unfolded res_def rest_def] by (simp add: Let_def)
    next
      case None
      then have same: "params1 = params" using static by (simp add: match_ok_def)
      have "params_ok ps seg rest params (matchParams ps seg rest params depth)"
        using "1.IH"(2) [OF go(1) seg [symmetric] go(2) rest_def res_def res [symmetric] None] 1(3,4) same by auto
      moreover obtain r2 params2 where r2: "matchParams ps seg rest params depth = (r2, params2)" by fastforce
      ultimately have ps: "params_ok ps seg rest params (r2, params2)" by simp
      have unfold: "matchRadix ?n path params depth =
          (case r2 of Some e' \<Rightarrow> (Some e', params2)
           | None \<Rightarrow> (case first_wildcard ws of
                Some (w, we) \<Rightarrow> (Some we, params2(w \<mapsto> drop (pos - length seg) path)) | None \<Rightarrow> (None, params2)))"
        using seg go res [unfolded res_def rest_def] None same r2 [unfolded rest_def] by (simp add: Let_def)
      show ?thesis
      proof (cases r2)
        case None
        with ps have "params2 = params" by (simp add: params_ok_def)
        then show ?thesis using unfold None wild [of _ _ e cs ps params] inv go(2)
          by (auto simp: match_ok_def [of _ _ _ "(None, _)"] split: option.splits)
      next
        case (Some e')
        with ps obtain n c p bs where *: "(n, c) \<in> set ps" "entry_slot c p = e'" "handlers e' \<noteq> []"
          "pattern_match p rest bs" "params2 = params ++ map_of (rev ((n, seg) # bs))"
          by (auto simp: params_ok_def)
        then have "omap_find ps n = Some c" using omap_find_in [OF inv(2)] by blast
        then have "entry_slot ?n (Param n # p) = e'" using *(2) by simp
        from match_okI [of "entry_slot ?n", OF this *(3) match_param [OF seg go(2) *(4) [unfolded rest_def]] *(5)] unfold Some
        show ?thesis by simp
      qed
    qed
  qed
next
  case (2 seg rest params depth)
  then show ?case by (simp add: params_ok_def)
next
  case (3 n c ps seg rest params depth)
  have c: "match_ok (entry_slot c) rest (params(n \<mapsto> seg)) (matchRadix c rest (params(n \<mapsto> seg)) (depth + 1))"
    using 3(3) by (intro "3.IH"(1)) (simp_all only: dom_fun_upd, simp_all)
  have fresh: "n \<notin> dom params" using 3(3) by simp
  obtain r params' where r: "matchRadix c rest (params(n \<mapsto> seg)) (depth + 1) = (r, params')" by fastforce
  show ?case
  proof (cases r)
    case None
    with c r have "params' = params(n \<mapsto> seg)" by (simp add: match_ok_def)
    then have restored: "params'(n := None) = params" using fresh by (auto simp: fun_eq_iff domIff)
    then have "params_ok ps seg rest params (matchParams ps seg rest params depth)"
      using "3.IH"(2) [OF r [symmetric] refl None] 3(3) by simp
    then have "params_ok ((n, c) # ps) seg rest params (matchParams ps seg rest params depth)"
      by (rule params_ok_Cons)
    moreover have "matchParams ((n, c) # ps) seg rest params depth = matchParams ps seg rest params depth"
      using None r restored by (simp add: Let_def)
    ultimately show ?thesis by simp
  next
    case (Some e)
    with c r obtain p bs where "entry_slot c p = e" "handlers e \<noteq> []" "pattern_match p rest bs"
      "params' = params(n \<mapsto> seg) ++ map_of (rev bs)" by (auto simp: match_ok_def)
    with Some r show ?thesis by (fastforce simp: params_ok_def)
  qed
qed


section \<open>Routers built from a list of routes\<close>

type_synonym 'h route_spec = "string \<times> http_method list \<times> 'h"

definition build ::
    "(http_method list \<Rightarrow> http_method list) \<Rightarrow> method_registry \<Rightarrow> 'h route_spec list \<Rightarrow> 'h http_router" where
  "build order reg rs = fold (\<lambda>(path, ms, h). addRouteImpl order reg path ms h) rs router_empty"

definition is_pattern :: "string \<Rightarrow> bool" where
  "is_pattern path \<longleftrightarrow> isParamOrWild path CHR '':'' \<or> isParamOrWild path CHR ''*''"

text \<open>The entry that the routes with a given pattern make up, in the order of their registration.\<close>

definition pattern_entry ::
    "(http_method list \<Rightarrow> http_method list) \<Rightarrow> method_registry \<Rightarrow> 'h route_spec list \<Rightarrow> pattern_segment list \<Rightarrow> 'h entry" where
  "pattern_entry order reg rs p =
     fold (\<lambda>(path, ms, h) e. if is_pattern path \<and> pattern_of path = p then add_methods order reg ms h e else e)
       rs entry_empty"

definition exact_entry ::
    "(http_method list \<Rightarrow> http_method list) \<Rightarrow> method_registry \<Rightarrow> 'h route_spec list \<Rightarrow> string \<Rightarrow> 'h entry" where
  "exact_entry order reg rs path =
     fold (\<lambda>(path', ms, h) e. if \<not> is_pattern path' \<and> path' = path then add_methods order reg ms h e else e)
       rs entry_empty"

lemma build_radix:
  "radixRoot (fold (\<lambda>(path, ms, h). addRouteImpl order reg path ms h) rs r) =
   fold (\<lambda>(path, ms, h) n. if is_pattern path then insertRadix (add_methods order reg ms h) path 0 n else n) rs (radixRoot r)"
  by (induction rs arbitrary: r) (auto simp: addRouteImpl_def is_pattern_def)

lemma fold_entry_slot:
  "entry_slot (fold (\<lambda>(path, ms, h) n. if is_pattern path then insertRadix (add_methods order reg ms h) path 0 n else n) rs n) p =
   fold (\<lambda>(path, ms, h) e. if is_pattern path \<and> pattern_of path = p then add_methods order reg ms h e else e)
     rs (entry_slot n p)"
  by (induction rs arbitrary: n) (auto simp: entry_slot_insert pattern_of_def)

lemma entry_slot_build: "entry_slot (radixRoot (build order reg rs)) p = pattern_entry order reg rs p"
  by (simp add: build_def build_radix fold_entry_slot pattern_entry_def router_empty_def)

definition routes_ok :: "'h route_spec list \<Rightarrow> bool" where
  "routes_ok rs \<longleftrightarrow> (\<forall>(path, ms, h) \<in> set rs. is_pattern path \<longrightarrow> distinct (param_names (pattern_of path)))"

lemma build_radix_inv:
  assumes "routes_ok rs"
  shows "radix_inv (radixRoot (build order reg rs)) \<and> names_distinct {} (radixRoot (build order reg rs))"
proof -
  have "radix_inv (fold (\<lambda>(path, ms, h) n. if is_pattern path then insertRadix (add_methods order reg ms h) path 0 n else n) rs n) \<and>
      names_distinct {} (fold (\<lambda>(path, ms, h) n. if is_pattern path then insertRadix (add_methods order reg ms h) path 0 n else n) rs n)"
    if "radix_inv n" "names_distinct {} n" for n
    using assms that
    by (induction rs arbitrary: n)
       (auto simp: routes_ok_def radix_inv_insert names_distinct_insert pattern_of_def split: prod.splits)
  then show ?thesis by (simp add: build_def build_radix router_empty_def)
qed

lemma map_of_table_assign: "map_of (table_assign k v t) k' = (if k' = k then Some v else map_of t k')"
  by (induction t rule: table_assign.induct) auto

lemma keys_table_assign:
  "map fst (table_assign k v t) = (if k \<in> fst ` set t then map fst t else map fst t @ [k])"
  by (induction t rule: table_assign.induct) auto

text \<open>The handler of every method after a registration.\<close>

lemma handlers_addMethod:
  "map_of (handlers (addMethodToEntry order reg e m h)) m' =
     (if m' = m then Some h
      else if m' = method_Head \<and> m = method_Get \<and> map_of (handlers e) method_Head = None then Some h
      else map_of (handlers e) m')"
  by (auto simp: addMethodToEntry_def Let_def map_of_table_assign)

lemma handlers_add_methods:
  "map_of (handlers (add_methods order reg ms h e)) m =
     (if m \<in> set ms \<or> (m = method_Head \<and> method_Get \<in> set ms \<and> map_of (handlers e) method_Head = None) then Some h
      else map_of (handlers e) m)"
proof (induction ms arbitrary: e)
  case (Cons a ms)
  then show ?case by (auto simp: add_methods_def handlers_addMethod)
qed (simp add: add_methods_def)

lemma exactRoutes_step:
  assumes "\<not> is_pattern path"
  shows "map_of (exactRoutes (addRouteImpl order reg path ms h r)) q =
    (if q = path \<and> ms \<noteq> []
     then Some (add_methods order reg ms h (case map_of (exactRoutes r) path of Some e \<Rightarrow> e | None \<Rightarrow> entry_empty))
     else map_of (exactRoutes r) q)"
proof -
  have "map_of (fold (\<lambda>m t. table_assign path
          (addMethodToEntry order reg (case map_of t path of Some e \<Rightarrow> e | None \<Rightarrow> entry_empty) m h) t) ms t) q =
      (if q = path \<and> ms \<noteq> []
       then Some (add_methods order reg ms h (case map_of t path of Some e \<Rightarrow> e | None \<Rightarrow> entry_empty))
       else map_of t q)" for t
    by (induction ms arbitrary: t) (auto simp: map_of_table_assign add_methods_def)
  then show ?thesis using assms by (simp add: addRouteImpl_def is_pattern_def)
qed

lemma build_snoc: "build order reg (rs @ [(path, ms, h)]) = addRouteImpl order reg path ms h (build order reg rs)"
  by (simp add: build_def)


definition entry_ok :: "(http_method list \<Rightarrow> http_method list) \<Rightarrow> method_registry \<Rightarrow> 'h entry \<Rightarrow> bool" where
  "entry_ok order reg e \<longleftrightarrow>
     distinct (map fst (handlers e)) \<and>
     (handlers e \<noteq> [] \<longrightarrow> allowedMethods e = join_names (map (method_toString reg) (order (map fst (handlers e)))))"

lemma distinct_table_assign: "distinct (map fst t) \<Longrightarrow> distinct (map fst (table_assign k v t))"
  by (auto simp: keys_table_assign)

lemma table_assign_neq_Nil: "table_assign k v t \<noteq> []"
  by (induction t rule: table_assign.induct) auto

lemma entry_ok_add: "entry_ok order reg e \<Longrightarrow> entry_ok order reg (addMethodToEntry order reg e m h)"
  by (auto simp: entry_ok_def addMethodToEntry_def Let_def distinct_table_assign)

lemma addMethod_handlers: "handlers (addMethodToEntry order reg e m h) \<noteq> []"
  by (auto simp: addMethodToEntry_def Let_def table_assign_neq_Nil)

lemma entry_ok_add_methods: "entry_ok order reg e \<Longrightarrow> entry_ok order reg (add_methods order reg ms h e)"
  by (induction ms arbitrary: e) (auto simp: add_methods_def entry_ok_add)

lemma add_methods_handlers: "ms \<noteq> [] \<Longrightarrow> handlers (add_methods order reg ms h e) \<noteq> []"
  by (induction ms rule: rev_induct) (simp_all add: add_methods_def addMethod_handlers)

lemma entry_ok_empty [simp]: "entry_ok order reg entry_empty"
  by (simp add: entry_ok_def entry_empty_def)

lemma entry_ok_pattern: "entry_ok order reg (pattern_entry order reg rs p)"
  unfolding pattern_entry_def
  by (induction rs rule: rev_induct) (auto simp: entry_ok_add_methods split: prod.splits)

lemma entry_ok_exact:
  "map_of (exactRoutes (build order reg rs)) path = Some e \<Longrightarrow> entry_ok order reg e \<and> handlers e \<noteq> []"
proof (induction rs arbitrary: e rule: rev_induct)
  case Nil
  then show ?case by (simp add: build_def router_empty_def)
next
  case (snoc x rs)
  obtain path' ms h where x: "x = (path', ms, h)" by (cases x)
  show ?case
  proof (cases "is_pattern path'")
    case True
    then have "exactRoutes (build order reg (rs @ [x])) = exactRoutes (build order reg rs)"
      by (auto simp: x build_snoc addRouteImpl_def is_pattern_def)
    with snoc show ?thesis by simp
  next
    case False
    have "entry_ok order reg (case map_of (exactRoutes (build order reg rs)) path' of Some e \<Rightarrow> e | None \<Rightarrow> entry_empty)"
      if "path' = path" using snoc.IH that by (auto split: option.splits)
    with snoc False show ?thesis
      by (auto simp: x build_snoc exactRoutes_step entry_ok_add_methods add_methods_handlers split: if_splits)
  qed
qed

lemma regexRoutes_build: "regexRoutes (build order reg rs) = []"
  by (induction rs rule: rev_induct)
     (auto simp: build_def router_empty_def addRouteImpl_def split: prod.splits)

text \<open>Where a path is found, the entry does not depend on the method.\<close>

lemma route_entry:
  assumes "routes_ok rs" "route_reason (route rx (build order reg rs) m path) \<noteq> Reason_NotFound"
  obtains e params where "entry_ok order reg e" "handlers e \<noteq> []"
    "\<And>m'. route rx (build order reg rs) m' path = (lookupMethod m' e)\<lparr>route_params := params\<rparr>"
proof -
  let ?r = "build order reg rs"
  have len: "length path \<le> kMaxPathLength" using assms(2) by (auto simp: route_def route_default_def split: if_splits)
  show ?thesis
  proof (cases "map_of (exactRoutes ?r) path")
    case (Some e)
    with len entry_ok_exact [OF Some] show ?thesis
      by (intro that [of e Map.empty]) (auto simp: route_def lookupMethod_def split: option.splits)
  next
    case None
    obtain r params where r: "matchRadix (radixRoot ?r) path Map.empty 0 = (r, params)" by fastforce
    with assms(2) len None obtain e where e: "r = Some e"
      by (cases r) (auto simp: route_def regexRoutes_build route_default_def)
    have "match_ok (entry_slot (radixRoot ?r)) path Map.empty (Some e, params)"
      using matchRadix_sound(1) [of "radixRoot ?r" Map.empty path 0] build_radix_inv [OF assms(1), of order reg] r e by simp
    then have "entry_ok order reg e" "handlers e \<noteq> []"
      by (auto simp: match_ok_def entry_slot_build entry_ok_pattern)
    with r e None len show ?thesis by (intro that [of e params]) (simp_all add: route_def)
  qed
qed

lemma lookupMethod_Ok: "route_reason (lookupMethod m e) = Reason_Ok \<longleftrightarrow> m \<in> fst ` set (handlers e)"
  using map_of_eq_None_iff [of "handlers e" m] by (cases "map_of (handlers e) m") (simp_all add: lookupMethod_def)


lemmas router_eval = route_def build_def addRouteImpl_def isParamOrWild_def router_empty_def node_empty_def nextSegment_def
  add_methods_def addMethodToEntry_def entry_empty_def Let_def kMaxPathLength_def kMaxPathSegments_def lookupMethod_def
  route_default_def


section \<open>Properties\<close>



text \<open>
  A static path that was registered last answers every request for it with the registered
  handler and no parameters, whatever patterns and regular expressions match the path as
  well; \<^verbatim>\<open>GET\<close> brings a handler for \<^verbatim>\<open>HEAD\<close>; and the registration does not change the answer
  for any other path.
\<close>

theorem route_exact_registered:
  assumes "\<not> is_pattern path" "m \<in> set ms" "length path \<le> kMaxPathLength"
    and "r = addRouteImpl order reg path ms h r0"
  shows "route rx r m path =
      \<lparr>route_handler = Some h, route_params = Map.empty, route_reason = Reason_Ok, route_allowed = []\<rparr> \<and>
    (method_Get \<in> set ms \<longrightarrow> route_reason (route rx r method_Head path) = Reason_Ok) \<and>
    (\<forall>path' m'. path' \<noteq> path \<longrightarrow> route rx r m' path' = route rx r0 m' path')"
proof -
  have other: "map_of (exactRoutes r) q = map_of (exactRoutes r0) q" if "q \<noteq> path" for q
    using that exactRoutes_step [OF assms(1), of order reg ms h r0 q] assms(4) by simp
  have same: "radixRoot r = radixRoot r0" "regexRoutes r = regexRoutes r0"
    using assms(1,4) by (simp_all add: addRouteImpl_def is_pattern_def)
  let ?e = "add_methods order reg ms h (case map_of (exactRoutes r0) path of Some e \<Rightarrow> e | None \<Rightarrow> entry_empty)"
  have e: "map_of (exactRoutes r) path = Some ?e"
    using assms(2,4) exactRoutes_step [OF assms(1), of order reg ms h r0 path] by (auto split: if_splits)
  have "map_of (handlers ?e) m = Some h" using assms(2) by (simp add: handlers_add_methods)
  moreover have "\<exists>h'. map_of (handlers ?e) method_Head = Some h'" if "method_Get \<in> set ms"
    using that by (auto simp: handlers_add_methods)
  moreover have "route rx r m' path' = route rx r0 m' path'" if "path' \<noteq> path" for m' path'
    using other [OF that] by (cases "map_of (exactRoutes r0) path'") (simp_all add: route_def same split: prod.splits option.splits)
  ultimately show ?thesis using e assms(3) by (auto simp: route_def lookupMethod_def)
qed

theorem route_exact_registered_witness:
  "route_handler (route (\<lambda>p s. None)
     (addRouteImpl id methodRegistry ''/users/me'' [method_Get] (1::nat)
       (build id methodRegistry [(''/users/:id'', [method_Get], 2)])) method_Get ''/users/me'') = Some 1"
  using route_exact_registered [of "''/users/me''" method_Get "[method_Get]", OF _ _ _ refl, where h = "1::nat"]
  by (simp add: is_pattern_def isParamOrWild_def kMaxPathLength_def)

text \<open>
  When the router answers that the method is not allowed, the list for the \<^verbatim>\<open>Allow\<close> header
  names, each once, exactly the methods with which the same path would have been routed.
\<close>

theorem route_allowed_methods:
  assumes "routes_ok rs" and "\<And>l. mset (order l) = mset l"
    and "route_reason (route rx (build order reg rs) m path) = Reason_MethodNotAllowed"
  shows "\<exists>ms. distinct ms \<and> ms \<noteq> [] \<and>
    route_allowed (route rx (build order reg rs) m path) = join_names (map (method_toString reg) ms) \<and>
    (\<forall>m'. m' \<in> set ms \<longleftrightarrow> route_reason (route rx (build order reg rs) m' path) = Reason_Ok)"
proof -
  obtain e params where e: "entry_ok order reg e" "handlers e \<noteq> []"
    "\<And>m'. route rx (build order reg rs) m' path = (lookupMethod m' e)\<lparr>route_params := params\<rparr>"
    using route_entry [OF assms(1), of rx order reg m path] assms(3) by auto
  let ?ms = "order (map fst (handlers e))"
  have "set ?ms = fst ` set (handlers e)" using assms(2) by (metis mset_eq_setD set_map)
  moreover have "distinct ?ms" using assms(2) e(1) by (metis entry_ok_def mset_eq_imp_distinct_iff)
  moreover have "?ms \<noteq> []" using assms(2) e(2) by (metis map_is_Nil_conv mset_zero_iff)
  moreover have "route_allowed (route rx (build order reg rs) m path) = join_names (map (method_toString reg) ?ms)"
    using assms(3) e by (auto simp: lookupMethod_def entry_ok_def split: option.splits)
  moreover have "route_reason (route rx (build order reg rs) m' path) = Reason_Ok \<longleftrightarrow> m' \<in> fst ` set (handlers e)" for m'
    using e(3) [of m'] lookupMethod_Ok [of m' e] by simp
  ultimately show ?thesis by blast
qed

theorem route_allowed_methods_witness:
  "\<exists>ms. distinct ms \<and> ms \<noteq> [] \<and>
    route_allowed (route (\<lambda>p s. None) (build id methodRegistry [(''/a/:x'', [method_Get], 1::nat)]) 2 ''/a/b'') =
      join_names (map (method_toString methodRegistry) ms) \<and>
    (\<forall>m'. m' \<in> set ms \<longleftrightarrow>
       route_reason (route (\<lambda>p s. None) (build id methodRegistry [(''/a/:x'', [method_Get], 1::nat)]) m' ''/a/b'') = Reason_Ok)"
proof (rule route_allowed_methods)
  show "routes_ok [(''/a/:x'', [method_Get], 1::nat)]"
    by (simp add: routes_ok_def pattern_of_def path_segments.simps nextSegment_def)
  show "route_reason (route (\<lambda>p s. None) (build id methodRegistry [(''/a/:x'', [method_Get], 1::nat)]) 2 ''/a/b'') =
      Reason_MethodNotAllowed"
    by (simp add: router_eval)
qed simp

text \<open>
  Giving up a branch erases the parameter of that name, also when an outer segment had bound
  it: with the routes \<^verbatim>\<open>/:a/:a/x\<close> and \<^verbatim>\<open>/:a/*w\<close> the path \<^verbatim>\<open>/1/2/3\<close> reaches the second route,
  whose parameter \<^verbatim>\<open>a\<close> is then missing.
\<close>

theorem backtracking_erases_parameter:
  "let r = route (\<lambda>p s. None)
        (build id methodRegistry [(''/:a/:a/x'', [method_Get], 1), (''/:a/*w'', [method_Get], 2::nat)]) method_Get ''/1/2/3''
   in route_handler r = Some 2 \<and> route_params r = [''w'' \<mapsto> ''2/3'']"
  by (simp add: router_eval)

text \<open>
  An empty segment ends a path: the pattern \<^verbatim>\<open>/users/:id\<close> also matches \<^verbatim>\<open>/users/42//profile\<close>,
  although it has more segments.
\<close>

theorem double_slash_ends_path:
  "let r = route (\<lambda>p s. None) (build id methodRegistry [(''/users/:id'', [method_Get], 1::nat)]) method_Get
   in route_handler (r ''/users/42//profile'') = Some 1 \<and> route_handler (r ''/users/42/profile'') = None"
  by (simp add: router_eval)

end
