(* ===== verification/Http_Body.thy ===== *)
theory Http_Body
  imports Prelude Byte_Stream Http_Header
begin

text \<open>
  Reading and writing message bodies: \<^verbatim>\<open>BodyReader\<close> with its four implementations
  (\<^verbatim>\<open>extensions/http/src/BodyReader.cc\<close>, \<^verbatim>\<open>src/body_reader/\<close>), \<^verbatim>\<open>BodyWriter\<close> with its three
  (\<^verbatim>\<open>src/BodyWriter.cc\<close>, \<^verbatim>\<open>src/body_writer/\<close>) and \<^verbatim>\<open>HttpIncomingStream\<close>.

  A connection is the unconsumed part of its \<^verbatim>\<open>StringBuffer\<close> and its stream; \<open>wire\<close> is all
  that is still to be read.  A coroutine that throws gives an error; the connection is not
  used after that.  The mutex of \<^verbatim>\<open>BodyReader\<close> serialises its operations, so each of them is one
  step here.
\<close>

section \<open>Connections\<close>

record conn =
  buffer :: string
  peer :: stream

definition wire :: "conn \<Rightarrow> string" where
  "wire c = buffer c @ to_come (peer c)"

definition crlf :: string where
  "crlf = [CHR 0x0D, CHR 0x0A]"

text \<open>\<^verbatim>\<open>prepareWrite\<close>, a read of at most \<open>n\<close> bytes, \<^verbatim>\<open>commitWrite\<close>; an end of the stream is an error.\<close>

definition read_more :: "nat \<Rightarrow> string \<Rightarrow> conn \<Rightarrow> io_error + conn" where
  "read_more n msg c =
     (case stream_read n (peer c) of
        Inl e \<Rightarrow> Inl e
      | Inr (bs, s) \<Rightarrow>
          if bs = [] then Inl (Runtime_error msg) else Inr \<lparr>buffer = buffer c @ bs, peer = s\<rparr>)"

definition conn_consume :: "nat \<Rightarrow> conn \<Rightarrow> conn" where
  "conn_consume n c = c\<lparr>buffer := drop n (buffer c)\<rparr>"

lemma stream_read_split:
  "stream_read n s = Inr (bs, s') \<Longrightarrow> bs @ to_come s' = to_come s"
  by (auto simp: stream_read_def to_come_def split: list.splits if_splits)

lemma read_more_wire: "read_more n msg c = Inr c' \<Longrightarrow> wire c' = wire c"
  by (auto simp: read_more_def wire_def dest: stream_read_split split: sum.splits prod.splits if_splits)

lemma read_more_progress:
  "read_more n msg c = Inr c' \<Longrightarrow> length (to_come (peer c')) < length (to_come (peer c))"
proof -
  assume "read_more n msg c = Inr c'"
  then obtain bs s where "stream_read n (peer c) = Inr (bs, s)" "bs \<noteq> []" "peer c' = s"
    by (auto simp: read_more_def split: sum.splits prod.splits if_splits)
  then show ?thesis using stream_read_split [of n "peer c" bs s]
    by (metis length_append length_greater_0_conv less_add_same_cancel2)
qed


section \<open>Chunked bodies\<close>

datatype chunked_state = ReadSize | ReadData | Complete

record chunked_reader =
  chunked_state :: chunked_state
  currentChunkSize :: nat
  currentChunkRead :: nat

definition chunked_init :: chunked_reader where
  "chunked_init = \<lparr>chunked_state = ReadSize, currentChunkSize = 0, currentChunkRead = 0\<rparr>"

function skipTrailer :: "nat \<Rightarrow> conn \<Rightarrow> io_error + conn" where
  "skipTrailer ls c =
     (case find_sub crlf (buffer c) of
        None \<Rightarrow>
          if 8192 \<le> length (buffer c) then Inl (Runtime_error ''Invalid chunked encoding: trailer line too long'')
          else (case read_more 128 ''Connection closed before chunked trailer complete'' c of
                  Inl e \<Rightarrow> Inl e
                | Inr c' \<Rightarrow> skipTrailer ls c')
      | Some pos \<Rightarrow>
          (let c' = conn_consume (pos + 2) c in
           if pos = 0 then Inr c'
           else if 128 < ls + 1 then Inl (Runtime_error ''Invalid chunked encoding: too many trailer headers'')
           else skipTrailer (ls + 1) c'))"
  by pat_completeness auto
termination
  by (relation "measures [\<lambda>(ls, c). length (to_come (peer c)), \<lambda>(ls, c). length (buffer c)]")
     (auto simp: conn_consume_def crlf_def dest: read_more_progress find_sub_Some_take)

function parseChunkSize :: "chunked_reader \<Rightarrow> conn \<Rightarrow> io_error + chunked_reader \<times> conn" where
  "parseChunkSize r c =
     (case find_sub crlf (buffer c) of
        None \<Rightarrow>
          if 64 \<le> length (buffer c) then Inl (Runtime_error ''Invalid chunked encoding: chunk size line too long'')
          else (case read_more 128 ''Connection closed before chunk size complete'' c of
                  Inl e \<Rightarrow> Inl e
                | Inr c' \<Rightarrow> parseChunkSize r c')
      | Some pos \<Rightarrow>
          if 64 < pos then Inl (Runtime_error ''Invalid chunked encoding: chunk size line too long'')
          else (case stoul 16 (take pos (buffer c)) of
                  Inl e \<Rightarrow> Inl (Number_error e)
                | Inr n \<Rightarrow>
                    (let c' = conn_consume (pos + 2) c;
                         r' = r\<lparr>currentChunkSize := n, currentChunkRead := 0\<rparr>
                     in if n = 0 then
                          (case skipTrailer 0 c' of
                             Inl e \<Rightarrow> Inl e
                           | Inr c'' \<Rightarrow> Inr (r'\<lparr>chunked_state := Complete\<rparr>, c''))
                        else Inr (r'\<lparr>chunked_state := ReadData\<rparr>, c'))))"
  by pat_completeness auto
termination
  by (relation "measure (\<lambda>(r, c). length (to_come (peer c)))") (auto dest: read_more_progress)

function skipCRLF :: "conn \<Rightarrow> io_error + conn" where
  "skipCRLF c =
     (if length (buffer c) < 2 then
        (case read_more 128 ''Connection closed before chunk CRLF complete'' c of
           Inl e \<Rightarrow> Inl e
         | Inr c' \<Rightarrow> skipCRLF c')
      else Inr (conn_consume 2 c))"
  by pat_completeness auto
termination
  by (relation "measure (\<lambda>c. length (to_come (peer c)))") (auto dest: read_more_progress)

declare skipTrailer.simps [simp del] parseChunkSize.simps [simp del] skipCRLF.simps [simp del]

text \<open>The end of a chunk, when all its bytes were delivered.\<close>

definition finish_chunk :: "chunked_reader \<Rightarrow> conn \<Rightarrow> io_error + chunked_reader \<times> conn" where
  "finish_chunk r c =
     (if currentChunkSize r \<le> currentChunkRead r then
        (case skipCRLF c of Inl e \<Rightarrow> Inl e | Inr c' \<Rightarrow> Inr (r\<lparr>chunked_state := ReadSize\<rparr>, c'))
      else Inr (r, c))"

definition chunked_data :: "nat \<Rightarrow> chunked_reader \<Rightarrow> conn \<Rightarrow> io_error + string \<times> chunked_reader \<times> conn" where
  "chunked_data len r c =
     (let available = length (buffer c);
          remaining = currentChunkSize r - currentChunkRead r
      in if 0 < available then
           (let toRead = min available (min remaining len);
                bs = take toRead (buffer c)
            in case finish_chunk (r\<lparr>currentChunkRead := currentChunkRead r + toRead\<rparr>) (conn_consume toRead c) of
                 Inl e \<Rightarrow> Inl e
               | Inr (r', c') \<Rightarrow> Inr (bs, r', c'))
         else
           (case stream_read (min len remaining) (peer c) of
              Inl e \<Rightarrow> Inl e
            | Inr (bs, s) \<Rightarrow>
                if bs = [] then Inl (Runtime_error ''Connection closed before chunk data complete'')
                else
                  (case finish_chunk (r\<lparr>currentChunkRead := currentChunkRead r + length bs\<rparr>) (c\<lparr>peer := s\<rparr>) of
                     Inl e \<Rightarrow> Inl e
                   | Inr (r', c') \<Rightarrow> Inr (bs, r', c'))))"

definition chunked_readImpl :: "nat \<Rightarrow> chunked_reader \<Rightarrow> conn \<Rightarrow> io_error + string \<times> chunked_reader \<times> conn" where
  "chunked_readImpl len r c =
     (if chunked_state r = Complete then Inr ([], r, c)
      else if chunked_state r = ReadSize then
        (case parseChunkSize r c of
           Inl e \<Rightarrow> Inl e
         | Inr (r', c') \<Rightarrow> if chunked_state r' = Complete then Inr ([], r', c') else chunked_data len r' c')
      else chunked_data len r c)"


section \<open>Bodies of known length and bodies that end with the connection\<close>

record content_length_reader =
  contentLength :: nat
  bytesRead :: nat

definition content_length_readImpl ::
    "nat \<Rightarrow> content_length_reader \<Rightarrow> conn \<Rightarrow> io_error + string \<times> content_length_reader \<times> conn" where
  "content_length_readImpl len r c =
     (if contentLength r \<le> bytesRead r then Inr ([], r, c)
      else
        (let available = length (buffer c) in
         if 0 < available then
           (let toRead = min len (min available (contentLength r - bytesRead r))
            in Inr (take toRead (buffer c), r\<lparr>bytesRead := bytesRead r + toRead\<rparr>, conn_consume toRead c))
         else
           (case stream_read (min len (contentLength r - bytesRead r)) (peer c) of
              Inl e \<Rightarrow> Inl e
            | Inr (bs, s) \<Rightarrow>
                if bs = [] then Inl (Runtime_error ''Connection closed before content-length body complete'')
                else Inr (bs, r\<lparr>bytesRead := bytesRead r + length bs\<rparr>, c\<lparr>peer := s\<rparr>))))"

definition until_close_readImpl :: "nat \<Rightarrow> bool \<Rightarrow> conn \<Rightarrow> io_error + string \<times> bool \<times> conn" where
  "until_close_readImpl len complete c =
     (if complete then Inr ([], complete, c)
      else
        (let available = length (buffer c) in
         if 0 < available then
           (let toRead = min len available in Inr (take toRead (buffer c), complete, conn_consume toRead c))
         else
           (case stream_read len (peer c) of
              Inl e \<Rightarrow> Inl e
            | Inr (bs, s) \<Rightarrow> Inr (bs, bs = [], c\<lparr>peer := s\<rparr>))))"


section \<open>BodyReader\<close>

datatype reader_impl =
    NoopReader
  | ContentLengthReader content_length_reader
  | ChunkedReader chunked_reader
  | UntilCloseReader bool

record body_reader =
  reader_impl :: reader_impl
  draining :: bool

definition reader_create :: "transfer_mode \<Rightarrow> nat \<Rightarrow> body_reader" where
  "reader_create mode n =
     \<lparr>reader_impl =
        (case mode of
           ContentLength \<Rightarrow>
             if n = 0 then NoopReader else ContentLengthReader \<lparr>contentLength = n, bytesRead = 0\<rparr>
         | Chunked \<Rightarrow> ChunkedReader chunked_init
         | UntilClose \<Rightarrow> UntilCloseReader False),
      draining = False\<rparr>"

fun isComplete :: "reader_impl \<Rightarrow> bool" where
  "isComplete NoopReader = True"
| "isComplete (ContentLengthReader r) = (contentLength r \<le> bytesRead r)"
| "isComplete (ChunkedReader r) = (chunked_state r = Complete)"
| "isComplete (UntilCloseReader complete) = complete"

fun readImpl :: "nat \<Rightarrow> reader_impl \<Rightarrow> conn \<Rightarrow> io_error + string \<times> reader_impl \<times> conn" where
  "readImpl len NoopReader c = Inr ([], NoopReader, c)"
| "readImpl len (ContentLengthReader r) c =
     map_sum id (\<lambda>(bs, r, c). (bs, ContentLengthReader r, c)) (content_length_readImpl len r c)"
| "readImpl len (ChunkedReader r) c =
     map_sum id (\<lambda>(bs, r, c). (bs, ChunkedReader r, c)) (chunked_readImpl len r c)"
| "readImpl len (UntilCloseReader r) c =
     map_sum id (\<lambda>(bs, r, c). (bs, UntilCloseReader r, c)) (until_close_readImpl len r c)"

definition body_read :: "nat \<Rightarrow> body_reader \<Rightarrow> conn \<Rightarrow> io_error + string \<times> body_reader \<times> conn" where
  "body_read len b c =
     (if draining b \<or> isComplete (reader_impl b) then Inr ([], b, c)
      else map_sum id (\<lambda>(bs, r, c). (bs, b\<lparr>reader_impl := r\<rparr>, c)) (readImpl len (reader_impl b) c))"

text \<open>Every operation only takes bytes from the front of the wire.\<close>

definition took :: "conn \<Rightarrow> string \<Rightarrow> conn \<Rightarrow> bool" where
  "took c bs c' \<longleftrightarrow> (\<exists>skipped. wire c = skipped @ wire c' \<and> length bs \<le> length skipped)"

lemma took_refl [simp]: "took c [] c"
  by (simp add: took_def)

lemma took_trans: "took c [] c' \<Longrightarrow> took c' bs c'' \<Longrightarrow> took c bs c''"
  by (auto simp: took_def)

lemma took_trans2: "took c bs c' \<Longrightarrow> took c' [] c'' \<Longrightarrow> took c bs c''"
  by (auto simp: took_def)

lemma took_more: "read_more n msg c = Inr c' \<Longrightarrow> took c [] c'"
  by (drule read_more_wire) (simp add: took_def)

lemma took_consume: "took c (take n (buffer c)) (conn_consume n c)"
  by (auto simp: took_def wire_def conn_consume_def intro: exI [of _ "take n (buffer c)"])

lemma took_weaken: "took c bs c' \<Longrightarrow> took c [] c'"
  by (auto simp: took_def)

lemma took_stream: "stream_read n (peer c) = Inr (bs, s) \<Longrightarrow> buffer c = [] \<Longrightarrow> took c bs (c\<lparr>peer := s\<rparr>)"
  by (drule stream_read_split) (auto simp: took_def wire_def intro!: exI [of _ bs])

lemma took_skipTrailer: "skipTrailer ls c = Inr c' \<Longrightarrow> took c [] c'"
proof (induction ls c rule: skipTrailer.induct)
  case (1 ls c)
  show ?case
  proof (cases "find_sub crlf (buffer c)")
    case None
    with 1 show ?thesis
      by (subst (asm) (3) skipTrailer.simps)
         (auto split: if_splits sum.splits dest: took_more intro: took_trans)
  next
    case (Some pos)
    have "took c [] (conn_consume (pos + 2) c)" by (rule took_weaken [OF took_consume])
    with 1(2) [OF Some refl] 1(3) Some show ?thesis
      by (subst (asm) (2) skipTrailer.simps) (auto simp: Let_def split: if_splits intro: took_trans)
  qed
qed

lemma took_parseChunkSize: "parseChunkSize r c = Inr (r', c') \<Longrightarrow> took c [] c'"
proof (induction r c rule: parseChunkSize.induct)
  case (1 r c)
  show ?case
  proof (cases "find_sub crlf (buffer c)")
    case None
    with 1 show ?thesis
      by (subst (asm) (2) parseChunkSize.simps)
         (auto split: if_splits sum.splits dest: took_more intro: took_trans)
  next
    case (Some pos)
    have "took c [] (conn_consume (pos + 2) c)" by (rule took_weaken [OF took_consume])
    with 1(2) Some show ?thesis
      by (subst (asm) parseChunkSize.simps)
         (auto simp: Let_def split: if_splits sum.splits dest!: took_skipTrailer intro: took_trans)
  qed
qed

lemma took_skipCRLF: "skipCRLF c = Inr c' \<Longrightarrow> took c [] c'"
proof (induction c rule: skipCRLF.induct)
  case (1 c)
  have "took c [] (conn_consume 2 c)" by (rule took_weaken [OF took_consume])
  with 1 show ?case
    by (subst (asm) (2) skipCRLF.simps) (auto split: if_splits sum.splits dest: took_more intro: took_trans)
qed

lemma took_finish: "finish_chunk r c = Inr (r', c') \<Longrightarrow> took c [] c'"
  by (auto simp: finish_chunk_def dest: took_skipCRLF split: if_splits sum.splits)

lemma took_chunked_data:
  assumes "chunked_data len r c = Inr (bs, r', c')"
  shows "took c bs c'"
proof (cases "buffer c = []")
  case True
  with assms show ?thesis
    by (auto simp: chunked_data_def Let_def split: if_splits sum.splits prod.splits
        dest!: took_finish dest: took_stream intro: took_trans2)
next
  case False
  with assms show ?thesis
    using took_consume [of c]
    by (auto simp: chunked_data_def Let_def split: if_splits sum.splits prod.splits
        dest!: took_finish intro: took_trans2)
qed

lemma took_chunked: "chunked_readImpl len r c = Inr (bs, r', c') \<Longrightarrow> took c bs c'"
  by (auto simp: chunked_readImpl_def split: if_splits sum.splits prod.splits
      dest!: took_chunked_data took_parseChunkSize intro: took_trans)

lemma took_content_length: "content_length_readImpl len r c = Inr (bs, r', c') \<Longrightarrow> took c bs c'"
  by (auto simp: content_length_readImpl_def Let_def split: if_splits sum.splits prod.splits
      dest: took_stream intro: took_consume)

lemma took_until_close: "until_close_readImpl len r c = Inr (bs, r', c') \<Longrightarrow> took c bs c'"
  by (auto simp: until_close_readImpl_def Let_def split: if_splits sum.splits prod.splits
      dest: took_stream intro: took_consume)

lemma took_readImpl: "readImpl len r c = Inr (bs, r', c') \<Longrightarrow> took c bs c'"
  by (cases r) (auto simp: map_sum_def split: sum.splits prod.splits
      dest: took_chunked took_content_length took_until_close)

lemma took_body_read: "body_read len b c = Inr (bs, b', c') \<Longrightarrow> took c bs c'"
  by (auto simp: body_read_def map_sum_def split: if_splits sum.splits prod.splits dest: took_readImpl)

lemma took_shrinks: "took c bs c' \<Longrightarrow> bs \<noteq> [] \<Longrightarrow> length (wire c') < length (wire c)"
  by (auto simp: took_def)


section \<open>Draining and reading to the end\<close>

function drain_loop :: "reader_impl \<Rightarrow> conn \<Rightarrow> io_error + reader_impl \<times> conn" where
  "drain_loop r c =
     (if isComplete r then Inr (r, c)
      else (case readImpl 4096 r c of
              Inl e \<Rightarrow> Inl e
            | Inr (bs, r', c') \<Rightarrow> if bs = [] then Inr (r', c') else drain_loop r' c'))"
  by pat_completeness auto
termination
  by (relation "measure (\<lambda>(r, c). length (wire c))") (auto dest!: took_readImpl dest: took_shrinks)

definition drain :: "body_reader \<Rightarrow> conn \<Rightarrow> io_error + body_reader \<times> conn" where
  "drain b c =
     (case drain_loop (reader_impl b) c of
        Inl e \<Rightarrow> Inl e
      | Inr (r, c') \<Rightarrow> Inr (b\<lparr>reader_impl := r, draining := True\<rparr>, c'))"

definition kExtendThreshold :: nat where "kExtendThreshold = 4096"

definition kExtendSize :: nat where "kExtendSize = 8192"

function readToEnd ::
    "string_buffer \<Rightarrow> nat \<Rightarrow> body_reader \<Rightarrow> conn \<Rightarrow> io_error + nat \<times> string_buffer \<times> body_reader \<times> conn" where
  "readToEnd buf count b c =
     (if isComplete (reader_impl b) then Inr (count, buf, b, c)
      else
        (let available = writableSize buf;
             (buf', available) =
               (if available < kExtendThreshold then (prepareWrite kExtendSize buf, kExtendSize) else (buf, available))
         in case body_read available b c of
              Inl e \<Rightarrow> Inl e
            | Inr (bs, b', c') \<Rightarrow>
                if bs = [] then Inr (count, buf', b', c')
                else readToEnd (commitWrite (length bs) (store bs buf')) (count + length bs) b' c'))"
  by pat_completeness auto
termination
  by (relation "measure (\<lambda>(buf, count, b, c). length (wire c))")
     (auto dest!: took_body_read [OF sym] took_body_read dest: took_shrinks)

declare drain_loop.simps [simp del] readToEnd.simps [simp del]

text \<open>\<^verbatim>\<open>HttpIncomingStream::read\<close> and \<^verbatim>\<open>toCompleteRequest\<close>, \<^verbatim>\<open>toCompleteResponse\<close>: the body as a string.\<close>

definition incoming_read :: "nat \<Rightarrow> body_reader \<Rightarrow> conn \<Rightarrow> io_error + string \<times> body_reader \<times> conn" where
  "incoming_read maxLen b c = body_read maxLen b c"

definition complete_body :: "body_reader \<Rightarrow> conn \<Rightarrow> io_error + string \<times> body_reader \<times> conn" where
  "complete_body b c =
     (case readToEnd sb_empty 0 b c of
        Inl e \<Rightarrow> Inl e
      | Inr (count, buf, b', c') \<Rightarrow> Inr (fst (sb_extract buf), b', c'))"


section \<open>BodyWriter\<close>

datatype body_writer = ContentLengthWriter nat nat | ChunkedWriter | UntilCloseWriter

definition writer_create :: "transfer_mode \<Rightarrow> nat \<Rightarrow> body_writer" where
  "writer_create mode n =
     (if mode = ContentLength then ContentLengthWriter n 0
      else if mode = UntilClose then UntilCloseWriter else ChunkedWriter)"

text \<open>
  The size line is formatted into a buffer of 16 bytes, which is enough for every size below
  \<open>16 ^ 13\<close> (lemma \<open>chunk_line_fits\<close>), far above what fits in memory.
\<close>

definition chunk :: "string \<Rightarrow> string" where
  "chunk d = to_hex (length d) @ crlf @ d @ crlf"

fun writer_write :: "string \<Rightarrow> body_writer \<Rightarrow> stream \<Rightarrow> body_writer \<times> stream" where
  "writer_write d (ContentLengthWriter n w) s = (ContentLengthWriter n (w + length d), stream_write d s)"
| "writer_write d ChunkedWriter s = (ChunkedWriter, if d = [] then s else stream_write (chunk d) s)"
| "writer_write d UntilCloseWriter s = (UntilCloseWriter, stream_write d s)"

fun writer_end :: "body_writer \<Rightarrow> stream \<Rightarrow> stream" where
  "writer_end ChunkedWriter s = stream_write (''0'' @ crlf @ crlf) s"
| "writer_end _ s = s"


section \<open>Lines on the wire\<close>

lemma find_crlf: "CHR 0x0D \<notin> set line \<Longrightarrow> find_sub crlf (line @ crlf @ y) = Some (length line)"
  by (induction line) (auto simp: crlf_def)

lemma find_crlf_None: "CHR 0x0D \<notin> set line \<Longrightarrow> find_sub crlf line = None"
  by (induction line) (auto simp: crlf_def)

lemma find_crlf_half: "CHR 0x0D \<notin> set line \<Longrightarrow> find_sub crlf (line @ [CHR 0x0D]) = None"
  by (induction line) (auto simp: crlf_def)

lemma find_crlf_prefix:
  assumes wire: "b @ t = line @ crlf @ rest" and line: "CHR 0x0D \<notin> set line"
  shows "find_sub crlf b = (if length line + 2 \<le> length b then Some (length line) else None)"
proof -
  consider "length b \<le> length line" | "length b = length line + 1" | "length line + 2 \<le> length b" by linarith
  then show ?thesis
  proof cases
    case 1
    then have "b = take (length b) line" using arg_cong [OF wire, of "take (length b)"] by simp
    then have "CHR 0x0D \<notin> set b" using line by (metis in_set_takeD)
    with 1 show ?thesis by (simp add: find_crlf_None)
  next
    case 2
    then have "b = line @ [CHR 0x0D]" using arg_cong [OF wire, of "take (length b)"] by (simp add: crlf_def)
    with 2 line show ?thesis by (simp add: find_crlf_half)
  next
    case 3
    then obtain k where k: "length b = length line + 2 + k" using le_Suc_ex by blast
    have "b = take (length b) (line @ crlf @ rest)" using wire by (metis append_eq_conv_conj)
    then have "b = line @ crlf @ take k rest" by (simp add: k crlf_def)
    with 3 find_crlf [OF line] show ?thesis by metis
  qed
qed

lemma show_base_length: "2 \<le> base \<Longrightarrow> n < base ^ Suc k \<Longrightarrow> length (show_base base n) \<le> Suc k"
proof (induction k arbitrary: n)
  case 0
  then show ?case by (simp add: show_base.simps)
next
  case (Suc k)
  then have "n div base < base ^ Suc k" by (intro less_mult_imp_div_less) (simp add: mult.commute)
  with Suc show ?case by (subst show_base.simps) auto
qed

lemma to_hex_length: "n < 2 ^ 64 \<Longrightarrow> length (to_hex n) \<le> 16"
  using show_base_length [of 16 n 15] by simp

lemma chunk_line_fits: "n < 16 ^ 13 \<Longrightarrow> length (to_hex n @ crlf) < 16"
  using show_base_length [of 16 n 12] by (simp add: crlf_def)

lemma to_hex_no_cr: "CHR 0x0D \<notin> set (to_hex n)"
  using show_base_digits [of 16 "CHR 0x0D" n] by (auto simp: is_digit_def hexVal_nat_def)

lemma stream_read_wf: "stream_wf s \<Longrightarrow> stream_read n s = Inr (bs, s') \<Longrightarrow> stream_wf s'"
  by (auto simp: stream_wf_def stream_read_def split: list.splits if_splits)

lemma stream_read_ok:
  assumes "stream_wf s" "0 < n"
  obtains bs s' where "stream_read n s = Inr (bs, s')" "stream_wf s'" "length bs \<le> n" "bs = [] \<longleftrightarrow> to_come s = []"
    "bs @ to_come s' = to_come s"
proof -
  obtain bs s' where r: "stream_read n s = Inr (bs, s')"
    using assms by (fastforce simp: stream_wf_def stream_read_def split: list.splits)
  moreover have "length bs \<le> n" using r by (auto simp: stream_read_def split: list.splits if_splits)
  moreover have "bs = [] \<longleftrightarrow> to_come s = []"
    using r assms by (auto simp: stream_wf_def stream_read_def to_come_def split: list.splits if_splits)
  ultimately show ?thesis using that stream_read_wf [OF assms(1)] stream_read_split by blast
qed

lemma read_more_ok:
  assumes "stream_wf (peer c)" "0 < n" "to_come (peer c) \<noteq> []"
  obtains c' where "read_more n msg c = Inr c'" "stream_wf (peer c')" "wire c' = wire c"
proof -
  obtain bs s' where "stream_read n (peer c) = Inr (bs, s')" "stream_wf s'" "bs \<noteq> []"
    using stream_read_ok [OF assms(1,2)] assms(3) by metis
  then have "read_more n msg c = Inr \<lparr>buffer = buffer c @ bs, peer = s'\<rparr>" by (simp add: read_more_def)
  with \<open>stream_wf s'\<close> show ?thesis using that read_more_wire by fastforce
qed

lemma skipCRLF_ok:
  "stream_wf (peer c) \<Longrightarrow> 2 \<le> length (wire c) \<Longrightarrow>
   \<exists>c'. skipCRLF c = Inr c' \<and> stream_wf (peer c') \<and> wire c' = drop 2 (wire c)"
proof (induction c rule: skipCRLF.induct)
  case (1 c)
  show ?case
  proof (cases "length (buffer c) < 2")
    case True
    then have "to_come (peer c) \<noteq> []" using 1(3) by (auto simp: wire_def)
    from read_more_ok [OF 1(2) _ this, of 128] obtain c' where
      "read_more 128 ''Connection closed before chunk CRLF complete'' c = Inr c'" "stream_wf (peer c')" "wire c' = wire c"
      by (metis zero_less_numeral)
    with 1(1) [OF True] 1(3) True show ?thesis by (subst skipCRLF.simps) auto
  next
    case False
    with 1(2) show ?thesis by (subst skipCRLF.simps) (auto simp: conn_consume_def wire_def)
  qed
qed

lemma skipTrailer_end:
  "stream_wf (peer c) \<Longrightarrow> wire c = crlf @ rest \<Longrightarrow>
   \<exists>c'. skipTrailer ls c = Inr c' \<and> stream_wf (peer c') \<and> wire c' = rest"
proof (induction ls c rule: skipTrailer.induct)
  case (1 ls c)
  have find: "find_sub crlf (buffer c) = (if 2 \<le> length (buffer c) then Some 0 else None)"
    using find_crlf_prefix [of "buffer c" "to_come (peer c)" "[]" rest] 1(4) by (simp add: wire_def)
  show ?case
  proof (cases "2 \<le> length (buffer c)")
    case True
    then have "drop 2 (buffer c) @ to_come (peer c) = rest"
      using 1(4) by (auto simp: wire_def crlf_def dest: arg_cong [where f = "drop 2"])
    with find True 1(3) show ?thesis
      by (subst skipTrailer.simps) (simp add: conn_consume_def wire_def Let_def numeral_2_eq_2)
  next
    case False
    then have none: "find_sub crlf (buffer c) = None" and "to_come (peer c) \<noteq> []"
      using find 1(4) by (auto simp: wire_def crlf_def)
    from read_more_ok [OF 1(3) _ this(2), of 128] obtain c' where
      c': "read_more 128 ''Connection closed before chunked trailer complete'' c = Inr c'" "stream_wf (peer c')" "wire c' = wire c"
      by (metis zero_less_numeral)
    with 1(1) [OF none _ c'(1)] 1(4) none False show ?thesis by (subst skipTrailer.simps) auto
  qed
qed

lemma parseChunkSize_line:
  assumes line: "CHR 0x0D \<notin> set line" "length line \<le> 62" "stoul 16 line = Inr n"
  shows "stream_wf (peer c) \<Longrightarrow> wire c = line @ crlf @ rest \<Longrightarrow>
    \<exists>c'. stream_wf (peer c') \<and> wire c' = rest \<and>
      parseChunkSize r c =
        (let r' = r\<lparr>currentChunkSize := n, currentChunkRead := 0\<rparr> in
         if n = 0 then (case skipTrailer 0 c' of Inl e \<Rightarrow> Inl e | Inr c'' \<Rightarrow> Inr (r'\<lparr>chunked_state := Complete\<rparr>, c''))
         else Inr (r'\<lparr>chunked_state := ReadData\<rparr>, c'))"
proof (induction r c rule: parseChunkSize.induct)
  case (1 r c)
  have find: "find_sub crlf (buffer c) = (if length line + 2 \<le> length (buffer c) then Some (length line) else None)"
    using find_crlf_prefix [of "buffer c" "to_come (peer c)" line rest] 1(3) line(1) by (simp add: wire_def)
  show ?case
  proof (cases "length line + 2 \<le> length (buffer c)")
    case True
    have "take (length line) (buffer c) = line" "drop (length line + 2) (buffer c) @ to_come (peer c) = rest"
      using arg_cong [OF 1(3), of "take (length line)"] arg_cong [OF 1(3), of "drop (length line + 2)"] True
      by (simp_all add: wire_def crlf_def)
    with find True line 1(2) show ?thesis
      by (subst parseChunkSize.simps)
         (auto simp: conn_consume_def wire_def Let_def intro!: exI [of _ "conn_consume (length line + 2) c"])
  next
    case False
    then have none: "find_sub crlf (buffer c) = None" and short: "\<not> 64 \<le> length (buffer c)" using find line(2) by auto
    have "to_come (peer c) \<noteq> []" using False arg_cong [OF 1(3), of length] by (auto simp: wire_def crlf_def)
    from read_more_ok [OF 1(2) _ this, of 128] obtain c' where
      c': "read_more 128 ''Connection closed before chunk size complete'' c = Inr c'" "stream_wf (peer c')" "wire c' = wire c"
      by (metis zero_less_numeral)
    with 1(1) [OF none short c'(1)] 1(3) none short show ?thesis by (subst parseChunkSize.simps) auto
  qed
qed


section \<open>The contract of a body source\<close>

text \<open>
  \<open>delivers r w body rest\<close>: a reader in state \<open>r\<close>, with \<open>w\<close> on the wire, will deliver
  \<open>body\<close> and leave \<open>rest\<close> for the next message.  The contract says that every read keeps
  this, makes progress, and that completion is reached exactly at the end of the body.
\<close>

fun read_seq ::
    "(nat \<Rightarrow> 'r \<Rightarrow> conn \<Rightarrow> io_error + string \<times> 'r \<times> conn) \<Rightarrow> ('r \<Rightarrow> bool) \<Rightarrow> nat list \<Rightarrow> 'r \<Rightarrow> conn \<Rightarrow>
     io_error + string \<times> 'r \<times> conn" where
  "read_seq rd cmpl [] r c = Inr ([], r, c)"
| "read_seq rd cmpl (len # lens) r c =
     (if cmpl r then Inr ([], r, c)
      else (case rd len r c of
              Inl e \<Rightarrow> Inl e
            | Inr (d, r', c') \<Rightarrow>
                (case read_seq rd cmpl lens r' c' of
                   Inl e \<Rightarrow> Inl e
                 | Inr (d', r'', c'') \<Rightarrow> Inr (d @ d', r'', c''))))"

locale body_source =
  fixes rd :: "nat \<Rightarrow> 'r \<Rightarrow> conn \<Rightarrow> io_error + string \<times> 'r \<times> conn"
    and cmpl :: "'r \<Rightarrow> bool"
    and delivers :: "'r \<Rightarrow> string \<Rightarrow> string \<Rightarrow> string \<Rightarrow> bool"
  assumes step: "delivers r (wire c) body rest \<Longrightarrow> stream_wf (peer c) \<Longrightarrow> 0 < len \<Longrightarrow> \<not> cmpl r \<Longrightarrow>
      \<exists>d r' c' body'. rd len r c = Inr (d, r', c') \<and> length d \<le> len \<and> body = d @ body' \<and>
        delivers r' (wire c') body' rest \<and> stream_wf (peer c') \<and> (d = [] \<longrightarrow> cmpl r')"
    and complete_end: "delivers r w body rest \<Longrightarrow> cmpl r \<Longrightarrow> body = [] \<and> w = rest"
begin

text \<open>Any sequence of reads delivers a prefix of the body, and enough of them all of it.\<close>

lemma read_seq_delivers:
  "delivers r (wire c) body rest \<Longrightarrow> stream_wf (peer c) \<Longrightarrow> \<forall>len \<in> set lens. 0 < len \<Longrightarrow>
   \<exists>d r' c' body'. read_seq rd cmpl lens r c = Inr (d, r', c') \<and> body = d @ body' \<and>
     delivers r' (wire c') body' rest \<and> stream_wf (peer c') \<and> (length body < length lens \<longrightarrow> cmpl r')"
proof (induction lens arbitrary: r c body)
  case (Cons len lens)
  show ?case
  proof (cases "cmpl r")
    case True
    with Cons show ?thesis by auto
  next
    case False
    with step [OF Cons.prems(1,2) _ False, of len] Cons.prems(3) obtain d r' c' body' where
      1: "rd len r c = Inr (d, r', c')" "body = d @ body'" "delivers r' (wire c') body' rest"
         "stream_wf (peer c')" "d = [] \<longrightarrow> cmpl r'" by auto
    from Cons.IH [OF 1(3,4)] Cons.prems(3) obtain d2 r2 c2 body2 where
      2: "read_seq rd cmpl lens r' c' = Inr (d2, r2, c2)" "body' = d2 @ body2" "delivers r2 (wire c2) body2 rest"
         "stream_wf (peer c2)" "length body' < length lens \<longrightarrow> cmpl r2" by auto
    have "cmpl r2" if "length body < length (len # lens)"
    proof (cases "d = []")
      case True
      with 1(5) have "cmpl r'" by simp
      with 2(1) show ?thesis by (cases lens) auto
    next
      case False
      then have "length body' < length lens" using that 1(2) by (cases d) auto
      with 2(5) show ?thesis by simp
    qed
    with 1 2 False show ?thesis by auto
  qed
qed auto

end


section \<open>The readers meet the contract\<close>

definition content_length_delivers :: "content_length_reader \<Rightarrow> string \<Rightarrow> string \<Rightarrow> string \<Rightarrow> bool" where
  "content_length_delivers r w body rest \<longleftrightarrow> w = body @ rest \<and> length body = contentLength r - bytesRead r"

definition until_close_delivers :: "bool \<Rightarrow> string \<Rightarrow> string \<Rightarrow> string \<Rightarrow> bool" where
  "until_close_delivers complete w body rest \<longleftrightarrow> w = body \<and> rest = [] \<and> (complete \<longrightarrow> body = [])"

definition last_chunk :: string where
  "last_chunk = ''0'' @ crlf @ crlf"

definition pieces_ok :: "string list \<Rightarrow> bool" where
  "pieces_ok ds \<longleftrightarrow> (\<forall>d \<in> set ds. d \<noteq> [] \<and> length d < 2 ^ 64)"

definition chunks :: "string list \<Rightarrow> string" where
  "chunks ds = concat (map chunk ds) @ last_chunk"

definition chunked_delivers :: "chunked_reader \<Rightarrow> string \<Rightarrow> string \<Rightarrow> string \<Rightarrow> bool" where
  "chunked_delivers r w body rest \<longleftrightarrow>
     (case chunked_state r of
        Complete \<Rightarrow> body = [] \<and> w = rest
      | ReadSize \<Rightarrow> \<exists>ds. pieces_ok ds \<and> body = concat ds \<and> w = chunks ds @ rest
      | ReadData \<Rightarrow> \<exists>x ds. pieces_ok ds \<and> x \<noteq> [] \<and> length x = currentChunkSize r - currentChunkRead r \<and>
          body = x @ concat ds \<and> w = x @ crlf @ chunks ds @ rest)"

lemma append_split_prefix:
  assumes "a @ b = x @ y" "n \<le> length a" "n \<le> length x"
  shows "take n a = take n x" "drop n a @ b = drop n x @ y"
  using arg_cong [OF assms(1), of "take n"] arg_cong [OF assms(1), of "drop n"] assms(2,3) by simp_all

lemma content_length_step:
  assumes "content_length_delivers r (wire c) body rest" "stream_wf (peer c)" "0 < len" "\<not> contentLength r \<le> bytesRead r"
  shows "\<exists>d r' c' body'. content_length_readImpl len r c = Inr (d, r', c') \<and> length d \<le> len \<and> body = d @ body' \<and>
    content_length_delivers r' (wire c') body' rest \<and> stream_wf (peer c') \<and> d \<noteq> []"
proof (cases "buffer c = []")
  case False
  define n where "n = min len (min (length (buffer c)) (contentLength r - bytesRead r))"
  have w: "buffer c @ to_come (peer c) = body @ rest" and len: "length body = contentLength r - bytesRead r"
    using assms(1) by (simp_all add: content_length_delivers_def wire_def)
  then have n: "n \<le> length (buffer c)" "n \<le> length body" "n \<le> len" "0 < n"
    using False assms(3,4) by (auto simp: n_def)
  note split = append_split_prefix [OF w n(1,2)]
  have "content_length_readImpl len r c = Inr (take n body, r\<lparr>bytesRead := bytesRead r + n\<rparr>, conn_consume n c)"
    using False assms(4) split(1) by (simp add: content_length_readImpl_def Let_def n_def)
  moreover have "content_length_delivers (r\<lparr>bytesRead := bytesRead r + n\<rparr>) (wire (conn_consume n c)) (drop n body) rest"
    using split(2) len by (simp add: content_length_delivers_def wire_def conn_consume_def)
  ultimately show ?thesis using n assms(2)
    by (intro exI [of _ "take n body"] exI [of _ "r\<lparr>bytesRead := bytesRead r + n\<rparr>"] exI [of _ "conn_consume n c"]
        exI [of _ "drop n body"]) (auto simp: conn_consume_def)
next
  case True
  let ?n = "min len (contentLength r - bytesRead r)"
  have n: "0 < ?n" using assms(3,4) by simp
  obtain bs s' where bs: "stream_read ?n (peer c) = Inr (bs, s')" "stream_wf s'" "length bs \<le> ?n"
    "bs = [] \<longleftrightarrow> to_come (peer c) = []" "bs @ to_come s' = to_come (peer c)"
    using stream_read_ok [OF assms(2) n] by metis
  have w: "to_come (peer c) = body @ rest" using True assms(1) by (simp add: content_length_delivers_def wire_def)
  then have "bs \<noteq> []" using bs(4) assms(1,4) by (auto simp: content_length_delivers_def)
  moreover have "length bs \<le> length body" using bs(3) assms(1) by (simp add: content_length_delivers_def)
  note split = append_split_prefix [OF bs(5) [unfolded w] order_refl this]
  have "content_length_readImpl len r c = Inr (bs, r\<lparr>bytesRead := bytesRead r + length bs\<rparr>, c\<lparr>peer := s'\<rparr>)"
    using True assms(4) bs(1) \<open>bs \<noteq> []\<close> by (simp add: content_length_readImpl_def Let_def)
  moreover have "content_length_delivers (r\<lparr>bytesRead := bytesRead r + length bs\<rparr>) (wire (c\<lparr>peer := s'\<rparr>))
      (drop (length bs) body) rest"
    using split(2) True assms(1) by (simp add: content_length_delivers_def wire_def)
  moreover have "body = bs @ drop (length bs) body" using split(1) by (metis append_take_drop_id take_all_iff order_refl)
  ultimately show ?thesis using bs(2,3)
    by (intro exI [of _ bs] exI [of _ "r\<lparr>bytesRead := bytesRead r + length bs\<rparr>"] exI [of _ "c\<lparr>peer := s'\<rparr>"]
        exI [of _ "drop (length bs) body"]) simp
qed

interpretation content_length: body_source content_length_readImpl "\<lambda>r. contentLength r \<le> bytesRead r" content_length_delivers
proof unfold_locales
  fix r c body rest and len :: nat
  assume "content_length_delivers r (wire c) body rest" "stream_wf (peer c)" "0 < len" "\<not> contentLength r \<le> bytesRead r"
  from content_length_step [OF this] show "\<exists>d r' c' body'. content_length_readImpl len r c = Inr (d, r', c') \<and>
      length d \<le> len \<and> body = d @ body' \<and> content_length_delivers r' (wire c') body' rest \<and> stream_wf (peer c') \<and>
      (d = [] \<longrightarrow> contentLength r' \<le> bytesRead r')" by blast
qed (simp add: content_length_delivers_def)

lemma until_close_step:
  assumes "until_close_delivers r (wire c) body rest" "stream_wf (peer c)" "0 < len" "\<not> r"
  shows "\<exists>d r' c' body'. until_close_readImpl len r c = Inr (d, r', c') \<and> length d \<le> len \<and> body = d @ body' \<and>
    until_close_delivers r' (wire c') body' rest \<and> stream_wf (peer c') \<and> (d = [] \<longrightarrow> r')"
proof (cases "buffer c = []")
  case False
  define n where "n = min len (length (buffer c))"
  have n: "n \<le> len" "n \<le> length (buffer c)" "0 < n" using assms(3) False by (auto simp: n_def)
  have "until_close_readImpl len r c = Inr (take n (buffer c), r, conn_consume n c)"
    using False assms(4) by (simp add: until_close_readImpl_def Let_def n_def)
  moreover have "until_close_delivers r (wire (conn_consume n c)) (drop n (buffer c) @ to_come (peer c)) rest"
    "body = take n (buffer c) @ drop n (buffer c) @ to_come (peer c)"
    using assms(1,4) by (auto simp: until_close_delivers_def wire_def conn_consume_def)
  ultimately show ?thesis using assms(2) n
    by - (rule exI [of _ "take n (buffer c)"], rule exI [of _ r], rule exI [of _ "conn_consume n c"],
        rule exI [of _ "drop n (buffer c) @ to_come (peer c)"], auto simp: conn_consume_def)
next
  case True
  obtain bs s' where bs: "stream_read len (peer c) = Inr (bs, s')" "stream_wf s'" "length bs \<le> len"
    "bs = [] \<longleftrightarrow> to_come (peer c) = []" "bs @ to_come s' = to_come (peer c)"
    using stream_read_ok [OF assms(2,3)] by metis
  from bs(1) True assms(4) have "until_close_readImpl len r c = Inr (bs, bs = [], c\<lparr>peer := s'\<rparr>)"
    by (simp add: until_close_readImpl_def)
  moreover have "body = bs @ to_come s'" using assms(1) True bs(5) by (simp add: until_close_delivers_def wire_def)
  moreover have "until_close_delivers (bs = []) (wire (c\<lparr>peer := s'\<rparr>)) (to_come s') rest"
    using assms(1) True bs(4,5) by (auto simp: until_close_delivers_def wire_def)
  ultimately show ?thesis using bs(2,3) by auto
qed

interpretation until_close: body_source until_close_readImpl "\<lambda>r. r" until_close_delivers
  by unfold_locales (use until_close_step in \<open>blast, simp add: until_close_delivers_def\<close>)

lemma finish_chunk_ok:
  assumes "stream_wf (peer c)" "wire c = x @ crlf @ tail" "length x = currentChunkSize r - currentChunkRead r"
  shows "\<exists>c'. stream_wf (peer c') \<and>
    finish_chunk r c = Inr (if x = [] then r\<lparr>chunked_state := ReadSize\<rparr> else r, c') \<and>
    wire c' = (if x = [] then tail else x @ crlf @ tail)"
proof (cases "x = []")
  case True
  then show ?thesis using skipCRLF_ok [OF assms(1)] assms(2,3) by (auto simp: finish_chunk_def crlf_def)
next
  case False
  then have "\<not> currentChunkSize r \<le> currentChunkRead r" using assms(3) by auto
  with False assms show ?thesis by (auto simp: finish_chunk_def)
qed

text \<open>One delivery from inside a chunk: at least one byte, and the rest of the chunk stays.\<close>

lemma chunked_data_ok:
  assumes wf: "stream_wf (peer c)" and w: "wire c = x @ crlf @ tail"
    and x: "x \<noteq> []" "length x = currentChunkSize r - currentChunkRead r" and len: "0 < len"
  shows "\<exists>n c'. 0 < n \<and> n \<le> len \<and> n \<le> length x \<and> stream_wf (peer c') \<and>
    chunked_data len r c = Inr (take n x,
      (if n = length x then r\<lparr>currentChunkRead := currentChunkRead r + n, chunked_state := ReadSize\<rparr>
       else r\<lparr>currentChunkRead := currentChunkRead r + n\<rparr>), c') \<and>
    wire c' = (if n = length x then tail else drop n x @ crlf @ tail)"
proof -
  have step: "\<exists>c'. stream_wf (peer c') \<and>
      finish_chunk (r\<lparr>currentChunkRead := currentChunkRead r + n\<rparr>) c1 =
        Inr (if n = length x then r\<lparr>currentChunkRead := currentChunkRead r + n, chunked_state := ReadSize\<rparr>
             else r\<lparr>currentChunkRead := currentChunkRead r + n\<rparr>, c') \<and>
      wire c' = (if n = length x then tail else drop n x @ crlf @ tail)"
    if "stream_wf (peer c1)" "wire c1 = drop n x @ crlf @ tail" "n \<le> length x" for n c1
    using finish_chunk_ok [OF that(1,2), of "r\<lparr>currentChunkRead := currentChunkRead r + n\<rparr>"] that(3) x(2)
    by (cases "n = length x") auto
  show ?thesis
  proof (cases "buffer c = []")
    case False
    define n where "n = min (length (buffer c)) (min (currentChunkSize r - currentChunkRead r) len)"
    have n: "0 < n" "n \<le> len" "n \<le> length x" "n \<le> length (buffer c)" using False x len by (cases x; auto simp: n_def)+
    note split = append_split_prefix [OF w [unfolded wire_def] n(4,3)]
    have "wire (conn_consume n c) = drop n x @ crlf @ tail" using split(2) by (simp add: wire_def conn_consume_def)
    from step [OF _ this n(3)] wf obtain c' where c': "stream_wf (peer c')"
      "finish_chunk (r\<lparr>currentChunkRead := currentChunkRead r + n\<rparr>) (conn_consume n c) =
        Inr (if n = length x then r\<lparr>currentChunkRead := currentChunkRead r + n, chunked_state := ReadSize\<rparr>
             else r\<lparr>currentChunkRead := currentChunkRead r + n\<rparr>, c')"
      "wire c' = (if n = length x then tail else drop n x @ crlf @ tail)" by (auto simp: conn_consume_def)
    then have "chunked_data len r c = Inr (take n x,
      (if n = length x then r\<lparr>currentChunkRead := currentChunkRead r + n, chunked_state := ReadSize\<rparr>
       else r\<lparr>currentChunkRead := currentChunkRead r + n\<rparr>), c')"
      using False split(1) by (simp add: chunked_data_def Let_def n_def)
    with n c' show ?thesis by blast
  next
    case True
    have m: "0 < min len (currentChunkSize r - currentChunkRead r)" using len x by (cases x) auto
    obtain bs s' where bs: "stream_read (min len (currentChunkSize r - currentChunkRead r)) (peer c) = Inr (bs, s')"
      "stream_wf s'" "length bs \<le> min len (currentChunkSize r - currentChunkRead r)"
      "bs = [] \<longleftrightarrow> to_come (peer c) = []" "bs @ to_come s' = to_come (peer c)"
      using stream_read_ok [OF wf m] by metis
    have w': "to_come (peer c) = x @ crlf @ tail" using w True by (simp add: wire_def)
    define n where "n = length bs"
    have n: "0 < n" "n \<le> len" "n \<le> length x" using bs(3,4) w' x by (auto simp: n_def)
    note split = append_split_prefix [OF bs(5) [unfolded w'] _ n(3), unfolded n_def, simplified]
    have "wire (c\<lparr>peer := s'\<rparr>) = drop n x @ crlf @ tail" using split(2) True by (simp add: wire_def n_def)
    from step [OF _ this n(3)] bs(2) obtain c' where c': "stream_wf (peer c')"
      "finish_chunk (r\<lparr>currentChunkRead := currentChunkRead r + n\<rparr>) (c\<lparr>peer := s'\<rparr>) =
        Inr (if n = length x then r\<lparr>currentChunkRead := currentChunkRead r + n, chunked_state := ReadSize\<rparr>
             else r\<lparr>currentChunkRead := currentChunkRead r + n\<rparr>, c')"
      "wire c' = (if n = length x then tail else drop n x @ crlf @ tail)" by auto
    then have "chunked_data len r c = Inr (take n x,
      (if n = length x then r\<lparr>currentChunkRead := currentChunkRead r + n, chunked_state := ReadSize\<rparr>
       else r\<lparr>currentChunkRead := currentChunkRead r + n\<rparr>), c')"
      using True bs(1) n(1) split(1) by (auto simp: chunked_data_def Let_def n_def)
    with n c' show ?thesis by blast
  qed
qed

lemma chunked_step_data:
  assumes "chunked_state r = ReadData" "chunked_delivers r (wire c) body rest" "stream_wf (peer c)" "0 < len"
  shows "\<exists>d r' c' body'. chunked_data len r c = Inr (d, r', c') \<and> length d \<le> len \<and> body = d @ body' \<and>
    chunked_delivers r' (wire c') body' rest \<and> stream_wf (peer c') \<and> d \<noteq> []"
proof -
  from assms(1,2) obtain x ds where x: "pieces_ok ds" "x \<noteq> []" "length x = currentChunkSize r - currentChunkRead r"
    "body = x @ concat ds" "wire c = x @ crlf @ chunks ds @ rest"
    by (auto simp: chunked_delivers_def)
  from chunked_data_ok [OF assms(3) x(5,2,3) assms(4)] obtain n c' where n: "0 < n" "n \<le> len" "n \<le> length x"
    "stream_wf (peer c')"
    "chunked_data len r c = Inr (take n x,
      (if n = length x then r\<lparr>currentChunkRead := currentChunkRead r + n, chunked_state := ReadSize\<rparr>
       else r\<lparr>currentChunkRead := currentChunkRead r + n\<rparr>), c')"
    "wire c' = (if n = length x then chunks ds @ rest else drop n x @ crlf @ chunks ds @ rest)" by blast
  define r' where "r' = (if n = length x then r\<lparr>currentChunkRead := currentChunkRead r + n, chunked_state := ReadSize\<rparr>
       else r\<lparr>currentChunkRead := currentChunkRead r + n\<rparr>)"
  have "chunked_delivers r' (wire c') (drop n x @ concat ds) rest"
  proof (cases "n = length x")
    case True
    then show ?thesis using n(6) x(1) by (auto simp: chunked_delivers_def r'_def)
  next
    case False
    have "drop n x \<noteq> []" using False n(3) by simp
    moreover have "length (drop n x) = currentChunkSize r' - currentChunkRead r'" using x(3) False by (simp add: r'_def)
    moreover have "chunked_state r' = ReadData" using assms(1) False by (simp add: r'_def)
    ultimately show ?thesis using n(6) x(1) False
      by (auto simp: chunked_delivers_def intro!: exI [of _ "drop n x"] exI [of _ ds])
  qed
  moreover have "body = take n x @ drop n x @ concat ds" using x(4) by simp
  moreover have "take n x \<noteq> []" using n(1) x(2) by simp
  ultimately show ?thesis using n(2,4,5) by (auto simp: r'_def [symmetric])
qed

lemma chunked_parse:
  assumes "chunked_state r = ReadSize" "chunked_delivers r (wire c) body rest" "stream_wf (peer c)"
  shows "\<exists>r' c'. parseChunkSize r c = Inr (r', c') \<and> stream_wf (peer c') \<and> chunked_delivers r' (wire c') body rest \<and>
    chunked_state r' \<noteq> ReadSize"
proof -
  from assms(1,2) obtain ds where ds: "pieces_ok ds" "body = concat ds" "wire c = chunks ds @ rest"
    by (auto simp: chunked_delivers_def)
  show ?thesis
  proof (cases ds)
    case Nil
    then have "wire c = ''0'' @ crlf @ (crlf @ rest)" using ds(3) by (simp add: chunks_def last_chunk_def)
    moreover have "stoul 16 ''0'' = Inr 0" by (simp add: num_defs isspace_def)
    ultimately obtain c' where c': "stream_wf (peer c')" "wire c' = crlf @ rest"
      "parseChunkSize r c = (case skipTrailer 0 c' of Inl e \<Rightarrow> Inl e
         | Inr c'' \<Rightarrow> Inr (r\<lparr>currentChunkSize := 0, currentChunkRead := 0, chunked_state := Complete\<rparr>, c''))"
      using parseChunkSize_line [of "''0''" 0 c "crlf @ rest" r] assms(3) by (auto simp: Let_def)
    with skipTrailer_end [OF c'(1,2), of 0] ds(2) Nil show ?thesis by (auto simp: chunked_delivers_def)
  next
    case (Cons d ds')
    then have d: "d \<noteq> []" "length d < 2 ^ 64" and ds': "pieces_ok ds'" using ds(1) by (auto simp: pieces_ok_def)
    have "wire c = to_hex (length d) @ crlf @ (d @ crlf @ chunks ds' @ rest)"
      using ds(3) Cons by (simp add: chunks_def chunk_def)
    from parseChunkSize_line [OF to_hex_no_cr _ stoul_to_hex [OF d(2)] assms(3) this, of r] to_hex_length [OF d(2)]
    obtain c' where c': "stream_wf (peer c')" "wire c' = d @ crlf @ chunks ds' @ rest"
      "parseChunkSize r c = Inr (r\<lparr>currentChunkSize := length d, currentChunkRead := 0, chunked_state := ReadData\<rparr>, c')"
      using d(1) by (auto simp: Let_def)
    then show ?thesis using d ds' ds(2) Cons by (auto simp: chunked_delivers_def)
  qed
qed

lemma chunked_step:
  assumes "chunked_delivers r (wire c) body rest" "stream_wf (peer c)" "0 < len" "chunked_state r \<noteq> Complete"
  shows "\<exists>d r' c' body'. chunked_readImpl len r c = Inr (d, r', c') \<and> length d \<le> len \<and> body = d @ body' \<and>
    chunked_delivers r' (wire c') body' rest \<and> stream_wf (peer c') \<and> (d = [] \<longrightarrow> chunked_state r' = Complete)"
proof (cases "chunked_state r")
  case ReadSize
  from chunked_parse [OF this assms(1,2)] obtain r1 c1 where r1: "parseChunkSize r c = Inr (r1, c1)"
    "stream_wf (peer c1)" "chunked_delivers r1 (wire c1) body rest" "chunked_state r1 \<noteq> ReadSize" by blast
  show ?thesis
  proof (cases "chunked_state r1")
    case ReadData
    from chunked_step_data [OF this r1(3,2) assms(3)] ReadSize r1 this show ?thesis
      by (fastforce simp: chunked_readImpl_def)
  next
    case Complete
    with ReadSize r1 show ?thesis by (auto simp: chunked_readImpl_def)
  qed (use r1 in simp)
next
  case ReadData
  from chunked_step_data [OF this assms(1-3)] this show ?thesis by (fastforce simp: chunked_readImpl_def)
qed (use assms in simp)

interpretation chunked: body_source chunked_readImpl "\<lambda>r. chunked_state r = Complete" chunked_delivers
  by unfold_locales (use chunked_step in \<open>blast, simp add: chunked_delivers_def\<close>)

text \<open>The reader behind the \<^verbatim>\<open>BodyReader\<close> interface.\<close>

fun impl_delivers :: "reader_impl \<Rightarrow> string \<Rightarrow> string \<Rightarrow> string \<Rightarrow> bool" where
  "impl_delivers NoopReader w body rest \<longleftrightarrow> body = [] \<and> w = rest"
| "impl_delivers (ContentLengthReader r) w body rest \<longleftrightarrow> content_length_delivers r w body rest"
| "impl_delivers (ChunkedReader r) w body rest \<longleftrightarrow> chunked_delivers r w body rest"
| "impl_delivers (UntilCloseReader r) w body rest \<longleftrightarrow> until_close_delivers r w body rest"

interpretation reader: body_source readImpl isComplete impl_delivers
proof unfold_locales
  fix r c body rest and len :: nat
  assume *: "impl_delivers r (wire c) body rest" "stream_wf (peer c)" "0 < len" "\<not> isComplete r"
  show "\<exists>d r' c' body'. readImpl len r c = Inr (d, r', c') \<and> length d \<le> len \<and> body = d @ body' \<and>
      impl_delivers r' (wire c') body' rest \<and> stream_wf (peer c') \<and> (d = [] \<longrightarrow> isComplete r')"
  proof (cases r)
    case (ContentLengthReader x)
    with * content_length.step [of x c body rest len] show ?thesis by fastforce
  next
    case (ChunkedReader x)
    with * chunked.step [of x c body rest len] show ?thesis by fastforce
  next
    case (UntilCloseReader x)
    with * until_close.step [of x c body rest len] show ?thesis by fastforce
  qed (use * in simp)
next
  fix r w body rest
  assume "impl_delivers r w body rest" "isComplete r"
  then show "body = [] \<and> w = rest"
    by (cases r) (auto dest: content_length.complete_end chunked.complete_end until_close.complete_end)
qed

lemma drain_loop_delivers:
  "impl_delivers r (wire c) body rest \<Longrightarrow> stream_wf (peer c) \<Longrightarrow>
   \<exists>r' c'. drain_loop r c = Inr (r', c') \<and> isComplete r' \<and> wire c' = rest \<and> stream_wf (peer c')"
proof (induction r c arbitrary: body rule: drain_loop.induct)
  case (1 r c)
  show ?case
  proof (cases "isComplete r")
    case True
    with 1 reader.complete_end show ?thesis by (auto simp: drain_loop.simps)
  next
    case False
    from reader.step [OF 1(2,3) _ False, of 4096] obtain d r' c' body' where
      d: "readImpl 4096 r c = Inr (d, r', c')" "impl_delivers r' (wire c') body' rest" "stream_wf (peer c')"
         "d = [] \<longrightarrow> isComplete r'" by auto
    show ?thesis
    proof (cases "d = []")
      case True
      with d reader.complete_end False show ?thesis by (auto simp: drain_loop.simps [of r c])
    next
      case ne: False
      from 1(1) [OF False d(1) refl refl ne d(2,3)] d(1) False ne show ?thesis
        by (simp add: drain_loop.simps [of r c])
    qed
  qed
qed

lemma readToEnd_delivers:
  "impl_delivers (reader_impl b) (wire c) body rest \<Longrightarrow> stream_wf (peer c) \<Longrightarrow> \<not> draining b \<Longrightarrow> sb_inv buf \<Longrightarrow>
   \<exists>buf' b' c'. readToEnd buf n b c = Inr (n + length body, buf', b', c') \<and> sb_inv buf' \<and> view buf' = view buf @ body \<and>
     isComplete (reader_impl b') \<and> wire c' = rest \<and> stream_wf (peer c')"
proof (induction buf n b c arbitrary: body rule: readToEnd.induct)
  case (1 buf n b c)
  show ?case
  proof (cases "isComplete (reader_impl b)")
    case True
    with 1 reader.complete_end show ?thesis by (auto simp: readToEnd.simps)
  next
    case False
    define buf1 where "buf1 = (if writableSize buf < kExtendThreshold then prepareWrite kExtendSize buf else buf)"
    define avail where "avail = (if writableSize buf < kExtendThreshold then kExtendSize else writableSize buf)"
    have buf1: "sb_inv buf1" "view buf1 = view buf" "avail \<le> writableSize buf1" "0 < avail"
      using 1(5) prepareWrite_facts [OF 1(5), of kExtendSize]
      by (auto simp: buf1_def avail_def kExtendSize_def kExtendThreshold_def)
    from reader.step [OF 1(2,3) buf1(4) False] obtain d r' c' body' where
      d: "readImpl avail (reader_impl b) c = Inr (d, r', c')" "length d \<le> avail" "body = d @ body'"
         "impl_delivers r' (wire c') body' rest" "stream_wf (peer c')" "d = [] \<longrightarrow> isComplete r'" by auto
    then have read: "body_read avail b c = Inr (d, b\<lparr>reader_impl := r'\<rparr>, c')"
      using False 1(4) by (simp add: body_read_def)
    have unfold: "readToEnd buf n b c =
        (if d = [] then Inr (n, buf1, b\<lparr>reader_impl := r'\<rparr>, c')
         else readToEnd (commitWrite (length d) (store d buf1)) (n + length d) (b\<lparr>reader_impl := r'\<rparr>) c')"
      using False read by (subst readToEnd.simps) (simp add: Let_def buf1_def avail_def split: if_splits)
    show ?thesis
    proof (cases "d = []")
      case True
      with unfold d buf1 reader.complete_end show ?thesis by auto
    next
      case ne: False
      have st: "sb_inv (commitWrite (length d) (store d buf1))" "view (commitWrite (length d) (store d buf1)) = view buf @ d"
        using store_commit_facts [OF buf1(1), of d] buf1(2,3) d(2) by simp_all
      have pair: "(buf1, avail) =
          (if writableSize buf < kExtendThreshold then (prepareWrite kExtendSize buf, kExtendSize) else (buf, writableSize buf))"
        by (simp add: buf1_def avail_def)
      have "\<not> draining (b\<lparr>reader_impl := r'\<rparr>)" "impl_delivers (reader_impl (b\<lparr>reader_impl := r'\<rparr>)) (wire c') body' rest"
        using 1(4) d(4) by simp_all
      with 1(1) [OF False refl refl pair read refl refl ne _ d(5) _ st(1), of body'] st(2) d(3) unfold ne
      show ?thesis by (simp add: add.assoc)
    qed
  qed
qed


section \<open>What a writer sends\<close>

definition write_body :: "body_writer \<Rightarrow> string list \<Rightarrow> stream \<Rightarrow> stream" where
  "write_body w ds s =
     (let (w, s) = fold (\<lambda>d (w, s). writer_write d w s) ds (w, s) in writer_end w s)"

definition sent_bytes :: "stream \<Rightarrow> string" where
  "sent_bytes s = concat (sent s)"

definition empty_stream :: stream where
  "empty_stream = \<lparr>incoming = [], fails = False, sent = [], closed = False\<rparr>"

lemma empty_stream_simps [simp]: "sent empty_stream = []" "sent_bytes empty_stream = []"
  by (simp_all add: empty_stream_def sent_bytes_def)

lemma sent_bytes_write [simp]: "sent_bytes (stream_write d s) = sent_bytes s @ d"
  by (simp add: sent_bytes_def stream_write_def)

lemma fold_chunked:
  "\<exists>s'. fold (\<lambda>d (w, s). writer_write d w s) ds (ChunkedWriter, s) = (ChunkedWriter, s') \<and>
     sent_bytes s' = sent_bytes s @ concat (map chunk (filter (\<lambda>d. d \<noteq> []) ds))"
proof (induction ds arbitrary: s)
  case (Cons d ds)
  then show ?case using Cons [of "if d = [] then s else stream_write (chunk d) s"] by (cases "d = []") auto
qed simp

lemma fold_until_close:
  "\<exists>s'. fold (\<lambda>d (w, s). writer_write d w s) ds (UntilCloseWriter, s) = (UntilCloseWriter, s') \<and>
     sent_bytes s' = sent_bytes s @ concat ds"
proof (induction ds arbitrary: s)
  case (Cons d ds)
  then show ?case using Cons [of "stream_write d s"] by auto
qed simp

lemma fold_content_length:
  "\<exists>s'. fold (\<lambda>d (w, s). writer_write d w s) ds (ContentLengthWriter n k, s) =
     (ContentLengthWriter n (k + length (concat ds)), s') \<and> sent_bytes s' = sent_bytes s @ concat ds"
proof (induction ds arbitrary: s k)
  case (Cons d ds)
  then show ?case using Cons [of "k + length d" "stream_write d s"] by (auto simp: add.assoc)
qed simp

lemma concat_filter_nonempty: "concat (filter (\<lambda>d. d \<noteq> []) ds) = concat ds"
  by (induction ds) auto

lemma write_body_sent:
  "sent_bytes (write_body (writer_create mode n) ds s) = sent_bytes s @
     (if mode = Chunked then chunks (filter (\<lambda>d. d \<noteq> []) ds) else concat ds)"
  using fold_chunked [of ds s] fold_until_close [of ds s] fold_content_length [of ds n 0 s]
  by (cases mode) (auto simp: write_body_def writer_create_def chunks_def last_chunk_def)

lemma reader_create_delivers:
  assumes "mode = UntilClose \<longrightarrow> rest = []" "\<forall>d \<in> set ds. length d < 2 ^ 64"
  shows "impl_delivers (reader_impl (reader_create mode (length (concat ds))))
    ((if mode = Chunked then chunks (filter (\<lambda>d. d \<noteq> []) ds) else concat ds) @ rest) (concat ds) rest"
proof (cases mode)
  case Chunked
  have "pieces_ok (filter (\<lambda>d. d \<noteq> []) ds)" using assms(2) by (auto simp: pieces_ok_def)
  with Chunked show ?thesis
    using concat_filter_nonempty [of ds]
    by (auto simp: reader_create_def chunked_init_def chunked_delivers_def intro!: exI [of _ "filter (\<lambda>d. d \<noteq> []) ds"])
qed (use assms in \<open>auto simp: reader_create_def content_length_delivers_def until_close_delivers_def\<close>)


lemma complete_body_delivers:
  assumes "impl_delivers (reader_impl b) (wire c) body rest" "stream_wf (peer c)" "\<not> draining b"
  shows "\<exists>b' c'. complete_body b c = Inr (body, b', c') \<and> isComplete (reader_impl b') \<and> wire c' = rest"
proof -
  from readToEnd_delivers [OF assms sb.invar_empty, of 0] obtain buf' b' c' where
    r: "readToEnd sb_empty 0 b c = Inr (0 + length body, buf', b', c')"
      "sb_inv buf'" "view buf' = view sb_empty @ body" "isComplete (reader_impl b')" "wire c' = rest"
    by auto
  then show ?thesis using sb_extract_view [OF r(2)] by (simp add: complete_body_def sb.contents_empty)
qed


section \<open>Bodies that are cut short\<close>

lemma min_zero: "min a b = (0::nat) \<longleftrightarrow> a = 0 \<or> b = 0"
  by (auto simp: min_def)

fun impl_inv :: "reader_impl \<Rightarrow> bool" where
  "impl_inv (ChunkedReader r) \<longleftrightarrow> (chunked_state r = ReadData \<longrightarrow> currentChunkRead r < currentChunkSize r)"
| "impl_inv _ \<longleftrightarrow> True"

lemma finish_chunk_inv:
  "finish_chunk r c = Inr (r', c') \<Longrightarrow> chunked_state r = ReadData \<Longrightarrow> impl_inv (ChunkedReader r')"
  by (auto simp: finish_chunk_def split: if_splits sum.splits)

lemma chunked_data_inv:
  assumes "chunked_data len r c = Inr (bs, r', c')" "chunked_state r = ReadData" "currentChunkRead r < currentChunkSize r" "0 < len"
  shows "impl_inv (ChunkedReader r') \<and> bs \<noteq> []"
  using assms
  by (auto simp: chunked_data_def Let_def min_zero split: if_splits sum.splits prod.splits dest!: finish_chunk_inv)

lemma parseChunkSize_inv:
  "parseChunkSize r c = Inr (r', c') \<Longrightarrow>
   chunked_state r' = Complete \<or> chunked_state r' = ReadData \<and> currentChunkRead r' < currentChunkSize r'"
proof (induction r c rule: parseChunkSize.induct)
  case (1 r c)
  show ?case
  proof (cases "find_sub crlf (buffer c)")
    case None
    with 1 show ?thesis by (subst (asm) (2) parseChunkSize.simps) (auto split: if_splits sum.splits)
  next
    case (Some pos)
    with 1(2) show ?thesis
      by (subst (asm) parseChunkSize.simps) (auto simp: Let_def split: if_splits sum.splits)
  qed
qed

lemma readImpl_inv:
  assumes "readImpl len r c = Inr (bs, r', c')" "impl_inv r" "0 < len" "\<not> isComplete r"
  shows "impl_inv r' \<and> (bs = [] \<longrightarrow> isComplete r')"
proof (cases r)
  case (ChunkedReader x)
  then obtain x' where x: "chunked_readImpl len x c = Inr (bs, x', c')" "r' = ChunkedReader x'"
    using assms(1) by (auto simp: map_sum_def split: sum.splits)
  show ?thesis
  proof (cases "chunked_state x")
    case ReadSize
    with x assms(3) show ?thesis
      by (auto simp: chunked_readImpl_def split: if_splits sum.splits prod.splits
          dest!: parseChunkSize_inv dest: chunked_data_inv)
  next
    case ReadData
    with x assms(2,3) ChunkedReader show ?thesis by (auto simp: chunked_readImpl_def dest: chunked_data_inv)
  qed (use assms(4) ChunkedReader in simp)
next
  case (ContentLengthReader x)
  with assms show ?thesis
    by (auto simp: map_sum_def content_length_readImpl_def Let_def min_zero split: sum.splits if_splits prod.splits)
next
  case (UntilCloseReader x)
  with assms show ?thesis
    by (auto simp: map_sum_def until_close_readImpl_def Let_def min_zero split: sum.splits if_splits prod.splits)
qed (use assms in simp)

fun bytes_left :: "reader_impl \<Rightarrow> nat option" where
  "bytes_left NoopReader = Some 0"
| "bytes_left (ContentLengthReader r) = Some (contentLength r - bytesRead r)"
| "bytes_left _ = None"

lemma readImpl_bytes_left:
  assumes "readImpl len r c = Inr (bs, r', c')" "bytes_left r = Some k"
  shows "bytes_left r' = Some (k - length bs) \<and> length bs \<le> k"
proof (cases r)
  case (ContentLengthReader x)
  with assms show ?thesis
    by (auto simp: map_sum_def content_length_readImpl_def Let_def stream_read_def
        split: sum.splits if_splits prod.splits list.splits)
qed (use assms in auto)

lemma readImpl_length: "readImpl len r c = Inr (bs, r', c') \<Longrightarrow> length bs \<le> len"
proof -
  have data: "chunked_data len r c = Inr (bs, r', c') \<Longrightarrow> length bs \<le> len" for r r' c
    by (auto simp: chunked_data_def Let_def stream_read_def split: if_splits sum.splits prod.splits list.splits)
  assume "readImpl len r c = Inr (bs, r', c')"
  then show ?thesis
    by (cases r)
       (auto simp: map_sum_def content_length_readImpl_def until_close_readImpl_def chunked_readImpl_def Let_def
         stream_read_def split: sum.splits if_splits prod.splits list.splits dest: data)
qed

text \<open>A run of \<^verbatim>\<open>readToEnd\<close> that returns has reached the end of the body.\<close>

lemma readToEnd_complete:
  "readToEnd buf n b c = Inr (m, buf', b', c') \<Longrightarrow> impl_inv (reader_impl b) \<Longrightarrow> \<not> draining b \<Longrightarrow> sb_inv buf \<Longrightarrow>
   isComplete (reader_impl b') \<and> sb_inv buf' \<and> took c [] c' \<and>
   (\<forall>k. bytes_left (reader_impl b) = Some k \<longrightarrow> length (view buf') = length (view buf) + k)"
proof (induction buf n b c rule: readToEnd.induct)
  case (1 buf n b c)
  show ?case
  proof (cases "isComplete (reader_impl b)")
    case True
    have "bytes_left (reader_impl b) = Some k \<Longrightarrow> k = 0" for k using True by (cases "reader_impl b") auto
    with True 1 show ?thesis by (auto simp: readToEnd.simps)
  next
    case False
    define buf1 where "buf1 = (if writableSize buf < kExtendThreshold then prepareWrite kExtendSize buf else buf)"
    define avail where "avail = (if writableSize buf < kExtendThreshold then kExtendSize else writableSize buf)"
    have buf1: "sb_inv buf1" "view buf1 = view buf" "avail \<le> writableSize buf1" "0 < avail"
      using 1(5) prepareWrite_facts [OF 1(5), of kExtendSize]
      by (auto simp: buf1_def avail_def kExtendSize_def kExtendThreshold_def)
    from 1(2) False obtain d r1 c1 where d: "readImpl avail (reader_impl b) c = Inr (d, r1, c1)"
      using 1(4) by (subst (asm) readToEnd.simps)
        (auto simp: Let_def body_read_def buf1_def avail_def map_sum_def split: if_splits sum.splits)
    then have read: "body_read avail b c = Inr (d, b\<lparr>reader_impl := r1\<rparr>, c1)"
      using False 1(4) by (simp add: body_read_def)
    have unfold: "readToEnd buf n b c =
        (if d = [] then Inr (n, buf1, b\<lparr>reader_impl := r1\<rparr>, c1)
         else readToEnd (commitWrite (length d) (store d buf1)) (n + length d) (b\<lparr>reader_impl := r1\<rparr>) c1)"
      using False read by (subst readToEnd.simps) (simp add: Let_def buf1_def avail_def split: if_splits)
    note inv = readImpl_inv [OF d 1(3) buf1(4) False] and left = readImpl_bytes_left [OF d] and took = took_readImpl [OF d]
    show ?thesis
    proof (cases "d = []")
      case True
      then have "bytes_left (reader_impl b) = Some k \<Longrightarrow> k = 0" for k
        using inv left [of k] by (cases r1) auto
      with True unfold 1(2) inv buf1 took show ?thesis by auto
    next
      case ne: False
      have st: "sb_inv (commitWrite (length d) (store d buf1))" "view (commitWrite (length d) (store d buf1)) = view buf @ d"
        using store_commit_facts [OF buf1(1), of d] buf1(2,3) readImpl_length [OF d] by simp_all
      have pair: "(buf1, avail) =
          (if writableSize buf < kExtendThreshold then (prepareWrite kExtendSize buf, kExtendSize) else (buf, writableSize buf))"
        by (simp add: buf1_def avail_def)
      have "readToEnd (commitWrite (length d) (store d buf1)) (n + length d) (b\<lparr>reader_impl := r1\<rparr>) c1 = Inr (m, buf', b', c')"
        using unfold ne 1(2) by simp
      from 1(1) [OF False refl refl pair read refl refl ne this _ _ st(1)] inv 1(4) st(2) left took_weaken [OF took]
      show ?thesis by (auto intro: took_trans)
    qed
  qed
qed


section \<open>Properties\<close>

text \<open>
  C7. Every body arrives as it was sent.  Whatever pieces a body is written in (with chunked
  transfer, with a content length, or until the connection closes), however the bytes are cut
  into network segments and however much of them was already buffered when the head was
  parsed: the receiver collects exactly the concatenation of the pieces, reaches the end of
  the body, and leaves exactly the bytes behind it, the next pipelined message, for the next
  read.
\<close>

theorem body_round_trip:
  assumes "wire c = sent_bytes (write_body (writer_create mode (length (concat ds))) ds s) @ rest" "sent s = []"
    and "stream_wf (peer c)" "mode = UntilClose \<longrightarrow> rest = []" "\<forall>d \<in> set ds. length d < 2 ^ 64"
  shows "\<exists>b' c'. complete_body (reader_create mode (length (concat ds))) c = Inr (concat ds, b', c') \<and>
    isComplete (reader_impl b') \<and> wire c' = rest"
proof -
  have "wire c = (if mode = Chunked then chunks (filter (\<lambda>d. d \<noteq> []) ds) else concat ds) @ rest"
    using assms(1,2) by (simp add: write_body_sent sent_bytes_def [of s])
  then have "impl_delivers (reader_impl (reader_create mode (length (concat ds)))) (wire c) (concat ds) rest"
    using reader_create_delivers [OF assms(4,5)] by simp
  then show ?thesis using assms(3) by (intro complete_body_delivers) (simp_all add: reader_create_def)
qed

theorem body_round_trip_witness:
  "\<exists>b' c'. complete_body (reader_create Chunked 5)
     \<lparr>buffer = ''2'' @ crlf @ ''he'' @ [CHR 0x0D],
      peer = \<lparr>incoming = [CHR 0x0A # ''3'' @ crlf, ''llo'' @ crlf @ ''0'' @ crlf, crlf @ ''GET''],
               fails = False, sent = [], closed = False\<rparr>\<rparr> = Inr (''hello'', b', c') \<and>
     isComplete (reader_impl b') \<and> wire c' = ''GET''"
proof -
  have hex: "to_hex (Suc (Suc 0)) = ''2''" "to_hex (Suc (Suc (Suc 0))) = ''3''"
    by (simp_all add: show_base.simps digit_char_def char_eval)
  have ds: "concat [''he'', [], ''llo''] = ''hello''" "length ''hello'' = 5" by simp_all
  show ?thesis
    by (rule body_round_trip [where ds = "[''he'', [], ''llo'']" and s = empty_stream, unfolded ds])
       (simp_all add: write_body_sent chunks_def last_chunk_def chunk_def hex wire_def to_come_def stream_wf_def crlf_def)
qed

text \<open>
  Skipping a body that the handler did not read (\<^verbatim>\<open>drain\<close>) leaves the connection exactly
  behind it: the next request is parsed from its first byte, and later reads of the drained
  body return nothing.
\<close>

theorem drain_reaches_next_message:
  assumes "wire c = sent_bytes (write_body (writer_create mode (length (concat ds))) ds s) @ rest" "sent s = []"
    and "stream_wf (peer c)" "mode = UntilClose \<longrightarrow> rest = []" "\<forall>d \<in> set ds. length d < 2 ^ 64"
  shows "\<exists>b' c'. drain (reader_create mode (length (concat ds))) c = Inr (b', c') \<and> wire c' = rest \<and>
    (\<forall>len. body_read len b' c' = Inr ([], b', c'))"
proof -
  have "wire c = (if mode = Chunked then chunks (filter (\<lambda>d. d \<noteq> []) ds) else concat ds) @ rest"
    using assms(1,2) by (simp add: write_body_sent sent_bytes_def [of s])
  then have "impl_delivers (reader_impl (reader_create mode (length (concat ds)))) (wire c) (concat ds) rest"
    using reader_create_delivers [OF assms(4,5)] by simp
  from drain_loop_delivers [OF this assms(3)] show ?thesis by (auto simp: drain_def body_read_def)
qed

theorem drain_reaches_next_message_witness:
  "\<exists>b' c'. drain (reader_create ContentLength 5)
     \<lparr>buffer = ''hel'', peer = \<lparr>incoming = [''lo'', ''GET''], fails = False, sent = [], closed = False\<rparr>\<rparr> = Inr (b', c') \<and>
     wire c' = ''GET'' \<and> (\<forall>len. body_read len b' c' = Inr ([], b', c'))"
proof -
  have ds: "concat [''hello''] = ''hello''" "length ''hello'' = 5" by simp_all
  show ?thesis
    by (rule drain_reaches_next_message [where ds = "[''hello'']" and s = empty_stream, unfolded ds])
       (simp_all add: write_body_sent wire_def to_come_def stream_wf_def)
qed

text \<open>
  C25. A body that is cut short is never taken for a complete one.  Whatever arrives, well
  formed or not, and whether or not the connection breaks: if collecting the body returns at
  all, its end was reached (the last chunk, the announced length or the end of the stream);
  a body with a content length then has exactly that many bytes; and only bytes from the
  front of the wire were taken.  Every other outcome is an error.
\<close>

theorem body_never_truncated:
  assumes "complete_body (reader_create mode n) c = Inr (body, b', c')"
  shows "isComplete (reader_impl b') \<and> (mode = ContentLength \<longrightarrow> length body = n) \<and>
    (\<exists>skipped. wire c = skipped @ wire c')"
proof -
  from assms obtain m buf' where r: "readToEnd sb_empty 0 (reader_create mode n) c = Inr (m, buf', b', c')"
    "body = fst (sb_extract buf')" by (auto simp: complete_body_def split: sum.splits prod.splits)
  have "impl_inv (reader_impl (reader_create mode n))"
    by (cases mode) (simp_all add: reader_create_def chunked_init_def)
  from readToEnd_complete [OF r(1) this _ sb.invar_empty]
  have *: "isComplete (reader_impl b')" "sb_inv buf'" "took c [] c'"
    "\<forall>k. bytes_left (reader_impl (reader_create mode n)) = Some k \<longrightarrow> length (view buf') = length (view sb_empty) + k"
    by (auto simp: reader_create_def)
  moreover have "body = view buf'" using r(2) sb_extract_view [OF *(2)] by simp
  moreover have "bytes_left (reader_impl (reader_create ContentLength n)) = Some n" by (simp add: reader_create_def)
  ultimately show ?thesis by (auto simp: took_def sb.contents_empty)
qed

theorem body_never_truncated_witness:
  "\<exists>body b' c'. complete_body (reader_create ContentLength 2)
     \<lparr>buffer = ''abc'', peer = \<lparr>incoming = [], fails = True, sent = [], closed = False\<rparr>\<rparr> = Inr (body, b', c') \<and> length body = 2"
proof -
  let ?c = "\<lparr>buffer = ''abc'', peer = \<lparr>incoming = [], fails = True, sent = [], closed = False\<rparr>\<rparr>"
  have "\<exists>body b' c'. complete_body (reader_create ContentLength 2) ?c = Inr (body, b', c')"
    by (simp add: complete_body_def readToEnd.simps reader_create_def body_read_def content_length_readImpl_def
        writableSize_def sb_empty_def kExtendThreshold_def kExtendSize_def Let_def)
  then obtain body b' c' where "complete_body (reader_create ContentLength 2) ?c = Inr (body, b', c')" by blast
  moreover from body_never_truncated [OF this] have "length body = 2" by simp
  ultimately show ?thesis by blast
qed

text \<open>
  The separator after the data of a chunk is skipped without being looked at: any two bytes
  are accepted in its place.
\<close>

theorem chunk_separator_not_checked:
  "skipCRLF \<lparr>buffer = a # b # rest, peer = s\<rparr> = Inr \<lparr>buffer = rest, peer = s\<rparr>"
  by (simp add: skipCRLF.simps conn_consume_def)

text \<open>
  A chunk size with a minus sign is accepted and wraps around: the size line \<^verbatim>\<open>-1\<close> announces a
  chunk of \<open>2 ^ 64 - 1\<close> bytes.
\<close>

theorem negative_chunk_size_wraps:
  "\<exists>c'. parseChunkSize chunked_init \<lparr>buffer = ''-1'' @ crlf @ rest, peer = s\<rparr> =
     Inr (\<lparr>chunked_state = ReadData, currentChunkSize = 2 ^ 64 - 1, currentChunkRead = 0\<rparr>, c')"
proof -
  have "find_sub crlf (''-1'' @ crlf @ rest) = Some 2" using find_crlf [of "''-1''" rest] by simp
  moreover have "stoul 16 ''-1'' = Inr (2 ^ 64 - 1)" by (simp add: num_defs isspace_def)
  ultimately show ?thesis by (simp add: parseChunkSize.simps chunked_init_def Let_def)
qed

end
