(* ===== verification/Http_Outgoing.thy ===== *)
theory Http_Outgoing
  imports Prelude Byte_Stream Http_Header Cookie Http_Message Http_Parser Http_Body
begin

text \<open>
  Writing requests and responses (\<^verbatim>\<open>include/nitrocoro/http/stream/HttpOutgoingStream.h\<close> and
  \<^verbatim>\<open>src/HttpOutgoingStream.cc\<close> of \<^verbatim>\<open>extensions/http\<close>).

  The class template over the message type becomes a record over the union \<open>out_message\<close>; the
  branches of \<^verbatim>\<open>if constexpr\<close> become the cases of that union.  The text of the \<^verbatim>\<open>Date\<close> header
  comes from the clock and is the parameter \<open>date\<close>; \<open>reg\<close> is the registry of methods.

  A response waits for the response before it: \<open>prevFuture\<close> is absent, or says whether the
  future resolved with a value or was broken.  The operations describe the call from the
  moment that future is resolved; a broken one makes them throw.
\<close>

section \<open>Messages under construction\<close>

datatype out_message = Out_request http_request | Out_response http_response

fun out_headers :: "out_message \<Rightarrow> header_map" where
  "out_headers (Out_request r) = req_headers r"
| "out_headers (Out_response r) = resp_headers r"

fun out_headers_update :: "(header_map \<Rightarrow> header_map) \<Rightarrow> out_message \<Rightarrow> out_message" where
  "out_headers_update f (Out_request r) = Out_request (r\<lparr>req_headers := f (req_headers r)\<rparr>)"
| "out_headers_update f (Out_response r) = Out_response (r\<lparr>resp_headers := f (resp_headers r)\<rparr>)"

record outgoing =
  out_data :: out_message
  headersSent :: bool
  out_transferMode :: transfer_mode
  bodyWriter :: "body_writer option"
  finished :: bool
  prevFuture :: "bool option"
  ignoreBody :: bool
  sendDateHeader :: bool
  bodyLength :: nat

definition outgoing_init :: "out_message \<Rightarrow> bool option \<Rightarrow> bool \<Rightarrow> bool \<Rightarrow> outgoing" where
  "outgoing_init m prev ignore send_date =
     \<lparr>out_data = m, headersSent = False, out_transferMode = Chunked, bodyWriter = None, finished = False,
      prevFuture = prev, ignoreBody = ignore, sendDateHeader = send_date, bodyLength = 0\<rparr>"

definition outgoing_request :: "bool option \<Rightarrow> outgoing" where
  "outgoing_request prev = outgoing_init (Out_request request_default) prev False True"

definition outgoing_response :: "bool option \<Rightarrow> bool \<Rightarrow> bool \<Rightarrow> outgoing" where
  "outgoing_response prev ignore send_date = outgoing_init (Out_response response_default) prev ignore send_date"

definition setHeader_object :: "http_header \<Rightarrow> outgoing \<Rightarrow> outgoing" where
  "setHeader_object h ob = ob\<lparr>out_data := out_headers_update (omap_assign (header_name h) h) (out_data ob)\<rparr>"

definition setHeader :: "string \<Rightarrow> string \<Rightarrow> outgoing \<Rightarrow> outgoing" where
  "setHeader nm v ob =
     (let header = httpHeader nm v
      in ob\<lparr>out_data := out_headers_update (omap_assign (header_name header) header) (out_data ob)\<rparr>)"

definition setHeader_code :: "name_code \<Rightarrow> string \<Rightarrow> outgoing \<Rightarrow> outgoing" where
  "setHeader_code code v ob =
     (let header = httpHeader_of_code code v
      in ob\<lparr>out_data := out_headers_update (omap_assign (header_name header) header) (out_data ob)\<rparr>)"


section \<open>Status codes\<close>

definition toVersionString :: "version \<Rightarrow> string" where
  "toVersionString v =
     (case v of KHttp10 \<Rightarrow> ''HTTP/1.0'' | KHttp11 \<Rightarrow> ''HTTP/1.1'' | KUnknown \<Rightarrow> ''UNKNOWN'')"

definition getDefaultReason :: "u16 \<Rightarrow> string" where
  "getDefaultReason code =
    (case map_of [
     (100, ''Continue''),
     (101, ''Switching Protocols''),
     (102, ''Processing''),
     (103, ''Early Hints''),
     (200, ''OK''),
     (201, ''Created''),
     (202, ''Accepted''),
     (203, ''Non-Authoritative Information''),
     (204, ''No Content''),
     (205, ''Reset Content''),
     (206, ''Partial Content''),
     (207, ''Multi-Status''),
     (208, ''Already Reported''),
     (226, ''IM Used''),
     (300, ''Multiple Choices''),
     (301, ''Moved Permanently''),
     (302, ''Found''),
     (303, ''See Other''),
     (304, ''Not Modified''),
     (305, ''Use Proxy''),
     (307, ''Temporary Redirect''),
     (308, ''Permanent Redirect''),
     (400, ''Bad Request''),
     (401, ''Unauthorized''),
     (402, ''Payment Required''),
     (403, ''Forbidden''),
     (404, ''Not Found''),
     (405, ''Method Not Allowed''),
     (406, ''Not Acceptable''),
     (407, ''Proxy Authentication Required''),
     (408, ''Request Timeout''),
     (409, ''Conflict''),
     (410, ''Gone''),
     (411, ''Length Required''),
     (412, ''Precondition Failed''),
     (413, ''Request Entity Too Large''),
     (414, ''Request-URI Too Large''),
     (415, ''Unsupported Media Type''),
     (416, ''Requested Range Not Satisfiable''),
     (417, ''Expectation Failed''),
     (418, CHR ''I'' # CHR 0x27 # ''m a teapot''),
     (421, ''Misdirected Request''),
     (422, ''Unprocessable Entity''),
     (423, ''Locked''),
     (424, ''Failed Dependency''),
     (425, ''Too Early''),
     (426, ''Upgrade Required''),
     (428, ''Precondition Required''),
     (429, ''Too Many Requests''),
     (431, ''Request Header Fields Too Large''),
     (451, ''Unavailable For Legal Reasons''),
     (500, ''Internal Server Error''),
     (501, ''Not Implemented''),
     (502, ''Bad Gateway''),
     (503, ''Service Unavailable''),
     (504, ''Gateway Timeout''),
     (505, ''HTTP Version Not Supported''),
     (506, ''Variant Also Negotiates''),
     (507, ''Insufficient Storage''),
     (508, ''Loop Detected''),
     (510, ''Not Extended''),
     (511, ''Network Authentication Required'')] (unat code) of
       Some reason \<Rightarrow> reason
     | None \<Rightarrow> [])"


section \<open>Setters of the two specialisations\<close>

fun on_request :: "(http_request \<Rightarrow> http_request) \<Rightarrow> outgoing \<Rightarrow> outgoing" where
  "on_request f ob = (case out_data ob of Out_request r \<Rightarrow> ob\<lparr>out_data := Out_request (f r)\<rparr> | Out_response _ \<Rightarrow> ob)"

fun on_response :: "(http_response \<Rightarrow> http_response) \<Rightarrow> outgoing \<Rightarrow> outgoing" where
  "on_response f ob = (case out_data ob of Out_response r \<Rightarrow> ob\<lparr>out_data := Out_response (f r)\<rparr> | Out_request _ \<Rightarrow> ob)"

definition setMethod :: "http_method \<Rightarrow> outgoing \<Rightarrow> outgoing" where
  "setMethod m = on_request (\<lambda>r. r\<lparr>req_method := m\<rparr>)"

definition setMethod_name :: "method_registry \<Rightarrow> string \<Rightarrow> outgoing \<Rightarrow> outgoing" where
  "setMethod_name reg m = on_request (\<lambda>r. r\<lparr>req_method := method_fromString reg m\<rparr>)"

definition setPath :: "string \<Rightarrow> outgoing \<Rightarrow> outgoing" where
  "setPath path = on_request (\<lambda>r. r\<lparr>req_path := path\<rparr>)"

definition setVersion_request :: "version \<Rightarrow> outgoing \<Rightarrow> outgoing" where
  "setVersion_request v = on_request (\<lambda>r. r\<lparr>req_version := v\<rparr>)"

definition setCookie :: "string \<Rightarrow> string \<Rightarrow> outgoing \<Rightarrow> outgoing" where
  "setCookie nm v = on_request (\<lambda>r. r\<lparr>req_cookies := omap_assign nm v (req_cookies r)\<rparr>)"

text \<open>The \<^verbatim>\<open>int\<close> is cut to the 16 bits of \<^verbatim>\<open>statusCode\<close> and of the parameter of \<^verbatim>\<open>getDefaultReason\<close>.\<close>

definition setStatus :: "int \<Rightarrow> string \<Rightarrow> outgoing \<Rightarrow> outgoing" where
  "setStatus code reason =
     on_response (\<lambda>r. r\<lparr>resp_statusCode := word_of_int code,
       resp_statusReason := (if reason = [] then getDefaultReason (word_of_int code) else reason)\<rparr>)"

definition setVersion_response :: "version \<Rightarrow> outgoing \<Rightarrow> outgoing" where
  "setVersion_response v = on_response (\<lambda>r. r\<lparr>resp_version := v\<rparr>)"

definition setCloseConnection :: "bool \<Rightarrow> outgoing \<Rightarrow> outgoing" where
  "setCloseConnection close = on_response (\<lambda>r. r\<lparr>resp_shouldClose := close\<rparr>)"

definition addCookie :: "cookie \<Rightarrow> outgoing \<Rightarrow> outgoing" where
  "addCookie c = on_response (\<lambda>r. r\<lparr>resp_cookies := resp_cookies r @ [c]\<rparr>)"


section \<open>The head\<close>

text \<open>
  Without a length the mode follows the headers that were set; \<^verbatim>\<open>std::stoull\<close> throws on a
  \<^verbatim>\<open>Content-Length\<close> that is no number.
\<close>

definition decideTransferMode :: "nat option \<Rightarrow> outgoing \<Rightarrow> io_error + outgoing" where
  "decideTransferMode lengthHint ob =
     (if bodyWriter ob \<noteq> None then Inr ob
      else case lengthHint of
        Some n \<Rightarrow>
          (let ob = setHeader_code NC_ContentLength (to_string n) ob
           in Inr (ob\<lparr>out_transferMode := ContentLength, bodyWriter := Some (writer_create ContentLength n)\<rparr>))
      | None \<Rightarrow>
          (case omap_find (out_headers (out_data ob)) ''content-length'' of
             Some h \<Rightarrow>
               (case stoul 10 (header_value h) of
                  Inl e \<Rightarrow> Inl (Number_error e)
                | Inr n \<Rightarrow>
                    Inr (ob\<lparr>out_transferMode := ContentLength, bodyWriter := Some (writer_create ContentLength n)\<rparr>))
           | None \<Rightarrow>
               if (case omap_find (out_headers (out_data ob)) ''transfer-encoding'' of
                     Some h \<Rightarrow> find_sub ''chunked'' (header_value h) \<noteq> None
                   | None \<Rightarrow> False)
               then Inr (ob\<lparr>out_transferMode := Chunked, bodyWriter := Some (writer_create Chunked 0)\<rparr>)
               else
                 (case out_data ob of
                    Out_response r \<Rightarrow>
                      if resp_version r = KHttp10 then
                        Inr (ob\<lparr>out_data := Out_response (r\<lparr>resp_shouldClose := True\<rparr>),
                               out_transferMode := UntilClose, bodyWriter := Some (writer_create UntilClose 0)\<rparr>)
                      else
                        Inr ((setHeader_code NC_TransferEncoding ''chunked'' ob)
                               \<lparr>out_transferMode := Chunked, bodyWriter := Some (writer_create Chunked 0)\<rparr>)
                  | Out_request _ \<Rightarrow>
                      Inr ((setHeader_code NC_TransferEncoding ''chunked'' ob)
                             \<lparr>out_transferMode := Chunked, bodyWriter := Some (writer_create Chunked 0)\<rparr>))))"

definition header_lines :: "header_map \<Rightarrow> string" where
  "header_lines hs = concat (map (\<lambda>(k, h). header_name h @ '': '' @ header_value h @ crlf) hs)"

fun cookie_items :: "bool \<Rightarrow> string omap \<Rightarrow> string" where
  "cookie_items first [] = []"
| "cookie_items first ((nm, v) # cs) =
     (if first then [] else ''; '') @ nm @ ''='' @ v @ cookie_items False cs"

definition buildHeaders_request :: "method_registry \<Rightarrow> http_request \<Rightarrow> string" where
  "buildHeaders_request reg r =
     method_toString reg (req_method r) @ '' '' @ req_path r @ '' '' @ toVersionString (req_version r) @ crlf @
     header_lines (req_headers r) @
     (if req_cookies r \<noteq> [] then ''Cookie: '' @ cookie_items True (req_cookies r) @ crlf else [])"

definition buildHeaders_response :: "string \<Rightarrow> bool \<Rightarrow> http_response \<Rightarrow> string" where
  "buildHeaders_response date send_date r =
     toVersionString (resp_version r) @ '' '' @ to_string (unat (resp_statusCode r)) @ '' '' @
     (if resp_statusReason r = [] then getDefaultReason (resp_statusCode r) else resp_statusReason r) @ crlf @
     header_lines (resp_headers r) @
     concat (map (\<lambda>c. ''Set-Cookie: '' @ cookie_toString c @ crlf) (resp_cookies r)) @
     (if send_date \<and> omap_find (resp_headers r) ''date'' = None then ''Date: '' @ date @ crlf else []) @
     (if omap_find (resp_headers r) ''connection'' = None then
        (if resp_shouldClose r then ''Connection: close'' @ crlf
         else if resp_version r = KHttp10 then ''Connection: keep-alive'' @ crlf
         else [])
      else [])"

definition buildHeaders :: "method_registry \<Rightarrow> string \<Rightarrow> outgoing \<Rightarrow> string" where
  "buildHeaders reg date ob =
     (case out_data ob of
        Out_request r \<Rightarrow> buildHeaders_request reg r
      | Out_response r \<Rightarrow> buildHeaders_response date (sendDateHeader ob) r)"

text \<open>\<^verbatim>\<open>prevFuture_->get()\<close>: nothing to wait for, a value, or the exception of a broken promise.\<close>

definition await_prev :: "outgoing \<Rightarrow> bool" where
  "await_prev ob \<longleftrightarrow> prevFuture ob \<noteq> Some False"

definition broken_promise :: io_error where
  "broken_promise = Runtime_error ''broken promise''"

definition writeHeaders :: "method_registry \<Rightarrow> string \<Rightarrow> outgoing \<Rightarrow> stream \<Rightarrow> io_error + outgoing \<times> stream" where
  "writeHeaders reg date ob s =
     (if headersSent ob then Inr (ob, s)
      else
        (let ob = ob\<lparr>headersSent := True\<rparr> in
         if await_prev ob then Inr (ob, stream_write (buildHeaders reg date ob @ crlf) s)
         else Inl broken_promise))"


section \<open>The body\<close>

definition bodyLength_add :: "nat \<Rightarrow> outgoing \<Rightarrow> outgoing" where
  "bodyLength_add n ob = ob\<lparr>bodyLength := (bodyLength ob + n) mod 2 ^ 64\<rparr>"

text \<open>
  A stream has a writer once the mode is decided (lemma \<open>decide_writer\<close>), so the case without
  one is not reached; a null writer would be dereferenced there.
\<close>

definition out_writer_write :: "string \<Rightarrow> outgoing \<Rightarrow> stream \<Rightarrow> outgoing \<times> stream" where
  "out_writer_write d ob s =
     (case bodyWriter ob of
        Some w \<Rightarrow> (let (w, s) = writer_write d w s in (ob\<lparr>bodyWriter := Some w\<rparr>, s))
      | None \<Rightarrow> (ob, s))"

definition out_writer_end :: "outgoing \<Rightarrow> stream \<Rightarrow> stream" where
  "out_writer_end ob s = (case bodyWriter ob of Some w \<Rightarrow> writer_end w s | None \<Rightarrow> s)"

text \<open>\<^verbatim>\<open>finishedPromise_.set_value()\<close> throws when the promise was already satisfied.\<close>

definition finish :: "outgoing \<Rightarrow> stream \<Rightarrow> io_error + outgoing \<times> stream" where
  "finish ob s =
     (if finished ob then Inl (Runtime_error ''promise already satisfied'') else Inr (ob\<lparr>finished := True\<rparr>, s))"

definition out_write :: "method_registry \<Rightarrow> string \<Rightarrow> string \<Rightarrow> outgoing \<Rightarrow> stream \<Rightarrow> io_error + outgoing \<times> stream" where
  "out_write reg date d ob s =
     (let ob = bodyLength_add (length d) ob in
      if ignoreBody ob then Inr (ob, s)
      else
        (case decideTransferMode None ob of
           Inl e \<Rightarrow> Inl e
         | Inr ob \<Rightarrow>
             (case writeHeaders reg date ob s of
                Inl e \<Rightarrow> Inl e
              | Inr (ob, s) \<Rightarrow> Inr (out_writer_write d ob s))))"

definition out_end :: "method_registry \<Rightarrow> string \<Rightarrow> outgoing \<Rightarrow> stream \<Rightarrow> io_error + outgoing \<times> stream" where
  "out_end reg date ob s =
     (case (if headersSent ob then Inr (ob, s)
            else writeHeaders reg date
                   (if omap_find (out_headers (out_data ob)) ''content-length'' = None
                    then setHeader_code NC_ContentLength (to_string (bodyLength ob)) ob else ob) s) of
        Inl e \<Rightarrow> Inl e
      | Inr (ob, s) \<Rightarrow> finish ob (out_writer_end ob s))"

definition kMaxMergedBodySize :: nat where "kMaxMergedBodySize = 32 * 1024"

definition out_end_data ::
    "method_registry \<Rightarrow> string \<Rightarrow> string \<Rightarrow> outgoing \<Rightarrow> stream \<Rightarrow> io_error + outgoing \<times> stream" where
  "out_end_data reg date d ob s =
     (let ob = bodyLength_add (length d) ob in
      if ignoreBody ob then out_end reg date ob s
      else if d = [] then out_end reg date ob s
      else
        (case decideTransferMode (Some (length d)) ob of
           Inl e \<Rightarrow> Inl e
         | Inr ob \<Rightarrow>
             if \<not> headersSent ob \<and> out_transferMode ob = ContentLength \<and> length d \<le> kMaxMergedBodySize then
               (let ob = ob\<lparr>headersSent := True\<rparr> in
                if await_prev ob then finish ob (stream_write (buildHeaders reg date ob @ crlf @ d) s)
                else Inl broken_promise)
             else
               (case writeHeaders reg date ob s of
                  Inl e \<Rightarrow> Inl e
                | Inr (ob, s) \<Rightarrow>
                    (let (ob, s) = out_writer_write d ob s in finish ob (out_writer_end ob s)))))"


section \<open>What a message looks like on the wire\<close>

text \<open>
  The specification of a sender: the mode it chooses, the header it announces the body with,
  and the bytes of the message.  \<open>send_message\<close> is a caller that writes the pieces \<open>ds\<close> and ends with
  \<open>fin\<close> (empty for \<^verbatim>\<open>end()\<close>).
\<close>

fun announce :: "transfer_mode \<Rightarrow> nat \<Rightarrow> out_message \<Rightarrow> out_message" where
  "announce ContentLength n m =
     out_headers_update (omap_assign ''content-length'' (httpHeader_of_code NC_ContentLength (to_string n))) m"
| "announce Chunked n m =
     out_headers_update (omap_assign ''transfer-encoding'' (httpHeader_of_code NC_TransferEncoding ''chunked'')) m"
| "announce UntilClose n (Out_response r) = Out_response (r\<lparr>resp_shouldClose := True\<rparr>)"
| "announce UntilClose n (Out_request r) = Out_request r"

definition chosen_mode :: "string list \<Rightarrow> out_message \<Rightarrow> transfer_mode" where
  "chosen_mode ds m =
     (if ds = [] \<or> omap_find (out_headers m) ''content-length'' \<noteq> None then ContentLength
      else (case m of
              Out_response r \<Rightarrow> if resp_version r = KHttp10 then UntilClose else Chunked
            | Out_request _ \<Rightarrow> Chunked))"

definition framed :: "transfer_mode \<Rightarrow> string list \<Rightarrow> string" where
  "framed mode ds = (if mode = Chunked then chunks (filter (\<lambda>d. d \<noteq> []) ds) else concat ds)"

definition head_text :: "method_registry \<Rightarrow> string \<Rightarrow> bool \<Rightarrow> out_message \<Rightarrow> string" where
  "head_text reg date send_date m =
     (case m of
        Out_request r \<Rightarrow> buildHeaders_request reg r
      | Out_response r \<Rightarrow> buildHeaders_response date send_date r) @ crlf"

definition send_pieces ::
    "method_registry \<Rightarrow> string \<Rightarrow> string list \<Rightarrow> outgoing \<Rightarrow> stream \<Rightarrow> io_error + outgoing \<times> stream" where
  "send_pieces reg date ds ob s =
     fold (\<lambda>d r. case r of Inl e \<Rightarrow> Inl e | Inr (ob, s) \<Rightarrow> out_write reg date d ob s) ds (Inr (ob, s))"

definition send_message ::
    "method_registry \<Rightarrow> string \<Rightarrow> string list \<Rightarrow> string \<Rightarrow> outgoing \<Rightarrow> stream \<Rightarrow> io_error + outgoing \<times> stream" where
  "send_message reg date ds fin ob s =
     (case send_pieces reg date ds ob s of
        Inl e \<Rightarrow> Inl e
      | Inr (ob, s) \<Rightarrow> out_end_data reg date fin ob s)"

definition fresh :: "outgoing \<Rightarrow> bool" where
  "fresh ob \<longleftrightarrow>
     \<not> headersSent ob \<and> bodyWriter ob = None \<and> \<not> finished ob \<and> bodyLength ob = 0 \<and> await_prev ob"

text \<open>The caller set no framing header, or the right content length.\<close>

definition framing_unset :: "nat \<Rightarrow> out_message \<Rightarrow> bool" where
  "framing_unset n m \<longleftrightarrow>
     header_map_inv (out_headers m) \<and>
     omap_find (out_headers m) ''transfer-encoding'' = None \<and>
     (\<forall>h. omap_find (out_headers m) ''content-length'' = Some h \<longrightarrow> header_value h = to_string n)"

lemma header_map_find:
  assumes "header_map_inv hs" "omap_find hs k = Some h"
  shows "h = httpHeader k (header_value h)" "toLower k = k" "header_name h = k"
proof -
  have "(k, h) \<in> set hs" using assms(2) by (rule map_of_SomeD)
  then show *: "h = httpHeader k (header_value h)" "toLower k = k" using assms(1) by (auto simp: header_map_inv_def)
  show "header_name h = k" by (subst *(1)) (simp add: *(2))
qed

lemma httpHeader_codes:
  "httpHeader ''content-length'' v = httpHeader_of_code NC_ContentLength v"
  "httpHeader ''transfer-encoding'' v = httpHeader_of_code NC_TransferEncoding v"
  using nameToCode_codeToName [of NC_ContentLength] nameToCode_codeToName [of NC_TransferEncoding]
  by (simp_all add: httpHeader_def httpHeader_of_code_def codeToName_def toLower_def char_eval)

lemma writer_write_Nil:
  "sent_bytes (snd (writer_write [] w s)) = sent_bytes s"
  "sent_bytes (writer_end (fst (writer_write [] w s)) (snd (writer_write [] w s))) = sent_bytes (writer_end w s)"
  by (cases w; simp)+

lemma sent_bytes_writer_end: "sent_bytes s = sent_bytes s' \<Longrightarrow> sent_bytes (writer_end w s) = sent_bytes (writer_end w s')"
  by (cases w) simp_all

lemma decide_writer: "decideTransferMode l ob = Inr ob' \<Longrightarrow> bodyWriter ob' \<noteq> None"
  by (auto simp: decideTransferMode_def Let_def split: if_splits option.splits sum.splits out_message.splits)

lemma write_body_snoc:
  assumes "fold (\<lambda>d (w, s). writer_write d w s) ds (w, s) = (w', s')"
  shows "write_body w (ds @ [fin]) s = (let (w, s) = writer_write fin w' s' in writer_end w s)"
  using assms by (simp add: write_body_def)

text \<open>Once the head is sent, the rest of the message is what the writer makes of it.\<close>

lemma send_pieces_started:
  assumes "headersSent ob" "bodyWriter ob = Some w" "\<not> ignoreBody ob"
  shows "\<exists>n w' s'. fold (\<lambda>d (w, s). writer_write d w s) ds (w, s) = (w', s') \<and>
    send_pieces reg date ds ob s = Inr (ob\<lparr>bodyWriter := Some w', bodyLength := n\<rparr>, s')"
  using assms
proof (induction ds arbitrary: ob w s)
  case Nil
  then show ?case by (auto simp: send_pieces_def intro: exI [of _ "bodyLength ob"])
next
  case (Cons d ds)
  obtain w1 s1 where w: "writer_write d w s = (w1, s1)" by fastforce
  define n1 where "n1 = (bodyLength ob + length d) mod 2 ^ 64"
  let ?ob = "ob\<lparr>bodyWriter := Some w1, bodyLength := n1\<rparr>"
  have "out_write reg date d ob s = Inr (?ob, s1)"
    using Cons.prems w
    by (simp add: out_write_def Let_def bodyLength_add_def decideTransferMode_def writeHeaders_def out_writer_write_def n1_def)
  then have "send_pieces reg date (d # ds) ob s = send_pieces reg date ds ?ob s1"
    by (simp add: send_pieces_def)
  with Cons.IH [of ?ob w1 s1] Cons.prems w show ?case by auto
qed

lemma end_started:
  assumes "headersSent ob" "bodyWriter ob = Some w" "\<not> ignoreBody ob" "\<not> finished ob"
  shows "\<exists>ob' s'. out_end_data reg date fin ob s = Inr (ob', s') \<and> finished ob' \<and> out_data ob' = out_data ob \<and>
    sent_bytes s' = sent_bytes (let (w, s) = writer_write fin w s in writer_end w s)"
  using assms writer_write_Nil [of w s]
  by (cases "fin = []")
     (auto simp: out_end_data_def out_end_def Let_def bodyLength_add_def decideTransferMode_def writeHeaders_def
       out_writer_write_def out_writer_end_def finish_def split: prod.splits)

lemma send_started:
  assumes "headersSent ob" "bodyWriter ob = Some w" "\<not> ignoreBody ob" "\<not> finished ob"
  shows "\<exists>ob' s'. send_message reg date ds fin ob s = Inr (ob', s') \<and> finished ob' \<and> out_data ob' = out_data ob \<and>
    sent_bytes s' = sent_bytes (write_body w (ds @ [fin]) s)"
proof -
  obtain n w1 s1 where p: "fold (\<lambda>d (w, s). writer_write d w s) ds (w, s) = (w1, s1)"
    "send_pieces reg date ds ob s = Inr (ob\<lparr>bodyWriter := Some w1, bodyLength := n\<rparr>, s1)"
    using send_pieces_started [OF assms(1-3)] by blast
  from end_started [of "ob\<lparr>bodyWriter := Some w1, bodyLength := n\<rparr>" w1 reg date fin s1] assms show ?thesis
    unfolding write_body_snoc [OF p(1)] by (simp add: send_message_def p(2))
qed


lemma out_headers_update_id: "f (out_headers m) = out_headers m \<Longrightarrow> out_headers_update f m = m"
  by (cases m) simp_all

lemma announce_present:
  assumes "framing_unset n m" "omap_find (out_headers m) ''content-length'' \<noteq> None"
  shows "announce ContentLength n m = m"
proof -
  obtain h where h: "omap_find (out_headers m) ''content-length'' = Some h" using assms(2) by blast
  moreover have "header_map_inv (out_headers m)" "header_value h = to_string n"
    using assms(1) h by (auto simp: framing_unset_def)
  ultimately have "h = httpHeader_of_code NC_ContentLength (to_string n)" "omap_inv (out_headers m)"
    using header_map_find(1) [of "out_headers m"] httpHeader_codes(1) by (metis, simp add: header_map_inv_def)
  with h show ?thesis by (auto intro: out_headers_update_id omap_assign_same)
qed

lemma decide_none:
  assumes "bodyWriter ob = None" "framing_unset n (out_data ob)" "n < 2 ^ 64"
    and "mode = chosen_mode (d # ds) (out_data ob)"
  shows "\<exists>k. decideTransferMode None ob =
    Inr (ob\<lparr>out_data := announce mode n (out_data ob), out_transferMode := mode,
             bodyWriter := Some (writer_create mode k)\<rparr>)"
proof (cases "omap_find (out_headers (out_data ob)) ''content-length''")
  case (Some h)
  then have "stoul 10 (header_value h) = Inr n" using assms(2,3) by (auto simp: framing_unset_def)
  with Some assms show ?thesis
    using announce_present [OF assms(2)] by (auto simp: decideTransferMode_def chosen_mode_def)
next
  case None
  with assms show ?thesis
    by (auto simp: decideTransferMode_def chosen_mode_def framing_unset_def setHeader_code_def Let_def
        httpHeader_of_code_def split: out_message.splits)
qed

lemma decide_some:
  assumes "bodyWriter ob = None"
  shows "decideTransferMode (Some n) ob =
    Inr (ob\<lparr>out_data := announce ContentLength n (out_data ob), out_transferMode := ContentLength,
             bodyWriter := Some (writer_create ContentLength n)\<rparr>)"
  using assms by (simp add: decideTransferMode_def setHeader_code_def Let_def httpHeader_of_code_def)

lemma writeHeaders_head:
  assumes "\<not> headersSent ob" "await_prev ob"
  shows "writeHeaders reg date ob s =
    Inr (ob\<lparr>headersSent := True\<rparr>, stream_write (head_text reg date (sendDateHeader ob) (out_data ob)) s)"
  using assms by (simp add: writeHeaders_def await_prev_def head_text_def buildHeaders_def Let_def split: out_message.splits)

lemma await_prev_update [simp]:
  "await_prev (ob\<lparr>out_data := m\<rparr>) = await_prev ob" "await_prev (ob\<lparr>out_transferMode := t\<rparr>) = await_prev ob"
  "await_prev (ob\<lparr>bodyWriter := w\<rparr>) = await_prev ob" "await_prev (ob\<lparr>bodyLength := n\<rparr>) = await_prev ob"
  "await_prev (ob\<lparr>headersSent := b\<rparr>) = await_prev ob"
  by (simp_all add: await_prev_def)

lemma first_write:
  assumes "fresh ob" "\<not> ignoreBody ob" "framing_unset n (out_data ob)" "n < 2 ^ 64"
    and "mode = chosen_mode (d # ds) (out_data ob)"
  shows "\<exists>k. send_message reg date (d # ds) fin ob s =
    send_message reg date (d # ds) fin
      (ob\<lparr>out_data := announce mode n (out_data ob), out_transferMode := mode,
          bodyWriter := Some (writer_create mode k), headersSent := True\<rparr>)
      (stream_write (head_text reg date (sendDateHeader ob) (announce mode n (out_data ob))) s)"
proof -
  let ?b = "ob\<lparr>bodyLength := (bodyLength ob + length d) mod 2 ^ 64\<rparr>"
  obtain k where k: "decideTransferMode None ?b =
      Inr (?b\<lparr>out_data := announce mode n (out_data ob), out_transferMode := mode,
              bodyWriter := Some (writer_create mode k)\<rparr>)"
    using decide_none [of ?b n mode d ds] assms by (auto simp: fresh_def)
  have f: "\<not> headersSent ob" "await_prev ob" using assms(1) by (simp_all add: fresh_def)
  have "out_write reg date d ob s = out_write reg date d
      (ob\<lparr>out_data := announce mode n (out_data ob), out_transferMode := mode,
          bodyWriter := Some (writer_create mode k), headersSent := True\<rparr>)
      (stream_write (head_text reg date (sendDateHeader ob) (announce mode n (out_data ob))) s)"
    using assms(2) f
    by (subst (1 2) out_write_def) (simp only: Let_def bodyLength_add_def k,
        simp add: writeHeaders_head, simp add: decideTransferMode_def writeHeaders_def, cases ob, simp)
  then show ?thesis by (auto simp: send_message_def send_pieces_def)
qed


lemma end_unsent:
  assumes "\<not> headersSent ob" "bodyWriter ob = None" "\<not> finished ob" "await_prev ob"
    and "framing_unset (bodyLength ob) (out_data ob)"
  shows "\<exists>ob'. out_end reg date ob s =
      Inr (ob', stream_write (head_text reg date (sendDateHeader ob) (announce ContentLength (bodyLength ob) (out_data ob))) s) \<and>
    finished ob' \<and> out_data ob' = announce ContentLength (bodyLength ob) (out_data ob)"
proof -
  define q where "q = (if omap_find (out_headers (out_data ob)) ''content-length'' = None
    then setHeader_code NC_ContentLength (to_string (bodyLength ob)) ob else ob)"
  have q: "out_data q = announce ContentLength (bodyLength ob) (out_data ob)" "\<not> headersSent q" "await_prev q"
      "bodyWriter q = None" "\<not> finished q" "sendDateHeader q = sendDateHeader ob"
    using assms announce_present [OF assms(5)]
    by (auto simp: q_def setHeader_code_def Let_def httpHeader_of_code_def)
  with assms(1) show ?thesis
    by (simp add: out_end_def q_def [symmetric] writeHeaders_head out_writer_end_def finish_def)
qed

text \<open>The sender meets its specification, for every way of cutting the body into calls.\<close>

lemma send_message_sent:
  assumes "fresh ob" "\<not> ignoreBody ob" "framing_unset n (out_data ob)" "n < 2 ^ 64" "n = length (concat ds @ fin)"
    and "mode = chosen_mode ds (out_data ob)"
  shows "\<exists>ob' s'. send_message reg date ds fin ob s = Inr (ob', s') \<and> finished ob' \<and>
    out_data ob' = announce mode n (out_data ob) \<and>
    sent_bytes s' = sent_bytes s @ head_text reg date (sendDateHeader ob) (announce mode n (out_data ob)) @
      framed mode (ds @ [fin])"
proof (cases ds)
  case (Cons d ds')
  obtain k where k: "send_message reg date (d # ds') fin ob s = send_message reg date (d # ds') fin
      (ob\<lparr>out_data := announce mode n (out_data ob), out_transferMode := mode,
          bodyWriter := Some (writer_create mode k), headersSent := True\<rparr>)
      (stream_write (head_text reg date (sendDateHeader ob) (announce mode n (out_data ob))) s)"
    using first_write [OF assms(1-4)] assms(6) Cons by blast
  show ?thesis
    unfolding Cons k
    using send_started [of "ob\<lparr>out_data := announce mode n (out_data ob), out_transferMode := mode,
          bodyWriter := Some (writer_create mode k), headersSent := True\<rparr>" "writer_create mode k" reg date "d # ds'" fin
          "stream_write (head_text reg date (sendDateHeader ob) (announce mode n (out_data ob))) s"] assms(1,2)
    by (auto simp: fresh_def write_body_sent framed_def)
next
  case Nil
  then have mode: "mode = ContentLength" using assms(6) by (simp add: chosen_mode_def)
  show ?thesis
  proof (cases "fin = []")
    case True
    with assms Nil mode show ?thesis
      using end_unsent [of "ob\<lparr>bodyLength := 0\<rparr>" reg date s]
      by (auto simp: send_message_def send_pieces_def out_end_data_def bodyLength_add_def fresh_def framed_def Let_def)
  next
    case False
    with assms(1,2,5) Nil mode show ?thesis
      using decide_some [of "ob\<lparr>bodyLength := (bodyLength ob + length fin) mod 2 ^ 64\<rparr>" n]
      by (auto simp: send_message_def send_pieces_def out_end_data_def Let_def bodyLength_add_def fresh_def
          buildHeaders_def head_text_def finish_def framed_def writer_create_def writeHeaders_head
          out_writer_write_def out_writer_end_def split: out_message.splits)
  qed
qed


text \<open>A stream that ignores the body sends the head only, with the length the body would have.\<close>

lemma send_pieces_ignored:
  "ignoreBody ob \<Longrightarrow> bodyLength ob + length (concat ds) < 2 ^ 64 \<Longrightarrow>
   send_pieces reg date ds ob s = Inr (ob\<lparr>bodyLength := bodyLength ob + length (concat ds)\<rparr>, s)"
proof (induction ds arbitrary: ob)
  case (Cons d ds)
  then have "out_write reg date d ob s = Inr (ob\<lparr>bodyLength := bodyLength ob + length d\<rparr>, s)"
    by (simp add: out_write_def bodyLength_add_def Let_def)
  with Cons.IH [of "ob\<lparr>bodyLength := bodyLength ob + length d\<rparr>"] Cons.prems show ?case
    by (simp add: send_pieces_def add.assoc)
qed (simp add: send_pieces_def)

lemma send_ignored:
  assumes "fresh ob" "ignoreBody ob" "framing_unset n (out_data ob)" "n < 2 ^ 64" "n = length (concat ds @ fin)"
  shows "\<exists>ob' s'. send_message reg date ds fin ob s = Inr (ob', s') \<and> finished ob' \<and>
    sent_bytes s' = sent_bytes s @ head_text reg date (sendDateHeader ob) (announce ContentLength n (out_data ob))"
proof -
  let ?ob = "ob\<lparr>bodyLength := length (concat ds)\<rparr>"
  have "send_pieces reg date ds ob s = Inr (?ob, s)"
    using send_pieces_ignored [OF assms(2), of ds] assms(1,4,5) by (simp add: fresh_def)
  moreover have "\<exists>ob'. out_end reg date (?ob\<lparr>bodyLength := n\<rparr>) s =
      Inr (ob', stream_write (head_text reg date (sendDateHeader ob) (announce ContentLength n (out_data ob))) s) \<and> finished ob'"
    using end_unsent [of "?ob\<lparr>bodyLength := n\<rparr>" reg date s] assms(1,3) by (auto simp: fresh_def)
  ultimately show ?thesis
    using assms(2,4,5) by (auto simp: send_message_def out_end_data_def bodyLength_add_def)
qed

end
