(* ===== verification/Http_Head.thy ===== *)
theory Http_Head
  imports Prelude Byte_Stream Http_Header Http_Message Http_Parser Http_Body
begin

text \<open>
  Reading the head of a message from a connection: \<^verbatim>\<open>parseNext\<close> of the server
  (\<^verbatim>\<open>extensions/http/src/HttpServer.cc\<close>) and \<^verbatim>\<open>parseNext\<close> of the client (\<^verbatim>\<open>src/HttpClient.cc\<close>).

  Both are the same loop around a line parser; the server limits the length of a line and the
  number of lines, the client limits neither.  \<open>head_loop\<close> takes the limits as options.  The loop
  ends because every turn takes bytes from the peer or from the buffer.
\<close>

definition kMaxHeaderCount :: nat where "kMaxHeaderCount = 128"

definition kMaxHeaderLineSize :: nat where "kMaxHeaderLineSize = 8192"

definition over :: "nat option \<Rightarrow> nat \<Rightarrow> bool" where
  "over limit n \<longleftrightarrow> (case limit of None \<Rightarrow> False | Some m \<Rightarrow> m < n)"

definition head_error :: "'m \<Rightarrow> parse_error \<Rightarrow> string \<Rightarrow> 'm parse_result" where
  "head_error dflt code msg = \<lparr>result_message = dflt, result_errorCode = code, result_errorMessage = msg\<rparr>"

lemma stream_read_shrinks:
  "stream_read n s = Inr (bs, s') \<Longrightarrow> bs \<noteq> [] \<Longrightarrow> length (to_come s') < length (to_come s)"
  using stream_read_split [of n s bs s'] by (metis length_append length_greater_0_conv less_add_same_cancel2)

function head_loop ::
    "'m \<Rightarrow> nat option \<Rightarrow> nat option \<Rightarrow> (string \<Rightarrow> 'm http_parser \<Rightarrow> parser_state \<times> 'm http_parser) \<Rightarrow>
     nat \<Rightarrow> 'm http_parser \<Rightarrow> conn \<Rightarrow> io_error + 'm parse_result \<times> conn" where
  "head_loop dflt maxLine maxCount parseLine ls p c =
     (case find_sub crlf (buffer c) of
        None \<Rightarrow>
          if over maxLine (length (buffer c)) then
            Inr (head_error dflt PE_MalformedRequestLine ''Header line too long'', c)
          else
            (case stream_read 4096 (peer c) of
               Inl e \<Rightarrow> Inl e
             | Inr (bs, s) \<Rightarrow>
                 if bs = [] then
                   Inr (head_error dflt PE_ConnectionClosed ''Connection closed before headers complete'', c\<lparr>peer := s\<rparr>)
                 else head_loop dflt maxLine maxCount parseLine ls p \<lparr>buffer = buffer c @ bs, peer = s\<rparr>)
      | Some pos \<Rightarrow>
          if over maxCount (ls + 1) then
            Inr (head_error dflt PE_MalformedRequestLine ''Too many headers'', c)
          else
            (let (state, p) = parseLine (take pos (buffer c)) p;
                 c = conn_consume (pos + 2) c
             in if state = ParserError then Inr (extractResult p, c)
                else if state = HeaderComplete then Inr (extractResult p, c)
                else head_loop dflt maxLine maxCount parseLine (ls + 1) p c))"
  by pat_completeness auto
termination
proof (relation "measures [\<lambda>(d, m, k, f, ls, p, c). length (to_come (peer c)), \<lambda>(d, m, k, f, ls, p, c). length (buffer c)]")
qed (auto simp: conn_consume_def crlf_def dest: stream_read_shrinks find_sub_Some_take)

declare head_loop.simps [simp del]

definition server_parseNext :: "method_registry \<Rightarrow> conn \<Rightarrow> io_error + http_request parse_result \<times> conn" where
  "server_parseNext reg c =
     head_loop request_default (Some kMaxHeaderLineSize) (Some kMaxHeaderCount) (request_parseLine reg) 0
       (parser_init request_default) c"

definition client_parseNext :: "conn \<Rightarrow> io_error + http_response parse_result \<times> conn" where
  "client_parseNext c =
     head_loop response_default None None response_parseLine 0 (parser_init response_default) c"


section \<open>Heads as byte strings\<close>

text \<open>
  What the loop does, as a function of the bytes alone.  \<open>None\<close> is the case of a line longer
  than the limit: there it depends on the segments whether the line is refused (the limit is
  only checked when the buffer holds no complete line).
\<close>

function head_spec ::
    "'m \<Rightarrow> nat option \<Rightarrow> nat option \<Rightarrow> (string \<Rightarrow> 'm http_parser \<Rightarrow> parser_state \<times> 'm http_parser) \<Rightarrow>
     nat \<Rightarrow> 'm http_parser \<Rightarrow> string \<Rightarrow> ('m parse_result \<times> string) option" where
  "head_spec dflt maxLine maxCount parseLine ls p w =
     (case find_sub crlf w of
        None \<Rightarrow>
          if over maxLine (length w) then None
          else Some (head_error dflt PE_ConnectionClosed ''Connection closed before headers complete'', w)
      | Some pos \<Rightarrow>
          if over maxLine (pos + 1) then None
          else if over maxCount (ls + 1) then
            Some (head_error dflt PE_MalformedRequestLine ''Too many headers'', w)
          else
            (let (state, p) = parseLine (take pos w) p; w = drop (pos + 2) w
             in if state \<in> {ParserError, HeaderComplete} then Some (extractResult p, w)
                else head_spec dflt maxLine maxCount parseLine (ls + 1) p w))"
  by pat_completeness auto
termination
  by (relation "measure (\<lambda>(d, m, k, f, ls, p, w). length w)") (auto simp: crlf_def dest: find_sub_Some_take)

declare head_spec.simps [simp del]


lemma find_sub_append: "find_sub p b = Some i \<Longrightarrow> find_sub p (b @ t) = Some i"
proof (induction b arbitrary: i)
  case (Cons x b)
  show ?case
  proof (cases "take (length p) (x # b) = p")
    case True
    then have "length p \<le> length (x # b)" by (metis length_take min.cobounded1)
    then have "take (length p) (x # b @ t) = p" using True by (metis append_Cons take_append append_Nil2 diff_is_0_eq take_0)
    with True Cons.prems show ?thesis by simp
  next
    case False
    then obtain j where j: "find_sub p b = Some j" "i = Suc j" using Cons.prems by (auto split: option.splits)
    then have "length p \<le> length b" using find_sub_Some_take [OF j(1)] by simp
    then have "take (length p) (x # b @ t) = take (length p) (x # b)" by (cases p) simp_all
    with False j Cons.IH [OF j(1)] show ?thesis by simp
  qed
qed (cases t; auto split: if_splits)

lemma find_sub_later:
  assumes "find_sub p b = None" "find_sub p (b @ t) = Some i"
  shows "length b < i + length p"
proof (rule ccontr)
  assume "\<not> length b < i + length p"
  then have "take (length p) (drop i b) = p"
    using find_sub_Some_take [OF assms(2)] by simp
  moreover have "find_sub p b \<noteq> None" if "take (length p) (drop i b) = p" for i
    using that
  proof (induction b arbitrary: i)
    case (Cons x b)
    then show ?case by (cases i) auto
  qed simp
  ultimately show False using assms(1) by blast
qed

lemma over_mono: "over l n \<Longrightarrow> n \<le> m \<Longrightarrow> over l m"
  by (auto simp: over_def split: option.splits)

text \<open>The loop computes the specification from any segmentation of the bytes.\<close>

lemma head_loop_spec:
  "stream_wf (peer c) \<Longrightarrow> head_spec dflt maxLine maxCount parseLine ls p (wire c) = Some (res, rest) \<Longrightarrow>
   \<exists>c'. head_loop dflt maxLine maxCount parseLine ls p c = Inr (res, c') \<and> wire c' = rest \<and> stream_wf (peer c')"
proof (induction dflt maxLine maxCount parseLine ls p c rule: head_loop.induct)
  case (1 dflt maxLine maxCount parseLine ls p c)
  show ?case
  proof (cases "find_sub crlf (buffer c)")
    case None
    have "\<not> over maxLine (length (buffer c))"
    proof (cases "find_sub crlf (wire c)")
      case None
      with 1(4) have "\<not> over maxLine (length (wire c))" by (subst (asm) head_spec.simps) (auto split: if_splits)
      then show ?thesis using over_mono [of maxLine "length (buffer c)" "length (wire c)"] by (auto simp: wire_def)
    next
      case (Some pos)
      then have "length (buffer c) \<le> pos + 1" using find_sub_later [OF None] by (fastforce simp: wire_def crlf_def)
      moreover have "\<not> over maxLine (pos + 1)"
        using Some 1(4) by (subst (asm) head_spec.simps) (auto split: if_splits)
      ultimately show ?thesis using over_mono by blast
    qed
    moreover obtain bs s where r: "stream_read 4096 (peer c) = Inr (bs, s)" "stream_wf s"
        "bs = [] \<longleftrightarrow> to_come (peer c) = []" "bs @ to_come s = to_come (peer c)"
      using stream_read_ok [OF 1(3)] by (metis zero_less_numeral)
    ultimately show ?thesis
    proof (cases "bs = []")
      case True
      with r have "wire c = buffer c" "wire (c\<lparr>peer := s\<rparr>) = buffer c" by (simp_all add: wire_def)
      with 1(4) None True r \<open>\<not> over maxLine (length (buffer c))\<close> show ?thesis
        by (subst head_loop.simps, subst (asm) head_spec.simps) auto
    next
      case False
      have "wire \<lparr>buffer = buffer c @ bs, peer = s\<rparr> = wire c" using r(4) by (simp add: wire_def)
      with 1(1) [OF None _ r(1) refl False] 1(4) r(2) None r(1) False \<open>\<not> over maxLine (length (buffer c))\<close> show ?thesis
        by (subst head_loop.simps) auto
    qed
  next
    case (Some pos)
    have len: "pos + 2 \<le> length (buffer c)" using find_sub_Some_take [OF Some] by (simp add: crlf_def)
    have find: "find_sub crlf (wire c) = Some pos" using find_sub_append [OF Some] by (simp add: wire_def)
    have parts: "take pos (wire c) = take pos (buffer c)" "drop (pos + 2) (wire c) = wire (conn_consume (pos + 2) c)"
      using len by (simp_all add: wire_def conn_consume_def)
    obtain st p' where line: "parseLine (take pos (buffer c)) p = (st, p')" by fastforce
    have wf: "stream_wf (peer (conn_consume (pos + 2) c))" using 1(3) by (simp add: conn_consume_def)
    show ?thesis
      using 1(2) [OF Some _ line [symmetric] refl] 1(3,4) find wf line parts Some
      by (subst head_loop.simps, subst (asm) (2) head_spec.simps)
         (auto simp: Let_def conn_consume_def split: if_splits)
  qed
qed



section \<open>Heads as lists of lines\<close>

definition lines_text :: "string list \<Rightarrow> string" where
  "lines_text ls = concat (map (\<lambda>l. l @ crlf) ls)"

lemma lines_text_simps [simp]:
  "lines_text [] = []" "lines_text (l # ls) = l @ crlf @ lines_text ls"
  "lines_text (ls @ ls') = lines_text ls @ lines_text ls'"
  by (simp_all add: lines_text_def)

text \<open>The parser accepts these lines and asks for more.\<close>

fun expects_more :: "(string \<Rightarrow> 'm http_parser \<Rightarrow> parser_state \<times> 'm http_parser) \<Rightarrow> string list \<Rightarrow> 'm http_parser \<Rightarrow> bool" where
  "expects_more f [] p \<longleftrightarrow> True"
| "expects_more f (l # ls) p \<longleftrightarrow> fst (f l p) \<notin> {ParserError, HeaderComplete} \<and> expects_more f ls (snd (f l p))"

lemma head_spec_lines:
  assumes "\<forall>l \<in> set (ls @ [e]). CHR 0x0D \<notin> set l \<and> \<not> over maxLine (length l + 1)"
    and "\<not> over maxCount (n + length ls + 1)" "expects_more f ls p"
    and "f e (fold (\<lambda>l p. snd (f l p)) ls p) = (st, p')" "st \<in> {ParserError, HeaderComplete}"
  shows "head_spec dflt maxLine maxCount f n p (lines_text (ls @ [e]) @ rest) = Some (extractResult p', rest)"
  using assms
proof (induction ls arbitrary: n p)
  case Nil
  moreover have "find_sub crlf (e @ crlf @ rest) = Some (length e)" using Nil.prems(1) by (simp add: find_crlf)
  ultimately show ?case by (subst head_spec.simps) (auto simp: Let_def crlf_def)
next
  case (Cons l ls)
  let ?w = "l @ crlf @ lines_text (ls @ [e]) @ rest"
  have "find_sub crlf ?w = Some (length l)" using Cons.prems(1) by (simp add: find_crlf)
  moreover have "drop (length l + 2) ?w = lines_text (ls @ [e]) @ rest" by (simp add: crlf_def)
  moreover have "\<not> over maxCount (n + 1)" using Cons.prems(2) over_mono [of maxCount "n + 1"] by force
  moreover have "head_spec dflt maxLine maxCount f (n + 1) (snd (f l p)) (lines_text (ls @ [e]) @ rest) =
      Some (extractResult p', rest)"
    using Cons.prems by (intro Cons.IH) auto
  ultimately show ?case
    using Cons.prems(1,3) by (cases "f l p") (subst head_spec.simps, simp add: Let_def)
qed


section \<open>Bounds\<close>

text \<open>
  A line that the server accepts was completed by one read after the limit was last checked,
  so it fits in the limit plus one read.
\<close>

definition max_head_buffer :: nat where "max_head_buffer = kMaxHeaderLineSize + 4096"

lemma head_loop_bounds:
  "head_loop dflt (Some kMaxHeaderLineSize) (Some k) f ls p c = Inr (res, c') \<Longrightarrow>
   length (buffer c) \<le> max_head_buffer \<Longrightarrow> ls \<le> k \<Longrightarrow>
   length (buffer c') \<le> max_head_buffer \<and> length (wire c) \<le> length (wire c') + (k - ls) * max_head_buffer"
proof (induction dflt "Some kMaxHeaderLineSize" "Some k" f ls p c rule: head_loop.induct)
  case (1 dflt f ls p c)
  show ?case
  proof (cases "find_sub crlf (buffer c)")
    case None
    show ?thesis
    proof (cases "\<exists>bs s. stream_read 4096 (peer c) = Inr (bs, s) \<and> bs \<noteq> [] \<and> \<not> over (Some kMaxHeaderLineSize) (length (buffer c))")
      case True
      then obtain bs s where r: "stream_read 4096 (peer c) = Inr (bs, s)" "bs \<noteq> []"
        "\<not> over (Some kMaxHeaderLineSize) (length (buffer c))" by blast
      have "length bs \<le> 4096" using r(1) by (auto simp: stream_read_def split: list.splits if_splits)
      then have "length (buffer c @ bs) \<le> max_head_buffer" using r(3) by (simp add: over_def max_head_buffer_def)
      moreover have "wire \<lparr>buffer = buffer c @ bs, peer = s\<rparr> = wire c"
        using stream_read_split [OF r(1)] by (simp add: wire_def)
      ultimately show ?thesis
        using 1(1) [OF None r(3) r(1) refl r(2)] 1(3,5) None r by (subst (asm) (2) head_loop.simps) auto
    next
      case False
      with 1(3,4) None show ?thesis
        by (subst (asm) head_loop.simps)
           (auto simp: wire_def split: if_splits sum.splits prod.splits dest: stream_read_split)
    qed
  next
    case (Some pos)
    have len: "pos + 2 \<le> length (buffer c)" using find_sub_Some_take [OF Some] by (simp add: crlf_def)
    show ?thesis
    proof (cases "over (Some k) (ls + 1)")
      case True
      with 1(3,4) Some show ?thesis by (subst (asm) head_loop.simps) auto
    next
      case False
      then have step: "(k - ls) * max_head_buffer = max_head_buffer + (k - (ls + 1)) * max_head_buffer"
        by (cases "k - ls") (auto simp: over_def)
      obtain st p' where line: "f (take pos (buffer c)) p = (st, p')" by fastforce
      let ?c = "conn_consume (pos + 2) c"
      have c: "length (wire c) = length (wire ?c) + (pos + 2)" "length (buffer ?c) \<le> max_head_buffer"
        using len 1(4) by (simp_all add: wire_def conn_consume_def)
      show ?thesis
      proof (cases "st \<in> {ParserError, HeaderComplete}")
        case True
        with 1(3,4) Some False line c len step show ?thesis by (subst (asm) head_loop.simps) (auto simp: Let_def)
      next
        case rec: False
        have "head_loop dflt (Some kMaxHeaderLineSize) (Some k) f (ls + 1) p' ?c = Inr (res, c')"
          using 1(3) Some False line rec by (subst (asm) head_loop.simps) (auto simp: Let_def)
        with 1(2) [OF Some False line [symmetric] refl refl _ _ this c(2)] rec False c len 1(4) step show ?thesis
          by (auto simp: over_def)
      qed
    qed
  qed
qed



section \<open>Progress\<close>

text \<open>A head that was read without error took at least the bytes of one line.\<close>

lemma head_loop_progress:
  "head_loop dflt maxLine maxCount f ls p c = Inr (res, c') \<Longrightarrow>
   took c [] c' \<and> (\<not> result_error res \<longrightarrow> length (wire c') < length (wire c))"
proof (induction dflt maxLine maxCount f ls p c rule: head_loop.induct)
  case (1 dflt maxLine maxCount f ls p c)
  show ?case
  proof (cases "find_sub crlf (buffer c)")
    case None
    show ?thesis
    proof (cases "\<exists>bs s. stream_read 4096 (peer c) = Inr (bs, s) \<and> bs \<noteq> [] \<and> \<not> over maxLine (length (buffer c))")
      case True
      then obtain bs s where r: "stream_read 4096 (peer c) = Inr (bs, s)" "bs \<noteq> []" "\<not> over maxLine (length (buffer c))"
        by blast
      have "wire \<lparr>buffer = buffer c @ bs, peer = s\<rparr> = wire c" using stream_read_split [OF r(1)] by (simp add: wire_def)
      moreover from 1(3) None r have
        "head_loop dflt maxLine maxCount f ls p \<lparr>buffer = buffer c @ bs, peer = s\<rparr> = Inr (res, c')"
        by (subst (asm) head_loop.simps) simp
      ultimately show ?thesis using 1(1) [OF None r(3) r(1) refl r(2)] by (simp add: took_def)
    next
      case False
      have "took c [] (c\<lparr>peer := s\<rparr>)" if "stream_read 4096 (peer c) = Inr ([], s)" for s
        using stream_read_split [OF that] by (simp add: took_def wire_def)
      with False 1(3) None show ?thesis
        by (subst (asm) head_loop.simps) (auto simp: head_error_def result_error_def split: if_splits sum.splits)
    qed
  next
    case (Some pos)
    have len: "pos + 2 \<le> length (buffer c)" using find_sub_Some_take [OF Some] by (simp add: crlf_def)
    show ?thesis
    proof (cases "over maxCount (ls + 1)")
      case True
      with 1(3) Some show ?thesis
        by (subst (asm) head_loop.simps) (auto simp: head_error_def result_error_def)
    next
      case False
      obtain st p' where line: "f (take pos (buffer c)) p = (st, p')" by fastforce
      let ?c = "conn_consume (pos + 2) c"
      have c: "length (wire ?c) < length (wire c)" "took c [] ?c"
        using len took_weaken [OF took_consume] by (simp_all add: wire_def conn_consume_def)
      show ?thesis
      proof (cases "st \<in> {ParserError, HeaderComplete}")
        case True
        with 1(3) Some False line c show ?thesis by (subst (asm) head_loop.simps) (auto simp: Let_def)
      next
        case rec: False
        have "head_loop dflt maxLine maxCount f (ls + 1) p' ?c = Inr (res, c')"
          using 1(3) Some False line rec by (subst (asm) head_loop.simps) (auto simp: Let_def)
        with 1(2) [OF Some False line [symmetric] refl refl _ _ this] rec c show ?thesis by (auto intro: took_trans)
      qed
    qed
  qed
qed

lemma server_parseNext_progress:
  "server_parseNext reg c = Inr (res, c') \<Longrightarrow> took c [] c'"
  "server_parseNext reg c = Inr (res, c') \<Longrightarrow> \<not> result_error res \<Longrightarrow> length (wire c') < length (wire c)"
  unfolding server_parseNext_def by (drule head_loop_progress, simp)+

end
