(* ===== verification/Http_Exchange.thy ===== *)
theory Http_Exchange
  imports Prelude Byte_Stream Http_Header Cookie Http_Message Http_Parser Http_Body Http_Outgoing Http_Head
begin

text \<open>
  What one side of a connection writes and the other reads: the head and body written by
  \<^verbatim>\<open>HttpOutgoingStream\<close> go through \<^verbatim>\<open>parseNext\<close>, \<^verbatim>\<open>HttpParser\<close> and \<^verbatim>\<open>BodyReader\<close> of the peer.  The theory
  has no model of its own; it composes those of the components.
\<close>

section \<open>Header lines\<close>

definition header_line :: "string \<times> http_header \<Rightarrow> string" where
  "header_line kh = header_name (snd kh) @ '': '' @ header_value (snd kh)"

text \<open>A name that is a token; a value without line breaks and without blanks at its ends.\<close>

definition line_value_ok :: "string \<Rightarrow> bool" where
  "line_value_ok v \<longleftrightarrow> trimmed v \<and> CHR 0x0D \<notin> set v"

definition headers_ok :: "header_map \<Rightarrow> bool" where
  "headers_ok hs \<longleftrightarrow>
     header_map_inv hs \<and> (\<forall>(k, h) \<in> set hs. isValidToken k \<and> line_value_ok (header_value h))"

lemma header_lines_text: "header_lines hs = lines_text (map header_line hs)"
  by (induction hs) (auto simp: header_lines_def header_line_def)

lemma headers_ok_entry:
  assumes "headers_ok hs" "(k, h) \<in> set hs"
  shows "h = httpHeader k (header_value h)" "header_name h = k" "isValidToken k" "trimmed (header_value h)"
    "CHR 0x0D \<notin> set (header_value h)" "header_line (k, h) = k @ '': '' @ header_value h"
proof -
  have *: "h = httpHeader k (header_value h)" "toLower k = k" "isValidToken k" "line_value_ok (header_value h)"
    using assms by (auto simp: headers_ok_def header_map_inv_def)
  then show "h = httpHeader k (header_value h)" "isValidToken k" "trimmed (header_value h)"
    "CHR 0x0D \<notin> set (header_value h)" by (simp_all add: line_value_ok_def)
  show "header_name h = k" by (subst *(1)) (simp add: *(2))
  then show "header_line (k, h) = k @ '': '' @ header_value h" by (simp add: header_line_def)
qed

lemma token_no_cr: "isValidToken nm \<Longrightarrow> CHR 0x0D \<notin> set nm"
  using is_tchar_plain by (auto simp: isValidToken_def list_all_iff split: if_splits)

lemma header_line_no_cr: "headers_ok hs \<Longrightarrow> kh \<in> set hs \<Longrightarrow> CHR 0x0D \<notin> set (header_line kh)"
  using headers_ok_entry [of hs "fst kh" "snd kh"] token_no_cr by auto

lemma headers_ok_assign:
  assumes "headers_ok hs" "isValidToken nm" "line_value_ok v" "toLower nm = nm"
  shows "headers_ok (omap_assign nm (httpHeader nm v) hs)"
  using assms set_omap_assign [of nm "httpHeader nm v" hs] header_map_inv_assign [of hs nm v]
  by (fastforce simp: headers_ok_def)

lemma parse_header_line:
  assumes "headers_ok hs" "(k, h) \<in> set hs" "k \<noteq> ''cookie''" "omap_find (req_headers (parser_data p)) k = None"
  shows "request_parseHeader (header_line (k, h)) p =
    p\<lparr>parser_data := (parser_data p)\<lparr>req_headers := omap_emplace k h (req_headers (parser_data p))\<rparr>\<rparr>"
proof -
  note h = headers_ok_entry [OF assms(1,2)]
  have "parseHeaderLine (header_line (k, h)) = (k, header_value h)"
    unfolding h(6) by (rule parseHeaderLine_text [OF h(3,4)])
  moreover have "toLower k = k" using h(1,2) by (metis httpHeader_name(1))
  ultimately show ?thesis
    using assms(3,4) h(1,3) isValidToken_plain(1) [OF h(3)]
    by (simp add: request_parseHeader_def nameToCode_cookie Let_def)
qed

lemma fold_parse_headers:
  assumes "headers_ok hs" "''cookie'' \<notin> fst ` set hs" "set ks \<subseteq> set hs" "distinct (map fst ks)"
    and "\<forall>k \<in> fst ` set ks. omap_find (req_headers (parser_data p)) k = None"
  shows "fold request_parseHeader (map header_line ks) p =
    p\<lparr>parser_data := (parser_data p)\<lparr>req_headers :=
        fold (\<lambda>(k, h). omap_emplace k h) ks (req_headers (parser_data p))\<rparr>\<rparr>"
  using assms(3-5)
proof (induction ks arbitrary: p)
  case (Cons kh ks)
  obtain k h where kh: "kh = (k, h)" by fastforce
  have "k \<noteq> ''cookie''" using assms(2) Cons.prems(1) kh by force
  then have "request_parseHeader (header_line kh) p =
      p\<lparr>parser_data := (parser_data p)\<lparr>req_headers := omap_emplace k h (req_headers (parser_data p))\<rparr>\<rparr>"
    unfolding kh using Cons.prems kh by (intro parse_header_line [OF assms(1)]) auto
  with Cons.prems kh show ?case by (subst list.map, subst fold_simps, simp, subst Cons.IH) auto
qed simp



section \<open>The Cookie line\<close>

definition cookies_ok :: "string omap \<Rightarrow> bool" where
  "cookies_ok cs \<longleftrightarrow>
     omap_inv cs \<and>
     (\<forall>(nm, v) \<in> set cs. nm \<noteq> [] \<and> CHR ''='' \<notin> set nm \<and>
        (\<forall>s \<in> {nm, v}. trimmed s \<and> CHR '';'' \<notin> set s \<and> CHR 0x0D \<notin> set s))"

lemma cookie_items_rest: "cookie_items False cs = attribute_list (map (\<lambda>(n, v). attr_pair n v) cs)"
  by (induction cs) (auto simp: attribute_list_def attr_pair_def)

lemma cookie_items_text:
  "cookie_items True ((n, v) # cs) = attr_pair n v @ attribute_list (map (\<lambda>(n, v). attr_pair n v) cs)"
  by (simp add: cookie_items_rest attr_pair_def)

lemma segments_cookie_items:
  assumes "\<forall>(n, v) \<in> set ((n, v) # cs). CHR '';'' \<notin> set n \<and> CHR '';'' \<notin> set v"
  shows "segments CHR '';'' (cookie_items True ((n, v) # cs)) =
    attr_pair n v # map (\<lambda>(n, v). CHR '' '' # attr_pair n v) cs"
proof -
  have plain: "CHR '';'' \<notin> set (attr_pair n v)" "\<forall>a \<in> set (map (\<lambda>(n, v). attr_pair n v) cs). CHR '';'' \<notin> set a"
    using assms by (auto simp: attr_pair_def)
  have ne: "attr_pair n v \<noteq> []" by (simp add: attr_pair_def)
  show ?thesis
  proof (cases cs)
    case Nil
    then show ?thesis
      unfolding cookie_items_text using plain ne by (simp add: attribute_list_def segments_single)
  next
    case (Cons c cs')
    then have ne: "map (\<lambda>(n, v). attr_pair n v) cs \<noteq> []" by simp
    then have "attribute_list (map (\<lambda>(n, v). attr_pair n v) cs) =
        CHR '';'' # tl (attribute_list (map (\<lambda>(n, v). attr_pair n v) cs))"
      using Cons by (simp add: attribute_list_def)
    then show ?thesis
      unfolding cookie_items_text
      using segments_cons [OF plain(1)] segments_attribute_list [OF plain(2) ne]
      by (metis (no_types, lifting) map_map comp_apply case_prod_unfold map_cong)
  qed
qed

lemma cookie_pair_text:
  assumes "n \<noteq> []" "trimmed n" "CHR ''='' \<notin> set n" "trimmed v"
  shows "cookie_pair (attr_pair n v) m = omap_assign n v m"
    "cookie_pair (CHR '' '' # attr_pair n v) m = omap_assign n v m"
proof -
  show "cookie_pair (attr_pair n v) m = omap_assign n v m"
    using assms by (simp add: cookie_pair_def attr_pair_def find_char_append trim_trimmed Let_def)
  have "find_char CHR ''='' ((CHR '' '' # n) @ CHR ''='' # v) = Some (length (CHR '' '' # n))"
    using assms(3) by (intro find_char_append) simp
  then show "cookie_pair (CHR '' '' # attr_pair n v) m = omap_assign n v m"
    using assms by (simp add: cookie_pair_def attr_pair_def trim_trimmed trim_blank_Cons Let_def)
qed

lemma parse_cookie_items:
  assumes "cookies_ok cs"
  shows "request_parseCookies (cookie_items True cs) [] = cs"
proof (cases cs)
  case (Cons c cs')
  obtain n v where c: "c = (n, v)" by fastforce
  have pairs: "fold cookie_pair (map (\<lambda>(n, v). CHR '' '' # attr_pair n v) ks) m = fold (\<lambda>(k, v). omap_assign k v) ks m"
    if "set ks \<subseteq> set cs" for ks m
    using that
  proof (induction ks arbitrary: m)
    case (Cons k ks)
    then show ?case using assms cookie_pair_text(2) by (auto simp: cookies_ok_def)
  qed simp
  have "cookie_pair (attr_pair n v) [] = omap_assign n v []"
    using assms Cons c by (intro cookie_pair_text) (auto simp: cookies_ok_def)
  moreover have "segments CHR '';'' (cookie_items True cs) = attr_pair n v # map (\<lambda>(n, v). CHR '' '' # attr_pair n v) cs'"
    unfolding Cons c using assms Cons c by (intro segments_cookie_items) (auto simp: cookies_ok_def)
  ultimately have "request_parseCookies (cookie_items True cs) [] = fold (\<lambda>(k, v). omap_assign k v) cs []"
    using pairs [of cs'] Cons c by (auto simp: request_parseCookies_def scan_loop_segments)
  then show ?thesis using assms fold_assign_sorted [of cs] by (simp add: cookies_ok_def)
qed (simp add: request_parseCookies_def scan_loop_segments)

lemma cookie_items_value_ok:
  assumes "cookies_ok cs"
  shows "line_value_ok (cookie_items True cs)"
proof (cases cs)
  case (Cons c cs')
  have last: "cookie_items b ks \<noteq> [] \<and> last (cookie_items b ks) \<noteq> CHR '' '' \<and> CHR 0x0D \<notin> set (cookie_items b ks)"
    if "ks \<noteq> []" "set ks \<subseteq> set cs" for b ks
    using that
  proof (induction b ks rule: cookie_items.induct)
    case (2 first nm v ks)
    then have "trimmed v" "CHR 0x0D \<notin> set v" "CHR 0x0D \<notin> set nm" using assms by (auto simp: cookies_ok_def)
    with 2 show ?case by (cases "ks = []"; cases "v = []") (auto simp: trimmed_def)
  qed simp
  obtain n v where c: "c = (n, v)" by fastforce
  then have "n \<noteq> [] \<and> trimmed n" using assms Cons by (simp add: cookies_ok_def)
  then have "n \<noteq> []" "hd n \<noteq> CHR '' ''" by (auto simp: trimmed_def)
  then have "hd (cookie_items True cs) \<noteq> CHR '' ''" by (simp add: Cons c)
  with last [of cs True] Cons show ?thesis by (simp add: line_value_ok_def trimmed_def)
qed (simp add: line_value_ok_def trimmed_def)

lemma parse_cookie_line:
  assumes "cookies_ok cs" "req_cookies (parser_data p) = []"
  shows "request_parseHeader (''Cookie: '' @ cookie_items True cs) p =
    p\<lparr>parser_data := (parser_data p)\<lparr>req_cookies := cs\<rparr>\<rparr>"
proof -
  have tok: "isValidToken ''Cookie''" by (simp add: isValidToken_def is_tchar_def)
  have "trimmed (cookie_items True cs)" using cookie_items_value_ok [OF assms(1)] by (simp add: line_value_ok_def)
  from parseHeaderLine_text [OF tok this]
  have "parseHeaderLine (''Cookie: '' @ cookie_items True cs) = (''Cookie'', cookie_items True cs)" by simp
  moreover have "toLower ''Cookie'' = ''cookie''" by (simp add: toLower_def char_eval)
  ultimately show ?thesis
    using assms tok parse_cookie_items by (simp add: request_parseHeader_def nameToCode_cookie Let_def)
qed



section \<open>Requests\<close>

definition request_line :: "method_registry \<Rightarrow> http_request \<Rightarrow> string" where
  "request_line reg r =
     method_toString reg (req_method r) @ CHR '' '' # req_path r @ CHR '' '' # toVersionString (req_version r)"

definition request_lines :: "method_registry \<Rightarrow> http_request \<Rightarrow> string list" where
  "request_lines reg r =
     request_line reg r # map header_line (req_headers r) @
     (if req_cookies r \<noteq> [] then [''Cookie: '' @ cookie_items True (req_cookies r)] else [])"

lemma head_text_request: "head_text reg date sd (Out_request r) = lines_text (request_lines reg r @ [[]])"
  by (simp add: head_text_def buildHeaders_request_def request_lines_def request_line_def header_lines_text)

text \<open>
  A request that can be written on the wire: a registered method and a target without blanks,
  a known version, and headers and cookies that fit on their lines.  Cookies go through
  \<^verbatim>\<open>setCookie\<close>, not through a header of that name.
\<close>

definition request_ok :: "method_registry \<Rightarrow> http_request \<Rightarrow> bool" where
  "request_ok reg r \<longleftrightarrow>
     method_fromString reg (method_toString reg (req_method r)) = req_method r \<and> req_method r \<noteq> method_Invalid \<and>
     (\<forall>c \<in> {CHR '' '', CHR 0x0D}. c \<notin> set (method_toString reg (req_method r)) \<and> c \<notin> set (req_path r)) \<and>
     req_version r \<noteq> KUnknown \<and>
     headers_ok (req_headers r) \<and> ''cookie'' \<notin> fst ` set (req_headers r) \<and> cookies_ok (req_cookies r)"

lemma parse_version [simp]: "v \<noteq> KUnknown \<Longrightarrow> parseHttpVersion (toVersionString v) = v"
  by (cases v) (simp_all add: parseHttpVersion_def toVersionString_def)

lemma version_no_cr: "CHR 0x0D \<notin> set (toVersionString v)"
  by (cases v) (simp_all add: toVersionString_def)

lemma request_lines_no_cr:
  assumes "request_ok reg r" "l \<in> set (request_lines reg r)"
  shows "CHR 0x0D \<notin> set l" "l \<noteq> []"
proof -
  have "line_value_ok (cookie_items True (req_cookies r))" using assms(1) cookie_items_value_ok by (simp add: request_ok_def)
  with assms show "CHR 0x0D \<notin> set l"
    using version_no_cr header_line_no_cr
    by (auto simp: request_lines_def request_line_def request_ok_def line_value_ok_def split: if_splits)
  show "l \<noteq> []" using assms(2) by (auto simp: request_lines_def request_line_def header_line_def split: if_splits)
qed

text \<open>The message that the receiver has after the last header line.\<close>

definition received_head :: "http_request \<Rightarrow> http_request" where
  "received_head r =
     (set_target (req_path r) (request_default\<lparr>req_method := req_method r, req_version := req_version r\<rparr>))
       \<lparr>req_headers := req_headers r, req_cookies := req_cookies r\<rparr>"

lemma received_head_fields [simp]:
  "req_method (received_head r) = req_method r" "req_version (received_head r) = req_version r"
  "req_headers (received_head r) = req_headers r" "req_cookies (received_head r) = req_cookies r"
  "req_path (received_head r) = req_path (set_target (req_path r) request_default)"
  "req_query (received_head r) = req_query (set_target (req_path r) request_default)"
  "req_queries (received_head r) = req_queries (set_target (req_path r) request_default)"
  by (simp_all add: received_head_def set_target_def Let_def split: option.splits)

lemma set_target_cookies [simp]: "req_cookies (set_target t d) = req_cookies d"
  by (simp add: set_target_def Let_def split: option.splits)

lemma request_default_maps [simp]: "req_headers request_default = []" "req_cookies request_default = []"
  "req_contentLength request_default = 0"
  by (simp_all add: request_default_def)

lemma req_cookies_same: "req_cookies x = cs \<Longrightarrow> x\<lparr>req_cookies := cs\<rparr> = x"
  by (cases x) simp

lemma expects_more_headers:
  "parser_state p = ExpectHeader \<Longrightarrow> [] \<notin> set ls \<Longrightarrow> parser_errorCode (fold request_parseHeader ls p) = PE_None \<Longrightarrow>
   expects_more (request_parseLine reg) ls p"
proof (induction ls arbitrary: p)
  case (Cons l ls)
  have "parser_errorCode (request_parseHeader l p) = PE_None"
    using Cons.prems(3) fold_parseHeader_error [of "request_parseHeader l p" ls] by auto
  then have "parser_state (request_parseHeader l p) = ExpectHeader"
    using step_ok_request_header [of p l] Cons.prems(1) by (auto simp: step_ok_def split: if_splits)
  with Cons show ?case by (auto simp: request_parseLine_def Let_def)
qed simp

lemma run_request_lines:
  assumes "request_ok reg r"
  shows "request_run reg (request_lines reg r) (parser_init request_default) =
      (parser_init (received_head r))\<lparr>parser_state := ExpectHeader\<rparr>"
    and "expects_more (request_parseLine reg) (request_lines reg r) (parser_init request_default)"
proof -
  let ?d = "set_target (req_path r) (request_default\<lparr>req_method := req_method r, req_version := req_version r\<rparr>)"
  let ?p = "(parser_init ?d)\<lparr>parser_state := ExpectHeader\<rparr>"
  have first: "request_parseLine reg (request_line reg r) (parser_init request_default) = (ExpectHeader, ?p)"
    using assms
      parseRequestLine_text [of "method_toString reg (req_method r)" "req_path r" reg "toVersionString (req_version r)"
        "parser_init request_default"]
    by (simp add: request_parseLine_def request_line_def request_ok_def parser_init_def)
  let ?ls = "map header_line (req_headers r) @
     (if req_cookies r \<noteq> [] then [''Cookie: '' @ cookie_items True (req_cookies r)] else [])"
  have hs: "headers_ok (req_headers r)" "''cookie'' \<notin> fst ` set (req_headers r)" "omap_inv (req_headers r)"
    using assms by (auto simp: request_ok_def headers_ok_def header_map_inv_def)
  let ?q = "?p\<lparr>parser_data := ?d\<lparr>req_headers := req_headers r\<rparr>\<rparr>"
  have headers: "fold request_parseHeader (map header_line (req_headers r)) ?p = ?q"
    using hs(3) fold_emplace_sorted [OF hs(3)]
    by (subst fold_parse_headers [OF hs(1,2)]) (auto simp: omap_inv_def strict_sorted_iff)
  have cookies: "request_parseHeader (''Cookie: '' @ cookie_items True (req_cookies r)) ?q =
      ?q\<lparr>parser_data := (parser_data ?q)\<lparr>req_cookies := req_cookies r\<rparr>\<rparr>"
    using assms by (intro parse_cookie_line) (simp_all add: request_ok_def)
  have fold: "fold request_parseHeader ?ls ?p = (parser_init (received_head r))\<lparr>parser_state := ExpectHeader\<rparr>"
  proof (cases "req_cookies r = []")
    case True
    have "received_head r = ?d\<lparr>req_headers := req_headers r\<rparr>"
      unfolding received_head_def by (rule req_cookies_same) (simp add: True)
    with True headers show ?thesis by (simp add: parser_init_def)
  qed (use headers cookies in \<open>simp add: received_head_def parser_init_def\<close>)
  have "[] \<notin> set ?ls" using request_lines_no_cr(2) [OF assms, of "[]"] by (auto simp: request_lines_def)
  with first fold show "request_run reg (request_lines reg r) (parser_init request_default) =
      (parser_init (received_head r))\<lparr>parser_state := ExpectHeader\<rparr>"
    using request_run_headers [of ?p ?ls reg] by (simp add: request_lines_def)
  show "expects_more (request_parseLine reg) (request_lines reg r) (parser_init request_default)"
    using first fold \<open>[] \<notin> set ?ls\<close> expects_more_headers [of ?p ?ls reg] by (simp add: request_lines_def parser_init_def)
qed


section \<open>The framing headers\<close>

declare announce.simps [simp del]

lemma announce_headers:
  "out_headers (announce ContentLength n m) =
     omap_assign ''content-length'' (httpHeader ''content-length'' (to_string n)) (out_headers m)"
  "out_headers (announce Chunked n m) =
     omap_assign ''transfer-encoding'' (httpHeader ''transfer-encoding'' ''chunked'') (out_headers m)"
  "out_headers (announce UntilClose n m) = out_headers m"
  by (cases m; simp add: announce.simps httpHeader_codes)+

lemma to_string_line_value: "line_value_ok (to_string n)" "to_string n \<noteq> []" "hd (to_string n) \<noteq> CHR ''-''"
proof -
  have "hd (to_string n) \<in> set (to_string n)" by simp
  then show "hd (to_string n) \<noteq> CHR ''-''" using to_string_no_control [of "hd (to_string n)" n] by auto
qed (use trimmed_to_string [of n] to_string_no_control [of "CHR 0x0D" n] in \<open>auto simp: line_value_ok_def\<close>)

lemma framing_names:
  "isValidToken ''content-length''" "toLower ''content-length'' = ''content-length''"
  "isValidToken ''transfer-encoding''" "toLower ''transfer-encoding'' = ''transfer-encoding''"
  "line_value_ok ''chunked''"
  by (simp_all add: isValidToken_def is_tchar_def toLower_def char_eval line_value_ok_def trimmed_def)

lemma headers_ok_announce: "headers_ok (out_headers m) \<Longrightarrow> headers_ok (out_headers (announce mode n m))"
  by (cases mode) (simp_all add: announce_headers headers_ok_assign framing_names to_string_line_value)

lemma announce_find:
  "k \<notin> {''content-length'', ''transfer-encoding''} \<Longrightarrow>
   omap_find (out_headers (announce mode n m)) k = omap_find (out_headers m) k"
  by (cases mode) (simp_all add: announce_headers)

lemma announce_decision:
  assumes "framing_unset n m" "n < 2 ^ 64"
  shows "body_decision (out_headers (announce ContentLength n m)) other = Decide ContentLength (Some n)"
    and "body_decision (out_headers (announce Chunked n m)) other = Decide Chunked None"
    and "omap_find (out_headers m) ''content-length'' = None \<Longrightarrow>
      body_decision (out_headers (announce UntilClose n m)) other = other"
  using assms to_string_line_value [of n]
  by (simp_all add: announce_headers body_decision_def content_length_decision_def framing_unset_def Let_def)

lemma omap_assign_length: "length (omap_assign k v m) \<le> Suc (length m)"
  by (induction m) auto

lemma announce_length: "length (out_headers (announce mode n m)) \<le> Suc (length (out_headers m))"
  by (cases mode) (simp_all add: announce_headers omap_assign_length)

lemma announce_lines:
  assumes "n < 2 ^ 64" "\<forall>l \<in> set (map header_line (out_headers m)). length l < k" "64 \<le> k"
  shows "\<forall>l \<in> set (map header_line (out_headers (announce mode n m))). length l < k"
proof -
  have "length (to_string n) \<le> 20" using show_base_length [of 10 n 19] assms(1) by simp
  then have "length (header_line (''content-length'', httpHeader ''content-length'' (to_string n))) < k"
      "length (header_line (''transfer-encoding'', httpHeader ''transfer-encoding'' ''chunked'')) < k"
    using assms(3) by (simp_all add: header_line_def toLower_def)
  with assms(2) show ?thesis
    using set_omap_assign [of "''content-length''" "httpHeader ''content-length'' (to_string n)" "out_headers m"]
      set_omap_assign [of "''transfer-encoding''" "httpHeader ''transfer-encoding'' ''chunked''" "out_headers m"]
    by (cases mode) (auto simp: announce_headers)
qed

lemma announce_request:
  assumes "request_ok reg r" "mode \<noteq> UntilClose"
  obtains r' where "announce mode n (Out_request r) = Out_request r'" "request_ok reg r'"
    "r' = r\<lparr>req_headers := out_headers (announce mode n (Out_request r))\<rparr>"
proof -
  define r' where "r' = r\<lparr>req_headers := out_headers (announce mode n (Out_request r))\<rparr>"
  have "announce mode n (Out_request r) = Out_request r'" using assms(2) by (cases mode) (simp_all add: r'_def announce.simps)
  moreover have "headers_ok (req_headers r')"
    using assms(1) headers_ok_announce [of "Out_request r" mode n] by (simp add: r'_def request_ok_def)
  moreover have "''cookie'' \<notin> fst ` set (req_headers r')"
    using assms announce_find [of "''cookie''" mode n "Out_request r"]
    by (simp add: r'_def request_ok_def flip: map_of_eq_None_iff)
  ultimately show ?thesis using assms(1) r'_def by (intro that) (simp_all add: request_ok_def)
qed



section \<open>A request through the server's parser\<close>

definition keep_alive :: "http_request \<Rightarrow> bool" where
  "keep_alive d =
     (case omap_find (req_headers d) ''connection'' of
        Some h \<Rightarrow> toLower (header_value h) = ''keep-alive''
      | None \<Rightarrow> req_version d = KHttp11)"

lemma request_end_line:
  assumes "body_decision (req_headers d) (Decide ContentLength (Some 0)) = Decide mode len"
  shows "request_parseLine reg [] ((parser_init d)\<lparr>parser_state := ExpectHeader\<rparr>) =
    (HeaderComplete, (parser_init (d\<lparr>req_transferMode := mode,
        req_contentLength := (case len of None \<Rightarrow> req_contentLength d | Some n \<Rightarrow> n), req_keepAlive := keep_alive d\<rparr>))
      \<lparr>parser_state := HeaderComplete\<rparr>)"
  using assms
  by (cases len; cases "omap_find (req_headers d) ''connection''")
     (simp_all add: request_parseLine_def request_processHeaders_def request_processTransferMode_def processKeepAlive_def
       parser_init_def keep_alive_def Let_def)

lemma server_parses_request:
  assumes "request_ok reg r" "body_decision (req_headers r) (Decide ContentLength (Some 0)) = Decide mode len"
    and "\<forall>l \<in> set (request_lines reg r). length l < kMaxHeaderLineSize" "length (req_headers r) \<le> kMaxHeaderCount - 3"
    and "stream_wf (peer c)" "wire c = head_text reg date sd (Out_request r) @ rest"
  shows "\<exists>c'. server_parseNext reg c =
      Inr (extractResult (parser_init ((received_head r)\<lparr>req_transferMode := mode,
        req_contentLength := (case len of None \<Rightarrow> 0 | Some n \<Rightarrow> n), req_keepAlive := keep_alive (received_head r)\<rparr>)), c') \<and>
    wire c' = rest \<and> stream_wf (peer c')"
proof -
  let ?d = "received_head r"
  have "req_headers ?d = req_headers r" "req_contentLength ?d = 0"
    by (simp_all add: received_head_def set_target_def Let_def split: option.splits)
  with request_end_line [of ?d mode len reg] assms(2) have last:
    "request_parseLine reg [] ((parser_init ?d)\<lparr>parser_state := ExpectHeader\<rparr>) =
      (HeaderComplete, (parser_init (?d\<lparr>req_transferMode := mode,
        req_contentLength := (case len of None \<Rightarrow> 0 | Some n \<Rightarrow> n), req_keepAlive := keep_alive ?d\<rparr>))
      \<lparr>parser_state := HeaderComplete\<rparr>)" by (cases len) simp_all
  have "length (request_lines reg r) \<le> 127"
    using assms(4) by (simp add: request_lines_def kMaxHeaderCount_def)
  moreover have "\<forall>l \<in> set (request_lines reg r @ [[]]). CHR 0x0D \<notin> set l \<and> \<not> over (Some kMaxHeaderLineSize) (length l + 1)"
    using assms(3) request_lines_no_cr(1) [OF assms(1)] by (auto simp: over_def kMaxHeaderLineSize_def)
  ultimately have "head_spec request_default (Some kMaxHeaderLineSize) (Some kMaxHeaderCount) (request_parseLine reg) 0
      (parser_init request_default) (lines_text (request_lines reg r @ [[]]) @ rest) =
    Some (extractResult ((parser_init (?d\<lparr>req_transferMode := mode,
        req_contentLength := (case len of None \<Rightarrow> 0 | Some n \<Rightarrow> n), req_keepAlive := keep_alive ?d\<rparr>))
      \<lparr>parser_state := HeaderComplete\<rparr>), rest)"
    using run_request_lines [OF assms(1)] last
    by (intro head_spec_lines [where st = HeaderComplete]) (simp_all add: request_run_def over_def kMaxHeaderCount_def)
  with assms(5,6) show ?thesis
    unfolding server_parseNext_def
    using head_loop_spec [of c request_default "Some kMaxHeaderLineSize" "Some kMaxHeaderCount" "request_parseLine reg" 0]
    by (simp add: head_text_request extractResult_def)
qed

lemma framed_delivers:
  assumes "mode = UntilClose \<longrightarrow> rest = []" "length (concat ds) < 2 ^ 64"
    "mode \<noteq> Chunked \<longrightarrow> n = length (concat ds)"
  shows "impl_delivers (reader_impl (reader_create mode n)) (framed mode ds @ rest) (concat ds) rest"
proof -
  have "length d \<le> length (concat ds)" if "d \<in> set ds" for d
    using that by (induction ds) auto
  then have "\<forall>d \<in> set ds. length d < 2 ^ 64" using assms(2) by force
  moreover have "reader_create mode n = reader_create mode (length (concat ds))"
    using assms(3) by (cases mode) (simp_all add: reader_create_def)
  ultimately show ?thesis using reader_create_delivers [OF assms(1)] by (simp add: framed_def)
qed


section \<open>A message from end to end\<close>

text \<open>The request \<open>d\<close> that a server parsed is the request \<open>r\<close> that a client sent.\<close>

definition same_request :: "http_request \<Rightarrow> http_request \<Rightarrow> bool" where
  "same_request r d \<longleftrightarrow>
     req_method d = req_method r \<and> req_version d = req_version r \<and> req_cookies d = req_cookies r \<and>
     req_path d = req_path (set_target (req_path r) request_default) \<and>
     req_query d = req_query (set_target (req_path r) request_default) \<and>
     req_queries d = req_queries (set_target (req_path r) request_default) \<and>
     (\<forall>k. k \<notin> {''content-length'', ''transfer-encoding''} \<longrightarrow> omap_find (req_headers d) k = omap_find (req_headers r) k)"

text \<open>A request and a body that a client can send and that stay within the limits of the server.\<close>

definition sendable :: "method_registry \<Rightarrow> outgoing \<Rightarrow> http_request \<Rightarrow> string list \<Rightarrow> string \<Rightarrow> bool" where
  "sendable reg ob r ds fin \<longleftrightarrow>
     fresh ob \<and> \<not> ignoreBody ob \<and> out_data ob = Out_request r \<and> request_ok reg r \<and>
     framing_unset (length (concat ds @ fin)) (Out_request r) \<and> length (concat ds @ fin) < 2 ^ 64 \<and>
     (\<forall>l \<in> set (request_lines reg r). length l < kMaxHeaderLineSize) \<and> length (req_headers r) \<le> 124"

lemma request_arrives:
  assumes "sendable reg ob r ds fin"
  shows "\<exists>ob' s'. send_message reg date ds fin ob empty_stream = Inr (ob', s') \<and> sent_bytes s' \<noteq> [] \<and>
    (\<forall>c rest. stream_wf (peer c) \<longrightarrow> wire c = sent_bytes s' @ rest \<longrightarrow>
      (\<exists>res c1. server_parseNext reg c = Inr (res, c1) \<and> \<not> result_error res \<and> same_request r (result_message res) \<and>
        stream_wf (peer c1) \<and>
        impl_delivers (reader_impl (reader_create (req_transferMode (result_message res)) (req_contentLength (result_message res))))
          (wire c1) (concat ds @ fin) rest))"
proof -
  let ?m = "out_data ob"
  define n where "n = length (concat ds @ fin)"
  note ok = assms [unfolded sendable_def, folded n_def]
  have m: "?m = Out_request r" and r: "request_ok reg r" and n: "n < 2 ^ 64" and fr: "framing_unset n ?m"
    using ok by simp_all
  define mode where "mode = chosen_mode ds ?m"
  have mode: "mode \<noteq> UntilClose" "mode = Chunked \<or> mode = ContentLength"
    by (auto simp: mode_def chosen_mode_def m split: if_splits)
  obtain r' where r': "announce mode n ?m = Out_request r'" "request_ok reg r'"
      "r' = r\<lparr>req_headers := out_headers (announce mode n ?m)\<rparr>"
    using announce_request [OF r mode(1)] m by metis
  obtain ob' s' where s': "send_message reg date ds fin ob empty_stream = Inr (ob', s')"
      "sent_bytes s' = head_text reg date (sendDateHeader ob) (Out_request r') @ framed mode (ds @ [fin])"
    using send_message_sent [OF _ _ fr n n_def mode_def, of reg date empty_stream] ok r'(1) by auto
  obtain len where len: "body_decision (req_headers r') (Decide ContentLength (Some 0)) = Decide mode len"
      "mode \<noteq> Chunked \<longrightarrow> len = Some n"
    using announce_decision(1,2) [of n ?m "Decide ContentLength (Some 0)"] fr n r'(1) mode(2) by auto
  have lines: "\<forall>l \<in> set (request_lines reg r'). length l < kMaxHeaderLineSize"
    using announce_lines [of n ?m kMaxHeaderLineSize mode] ok m n r'
    by (auto simp: request_lines_def request_line_def kMaxHeaderLineSize_def split: if_splits)
  have count: "length (req_headers r') \<le> kMaxHeaderCount - 3"
    using announce_length [of mode n ?m] ok m r' by (simp add: kMaxHeaderCount_def)
  let ?d = "(received_head r')\<lparr>req_transferMode := mode, req_contentLength := (case len of None \<Rightarrow> 0 | Some n \<Rightarrow> n),
    req_keepAlive := keep_alive (received_head r')\<rparr>"
  let ?res = "extractResult (parser_init ?d)"
  have res: "\<not> result_error ?res" "same_request r (result_message ?res)"
    using announce_find [of _ mode n ?m] m r'(3)
    by (simp_all add: same_request_def result_error_def extractResult_def)
  have "\<exists>res c1. server_parseNext reg c = Inr (res, c1) \<and> \<not> result_error res \<and> same_request r (result_message res) \<and>
      stream_wf (peer c1) \<and>
      impl_delivers (reader_impl (reader_create (req_transferMode (result_message res)) (req_contentLength (result_message res))))
        (wire c1) (concat ds @ fin) rest" if c: "stream_wf (peer c)" "wire c = sent_bytes s' @ rest" for c rest
  proof -
    obtain c1 where c1: "server_parseNext reg c = Inr (?res, c1)"
        "wire c1 = framed mode (ds @ [fin]) @ rest" "stream_wf (peer c1)"
      using server_parses_request [OF r'(2) len(1) lines count c(1), of date "sendDateHeader ob" "framed mode (ds @ [fin]) @ rest"]
        c(2) s'(2) by auto
    have "impl_delivers (reader_impl (reader_create mode (req_contentLength ?d))) (wire c1) (concat ds @ fin) rest"
      using framed_delivers [of mode rest "ds @ [fin]" "req_contentLength ?d"] mode(1) len(2) n c1(2) by (auto simp: n_def)
    with c1 res show ?thesis
      by - (rule exI [of _ ?res], rule exI [of _ c1], simp add: extractResult_def)
  qed
  moreover have "sent_bytes s' \<noteq> []" by (simp add: s'(2) head_text_request crlf_def)
  ultimately show ?thesis using s'(1) by blast
qed


section \<open>Properties\<close>

text \<open>
  C4. A request that a client sends arrives.  Take any request with a registered method, a target
  without blanks and headers and cookies that fit on their lines, on which the caller set no
  framing header (or the right content length), and any body, written in any pieces and ended
  with or without a last piece.  Then sending succeeds, and a server that gets the bytes, in
  whatever segments and followed by whatever else, parses a request without error that has
  the method, version, target, cookies and headers of the client; the body reader created for it
  yields exactly the body; and the bytes behind it are left for the next request.  The server's
  limits are the only further assumption: lines below 8192 bytes and at most 124 headers.
\<close>

theorem request_exchange:
  assumes "sendable reg ob r ds fin"
  shows "\<exists>ob' s'. send_message reg date ds fin ob empty_stream = Inr (ob', s') \<and>
    (\<forall>c rest. stream_wf (peer c) \<and> wire c = sent_bytes s' @ rest \<longrightarrow>
      (\<exists>res c1 b c2. server_parseNext reg c = Inr (res, c1) \<and> \<not> result_error res \<and>
        same_request r (result_message res) \<and>
        complete_body (reader_create (req_transferMode (result_message res)) (req_contentLength (result_message res))) c1 =
          Inr (concat ds @ fin, b, c2) \<and>
        wire c2 = rest))"
proof -
  from request_arrives [OF assms, of date] obtain ob' s' where s':
    "send_message reg date ds fin ob empty_stream = Inr (ob', s')"
    "\<And>c rest. stream_wf (peer c) \<Longrightarrow> wire c = sent_bytes s' @ rest \<Longrightarrow>
      \<exists>res c1. server_parseNext reg c = Inr (res, c1) \<and> \<not> result_error res \<and> same_request r (result_message res) \<and>
        stream_wf (peer c1) \<and>
        impl_delivers (reader_impl (reader_create (req_transferMode (result_message res)) (req_contentLength (result_message res))))
          (wire c1) (concat ds @ fin) rest" by blast
  show ?thesis
  proof (rule exI [of _ ob'], rule exI [of _ s'], rule conjI [OF s'(1)], intro allI impI, elim conjE)
    fix c rest assume "stream_wf (peer c)" "wire c = sent_bytes s' @ rest"
    from s'(2) [OF this] obtain res c1 where c1: "server_parseNext reg c = Inr (res, c1)" "\<not> result_error res"
      "same_request r (result_message res)" "stream_wf (peer c1)"
      "impl_delivers (reader_impl (reader_create (req_transferMode (result_message res)) (req_contentLength (result_message res))))
        (wire c1) (concat ds @ fin) rest" by blast
    have "\<not> draining (reader_create (req_transferMode (result_message res)) (req_contentLength (result_message res)))"
      by (simp add: reader_create_def)
    from complete_body_delivers [OF c1(5,4) this] c1(1-3)
    show "\<exists>res c1 b c2. server_parseNext reg c = Inr (res, c1) \<and> \<not> result_error res \<and>
        same_request r (result_message res) \<and>
        complete_body (reader_create (req_transferMode (result_message res)) (req_contentLength (result_message res))) c1 =
          Inr (concat ds @ fin, b, c2) \<and>
        wire c2 = rest" by blast
  qed
qed

definition sample_request :: outgoing where
  "sample_request =
     setCookie ''id'' ''42'' (setHeader ''X-Tag'' ''a b'' (setPath ''/a?q=1'' (setMethod method_Get (outgoing_request None))))"

lemma sample_request_data:
  "out_data sample_request =
     Out_request (request_default\<lparr>req_method := method_Get, req_path := ''/a?q=1'',
       req_headers := [(''x-tag'', httpHeader ''X-Tag'' ''a b'')], req_cookies := [(''id'', ''42'')]\<rparr>)"
  by (simp add: sample_request_def setMethod_def setPath_def setHeader_def setCookie_def outgoing_request_def
      outgoing_init_def request_default_def httpHeader_def toLower_def char_eval)

lemma sample_request_ok:
  "request_ok methodRegistry (request_default\<lparr>req_method := method_Get, req_path := ''/a?q=1'',
     req_headers := [(''x-tag'', httpHeader ''X-Tag'' ''a b'')], req_cookies := [(''id'', ''42'')]\<rparr>)"
proof -
  have "toLower ''X-Tag'' = ''x-tag''" "toLower ''x-tag'' = ''x-tag''" by (simp_all add: toLower_def char_eval)
  then have "httpHeader ''X-Tag'' ''a b'' = httpHeader ''x-tag'' ''a b''" by (simp add: httpHeader_def)
  with \<open>toLower ''x-tag'' = ''x-tag''\<close> show ?thesis
    by (simp add: request_ok_def method_toString_def method_fromString_def methodRegistry_eval request_default_def
        headers_ok_def header_map_inv_def omap_inv_def isValidToken_def is_tchar_def line_value_ok_def trimmed_def
        cookies_ok_def)
qed

lemma sample_sendable:
  "sendable methodRegistry sample_request (request_default\<lparr>req_method := method_Get, req_path := ''/a?q=1'',
     req_headers := [(''x-tag'', httpHeader ''X-Tag'' ''a b'')], req_cookies := [(''id'', ''42'')]\<rparr>) [''he'', ''llo''] ''!''"
proof -
  let ?r = "request_default\<lparr>req_method := method_Get, req_path := ''/a?q=1'',
     req_headers := [(''x-tag'', httpHeader ''X-Tag'' ''a b'')], req_cookies := [(''id'', ''42'')]\<rparr>"
  have "fresh sample_request" "\<not> ignoreBody sample_request"
    by (simp_all add: sample_request_def setMethod_def setPath_def setHeader_def setCookie_def outgoing_request_def
        outgoing_init_def fresh_def await_prev_def)
  moreover have "framing_unset (length (concat [''he'', ''llo''] @ ''!'')) (Out_request ?r)"
    using sample_request_ok by (simp add: framing_unset_def request_ok_def headers_ok_def)
  moreover have "\<forall>l \<in> set (request_lines methodRegistry ?r). length l < kMaxHeaderLineSize"
    by (simp add: request_lines_def request_line_def header_line_def kMaxHeaderLineSize_def method_toString_def
        methodRegistry_eval toVersionString_def request_default_def httpHeader_def toLower_def)
  ultimately show ?thesis
    using sample_request_data sample_request_ok unfolding sendable_def by auto
qed

theorem request_exchange_witness:
  "\<exists>ob' s'. send_message methodRegistry [] [''he'', ''llo''] ''!'' sample_request empty_stream = Inr (ob', s') \<and>
     (\<forall>c rest. stream_wf (peer c) \<and> wire c = sent_bytes s' @ rest \<longrightarrow>
        (\<exists>res c1. server_parseNext methodRegistry c = Inr (res, c1) \<and> \<not> result_error res))"
  using request_exchange [OF sample_sendable, of "[]"] by blast

end
