(* ===== verification/Http_Reply.thy ===== *)
theory Http_Reply
  imports Prelude Byte_Stream Http_Header Cookie Http_Message Http_Parser Http_Body Http_Outgoing Http_Head Http_Exchange
begin

text \<open>
  The way back: a response written by \<^verbatim>\<open>HttpOutgoingStream<HttpResponse>\<close> and read by \<^verbatim>\<open>parseNext\<close> of
  the client, \<^verbatim>\<open>HttpParser<HttpResponse>\<close> and \<^verbatim>\<open>BodyReader\<close>.
\<close>


section \<open>Responses\<close>

definition effective_reason :: "http_response \<Rightarrow> string" where
  "effective_reason r =
     (if resp_statusReason r = [] then getDefaultReason (resp_statusCode r) else resp_statusReason r)"

definition status_line :: "http_response \<Rightarrow> string" where
  "status_line r =
     toVersionString (resp_version r) @ CHR '' '' # to_string (unat (resp_statusCode r)) @ CHR '' '' # effective_reason r"

text \<open>The header lines behind the caller's own: the date and the fate of the connection.\<close>

definition extra_headers :: "string \<Rightarrow> bool \<Rightarrow> http_response \<Rightarrow> (string \<times> string) list" where
  "extra_headers date sd r =
     (if sd \<and> omap_find (resp_headers r) ''date'' = None then [(''Date'', date)] else []) @
     (if omap_find (resp_headers r) ''connection'' = None then
        (if resp_shouldClose r then [(''Connection'', ''close'')]
         else if resp_version r = KHttp10 then [(''Connection'', ''keep-alive'')] else [])
      else [])"

definition field_line :: "string \<times> string \<Rightarrow> string" where
  "field_line nv = fst nv @ '': '' @ snd nv"

definition response_fields :: "string \<Rightarrow> bool \<Rightarrow> http_response \<Rightarrow> (string \<times> string) list" where
  "response_fields date sd r =
     map (\<lambda>(k, h). (header_name h, header_value h)) (resp_headers r) @
     map (\<lambda>c. (''Set-Cookie'', cookie_toString c)) (resp_cookies r) @ extra_headers date sd r"

lemma head_text_response:
  "head_text reg date sd (Out_response r) =
     lines_text (status_line r # map field_line (response_fields date sd r) @ [[]])"
proof -
  have "header_lines hs = lines_text (map field_line (map (\<lambda>(k, h). (header_name h, header_value h)) hs))" for hs
    by (induction hs) (auto simp: header_lines_def field_line_def)
  moreover have "concat (map (\<lambda>c. ''Set-Cookie: '' @ cookie_toString c @ crlf) cs) =
      lines_text (map field_line (map (\<lambda>c. (''Set-Cookie'', cookie_toString c)) cs))" for cs
    by (induction cs) (auto simp: field_line_def)
  ultimately show ?thesis
    by (simp add: head_text_def buildHeaders_response_def status_line_def effective_reason_def response_fields_def
        extra_headers_def field_line_def)
qed

definition response_ok :: "string \<Rightarrow> http_response \<Rightarrow> bool" where
  "response_ok date r \<longleftrightarrow>
     resp_version r \<noteq> KUnknown \<and> 100 \<le> unat (resp_statusCode r) \<and> unat (resp_statusCode r) \<le> 999 \<and>
     CHR 0x0D \<notin> set (effective_reason r) \<and>
     headers_ok (resp_headers r) \<and> ''set-cookie'' \<notin> fst ` set (resp_headers r) \<and>
     (\<forall>c \<in> set (resp_cookies r). cookie_wf c \<and> CHR 0x0D \<notin> set (cookie_toString c)) \<and>
     line_value_ok date"

definition field_ok :: "string \<times> string \<Rightarrow> bool" where
  "field_ok nv \<longleftrightarrow> isValidToken (fst nv) \<and> line_value_ok (snd nv)"

lemma trimmed_append: "a \<noteq> [] \<Longrightarrow> hd a \<noteq> CHR '' '' \<Longrightarrow> b \<noteq> [] \<Longrightarrow> last b \<noteq> CHR '' '' \<Longrightarrow> trimmed (a @ b)"
  by (simp add: trimmed_def)

lemma attribute_texts_last:
  assumes "cookie_wf c" "a \<in> set (attribute_texts c)"
  shows "a \<noteq> []" "last a \<noteq> CHR '' ''"
  using assms trimmed_to_string
  by (auto simp: attribute_texts_def attr_pair_def cookie_wf_def trimmed_def split: if_splits same_site.splits)

lemma trimmed_cookie_toString:
  assumes "cookie_wf c"
  shows "trimmed (cookie_toString c)"
proof -
  let ?h = "cookie_name c @ CHR ''='' # cookie_value c" and ?as = "attribute_texts c"
  have h: "trimmed ?h" using assms by (intro trimmed_pair) (simp_all add: cookie_wf_def)
  show ?thesis
  proof (cases "?as = []")
    case True
    with h show ?thesis by (simp add: cookie_toString_attributes attribute_list_def)
  next
    case False
    then obtain as a where as: "?as = as @ [a]" by (metis rev_exhaust)
    then have "attribute_list ?as \<noteq> [] \<and> last (attribute_list ?as) \<noteq> CHR '' ''"
      using attribute_texts_last [OF assms, of a] by (simp add: attribute_list_def)
    moreover have "?h \<noteq> []" "hd ?h \<noteq> CHR '' ''" using h by (auto simp: trimmed_def)
    ultimately show ?thesis unfolding cookie_toString_attributes by (blast intro: trimmed_append)
  qed
qed

lemma response_fields_ok:
  assumes "response_ok date r" "nv \<in> set (response_fields date sd r)"
  shows "field_ok nv"
proof -
  have lits: "isValidToken ''Set-Cookie''" "isValidToken ''Date''" "isValidToken ''Connection''"
      "line_value_ok ''close''" "line_value_ok ''keep-alive''"
    by (simp_all add: isValidToken_def is_tchar_def line_value_ok_def trimmed_def)
  consider (header) k h where "(k, h) \<in> set (resp_headers r)" "nv = (header_name h, header_value h)"
    | (cookie) c where "c \<in> set (resp_cookies r)" "nv = (''Set-Cookie'', cookie_toString c)"
    | (extra) "nv \<in> set (extra_headers date sd r)"
    using assms(2) by (auto simp: response_fields_def)
  then show ?thesis
  proof cases
    case header
    then show ?thesis using headers_ok_entry [of "resp_headers r" k h] assms(1)
      by (simp add: field_ok_def response_ok_def line_value_ok_def)
  next
    case cookie
    then show ?thesis using assms(1) lits trimmed_cookie_toString
      by (auto simp: field_ok_def response_ok_def line_value_ok_def)
  next
    case extra
    then show ?thesis using assms(1) lits
      by (auto simp: field_ok_def extra_headers_def response_ok_def split: if_splits)
  qed
qed



section \<open>Parsing the lines\<close>

lemma parse_status_line:
  assumes "response_ok date r"
  shows "parseStatusLine (status_line r) p =
    (True, p\<lparr>parser_data := (parser_data p)\<lparr>resp_version := resp_version r, resp_statusCode := resp_statusCode r,
       resp_statusReason := effective_reason r\<rparr>\<rparr>)"
proof -
  let ?v = "toVersionString (resp_version r)" and ?n = "unat (resp_statusCode r)"
  have v: "CHR '' '' \<notin> set ?v" by (cases "resp_version r") (simp_all add: toVersionString_def)
  have n: "CHR '' '' \<notin> set (to_string ?n)" using to_string_plain by blast
  have bounds: "?n < 2 ^ 31" "\<not> resp_statusCode r < 100" "\<not> 999 < resp_statusCode r"
    using assms by (auto simp: response_ok_def word_less_nat_alt)
  have code: "word_of_int (int ?n) = resp_statusCode r" by simp
  have "find_char CHR '' '' (status_line r) = Some (length ?v)"
    unfolding status_line_def by (rule find_char_append [OF v])
  moreover have "find_char_from CHR '' '' (length ?v + 1) (status_line r) = Some (length ?v + 1 + length (to_string ?n))"
    using n by (simp add: status_line_def find_char_from_def find_char_append)
  moreover have "take (length ?v) (status_line r) = ?v"
    "substr (length ?v + 1) (length ?v + 1 + length (to_string ?n) - length ?v - 1) (status_line r) = to_string ?n"
    "drop (length ?v + 1 + length (to_string ?n) + 1) (status_line r) = effective_reason r"
    by (simp_all add: status_line_def substr_def)
  ultimately show ?thesis
    using assms bounds code
    by (simp add: parseStatusLine_def Let_def response_ok_def del: of_int_of_nat_eq)
qed

lemma nameToCode_set_cookie: "nameToCode s = NC_SetCookie \<longleftrightarrow> s = ''set-cookie''"
  using nameToCode_known [of s NC_SetCookie] nameToCode_codeToName [of NC_SetCookie]
  by (auto simp: codeToName_def)

definition add_field :: "string \<times> string \<Rightarrow> http_response \<Rightarrow> http_response" where
  "add_field nv d =
     (if toLower (fst nv) = ''set-cookie''
      then d\<lparr>resp_cookies := response_parseCookies (snd nv) (resp_cookies d)\<rparr>
      else d\<lparr>resp_headers := omap_emplace (toLower (fst nv)) (httpHeader (fst nv) (snd nv)) (resp_headers d)\<rparr>)"

lemma parse_field:
  assumes "field_ok nv"
  shows "response_parseHeader (field_line nv) p = p\<lparr>parser_data := add_field nv (parser_data p)\<rparr>"
proof -
  have *: "isValidToken (fst nv)" "trimmed (snd nv)" using assms by (auto simp: field_ok_def line_value_ok_def)
  then have "parseHeaderLine (field_line nv) = (fst nv, snd nv)"
    unfolding field_line_def by (rule parseHeaderLine_text)
  with * isValidToken_plain(1) [OF *(1)] show ?thesis
    by (cases nv) (simp add: response_parseHeader_def add_field_def nameToCode_set_cookie Let_def)
qed

lemma field_line_plain: "field_ok nv \<Longrightarrow> field_line nv \<noteq> [] \<and> CHR 0x0D \<notin> set (field_line nv)"
  using token_no_cr by (auto simp: field_line_def field_ok_def line_value_ok_def)

lemma run_fields:
  "parser_state p = ExpectHeader \<Longrightarrow> \<forall>nv \<in> set fs. field_ok nv \<Longrightarrow>
   response_run (map field_line fs) p = p\<lparr>parser_data := fold add_field fs (parser_data p)\<rparr> \<and>
   expects_more response_parseLine (map field_line fs) p"
proof (induction fs arbitrary: p)
  case (Cons nv fs)
  then have "response_parseLine (field_line nv) p =
      (ExpectHeader, p\<lparr>parser_data := add_field nv (parser_data p)\<rparr>)"
    using field_line_plain [of nv] parse_field [of nv p] by (simp add: response_parseLine_def Let_def)
  with Cons show ?case by simp
qed simp

text \<open>The fields of a response, read one by one, rebuild its headers and cookies.\<close>

lemma fold_add_headers:
  assumes "\<forall>nv \<in> set fs. toLower (fst nv) \<noteq> ''set-cookie''"
  shows "fold add_field fs d =
    d\<lparr>resp_headers := fold (\<lambda>nv. omap_emplace (toLower (fst nv)) (httpHeader (fst nv) (snd nv))) fs (resp_headers d)\<rparr>"
  using assms by (induction fs arbitrary: d) (simp_all add: add_field_def)

lemma fold_add_cookies:
  assumes "\<forall>c \<in> set cs. cookie_wf c"
  shows "fold add_field (map (\<lambda>c. (''Set-Cookie'', cookie_toString c)) cs) d = d\<lparr>resp_cookies := resp_cookies d @ cs\<rparr>"
  using assms
proof (induction cs arbitrary: d)
  case (Cons c cs)
  have "toLower ''Set-Cookie'' = ''set-cookie''" by (simp add: toLower_def char_eval)
  moreover have "cookie_name c \<noteq> []" "cookie_wf c" using Cons.prems by (auto simp: cookie_wf_def)
  ultimately show ?case
    using Cons cookie_text_parses [of c] by (simp add: add_field_def response_parseCookies_def Let_def)
qed simp

definition with_extras :: "string \<Rightarrow> bool \<Rightarrow> http_response \<Rightarrow> header_map" where
  "with_extras date sd r =
     fold (\<lambda>nv. omap_emplace (toLower (fst nv)) (httpHeader (fst nv) (snd nv))) (extra_headers date sd r) (resp_headers r)"

lemma fold_response_fields:
  assumes "response_ok date r" "resp_headers d = []" "resp_cookies d = []"
  shows "fold add_field (response_fields date sd r) d =
    d\<lparr>resp_headers := with_extras date sd r, resp_cookies := resp_cookies r\<rparr>"
proof -
  let ?f = "\<lambda>nv. omap_emplace (toLower (fst nv)) (httpHeader (fst nv) (snd nv))"
  let ?hs = "map (\<lambda>(k, h). (header_name h, header_value h)) (resp_headers r)"
  have hs: "headers_ok (resp_headers r)" "omap_inv (resp_headers r)"
    using assms(1) by (auto simp: response_ok_def headers_ok_def header_map_inv_def)
  have entry: "toLower (header_name h) = k \<and> httpHeader (header_name h) (header_value h) = h \<and> header_name h = k"
    if "(k, h) \<in> set (resp_headers r)" for k h
    using headers_ok_entry(1,2) [OF hs(1) that] by (metis httpHeader_name(1))
  have "fold ?f (map (\<lambda>(k, h). (header_name h, header_value h)) ks) m = fold (\<lambda>(k, h). omap_emplace k h) ks m"
    if "set ks \<subseteq> set (resp_headers r)" for ks m
    using that by (induction ks arbitrary: m) (auto dest!: entry)
  then have "fold ?f ?hs [] = resp_headers r" using fold_emplace_sorted [OF hs(2)] by simp
  moreover have "\<forall>nv \<in> set ?hs. toLower (fst nv) \<noteq> ''set-cookie''"
    using assms(1) entry by (force simp: response_ok_def)
  ultimately have headers: "fold add_field ?hs d = d\<lparr>resp_headers := resp_headers r\<rparr>"
    using fold_add_headers [of ?hs d] assms(2) by simp
  have extra: "\<forall>nv \<in> set (extra_headers date sd r). toLower (fst nv) \<noteq> ''set-cookie''"
    by (auto simp: extra_headers_def toLower_def char_eval)
  show ?thesis
    using fold_add_headers [OF extra] fold_add_cookies [of "resp_cookies r"] assms(1,3) headers
    by (simp add: response_fields_def with_extras_def response_ok_def)
qed


definition close_announced :: "http_response \<Rightarrow> bool" where
  "close_announced d =
     (case omap_find (resp_headers d) ''connection'' of
        Some h \<Rightarrow> toLower (header_value h) = ''close''
      | None \<Rightarrow> resp_version d = KHttp10)"

text \<open>The message that the client has when the head is complete.\<close>

definition received_reply :: "string \<Rightarrow> bool \<Rightarrow> http_response \<Rightarrow> transfer_mode \<Rightarrow> nat option \<Rightarrow> http_response" where
  "received_reply date sd r mode len =
     (let d = response_default\<lparr>resp_version := resp_version r, resp_statusCode := resp_statusCode r,
        resp_statusReason := effective_reason r, resp_headers := with_extras date sd r, resp_cookies := resp_cookies r\<rparr>
      in d\<lparr>resp_transferMode := mode, resp_contentLength := (case len of None \<Rightarrow> 0 | Some n \<Rightarrow> n),
           resp_shouldClose := close_announced d\<rparr>)"

lemma client_parses_reply:
  assumes "response_ok date r" "body_decision (with_extras date sd r) (Decide UntilClose None) = Decide mode len"
    and "stream_wf (peer c)" "wire c = head_text reg date sd (Out_response r) @ rest"
  shows "\<exists>c'. client_parseNext c = Inr (extractResult (parser_init (received_reply date sd r mode len)), c') \<and>
    wire c' = rest \<and> stream_wf (peer c')"
proof -
  let ?fs = "response_fields date sd r"
  let ?d1 = "response_default\<lparr>resp_version := resp_version r, resp_statusCode := resp_statusCode r,
    resp_statusReason := effective_reason r\<rparr>"
  let ?d2 = "?d1\<lparr>resp_headers := with_extras date sd r, resp_cookies := resp_cookies r\<rparr>"
  let ?at = "\<lambda>d. (parser_init d)\<lparr>parser_state := ExpectHeader\<rparr>"
  have fields: "\<forall>nv \<in> set ?fs. field_ok nv" using response_fields_ok [OF assms(1)] by blast
  have first: "response_parseLine (status_line r) (parser_init response_default) = (ExpectHeader, ?at ?d1)"
    using parse_status_line [OF assms(1), of "parser_init response_default"]
    by (simp add: response_parseLine_def parser_init_def)
  have "fold add_field ?fs ?d1 = ?d2"
    using fold_response_fields [OF assms(1), of ?d1 sd] by (simp add: response_default_def)
  then have run: "response_run (map field_line ?fs) (?at ?d1) = ?at ?d2"
      "expects_more response_parseLine (map field_line ?fs) (?at ?d1)"
    using run_fields [of "?at ?d1" ?fs] fields by (simp_all add: parser_init_def)
  have last: "response_parseLine [] (?at ?d2) =
      (HeaderComplete, (parser_init (received_reply date sd r mode len))\<lparr>parser_state := HeaderComplete\<rparr>)"
    using assms(2)
    by (cases len; cases "omap_find (with_extras date sd r) ''connection''")
       (simp_all add: response_parseLine_def response_processHeaders_def response_processTransferMode_def
         processConnectionClose_def received_reply_def close_announced_def parser_init_def response_default_def Let_def)
  have status: "CHR 0x0D \<notin> set (status_line r)"
    using assms(1) version_no_cr to_string_no_control [of "CHR 0x0D"] by (auto simp: status_line_def response_ok_def)
  have "head_spec response_default None None response_parseLine 0 (parser_init response_default)
      (lines_text ((status_line r # map field_line ?fs) @ [[]]) @ rest) =
    Some (extractResult ((parser_init (received_reply date sd r mode len))\<lparr>parser_state := HeaderComplete\<rparr>), rest)"
    using first run last status field_line_plain fields
    by (intro head_spec_lines [where st = HeaderComplete]) (auto simp: response_run_def over_def)
  with assms(3,4) show ?thesis
    unfolding client_parseNext_def
    using head_loop_spec [of c response_default None None response_parseLine 0]
    by (simp add: head_text_response extractResult_def)
qed

lemma extras_find:
  "omap_find (with_extras date sd r) k =
     (if k = ''date'' \<and> sd \<and> omap_find (resp_headers r) k = None then Some (httpHeader ''Date'' date)
      else if k = ''connection'' \<and> omap_find (resp_headers r) k = None \<and> resp_shouldClose r
        then Some (httpHeader ''Connection'' ''close'')
      else if k = ''connection'' \<and> omap_find (resp_headers r) k = None \<and> resp_version r = KHttp10
        then Some (httpHeader ''Connection'' ''keep-alive'')
      else omap_find (resp_headers r) k)"
proof -
  have "toLower ''Date'' = ''date''" "toLower ''Connection'' = ''connection''" by (simp_all add: toLower_def char_eval)
  then show ?thesis by (cases "k = ''date''"; cases "k = ''connection''") (auto simp: with_extras_def extra_headers_def)
qed

lemma body_decision_extras: "body_decision (with_extras date sd r) other = body_decision (resp_headers r) other"
proof -
  have "content_length_decision (with_extras date sd r) other = content_length_decision (resp_headers r) other"
    by (simp add: content_length_decision_def extras_find)
  then show ?thesis
    by (cases "omap_find (resp_headers r) ''transfer-encoding''") (simp_all add: body_decision_def extras_find Let_def)
qed

lemma announce_response:
  assumes "response_ok date r"
  obtains r' where "announce mode n (Out_response r) = Out_response r'" "response_ok date r'"
    "r' = r\<lparr>resp_headers := out_headers (announce mode n (Out_response r)),
            resp_shouldClose := (mode = UntilClose \<or> resp_shouldClose r)\<rparr>"
proof -
  define r' where "r' = r\<lparr>resp_headers := out_headers (announce mode n (Out_response r)),
    resp_shouldClose := (mode = UntilClose \<or> resp_shouldClose r)\<rparr>"
  have "announce mode n (Out_response r) = Out_response r'" by (cases mode) (simp_all add: r'_def announce.simps)
  moreover have "headers_ok (resp_headers r')"
    using assms headers_ok_announce [of "Out_response r" mode n] by (simp add: r'_def response_ok_def)
  moreover have "''set-cookie'' \<notin> fst ` set (resp_headers r')"
    using assms announce_find [of "''set-cookie''" mode n "Out_response r"]
    by (simp add: r'_def response_ok_def flip: map_of_eq_None_iff)
  moreover have "effective_reason r' = effective_reason r" by (simp add: r'_def effective_reason_def)
  ultimately show ?thesis using assms r'_def by (intro that) (simp_all add: response_ok_def)
qed



section \<open>Properties\<close>

text \<open>
  C5. A response that a server sends arrives.  Take any response with a status code from 100 to
  999 and a reason, headers and cookies that fit on their lines, on which no framing header
  was set (or the right content length), and any body, written in any pieces.  Then sending
  succeeds, and a client that gets the bytes, in whatever segments, parses without error a
  response with that version, status, reason, cookies and headers; it learns whether the
  connection will be closed; and the body reader created for it yields exactly the body,
  leaving the bytes behind it.  Only a body without a length in HTTP/1.0 ends with the
  connection, and then the response announces that it will close.
\<close>

theorem response_exchange:
  assumes "fresh ob" "\<not> ignoreBody ob" "out_data ob = Out_response r" "response_ok date r"
    and "framing_unset n (Out_response r)" "n = length (concat ds @ fin)" "n < 2 ^ 64"
    and "mode = chosen_mode ds (Out_response r)"
  shows "\<exists>ob' s'. send_message reg date ds fin ob empty_stream = Inr (ob', s') \<and>
    (\<forall>c rest. stream_wf (peer c) \<and> wire c = sent_bytes s' @ rest \<and> (mode = UntilClose \<longrightarrow> rest = []) \<longrightarrow>
      (\<exists>res c1 b c2. client_parseNext c = Inr (res, c1) \<and> \<not> result_error res \<and>
        (let d = result_message res in
          resp_version d = resp_version r \<and> resp_statusCode d = resp_statusCode r \<and>
          resp_statusReason d = effective_reason r \<and> resp_cookies d = resp_cookies r \<and>
          (\<forall>k. k \<notin> {''content-length'', ''transfer-encoding'', ''date'', ''connection''} \<longrightarrow>
             omap_find (resp_headers d) k = omap_find (resp_headers r) k) \<and>
          (omap_find (resp_headers r) ''connection'' = None \<longrightarrow>
             resp_shouldClose d = (mode = UntilClose \<or> resp_shouldClose r)) \<and>
          complete_body (reader_create (resp_transferMode d) (resp_contentLength d)) c1 = Inr (concat ds @ fin, b, c2) \<and>
          wire c2 = rest)))"
proof -
  let ?m = "out_data ob"
  have mode: "mode = chosen_mode ds ?m" using assms(3,8) by simp
  obtain r' where r': "announce mode n ?m = Out_response r'" "response_ok date r'"
      "r' = r\<lparr>resp_headers := out_headers (announce mode n ?m), resp_shouldClose := (mode = UntilClose \<or> resp_shouldClose r)\<rparr>"
    using announce_response [OF assms(4)] assms(3) by metis
  obtain ob' s' where s': "send_message reg date ds fin ob empty_stream = Inr (ob', s')"
      "sent_bytes s' = head_text reg date (sendDateHeader ob) (Out_response r') @ framed mode (ds @ [fin])"
    using send_message_sent [OF assms(1,2) _ assms(7,6) mode, of reg date empty_stream] assms(3,5) r'(1) by auto
  have "mode = UntilClose \<Longrightarrow> omap_find (out_headers ?m) ''content-length'' = None"
    using mode by (auto simp: chosen_mode_def split: if_splits)
  then obtain len where len: "body_decision (resp_headers r') (Decide UntilClose None) = Decide mode len"
      "mode = ContentLength \<longrightarrow> len = Some n"
    using announce_decision [of n ?m "Decide UntilClose None"] assms(3,5,7) r'(1) by (cases mode) auto
  show ?thesis
  proof (rule exI [of _ ob'], rule exI [of _ s'], rule conjI [OF s'(1)], intro allI impI, elim conjE)
    fix c rest assume c: "stream_wf (peer c)" "wire c = sent_bytes s' @ rest" "mode = UntilClose \<longrightarrow> rest = []"
    let ?d = "received_reply date (sendDateHeader ob) r' mode len"
    obtain c1 where c1: "client_parseNext c = Inr (extractResult (parser_init ?d), c1)"
        "wire c1 = framed mode (ds @ [fin]) @ rest" "stream_wf (peer c1)"
      using client_parses_reply [OF r'(2), of "sendDateHeader ob" mode len c reg "framed mode (ds @ [fin]) @ rest"]
        len(1) c(1,2) s'(2) by (auto simp: body_decision_extras)
    have d: "resp_version ?d = resp_version r" "resp_statusCode ?d = resp_statusCode r"
        "resp_statusReason ?d = effective_reason r" "resp_cookies ?d = resp_cookies r"
        "resp_transferMode ?d = mode" "resp_headers ?d = with_extras date (sendDateHeader ob) r'"
      by (simp_all add: received_reply_def r'(3) effective_reason_def Let_def)
    have headers: "omap_find (resp_headers ?d) k = omap_find (resp_headers r) k"
      if "k \<notin> {''content-length'', ''transfer-encoding'', ''date'', ''connection''}" for k
    proof -
      have "omap_find (resp_headers r') k = omap_find (resp_headers r) k"
        using that announce_find [of k mode n ?m] assms(3) by (simp add: r'(3))
      with that show ?thesis by (simp add: d(6) extras_find)
    qed
    have close: "resp_shouldClose ?d = (mode = UntilClose \<or> resp_shouldClose r)"
      if "omap_find (resp_headers r) ''connection'' = None"
      using that announce_find [of "''connection''" mode n ?m] assms(3)
      by (simp add: received_reply_def close_announced_def Let_def extras_find r'(3) toLower_def char_eval)
    have "impl_delivers (reader_impl (reader_create mode (resp_contentLength ?d))) (wire c1) (concat ds @ fin) rest"
    proof (cases "mode = ContentLength")
      case True
      then show ?thesis using framed_delivers [of mode rest "ds @ [fin]" "resp_contentLength ?d"] len(2) assms(6,7) c1(2)
        by (simp add: received_reply_def Let_def)
    next
      case False
      then have "reader_create mode (resp_contentLength ?d) = reader_create mode n" by (cases mode) (simp_all add: reader_create_def)
      then show ?thesis using framed_delivers [of mode rest "ds @ [fin]" n] assms(6,7) c(3) c1(2) by simp
    qed
    then obtain b c2 where body: "complete_body (reader_create mode (resp_contentLength ?d)) c1 = Inr (concat ds @ fin, b, c2)"
        "wire c2 = rest"
      using complete_body_delivers [OF _ c1(3)] by (metis (no_types, lifting) body_reader.select_convs(2) reader_create_def)
    show "\<exists>res c1 b c2. client_parseNext c = Inr (res, c1) \<and> \<not> result_error res \<and>
        (let d = result_message res in
          resp_version d = resp_version r \<and> resp_statusCode d = resp_statusCode r \<and>
          resp_statusReason d = effective_reason r \<and> resp_cookies d = resp_cookies r \<and>
          (\<forall>k. k \<notin> {''content-length'', ''transfer-encoding'', ''date'', ''connection''} \<longrightarrow>
             omap_find (resp_headers d) k = omap_find (resp_headers r) k) \<and>
          (omap_find (resp_headers r) ''connection'' = None \<longrightarrow>
             resp_shouldClose d = (mode = UntilClose \<or> resp_shouldClose r)) \<and>
          complete_body (reader_create (resp_transferMode d) (resp_contentLength d)) c1 = Inr (concat ds @ fin, b, c2) \<and>
          wire c2 = rest)"
      by (rule exI [of _ "extractResult (parser_init ?d)"], rule exI [of _ c1], rule exI [of _ b], rule exI [of _ c2])
         (use c1(1) d(1-5) headers close body in \<open>simp add: result_error_def extractResult_def Let_def\<close>)
  qed
qed


definition sample_response :: outgoing where
  "sample_response =
     addCookie (cookie_default\<lparr>cookie_name := ''id'', cookie_value := ''42''\<rparr>)
       (setCloseConnection True (setStatus 404 [] (outgoing_response None False True)))"

definition sample_reply :: http_response where
  "sample_reply = response_default\<lparr>resp_statusCode := 404, resp_statusReason := ''Not Found'',
     resp_cookies := [cookie_default\<lparr>cookie_name := ''id'', cookie_value := ''42''\<rparr>], resp_shouldClose := True\<rparr>"

lemma sample_response_facts:
  "out_data sample_response = Out_response sample_reply" "fresh sample_response" "\<not> ignoreBody sample_response"
  by (simp_all add: sample_response_def sample_reply_def addCookie_def setCloseConnection_def setStatus_def
      outgoing_response_def outgoing_init_def response_default_def getDefaultReason_def fresh_def await_prev_def)

lemma sample_reply_ok: "response_ok ''now'' sample_reply"
  by (simp add: response_ok_def sample_reply_def effective_reason_def response_default_def headers_ok_def
      cookie_wf_def cookie_default_def trimmed_def cookie_toString_def line_value_ok_def)

theorem response_exchange_witness:
  "\<exists>ob' s'. send_message methodRegistry ''now'' [''he'', ''llo''] [] sample_response empty_stream = Inr (ob', s') \<and>
     (\<forall>c. stream_wf (peer c) \<and> wire c = sent_bytes s' \<longrightarrow>
        (\<exists>res c1. client_parseNext c = Inr (res, c1) \<and> resp_statusCode (result_message res) = 404))"
proof -
  have "framing_unset 5 (Out_response sample_reply)" by (simp add: framing_unset_def sample_reply_def response_default_def)
  moreover have "resp_statusCode sample_reply = 404" by (simp add: sample_reply_def)
  ultimately show ?thesis
    using response_exchange [of sample_response sample_reply "''now''" 5 "[''he'', ''llo'']" "[]" _ methodRegistry]
      sample_response_facts sample_reply_ok unfolding Let_def by fastforce
qed

end
