(* ===== verification/Http_Server.thy ===== *)
theory Http_Server
  imports Prelude Byte_Stream Http_Header Cookie Http_Message Http_Parser Http_Router Http_Body Http_Outgoing Http_Head Http_Exchange
begin

text \<open>
  The connection loop of the server (\<^verbatim>\<open>extensions/http/include/nitrocoro/http/HttpServer.h\<close>,
  \<^verbatim>\<open>src/HttpServer.cc\<close>).

  Handlers are programs over the interface they get (\<^verbatim>\<open>HttpIncomingStream\<close> and
  \<^verbatim>\<open>HttpOutgoingStream\<close>): the datatype \<open>handler_prog\<close> has one constructor per call, and what follows
  a read may depend on the bytes it returned.  An exception in such a call ends the handler.
  Handlers that hand the streams to another task are not covered.

  A connection is the one of the body readers; its \<^verbatim>\<open>peer\<close> is the stream of the connection.  The
  result \<open>Inl e\<close> is an exception that leaves \<^verbatim>\<open>handleConnection\<close>; \<^verbatim>\<open>start\<close> logs it and the
  connection is dropped.
\<close>

section \<open>Handlers\<close>

datatype handler_prog =
    H_return
  | H_throw
  | H_read nat "string \<Rightarrow> handler_prog"
  | H_body "string \<Rightarrow> handler_prog"
  | H_setStatus int string handler_prog
  | H_setHeader string string handler_prog
  | H_addCookie cookie handler_prog
  | H_setVersion version handler_prog
  | H_setCloseConnection bool handler_prog
  | H_write string handler_prog
  | H_end handler_prog
  | H_end_data string handler_prog

record handler_run =
  run_exception :: "io_error option"
  run_reader :: body_reader
  run_response :: outgoing
  run_conn :: conn

definition handler_failed :: "io_error \<Rightarrow> body_reader \<Rightarrow> outgoing \<Rightarrow> conn \<Rightarrow> handler_run" where
  "handler_failed e b ob c = \<lparr>run_exception = Some e, run_reader = b, run_response = ob, run_conn = c\<rparr>"

primrec run_handler ::
    "method_registry \<Rightarrow> string \<Rightarrow> handler_prog \<Rightarrow> body_reader \<Rightarrow> outgoing \<Rightarrow> conn \<Rightarrow> handler_run" where
  "run_handler reg date H_return b ob c =
     \<lparr>run_exception = None, run_reader = b, run_response = ob, run_conn = c\<rparr>"
| "run_handler reg date H_throw b ob c = handler_failed (Runtime_error ''handler'') b ob c"
| "run_handler reg date (H_read n k) b ob c =
     (case incoming_read n b c of
        Inl e \<Rightarrow> handler_failed e b ob c
      | Inr (bs, b', c') \<Rightarrow> run_handler reg date (k bs) b' ob c')"
| "run_handler reg date (H_body k) b ob c =
     (case complete_body b c of
        Inl e \<Rightarrow> handler_failed e b ob c
      | Inr (bs, b', c') \<Rightarrow> run_handler reg date (k bs) b' ob c')"
| "run_handler reg date (H_setStatus code reason k) b ob c = run_handler reg date k b (setStatus code reason ob) c"
| "run_handler reg date (H_setHeader nm v k) b ob c = run_handler reg date k b (setHeader nm v ob) c"
| "run_handler reg date (H_addCookie ck k) b ob c = run_handler reg date k b (addCookie ck ob) c"
| "run_handler reg date (H_setVersion v k) b ob c = run_handler reg date k b (setVersion_response v ob) c"
| "run_handler reg date (H_setCloseConnection cl k) b ob c = run_handler reg date k b (setCloseConnection cl ob) c"
| "run_handler reg date (H_write d k) b ob c =
     (case out_write reg date d ob (peer c) of
        Inl e \<Rightarrow> handler_failed e b ob c
      | Inr (ob', s) \<Rightarrow> run_handler reg date k b ob' (c\<lparr>peer := s\<rparr>))"
| "run_handler reg date (H_end k) b ob c =
     (case out_end reg date ob (peer c) of
        Inl e \<Rightarrow> handler_failed e b ob c
      | Inr (ob', s) \<Rightarrow> run_handler reg date k b ob' (c\<lparr>peer := s\<rparr>))"
| "run_handler reg date (H_end_data d k) b ob c =
     (case out_end_data reg date d ob (peer c) of
        Inl e \<Rightarrow> handler_failed e b ob c
      | Inr (ob', s) \<Rightarrow> run_handler reg date k b ob' (c\<lparr>peer := s\<rparr>))"


section \<open>The server\<close>

type_synonym handler = "http_request \<Rightarrow> path_params \<Rightarrow> handler_prog"

text \<open>
  A request upgrader declines, after at most some calls on the streams, or takes the
  connection over.
\<close>

datatype upgrade =
    Decline handler_prog
  | Take "body_reader \<Rightarrow> outgoing \<Rightarrow> conn \<Rightarrow> io_error + conn"

record http_server =
  router :: "handler http_router"
  send_date_header :: bool
  upgrader :: "(stream \<Rightarrow> io_error + stream option) option"
  requestUpgrader :: "(http_request \<Rightarrow> upgrade) option"

definition server_init :: "handler http_router option \<Rightarrow> bool \<Rightarrow> http_server" where
  "server_init config_router send_date =
     \<lparr>router = (case config_router of None \<Rightarrow> router_empty | Some r \<Rightarrow> r), send_date_header = send_date,
      upgrader = None, requestUpgrader = None\<rparr>"

definition setStreamUpgrader :: "(stream \<Rightarrow> io_error + stream option) \<Rightarrow> http_server \<Rightarrow> http_server" where
  "setStreamUpgrader u sv = sv\<lparr>upgrader := Some u\<rparr>"

definition setRequestUpgrader :: "(http_request \<Rightarrow> upgrade) \<Rightarrow> http_server \<Rightarrow> http_server" where
  "setRequestUpgrader u sv = sv\<lparr>requestUpgrader := Some u\<rparr>"

definition isUpgradeRequest :: "http_request \<Rightarrow> bool" where
  "isUpgradeRequest req =
     (let connection = getHeader_code (req_headers req) NC_Connection in
      if connection = [] then False
      else if find_sub ''upgrade'' (toLower connection) = None then False
      else if getHeader_code (req_headers req) NC_Upgrade = [] then False
      else True)"

text \<open>How an iteration of the loop ends: with the connection, and the future of its response if the loop goes on.\<close>

type_synonym next_turn = "conn \<times> bool option"

definition conn_shutdown :: "conn \<Rightarrow> conn" where
  "conn_shutdown c = c\<lparr>peer := stream_shutdown (peer c)\<rparr>"

definition drain_rest :: "body_reader \<Rightarrow> conn \<Rightarrow> io_error + conn" where
  "drain_rest b c =
     (if \<not> isComplete (reader_impl b)
      then (case drain b c of Inl e \<Rightarrow> Inl e | Inr (b', c') \<Rightarrow> Inr c')
      else Inr c)"

definition finish_turn :: "bool \<Rightarrow> body_reader \<Rightarrow> outgoing \<Rightarrow> conn \<Rightarrow> io_error + next_turn" where
  "finish_turn keepAlive b ob c =
     (case drain_rest b c of
        Inl e \<Rightarrow> Inl e
      | Inr c' \<Rightarrow>
          if \<not> keepAlive then Inr (conn_shutdown c', None)
          else Inr (c', Some (finished ob)))"

text \<open>A response of the server itself, and then the end of the turn.\<close>

definition answer ::
    "method_registry \<Rightarrow> string \<Rightarrow> string \<Rightarrow> bool \<Rightarrow> body_reader \<Rightarrow> outgoing \<Rightarrow> conn \<Rightarrow> io_error + next_turn" where
  "answer reg date body keepAlive b ob c =
     (case out_end_data reg date body ob (peer c) of
        Inl e \<Rightarrow> Inl e
      | Inr (ob', s) \<Rightarrow> finish_turn keepAlive b ob' (c\<lparr>peer := s\<rparr>))"

definition answer_empty ::
    "method_registry \<Rightarrow> string \<Rightarrow> bool \<Rightarrow> body_reader \<Rightarrow> outgoing \<Rightarrow> conn \<Rightarrow> io_error + next_turn" where
  "answer_empty reg date keepAlive b ob c =
     (case out_end reg date ob (peer c) of
        Inl e \<Rightarrow> Inl e
      | Inr (ob', s) \<Rightarrow> finish_turn keepAlive b ob' (c\<lparr>peer := s\<rparr>))"

definition invoke_handler ::
    "method_registry \<Rightarrow> string \<Rightarrow> handler_prog \<Rightarrow> bool \<Rightarrow> body_reader \<Rightarrow> outgoing \<Rightarrow> conn \<Rightarrow> io_error + next_turn" where
  "invoke_handler reg date prog keepAlive b ob c =
     (let r = run_handler reg date prog b ob c in
      case run_exception r of
        Some e \<Rightarrow> Inr (conn_shutdown (run_conn r), None)
      | None \<Rightarrow> finish_turn keepAlive (run_reader r) (run_response r) (run_conn r))"

definition dispatch ::
    "method_registry \<Rightarrow> string \<Rightarrow> (string \<Rightarrow> string \<Rightarrow> string list option) \<Rightarrow> http_server \<Rightarrow> http_request \<Rightarrow>
     body_reader \<Rightarrow> outgoing \<Rightarrow> conn \<Rightarrow> io_error + next_turn" where
  "dispatch reg date rx sv req b ob c =
     (let keepAlive = req_keepAlive req in
      if req_method req = method_Invalid then
        answer reg date ''Bad Request'' keepAlive b (setStatus 400 [] ob) c
      else
        (let result = route rx (router sv) (req_method req) (req_path req) in
         case (route_reason result, route_handler result) of
           (Reason_Ok, Some h) \<Rightarrow>
             (let expect = getHeader_code (req_headers req) NC_Expect in
              if expect \<noteq> [] \<and> expect \<noteq> ''100-continue'' then
                answer reg date ''Expectation Failed'' keepAlive b (setStatus 417 [] ob) c
              else
                (let c = (if expect \<noteq> [] then c\<lparr>peer := stream_write (''HTTP/1.1 100 Continue'' @ crlf @ crlf) (peer c)\<rparr>
                          else c)
                 in invoke_handler reg date (h req (route_params result)) keepAlive b ob c))
         | (reason, _) \<Rightarrow>
             if reason = Reason_MethodNotAllowed then
               if req_method req = method_Options then
                 answer_empty reg date keepAlive b
                   (setHeader_code NC_Allow (route_allowed result) (setStatus 200 [] ob)) c
               else
                 answer reg date ''Method Not Allowed'' keepAlive b
                   (setHeader_code NC_Allow (route_allowed result) (setStatus 405 [] ob)) c
             else answer reg date ''Not Found'' keepAlive b (setStatus 404 [] ob) c))"

definition new_response :: "http_server \<Rightarrow> bool option \<Rightarrow> http_request \<Rightarrow> outgoing" where
  "new_response sv prev req =
     setCloseConnection (\<not> req_keepAlive req)
       (outgoing_response prev (req_method req = method_Head) (send_date_header sv))"

definition handle_request ::
    "method_registry \<Rightarrow> string \<Rightarrow> (string \<Rightarrow> string \<Rightarrow> string list option) \<Rightarrow> http_server \<Rightarrow> bool option \<Rightarrow>
     http_request \<Rightarrow> conn \<Rightarrow> io_error + next_turn" where
  "handle_request reg date rx sv prev req c =
     (let b = reader_create (req_transferMode req) (req_contentLength req);
          ob = new_response sv prev req
      in case requestUpgrader sv of
           Some u \<Rightarrow>
             if isUpgradeRequest req then
               (case u req of
                  Take f \<Rightarrow> (case f b ob c of Inl e \<Rightarrow> Inl e | Inr c' \<Rightarrow> Inr (c', None))
                | Decline prog \<Rightarrow>
                    (let r = run_handler reg date prog b ob c in
                     case run_exception r of
                       Some e \<Rightarrow> Inl e
                     | None \<Rightarrow> dispatch reg date rx sv req (run_reader r) (run_response r) (run_conn r)))
             else dispatch reg date rx sv req b ob c
         | None \<Rightarrow> dispatch reg date rx sv req b ob c)"

definition bad_request :: "method_registry \<Rightarrow> string \<Rightarrow> http_server \<Rightarrow> bool option \<Rightarrow> conn \<Rightarrow> io_error + next_turn" where
  "bad_request reg date sv prev c =
     (let ob = setCloseConnection True (setStatus 400 [] (outgoing_response prev False (send_date_header sv)))
      in case out_end_data reg date ''Bad Request'' ob (peer c) of
           Inl e \<Rightarrow> Inl e
         | Inr (ob', s) \<Rightarrow> Inr (conn_shutdown (c\<lparr>peer := s\<rparr>), None))"

definition server_turn ::
    "method_registry \<Rightarrow> string \<Rightarrow> (string \<Rightarrow> string \<Rightarrow> string list option) \<Rightarrow> http_server \<Rightarrow> bool option \<Rightarrow> conn \<Rightarrow>
     io_error + next_turn" where
  "server_turn reg date rx sv prev c =
     (case server_parseNext reg c of
        Inl e \<Rightarrow> Inl e
      | Inr (parsed, c') \<Rightarrow>
          if result_error parsed then bad_request reg date sv prev c'
          else handle_request reg date rx sv prev (result_message parsed) c')"



section \<open>Writing leaves the input alone\<close>

definition same_input :: "stream \<Rightarrow> stream \<Rightarrow> bool" where
  "same_input s s' \<longleftrightarrow> incoming s' = incoming s \<and> fails s' = fails s \<and> closed s' = closed s"

named_theorems input_kept \<open>operations that do not touch what is still to be read\<close>

lemma same_input_refl [simp, input_kept]: "same_input s s"
  by (simp add: same_input_def)

lemma same_input_trans: "same_input s s' \<Longrightarrow> same_input s' s'' \<Longrightarrow> same_input s s''"
  by (simp add: same_input_def)

lemma same_input_write [simp, input_kept]: "same_input s (stream_write d s)"
  by (simp add: same_input_def stream_write_def)

lemma same_input_writer [input_kept]: "same_input s (snd (writer_write d w s))"
  by (cases w) (simp_all add: same_input_def stream_write_def)

lemma same_input_end [input_kept]: "same_input s (writer_end w s)"
  by (cases w) (simp_all add: same_input_def stream_write_def)

lemma same_input_out_writer [input_kept]: "same_input s (snd (out_writer_write d ob s))"
  using same_input_writer [of s d] by (auto simp: out_writer_write_def Let_def split: option.splits prod.splits) (metis snd_conv)

lemma same_input_out_end [input_kept]: "same_input s (out_writer_end ob s)"
  by (simp add: out_writer_end_def same_input_end split: option.splits)

lemma same_input_headers: "writeHeaders reg date ob s = Inr (ob', s') \<Longrightarrow> same_input s s'"
  by (auto simp: writeHeaders_def Let_def split: if_splits)

lemma same_input_finish: "finish ob s = Inr (ob', s') \<Longrightarrow> s' = s"
  by (auto simp: finish_def split: if_splits)

lemma out_write_input: "out_write reg date d ob s = Inr (ob', s') \<Longrightarrow> same_input s s'"
  using same_input_out_writer
  by (auto simp: out_write_def Let_def split: if_splits sum.splits prod.splits
      dest!: same_input_headers intro: same_input_trans) (metis same_input_trans snd_conv)

lemma out_end_input: "out_end reg date ob s = Inr (ob', s') \<Longrightarrow> same_input s s'"
  by (auto simp: out_end_def split: if_splits sum.splits prod.splits
      dest!: same_input_finish same_input_headers intro: same_input_trans input_kept)

lemma out_end_data_input: "out_end_data reg date d ob s = Inr (ob', s') \<Longrightarrow> same_input s s'"
  by (auto simp: out_end_data_def Let_def split: if_splits sum.splits prod.splits
      dest!: same_input_finish same_input_headers dest: out_end_input intro: same_input_trans input_kept)
     (metis same_input_out_end same_input_out_writer same_input_trans snd_conv)+

lemma same_input_wire:
  assumes "same_input (peer c) s"
  shows "wire (c\<lparr>peer := s\<rparr>) = wire c" "stream_wf s = stream_wf (peer c)" "took c [] (c\<lparr>peer := s\<rparr>)"
  using assms by (simp_all add: same_input_def wire_def to_come_def stream_wf_def took_def)



section \<open>Every turn takes bytes off the wire\<close>

lemma body_read_took: "body_read len b c = Inr (bs, b', c') \<Longrightarrow> took c [] c'"
  using took_body_read took_weaken by blast

lemma took_readToEnd: "readToEnd buf n b c = Inr (m, buf', b', c') \<Longrightarrow> took c [] c'"
proof (induction buf n b c rule: readToEnd.induct)
  case (1 buf n b c)
  obtain buf1 avail where a: "(if writableSize buf < kExtendThreshold then (prepareWrite kExtendSize buf, kExtendSize)
      else (buf, writableSize buf)) = (buf1, avail)" by fastforce
  show ?case
  proof (cases "isComplete (reader_impl b)")
    case True
    with 1(2) show ?thesis by (subst (asm) readToEnd.simps) simp
  next
    case False
    show ?thesis
    proof (cases "body_read avail b c")
      case (Inl e)
      with 1(2) a False show ?thesis by (subst (asm) readToEnd.simps) (simp add: Let_def)
    next
      case (Inr x)
      obtain bs b1 c1 where x: "x = (bs, b1, c1)" by (cases x) auto
      have t: "took c [] c1" using Inr x body_read_took by blast
      show ?thesis
      proof (cases "bs = []")
        case True
        with 1(2) a False Inr x t show ?thesis by (subst (asm) readToEnd.simps) (simp add: Let_def)
      next
        case ne: False
        then have "readToEnd (commitWrite (length bs) (store bs buf1)) (n + length bs) b1 c1 = Inr (m, buf', b', c')"
          using 1(2) a False Inr x by (subst (asm) readToEnd.simps) (simp add: Let_def)
        with 1(1) [OF False refl a [symmetric] refl Inr x [symmetric] refl ne] t show ?thesis using took_trans by blast
      qed
    qed
  qed
qed

lemma took_complete_body: "complete_body b c = Inr (body, b', c') \<Longrightarrow> took c [] c'"
  by (auto simp: complete_body_def split: sum.splits prod.splits dest: took_readToEnd)

lemma took_drain_loop: "drain_loop r c = Inr (r', c') \<Longrightarrow> took c [] c'"
proof (induction r c rule: drain_loop.induct)
  case (1 r c)
  show ?case
  proof (cases "isComplete r")
    case True
    with 1(2) show ?thesis by (subst (asm) drain_loop.simps) simp
  next
    case False
    then show ?thesis
      using 1 took_readImpl [of 4096 r c, THEN took_weaken]
      by (subst (asm) (2) drain_loop.simps) (auto split: sum.splits prod.splits if_splits intro: took_trans)
  qed
qed

lemma took_drain_rest: "drain_rest b c = Inr c' \<Longrightarrow> took c [] c'"
  by (auto simp: drain_rest_def drain_def split: if_splits sum.splits prod.splits dest: took_drain_loop)

lemma run_handler_took: "took c [] (run_conn (run_handler reg date prog b ob c))"
proof (induction prog arbitrary: b ob c)
  case (H_read n k)
  then show ?case
    by (auto simp: incoming_read_def handler_failed_def split: sum.splits
        dest!: body_read_took intro: took_trans)
next
  case (H_body k)
  then show ?case
    by (auto simp: handler_failed_def split: sum.splits dest!: took_complete_body intro: took_trans)
next
  case (H_write d k)
  then show ?case
    by (auto simp: handler_failed_def split: sum.splits dest!: out_write_input intro: took_trans same_input_wire)
next
  case (H_end k)
  then show ?case
    by (auto simp: handler_failed_def split: sum.splits dest!: out_end_input intro: took_trans same_input_wire)
next
  case (H_end_data d k)
  then show ?case
    by (auto simp: handler_failed_def split: sum.splits dest!: out_end_data_input intro: took_trans same_input_wire)
qed (simp_all add: handler_failed_def)

lemma took_shutdown [simp]: "took c [] (conn_shutdown c)"
  by (simp add: took_def wire_def conn_shutdown_def stream_shutdown_def to_come_def)

lemma finish_turn_took: "finish_turn keep b ob c = Inr (c', n) \<Longrightarrow> took c [] c'"
  by (auto simp: finish_turn_def split: sum.splits if_splits dest!: took_drain_rest intro: took_trans)

lemma answer_took: "answer reg date body keep b ob c = Inr (c', n) \<Longrightarrow> took c [] c'"
  by (auto simp: answer_def split: sum.splits prod.splits dest!: out_end_data_input finish_turn_took
      intro: took_trans same_input_wire)

lemma answer_empty_took: "answer_empty reg date keep b ob c = Inr (c', n) \<Longrightarrow> took c [] c'"
  by (auto simp: answer_empty_def split: sum.splits prod.splits dest!: out_end_input finish_turn_took
      intro: took_trans same_input_wire)

lemma invoke_handler_took: "invoke_handler reg date prog keep b ob c = Inr (c', n) \<Longrightarrow> took c [] c'"
  using run_handler_took [of c reg date prog b ob]
  by (auto simp: invoke_handler_def Let_def split: option.splits dest!: finish_turn_took intro: took_trans)

lemma dispatch_took: "dispatch reg date rx sv req b ob c = Inr (c', n) \<Longrightarrow> took c [] c'"
  using same_input_wire(3) [OF same_input_write]
  by (auto simp: dispatch_def Let_def split: if_splits route_reason.splits option.splits
      dest!: answer_took answer_empty_took invoke_handler_took intro: took_trans)

lemma handle_request_took: "handle_request reg date rx sv prev req c = Inr (c', Some n) \<Longrightarrow> took c [] c'"
  using run_handler_took [of c reg date]
  by (auto simp: handle_request_def Let_def split: option.splits if_splits upgrade.splits sum.splits
      dest!: dispatch_took intro: took_trans)



section \<open>The loop\<close>

text \<open>
  The loop ends: a turn that continues has parsed a head, and the operations after that only
  take bytes off the wire.
\<close>

lemma server_turn_shrinks:
  assumes "server_turn reg date rx sv prev c = Inr (c', Some n)"
  shows "length (wire c') < length (wire c)"
proof -
  obtain parsed c1 where p: "server_parseNext reg c = Inr (parsed, c1)" "\<not> result_error parsed"
      "handle_request reg date rx sv prev (result_message parsed) c1 = Inr (c', Some n)"
    using assms
    by (auto simp: server_turn_def bad_request_def Let_def split: sum.splits prod.splits if_splits)
  from handle_request_took [OF p(3)] have "length (wire c') \<le> length (wire c1)" by (auto simp: took_def)
  with server_parseNext_progress(2) [OF p(1,2)] show ?thesis by simp
qed

function serve ::
    "method_registry \<Rightarrow> string \<Rightarrow> (string \<Rightarrow> string \<Rightarrow> string list option) \<Rightarrow> http_server \<Rightarrow> bool option \<Rightarrow> conn \<Rightarrow>
     io_error + conn" where
  "serve reg date rx sv prev c =
     (case server_turn reg date rx sv prev c of
        Inl e \<Rightarrow> Inl e
      | Inr (c', None) \<Rightarrow> Inr c'
      | Inr (c', Some fin) \<Rightarrow> serve reg date rx sv (Some fin) c')"
  by pat_completeness auto
termination
  by (relation "measure (\<lambda>(reg, date, rx, sv, prev, c). length (wire c))") (auto dest: server_turn_shrinks)

declare serve.simps [simp del]

definition handleConnection ::
    "method_registry \<Rightarrow> string \<Rightarrow> (string \<Rightarrow> string \<Rightarrow> string list option) \<Rightarrow> http_server \<Rightarrow> stream \<Rightarrow> io_error + stream" where
  "handleConnection reg date rx sv conn =
     (case (case upgrader sv of
              Some u \<Rightarrow> u conn
            | None \<Rightarrow> Inr (Some conn)) of
        Inl e \<Rightarrow> Inl e
      | Inr None \<Rightarrow> Inr (stream_shutdown conn)
      | Inr (Some s) \<Rightarrow>
          (case serve reg date rx sv None \<lparr>buffer = [], peer = s\<rparr> of
             Inl e \<Rightarrow> Inl e
           | Inr c \<Rightarrow> Inr (peer c)))"



section \<open>Handlers cannot leave the connection out of step\<close>

text \<open>
  \<open>in_sync b c rest\<close>: the body that the reader \<open>b\<close> is in the middle of is well framed on the wire
  and \<open>rest\<close> follows it.
\<close>

definition in_sync :: "body_reader \<Rightarrow> conn \<Rightarrow> string \<Rightarrow> bool" where
  "in_sync b c rest \<longleftrightarrow> stream_wf (peer c) \<and>
     ((isComplete (reader_impl b) \<and> wire c = rest) \<or>
      (\<not> draining b \<and> (\<exists>body. impl_delivers (reader_impl b) (wire c) body rest)))"

text \<open>A read of zero bytes is taken for the end of the connection, so handlers ask for at least one.\<close>

primrec reads_ok :: "handler_prog \<Rightarrow> bool" where
  "reads_ok H_return = True"
| "reads_ok H_throw = True"
| "reads_ok (H_read n k) = (0 < n \<and> (\<forall>bs. reads_ok (k bs)))"
| "reads_ok (H_body k) = (\<forall>bs. reads_ok (k bs))"
| "reads_ok (H_setStatus code reason k) = reads_ok k"
| "reads_ok (H_setHeader nm v k) = reads_ok k"
| "reads_ok (H_addCookie ck k) = reads_ok k"
| "reads_ok (H_setVersion v k) = reads_ok k"
| "reads_ok (H_setCloseConnection cl k) = reads_ok k"
| "reads_ok (H_write d k) = reads_ok k"
| "reads_ok (H_end k) = reads_ok k"
| "reads_ok (H_end_data d k) = reads_ok k"

lemma in_sync_write: "in_sync b c rest \<Longrightarrow> same_input (peer c) s \<Longrightarrow> in_sync b (c\<lparr>peer := s\<rparr>) rest"
  using same_input_wire by (simp add: in_sync_def)

lemma in_sync_read:
  assumes "in_sync b c rest" "0 < n" "body_read n b c = Inr (bs, b', c')"
  shows "in_sync b' c' rest"
proof (cases "isComplete (reader_impl b)")
  case True
  with assms show ?thesis using reader.complete_end by (auto simp: in_sync_def body_read_def)
next
  case False
  with assms(1) obtain body where b: "\<not> draining b" "impl_delivers (reader_impl b) (wire c) body rest" "stream_wf (peer c)"
    by (auto simp: in_sync_def)
  from reader.step [OF b(2,3) assms(2) False] assms(3) b(1) False show ?thesis
    by (auto simp: in_sync_def body_read_def)
qed

lemma in_sync_body:
  assumes "in_sync b c rest" "complete_body b c = Inr (bs, b', c')"
  shows "in_sync b' c' rest"
proof (cases "isComplete (reader_impl b)")
  case True
  with assms show ?thesis using reader.complete_end
    by (auto simp: in_sync_def complete_body_def readToEnd.simps)
next
  case False
  with assms(1) obtain body where b: "\<not> draining b" "impl_delivers (reader_impl b) (wire c) body rest" "stream_wf (peer c)"
    by (auto simp: in_sync_def)
  from readToEnd_delivers [OF b(2,3,1) sb.invar_empty, of 0] assms(2) show ?thesis
    by (auto simp: in_sync_def complete_body_def)
qed

lemma handler_in_sync:
  "in_sync b c rest \<Longrightarrow> reads_ok prog \<Longrightarrow> run_exception (run_handler reg date prog b ob c) = None \<Longrightarrow>
   in_sync (run_reader (run_handler reg date prog b ob c)) (run_conn (run_handler reg date prog b ob c)) rest"
proof (induction prog arbitrary: b ob c)
  case (H_read n k)
  then show ?case
    by (auto simp: incoming_read_def handler_failed_def split: sum.splits dest: in_sync_read)
next
  case (H_body k)
  then show ?case by (auto simp: handler_failed_def split: sum.splits dest: in_sync_body)
next
  case (H_write d k)
  then show ?case by (auto simp: handler_failed_def split: sum.splits dest!: out_write_input dest: in_sync_write)
next
  case (H_end k)
  then show ?case by (auto simp: handler_failed_def split: sum.splits dest!: out_end_input dest: in_sync_write)
next
  case (H_end_data d k)
  then show ?case by (auto simp: handler_failed_def split: sum.splits dest!: out_end_data_input dest: in_sync_write)
qed (simp_all add: handler_failed_def)

lemma drain_rest_in_sync:
  assumes "in_sync b c rest"
  shows "\<exists>c'. drain_rest b c = Inr c' \<and> wire c' = rest \<and> stream_wf (peer c')"
proof (cases "isComplete (reader_impl b)")
  case True
  with assms show ?thesis using reader.complete_end by (auto simp: in_sync_def drain_rest_def)
next
  case False
  with assms obtain body where "impl_delivers (reader_impl b) (wire c) body rest" "stream_wf (peer c)"
    by (auto simp: in_sync_def)
  from drain_loop_delivers [OF this] False show ?thesis by (auto simp: drain_rest_def drain_def)
qed

lemma finish_turn_in_sync:
  "in_sync b c rest \<Longrightarrow> finish_turn keep b ob c = Inr (c', Some fin) \<Longrightarrow> wire c' = rest \<and> stream_wf (peer c')"
  by (drule drain_rest_in_sync) (auto simp: finish_turn_def split: if_splits)

lemma answer_in_sync:
  "in_sync b c rest \<Longrightarrow> answer reg date body keep b ob c = Inr (c', Some fin) \<Longrightarrow> wire c' = rest \<and> stream_wf (peer c')"
  "in_sync b c rest \<Longrightarrow> answer_empty reg date keep b ob c = Inr (c', Some fin) \<Longrightarrow> wire c' = rest \<and> stream_wf (peer c')"
  by (auto simp: answer_def answer_empty_def split: sum.splits prod.splits
      dest!: out_end_data_input out_end_input dest: in_sync_write [THEN finish_turn_in_sync])

lemma invoke_in_sync:
  assumes "in_sync b c rest" "reads_ok prog" "invoke_handler reg date prog keep b ob c = Inr (c', Some fin)"
  shows "wire c' = rest \<and> stream_wf (peer c')"
  using assms handler_in_sync [OF assms(1,2), of reg date ob]
  by (auto simp: invoke_handler_def Let_def split: option.splits dest: finish_turn_in_sync)

text \<open>All handlers of a server, and its upgrader when it declines, ask for at least one byte when they read.\<close>

definition handlers_ok :: "(string \<Rightarrow> string \<Rightarrow> string list option) \<Rightarrow> http_server \<Rightarrow> bool" where
  "handlers_ok rx sv \<longleftrightarrow>
     (\<forall>m path h req ps. route_handler (route rx (router sv) m path) = Some h \<longrightarrow> reads_ok (h req ps)) \<and>
     (\<forall>u req prog. requestUpgrader sv = Some u \<longrightarrow> u req = Decline prog \<longrightarrow> reads_ok prog)"

lemma dispatch_in_sync:
  assumes "in_sync b c rest" "handlers_ok rx sv" "dispatch reg date rx sv req b ob c = Inr (c', Some fin)"
  shows "wire c' = rest \<and> stream_wf (peer c')"
proof -
  have *: "in_sync b (c\<lparr>peer := stream_write d (peer c)\<rparr>) rest" for d
    using in_sync_write [OF assms(1)] same_input_write by blast
  have h: "reads_ok (h req ps)" if "route_handler (route rx (router sv) m path) = Some h" for h m path ps
    using assms(2) that by (auto simp: handlers_ok_def)
  note plain = invoke_in_sync [OF assms(1) h] and continued = invoke_in_sync [OF * h]
  show ?thesis
    using assms(1,3)
    by (auto simp: dispatch_def Let_def split: if_splits route_reason.splits option.splits
        dest: answer_in_sync plain continued)
qed

lemma handle_request_in_sync:
  assumes "in_sync (reader_create (req_transferMode req) (req_contentLength req)) c rest" "handlers_ok rx sv"
    and "handle_request reg date rx sv prev req c = Inr (c', Some fin)"
  shows "wire c' = rest \<and> stream_wf (peer c')"
proof -
  let ?b = "reader_create (req_transferMode req) (req_contentLength req)" and ?ob = "new_response sv prev req"
  show ?thesis
  proof (cases "dispatch reg date rx sv req ?b ?ob c = Inr (c', Some fin)")
    case True
    then show ?thesis by (rule dispatch_in_sync [OF assms(1,2)])
  next
    case False
    with assms(3) obtain u prog where u: "requestUpgrader sv = Some u" "u req = Decline prog"
        "run_exception (run_handler reg date prog ?b ?ob c) = None"
        "dispatch reg date rx sv req (run_reader (run_handler reg date prog ?b ?ob c))
          (run_response (run_handler reg date prog ?b ?ob c)) (run_conn (run_handler reg date prog ?b ?ob c)) = Inr (c', Some fin)"
      by (auto simp: handle_request_def Let_def split: option.splits if_splits upgrade.splits sum.splits)
    then have "reads_ok prog" using assms(2) by (auto simp: handlers_ok_def)
    from dispatch_in_sync [OF handler_in_sync [OF assms(1) this u(3)] assms(2) u(4)] show ?thesis .
  qed
qed



section \<open>Streams of requests\<close>

text \<open>The requests that the loop hands on, in order.\<close>

function requests_seen ::
    "method_registry \<Rightarrow> string \<Rightarrow> (string \<Rightarrow> string \<Rightarrow> string list option) \<Rightarrow> http_server \<Rightarrow> bool option \<Rightarrow> conn \<Rightarrow>
     http_request list" where
  "requests_seen reg date rx sv prev c =
     (case server_parseNext reg c of
        Inl e \<Rightarrow> []
      | Inr (parsed, c1) \<Rightarrow>
          if result_error parsed then []
          else result_message parsed #
            (case server_turn reg date rx sv prev c of
               Inr (c', Some fin) \<Rightarrow> requests_seen reg date rx sv (Some fin) c'
             | _ \<Rightarrow> []))"
  by pat_completeness auto
termination
  by (relation "measure (\<lambda>(reg, date, rx, sv, prev, c). length (wire c))") (auto dest: server_turn_shrinks)

declare requests_seen.simps [simp del]

text \<open>The bytes of a request that some client sent.\<close>

definition client_message :: "method_registry \<Rightarrow> http_request \<Rightarrow> string \<Rightarrow> bool" where
  "client_message reg r w \<longleftrightarrow>
     (\<exists>ob ds fin date ob' s'. sendable reg ob r ds fin \<and>
        send_message reg date ds fin ob empty_stream = Inr (ob', s') \<and> w = sent_bytes s')"

lemma client_message_arrives:
  assumes "client_message reg r w" "stream_wf (peer c)" "wire c = w @ rest"
  shows "\<exists>res c1. server_parseNext reg c = Inr (res, c1) \<and> \<not> result_error res \<and> same_request r (result_message res) \<and>
    in_sync (reader_create (req_transferMode (result_message res)) (req_contentLength (result_message res))) c1 rest"
proof -
  obtain ob ds fin date ob' s' where m: "sendable reg ob r ds fin"
      "send_message reg date ds fin ob empty_stream = Inr (ob', s')" "w = sent_bytes s'"
    using assms(1) by (auto simp: client_message_def)
  have "\<not> draining (reader_create mode n)" for mode n by (simp add: reader_create_def)
  with request_arrives [OF m(1), of date] m(2,3) assms(2,3) show ?thesis unfolding in_sync_def by fastforce
qed

lemma server_parseNext_closed:
  assumes "stream_wf (peer c)" "wire c = []"
  shows "\<exists>c'. server_parseNext reg c =
    Inr (head_error request_default PE_ConnectionClosed ''Connection closed before headers complete'', c') \<and>
    wire c' = []"
proof -
  have "head_spec request_default (Some kMaxHeaderLineSize) (Some kMaxHeaderCount) (request_parseLine reg) 0
      (parser_init request_default) (wire c) =
    Some (head_error request_default PE_ConnectionClosed ''Connection closed before headers complete'', [])"
    by (subst head_spec.simps) (simp add: assms(2) over_def crlf_def)
  from head_loop_spec [OF assms(1) this] show ?thesis unfolding server_parseNext_def by auto
qed


section \<open>Properties\<close>

text \<open>
  C1. The server sees the requests that were sent, and no others.  Let several requests with
  their bodies arrive on one connection, one behind the other and in any segments; a body may
  contain anything, also text that looks like a request.  Whatever the handlers and the
  upgrader do with each request (read all of the body, part of it or none, write anything,
  throw), the requests that the loop hands on are the first of the requests that were sent,
  in order, up to the one whose turn closed the connection.
\<close>

theorem no_request_smuggling:
  assumes "list_all (\<lambda>(r, w). client_message reg r w) ms" "handlers_ok rx sv"
    and "stream_wf (peer c)" "wire c = concat (map snd ms)"
  shows "\<exists>k \<le> length ms. (ms \<noteq> [] \<longrightarrow> 0 < k) \<and>
    list_all2 same_request (map fst (take k ms)) (requests_seen reg date rx sv prev c)"
  using assms(1,3,4)
proof (induction ms arbitrary: prev c)
  case Nil
  then have "requests_seen reg date rx sv prev c = []"
    using server_parseNext_closed [of c reg]
    by (subst requests_seen.simps) (auto simp: result_error_def head_error_def)
  then show ?case by simp
next
  case (Cons m ms)
  obtain r w where m: "m = (r, w)" by fastforce
  from client_message_arrives [of reg r w c "concat (map snd ms)"] Cons.prems m obtain res c1 where
    p: "server_parseNext reg c = Inr (res, c1)" "\<not> result_error res" "same_request r (result_message res)"
      "in_sync (reader_create (req_transferMode (result_message res)) (req_contentLength (result_message res))) c1
         (concat (map snd ms))" by auto
  show ?case
  proof (cases "\<exists>c' fin. server_turn reg date rx sv prev c = Inr (c', Some fin)")
    case True
    then obtain c' fin where turn: "server_turn reg date rx sv prev c = Inr (c', Some fin)" by blast
    then have "handle_request reg date rx sv prev (result_message res) c1 = Inr (c', Some fin)"
      using p by (simp add: server_turn_def)
    from handle_request_in_sync [OF p(4) assms(2) this] Cons.IH [of c' "Some fin"] Cons.prems(1) m obtain k where
      "k \<le> length ms" "list_all2 same_request (map fst (take k ms)) (requests_seen reg date rx sv (Some fin) c')" by auto
    with p turn m show ?thesis
      by (intro exI [of _ "Suc k"]) (simp add: requests_seen.simps [of reg date rx sv prev c])
  next
    case False
    then have "requests_seen reg date rx sv prev c = [result_message res]"
      using p by (subst requests_seen.simps) (auto split: sum.splits option.splits)
    with p(3) m show ?thesis by (intro exI [of _ 1]) simp
  qed
qed


lemma matchRadix_empty: "matchRadix node_empty path params d = (None, params)"
  by (auto simp: node_empty_def entry_empty_def Let_def split: prod.splits)

lemma route_empty: "route_handler (route rx router_empty m path) = None"
  by (simp add: route_def router_empty_def route_default_def matchRadix_empty)

lemma sample_server_ok: "handlers_ok rx (server_init None True)"
  by (simp add: handlers_ok_def server_init_def route_empty)

theorem no_request_smuggling_witness:
  "\<exists>r w. client_message methodRegistry r w \<and>
     (\<forall>c. stream_wf (peer c) \<and> wire c = w @ w \<longrightarrow>
        (\<exists>k \<le> 2. 0 < k \<and> list_all2 same_request (take k [r, r])
           (requests_seen methodRegistry [] (\<lambda>_ _. None) (server_init None True) None c)))"
proof -
  obtain r where r: "sendable methodRegistry sample_request r [''he'', ''llo''] ''!''" using sample_sendable by blast
  obtain ob' s' where "send_message methodRegistry [] [''he'', ''llo''] ''!'' sample_request empty_stream = Inr (ob', s')"
    using request_arrives [OF r] by blast
  with r have m: "client_message methodRegistry r (sent_bytes s')" unfolding client_message_def by blast
  let ?w = "sent_bytes s'"
  have "\<exists>k \<le> 2. 0 < k \<and> list_all2 same_request (take k [r, r])
      (requests_seen methodRegistry [] (\<lambda>_ _. None) (server_init None True) None c)"
    if "stream_wf (peer c)" "wire c = ?w @ ?w" for c
    using no_request_smuggling [of methodRegistry "[(r, ?w), (r, ?w)]" "\<lambda>_ _. None" "server_init None True" c "[]" None]
      m sample_server_ok that by (auto simp: take_map [symmetric] numeral_2_eq_2)
  with m show ?thesis by blast
qed


text \<open>Reading a head writes nothing.\<close>

lemma stream_read_sent: "stream_read n s = Inr (bs, s') \<Longrightarrow> sent s' = sent s \<and> closed s' = closed s"
  by (auto simp: stream_read_def split: list.splits if_splits)

lemma head_loop_sent:
  "head_loop dflt maxLine maxCount f ls p c = Inr (res, c') \<Longrightarrow> sent (peer c') = sent (peer c) \<and> closed (peer c') = closed (peer c)"
proof (induction dflt maxLine maxCount f ls p c rule: head_loop.induct)
  case (1 dflt maxLine maxCount f ls p c)
  show ?case
  proof (cases "find_sub crlf (buffer c)")
    case None
    show ?thesis
    proof (cases "\<exists>bs s. stream_read 4096 (peer c) = Inr (bs, s) \<and> bs \<noteq> [] \<and> \<not> over maxLine (length (buffer c))")
      case True
      then obtain bs s where r: "stream_read 4096 (peer c) = Inr (bs, s)" "bs \<noteq> []" "\<not> over maxLine (length (buffer c))"
        by blast
      moreover from 1(3) None r have
        "head_loop dflt maxLine maxCount f ls p \<lparr>buffer = buffer c @ bs, peer = s\<rparr> = Inr (res, c')"
        by (subst (asm) head_loop.simps) simp
      ultimately show ?thesis using 1(1) [OF None r(3) r(1) refl r(2)] stream_read_sent [OF r(1)] by simp
    next
      case False
      with 1(3) None show ?thesis
        by (subst (asm) head_loop.simps) (auto split: if_splits sum.splits dest!: stream_read_sent)
    qed
  next
    case (Some pos)
    then show ?thesis
      using 1(2,3) by (subst (asm) (2) head_loop.simps) (auto simp: Let_def conn_consume_def split: if_splits prod.splits)
  qed
qed

text \<open>
  The response to a malformed request: status 400, its length, and the announcement that the
  connection closes.
\<close>

definition bad_request_reply :: http_response where
  "bad_request_reply =
     response_default\<lparr>resp_statusCode := 400, resp_statusReason := ''Bad Request'', resp_shouldClose := True,
       resp_headers := [(''content-length'', httpHeader_of_code NC_ContentLength ''11'')]\<rparr>"

lemma bad_request_sent:
  assumes "prev \<noteq> Some False"
  shows "\<exists>c'. bad_request reg date sv prev c = Inr (c', None) \<and> closed (peer c') \<and>
    sent_bytes (peer c') = sent_bytes (peer c) @
      head_text reg date (send_date_header sv) (Out_response bad_request_reply) @ ''Bad Request''"
proof -
  define ob where "ob = setCloseConnection True (setStatus 400 [] (outgoing_response prev False (send_date_header sv)))"
  define m where "m = response_default\<lparr>resp_statusCode := 400, resp_statusReason := ''Bad Request'', resp_shouldClose := True\<rparr>"
  have ob: "out_data ob = Out_response m" "fresh ob" "\<not> ignoreBody ob" "sendDateHeader ob = send_date_header sv"
    using assms
    by (simp_all add: ob_def m_def setCloseConnection_def setStatus_def outgoing_response_def outgoing_init_def
        response_default_def getDefaultReason_def fresh_def await_prev_def)
  have dec: "to_string 11 = ''11''" by (simp add: show_base.simps)
  have ann: "announce ContentLength 11 (Out_response m) = Out_response bad_request_reply"
    by (simp add: announce.simps m_def bad_request_reply_def response_default_def dec)
  have "framing_unset 11 (out_data ob)" by (simp add: ob(1) framing_unset_def m_def response_default_def)
  with send_message_sent [OF ob(2,3) this, of "[]" "''Bad Request''" ContentLength reg date "peer c"] ob(1,4) ann
  obtain ob' s' where "out_end_data reg date ''Bad Request'' ob (peer c) = Inr (ob', s')"
    "sent_bytes s' = sent_bytes (peer c) @
      head_text reg date (send_date_header sv) (Out_response bad_request_reply) @ ''Bad Request''"
    by (auto simp: chosen_mode_def send_message_def send_pieces_def framed_def)
  then show ?thesis
    by (simp add: bad_request_def ob_def [symmetric] conn_shutdown_def stream_shutdown_def sent_bytes_def)
qed

text \<open>
  C30. A request that cannot be parsed, for whatever reason (malformed, ambiguous, too long, too many
  lines), ends the connection: the one thing the server still writes is a complete response
  with status 400 that announces the close, and then it shuts the connection down.  No
  handler runs.
\<close>

theorem malformed_request_rejected:
  assumes "server_parseNext reg c = Inr (parsed, c1)" "result_error parsed" "prev \<noteq> Some False"
  shows "requests_seen reg date rx sv prev c = [] \<and>
    (\<exists>c'. serve reg date rx sv prev c = Inr c' \<and> closed (peer c') \<and>
       sent_bytes (peer c') = sent_bytes (peer c) @
         head_text reg date (send_date_header sv) (Out_response bad_request_reply) @ ''Bad Request'')"
proof -
  have "sent (peer c1) = sent (peer c)" using head_loop_sent [OF assms(1) [unfolded server_parseNext_def]] by simp
  with bad_request_sent [OF assms(3), of reg date sv c1] assms(1,2) show ?thesis
    by (auto simp: requests_seen.simps serve.simps server_turn_def sent_bytes_def)
qed


theorem malformed_request_rejected_witness:
  "\<exists>c'. serve methodRegistry [] (\<lambda>_ _. None) (server_init None True) None
     \<lparr>buffer = ''x'', peer = \<lparr>incoming = [crlf], fails = False, sent = [], closed = False\<rparr>\<rparr> = Inr c' \<and> closed (peer c')"
proof -
  let ?c = "\<lparr>buffer = ''x'', peer = \<lparr>incoming = [crlf], fails = False, sent = [], closed = False\<rparr>\<rparr>"
  obtain p where p: "request_parseLine methodRegistry ''x'' (parser_init request_default) = (ParserError, p)"
      "parser_errorCode p = PE_MalformedRequestLine"
    by (simp add: request_parseLine_def parseRequestLine_def find_char_def)
  have "head_spec request_default (Some kMaxHeaderLineSize) (Some kMaxHeaderCount) (request_parseLine methodRegistry) 0
      (parser_init request_default) (lines_text ([] @ [''x'']) @ []) = Some (extractResult p, [])"
    by (rule head_spec_lines [where st = ParserError])
       (simp_all add: p(1) over_def kMaxHeaderLineSize_def kMaxHeaderCount_def)
  then have "\<exists>c1. server_parseNext methodRegistry ?c = Inr (extractResult p, c1)"
    unfolding server_parseNext_def
    using head_loop_spec [of ?c request_default "Some kMaxHeaderLineSize" "Some kMaxHeaderCount"
        "request_parseLine methodRegistry" 0 "parser_init request_default" "extractResult p" "[]"]
    by (auto simp: stream_wf_def wire_def to_come_def crlf_def)
  moreover have "result_error (extractResult p)" by (simp add: result_error_def extractResult_def p(2))
  ultimately show ?thesis using malformed_request_rejected [of methodRegistry ?c "extractResult p" _ None] by blast
qed

lemma finish_turn_closed: "finish_turn keep b ob c = Inr (c', None) \<Longrightarrow> closed (peer c')"
  by (auto simp: finish_turn_def conn_shutdown_def stream_shutdown_def split: sum.splits if_splits)

lemma dispatch_closed: "dispatch reg date rx sv req b ob c = Inr (c', None) \<Longrightarrow> closed (peer c')"
  by (auto simp: dispatch_def answer_def answer_empty_def invoke_handler_def conn_shutdown_def stream_shutdown_def Let_def
      split: if_splits route_reason.splits option.splits sum.splits prod.splits dest!: finish_turn_closed)

lemma server_turn_closed:
  "requestUpgrader sv = None \<Longrightarrow> server_turn reg date rx sv prev c = Inr (c', None) \<Longrightarrow> closed (peer c')"
  by (auto simp: server_turn_def handle_request_def bad_request_def conn_shutdown_def stream_shutdown_def Let_def
      split: sum.splits prod.splits if_splits dest!: dispatch_closed)

lemma serve_closed: "requestUpgrader sv = None \<Longrightarrow> serve reg date rx sv prev c = Inr c' \<Longrightarrow> closed (peer c')"
proof (induction reg date rx sv prev c rule: serve.induct)
  case (1 reg date rx sv prev c)
  show ?case
  proof (cases "server_turn reg date rx sv prev c")
    case (Inl e)
    with 1(3) show ?thesis by (simp add: serve.simps)
  next
    case (Inr x)
    obtain c1 n where x: "x = (c1, n)" by fastforce
    show ?thesis
    proof (cases n)
      case None
      with Inr x 1(2,3) show ?thesis using server_turn_closed by (auto simp: serve.simps)
    next
      case (Some fin)
      with 1(3) Inr x have "serve reg date rx sv (Some fin) c1 = Inr c'" by (subst (asm) serve.simps) simp
      with 1(1) [OF Inr x [symmetric] Some 1(2)] show ?thesis by simp
    qed
  qed
qed

lemma requests_seen_bound: "length (requests_seen reg date rx sv prev c) \<le> length (wire c)"
proof (induction reg date rx sv prev c rule: requests_seen.induct)
  case (1 reg date rx sv prev c)
  show ?case
  proof (cases "\<exists>parsed c1. server_parseNext reg c = Inr (parsed, c1) \<and> \<not> result_error parsed")
    case True
    then obtain parsed c1 where p: "server_parseNext reg c = Inr (parsed, c1)" "\<not> result_error parsed" by blast
    have pos: "0 < length (wire c)" using server_parseNext_progress(2) [OF p] by linarith
    show ?thesis
    proof (cases "\<exists>c' fin. server_turn reg date rx sv prev c = Inr (c', Some fin)")
      case turn: True
      then obtain c' fin where t: "server_turn reg date rx sv prev c = Inr (c', Some fin)" by blast
      from 1 [OF p(1) refl p(2) t refl refl] server_turn_shrinks [OF t] p t show ?thesis
        by (simp add: requests_seen.simps [of reg date rx sv prev c])
    next
      case False
      with p pos show ?thesis
        by (auto simp: requests_seen.simps [of reg date rx sv prev c] Suc_le_eq split: sum.splits option.splits)
    qed
  next
    case False
    then show ?thesis by (auto simp: requests_seen.simps [of reg date rx sv prev c] split: sum.splits)
  qed
qed

text \<open>
  C31. Every connection ends.  Whatever arrives and whatever the handlers do, the loop turns at most
  once per byte that arrived, and when it returns normally (unless reading or writing threw,
  or an upgrader took the connection over) it has shut the connection down.
\<close>

theorem connection_ends_closed:
  assumes "requestUpgrader sv = None" "serve reg date rx sv prev c = Inr c'"
  shows "closed (peer c') \<and> length (requests_seen reg date rx sv prev c) \<le> length (wire c)"
  using serve_closed [OF assms] requests_seen_bound by blast

theorem connection_ends_closed_witness:
  "\<exists>c'. serve methodRegistry [] (\<lambda>_ _. None) (server_init None True) None \<lparr>buffer = [], peer = empty_stream\<rparr> = Inr c' \<and>
     closed (peer c')"
proof -
  let ?c = "\<lparr>buffer = [], peer = empty_stream\<rparr>"
  have "stream_wf (peer ?c)" "wire ?c = []" by (simp_all add: stream_wf_def empty_stream_def wire_def to_come_def)
  from server_parseNext_closed [OF this] obtain c1 where
    "server_parseNext methodRegistry ?c =
      Inr (head_error request_default PE_ConnectionClosed ''Connection closed before headers complete'', c1)" by blast
  then obtain c' where "serve methodRegistry [] (\<lambda>_ _. None) (server_init None True) None ?c = Inr c'"
    using bad_request_sent [of None methodRegistry "[]" "server_init None True" c1]
    by (auto simp: serve.simps server_turn_def head_error_def result_error_def)
  moreover from connection_ends_closed [OF _ this] have "closed (peer c')" by (simp add: server_init_def)
  ultimately show ?thesis by blast
qed

text \<open>
  A client that closes a kept-alive connection between two requests, as it may, is treated as
  one that sent a malformed request: the server still writes a response with status 400.
\<close>

theorem idle_close_answered_with_400:
  assumes "stream_wf (peer c)" "wire c = []" "prev \<noteq> Some False"
  shows "\<exists>c'. serve reg date rx sv prev c = Inr c' \<and>
    sent_bytes (peer c') = sent_bytes (peer c) @
      head_text reg date (send_date_header sv) (Out_response bad_request_reply) @ ''Bad Request''"
proof -
  obtain c1 where p: "server_parseNext reg c =
      Inr (head_error request_default PE_ConnectionClosed ''Connection closed before headers complete'', c1)"
    using server_parseNext_closed [OF assms(1,2)] by blast
  have "sent (peer c1) = sent (peer c)" using head_loop_sent [OF p [unfolded server_parseNext_def]] by simp
  with bad_request_sent [OF assms(3), of reg date sv c1] p show ?thesis
    by (auto simp: serve.simps server_turn_def head_error_def result_error_def sent_bytes_def)
qed

theorem idle_close_answered_with_400_witness:
  "\<exists>c'. serve methodRegistry [] (\<lambda>_ _. None) (server_init None True) (Some True) \<lparr>buffer = [], peer = empty_stream\<rparr> = Inr c' \<and>
     sent_bytes (peer c') \<noteq> []"
proof -
  have "stream_wf (peer \<lparr>buffer = [], peer = empty_stream\<rparr>)" "wire \<lparr>buffer = [], peer = empty_stream\<rparr> = []"
    by (simp_all add: stream_wf_def empty_stream_def wire_def to_come_def)
  from idle_close_answered_with_400 [OF this, of "Some True"] show ?thesis by fastforce
qed

end
