(* ===== verification/Http_Client.thy ===== *)
theory Http_Client
  imports Prelude Byte_Stream Http_Header Cookie Url Http_Message Http_Parser Http_Body Http_Outgoing Http_Head
    Http_Exchange Http_Reply
begin

text \<open>
  The HTTP client (\<^verbatim>\<open>extensions/http/include/nitrocoro/http/HttpClient.h\<close>, \<^verbatim>\<open>src/HttpClient.cc\<close>).

  Name resolution and connecting belong to the network layer and are parameters: the record
  \<open>network\<close> has the addresses of a host and the stream that a connection gives.  An exception is an
  error value.
\<close>

section \<open>The client\<close>

record 'a network =
  resolve :: "string \<Rightarrow> io_error + 'a list"
  connect :: "'a \<Rightarrow> 16 word \<Rightarrow> io_error + stream"

record http_client =
  client_upgrader :: "(stream \<Rightarrow> io_error + stream option) option"

definition client_setStreamUpgrader :: "(stream \<Rightarrow> io_error + stream option) \<Rightarrow> http_client \<Rightarrow> http_client" where
  "client_setStreamUpgrader u cl = cl\<lparr>client_upgrader := Some u\<rparr>"

definition open_stream :: "'a network \<Rightarrow> http_client \<Rightarrow> string \<Rightarrow> url \<Rightarrow> io_error + stream" where
  "open_stream net cl no_address u =
     (case resolve net (host u) of
        Inl e \<Rightarrow> Inl e
      | Inr [] \<Rightarrow> Inl (Runtime_error no_address)
      | Inr (addr # _) \<Rightarrow>
          (case connect net addr (port u) of
             Inl e \<Rightarrow> Inl e
           | Inr conn \<Rightarrow>
               (case client_upgrader cl of
                  Some up \<Rightarrow>
                    (case up conn of
                       Inl e \<Rightarrow> Inl e
                     | Inr None \<Rightarrow> Inl (Runtime_error ''Stream upgrade failed'')
                     | Inr (Some s) \<Rightarrow> Inr s)
                | None \<Rightarrow> Inr conn)))"

definition request_target :: "url \<Rightarrow> string" where
  "request_target u = path u @ (if query u \<noteq> [] then ''?'' @ query u else [])"

definition request_text :: "method_registry \<Rightarrow> http_method \<Rightarrow> url \<Rightarrow> string \<Rightarrow> string" where
  "request_text reg m u body =
     method_toString reg m @ '' '' @ request_target u @ '' HTTP/1.1'' @ crlf @
     ''Host: '' @ host u @ crlf @
     ''Connection: close'' @ crlf @
     (if body \<noteq> [] then ''Content-Length: '' @ to_string (length body) @ crlf else []) @
     crlf @
     (if body \<noteq> [] then body else [])"

definition readResponse :: "bool \<Rightarrow> conn \<Rightarrow> io_error + (http_response \<times> string) \<times> conn" where
  "readResponse ignoreContentLength c =
     (case client_parseNext c of
        Inl e \<Rightarrow> Inl e
      | Inr (res, c1) \<Rightarrow>
          if result_error res then Inl (Runtime_error (result_errorMessage res))
          else
            (let m = result_message res;
                 b = reader_create (resp_transferMode m) (if ignoreContentLength then 0 else resp_contentLength m)
             in case complete_body b c1 of
                  Inl e \<Rightarrow> Inl e
                | Inr (body, b', c2) \<Rightarrow> Inr ((m, body), c2)))"

definition sendRequest ::
    "'a network \<Rightarrow> http_client \<Rightarrow> method_registry \<Rightarrow> http_method \<Rightarrow> url \<Rightarrow> string \<Rightarrow>
     io_error + (http_response \<times> string) \<times> conn" where
  "sendRequest net cl reg m u body =
     (case open_stream net cl ''DNS resolution returned no addresses'' u of
        Inl e \<Rightarrow> Inl e
      | Inr s \<Rightarrow>
          readResponse (m = method_Head) \<lparr>buffer = [], peer = stream_write (request_text reg m u body) s\<rparr>)"

definition request ::
    "'a network \<Rightarrow> http_client \<Rightarrow> method_registry \<Rightarrow> http_method \<Rightarrow> string \<Rightarrow> string \<Rightarrow>
     io_error + (http_response \<times> string) \<times> conn" where
  "request net cl reg m s body =
     (let parsedUrl = parse s in
      if \<not> valid parsedUrl then Inl (Runtime_error ''Invalid URL'')
      else sendRequest net cl reg m parsedUrl body)"

definition method_Post :: http_method where "method_Post = 2"

definition get :: "'a network \<Rightarrow> http_client \<Rightarrow> method_registry \<Rightarrow> string \<Rightarrow> io_error + (http_response \<times> string) \<times> conn" where
  "get net cl reg s = request net cl reg method_Get s []"

definition post ::
    "'a network \<Rightarrow> http_client \<Rightarrow> method_registry \<Rightarrow> string \<Rightarrow> string \<Rightarrow> io_error + (http_response \<times> string) \<times> conn" where
  "post net cl reg s body = request net cl reg method_Post s body"

text \<open>
  The streaming interface: the outgoing request with its connection.  The background task that
  receives the response is \<open>stream_receive\<close>; an error is the exception set on the promise.
\<close>

definition client_stream ::
    "'a network \<Rightarrow> http_client \<Rightarrow> http_method \<Rightarrow> string \<Rightarrow> io_error + outgoing \<times> stream" where
  "client_stream net cl m s =
     (let parsedUrl = parse s in
      if \<not> valid parsedUrl then Inl (Runtime_error ''Invalid URL'')
      else
        (case open_stream net cl ''DNS resolution failed'' parsedUrl of
           Inl e \<Rightarrow> Inl e
         | Inr conn \<Rightarrow>
             Inr (setHeader_code NC_Host (host parsedUrl) (setPath (path parsedUrl) (setMethod m (outgoing_request None))), conn)))"

definition stream_receive :: "conn \<Rightarrow> io_error + (http_response \<times> body_reader) \<times> conn" where
  "stream_receive c =
     (case client_parseNext c of
        Inl e \<Rightarrow> Inl e
      | Inr (res, c1) \<Rightarrow>
          if result_error res then Inl (Runtime_error (result_errorMessage res))
          else
            (let m = result_message res
             in Inr ((m, reader_create (resp_transferMode m) (resp_contentLength m)), c1)))"


section \<open>The request on the wire\<close>

definition client_fields :: "url \<Rightarrow> string \<Rightarrow> (string \<times> string) list" where
  "client_fields u body =
     [(''Host'', host u), (''Connection'', ''close'')] @
     (if body \<noteq> [] then [(''Content-Length'', to_string (length body))] else [])"

definition client_line :: "method_registry \<Rightarrow> http_method \<Rightarrow> url \<Rightarrow> string" where
  "client_line reg m u = method_toString reg m @ CHR '' '' # request_target u @ CHR '' '' # ''HTTP/1.1''"

lemma request_text_lines:
  "request_text reg m u body =
     lines_text ((client_line reg m u # map field_line (client_fields u body)) @ [[]]) @ body"
  by (simp add: request_text_def client_line_def client_fields_def field_line_def)

lemma parse_request_field:
  assumes "field_ok nv" "toLower (fst nv) \<noteq> ''cookie''" "omap_find (req_headers (parser_data p)) (toLower (fst nv)) = None"
  shows "request_parseHeader (field_line nv) p =
    p\<lparr>parser_data := (parser_data p)\<lparr>req_headers :=
        omap_emplace (toLower (fst nv)) (httpHeader (fst nv) (snd nv)) (req_headers (parser_data p))\<rparr>\<rparr>"
proof -
  have *: "isValidToken (fst nv)" "trimmed (snd nv)" using assms(1) by (auto simp: field_ok_def line_value_ok_def)
  then have "parseHeaderLine (field_line nv) = (fst nv, snd nv)"
    unfolding field_line_def by (rule parseHeaderLine_text)
  with * assms(2,3) isValidToken_plain(1) [OF *(1)] show ?thesis
    by (cases nv) (simp add: request_parseHeader_def nameToCode_cookie Let_def)
qed

lemma fold_request_fields:
  "\<forall>nv \<in> set fs. field_ok nv \<and> toLower (fst nv) \<noteq> ''cookie'' \<Longrightarrow> distinct (map (\<lambda>nv. toLower (fst nv)) fs) \<Longrightarrow>
   \<forall>nv \<in> set fs. omap_find (req_headers (parser_data p)) (toLower (fst nv)) = None \<Longrightarrow>
   fold request_parseHeader (map field_line fs) p =
     p\<lparr>parser_data := (parser_data p)\<lparr>req_headers :=
        fold (\<lambda>nv. omap_emplace (toLower (fst nv)) (httpHeader (fst nv) (snd nv))) fs (req_headers (parser_data p))\<rparr>\<rparr>"
proof (induction fs arbitrary: p)
  case (Cons nv fs)
  then have "request_parseHeader (field_line nv) p =
    p\<lparr>parser_data := (parser_data p)\<lparr>req_headers :=
        omap_emplace (toLower (fst nv)) (httpHeader (fst nv) (snd nv)) (req_headers (parser_data p))\<rparr>\<rparr>"
    by (intro parse_request_field) auto
  moreover have "omap_find (omap_emplace (toLower (fst nv)) (httpHeader (fst nv) (snd nv)) (req_headers (parser_data p)))
      (toLower (fst x)) = None" if "x \<in> set fs" for x
  proof -
    have "toLower (fst nv) \<notin> (\<lambda>nv. toLower (fst nv)) ` set fs" using Cons.prems(2) by simp
    with that have "toLower (fst x) \<noteq> toLower (fst nv)" by (metis image_eqI)
    with Cons.prems(3) that show ?thesis by simp
  qed
  ultimately show ?case using Cons.IH Cons.prems by simp
qed simp

lemma client_field_names:
  "toLower ''Host'' = ''host''" "toLower ''Connection'' = ''connection''" "toLower ''Content-Length'' = ''content-length''"
  "isValidToken ''Host''" "isValidToken ''Connection''" "isValidToken ''Content-Length''" "line_value_ok ''close''"
  "toLower ''close'' = ''close''"
  by (simp_all add: toLower_def char_eval isValidToken_def is_tchar_def line_value_ok_def trimmed_def)

text \<open>A request that fits on its lines and within the limits of a server.\<close>

definition client_request_ok :: "method_registry \<Rightarrow> http_method \<Rightarrow> url \<Rightarrow> string \<Rightarrow> bool" where
  "client_request_ok reg m u body \<longleftrightarrow>
     method_fromString reg (method_toString reg m) = m \<and> m \<noteq> method_Invalid \<and>
     (\<forall>c \<in> {CHR '' '', CHR 0x0D}. c \<notin> set (method_toString reg m) \<and> c \<notin> set (request_target u)) \<and>
     line_value_ok (host u) \<and> length (host u) < 8000 \<and> length (client_line reg m u) < kMaxHeaderLineSize \<and>
     length body < 2 ^ 64"

lemma client_fields_ok:
  assumes "client_request_ok reg m u body"
  shows "\<forall>nv \<in> set (client_fields u body). field_ok nv \<and> toLower (fst nv) \<noteq> ''cookie'' \<and> length (field_line nv) < kMaxHeaderLineSize"
    and "distinct (map (\<lambda>nv. toLower (fst nv)) (client_fields u body))"
proof -
  have "length (to_string (length body)) \<le> 20"
    using show_base_length [of 10 "length body" 19] assms by (simp add: client_request_ok_def)
  then show "\<forall>nv \<in> set (client_fields u body). field_ok nv \<and> toLower (fst nv) \<noteq> ''cookie'' \<and> length (field_line nv) < kMaxHeaderLineSize"
    using assms client_field_names to_string_line_value(1)
    by (auto simp: client_fields_def field_ok_def field_line_def client_request_ok_def kMaxHeaderLineSize_def)
  show "distinct (map (\<lambda>nv. toLower (fst nv)) (client_fields u body))"
    by (simp add: client_fields_def client_field_names)
qed


definition client_head :: "http_method \<Rightarrow> url \<Rightarrow> string \<Rightarrow> http_request" where
  "client_head m u body =
     (set_target (request_target u) (request_default\<lparr>req_method := m, req_version := KHttp11\<rparr>))
       \<lparr>req_headers := fold (\<lambda>nv. omap_emplace (toLower (fst nv)) (httpHeader (fst nv) (snd nv))) (client_fields u body) []\<rparr>"

lemma client_head_find:
  "omap_find (req_headers (client_head m u body)) k =
     (if k = ''host'' then Some (httpHeader ''Host'' (host u))
      else if k = ''connection'' then Some (httpHeader ''Connection'' ''close'')
      else if k = ''content-length'' \<and> body \<noteq> [] then Some (httpHeader ''Content-Length'' (to_string (length body)))
      else None)"
  by (simp add: client_head_def client_fields_def client_field_names)

lemma client_head_fields:
  "req_method (client_head m u body) = m" "req_version (client_head m u body) = KHttp11"
  "req_path (client_head m u body) = req_path (set_target (request_target u) request_default)"
  "req_query (client_head m u body) = req_query (set_target (request_target u) request_default)"
  "req_queries (client_head m u body) = req_queries (set_target (request_target u) request_default)"
  "req_contentLength (client_head m u body) = 0"
  by (simp_all add: client_head_def set_target_def Let_def split: option.splits)

lemma run_client_lines:
  assumes "client_request_ok reg m u body"
  shows "request_run reg (client_line reg m u # map field_line (client_fields u body)) (parser_init request_default) =
      (parser_init (client_head m u body))\<lparr>parser_state := ExpectHeader\<rparr>"
    and "expects_more (request_parseLine reg) (client_line reg m u # map field_line (client_fields u body)) (parser_init request_default)"
proof -
  let ?d = "set_target (request_target u) (request_default\<lparr>req_method := m, req_version := KHttp11\<rparr>)"
  let ?p = "(parser_init ?d)\<lparr>parser_state := ExpectHeader\<rparr>"
  let ?fs = "client_fields u body"
  have ver: "parseHttpVersion ''HTTP/1.1'' = KHttp11" by (simp add: parseHttpVersion_def)
  have first: "request_parseLine reg (client_line reg m u) (parser_init request_default) = (ExpectHeader, ?p)"
    using assms ver
      parseRequestLine_text [of "method_toString reg m" "request_target u" reg "''HTTP/1.1''" "parser_init request_default"]
    by (simp add: request_parseLine_def client_line_def client_request_ok_def parser_init_def)
  have fold: "fold request_parseHeader (map field_line ?fs) ?p = (parser_init (client_head m u body))\<lparr>parser_state := ExpectHeader\<rparr>"
    using fold_request_fields [of ?fs ?p] client_fields_ok [OF assms] by (simp add: client_head_def parser_init_def)
  have ne: "[] \<notin> set (map field_line ?fs)" by (auto simp: field_line_def)
  show "request_run reg (client_line reg m u # map field_line ?fs) (parser_init request_default) =
      (parser_init (client_head m u body))\<lparr>parser_state := ExpectHeader\<rparr>"
    using first fold ne request_run_headers [of ?p "map field_line ?fs" reg] by simp
  show "expects_more (request_parseLine reg) (client_line reg m u # map field_line ?fs) (parser_init request_default)"
    using first fold ne expects_more_headers [of ?p "map field_line ?fs" reg] by (simp add: parser_init_def)
qed

lemma client_decision:
  assumes "length body < 2 ^ 64"
  shows "body_decision (req_headers (client_head m u body)) (Decide ContentLength (Some 0)) =
    Decide ContentLength (Some (length body))"
  using assms to_string_line_value [of "length body"]
  by (simp add: body_decision_def content_length_decision_def client_head_find Let_def)


section \<open>Properties\<close>

text \<open>
  The request that \<^verbatim>\<open>HttpClient\<close> writes for a URL is understood by the server: for every registered
  method, target and host that fit on their lines and every body, the server parses, from any
  segmentation, a request with that method and target, the host of the URL, a connection that
  is not kept alive, and a body reader that yields exactly the body.
\<close>

theorem client_request_understood:
  assumes "client_request_ok reg m u body" "stream_wf (peer c)" "wire c = request_text reg m u body @ rest"
  shows "\<exists>res c1 b c2. server_parseNext reg c = Inr (res, c1) \<and> \<not> result_error res \<and>
    (let d = result_message res; t = set_target (request_target u) request_default in
      req_method d = m \<and> req_version d = KHttp11 \<and>
      req_path d = req_path t \<and> req_query d = req_query t \<and> req_queries d = req_queries t \<and>
      getHeader (req_headers d) ''Host'' = host u \<and> \<not> req_keepAlive d \<and>
      complete_body (reader_create (req_transferMode d) (req_contentLength d)) c1 = Inr (body, b, c2) \<and> wire c2 = rest)"
proof -
  let ?ls = "client_line reg m u # map field_line (client_fields u body)"
  let ?d = "(client_head m u body)\<lparr>req_transferMode := ContentLength, req_contentLength := length body, req_keepAlive := False\<rparr>"
  have body: "length body < 2 ^ 64" using assms(1) by (simp add: client_request_ok_def)
  have "keep_alive (client_head m u body) = False"
    by (simp add: keep_alive_def client_head_find client_field_names)
  then have last: "request_parseLine reg [] ((parser_init (client_head m u body))\<lparr>parser_state := ExpectHeader\<rparr>) =
      (HeaderComplete, (parser_init ?d)\<lparr>parser_state := HeaderComplete\<rparr>)"
    using request_end_line [OF client_decision [OF body], of reg m u] by simp
  have "CHR 0x0D \<notin> set (client_line reg m u)" using assms(1) by (auto simp: client_line_def client_request_ok_def)
  then have plain: "\<forall>l \<in> set (?ls @ [[]]). CHR 0x0D \<notin> set l \<and> \<not> over (Some kMaxHeaderLineSize) (length l + 1)"
    using client_fields_ok(1) [OF assms(1)] assms(1) field_line_plain
    by (auto simp: over_def client_request_ok_def kMaxHeaderLineSize_def)
  have "length ?ls \<le> 4" by (simp add: client_fields_def)
  then have "head_spec request_default (Some kMaxHeaderLineSize) (Some kMaxHeaderCount) (request_parseLine reg) 0
      (parser_init request_default) (lines_text (?ls @ [[]]) @ body @ rest) =
    Some (extractResult ((parser_init ?d)\<lparr>parser_state := HeaderComplete\<rparr>), body @ rest)"
    using run_client_lines [OF assms(1)] last plain
    by (intro head_spec_lines [where st = HeaderComplete]) (simp_all add: request_run_def over_def kMaxHeaderCount_def)
  moreover have "wire c = lines_text (?ls @ [[]]) @ body @ rest" by (simp add: assms(3) request_text_lines)
  moreover have "extractResult ((parser_init ?d)\<lparr>parser_state := HeaderComplete\<rparr>) = extractResult (parser_init ?d)"
    by (simp add: extractResult_def)
  ultimately have "head_spec request_default (Some kMaxHeaderLineSize) (Some kMaxHeaderCount) (request_parseLine reg) 0
      (parser_init request_default) (wire c) = Some (extractResult (parser_init ?d), body @ rest)" by simp
  from head_loop_spec [OF assms(2) this]
  obtain c1 where c1: "server_parseNext reg c = Inr (extractResult (parser_init ?d), c1)" "wire c1 = body @ rest"
      "stream_wf (peer c1)"
    unfolding server_parseNext_def by blast
  have "impl_delivers (reader_impl (reader_create ContentLength (length body))) (framed ContentLength [body] @ rest) (concat [body]) rest"
    by (rule framed_delivers) (use body in simp_all)
  then have "impl_delivers (reader_impl (reader_create ContentLength (length body))) (wire c1) body rest"
    unfolding c1(2) framed_def by simp
  from complete_body_delivers [OF this c1(3)] obtain b c2 where
    b: "complete_body (reader_create ContentLength (length body)) c1 = Inr (body, b, c2)" "wire c2 = rest"
    by (auto simp: reader_create_def)
  have "getHeader (req_headers ?d) ''Host'' = host u"
    using client_head_find [of m u body "''host''"] client_field_names(1) by (simp add: getHeader_def toLower_def)
  then show ?thesis
    by - (rule exI [of _ "extractResult (parser_init ?d)"], rule exI [of _ c1], rule exI [of _ b], rule exI [of _ c2],
        simp add: c1(1) b client_head_fields result_error_def extractResult_def Let_def)
qed


definition sample_url :: url where
  "sample_url = url_default\<lparr>scheme := ''http'', host := ''h'', port := 80, path := ''/a'', query := ''q=1'', valid := True\<rparr>"

lemma sample_client_ok: "client_request_ok methodRegistry 2 sample_url ''hi''"
  by (simp add: client_request_ok_def sample_url_def url_default_def request_target_def method_fromString_def
      method_toString_def methodRegistry_eval line_value_ok_def trimmed_def client_line_def kMaxHeaderLineSize_def)

theorem client_request_understood_witness:
  "\<exists>res c1. server_parseNext methodRegistry
     \<lparr>buffer = [], peer = \<lparr>incoming = [request_text methodRegistry 2 sample_url ''hi''], fails = False, sent = [], closed = False\<rparr>\<rparr> =
       Inr (res, c1) \<and> \<not> result_error res"
proof -
  let ?c = "\<lparr>buffer = [], peer = \<lparr>incoming = [request_text methodRegistry 2 sample_url ''hi''], fails = False, sent = [], closed = False\<rparr>\<rparr>"
  have "request_text methodRegistry 2 sample_url ''hi'' \<noteq> []" by (simp add: request_text_def)
  then have "stream_wf (peer ?c)" "wire ?c = request_text methodRegistry 2 sample_url ''hi'' @ []"
    by (simp_all add: stream_wf_def wire_def to_come_def)
  from client_request_understood [OF sample_client_ok this] show ?thesis by blast
qed

text \<open>
  The answer to a \<^verbatim>\<open>HEAD\<close> request: whatever body a handler writes to a stream that ignores the
  body, in whatever pieces, only the head goes out; it announces the length that the body
  would have had; and a client that sent \<^verbatim>\<open>HEAD\<close> reads the status and that length, takes no
  byte for a body and leaves the rest of the connection untouched.
\<close>

theorem head_reply_has_no_body:
  assumes "fresh ob" "ignoreBody ob" "out_data ob = Out_response r" "response_ok date r"
    and "framing_unset n (Out_response r)" "n = length (concat ds @ fin)" "n < 2 ^ 64"
  shows "\<exists>ob' s'. send_message reg date ds fin ob empty_stream = Inr (ob', s') \<and>
    (\<forall>c rest. stream_wf (peer c) \<and> wire c = sent_bytes s' @ rest \<longrightarrow>
      (\<exists>d c2. readResponse True c = Inr ((d, []), c2) \<and> resp_statusCode d = resp_statusCode r \<and>
         resp_contentLength d = n \<and> wire c2 = rest))"
proof -
  obtain r' where r': "announce ContentLength n (Out_response r) = Out_response r'" "response_ok date r'"
      "r' = r\<lparr>resp_headers := out_headers (announce ContentLength n (Out_response r)),
              resp_shouldClose := (ContentLength = UntilClose \<or> resp_shouldClose r)\<rparr>"
    using announce_response [OF assms(4)] by metis
  obtain ob' s' where s': "send_message reg date ds fin ob empty_stream = Inr (ob', s')"
      "sent_bytes s' = head_text reg date (sendDateHeader ob) (Out_response r')"
    using send_ignored [OF assms(1,2) _ assms(7,6), of reg date empty_stream] assms(3,5) r'(1) by auto
  have dec: "body_decision (with_extras date (sendDateHeader ob) r') (Decide UntilClose None) = Decide ContentLength (Some n)"
    using announce_decision(1) [OF assms(5,7)] r'(1) by (simp add: body_decision_extras)
  show ?thesis
  proof (rule exI [of _ ob'], rule exI [of _ s'], rule conjI [OF s'(1)], intro allI impI, elim conjE)
    fix c rest assume c: "stream_wf (peer c)" "wire c = sent_bytes s' @ rest"
    let ?d = "received_reply date (sendDateHeader ob) r' ContentLength (Some n)"
    obtain c1 where c1: "client_parseNext c = Inr (extractResult (parser_init ?d), c1)" "wire c1 = rest" "stream_wf (peer c1)"
      using client_parses_reply [OF r'(2) dec c(1), of reg rest] c(2) s'(2) by auto
    have d: "resp_statusCode ?d = resp_statusCode r" "resp_contentLength ?d = n" "resp_transferMode ?d = ContentLength"
      by (simp_all add: received_reply_def r'(3) Let_def)
    have "complete_body (reader_create ContentLength 0) c1 = Inr ([], reader_create ContentLength 0, c1)"
      by (simp add: complete_body_def readToEnd.simps reader_create_def sb_extract_def sb_empty_def)
    with c1(1) d have "readResponse True c = Inr ((?d, []), c1)"
      by (simp add: readResponse_def extractResult_def result_error_def)
    with d c1(2) show "\<exists>d c2. readResponse True c = Inr ((d, []), c2) \<and> resp_statusCode d = resp_statusCode r \<and>
        resp_contentLength d = n \<and> wire c2 = rest" by blast
  qed
qed

theorem head_reply_has_no_body_witness:
  "\<exists>ob' s'. send_message methodRegistry ''now'' [''he''] ''llo'' (sample_response\<lparr>ignoreBody := True\<rparr>) empty_stream = Inr (ob', s') \<and>
    (\<forall>c rest. stream_wf (peer c) \<and> wire c = sent_bytes s' @ rest \<longrightarrow>
      (\<exists>d c2. readResponse True c = Inr ((d, []), c2) \<and> resp_contentLength d = 5 \<and> wire c2 = rest))"
proof -
  have "framing_unset 5 (Out_response sample_reply)" by (simp add: framing_unset_def sample_reply_def response_default_def)
  moreover have "fresh (sample_response\<lparr>ignoreBody := True\<rparr>)"
    using sample_response_facts(2) by (simp add: fresh_def await_prev_def)
  ultimately show ?thesis
    using head_reply_has_no_body [of "sample_response\<lparr>ignoreBody := True\<rparr>" sample_reply "''now''" 5 "[''he'']" "''llo''" methodRegistry]
      sample_response_facts(1) sample_reply_ok by fastforce
qed

text \<open>
  The streaming interface of the client sends the path of the URL without its query, while
  the simple interface sends both.
\<close>

theorem client_stream_drops_query:
  assumes "parse s = u" "valid u" "open_stream net cl ''DNS resolution failed'' u = Inr conn"
  shows "\<exists>ob r. client_stream net cl m s = Inr (ob, conn) \<and> out_data ob = Out_request r \<and> req_path r = path u \<and>
    (query u \<noteq> [] \<longrightarrow> request_target u \<noteq> req_path r)"
proof -
  have "client_stream net cl m s =
      Inr (setHeader_code NC_Host (host u) (setPath (path u) (setMethod m (outgoing_request None))), conn)"
    using assms by (simp add: client_stream_def Let_def)
  then show ?thesis
    by (simp add: setHeader_code_def setPath_def setMethod_def outgoing_request_def outgoing_init_def Let_def
        request_target_def)
qed

theorem client_stream_drops_query_witness:
  "\<exists>ob r. client_stream \<lparr>resolve = (\<lambda>h. Inr [()]), connect = (\<lambda>a p. Inr empty_stream)\<rparr> \<lparr>client_upgrader = None\<rparr> 0 ''http://h/a?q=1'' =
     Inr (ob, empty_stream) \<and> out_data ob = Out_request r \<and> req_path r = ''/a''"
proof -
  have "parse ''http://h/a?q=1'' = sample_url"
    by (simp add: parse_def parse_host_def parse_path_def min_pos_def str_defs getDefaultPort_def sample_url_def
        url_default_def char_eval Let_def)
  moreover have "open_stream \<lparr>resolve = (\<lambda>h. Inr [()]), connect = (\<lambda>a p. Inr empty_stream)\<rparr> \<lparr>client_upgrader = None\<rparr>
      ''DNS resolution failed'' sample_url = Inr empty_stream"
    by (simp add: open_stream_def)
  moreover have "valid sample_url" "path sample_url = ''/a''" by (simp_all add: sample_url_def)
  ultimately show ?thesis using client_stream_drops_query by metis
qed

end
