(* ===== verification/Http_Date.thy ===== *)
theory Http_Date
  imports Prelude
begin

text \<open>
  Dates in HTTP headers. \<^verbatim>\<open>Cookie::formatExpires\<close>, the \<^verbatim>\<open>Date\<close> header of \<^verbatim>\<open>HttpOutgoingStream.cc\<close> and the
  \<^verbatim>\<open>Last-Modified\<close> header of \<^verbatim>\<open>StaticFiles.cc\<close> all convert a \<^verbatim>\<open>time_t\<close> with \<^verbatim>\<open>gmtime_r\<close> and print it with
  \<^verbatim>\<open>strftime\<close> into a buffer of 32 bytes. A time is the number of seconds since 1970; the text fits
  the buffer for years of up to six digits, to which the definitions apply.
\<close>

section \<open>Calendar\<close>

definition leap :: "int \<Rightarrow> bool" where
  "leap y \<longleftrightarrow> y mod 4 = 0 \<and> (y mod 100 \<noteq> 0 \<or> y mod 400 = 0)"

definition month_lengths :: "bool \<Rightarrow> int list" where
  "month_lengths l = [31, if l then 29 else 28, 31, 30, 31, 30, 31, 31, 30, 31, 30, 31]"

text \<open>The days from the first of January of the year 1 to that of year \<open>y\<close>.\<close>

definition days_before :: "int \<Rightarrow> int" where
  "days_before y = 365 * (y - 1) + (y - 1) div 4 - (y - 1) div 100 + (y - 1) div 400"

definition epoch_days :: int where "epoch_days = 719162"

text \<open>Year and day of the year, by cycles of 400, 100, 4 and 1 years.\<close>

definition year_of_day :: "int \<Rightarrow> int \<times> int" where
  "year_of_day d =
     (let n400 = d div 146097; r400 = d mod 146097;
          n100 = min 3 (r400 div 36524); r100 = r400 - n100 * 36524;
          n4 = r100 div 1461; r4 = r100 mod 1461;
          n1 = min 3 (r4 div 365)
      in (400 * n400 + 100 * n100 + 4 * n4 + n1 + 1, r4 - n1 * 365))"

fun month_of_day :: "int list \<Rightarrow> int \<Rightarrow> nat \<times> int" where
  "month_of_day [] d = (0, d)"
| "month_of_day (l # ls) d = (if d < l then (0, d) else (let (m, r) = month_of_day ls (d - l) in (Suc m, r)))"

record tm =
  tm_sec :: int
  tm_min :: int
  tm_hour :: int
  tm_mday :: int
  tm_mon :: nat
  tm_year :: int
  tm_wday :: int

definition gmtime :: "int \<Rightarrow> tm" where
  "gmtime t =
     (let d = t div 86400 + epoch_days; s = t mod 86400;
          (y, yday) = year_of_day d; (m, r) = month_of_day (month_lengths (leap y)) yday
      in \<lparr>tm_sec = s mod 60, tm_min = s div 60 mod 60, tm_hour = s div 3600, tm_mday = r + 1,
          tm_mon = m, tm_year = y, tm_wday = (d + 1) mod 7\<rparr>)"

section \<open>Text\<close>

definition weekday_names :: "string list" where
  "weekday_names = [''Sun'', ''Mon'', ''Tue'', ''Wed'', ''Thu'', ''Fri'', ''Sat'']"

definition month_names :: "string list" where
  "month_names = [''Jan'', ''Feb'', ''Mar'', ''Apr'', ''May'', ''Jun'', ''Jul'', ''Aug'', ''Sep'', ''Oct'', ''Nov'', ''Dec'']"

definition two_digits :: "int \<Rightarrow> string" where
  "two_digits n = [digit_char (nat (n div 10)), digit_char (nat (n mod 10))]"

text \<open>\<^verbatim>\<open>strftime\<close> with the format \<^verbatim>\<open>%a, %d %b %Y %H:%M:%S GMT\<close> in the C locale.\<close>

definition strftime :: "tm \<Rightarrow> string" where
  "strftime x =
     weekday_names ! nat (tm_wday x) @ '', '' @ two_digits (tm_mday x) @ '' '' @ month_names ! tm_mon x @ '' '' @
     to_string_int (tm_year x) @ '' '' @ two_digits (tm_hour x) @ '':'' @ two_digits (tm_min x) @ '':'' @
     two_digits (tm_sec x) @ '' GMT''"

definition formatExpires :: "int \<Rightarrow> string" where
  "formatExpires t = strftime (gmtime t)"

section \<open>The calendar is right\<close>

lemma mod_full_cycle:
  fixes n k :: int
  assumes "0 < n" "n \<le> k"
  shows "n mod k = 0 \<longleftrightarrow> n = k"
  using assms by (cases "n = k") auto

lemma year_cycles:
  fixes a b c e :: int
  assumes "0 \<le> b" "b \<le> 3" "0 \<le> c" "c \<le> 24" "0 \<le> e" "e \<le> 3"
  shows "(400 * a + 100 * b + 4 * c + e) div 4 = 100 * a + 25 * b + c"
    "(400 * a + 100 * b + 4 * c + e) div 100 = 4 * a + b" "(400 * a + 100 * b + 4 * c + e) div 400 = a"
    "leap (400 * a + 100 * b + 4 * c + e + 1) \<longleftrightarrow> e = 3 \<and> (c \<noteq> 24 \<or> b = 3)"
proof -
  let ?y = "400 * a + 100 * b + 4 * c + e"
  show "?y div 4 = 100 * a + 25 * b + c" by (rule int_div_pos_eq [of _ _ _ e]) (use assms in simp_all)
  show "?y div 100 = 4 * a + b" by (rule int_div_pos_eq [of _ _ _ "4 * c + e"]) (use assms in simp_all)
  show "?y div 400 = a" by (rule int_div_pos_eq [of _ _ _ "100 * b + 4 * c + e"]) (use assms in simp_all)
  have "(e + 1 + (100 * a + 25 * b + c) * 4) mod 4 = (e + 1) mod 4"
    "(4 * c + e + 1 + (4 * a + b) * 100) mod 100 = (4 * c + e + 1) mod 100"
    "(100 * b + 4 * c + e + 1 + a * 400) mod 400 = (100 * b + 4 * c + e + 1) mod 400"
    by (rule mod_mult_self1)+
  then have "(?y + 1) mod 4 = (e + 1) mod 4" "(?y + 1) mod 100 = (4 * c + e + 1) mod 100"
    "(?y + 1) mod 400 = (100 * b + 4 * c + e + 1) mod 400"
    by (simp_all add: algebra_simps)
  moreover have "(e + 1) mod 4 = 0 \<longleftrightarrow> e + 1 = 4" "(4 * c + e + 1) mod 100 = 0 \<longleftrightarrow> 4 * c + e + 1 = 100"
    "(100 * b + 4 * c + e + 1) mod 400 = 0 \<longleftrightarrow> 100 * b + 4 * c + e + 1 = 400"
    using assms mod_full_cycle [of "e + 1" 4] mod_full_cycle [of "4 * c + e + 1" 100]
      mod_full_cycle [of "100 * b + 4 * c + e + 1" 400] by (simp_all only: zero_less_one add_nonneg_pos)
  ultimately have "leap (?y + 1) \<longleftrightarrow> e = 3 \<and> (4 * c + e + 1 \<noteq> 100 \<or> 100 * b + 4 * c + e + 1 = 400)"
    by (simp add: leap_def)
  also have "\<dots> \<longleftrightarrow> e = 3 \<and> (c \<noteq> 24 \<or> b = 3)" using assms by auto
  finally show "leap (?y + 1) \<longleftrightarrow> e = 3 \<and> (c \<noteq> 24 \<or> b = 3)" .
qed

lemma year_of_day_correct:
  assumes "year_of_day d = (y, yday)"
  shows "days_before y + yday = d" "0 \<le> yday" "yday < (if leap y then 366 else 365)"
proof -
  define a r where "a = d div 146097" and "r = d mod 146097"
  define b q where "b = min 3 (r div 36524)" and "q = r - b * 36524"
  define c p where "c = q div 1461" and "p = q mod 1461"
  define e where "e = min 3 (p div 365)"
  note defs = a_def r_def b_def q_def c_def p_def e_def
  have d: "d = 146097 * a + 36524 * b + 1461 * c + p" by (simp add: defs)
  have r: "0 \<le> r" "r < 146097" by (simp_all add: r_def)
  have b: "0 \<le> b" "b \<le> 3" and q: "0 \<le> q" "q < 36524 \<or> b = 3 \<and> q \<le> 36524"
    using r by (auto simp: b_def q_def min_def)
  have c: "0 \<le> c" "c \<le> 24" and p: "0 \<le> p" "p < 1461" "q = 1461 * c + p"
    using q by (auto simp: c_def p_def)
  have e: "0 \<le> e" "e \<le> 3" and o: "0 \<le> p - e * 365" "p - e * 365 < 365 \<or> e = 3 \<and> p - e * 365 \<le> 365"
    using p by (auto simp: e_def min_def)
  have y: "y = 400 * a + 100 * b + 4 * c + e + 1" "yday = p - e * 365"
    using assms by (auto simp: year_of_day_def Let_def defs)
  note cycles = year_cycles [OF b c e, of a]
  show "days_before y + yday = d" using cycles by (simp add: y d days_before_def)
  show "0 \<le> yday" using o y by simp
  show "yday < (if leap y then 366 else 365)" using o p q c unfolding y cycles(4) by auto
qed

lemma month_of_day_correct:
  assumes "month_of_day ls d = (m, r)" "0 \<le> d" "d < sum_list ls"
  shows "m < length ls" "0 \<le> r" "r < ls ! m" "d = sum_list (take m ls) + r"
proof -
  have "m < length ls \<and> 0 \<le> r \<and> r < ls ! m \<and> d = sum_list (take m ls) + r"
    using assms
  proof (induction ls d arbitrary: m rule: month_of_day.induct)
    case (2 l ls d)
    then show ?case by (cases "d < l") (fastforce split: prod.splits)+
  qed simp
  then show "m < length ls" "0 \<le> r" "r < ls ! m" "d = sum_list (take m ls) + r" by auto
qed

lemma month_lengths_facts:
  "length (month_lengths l) = 12" "sum_list (month_lengths l) = (if l then 366 else 365)"
  "m < 12 \<Longrightarrow> month_lengths l ! m \<le> 31"
proof -
  show "length (month_lengths l) = 12" "sum_list (month_lengths l) = (if l then 366 else 365)"
    by (simp_all add: month_lengths_def)
  have "\<forall>n\<in>set (month_lengths l). n \<le> 31" "length (month_lengths l) = 12" by (simp_all add: month_lengths_def)
  then show "m < 12 \<Longrightarrow> month_lengths l ! m \<le> 31" by (metis nth_mem)
qed

text \<open>The fields of a broken-down time are in their ranges and determine the time.\<close>

definition tm_seconds :: "tm \<Rightarrow> int" where
  "tm_seconds x =
     (days_before (tm_year x) + sum_list (take (tm_mon x) (month_lengths (leap (tm_year x)))) + tm_mday x - 1
       - epoch_days) * 86400 + tm_hour x * 3600 + tm_min x * 60 + tm_sec x"

lemma gmtime_correct:
  "tm_seconds (gmtime t) = t" "0 \<le> tm_sec (gmtime t)" "tm_sec (gmtime t) < 60" "0 \<le> tm_min (gmtime t)"
  "tm_min (gmtime t) < 60" "0 \<le> tm_hour (gmtime t)" "tm_hour (gmtime t) < 24" "1 \<le> tm_mday (gmtime t)"
  "tm_mday (gmtime t) \<le> 31" "tm_mon (gmtime t) < 12" "0 \<le> tm_wday (gmtime t)" "tm_wday (gmtime t) < 7"
proof -
  define d s where "d = t div 86400 + epoch_days" and "s = t mod 86400"
  obtain y yday where y: "year_of_day d = (y, yday)" by fastforce
  obtain m r where m: "month_of_day (month_lengths (leap y)) yday = (m, r)" by fastforce
  note yc = year_of_day_correct [OF y] and mc = month_of_day_correct [OF m]
  have mr: "m < 12" "0 \<le> r" "r < month_lengths (leap y) ! m"
    "yday = sum_list (take m (month_lengths (leap y))) + r"
    using mc yc(2,3) by (simp_all add: month_lengths_facts)
  have g: "gmtime t = \<lparr>tm_sec = s mod 60, tm_min = s div 60 mod 60, tm_hour = s div 3600, tm_mday = r + 1,
      tm_mon = m, tm_year = y, tm_wday = (d + 1) mod 7\<rparr>"
    by (simp add: gmtime_def Let_def d_def [symmetric] s_def [symmetric] y m)
  have s: "0 \<le> s" "s < 86400" "t = (d - epoch_days) * 86400 + s" by (simp_all add: s_def d_def)
  have "s div 3600 = s div 60 div 60" using zdiv_zmult2_eq [of 60 s 60] by simp
  moreover have "s = q * 60 + c \<Longrightarrow> q = h * 60 + m \<Longrightarrow> s = h * 3600 + m * 60 + c" for q c h m by simp
  from this [of "s div 60" "s mod 60" "s div 60 div 60" "s div 60 mod 60"]
  have "s = s div 60 div 60 * 3600 + s div 60 mod 60 * 60 + s mod 60" by simp
  ultimately have hms: "s = s div 3600 * 3600 + s div 60 mod 60 * 60 + s mod 60" by simp
  have "tm_seconds (gmtime t) =
      (days_before y + yday - epoch_days) * 86400 + (s div 3600 * 3600 + s div 60 mod 60 * 60 + s mod 60)"
    unfolding tm_seconds_def g mr(4) by simp
  then show "tm_seconds (gmtime t) = t" by (simp only: yc(1) hms [symmetric] s(3) [symmetric])
  show "0 \<le> tm_sec (gmtime t)" "tm_sec (gmtime t) < 60" "0 \<le> tm_min (gmtime t)" "tm_min (gmtime t) < 60"
    "0 \<le> tm_hour (gmtime t)" "tm_hour (gmtime t) < 24" "1 \<le> tm_mday (gmtime t)" "tm_mon (gmtime t) < 12"
    "0 \<le> tm_wday (gmtime t)" "tm_wday (gmtime t) < 7"
    using s(1,2) mr by (simp_all add: g)
  show "tm_mday (gmtime t) \<le> 31" using mr month_lengths_facts(3) [of m "leap y"] by (simp add: g)
qed

section \<open>The text determines the time\<close>

lemma two_digits_inject:
  assumes "two_digits a = two_digits b" "0 \<le> a" "a < 100" "0 \<le> b" "b < 100"
  shows "a = b"
proof -
  have inj: "m = n" if "digit_char (nat m) = digit_char (nat n)" "0 \<le> m" "m < 10" "0 \<le> n" "n < 10" for m n
  proof -
    have "digit_value (digit_char (nat m)) = digit_value (digit_char (nat n))" by (simp only: that(1))
    moreover have "nat m < 10" "nat n < 10" using that by simp_all
    ultimately have "nat m = nat n" using digit_char_facts(2) [of _ 10] by simp
    then show ?thesis using that by simp
  qed
  have "digit_char (nat (a div 10)) = digit_char (nat (b div 10))" "digit_char (nat (a mod 10)) = digit_char (nat (b mod 10))"
    using assms(1) by (simp_all only: two_digits_def list.inject)
  moreover have "0 \<le> a div 10" "a div 10 < 10" "0 \<le> b div 10" "b div 10 < 10" using assms(2-) by auto
  ultimately have "a div 10 = b div 10" "a mod 10 = b mod 10"
    using inj [of "a div 10" "b div 10"] inj [of "a mod 10" "b mod 10"] by (blast, simp)
  then show ?thesis using div_mult_mod_eq [of a 10] div_mult_mod_eq [of b 10] by metis
qed

lemma to_string_inject: "to_string a = to_string b \<longleftrightarrow> a = b"
proof
  assume "to_string a = to_string b"
  then have "magnitude 10 (to_string a) = magnitude 10 (to_string b)" by (simp only:)
  then show "a = b" by (simp add: magnitude_show_base)
qed simp

lemma to_string_int_inject: "to_string_int a = to_string_int b \<longleftrightarrow> a = b"
proof -
  have "hd (to_string n) \<noteq> CHR ''-''" for n
    using hd_show_base [of 10 n] digit_char_facts(4) [of _ 10] by fastforce
  then have "to_string n \<noteq> CHR ''-'' # r" "CHR ''-'' # r \<noteq> to_string n" for n r
    by (metis list.sel(1))+
  then show ?thesis by (auto simp: to_string_int_def to_string_inject)
qed

lemma names_facts:
  "w < 7 \<Longrightarrow> length (weekday_names ! w) = 3" "m < 12 \<Longrightarrow> length (month_names ! m) = 3"
  "m < 12 \<Longrightarrow> n < 12 \<Longrightarrow> month_names ! m = month_names ! n \<Longrightarrow> m = n"
proof -
  have "\<forall>x\<in>set weekday_names. length x = 3" "length weekday_names = 7"
    "\<forall>x\<in>set month_names. length x = 3" "length month_names = 12" "distinct month_names"
    by (simp_all add: weekday_names_def month_names_def)
  then show "w < 7 \<Longrightarrow> length (weekday_names ! w) = 3" "m < 12 \<Longrightarrow> length (month_names ! m) = 3"
    "m < 12 \<Longrightarrow> n < 12 \<Longrightarrow> month_names ! m = month_names ! n \<Longrightarrow> m = n"
    by (auto simp: nth_eq_iff_index_eq)
qed

lemma length_two_digits [simp]: "length (two_digits n) = 2"
  by (simp add: two_digits_def)

lemma strftime_inject:
  assumes "strftime x = strftime y" "tm_seconds x = a" "tm_seconds y = b"
    and "nat (tm_wday x) < 7" "nat (tm_wday y) < 7" "tm_mon x < 12" "tm_mon y < 12"
    and "\<forall>f\<in>{tm_sec, tm_min, tm_hour, tm_mday}. 0 \<le> f x \<and> f x < 100 \<and> 0 \<le> f y \<and> f y < 100"
  shows "a = b"
proof -
  note lens = names_facts(1) [OF assms(4)] names_facts(1) [OF assms(5)] names_facts(2) [OF assms(6)]
    names_facts(2) [OF assms(7)]
  have "two_digits (tm_mday x) = two_digits (tm_mday y)" "month_names ! tm_mon x = month_names ! tm_mon y"
    "two_digits (tm_hour x) = two_digits (tm_hour y)" "two_digits (tm_min x) = two_digits (tm_min y)"
    "two_digits (tm_sec x) = two_digits (tm_sec y)" "to_string_int (tm_year x) = to_string_int (tm_year y)"
    using assms(1) by (simp_all add: strftime_def lens append_eq_append_conv)
  then have "tm_mday x = tm_mday y" "tm_mon x = tm_mon y" "tm_hour x = tm_hour y" "tm_min x = tm_min y"
    "tm_sec x = tm_sec y" "tm_year x = tm_year y"
    using assms(6-8) names_facts(3) [OF assms(6,7)] two_digits_inject by (simp_all add: to_string_int_inject)
  then show ?thesis using assms(2,3) by (simp add: tm_seconds_def)
qed

text \<open>Two moments with the same text are the same second.\<close>

lemma formatExpires_inject: "formatExpires a = formatExpires b \<Longrightarrow> a = b"
  unfolding formatExpires_def
  by (erule strftime_inject [OF _ gmtime_correct(1) gmtime_correct(1)])
    (use gmtime_correct(2-) [of a] gmtime_correct(2-) [of b] in simp_all)

lemma names_plain:
  "w < 7 \<Longrightarrow> weekday_names ! w \<noteq> [] \<and> hd (weekday_names ! w) \<noteq> CHR '' '' \<and> CHR 0x0D \<notin> set (weekday_names ! w)"
  "m < 12 \<Longrightarrow> CHR 0x0D \<notin> set (month_names ! m)"
proof -
  have "\<forall>x\<in>set weekday_names. x \<noteq> [] \<and> hd x \<noteq> CHR '' '' \<and> CHR 0x0D \<notin> set x" "length weekday_names = 7"
    "\<forall>x\<in>set month_names. CHR 0x0D \<notin> set x" "length month_names = 12"
    by (simp_all add: weekday_names_def month_names_def)
  then show "w < 7 \<Longrightarrow> weekday_names ! w \<noteq> [] \<and> hd (weekday_names ! w) \<noteq> CHR '' '' \<and> CHR 0x0D \<notin> set (weekday_names ! w)"
    "m < 12 \<Longrightarrow> CHR 0x0D \<notin> set (month_names ! m)"
    by (metis nth_mem)+
qed

lemma two_digits_plain: "0 \<le> n \<Longrightarrow> n < 100 \<Longrightarrow> CHR 0x0D \<notin> set (two_digits n)"
proof -
  assume n: "0 \<le> n" "n < 100"
  have "digit_char d \<noteq> CHR 0x0D" if "d < 10" for d
    using digit_char_facts(3) [of d 10] that by (auto simp: isspace_def)
  moreover have "nat (n div 10) < 10" "nat (n mod 10) < 10" using n by auto
  ultimately have "digit_char (nat (n div 10)) \<noteq> CHR 0x0D" "digit_char (nat (n mod 10)) \<noteq> CHR 0x0D" by blast+
  then show ?thesis by (simp add: two_digits_def eq_commute)
qed

text \<open>The text can stand in a header line.\<close>

lemma formatExpires_text:
  "formatExpires t \<noteq> []" "hd (formatExpires t) \<noteq> CHR '' ''" "last (formatExpires t) = CHR ''T''"
  "CHR 0x0D \<notin> set (formatExpires t)"
proof -
  note g = gmtime_correct(2-) [of t]
  have w: "nat (tm_wday (gmtime t)) < 7" using g by simp
  have y: "CHR 0x0D \<notin> set (to_string_int n)" for n by (auto simp: to_string_int_def dest: to_string_no_control)
  show "formatExpires t \<noteq> []" "last (formatExpires t) = CHR ''T''" by (simp_all add: formatExpires_def strftime_def)
  show "hd (formatExpires t) \<noteq> CHR '' ''" using names_plain(1) [OF w] by (simp add: formatExpires_def strftime_def)
  show "CHR 0x0D \<notin> set (formatExpires t)"
    using names_plain(1) [OF w] names_plain(2) [of "tm_mon (gmtime t)"] g two_digits_plain y
    by (simp add: formatExpires_def strftime_def)
qed

end
