(* ===== verification/File_Cache.thy ===== *)
theory File_Cache
  imports Prelude
begin

text \<open>
  The cache of file contents of \<^verbatim>\<open>extensions/http/src/StaticFiles.cc\<close>: a list of nodes, the most
  recently used first, and a hash table from keys to iterators into that list. An iterator is the
  identity of its node, which moving and erasing other nodes does not change. The counter
  \<^verbatim>\<open>currentSize_\<close> has 64 bits. The time that \<^verbatim>\<open>get\<close> compares with is an argument.
\<close>

section \<open>The cache\<close>

record cache_node =
  node_key :: string
  node_data :: string
  node_etag :: string
  node_last_modified :: string
  node_mime_type :: string
  node_content_encoding :: string
  expire_at :: int

record file_cache =
  lru :: "(nat \<times> cache_node) list"
  cache_index :: "string \<rightharpoonup> nat"
  currentSize :: nat
  next_node :: nat

definition cache_empty :: file_cache where
  "cache_empty = \<lparr>lru = [], cache_index = Map.empty, currentSize = 0, next_node = 0\<rparr>"

definition erase_node :: "nat \<Rightarrow> (nat \<times> cache_node) list \<Rightarrow> (nat \<times> cache_node) list" where
  "erase_node i l = filter (\<lambda>(j, n). j \<noteq> i) l"

text \<open>An iterator in the index always has its node in the list (invariant \<open>cache_inv\<close> below).\<close>

definition node_size :: "nat \<Rightarrow> file_cache \<Rightarrow> nat" where
  "node_size i c = (case map_of (lru c) i of Some n \<Rightarrow> length (node_data n) | None \<Rightarrow> 0)"

definition size_sub :: "nat \<Rightarrow> nat \<Rightarrow> nat" where
  "size_sub a b = (a + 2 ^ 64 - b) mod 2 ^ 64"

definition evict :: "string \<Rightarrow> nat \<Rightarrow> file_cache \<Rightarrow> file_cache" where
  "evict key i c = c\<lparr>currentSize := size_sub (currentSize c) (node_size i c), lru := erase_node i (lru c),
     cache_index := (cache_index c)(key := None)\<rparr>"

definition cache_get :: "int \<Rightarrow> string \<Rightarrow> file_cache \<Rightarrow> cache_node option \<times> file_cache" where
  "cache_get now key c =
     (case cache_index c key of
        None \<Rightarrow> (None, c)
      | Some i \<Rightarrow>
          (case map_of (lru c) i of
             None \<Rightarrow> (None, c)
           | Some n \<Rightarrow>
               if now > expire_at n then (None, evict key i c)
               else (Some n, c\<lparr>lru := (i, n) # erase_node i (lru c)\<rparr>)))"

definition invalidate :: "string \<Rightarrow> file_cache \<Rightarrow> file_cache" where
  "invalidate key c = (case cache_index c key of None \<Rightarrow> c | Some i \<Rightarrow> evict key i c)"

function make_room :: "nat \<Rightarrow> nat \<Rightarrow> file_cache \<Rightarrow> file_cache" where
  "make_room incoming max_cache_size c =
     (if lru c \<noteq> [] \<and> (currentSize c + incoming) mod 2 ^ 64 > max_cache_size
      then make_room incoming max_cache_size
        (c\<lparr>currentSize := size_sub (currentSize c) (length (node_data (snd (last (lru c))))),
           cache_index := (cache_index c)(node_key (snd (last (lru c))) := None), lru := butlast (lru c)\<rparr>)
      else c)"
  by pat_completeness auto
termination
  by (relation "measure (\<lambda>(n, m, c). length (lru c))") auto

declare make_room.simps [simp del]

definition cache_put :: "cache_node \<Rightarrow> nat \<Rightarrow> file_cache \<Rightarrow> file_cache" where
  "cache_put node max_cache_size c =
     (let c = (case cache_index c (node_key node) of Some i \<Rightarrow> evict (node_key node) i c | None \<Rightarrow> c);
          incoming = length (node_data node);
          c = make_room incoming max_cache_size c;
          i = next_node c
      in c\<lparr>lru := (i, node) # lru c,
           cache_index := (case cache_index c (node_key node) of
             None \<Rightarrow> (cache_index c)(node_key node \<mapsto> i) | Some _ \<Rightarrow> cache_index c),
           currentSize := (currentSize c + incoming) mod 2 ^ 64, next_node := Suc i\<rparr>)"

section \<open>What it is\<close>

text \<open>
  The specification: a list of nodes with different keys, the most recently used first. Storing a
  node drops the least recently used ones until it fits.
\<close>

definition without :: "string \<Rightarrow> cache_node list \<Rightarrow> cache_node list" where
  "without key ns = filter (\<lambda>n. node_key n \<noteq> key) ns"

definition lookup_node :: "string \<Rightarrow> cache_node list \<Rightarrow> cache_node option" where
  "lookup_node key ns = List.find (\<lambda>n. node_key n = key) ns"

definition lru_get :: "int \<Rightarrow> string \<Rightarrow> cache_node list \<Rightarrow> cache_node option \<times> cache_node list" where
  "lru_get now key ns =
     (case lookup_node key ns of
        None \<Rightarrow> (None, ns)
      | Some n \<Rightarrow> if now > expire_at n then (None, without key ns) else (Some n, n # without key ns))"

fun keep_recent :: "nat \<Rightarrow> cache_node list \<Rightarrow> cache_node list" where
  "keep_recent room [] = []"
| "keep_recent room (n # ns) =
     (if length (node_data n) \<le> room then n # keep_recent (room - length (node_data n)) ns else [])"

definition lru_put :: "cache_node \<Rightarrow> nat \<Rightarrow> cache_node list \<Rightarrow> cache_node list" where
  "lru_put node max_cache_size ns =
     (let incoming = length (node_data node)
      in node # (if incoming \<le> max_cache_size
                 then keep_recent (max_cache_size - incoming) (without (node_key node) ns) else []))"

definition total_size :: "cache_node list \<Rightarrow> nat" where
  "total_size ns = sum_list (map (length \<circ> node_data) ns)"

text \<open>The list of nodes behind a cache, and when list, index and counter agree.\<close>

definition nodes :: "file_cache \<Rightarrow> cache_node list" where
  "nodes c = map snd (lru c)"

definition cache_ok :: "file_cache \<Rightarrow> bool" where
  "cache_ok c \<longleftrightarrow>
     distinct (map fst (lru c)) \<and> distinct (map node_key (nodes c)) \<and>
     (\<forall>k i. cache_index c k = Some i \<longleftrightarrow> (\<exists>n. (i, n) \<in> set (lru c) \<and> node_key n = k)) \<and>
     (\<forall>i\<in>fst ` set (lru c). i < next_node c) \<and> currentSize c = total_size (nodes c) \<and>
     total_size (nodes c) < 2 ^ 64"

definition cache_inv :: "nat \<Rightarrow> file_cache \<Rightarrow> bool" where
  "cache_inv max_cache_size c \<longleftrightarrow> cache_ok c \<and> total_size (nodes c) \<le> max_cache_size"

lemma total_size_simps [simp]:
  "total_size [] = 0" "total_size (n # ns) = length (node_data n) + total_size ns"
  "total_size (ns @ ms) = total_size ns + total_size ms"
  by (simp_all add: total_size_def)

lemma lookup_node_in:
  "distinct (map node_key ns) \<Longrightarrow> n \<in> set ns \<Longrightarrow> lookup_node (node_key n) ns = Some n"
  by (induction ns) (auto simp: lookup_node_def)

lemma lookup_node_None: "lookup_node k ns = None \<longleftrightarrow> (\<forall>n\<in>set ns. node_key n \<noteq> k)"
  by (auto simp: lookup_node_def find_None_iff)

lemma total_size_without:
  "distinct (map node_key ns) \<Longrightarrow> n \<in> set ns \<Longrightarrow>
    total_size (without (node_key n) ns) + length (node_data n) = total_size ns"
proof (induction ns)
  case (Cons m ns)
  show ?case
  proof (cases "n = m")
    case True
    with Cons.prems have "without (node_key n) ns = ns"
      unfolding without_def by (intro filter_True) (auto simp: image_iff)
    with True show ?thesis by (simp add: without_def)
  next
    case False
    with Cons show ?thesis by (auto simp: without_def)
  qed
qed simp

lemma nodes_update [simp]: "nodes (c\<lparr>lru := l\<rparr>) = map snd l" "nodes (c\<lparr>currentSize := n\<rparr>) = nodes c"
  "nodes (c\<lparr>cache_index := m\<rparr>) = nodes c" "nodes (c\<lparr>next_node := n\<rparr>) = nodes c"
  by (simp_all add: nodes_def)

text \<open>The index leads to the node of its key.\<close>

lemma index_Some:
  assumes "cache_ok c" "cache_index c k = Some i"
  obtains n where "map_of (lru c) i = Some n" "node_key n = k" "n \<in> set (nodes c)"
    "lookup_node k (nodes c) = Some n"
proof -
  obtain n where n: "(i, n) \<in> set (lru c)" "node_key n = k" using assms by (auto simp: cache_ok_def)
  moreover have "map_of (lru c) i = Some n" using n assms(1) by (simp add: cache_ok_def)
  moreover have "n \<in> set (nodes c)" using n by (force simp: nodes_def)
  moreover have "lookup_node k (nodes c) = Some n"
    using lookup_node_in [of "nodes c" n] assms(1) n \<open>n \<in> set (nodes c)\<close> by (simp add: cache_ok_def)
  ultimately show ?thesis using that by blast
qed

lemma index_None:
  assumes "cache_ok c" "cache_index c k = None"
  shows "lookup_node k (nodes c) = None" "without k (nodes c) = nodes c"
proof -
  have *: "node_key n \<noteq> k" if "n \<in> set (nodes c)" for n
  proof
    assume "node_key n = k"
    moreover obtain i where "(i, n) \<in> set (lru c)" using \<open>n \<in> set (nodes c)\<close> by (auto simp: nodes_def)
    ultimately have "cache_index c k = Some i" using assms(1) by (auto simp: cache_ok_def)
    with assms(2) show False by simp
  qed
  then show "lookup_node k (nodes c) = None" by (simp add: lookup_node_None)
  show "without k (nodes c) = nodes c" unfolding without_def by (rule filter_True) (use * in blast)
qed

lemma same_node:
  assumes "cache_ok c" "cache_index c k = Some i" "(j, n) \<in> set (lru c)"
  shows "j = i \<longleftrightarrow> node_key n = k"
  using assms by (metis (no_types, lifting) cache_ok_def option.inject eq_key_imp_eq_value)

lemma erase_without:
  assumes "cache_ok c" "cache_index c k = Some i"
  shows "map snd (erase_node i (lru c)) = without k (nodes c)"
proof -
  have "erase_node i (lru c) = filter (\<lambda>(j, n). node_key n \<noteq> k) (lru c)"
    unfolding erase_node_def using same_node [OF assms] by (intro filter_cong) auto
  then show ?thesis by (simp add: without_def nodes_def filter_map comp_def case_prod_unfold)
qed

lemma size_sub_exact: "b \<le> a \<Longrightarrow> a < 2 ^ 64 \<Longrightarrow> size_sub a b = a - b"
proof -
  assume a: "b \<le> a" "a < 2 ^ 64"
  then have "a + 2 ^ 64 - b = (a - b) + 2 ^ 64" by simp
  then show ?thesis using a by (simp only: size_sub_def mod_add_self2) simp
qed

lemma evict_refines:
  assumes "cache_ok c" "cache_index c k = Some i"
  shows "cache_ok (evict k i c)" "nodes (evict k i c) = without k (nodes c)" "cache_index (evict k i c) k = None"
proof -
  obtain n where n: "map_of (lru c) i = Some n" "node_key n = k" "n \<in> set (nodes c)"
    using index_Some [OF assms] by metis
  note ok = assms(1) [unfolded cache_ok_def]
  show nodes: "nodes (evict k i c) = without k (nodes c)"
    using erase_without [OF assms] by (simp add: evict_def)
  show "cache_index (evict k i c) k = None" by (simp add: evict_def)
  have t: "total_size (without k (nodes c)) + length (node_data n) = total_size (nodes c)"
    using total_size_without [of "nodes c" n] n ok by simp
  then have size: "currentSize (evict k i c) = total_size (without k (nodes c))"
    using ok size_sub_exact [of "length (node_data n)" "total_size (nodes c)"]
    by (simp add: evict_def node_size_def n(1))
  have index: "cache_index (evict k i c) k' = Some j \<longleftrightarrow> (\<exists>m. (j, m) \<in> set (lru (evict k i c)) \<and> node_key m = k')" for k' j
  proof -
    have "cache_index (evict k i c) k' = Some j \<longleftrightarrow> k' \<noteq> k \<and> (\<exists>m. (j, m) \<in> set (lru c) \<and> node_key m = k')"
      using ok by (simp add: evict_def)
    also have "\<dots> \<longleftrightarrow> (\<exists>m. (j, m) \<in> set (lru (evict k i c)) \<and> node_key m = k')"
      using same_node [OF assms] by (auto simp: evict_def erase_node_def)
    finally show ?thesis .
  qed
  have "distinct (map fst (lru (evict k i c)))" "\<forall>j\<in>fst ` set (lru (evict k i c)). j < next_node (evict k i c)"
    using ok by (auto simp: evict_def erase_node_def distinct_map_filter)
  moreover have "distinct (map node_key (without k (nodes c)))" "total_size (without k (nodes c)) < 2 ^ 64"
    using ok t by (auto simp: without_def distinct_map_filter)
  ultimately show "cache_ok (evict k i c)" unfolding cache_ok_def nodes using size index by blast
qed

lemma keep_recent_all: "total_size ns \<le> room \<Longrightarrow> keep_recent room ns = ns"
  by (induction ns arbitrary: room) auto

lemma keep_recent_drop:
  "room < total_size (ns @ [n]) \<Longrightarrow> keep_recent room (ns @ [n]) = keep_recent room ns"
  by (induction ns arbitrary: room) auto

lemma keep_recent_facts:
  "total_size (keep_recent room ns) \<le> room" "set (keep_recent room ns) \<subseteq> set ns"
  by (induction room ns rule: keep_recent.induct) auto

lemma drop_last_ok:
  assumes "cache_ok c" "lru c = l @ [(i, n)]"
  shows "cache_ok (c\<lparr>currentSize := size_sub (currentSize c) (length (node_data n)),
    cache_index := (cache_index c)(node_key n := None), lru := l\<rparr>)"
proof -
  have "i \<notin> fst ` set l" "node_key n \<notin> node_key ` snd ` set l" "nodes c = map snd l @ [n]"
    using assms by (auto simp: cache_ok_def nodes_def)
  moreover from this have "size_sub (currentSize c) (length (node_data n)) = total_size (map snd l)"
    using assms(1) size_sub_exact [of "length (node_data n)" "currentSize c"] by (simp add: cache_ok_def)
  ultimately show ?thesis using assms by (auto simp: cache_ok_def image_iff)
qed

lemma make_room_refines:
  assumes "cache_ok c" "total_size (nodes c) + incoming < 2 ^ 64"
  shows "cache_ok (make_room incoming m c) \<and>
    nodes (make_room incoming m c) = (if incoming \<le> m then keep_recent (m - incoming) (nodes c) else [])"
  using assms
proof (induction incoming m c rule: make_room.induct)
  case (1 incoming m c)
  have over: "(currentSize c + incoming) mod 2 ^ 64 = total_size (nodes c) + incoming"
    using 1(2,3) by (simp add: cache_ok_def)
  show ?case
  proof (cases "lru c \<noteq> [] \<and> m < total_size (nodes c) + incoming")
    case True
    then obtain l i n where l: "lru c = l @ [(i, n)]" by (metis rev_exhaust surj_pair)
    let ?c = "c\<lparr>currentSize := size_sub (currentSize c) (length (node_data n)),
      cache_index := (cache_index c)(node_key n := None), lru := l\<rparr>"
    have ns: "nodes c = map snd l @ [n]" using l by (simp add: nodes_def)
    have "make_room incoming m c = make_room incoming m ?c"
      using True l over by (subst make_room.simps) simp
    moreover have "cache_ok (make_room incoming m ?c) \<and>
        nodes (make_room incoming m ?c) = (if incoming \<le> m then keep_recent (m - incoming) (nodes ?c) else [])"
      using "1.IH" True l over drop_last_ok [OF 1(2) l] 1(3) ns by simp
    ultimately show ?thesis using True ns by (auto simp: keep_recent_drop)
  next
    case False
    then have "make_room incoming m c = c" using over by (subst make_room.simps) auto
    moreover have "nodes c = []" if "lru c = []" using that by (simp add: nodes_def)
    ultimately show ?thesis using False 1(2) by (auto simp: keep_recent_all)
  qed
qed

lemma get_refines:
  assumes "cache_inv m c"
  shows "cache_inv m (snd (cache_get now k c))" "nodes (snd (cache_get now k c)) = snd (lru_get now k (nodes c))"
    "fst (cache_get now k c) = fst (lru_get now k (nodes c))"
proof -
  have ok: "cache_ok c" and m: "total_size (nodes c) \<le> m" using assms by (simp_all add: cache_inv_def)
  show "cache_inv m (snd (cache_get now k c))" "nodes (snd (cache_get now k c)) = snd (lru_get now k (nodes c))"
    "fst (cache_get now k c) = fst (lru_get now k (nodes c))"
  proof (atomize (full), cases "cache_index c k")
    case None
    with assms index_None [OF ok] show "cache_inv m (snd (cache_get now k c)) \<and>
        nodes (snd (cache_get now k c)) = snd (lru_get now k (nodes c)) \<and>
        fst (cache_get now k c) = fst (lru_get now k (nodes c))"
      by (simp add: cache_get_def lru_get_def)
  next
    case (Some i)
    then obtain n where n: "map_of (lru c) i = Some n" "node_key n = k" "n \<in> set (nodes c)"
      "lookup_node k (nodes c) = Some n" using index_Some [OF ok] by metis
    have t: "total_size (without k (nodes c)) + length (node_data n) = total_size (nodes c)"
      using total_size_without [of "nodes c" n] n ok by (simp add: cache_ok_def)
    let ?c = "c\<lparr>lru := (i, n) # erase_node i (lru c)\<rparr>"
    have set: "set ((i, n) # erase_node i (lru c)) = set (lru c)"
      using n(1) ok by (auto simp: erase_node_def cache_ok_def dest: eq_key_imp_eq_value)
    have "distinct (map fst ((i, n) # erase_node i (lru c)))"
      using ok by (auto simp: erase_node_def cache_ok_def distinct_map_filter)
    moreover have "distinct (map node_key (n # without k (nodes c)))"
      using ok n(2) by (auto simp: without_def cache_ok_def distinct_map_filter)
    ultimately have "cache_ok ?c"
      using ok t erase_without [OF ok Some] set by (simp add: cache_ok_def nodes_def)
    then show "cache_inv m (snd (cache_get now k c)) \<and>
        nodes (snd (cache_get now k c)) = snd (lru_get now k (nodes c)) \<and>
        fst (cache_get now k c) = fst (lru_get now k (nodes c))"
      using Some n evict_refines [OF ok Some] erase_without [OF ok Some] t m
      by (auto simp: cache_get_def lru_get_def cache_inv_def)
  qed
qed

lemma invalidate_refines:
  assumes "cache_inv m c"
  shows "cache_inv m (invalidate k c)" "nodes (invalidate k c) = without k (nodes c)"
proof -
  have ok: "cache_ok c" and m: "total_size (nodes c) \<le> m" using assms by (simp_all add: cache_inv_def)
  have "total_size (without k ns) \<le> total_size ns" for ns by (induction ns) (auto simp: without_def)
  then have le: "total_size (without k (nodes c)) \<le> m" using m le_trans by blast
  show "cache_inv m (invalidate k c)" "nodes (invalidate k c) = without k (nodes c)"
    using assms le index_None [OF ok] evict_refines [OF ok]
    by (auto simp: invalidate_def cache_inv_def split: option.split)
qed

lemma put_refines:
  assumes "cache_inv m c" "length (node_data n) \<le> m" "m < 2 ^ 63"
  shows "cache_inv m (cache_put n m c)" "nodes (cache_put n m c) = lru_put n m (nodes c)"
proof -
  have ok: "cache_ok c" and m: "total_size (nodes c) \<le> m" using assms by (simp_all add: cache_inv_def)
  define c1 where "c1 = invalidate (node_key n) c"
  have c1: "cache_ok c1" "nodes c1 = without (node_key n) (nodes c)" "total_size (nodes c1) \<le> m"
    using invalidate_refines [OF assms(1)] by (simp_all add: c1_def cache_inv_def)
  define c2 where "c2 = make_room (length (node_data n)) m c1"
  have c2: "cache_ok c2" "nodes c2 = keep_recent (m - length (node_data n)) (nodes c1)"
    using make_room_refines [OF c1(1), of "length (node_data n)" m] c1(3) assms(2,3) by (simp_all add: c2_def)
  have new: "node_key n \<notin> node_key ` set (nodes c2)"
    using c2(2) c1(2) keep_recent_facts(2) by (fastforce simp: without_def)
  then have idx: "cache_index c2 (node_key n) = None"
    using index_Some [OF c2(1)] by (metis image_eqI not_None_eq)
  have put: "cache_put n m c = c2\<lparr>lru := (next_node c2, n) # lru c2,
      cache_index := (cache_index c2)(node_key n \<mapsto> next_node c2),
      currentSize := (currentSize c2 + length (node_data n)) mod 2 ^ 64, next_node := Suc (next_node c2)\<rparr>"
    using idx unfolding c2_def c1_def by (simp add: cache_put_def invalidate_def Let_def cong: option.case_cong)
  have t: "total_size (nodes c2) + length (node_data n) \<le> m"
    using keep_recent_facts(1) [of "m - length (node_data n)" "nodes c1"] c2(2) assms(2) by simp
  then have "(currentSize c2 + length (node_data n)) mod 2 ^ 64 = total_size (nodes c2) + length (node_data n)"
    using c2(1) assms(3) by (simp add: cache_ok_def)
  moreover have "next_node c2 \<notin> fst ` set (lru c2)" using c2(1) by (auto simp: cache_ok_def)
  moreover have "node_key x \<noteq> node_key n" if "(j, x) \<in> set (lru c2)" for j x
    using new that by (metis imageI nodes_def set_map snd_conv)
  ultimately show "cache_inv m (cache_put n m c)"
    using c2(1) new t assms(3) unfolding put
    by (auto simp: cache_inv_def cache_ok_def nodes_def less_Suc_eq)
  show "nodes (cache_put n m c) = lru_put n m (nodes c)"
    using c2(2) c1(2) assms(2) unfolding put by (simp add: lru_put_def nodes_def)
qed

section \<open>Histories of the cache\<close>

text \<open>
  A client of the cache relies on a refinement of single operations; it then holds for every
  sequence of them.
\<close>

locale refinement =
  fixes conc :: "'op \<Rightarrow> 'c \<Rightarrow> 'c" and spec :: "'op \<Rightarrow> 'a \<Rightarrow> 'a" and abs :: "'c \<Rightarrow> 'a"
    and inv :: "'c \<Rightarrow> bool" and allowed :: "'op \<Rightarrow> bool"
  assumes keeps_inv: "inv c \<Longrightarrow> allowed x \<Longrightarrow> inv (conc x c)"
    and simulates: "inv c \<Longrightarrow> allowed x \<Longrightarrow> abs (conc x c) = spec x (abs c)"
begin

lemma history:
  assumes "inv c" "\<forall>x\<in>set xs. allowed x"
  shows "inv (fold conc xs c)" "abs (fold conc xs c) = fold spec xs (abs c)"
proof -
  have "inv (fold conc xs c) \<and> abs (fold conc xs c) = fold spec xs (abs c)"
    using assms by (induction xs arbitrary: c) (simp_all add: keeps_inv simulates)
  then show "inv (fold conc xs c)" "abs (fold conc xs c) = fold spec xs (abs c)" by simp_all
qed

end

datatype cache_op = Get int string | Invalidate string | Put cache_node

fun cache_do :: "nat \<Rightarrow> cache_op \<Rightarrow> file_cache \<Rightarrow> file_cache" where
  "cache_do m (Get now k) c = snd (cache_get now k c)"
| "cache_do m (Invalidate k) c = invalidate k c"
| "cache_do m (Put n) c = cache_put n m c"

fun lru_do :: "nat \<Rightarrow> cache_op \<Rightarrow> cache_node list \<Rightarrow> cache_node list" where
  "lru_do m (Get now k) ns = snd (lru_get now k ns)"
| "lru_do m (Invalidate k) ns = without k ns"
| "lru_do m (Put n) ns = lru_put n m ns"

fun op_fits :: "nat \<Rightarrow> cache_op \<Rightarrow> bool" where
  "op_fits m (Put n) \<longleftrightarrow> length (node_data n) \<le> m"
| "op_fits m _ \<longleftrightarrow> True"

text \<open>The limit of the cache is below half the address space.\<close>

definition limit_ok :: "nat \<Rightarrow> bool" where "limit_ok m \<longleftrightarrow> m < 2 ^ 63"

interpretation lru_cache: refinement "cache_do m" "lru_do m" nodes "cache_inv m" "\<lambda>x. limit_ok m \<and> op_fits m x" for m
proof
  fix c x
  assume "cache_inv m c" "limit_ok m \<and> op_fits m x"
  then show "cache_inv m (cache_do m x c)" "nodes (cache_do m x c) = lru_do m x (nodes c)"
    by (cases x; simp add: get_refines invalidate_refines put_refines limit_ok_def)+
qed

text \<open>The node that was stored last under a key and not taken out again.\<close>

fun stored :: "string \<Rightarrow> cache_op list \<Rightarrow> cache_node option \<Rightarrow> cache_node option" where
  "stored k [] r = r"
| "stored k (Put n # xs) r = stored k xs (if node_key n = k then Some n else r)"
| "stored k (Invalidate k' # xs) r = stored k xs (if k' = k then None else r)"
| "stored k (Get now k' # xs) r = stored k xs r"

definition holds_only :: "string \<Rightarrow> cache_node option \<Rightarrow> cache_node list \<Rightarrow> bool" where
  "holds_only k r ns \<longleftrightarrow> (\<forall>n\<in>set ns. node_key n = k \<longrightarrow> r = Some n)"

lemma set_without: "set (without k ns) = {n \<in> set ns. node_key n \<noteq> k}"
  by (simp add: without_def)

lemma set_lru_get: "set (snd (lru_get now k ns)) \<subseteq> set ns"
  by (auto simp: lru_get_def lookup_node_def set_without find_Some_iff split: option.split)

lemma set_lru_put: "set (lru_put n m ns) \<subseteq> insert n (set (without (node_key n) ns))"
  using keep_recent_facts(2) by (auto simp: lru_put_def Let_def)

lemma holds_only_history:
  "holds_only k r ns \<Longrightarrow> holds_only k (stored k xs r) (fold (lru_do m) xs ns)"
proof (induction k xs r arbitrary: ns rule: stored.induct)
  case (2 k n xs r)
  have "holds_only k (if node_key n = k then Some n else r) (lru_put n m ns)"
    using 2(2) set_lru_put [of n m ns] by (auto simp: holds_only_def set_without)
  with 2 show ?case by simp
next
  case (3 k k' xs r)
  have "holds_only k (if k' = k then None else r) (without k' ns)"
    using 3(2) by (auto simp: holds_only_def set_without)
  with 3 show ?case by simp
next
  case (4 k now k' xs r)
  have "holds_only k r (snd (lru_get now k' ns))"
    using 4(2) set_lru_get [of now k' ns] by (auto simp: holds_only_def)
  with 4 show ?case by simp
qed simp

lemma cache_empty_inv: "cache_inv m cache_empty" "nodes cache_empty = []"
  by (simp_all add: cache_inv_def cache_ok_def cache_empty_def nodes_def)

text \<open>
  C36. The cache is a list of the most recently used files. For every sequence of operations, as long as
  each stored file fits into the cache by itself, list, index and counter agree, the total size
  stays within the limit, and the cache behaves as its specification \<open>lru_do\<close>: storing a file drops
  the least recently used ones first. A lookup returns only a node that was the last one stored
  under its key, was not invalidated since and has not expired.
\<close>

theorem file_cache_is_lru:
  assumes "m < 2 ^ 63" "\<forall>x\<in>set xs. op_fits m x"
  shows "cache_inv m (fold (cache_do m) xs cache_empty) \<and>
    nodes (fold (cache_do m) xs cache_empty) = fold (lru_do m) xs [] \<and>
    (\<forall>now k n. fst (cache_get now k (fold (cache_do m) xs cache_empty)) = Some n \<longrightarrow>
       stored k xs None = Some n \<and> node_key n = k \<and> now \<le> expire_at n)"
proof -
  let ?c = "fold (cache_do m) xs cache_empty"
  have h: "cache_inv m ?c" "nodes ?c = fold (lru_do m) xs []"
    using lru_cache.history [OF cache_empty_inv(1), of xs] assms by (simp_all add: cache_empty_inv limit_ok_def)
  have "stored k xs None = Some n \<and> node_key n = k \<and> now \<le> expire_at n"
    if get: "fst (cache_get now k ?c) = Some n" for now k n
  proof -
    have n: "lookup_node k (nodes ?c) = Some n" "now \<le> expire_at n"
      using get get_refines(3) [OF h(1)] by (auto simp: lru_get_def split: option.splits if_splits)
    then have "n \<in> set (nodes ?c)" "node_key n = k" by (auto simp: lookup_node_def find_Some_iff)
    moreover have "holds_only k (stored k xs None) (nodes ?c)"
      unfolding h(2) by (rule holds_only_history) (simp add: holds_only_def)
    ultimately show ?thesis using n by (auto simp: holds_only_def)
  qed
  with h show ?thesis by blast
qed

definition sample_node :: "string \<Rightarrow> string \<Rightarrow> cache_node" where
  "sample_node k d = \<lparr>node_key = k, node_data = d, node_etag = [], node_last_modified = [], node_mime_type = [],
     node_content_encoding = [], expire_at = 100\<rparr>"

theorem file_cache_is_lru_witness:
  "nodes (fold (cache_do 5) [Put (sample_node ''a'' ''xx''), Put (sample_node ''b'' ''yy''), Get 7 ''a'',
     Put (sample_node ''c'' ''zzz'')] cache_empty) = [sample_node ''c'' ''zzz'', sample_node ''a'' ''xx'']"
  using file_cache_is_lru [of 5 "[Put (sample_node ''a'' ''xx''), Put (sample_node ''b'' ''yy''), Get 7 ''a'',
     Put (sample_node ''c'' ''zzz'')]"]
  by (simp add: sample_node_def lru_put_def lru_get_def without_def lookup_node_def)

end
