(* ===== verification/Static_Files.thy ===== *)
theory Static_Files
  imports Prelude Byte_Stream Http_Header Http_Message Http_Body Http_Outgoing Http_Server Http_Date File_Cache
begin

text \<open>
  The handler for static files (\<^verbatim>\<open>extensions/http/include/nitrocoro/http/StaticFiles.h\<close>,
  \<^verbatim>\<open>src/StaticFiles.cc\<close>).

  The file system is a record of functions: what \<^verbatim>\<open>weakly_canonical\<close>, \<^verbatim>\<open>is_directory\<close> and \<^verbatim>\<open>stat\<close> answer
  for a path (\<open>None\<close> for an exception or an error) and the bytes that reading a file from its start
  gives (\<open>None\<close> when it cannot be opened). The answers are independent of each other, so a file may
  change between \<^verbatim>\<open>stat\<close> and \<^verbatim>\<open>fopen\<close>. The lexical operations of \<^verbatim>\<open>std::filesystem::path\<close> are defined
  here, for POSIX paths. The handler becomes a program of the datatype \<open>handler_prog\<close> and the new
  state of the cache, which it changes before its first suspension.
\<close>

section \<open>Options\<close>

record static_options =
  index_file :: string
  enable_etag :: bool
  max_age :: int
  mime_types :: "(string \<times> string) list"
  accept_encodings :: "(string \<times> string) list"
  cache_ttl :: int
  cache_max_file_size :: nat
  cache_max_cache_size :: nat
  cache_header :: string

definition defaultMimeTypes :: "(string \<times> string) list" where
  "defaultMimeTypes = [
     (''.html'', ''text/html; charset=utf-8''),
     (''.htm'', ''text/html; charset=utf-8''),
     (''.css'', ''text/css; charset=utf-8''),
     (''.js'', ''text/javascript; charset=utf-8''),
     (''.mjs'', ''text/javascript; charset=utf-8''),
     (''.json'', ''application/json''),
     (''.xml'', ''application/xml''),
     (''.txt'', ''text/plain; charset=utf-8''),
     (''.md'', ''text/markdown; charset=utf-8''),
     (''.svg'', ''image/svg+xml''),
     (''.png'', ''image/png''),
     (''.jpg'', ''image/jpeg''),
     (''.jpeg'', ''image/jpeg''),
     (''.gif'', ''image/gif''),
     (''.ico'', ''image/x-icon''),
     (''.webp'', ''image/webp''),
     (''.woff'', ''font/woff''),
     (''.woff2'', ''font/woff2''),
     (''.ttf'', ''font/ttf''),
     (''.otf'', ''font/otf''),
     (''.pdf'', ''application/pdf''),
     (''.wasm'', ''application/wasm'')]"

definition defaultAcceptEncodings :: "(string \<times> string) list" where
  "defaultAcceptEncodings = [(''br'', ''br''), (''gzip'', ''gz'')]"

definition default_options :: static_options where
  "default_options =
     \<lparr>index_file = ''index.html'', enable_etag = True, max_age = 3600, mime_types = defaultMimeTypes,
      accept_encodings = defaultAcceptEncodings, cache_ttl = 0, cache_max_file_size = 1024 * 1024,
      cache_max_cache_size = 64 * 1024 * 1024, cache_header = []\<rparr>"

definition kChunkSize :: nat where "kChunkSize = 65536"

definition mimeType :: "string \<Rightarrow> (string \<times> string) list \<Rightarrow> string" where
  "mimeType ext types = (case map_of types ext of Some t \<Rightarrow> t | None \<Rightarrow> ''application/octet-stream'')"

text \<open>The body of the loop of \<^verbatim>\<open>splitTokens\<close>: blanks and parameters are cut off.\<close>

definition bare_token :: "string \<Rightarrow> string" where
  "bare_token token =
     (let token = dropWhile (\<lambda>c. c = CHR '' '') token;
          token = (case find_char CHR '';'' token of None \<Rightarrow> token | Some semi \<Rightarrow> take semi token)
      in rev (dropWhile (\<lambda>c. c = CHR '' '') (rev token)))"

function splitTokens :: "string \<Rightarrow> string list" where
  "splitTokens sv =
     (if sv = [] then []
      else
        (let comma = find_char CHR '','' sv;
             token = bare_token (case comma of None \<Rightarrow> sv | Some i \<Rightarrow> take i sv);
             rest = (case comma of None \<Rightarrow> [] | Some i \<Rightarrow> splitTokens (drop (i + 1) sv))
         in if token \<noteq> [] then token # rest else rest))"
  by pat_completeness auto
termination
  by (relation "measure length") auto

declare splitTokens.simps [simp del]

text \<open>A buffer of 32 bytes holds 31 characters.\<close>

definition makeETag :: "int \<Rightarrow> nat \<Rightarrow> string" where
  "makeETag mtime file_size =
     take 31 (CHR 0x22 # to_hex (unat (word_of_int mtime :: u64)) @ ''-'' @ to_hex (file_size mod 2 ^ 64) @ [CHR 0x22])"

section \<open>Paths\<close>

definition separator :: char where "separator = CHR ''/''"

definition path_absolute :: "string \<Rightarrow> bool" where
  "path_absolute p \<longleftrightarrow> p \<noteq> [] \<and> hd p = separator"

text \<open>\<^verbatim>\<open>operator/=\<close>: an absolute right side replaces the left one.\<close>

definition path_append :: "string \<Rightarrow> string \<Rightarrow> string" where
  "path_append p q =
     (if path_absolute q then q
      else if p \<noteq> [] \<and> last p \<noteq> separator then p @ separator # q
      else p @ q)"

definition path_filename :: "string \<Rightarrow> string" where
  "path_filename p = rev (takeWhile (\<lambda>c. c \<noteq> separator) (rev p))"

definition path_extension :: "string \<Rightarrow> string" where
  "path_extension p =
     (let f = path_filename p; ext = takeWhile (\<lambda>c. c \<noteq> CHR ''.'') (rev f)
      in if f = ''.'' \<or> f = ''..'' then []
         else if length ext + 1 \<ge> length f then []
         else CHR ''.'' # rev ext)"

text \<open>
  The elements over which a path iterates: the root directory, the names, and an empty name when
  the path ends with a separator.
\<close>

definition path_elements :: "string \<Rightarrow> string list" where
  "path_elements p =
     (let names = filter (\<lambda>s. s \<noteq> []) (segments separator p)
      in (if path_absolute p then [[separator]] else []) @ names @
         (if names \<noteq> [] \<and> last p = separator then [[]] else []))"

text \<open>\<^verbatim>\<open>lexically_relative\<close>, as the list of elements of its result.\<close>

fun skip_common :: "string list \<Rightarrow> string list \<Rightarrow> string list \<times> string list" where
  "skip_common (a # as) (b # bs) = (if a = b then skip_common as bs else (a # as, b # bs))"
| "skip_common as bs = (as, bs)"

definition levels_up :: "string list \<Rightarrow> int" where
  "levels_up bs = int (length (filter (\<lambda>b. b \<noteq> [] \<and> b \<noteq> ''.'' \<and> b \<noteq> ''..'') bs)) - int (count_list bs ''..'')"

definition lexically_relative :: "string \<Rightarrow> string \<Rightarrow> string list" where
  "lexically_relative p base =
     (if path_absolute p \<noteq> path_absolute base then []
      else
        (let (as, bs) = skip_common (path_elements p) (path_elements base); n = levels_up bs
         in if as = [] \<and> bs = [] then [''.'']
            else if n < 0 then []
            else if n = 0 \<and> (as = [] \<or> hd as = []) then [''.'']
            else replicate (nat n) ''..'' @ as))"

section \<open>The handler\<close>

record file_stat =
  st_size :: nat
  st_mtime :: int
  st_regular :: bool

record file_system =
  fs_canonical :: "string \<Rightarrow> string option"
  fs_is_directory :: "string \<Rightarrow> bool option"
  fs_stat :: "string \<Rightarrow> file_stat option"
  fs_open :: "string \<Rightarrow> string option"

text \<open>The precalculated root and \<^verbatim>\<open>Cache-Control\<close> value, with the options.\<close>

record static_site =
  site_opts :: static_options
  site_root :: string
  cacheControlValue :: string

definition staticFiles :: "file_system \<Rightarrow> string \<Rightarrow> static_options \<Rightarrow> static_site option" where
  "staticFiles fs root opts =
     (let opts = (if cache_max_file_size opts > cache_max_cache_size opts
                  then opts\<lparr>cache_max_file_size := cache_max_cache_size opts\<rparr> else opts)
      in case fs_canonical fs root of
           None \<Rightarrow> None
         | Some r \<Rightarrow> Some \<lparr>site_opts = opts, site_root = r,
             cacheControlValue = (if max_age opts > 0 then ''public, max-age='' @ to_string_int (max_age opts)
                                  else ''no-cache'')\<rparr>)"

text \<open>Setting headers, by name or by code, and a response without a body.\<close>

definition set_headers :: "(string \<times> string) list \<Rightarrow> handler_prog \<Rightarrow> handler_prog" where
  "set_headers hs k = foldr (\<lambda>(nm, v) k. H_setHeader nm v k) hs k"

definition set_status :: "int \<Rightarrow> handler_prog \<Rightarrow> handler_prog" where
  "set_status code k = H_setStatus code [] k"

definition respond :: "int \<Rightarrow> handler_prog" where
  "respond code = set_status code (H_end H_return)"

definition send_body :: "string list \<Rightarrow> handler_prog" where
  "send_body ds = foldr H_write ds (H_end H_return)"

text \<open>The path of the file; \<open>param\<close> is the value of the first path parameter.\<close>

definition resolve_path :: "file_system \<Rightarrow> static_site \<Rightarrow> string option \<Rightarrow> string option" where
  "resolve_path fs site param =
     (let relPath = (case param of None \<Rightarrow> [] | Some v \<Rightarrow> v);
          relPath = (if relPath \<noteq> [] \<and> hd relPath = separator then tl relPath else relPath)
      in case fs_canonical fs (path_append (site_root site) relPath) of
           None \<Rightarrow> None
         | Some p \<Rightarrow>
             (case fs_is_directory fs p of
                None \<Rightarrow> None
              | Some d \<Rightarrow> Some (if d then path_append p (path_filename (index_file (site_opts site))) else p)))"

definition traversal :: "static_site \<Rightarrow> string \<Rightarrow> bool" where
  "traversal site filePath \<longleftrightarrow>
     (let rel = lexically_relative filePath (site_root site) in rel = [] \<or> hd rel = ''..'')"

fun pick_variant :: "file_system \<Rightarrow> (string \<times> string) list \<Rightarrow> string \<Rightarrow> string list \<Rightarrow> (string \<times> file_stat \<times> string) option" where
  "pick_variant fs encs filePath [] = None"
| "pick_variant fs encs filePath (token # tokens) =
     (case map_of encs token of
        None \<Rightarrow> pick_variant fs encs filePath tokens
      | Some ext \<Rightarrow>
          (let candidate = filePath @ ''.'' @ ext
           in case fs_stat fs candidate of
                Some cst \<Rightarrow>
                  if st_regular cst then Some (candidate, cst, token) else pick_variant fs encs filePath tokens
              | None \<Rightarrow> pick_variant fs encs filePath tokens))"

definition select_variant ::
    "file_system \<Rightarrow> static_site \<Rightarrow> http_request \<Rightarrow> string \<Rightarrow> file_stat \<Rightarrow> string \<times> file_stat \<times> string" where
  "select_variant fs site req filePath st =
     (let acceptEncoding = getHeader_code (req_headers req) NC_AcceptEncoding;
          encs = accept_encodings (site_opts site)
      in if acceptEncoding \<noteq> [] \<and> encs \<noteq> []
         then (case pick_variant fs encs filePath (splitTokens acceptEncoding) of
                 Some v \<Rightarrow> v | None \<Rightarrow> (filePath, st, []))
         else (filePath, st, []))"

definition try_cache ::
    "int \<Rightarrow> static_site \<Rightarrow> string \<Rightarrow> string \<Rightarrow> string \<Rightarrow> file_cache \<Rightarrow> cache_node option \<times> file_cache" where
  "try_cache now site cacheKey etag lastModified cache =
     (case cache_get now cacheKey cache of
        (None, cache) \<Rightarrow> (None, cache)
      | (Some cached, cache) \<Rightarrow>
          if (if enable_etag (site_opts site) then node_etag cached = etag
              else node_last_modified cached = lastModified)
          then (Some cached, cache) else (None, invalidate cacheKey cache))"

definition respond_cached :: "static_site \<Rightarrow> http_request \<Rightarrow> cache_node \<Rightarrow> handler_prog" where
  "respond_cached site req cached =
     set_status 200 (set_headers
       ([(codeToName NC_ContentType, node_mime_type cached), (codeToName NC_LastModified, node_last_modified cached)] @
        (if node_etag cached \<noteq> [] then [(''ETag'', node_etag cached)] else []) @
        (if node_content_encoding cached \<noteq> [] then [(codeToName NC_ContentEncoding, node_content_encoding cached)]
         else []) @
        [(codeToName NC_ContentLength, to_string (length (node_data cached))),
         (codeToName NC_CacheControl, cacheControlValue site)] @
        (if cache_header (site_opts site) \<noteq> [] then [(cache_header (site_opts site), ''HIT'')] else []))
       (send_body (if req_method req \<noteq> method_Head then [node_data cached] else [])))"

text \<open>The loop that streams a file: \<^verbatim>\<open>fread\<close> returns what is left, at most a chunk.\<close>

function read_pieces :: "nat \<Rightarrow> string \<Rightarrow> string list" where
  "read_pieces remaining d =
     (if remaining = 0 then []
      else (let buf = take (min remaining kChunkSize) d in
            if buf = [] then [] else buf # read_pieces (remaining - length buf) (drop (length buf) d)))"
  by pat_completeness auto
termination
  by (relation "measure (\<lambda>(n, d). n)") auto

declare read_pieces.simps [simp del]

text \<open>The response when the cache has no current entry; \<open>later\<close> is the clock when the file was read.\<close>

definition respond_file ::
    "file_system \<Rightarrow> int \<Rightarrow> static_site \<Rightarrow> http_request \<Rightarrow> string \<Rightarrow> string \<times> file_stat \<times> string \<Rightarrow> bool \<Rightarrow>
     string \<Rightarrow> string \<Rightarrow> file_cache \<Rightarrow> handler_prog \<times> file_cache" where
  "respond_file fs later site req filePath variant cacheEnabled etag lastModified cache =
     (let opts = site_opts site; (actualPath, st, selectedEncoding) = variant;
          mimeTypeStr = mimeType (path_extension filePath) (mime_types opts);
          head = (\<lambda>k. set_status 200 (set_headers
            ([(codeToName NC_ContentType, mimeTypeStr), (codeToName NC_ContentLength, to_string (st_size st))] @
             (if selectedEncoding \<noteq> [] then [(codeToName NC_ContentEncoding, selectedEncoding)] else []) @
             [(codeToName NC_CacheControl, cacheControlValue site)]) k))
      in if req_method req = method_Head then (head (send_body []), cache)
         else
           (case fs_open fs actualPath of
              None \<Rightarrow> (head (respond 500), cache)
            | Some d \<Rightarrow>
                if cacheEnabled then
                  (let miss = (\<lambda>k. set_headers
                         (if cache_header opts \<noteq> [] then [(cache_header opts, ''MISS'')] else []) k);
                       fileData = take (st_size st) d
                   in if length fileData \<noteq> st_size st then (head (miss (respond 500)), cache)
                      else
                        (let node = \<lparr>node_key = actualPath, node_data = fileData, node_etag = etag,
                               node_last_modified = lastModified, node_mime_type = mimeTypeStr,
                               node_content_encoding = selectedEncoding,
                               expire_at = later + cache_ttl opts * 1000000000\<rparr>
                         in (head (miss (send_body [fileData])), cache_put node (cache_max_cache_size opts) cache)))
                else (head (send_body (read_pieces (st_size st) d)), cache)))"

text \<open>The part of the handler behind the checks of the validators; the headers set so far are \<open>hs\<close>.\<close>

definition serve_file ::
    "file_system \<Rightarrow> int \<Rightarrow> int \<Rightarrow> static_site \<Rightarrow> http_request \<Rightarrow> string \<Rightarrow> file_stat \<Rightarrow> string \<Rightarrow> string \<Rightarrow>
     file_cache \<Rightarrow> handler_prog \<times> file_cache" where
  "serve_file fs now later site req filePath st etag lastModified cache =
     (let opts = site_opts site; variant = select_variant fs site req filePath st;
          cacheKey = fst variant;
          cacheEnabled = (cache_ttl opts > 0 \<and> st_size (fst (snd variant)) mod 2 ^ 64 \<le> cache_max_file_size opts);
          (hit, cache) = (if cacheEnabled then try_cache now site cacheKey etag lastModified cache else (None, cache))
      in case hit of
           Some cached \<Rightarrow> (respond_cached site req cached, cache)
         | None \<Rightarrow> respond_file fs later site req filePath variant cacheEnabled etag lastModified cache)"

definition static_handler ::
    "file_system \<Rightarrow> int \<Rightarrow> int \<Rightarrow> static_site \<Rightarrow> http_request \<Rightarrow> string option \<Rightarrow> file_cache \<Rightarrow>
     handler_prog \<times> file_cache" where
  "static_handler fs now later site req param cache =
     (case resolve_path fs site param of
        None \<Rightarrow> (H_throw, cache)
      | Some filePath \<Rightarrow>
          if traversal site filePath then (respond 403, cache)
          else
            (case fs_stat fs filePath of
               None \<Rightarrow> (respond 404, cache)
             | Some st \<Rightarrow>
                 if \<not> st_regular st then (respond 404, cache)
                 else
                   (let lastModified = formatExpires (st_mtime st);
                        ims = getHeader_code (req_headers req) NC_IfModifiedSince
                    in if ims \<noteq> [] \<and> ims = lastModified then (respond 304, cache)
                       else
                         (let modified = (\<lambda>k. set_headers [(codeToName NC_LastModified, lastModified)] k);
                              etag = (if enable_etag (site_opts site) then makeETag (st_mtime st) (st_size st) else []);
                              inm = getHeader_code (req_headers req) NC_IfNoneMatch
                          in if enable_etag (site_opts site) \<and> inm \<noteq> [] \<and> inm = etag
                             then (modified (respond 304), cache)
                             else
                               (let tagged = (\<lambda>k. set_headers
                                      (if enable_etag (site_opts site) then [(''ETag'', etag)] else []) k);
                                    (prog, cache) =
                                      serve_file fs now later site req filePath st etag lastModified cache
                                in (modified (tagged prog), cache))))))"

text \<open>One cache per scheduler, made on first use.\<close>

definition getCurrent :: "nat \<Rightarrow> (nat \<rightharpoonup> file_cache) \<Rightarrow> file_cache \<times> (nat \<rightharpoonup> file_cache)" where
  "getCurrent sched caches =
     (case caches sched of Some c \<Rightarrow> (c, caches) | None \<Rightarrow> (cache_empty, caches(sched \<mapsto> cache_empty)))"

section \<open>Elements of paths\<close>

definition path_names :: "string \<Rightarrow> string list" where
  "path_names p = filter (\<lambda>s. s \<noteq> []) (segments separator p)"

lemma path_names_Nil [simp]: "path_names [] = []"
  by (simp add: path_names_def)

lemma path_names_plain: "separator \<notin> set f \<Longrightarrow> path_names f = (if f = [] then [] else [f])"
  by (simp add: path_names_def segments_single)

lemma path_names_append: "path_names (a @ separator # b) = path_names a @ path_names b"
proof (induction a rule: length_induct)
  case (1 a)
  show ?case
  proof (cases "separator \<in> set a")
    case True
    then obtain a1 a2 where a: "a = a1 @ separator # a2" "separator \<notin> set a1" using split_list_first by metis
    then have "path_names (a2 @ separator # b) = path_names a2 @ path_names b" using 1 by simp
    with a show ?thesis by (simp add: path_names_def segments_cons)
  next
    case False
    then show ?thesis by (simp add: path_names_def segments_cons segments_single)
  qed
qed

text \<open>A path is its directory part, which is empty or ends with a separator, and its file name.\<close>

lemma path_split:
  obtains a where "p = a @ path_filename p" "a = [] \<or> last a = separator" "separator \<notin> set (path_filename p)"
proof
  let ?a = "rev (dropWhile (\<lambda>c. c \<noteq> separator) (rev p))"
  have "rev p = takeWhile (\<lambda>c. c \<noteq> separator) (rev p) @ dropWhile (\<lambda>c. c \<noteq> separator) (rev p)" by simp
  then show "p = ?a @ path_filename p" unfolding path_filename_def by (metis rev_append rev_rev_ident)
  show "?a = [] \<or> last ?a = separator"
    using hd_dropWhile [of "\<lambda>c. c \<noteq> separator" "rev p"] by (auto simp: last_rev)
  show "separator \<notin> set (path_filename p)"
    by (auto simp: path_filename_def dest: set_takeWhileD)
qed

lemma elements_split:
  assumes "a = [] \<or> last a = separator" "separator \<notin> set f"
  shows "path_elements (a @ f) =
    (if path_absolute (a @ f) then [[separator]] else []) @ path_names a @
    (if f \<noteq> [] then [f] else if path_names a \<noteq> [] then [[]] else [])"
proof -
  have n: "path_names (a @ f) = path_names a @ path_names f"
  proof (cases "a = []")
    case False
    then obtain a' where "a = a' @ [separator]" using assms(1) by (metis append_butlast_last_id)
    then show ?thesis using path_names_append [of a' f] path_names_append [of a' "[]"] by simp
  qed simp
  show ?thesis
    using assms by (auto simp: path_elements_def path_names_def [symmetric] n path_names_plain Let_def) (metis last_in_set)+
qed

lemma set_elements: "set (path_elements p) \<subseteq> {[], [separator]} \<union> set (path_names p)"
  by (auto simp: path_elements_def path_names_def Let_def)

lemma path_names_elements: "set (path_names p) \<subseteq> set (path_elements p)"
  by (auto simp: path_elements_def path_names_def Let_def)

lemma names_path_append:
  assumes "separator \<notin> set f"
  shows "set (path_names (path_append p f)) \<subseteq> insert f (set (path_names p))"
proof -
  have f: "\<not> path_absolute f" using assms by (cases f) (auto simp: path_absolute_def)
  consider "p = []" | p' where "p = p' @ [separator]" | "p \<noteq> []" "last p \<noteq> separator"
    by (metis append_butlast_last_id)
  then show ?thesis
  proof cases
    case 1
    then show ?thesis using f assms by (simp add: path_append_def path_names_plain)
  next
    case 2
    then show ?thesis using f assms path_names_append [of p' f] path_names_append [of p' "[]"]
      by (auto simp: path_append_def path_names_plain)
  next
    case 3
    then show ?thesis using f assms by (auto simp: path_append_def path_names_append path_names_plain)
  qed
qed

lemma skip_common_prefix: "skip_common as bs = (as', bs') \<Longrightarrow> \<exists>c. as = c @ as' \<and> bs = c @ bs'"
  by (induction as bs rule: skip_common.induct) (auto split: if_splits)

section \<open>Files below the root\<close>

definition below :: "string \<Rightarrow> string \<Rightarrow> bool" where
  "below root p \<longleftrightarrow> (\<exists>rest. path_elements p = path_elements root @ rest \<and> rest \<noteq> [] \<and> ''..'' \<notin> set rest)"

text \<open>What \<^verbatim>\<open>weakly_canonical\<close> promises: paths in normal form; for an existing directory without a trailing separator.\<close>

definition canonical_paths :: "file_system \<Rightarrow> bool" where
  "canonical_paths fs \<longleftrightarrow> (\<forall>p q. fs_canonical fs p = Some q \<longrightarrow> ''..'' \<notin> set (path_elements q))"

definition canonical_root :: "static_site \<Rightarrow> bool" where
  "canonical_root site \<longleftrightarrow> (\<forall>e\<in>{[], ''.'', ''..''}. e \<notin> set (path_elements (site_root site)))"

definition plain_options :: "static_options \<Rightarrow> bool" where
  "plain_options opts \<longleftrightarrow>
     path_filename (index_file opts) \<noteq> ''..'' \<and>
     (\<forall>ext\<in>snd ` set (accept_encodings opts). ext \<noteq> [] \<and> separator \<notin> set ext \<and> last ext \<noteq> CHR ''.'')"

lemma resolved_normal:
  assumes "resolve_path fs site param = Some p" "canonical_paths fs" "plain_options (site_opts site)"
  shows "''..'' \<notin> set (path_elements p)"
proof -
  obtain q where q: "''..'' \<notin> set (path_elements q)"
      "p = q \<or> p = path_append q (path_filename (index_file (site_opts site)))"
    using assms(1,2) by (auto simp: resolve_path_def canonical_paths_def Let_def split: option.splits if_splits)
  have "''..'' \<notin> set (path_names (path_append q f))" if "''..'' \<noteq> f" "separator \<notin> set f" for f
    using names_path_append [OF that(2), of q] path_names_elements [of q] q(1) that(1) by blast
  moreover have "separator \<notin> set (path_filename (index_file (site_opts site)))" by (rule path_split)
  ultimately show ?thesis
    using q set_elements [of p] assms(3) by (auto simp: plain_options_def separator_def)
qed

lemma not_traversal:
  assumes "\<not> traversal site p" "canonical_root site" "''..'' \<notin> set (path_elements p)"
  shows "path_elements p = path_elements (site_root site) \<or> below (site_root site) p"
proof -
  obtain as bs where s: "skip_common (path_elements p) (path_elements (site_root site)) = (as, bs)" by fastforce
  then obtain c where c: "path_elements p = c @ as" "path_elements (site_root site) = c @ bs"
    using skip_common_prefix by metis
  have "filter (\<lambda>b. b \<noteq> [] \<and> b \<noteq> ''.'' \<and> b \<noteq> ''..'') bs = bs" "count_list bs ''..'' = 0"
    using assms(2) c(2) by (auto simp: canonical_root_def filter_id_conv count_list_0_iff)
  then have "levels_up bs = int (length bs)" by (simp add: levels_up_def)
  then have "bs = []"
    using assms(1) s by (cases bs) (auto simp: traversal_def lexically_relative_def split: if_splits)
  then show ?thesis using c assms(3) by (auto simp: below_def)
qed

lemma below_variant:
  assumes "below root p" "separator \<notin> set ext" "ext \<noteq> []" "last ext \<noteq> CHR ''.''"
  shows "below root (p @ ''.'' @ ext)"
proof -
  obtain a where a: "p = a @ path_filename p" "a = [] \<or> last a = separator" "separator \<notin> set (path_filename p)"
    by (rule path_split)
  define f where "f = path_filename p"
  let ?X = "(if path_absolute p then [[separator]] else []) @ path_names a" and ?f = "f @ ''.'' @ ext"
  have "path_elements p = ?X @ (if f \<noteq> [] then [f] else if path_names a \<noteq> [] then [[]] else [])"
    using elements_split [OF a(2,3)] a(1) by (simp add: f_def)
  then obtain t where t: "path_elements p = ?X @ t" "length t \<le> 1" by (auto split: if_splits)
  have abs: "path_absolute (p @ ''.'' @ ext) = path_absolute p" by (cases p) (auto simp: path_absolute_def separator_def)
  have af: "a @ ?f = p @ ''.'' @ ext" using a(1) by (metis append.assoc f_def)
  have "separator \<notin> set ?f" using a(3) assms(2) by (simp add: f_def separator_def)
  then have "path_elements (a @ ?f) = (if path_absolute (a @ ?f) then [[separator]] else []) @ path_names a @ [?f]"
    using elements_split [OF a(2), of ?f] by simp
  then have e: "path_elements (p @ ''.'' @ ext) = ?X @ [?f]" by (simp only: af abs append.assoc)
  obtain rest where r: "path_elements p = path_elements root @ rest" "rest \<noteq> []" "''..'' \<notin> set rest"
    using assms(1) by (auto simp: below_def)
  have "?f \<noteq> ''..''" using assms(3,4) by (metis append_is_Nil_conv last.simps last_appendR not_Cons_self2)
  moreover obtain rest' where "?X = path_elements root @ rest'" "set rest' \<subseteq> set rest"
  proof (cases "t = []")
    case True
    then show ?thesis using t(1) r(1) that [of rest] by simp
  next
    case False
    then obtain x where "t = [x]" using t(2) by (cases t) auto
    then have "?X = path_elements root @ butlast rest" using t(1) r(1,2) by (metis butlast_append butlast_snoc)
    then show ?thesis using that [of "butlast rest"] by (auto dest: in_set_butlastD)
  qed
  ultimately show ?thesis unfolding below_def e using r(3) by (intro exI [of _ "rest' @ [?f]"]) auto
qed

definition root_is_directory :: "file_system \<Rightarrow> static_site \<Rightarrow> bool" where
  "root_is_directory fs site \<longleftrightarrow>
     (\<forall>p st. path_elements p = path_elements (site_root site) \<and> fs_stat fs p = Some st \<longrightarrow> \<not> st_regular st)"

definition agree_below :: "string \<Rightarrow> file_system \<Rightarrow> file_system \<Rightarrow> bool" where
  "agree_below root fs fs' \<longleftrightarrow>
     fs_canonical fs' = fs_canonical fs \<and> fs_is_directory fs' = fs_is_directory fs \<and>
     (\<forall>p. below root p \<longrightarrow> fs_stat fs' p = fs_stat fs p \<and> fs_open fs' p = fs_open fs p)"

lemma same_resolve: "agree_below root fs fs' \<Longrightarrow> resolve_path fs' site param = resolve_path fs site param"
  by (simp add: agree_below_def resolve_path_def cong: option.case_cong)

lemma variant_agrees:
  assumes "agree_below root fs fs'" "below root p"
    and "\<forall>ext\<in>snd ` set encs. ext \<noteq> [] \<and> separator \<notin> set ext \<and> last ext \<noteq> CHR ''.''"
  shows "pick_variant fs' encs p tokens = pick_variant fs encs p tokens"
    "pick_variant fs encs p tokens = Some (q, st, enc) \<Longrightarrow> below root q"
proof -
  have "below root (p @ ''.'' @ ext)" if "map_of encs token = Some ext" for token ext
    using below_variant [OF assms(2)] map_of_SomeD [OF that] assms(3) by force
  then show "pick_variant fs' encs p tokens = pick_variant fs encs p tokens"
    "pick_variant fs encs p tokens = Some (q, st, enc) \<Longrightarrow> below root q"
    using assms(1) by (induction tokens) (auto simp: agree_below_def Let_def split: option.splits if_splits)
qed

lemma select_variant_agrees:
  assumes "agree_below root fs fs'" "below root p" "plain_options (site_opts site)"
  shows "select_variant fs' site req p st = select_variant fs site req p st" "below root (fst (select_variant fs site req p st))"
  using assms variant_agrees [OF assms(1,2), of "accept_encodings (site_opts site)"]
  by (auto simp: select_variant_def plain_options_def Let_def split: option.splits)

lemma serve_agrees:
  assumes "agree_below root fs fs'" "below root p" "plain_options (site_opts site)"
  shows "serve_file fs' now later site req p st etag lm cache = serve_file fs now later site req p st etag lm cache"
proof -
  have "respond_file fs' later site req p v en etag lm c = respond_file fs later site req p v en etag lm c"
    if "below root (fst v)" for v en c
    using that assms(1) by (cases v) (simp add: respond_file_def agree_below_def cong: if_cong)
  then show ?thesis using select_variant_agrees [OF assms] by (simp add: serve_file_def cong: option.case_cong)
qed

section \<open>What is sent\<close>

lemma run_set_status [simp]:
  "run_handler reg date (set_status code k) b ob c = run_handler reg date k b (setStatus code [] ob) c"
  by (simp add: set_status_def)

lemma run_set_headers [simp]:
  "run_handler reg date (set_headers hs k) b ob c =
     run_handler reg date k b (fold (\<lambda>(nm, v). setHeader nm v) hs ob) c"
  by (induction hs arbitrary: ob) (auto simp: set_headers_def)

lemma end_data_Nil: "bodyLength ob < 2 ^ 64 \<Longrightarrow> out_end_data reg date [] ob s = out_end reg date ob s"
  by (simp add: out_end_data_def bodyLength_add_def)

lemma out_write_length:
  assumes "out_write reg date d ob s = Inr (ob', s')"
  shows "bodyLength ob' < 2 ^ 64"
  using assms
  by (auto simp: out_write_def Let_def bodyLength_add_def decideTransferMode_def writeHeaders_def out_writer_write_def
      setHeader_code_def split: if_splits sum.splits option.splits prod.splits out_message.splits)

lemma send_message_Cons:
  "send_message reg date (d # ds) fin ob s =
     (case out_write reg date d ob s of Inl e \<Rightarrow> Inl e | Inr (ob, s) \<Rightarrow> send_message reg date ds fin ob s)"
proof -
  have "fold (\<lambda>d r. case r of Inl e \<Rightarrow> Inl e | Inr (ob, s) \<Rightarrow> out_write reg date d ob s) ds (Inl e) = Inl e" for e
    by (induction ds) simp_all
  then show ?thesis by (auto simp: send_message_def send_pieces_def split: sum.splits)
qed

lemma run_send_body:
  assumes "send_message reg date ds [] ob (peer c) = Inr (ob', s')" "bodyLength ob < 2 ^ 64"
  shows "run_handler reg date (send_body ds) b ob c =
    \<lparr>run_exception = None, run_reader = b, run_response = ob', run_conn = c\<lparr>peer := s'\<rparr>\<rparr>"
  using assms
proof (induction ds arbitrary: ob c)
  case Nil
  then show ?case by (simp add: send_body_def send_message_def send_pieces_def end_data_Nil)
next
  case (Cons d ds)
  then obtain ob1 s1 where w: "out_write reg date d ob (peer c) = Inr (ob1, s1)"
    "send_message reg date ds [] ob1 s1 = Inr (ob', s')"
    by (auto simp: send_message_Cons split: sum.splits)
  with Cons.IH [of ob1 "c\<lparr>peer := s1\<rparr>"] out_write_length [OF w(1)] show ?case
    by (simp add: send_body_def)
qed

definition header_fold :: "(string \<times> string) list \<Rightarrow> header_map \<Rightarrow> header_map" where
  "header_fold hs m = fold (\<lambda>(nm, v). omap_assign (toLower nm) (httpHeader nm v)) hs m"

definition last_set :: "(string \<times> string) list \<Rightarrow> string \<Rightarrow> string option" where
  "last_set hs k = map_of (rev (map (\<lambda>(nm, v). (toLower nm, v)) hs)) k"

lemma last_set_append: "last_set (hs @ hs') k = (case last_set hs' k of Some v \<Rightarrow> Some v | None \<Rightarrow> last_set hs k)"
  by (simp add: last_set_def map_add_def split: option.split)

lemma last_set_Nil [simp]: "last_set [] k = None"
  by (simp add: last_set_def)

lemma last_set_Cons:
  "last_set ((nm, v) # hs) k = (case last_set hs k of Some w \<Rightarrow> Some w | None \<Rightarrow> if toLower nm = k then Some v else None)"
  by (simp add: last_set_def map_add_def split: option.split)

lemma header_fold_append: "header_fold (hs @ hs') m = header_fold hs' (header_fold hs m)"
  by (simp add: header_fold_def)

lemma header_fold_find:
  "omap_find (header_fold hs m) k = (case last_set hs k of Some v \<Rightarrow> Some (httpHeader k v) | None \<Rightarrow> omap_find m k)"
proof (induction hs arbitrary: m)
  case (Cons x hs)
  then show ?case
    by (cases x) (auto simp: header_fold_def last_set_Cons omap_find_assign split: option.split)
qed (simp add: header_fold_def)

lemma header_fold_inv: "header_map_inv m \<Longrightarrow> header_map_inv (header_fold hs m)"
  by (induction hs arbitrary: m) (auto simp: header_fold_def)

lemma header_fold_eqI:
  assumes "\<And>k. last_set hs k = last_set hs' k"
  shows "header_fold hs [] = header_fold hs' []"
proof (rule omap_ext)
  show "omap_inv (header_fold hs [])" "omap_inv (header_fold hs' [])"
    using header_fold_inv [of "[]"] by (simp_all add: header_map_inv_def)
  show "omap_find (header_fold hs []) k = omap_find (header_fold hs' []) k" for k
    by (simp add: header_fold_find assms)
qed

lemma fold_setHeader:
  "out_data ob = Out_response r \<Longrightarrow> fold (\<lambda>(nm, v). setHeader nm v) hs ob =
     ob\<lparr>out_data := Out_response (r\<lparr>resp_headers := header_fold hs (resp_headers r)\<rparr>)\<rparr>"
proof (induction hs arbitrary: ob r)
  case (Cons x hs)
  obtain nm v where x: "x = (nm, v)" by fastforce
  have "out_data (setHeader nm v ob) = Out_response (r\<lparr>resp_headers := omap_assign (toLower nm) (httpHeader nm v) (resp_headers r)\<rparr>)"
    "(setHeader nm v ob)\<lparr>out_data := y\<rparr> = ob\<lparr>out_data := y\<rparr>" for y
    using Cons.prems by (simp_all add: setHeader_def)
  with Cons.IH [of "setHeader nm v ob"] show ?case by (simp add: x header_fold_def)
qed (simp add: header_fold_def)

lemma setStatus_response:
  "out_data ob = Out_response r \<Longrightarrow> setStatus code [] ob =
     ob\<lparr>out_data := Out_response (r\<lparr>resp_statusCode := word_of_int code, resp_statusReason := getDefaultReason (word_of_int code)\<rparr>)\<rparr>"
  by (simp add: setStatus_def)

text \<open>A response with the status \<open>code\<close> and the headers \<open>hs\<close>, set in this order.\<close>

definition reply_of :: "int \<Rightarrow> (string \<times> string) list \<Rightarrow> http_response" where
  "reply_of code hs = response_default\<lparr>resp_statusCode := word_of_int code,
     resp_statusReason := getDefaultReason (word_of_int code), resp_headers := header_fold hs []\<rparr>"

lemma reply_sent:
  assumes "prev \<noteq> Some False" "last_set hs ''content-length'' = Some (to_string (length (concat ds)))"
    "last_set hs ''transfer-encoding'' = None" "length (concat ds) < 2 ^ 64"
  shows "\<exists>ob' s'. run_handler reg date (send_body ds) b
      ((outgoing_response prev False sd)\<lparr>out_data := Out_response (reply_of code hs)\<rparr>) c =
        \<lparr>run_exception = None, run_reader = b, run_response = ob', run_conn = c\<lparr>peer := s'\<rparr>\<rparr> \<and>
      finished ob' \<and> out_data ob' = Out_response (reply_of code hs) \<and>
      sent_bytes s' = sent_bytes (peer c) @ head_text reg date sd (Out_response (reply_of code hs)) @ concat ds"
proof -
  let ?ob = "(outgoing_response prev False sd)\<lparr>out_data := Out_response (reply_of code hs)\<rparr>" and ?n = "length (concat ds)"
  have fr: "framing_unset ?n (Out_response (reply_of code hs))"
    using assms(2,3) header_fold_inv [of "[]" hs] by (simp add: framing_unset_def reply_of_def header_fold_find)
  have cl: "omap_find (out_headers (Out_response (reply_of code hs))) ''content-length'' \<noteq> None"
    using assms(2) by (simp add: reply_of_def header_fold_find)
  have mode: "chosen_mode ds (out_data ?ob) = ContentLength" using cl by (simp add: chosen_mode_def)
  have f: "fresh ?ob" "\<not> ignoreBody ?ob" "bodyLength ?ob < 2 ^ 64" "sendDateHeader ?ob = sd"
    using assms(1) by (simp_all add: fresh_def outgoing_response_def outgoing_init_def await_prev_def)
  have "\<exists>ob' s'. send_message reg date ds [] ?ob (peer c) = Inr (ob', s') \<and> finished ob' \<and>
      out_data ob' = announce ContentLength ?n (out_data ?ob) \<and>
      sent_bytes s' = sent_bytes (peer c) @ head_text reg date (sendDateHeader ?ob) (announce ContentLength ?n (out_data ?ob)) @
        framed ContentLength (ds @ [[]])"
    by (rule send_message_sent [OF f(1,2)]) (use fr assms(4) mode in simp_all)
  then show ?thesis
    using run_send_body [where ob = ?ob and b = b] f(3,4) announce_present [OF fr cl]
    by (fastforce simp: framed_def)
qed

lemma toLower_codeToName [simp]: "toLower (codeToName c) = codeToName c"
  using toLower_literals [of c] toLower_idem by metis

lemma codeToName_eq [simp]: "codeToName c = codeToName c' \<longleftrightarrow> c = c'"
  using nameToCode_codeToName by metis

lemma setHeader_by_code: "setHeader (codeToName c) v ob = setHeader_code c v ob"
proof -
  have "httpHeader (codeToName c) v = httpHeader_of_code c v"
    by (simp add: httpHeader_def httpHeader_of_code_def nameToCode_codeToName codeToName_def [symmetric])
  then show ?thesis by (simp add: setHeader_def setHeader_code_def)
qed

lemma literal_names:
  "''content-length'' = codeToName NC_ContentLength" "''transfer-encoding'' = codeToName NC_TransferEncoding"
  "toLower ''ETag'' = codeToName NC_ETag"
  by (simp_all add: codeToName_def toLower_def char_eval)

lemma run_reply:
  "run_handler reg date (set_headers hs1 (set_headers hs2 (set_status code (set_headers hs3 k)))) b
     (outgoing_response prev ig sd) c =
   run_handler reg date k b ((outgoing_response prev ig sd)\<lparr>out_data := Out_response (reply_of code (hs1 @ hs2 @ hs3))\<rparr>) c"
proof -
  have "resp_headers response_default = []" by (simp add: response_default_def)
  then show ?thesis
    by (simp add: fold_setHeader setStatus_response outgoing_response_def outgoing_init_def reply_of_def header_fold_append)
qed

lemma more_headers:
  "run_handler reg date (set_headers hs' k) b ((outgoing_response prev ig sd)\<lparr>out_data := Out_response (reply_of code hs)\<rparr>) c =
   run_handler reg date k b ((outgoing_response prev ig sd)\<lparr>out_data := Out_response (reply_of code (hs @ hs'))\<rparr>) c"
  by (simp add: fold_setHeader reply_of_def header_fold_append)

text \<open>The headers of a file: its validators, and what the variant adds.\<close>

definition validator_headers :: "static_site \<Rightarrow> file_stat \<Rightarrow> (string \<times> string) list" where
  "validator_headers site st =
     [(codeToName NC_LastModified, formatExpires (st_mtime st))] @
     (if enable_etag (site_opts site) then [(''ETag'', makeETag (st_mtime st) (st_size st))] else [])"

definition content_headers :: "static_site \<Rightarrow> string \<Rightarrow> nat \<Rightarrow> string \<Rightarrow> (string \<times> string) list" where
  "content_headers site filePath n enc =
     [(codeToName NC_ContentType, mimeType (path_extension filePath) (mime_types (site_opts site))),
      (codeToName NC_ContentLength, to_string n)] @
     (if enc \<noteq> [] then [(codeToName NC_ContentEncoding, enc)] else []) @
     [(codeToName NC_CacheControl, cacheControlValue site)]"

text \<open>A request for a regular file below the root that is not conditional on its validators.\<close>

definition plain_request :: "file_system \<Rightarrow> static_site \<Rightarrow> http_request \<Rightarrow> string option \<Rightarrow> string \<Rightarrow> file_stat \<Rightarrow> bool" where
  "plain_request fs site req param p st \<longleftrightarrow>
     resolve_path fs site param = Some p \<and> \<not> traversal site p \<and> fs_stat fs p = Some st \<and> st_regular st \<and>
     getHeader_code (req_headers req) NC_IfModifiedSince \<noteq> formatExpires (st_mtime st) \<and>
     (enable_etag (site_opts site) \<longrightarrow> getHeader_code (req_headers req) NC_IfNoneMatch \<noteq> makeETag (st_mtime st) (st_size st)) \<and>
     req_method req \<noteq> method_Head"

lemma handler_plain:
  assumes "plain_request fs site req param p st"
  shows "static_handler fs now later site req param cache =
    (let etag = (if enable_etag (site_opts site) then makeETag (st_mtime st) (st_size st) else []);
         (prog, cache) = serve_file fs now later site req p st etag (formatExpires (st_mtime st)) cache
     in (set_headers [(codeToName NC_LastModified, formatExpires (st_mtime st))]
           (set_headers (if enable_etag (site_opts site) then [(''ETag'', etag)] else []) prog), cache))"
  using assms by (simp add: static_handler_def plain_request_def Let_def)

lemma read_pieces_all:
  "remaining = length d \<Longrightarrow> concat (read_pieces remaining d) = d"
proof (induction remaining d rule: read_pieces.induct)
  case (1 remaining d)
  show ?case
  proof (cases "remaining = 0")
    case True
    then show ?thesis using 1(2) by (simp add: read_pieces.simps)
  next
    case False
    let ?buf = "take (min remaining kChunkSize) d"
    have l: "length ?buf = min remaining kChunkSize" using 1(2) by simp
    have "?buf \<noteq> []" using False 1(2) by (simp add: kChunkSize_def)
    moreover from this have "concat (read_pieces (remaining - length ?buf) (drop (length ?buf) d)) = drop (length ?buf) d"
      using 1 False by (simp only:) simp
    ultimately have "concat (read_pieces remaining d) = ?buf @ drop (length ?buf) d"
      using False by (subst read_pieces.simps) (simp only: Let_def if_False concat.simps)
    then show ?thesis unfolding l by (simp only: append_take_drop_id)
  qed
qed

lemma getHeader_fold: "getHeader_code (header_fold hs []) c = (case last_set hs (codeToName c) of Some v \<Rightarrow> v | None \<Rightarrow> [])"
  by (simp add: getHeader_code_def header_fold_find split: option.split)

text \<open>The name of the header that tells hits from misses is not one that the code knows.\<close>

definition own_cache_header :: "static_options \<Rightarrow> bool" where
  "own_cache_header opts \<longleftrightarrow> nameToCode (toLower (cache_header opts)) = NC_Unknown"

definition cache_note :: "static_options \<Rightarrow> bool \<Rightarrow> string \<Rightarrow> (string \<times> string) list" where
  "cache_note opts enabled v = (if enabled \<and> cache_header opts \<noteq> [] then [(cache_header opts, v)] else [])"

lemma cache_note_known:
  assumes "own_cache_header opts" "c \<noteq> NC_Unknown"
  shows "last_set (hs @ cache_note opts en v) (codeToName c) = last_set hs (codeToName c)"
proof -
  have "toLower (cache_header opts) \<noteq> codeToName c"
    using assms nameToCode_codeToName [of c] by (auto simp: own_cache_header_def)
  then show ?thesis by (simp add: cache_note_def last_set_append last_set_Cons)
qed

lemma file_headers_known:
  assumes "own_cache_header (site_opts site)"
  shows "last_set (validator_headers site st @ content_headers site p n enc @ cache_note (site_opts site) en v) (codeToName c) =
    (if c = NC_Unknown then last_set (validator_headers site st @ content_headers site p n enc @
        cache_note (site_opts site) en v) (codeToName c)
     else if c = NC_CacheControl then Some (cacheControlValue site)
     else if c = NC_ContentEncoding \<and> enc \<noteq> [] then Some enc
     else if c = NC_ContentLength then Some (to_string n)
     else if c = NC_ContentType then Some (mimeType (path_extension p) (mime_types (site_opts site)))
     else if c = NC_ETag \<and> enable_etag (site_opts site) then Some (makeETag (st_mtime st) (st_size st))
     else if c = NC_LastModified then Some (formatExpires (st_mtime st)) else None)"
proof -
  have eq: "(codeToName a = codeToName b) = (a = b)" for a b by simp
  show ?thesis
    using cache_note_known [OF assms, of c "validator_headers site st @ content_headers site p n enc" en v]
    by (cases c) (simp_all add: validator_headers_def content_headers_def last_set_append last_set_Cons literal_names(3))
qed

lemma serve_miss:
  assumes "select_variant fs site req p st = (q, st', enc)" "fs_open fs q = Some d" "length d = st_size st'"
    "req_method req \<noteq> method_Head"
    and "en = (cache_ttl (site_opts site) > 0 \<and> st_size st' mod 2 ^ 64 \<le> cache_max_file_size (site_opts site))"
    and "en \<Longrightarrow> try_cache now site q etag lm cache = (None, cache')" "\<not> en \<Longrightarrow> cache' = cache"
  shows "\<exists>ds. concat ds = d \<and> serve_file fs now later site req p st etag lm cache =
    (set_status 200 (set_headers (content_headers site p (length d) enc)
       (set_headers (cache_note (site_opts site) en ''MISS'') (send_body ds))),
     if en then cache_put \<lparr>node_key = q, node_data = d, node_etag = etag, node_last_modified = lm,
         node_mime_type = mimeType (path_extension p) (mime_types (site_opts site)),
         node_content_encoding = enc, expire_at = later + cache_ttl (site_opts site) * 1000000000\<rparr>
         (cache_max_cache_size (site_opts site)) cache'
     else cache)"
proof -
  have serve: "serve_file fs now later site req p st etag lm cache = respond_file fs later site req p (q, st', enc) en etag lm cache'"
  proof (cases en)
    case True
    then show ?thesis using assms(1,5) assms(6) by (simp add: serve_file_def Let_def)
  next
    case False
    then have "\<not> (cache_ttl (site_opts site) > 0 \<and> st_size st' mod 2 ^ 64 \<le> cache_max_file_size (site_opts site))"
      "cache' = cache" using assms(5,7) by blast+
    then show ?thesis using assms(1) False by (simp only: serve_file_def Let_def fst_conv snd_conv if_False) simp
  qed
  have nil: "set_headers [] k = k" for k by (simp add: set_headers_def)
  define ds where "ds = (if en then [d] else read_pieces (st_size st') d)"
  have c: "concat ds = d" using read_pieces_all [of "st_size st'" d] assms(3) by (simp add: ds_def)
  have r: "respond_file fs later site req p (q, st', enc) en etag lm cache' =
    (set_status 200 (set_headers (content_headers site p (length d) enc)
       (set_headers (cache_note (site_opts site) en ''MISS'') (send_body ds))),
     if en then cache_put \<lparr>node_key = q, node_data = d, node_etag = etag, node_last_modified = lm,
         node_mime_type = mimeType (path_extension p) (mime_types (site_opts site)),
         node_content_encoding = enc, expire_at = later + cache_ttl (site_opts site) * 1000000000\<rparr>
         (cache_max_cache_size (site_opts site)) cache'
     else cache)"
    using assms(7)
    by (cases en) (simp_all add: respond_file_def content_headers_def cache_note_def ds_def nil Let_def
        assms(2) assms(3) [symmetric] assms(4) del: method_defs)
  show ?thesis by (intro exI [of _ ds] conjI, rule c, simp only: serve r)
qed

definition file_reply :: "static_site \<Rightarrow> string \<Rightarrow> file_stat \<Rightarrow> nat \<Rightarrow> string \<Rightarrow> bool \<Rightarrow> string \<Rightarrow> http_response" where
  "file_reply site p st n enc en v =
     reply_of 200 (validator_headers site st @ content_headers site p n enc @ cache_note (site_opts site) en v)"

lemma file_reply_headers:
  assumes "own_cache_header (site_opts site)"
  shows "resp_statusCode (file_reply site p st n enc en v) = 200"
    "getHeader_code (resp_headers (file_reply site p st n enc en v)) NC_ContentLength = to_string n"
    "getHeader_code (resp_headers (file_reply site p st n enc en v)) NC_ContentType =
       mimeType (path_extension p) (mime_types (site_opts site))"
    "getHeader_code (resp_headers (file_reply site p st n enc en v)) NC_ContentEncoding = enc"
    "getHeader_code (resp_headers (file_reply site p st n enc en v)) NC_LastModified = formatExpires (st_mtime st)"
  by (simp_all add: file_reply_def reply_of_def getHeader_fold file_headers_known [OF assms])

lemma file_reply_sent:
  assumes "prev \<noteq> Some False" "own_cache_header (site_opts site)" "concat ds = d" "length d < 2 ^ 64"
  shows "\<exists>ob' s'. run_handler reg date (send_body ds) b
      ((outgoing_response prev False sd)\<lparr>out_data := Out_response (file_reply site p st (length d) enc en v)\<rparr>) c =
        \<lparr>run_exception = None, run_reader = b, run_response = ob', run_conn = c\<lparr>peer := s'\<rparr>\<rparr> \<and>
      finished ob' \<and> out_data ob' = Out_response (file_reply site p st (length d) enc en v) \<and>
      sent_bytes s' = sent_bytes (peer c) @ head_text reg date sd (Out_response (file_reply site p st (length d) enc en v)) @ d"
  using reply_sent [OF assms(1),
      where hs = "validator_headers site st @ content_headers site p (length d) enc @ cache_note (site_opts site) en v"
        and ds = ds and reg = reg and date = date and b = b and sd = sd and code = 200 and c = c] assms
  by (simp add: file_reply_def literal_names(1,2) file_headers_known [OF assms(2)])

text \<open>What a call of the handler sends: the reply \<open>r\<close> with the body \<open>d\<close>, as one complete response.\<close>

definition sends_reply :: "handler_prog \<Rightarrow> http_response \<Rightarrow> string \<Rightarrow> bool" where
  "sends_reply prog r d \<longleftrightarrow> (\<forall>reg date b prev sd c. prev \<noteq> Some False \<longrightarrow>
     (\<exists>ob' s'. run_handler reg date prog b (outgoing_response prev False sd) c =
          \<lparr>run_exception = None, run_reader = b, run_response = ob', run_conn = c\<lparr>peer := s'\<rparr>\<rparr> \<and>
        finished ob' \<and> out_data ob' = Out_response r \<and>
        sent_bytes s' = sent_bytes (peer c) @ head_text reg date sd (Out_response r) @ d))"

lemma sends_file_reply:
  assumes "own_cache_header (site_opts site)" "concat ds = d" "length d < 2 ^ 64"
    and "\<And>reg date b prev sd c. run_handler reg date prog b (outgoing_response prev False sd) c =
      run_handler reg date (send_body ds) b
        ((outgoing_response prev False sd)\<lparr>out_data := Out_response (file_reply site p st (length d) enc en v)\<rparr>) c"
  shows "sends_reply prog (file_reply site p st (length d) enc en v) d"
  unfolding sends_reply_def assms(4) using file_reply_sent [OF _ assms(1-3)] by blast

lemma miss_sends:
  assumes "plain_request fs site req param p st" "select_variant fs site req p st = (q, st', enc)"
    "fs_open fs q = Some d" "length d = st_size st'" "length d < 2 ^ 64" "own_cache_header (site_opts site)"
    and "en = (cache_ttl (site_opts site) > 0 \<and> st_size st' mod 2 ^ 64 \<le> cache_max_file_size (site_opts site))"
    and "etag = (if enable_etag (site_opts site) then makeETag (st_mtime st) (st_size st) else [])"
    and "en \<Longrightarrow> try_cache now site q etag (formatExpires (st_mtime st)) cache = (None, cache')" "\<not> en \<Longrightarrow> cache' = cache"
  shows "sends_reply (fst (static_handler fs now later site req param cache)) (file_reply site p st (length d) enc en ''MISS'') d"
    "snd (static_handler fs now later site req param cache) =
      (if en then cache_put \<lparr>node_key = q, node_data = d, node_etag = etag, node_last_modified = formatExpires (st_mtime st),
         node_mime_type = mimeType (path_extension p) (mime_types (site_opts site)),
         node_content_encoding = enc, expire_at = later + cache_ttl (site_opts site) * 1000000000\<rparr>
         (cache_max_cache_size (site_opts site)) cache' else cache)"
proof -
  have "req_method req \<noteq> method_Head" using assms(1) by (simp add: plain_request_def)
  from serve_miss [OF assms(2-4) this assms(7), of now etag "formatExpires (st_mtime st)" cache cache' later] assms(9,10)
  obtain ds where ds: "concat ds = d" "serve_file fs now later site req p st etag (formatExpires (st_mtime st)) cache =
    (set_status 200 (set_headers (content_headers site p (length d) enc)
       (set_headers (cache_note (site_opts site) en ''MISS'') (send_body ds))),
     if en then cache_put \<lparr>node_key = q, node_data = d, node_etag = etag, node_last_modified = formatExpires (st_mtime st),
         node_mime_type = mimeType (path_extension p) (mime_types (site_opts site)),
         node_content_encoding = enc, expire_at = later + cache_ttl (site_opts site) * 1000000000\<rparr>
         (cache_max_cache_size (site_opts site)) cache'
     else cache)" by blast
  note h = handler_plain [OF assms(1), of now later cache, folded assms(8), unfolded Let_def ds(2) prod.case]
  have v: "validator_headers site st = [(codeToName NC_LastModified, formatExpires (st_mtime st))] @
      (if enable_etag (site_opts site) then [(''ETag'', etag)] else [])" by (simp add: validator_headers_def assms(8))
  show "sends_reply (fst (static_handler fs now later site req param cache)) (file_reply site p st (length d) enc en ''MISS'') d"
    unfolding h fst_conv
    by (rule sends_file_reply [OF assms(6) ds(1) assms(5)])
      (simp only: run_reply more_headers file_reply_def v append_assoc)
  show "snd (static_handler fs now later site req param cache) =
      (if en then cache_put \<lparr>node_key = q, node_data = d, node_etag = etag, node_last_modified = formatExpires (st_mtime st),
         node_mime_type = mimeType (path_extension p) (mime_types (site_opts site)),
         node_content_encoding = enc, expire_at = later + cache_ttl (site_opts site) * 1000000000\<rparr>
         (cache_max_cache_size (site_opts site)) cache' else cache)"
    unfolding h by (simp only: snd_conv)
qed

lemma makeETag_neq_Nil [simp]: "makeETag m n \<noteq> []"
  by (simp add: makeETag_def)

text \<open>A cached entry gives the headers that reading the file would have given.\<close>

lemma cached_headers:
  assumes "etag = (if enable_etag (site_opts site) then makeETag (st_mtime st) (st_size st) else [])"
  shows "reply_of 200 (validator_headers site st @
      [(codeToName NC_ContentType, mimeType (path_extension p) (mime_types (site_opts site))),
       (codeToName NC_LastModified, formatExpires (st_mtime st))] @
      (if etag \<noteq> [] then [(''ETag'', etag)] else []) @
      (if enc \<noteq> [] then [(codeToName NC_ContentEncoding, enc)] else []) @
      [(codeToName NC_ContentLength, to_string n), (codeToName NC_CacheControl, cacheControlValue site)] @
      cache_note (site_opts site) True v) = file_reply site p st n enc True v"
proof -
  let ?note = "cache_note (site_opts site) True v"
  have "last_set (validator_headers site st @
      [(codeToName NC_ContentType, mimeType (path_extension p) (mime_types (site_opts site))),
       (codeToName NC_LastModified, formatExpires (st_mtime st))] @
      (if etag \<noteq> [] then [(''ETag'', etag)] else []) @
      (if enc \<noteq> [] then [(codeToName NC_ContentEncoding, enc)] else []) @
      [(codeToName NC_ContentLength, to_string n), (codeToName NC_CacheControl, cacheControlValue site)] @ ?note) k =
    last_set (validator_headers site st @ content_headers site p n enc @ ?note) k" for k
  proof (cases "last_set ?note k")
    case None
    then show ?thesis
      using assms by (auto simp: validator_headers_def content_headers_def last_set_append last_set_Cons literal_names(3)
          split: option.split)
  next
    case (Some w)
    then show ?thesis by (simp add: last_set_append last_set_Cons)
  qed
  then show ?thesis unfolding file_reply_def reply_of_def by (subst header_fold_eqI) auto
qed

lemma hit_sends:
  assumes "plain_request fs site req param p st" "select_variant fs site req p st = (q, st', enc)"
    "length d < 2 ^ 64" "own_cache_header (site_opts site)"
    and "cache_ttl (site_opts site) > 0 \<and> st_size st' mod 2 ^ 64 \<le> cache_max_file_size (site_opts site)"
    and "etag = (if enable_etag (site_opts site) then makeETag (st_mtime st) (st_size st) else [])"
    and "cache_get now q cache = (Some \<lparr>node_key = q, node_data = d, node_etag = etag,
       node_last_modified = formatExpires (st_mtime st),
       node_mime_type = mimeType (path_extension p) (mime_types (site_opts site)),
       node_content_encoding = enc, expire_at = e\<rparr>, cache')"
  shows "sends_reply (fst (static_handler fs now later site req param cache)) (file_reply site p st (length d) enc True ''HIT'') d"
proof -
  define node where "node = \<lparr>node_key = q, node_data = d, node_etag = etag,
       node_last_modified = formatExpires (st_mtime st),
       node_mime_type = mimeType (path_extension p) (mime_types (site_opts site)),
       node_content_encoding = enc, expire_at = e\<rparr>"
  have g: "req_method req \<noteq> method_Head" using assms(1) by (simp add: plain_request_def)
  have "try_cache now site q etag (formatExpires (st_mtime st)) cache = (Some node, cache')"
    using assms(7) by (simp add: try_cache_def node_def)
  then have serve: "serve_file fs now later site req p st etag (formatExpires (st_mtime st)) cache = (respond_cached site req node, cache')"
    using assms(2,5) by (simp add: serve_file_def Let_def)
  have prog: "respond_cached site req node = set_status 200 (set_headers
      ([(codeToName NC_ContentType, mimeType (path_extension p) (mime_types (site_opts site))),
       (codeToName NC_LastModified, formatExpires (st_mtime st))] @
      (if etag \<noteq> [] then [(''ETag'', etag)] else []) @
      (if enc \<noteq> [] then [(codeToName NC_ContentEncoding, enc)] else []) @
      [(codeToName NC_ContentLength, to_string (length d)), (codeToName NC_CacheControl, cacheControlValue site)] @
      cache_note (site_opts site) True ''HIT'') (send_body [d]))"
    using g by (simp add: respond_cached_def node_def cache_note_def)
  note h = handler_plain [OF assms(1), of now later cache, folded assms(6), unfolded Let_def serve prod.case]
  have v: "validator_headers site st = [(codeToName NC_LastModified, formatExpires (st_mtime st))] @
      (if enable_etag (site_opts site) then [(''ETag'', etag)] else [])" by (simp add: validator_headers_def assms(6))
  have one: "concat [d] = d" by simp
  show ?thesis
    unfolding h fst_conv
    by (rule sends_file_reply [OF assms(4) one assms(3)])
      (simp only: prog run_reply cached_headers [OF assms(6), symmetric] v append_assoc)
qed

lemma try_cache_None: "fst (cache_get now q cache) = None \<Longrightarrow>
  try_cache now site q etag lm cache = (None, snd (cache_get now q cache))"
  by (cases "cache_get now q cache") (simp add: try_cache_def)

lemma get_after_put:
  assumes "cache_inv m c" "length (node_data n) \<le> m" "m < 2 ^ 63" "now \<le> expire_at n"
  shows "fst (cache_get now (node_key n) (cache_put n m c)) = Some n"
  using get_refines(3) [OF put_refines(1) [OF assms(1-3)]] put_refines(2) [OF assms(1-3)] assms(4)
  by (simp add: lru_get_def lookup_node_def lru_put_def Let_def)

section \<open>The properties of the handler\<close>

text \<open>
  C37. The handler reads no file outside its root. Let two file systems answer alike for all paths below
  the root, and anything elsewhere; then the handler sends the same response and leaves the same
  cache, for every path parameter (with dots, absolute, empty), every header and every state of the
  cache. \<^verbatim>\<open>weakly_canonical\<close> returns paths without dot-dot elements, the root is a directory in
  normal form, and the options name an index file and suffixes without separators.
\<close>

theorem static_reads_below_root:
  assumes "canonical_paths fs" "canonical_root site" "plain_options (site_opts site)"
    and "root_is_directory fs site" "root_is_directory fs' site" "agree_below (site_root site) fs fs'"
  shows "static_handler fs' now later site req param cache = static_handler fs now later site req param cache"
proof (cases "resolve_path fs site param")
  case None
  moreover from this have "resolve_path fs' site param = None" using same_resolve [OF assms(6)] by simp
  ultimately show ?thesis by (simp add: static_handler_def)
next
  case (Some p)
  then have p': "resolve_path fs' site param = Some p" using same_resolve [OF assms(6)] by simp
  show ?thesis
  proof (cases "traversal site p")
    case True
    then show ?thesis using Some p' by (simp add: static_handler_def)
  next
    case False
    from not_traversal [OF this assms(2) resolved_normal [OF Some assms(1,3)]] consider
      "path_elements p = path_elements (site_root site)" | "below (site_root site) p" by blast
    then show ?thesis
    proof cases
      case 1
      then have "static_handler f now later site req param cache = (respond 404, cache)"
        if "resolve_path f site param = Some p" "root_is_directory f site" for f
        using that False by (auto simp: static_handler_def root_is_directory_def split: option.split)
      then show ?thesis using Some p' assms(4,5) by simp
    next
      case 2
      then have "fs_stat fs' p = fs_stat fs p" using assms(6) by (simp add: agree_below_def)
      then show ?thesis using Some p' serve_agrees [OF assms(6) 2 assms(3)]
        by (simp add: static_handler_def Let_def cong: option.case_cong if_cong)
    qed
  qed
qed

text \<open>
  The handler serves files. For a request that is not conditional on the current validators and
  resolves to a regular file below the root, when the cache has no entry for it: the response has
  status 200, the length, type, encoding and date of the file (or of the first compressed variant that
  exists among the accepted encodings, in the client's order) and exactly its bytes as the body.
\<close>

theorem static_serves_file:
  assumes "plain_request fs site req param p st" "select_variant fs site req p st = (q, st', enc)"
    and "fs_open fs q = Some d" "length d = st_size st'" "length d < 2 ^ 64" "own_cache_header (site_opts site)"
    and "fst (cache_get now q cache) = None"
  shows "\<exists>r. sends_reply (fst (static_handler fs now later site req param cache)) r d \<and>
    resp_statusCode r = 200 \<and> getHeader_code (resp_headers r) NC_ContentLength = to_string (length d) \<and>
    getHeader_code (resp_headers r) NC_ContentType = mimeType (path_extension p) (mime_types (site_opts site)) \<and>
    getHeader_code (resp_headers r) NC_ContentEncoding = enc \<and>
    getHeader_code (resp_headers r) NC_LastModified = formatExpires (st_mtime st)"
proof -
  let ?en = "cache_ttl (site_opts site) > 0 \<and> st_size st' mod 2 ^ 64 \<le> cache_max_file_size (site_opts site)"
  have "sends_reply (fst (static_handler fs now later site req param cache))
      (file_reply site p st (length d) enc ?en ''MISS'') d"
  proof (rule miss_sends(1) [OF assms(1-6) refl refl, where cache' = "if ?en then snd (cache_get now q cache) else cache"])
    assume ?en
    then show "try_cache now site q (if enable_etag (site_opts site) then makeETag (st_mtime st) (st_size st) else [])
        (formatExpires (st_mtime st)) cache = (None, if ?en then snd (cache_get now q cache) else cache)"
      using try_cache_None [OF assms(7)] by (simp only: simp_thms if_True)
  next
    assume "\<not> ?en"
    then show "(if ?en then snd (cache_get now q cache) else cache) = cache" by (simp only: if_False)
  qed
  then show ?thesis
    by (intro exI [of _ "file_reply site p st (length d) enc ?en ''MISS''"]) (simp add: file_reply_headers [OF assms(6)])
qed

text \<open>
  The cache does not change what is served. When a file was read and stored for a request, the same
  request, made before the entry expires and while the validators of the file are the same, gets the
  same reply with the same body from the cache, up to the header that tells hits from misses;
  the file is not read again (its contents may be anything).
\<close>

theorem static_cache_transparent:
  assumes "plain_request fs site req param p st" "select_variant fs site req p st = (q, st', enc)"
    and "fs_open fs q = Some d" "length d = st_size st'" "own_cache_header (site_opts site)"
    and "cache_ttl (site_opts site) > 0" "st_size st' \<le> cache_max_file_size (site_opts site)"
    and "cache_max_file_size (site_opts site) \<le> cache_max_cache_size (site_opts site)"
    and "cache_max_cache_size (site_opts site) < 2 ^ 63" "cache_inv (cache_max_cache_size (site_opts site)) cache"
    and "fst (cache_get now q cache) = None" "now' \<le> later + cache_ttl (site_opts site) * 1000000000"
  shows "sends_reply (fst (static_handler fs now later site req param cache))
      (file_reply site p st (length d) enc True ''MISS'') d \<and>
    sends_reply (fst (static_handler (fs\<lparr>fs_open := changed\<rparr>) now' later' site req param
        (snd (static_handler fs now later site req param cache))))
      (file_reply site p st (length d) enc True ''HIT'') d"
proof -
  let ?fs = "fs\<lparr>fs_open := changed\<rparr>" and ?m = "cache_max_cache_size (site_opts site)"
  define etag where "etag = (if enable_etag (site_opts site) then makeETag (st_mtime st) (st_size st) else [])"
  define node where "node = \<lparr>node_key = q, node_data = d, node_etag = etag, node_last_modified = formatExpires (st_mtime st),
         node_mime_type = mimeType (path_extension p) (mime_types (site_opts site)),
         node_content_encoding = enc, expire_at = later + cache_ttl (site_opts site) * 1000000000\<rparr>"
  have len: "length d < 2 ^ 64" "length d \<le> ?m" "st_size st' mod 2 ^ 64 \<le> cache_max_file_size (site_opts site)"
    using assms(4,7-9) by (simp_all add: mod_less)
  have en: "True = (cache_ttl (site_opts site) > 0 \<and> st_size st' mod 2 ^ 64 \<le> cache_max_file_size (site_opts site))"
    using assms(6) len by simp
  note miss = miss_sends [OF assms(1-4) len(1) assms(5) en etag_def, of now cache "snd (cache_get now q cache)" later,
      folded node_def, OF try_cache_None [OF assms(11)]]
  have inv: "cache_inv ?m (snd (cache_get now q cache))" by (rule get_refines(1) [OF assms(10)])
  have hit: "fst (cache_get now' q (cache_put node ?m (snd (cache_get now q cache)))) = Some node"
    using get_after_put [OF inv, of node now'] len(2) assms(9,12) by (simp add: node_def)
  have resolve: "resolve_path ?fs site param = resolve_path fs site param"
    by (simp add: resolve_path_def cong: option.case_cong)
  have pick: "pick_variant ?fs encs p tokens = pick_variant fs encs p tokens" for encs tokens
    by (induction tokens) (auto simp: Let_def split: option.split)
  have plain: "plain_request ?fs site req param p st" using assms(1) resolve by (simp add: plain_request_def)
  have "select_variant ?fs site req p st = select_variant fs site req p st" unfolding select_variant_def pick ..
  with assms(2) have variant: "select_variant ?fs site req p st = (q, st', enc)" by simp
  obtain c2 where c2: "cache_get now' q (cache_put node ?m (snd (cache_get now q cache))) = (Some node, c2)"
    using hit by (metis prod.collapse)
  have "sends_reply (fst (static_handler ?fs now' later' site req param (cache_put node ?m (snd (cache_get now q cache)))))
      (file_reply site p st (length d) enc True ''HIT'') d"
    by (rule hit_sends [OF plain variant len(1) assms(5) _ etag_def,
          where e = "later + cache_ttl (site_opts site) * 1000000000", folded node_def, OF _ c2])
      (use assms(6) len in simp)
  then show ?thesis using miss by simp
qed

text \<open>A small site: one file below the root, another file elsewhere.\<close>

definition sample_fs :: "(string \<times> string) list \<Rightarrow> file_system" where
  "sample_fs files =
     \<lparr>fs_canonical = (\<lambda>p. if p \<in> {''/srv'', ''/srv/a.txt''} then Some p else None),
      fs_is_directory = (\<lambda>p. Some (p = ''/srv'')),
      fs_stat = (\<lambda>p. map_option (\<lambda>d. \<lparr>st_size = length d, st_mtime = 0, st_regular = True\<rparr>) (map_of files p)),
      fs_open = map_of files\<rparr>"

definition sample_opts :: static_options where
  "sample_opts = default_options\<lparr>cache_ttl := 60\<rparr>"

definition sample_site :: static_site where
  "sample_site = \<lparr>site_opts = sample_opts, site_root = ''/srv'', cacheControlValue = ''public, max-age=3600''\<rparr>"

definition sample_get :: http_request where
  "sample_get = request_default\<lparr>req_method := method_Get\<rparr>"

lemma sample_elements:
  "path_elements ''/srv'' = [''/'', ''srv'']" "path_elements ''/srv/a.txt'' = [''/'', ''srv'', ''a.txt'']"
  "path_elements ''/etc/key'' = [''/'', ''etc'', ''key'']"
  by code_simp+

lemma sample_site_ok:
  "canonical_root sample_site" "plain_options (site_opts sample_site)" "own_cache_header (site_opts sample_site)"
proof -
  show "canonical_root sample_site" by (simp add: canonical_root_def sample_site_def sample_elements)
  show "plain_options (site_opts sample_site)"
    by (simp add: plain_options_def sample_site_def sample_opts_def default_options_def defaultAcceptEncodings_def
        path_filename_def separator_def)
  show "own_cache_header (site_opts sample_site)"
    by (simp add: own_cache_header_def sample_site_def sample_opts_def default_options_def toLower_def nameToCode_def nameMap_def)
qed

theorem static_reads_below_root_witness:
  "static_handler (sample_fs [(''/srv/a.txt'', ''hi''), (''/etc/key'', ''secret'')]) 0 0 sample_site sample_get (Some ''a.txt'') cache_empty =
   static_handler (sample_fs [(''/srv/a.txt'', ''hi'')]) 0 0 sample_site sample_get (Some ''a.txt'') cache_empty"
proof (rule static_reads_below_root)
  let ?fs = "sample_fs [(''/srv/a.txt'', ''hi'')]" and ?fs' = "sample_fs [(''/srv/a.txt'', ''hi''), (''/etc/key'', ''secret'')]"
  show "canonical_paths ?fs" by (auto simp: canonical_paths_def sample_fs_def sample_elements split: if_splits)
  show "canonical_root sample_site" "plain_options (site_opts sample_site)" by (rule sample_site_ok)+
  show "root_is_directory ?fs sample_site" "root_is_directory ?fs' sample_site"
    by (auto simp: root_is_directory_def sample_fs_def sample_site_def sample_elements split: if_splits)
  have "p \<noteq> ''/etc/key''" if "below ''/srv'' p" for p using that by (auto simp: below_def sample_elements)
  then show "agree_below (site_root sample_site) ?fs ?fs'"
    by (auto simp: agree_below_def sample_fs_def sample_site_def)
qed

lemma sample_plain:
  "plain_request (sample_fs [(''/srv/a.txt'', ''hi'')]) sample_site sample_get (Some ''a.txt'') ''/srv/a.txt''
     \<lparr>st_size = 2, st_mtime = 0, st_regular = True\<rparr>"
  "select_variant (sample_fs [(''/srv/a.txt'', ''hi'')]) sample_site sample_get ''/srv/a.txt''
     \<lparr>st_size = 2, st_mtime = 0, st_regular = True\<rparr> = (''/srv/a.txt'', \<lparr>st_size = 2, st_mtime = 0, st_regular = True\<rparr>, [])"
proof -
  have "\<not> traversal sample_site ''/srv/a.txt''"
    by (simp add: traversal_def lexically_relative_def sample_site_def sample_elements path_absolute_def levels_up_def)
  then show "plain_request (sample_fs [(''/srv/a.txt'', ''hi'')]) sample_site sample_get (Some ''a.txt'') ''/srv/a.txt''
     \<lparr>st_size = 2, st_mtime = 0, st_regular = True\<rparr>"
    using formatExpires_text(1) [of 0] makeETag_neq_Nil [of 0 2, symmetric]
    by (simp add: plain_request_def resolve_path_def sample_fs_def sample_site_def sample_get_def request_default_def
        getHeader_code_def path_append_def path_absolute_def separator_def)
  show "select_variant (sample_fs [(''/srv/a.txt'', ''hi'')]) sample_site sample_get ''/srv/a.txt''
     \<lparr>st_size = 2, st_mtime = 0, st_regular = True\<rparr> = (''/srv/a.txt'', \<lparr>st_size = 2, st_mtime = 0, st_regular = True\<rparr>, [])"
    by (simp add: select_variant_def sample_get_def request_default_def getHeader_code_def)
qed

lemma sample_open:
  "fs_open (sample_fs [(''/srv/a.txt'', ''hi'')]) ''/srv/a.txt'' = Some ''hi''"
  "fst (cache_get now k cache_empty) = None"
  by (simp_all add: sample_fs_def cache_get_def cache_empty_def)

theorem static_serves_file_witness:
  "\<exists>r. sends_reply (fst (static_handler (sample_fs [(''/srv/a.txt'', ''hi'')]) 0 0 sample_site sample_get (Some ''a.txt'') cache_empty)) r ''hi'' \<and>
    getHeader_code (resp_headers r) NC_ContentLength = to_string 2"
proof -
  have "length ''hi'' = st_size \<lparr>st_size = 2, st_mtime = 0, st_regular = True\<rparr>" "length ''hi'' < 2 ^ 64" by simp_all
  from static_serves_file [OF sample_plain sample_open(1) this sample_site_ok(3) sample_open(2)]
  obtain r where "sends_reply (fst (static_handler (sample_fs [(''/srv/a.txt'', ''hi'')]) 0 0 sample_site sample_get (Some ''a.txt'') cache_empty)) r ''hi''"
    "getHeader_code (resp_headers r) NC_ContentLength = to_string (length ''hi'')" by blast
  moreover have "length ''hi'' = 2" by simp
  ultimately show ?thesis by metis
qed

theorem static_cache_transparent_witness:
  "sends_reply (fst (static_handler ((sample_fs [(''/srv/a.txt'', ''hi'')])\<lparr>fs_open := Map.empty\<rparr>) 7 0 sample_site sample_get (Some ''a.txt'')
        (snd (static_handler (sample_fs [(''/srv/a.txt'', ''hi'')]) 0 0 sample_site sample_get (Some ''a.txt'') cache_empty))))
      (file_reply sample_site ''/srv/a.txt'' \<lparr>st_size = 2, st_mtime = 0, st_regular = True\<rparr> (length ''hi'') [] True ''HIT'') ''hi''"
proof -
  let ?o = "site_opts sample_site"
  have o: "cache_ttl ?o > 0" "2 \<le> cache_max_file_size ?o" "cache_max_file_size ?o \<le> cache_max_cache_size ?o"
    "cache_max_cache_size ?o < 2 ^ 63" "7 \<le> 0 + cache_ttl ?o * 1000000000"
    by (simp_all add: sample_site_def sample_opts_def default_options_def)
  show ?thesis
    by (rule conjunct2 [OF static_cache_transparent [OF sample_plain sample_open(1) _ sample_site_ok(3) o(1) _ o(3,4)
            cache_empty_inv(1) sample_open(2) o(5)]])
      (use o(2) in simp_all)
qed

lemma end_announced:
  assumes "prev \<noteq> Some False" "omap_find (resp_headers r) ''content-length'' \<noteq> None"
    and "ob = (outgoing_response prev False sd)\<lparr>out_data := Out_response r\<rparr>"
  shows "out_end reg date ob s =
    Inr (ob\<lparr>headersSent := True, finished := True\<rparr>, stream_write (head_text reg date sd (Out_response r)) s)"
  using assms writeHeaders_head [of ob reg date s]
  by (auto simp: out_end_def outgoing_response_def outgoing_init_def await_prev_def out_writer_end_def finish_def)

lemma respond_sends:
  assumes "last_set hs ''content-length'' \<noteq> None"
    and "\<And>reg date b prev sd c. run_handler reg date prog b (outgoing_response prev False sd) c =
      run_handler reg date (respond code) b ((outgoing_response prev False sd)\<lparr>out_data := Out_response (reply_of 200 hs)\<rparr>) c"
  shows "sends_reply prog (reply_of code hs) []"
proof -
  have f: "omap_find (resp_headers (reply_of code hs)) ''content-length'' \<noteq> None"
    using assms(1) by (auto simp: reply_of_def header_fold_find)
  have st: "setStatus code [] ((outgoing_response prev False sd)\<lparr>out_data := Out_response (reply_of 200 hs)\<rparr>) =
      (outgoing_response prev False sd)\<lparr>out_data := Out_response (reply_of code hs)\<rparr>" for prev sd
    by (simp add: setStatus_response reply_of_def)
  show ?thesis
    unfolding sends_reply_def assms(2)
  proof (intro allI impI)
    fix reg date b prev sd and c :: conn
    assume p: "prev \<noteq> Some False"
    let ?ob = "(outgoing_response prev False sd)\<lparr>out_data := Out_response (reply_of code hs)\<rparr>"
      and ?s = "stream_write (head_text reg date sd (Out_response (reply_of code hs))) (peer c)"
    have "run_handler reg date (respond code) b ((outgoing_response prev False sd)\<lparr>out_data := Out_response (reply_of 200 hs)\<rparr>) c =
        \<lparr>run_exception = None, run_reader = b, run_response = ?ob\<lparr>headersSent := True, finished := True\<rparr>, run_conn = c\<lparr>peer := ?s\<rparr>\<rparr>"
      unfolding respond_def run_set_status st by (simp add: end_announced [OF p f refl])
    then show "\<exists>ob' s'. run_handler reg date (respond code) b ((outgoing_response prev False sd)\<lparr>out_data := Out_response (reply_of 200 hs)\<rparr>) c =
          \<lparr>run_exception = None, run_reader = b, run_response = ob', run_conn = c\<lparr>peer := s'\<rparr>\<rparr> \<and>
        finished ob' \<and> out_data ob' = Out_response (reply_of code hs) \<and>
        sent_bytes s' = sent_bytes (peer c) @ head_text reg date sd (Out_response (reply_of code hs)) @ []"
      by (intro exI [of _ "?ob\<lparr>headersSent := True, finished := True\<rparr>"] exI [of _ ?s]) (simp add: sent_bytes_write)
  qed
qed

text \<open>
  A file that cannot be opened (or, with the cache, is shorter than \<^verbatim>\<open>stat\<close> said) is answered with status
  500, but the length of the file was announced already: the head promises the bytes of the file and
  no body follows, so that the client waits for them or takes the next response for the body.
\<close>

theorem static_error_promises_body:
  assumes "plain_request fs site req param p st" "select_variant fs site req p st = (q, st', enc)"
    and "fs_open fs q = None" "own_cache_header (site_opts site)" "fst (cache_get now q cache) = None"
  shows "\<exists>r. sends_reply (fst (static_handler fs now later site req param cache)) r [] \<and> resp_statusCode r = 500 \<and>
    getHeader_code (resp_headers r) NC_ContentLength = to_string (st_size st')"
proof -
  let ?hs = "validator_headers site st @ content_headers site p (st_size st') enc @ cache_note (site_opts site) False []"
  define etag where "etag = (if enable_etag (site_opts site) then makeETag (st_mtime st) (st_size st) else [])"
  have m: "req_method req \<noteq> method_Head" using assms(1) by (simp add: plain_request_def)
  have "\<exists>c'. serve_file fs now later site req p st etag (formatExpires (st_mtime st)) cache =
      (set_status 200 (set_headers (content_headers site p (st_size st') enc) (respond 500)), c')"
    using assms(2,3) m try_cache_None [OF assms(5)]
    by (simp add: serve_file_def respond_file_def content_headers_def Let_def del: method_defs)
  then obtain c' where c': "serve_file fs now later site req p st etag (formatExpires (st_mtime st)) cache =
      (set_status 200 (set_headers (content_headers site p (st_size st') enc) (respond 500)), c')" by blast
  note h = handler_plain [OF assms(1), of now later cache, folded etag_def, unfolded Let_def c' prod.case]
  have v: "validator_headers site st = [(codeToName NC_LastModified, formatExpires (st_mtime st))] @
      (if enable_etag (site_opts site) then [(''ETag'', etag)] else [])" by (simp add: validator_headers_def etag_def)
  have note_nil: "cache_note (site_opts site) False [] = []" by (simp add: cache_note_def)
  have cl: "last_set ?hs ''content-length'' = Some (to_string (st_size st'))"
    by (simp add: literal_names(1) file_headers_known [OF assms(4)])
  have "sends_reply (fst (static_handler fs now later site req param cache)) (reply_of 500 ?hs) []"
    unfolding h fst_conv
    by (rule respond_sends) (use cl in simp, simp only: run_reply v note_nil append_assoc append_Nil2)
  then show ?thesis
    using cl by (intro exI [of _ "reply_of 500 ?hs"]) (simp add: reply_of_def getHeader_fold literal_names(1))
qed

theorem static_error_promises_body_witness:
  "\<exists>r. sends_reply (fst (static_handler ((sample_fs [(''/srv/a.txt'', ''hi'')])\<lparr>fs_open := Map.empty\<rparr>) 0 0 sample_site sample_get
       (Some ''a.txt'') cache_empty)) r [] \<and> resp_statusCode r = 500 \<and>
     getHeader_code (resp_headers r) NC_ContentLength = to_string 2"
proof -
  let ?fs = "sample_fs [(''/srv/a.txt'', ''hi'')]" and ?st = "\<lparr>st_size = 2, st_mtime = 0, st_regular = True\<rparr>"
  have "plain_request (?fs\<lparr>fs_open := Map.empty\<rparr>) sample_site sample_get (Some ''a.txt'') ''/srv/a.txt'' ?st"
    using sample_plain(1) by (simp add: plain_request_def resolve_path_def cong: option.case_cong)
  moreover have "select_variant (?fs\<lparr>fs_open := Map.empty\<rparr>) sample_site sample_get ''/srv/a.txt'' ?st = (''/srv/a.txt'', ?st, [])"
    by (simp add: select_variant_def sample_get_def request_default_def getHeader_code_def)
  moreover have "fs_open (?fs\<lparr>fs_open := Map.empty\<rparr>) ''/srv/a.txt'' = None" by simp
  ultimately show ?thesis
    using static_error_promises_body [of "?fs\<lparr>fs_open := Map.empty\<rparr>" sample_site sample_get "Some ''a.txt''" "''/srv/a.txt''"
        ?st "''/srv/a.txt''" ?st "[]" 0 cache_empty 0] sample_site_ok(3) sample_open(2) by (simp del: sample_open)
qed

text \<open>
  Conditional requests: a request whose \<^verbatim>\<open>If-Modified-Since\<close> is the date of a moment is answered with 304
  exactly when the file was modified in that very second, and nothing else happens then: the
  response has no body, the cache is not touched and no file is opened.
\<close>

theorem static_not_modified:
  assumes "resolve_path fs site param = Some p" "\<not> traversal site p" "fs_stat fs p = Some st" "st_regular st"
    and "getHeader_code (req_headers req) NC_IfModifiedSince = formatExpires t"
    and "getHeader_code (req_headers req) NC_IfNoneMatch = []"
  shows "((\<exists>c. static_handler fs now later site req param cache = (respond 304, c)) \<longleftrightarrow> t = st_mtime st) \<and>
    (t = st_mtime st \<longrightarrow> static_handler fs now later site req param cache = (respond 304, cache))"
proof (cases "t = st_mtime st")
  case True
  then have "static_handler fs now later site req param cache = (respond 304, cache)"
    using assms formatExpires_text(1) by (simp add: static_handler_def)
  with True show ?thesis by simp
next
  case False
  obtain prog c where "serve_file fs now later site req p st
      (if enable_etag (site_opts site) then makeETag (st_mtime st) (st_size st) else []) (formatExpires (st_mtime st)) cache = (prog, c)"
    by fastforce
  moreover have "formatExpires t \<noteq> formatExpires (st_mtime st)" using False formatExpires_inject by blast
  ultimately have "\<exists>k. fst (static_handler fs now later site req param cache) =
      H_setHeader (codeToName NC_LastModified) (formatExpires (st_mtime st)) k"
    using assms by (simp add: static_handler_def set_headers_def Let_def)
  then have "static_handler fs now later site req param cache \<noteq> (respond 304, c')" for c'
    by (metis fst_conv handler_prog.distinct respond_def set_status_def)
  with False show ?thesis by simp
qed

theorem static_not_modified_witness:
  "\<exists>c. static_handler (sample_fs [(''/srv/a.txt'', ''hi'')]) 0 0 sample_site
     (sample_get\<lparr>req_headers := [(''if-modified-since'', httpHeader ''if-modified-since'' (formatExpires 0))]\<rparr>)
     (Some ''a.txt'') cache_empty = (respond 304, c)"
proof -
  let ?fs = "sample_fs [(''/srv/a.txt'', ''hi'')]" and ?st = "\<lparr>st_size = 2, st_mtime = 0, st_regular = True\<rparr>"
    and ?req = "sample_get\<lparr>req_headers := [(''if-modified-since'', httpHeader ''if-modified-since'' (formatExpires 0))]\<rparr>"
  have "resolve_path ?fs sample_site (Some ''a.txt'') = Some ''/srv/a.txt''" "\<not> traversal sample_site ''/srv/a.txt''"
    "fs_stat ?fs ''/srv/a.txt'' = Some ?st" "st_regular ?st"
    using sample_plain(1) by (simp_all add: plain_request_def)
  moreover have "getHeader_code (req_headers ?req) NC_IfModifiedSince = formatExpires 0"
    "getHeader_code (req_headers ?req) NC_IfNoneMatch = []"
    by (simp_all add: getHeader_code_def codeToName_def)
  ultimately show ?thesis using static_not_modified [of ?fs sample_site "Some ''a.txt''" "''/srv/a.txt''" ?st ?req 0 0 0 cache_empty] by simp
qed

text \<open>
  A quality value is cut off and not looked at: a client that refuses gzip with \<^verbatim>\<open>gzip;q=0\<close> is treated as
  if it accepted it.
\<close>

theorem refused_encoding_accepted: "splitTokens ''gzip;q=0, identity'' = [''gzip'', ''identity'']"
  by (simp add: splitTokens.simps bare_token_def find_char_def)

end
