(* ===== verification/Web_Socket.thy ===== *)
theory Web_Socket
  imports Prelude Byte_Stream
begin

text \<open>
  The framing of WebSocket connections (\<^verbatim>\<open>src/extensions/websocket/src/WsConnection.cc\<close>). Bytes are
  characters of the stream, looked at as 8-bit words where the code masks them. Sizes are natural
  numbers with the reductions of \<^verbatim>\<open>size_t\<close> written out; \<open>payload.resize\<close> throws above
  \<open>max_size\<close>, and storing behind the end of the resized string is the error \<open>Out_of_bounds\<close>, which
  stands for the undefined behaviour of the code there.
\<close>

unbundle bit_operations_syntax

section \<open>Types\<close>

datatype ws_message_type = Text | Binary

record ws_message =
  ws_type :: ws_message_type
  ws_payload :: string

datatype ws_error = Stream_error io_error | Connection_closed | Length_error | Out_of_bounds

definition op_Continuation :: u8 where "op_Continuation = 0x0"
definition op_Text :: u8 where "op_Text = 0x1"
definition op_Binary :: u8 where "op_Binary = 0x2"
definition op_Close :: u8 where "op_Close = 0x8"
definition op_Ping :: u8 where "op_Ping = 0x9"
definition op_Pong :: u8 where "op_Pong = 0xA"

lemmas opcodes = op_Continuation_def op_Text_def op_Binary_def op_Close_def op_Ping_def op_Pong_def

definition max_size :: nat where
  "max_size = 2 ^ 63 - 1"

section \<open>Receiving\<close>

lemma stream_read_shorter [termination_simp]:
  "stream_read len s = Inr (bs, s') \<Longrightarrow> length bs \<le> len"
  by (auto simp: stream_read_def split: list.splits if_splits)

function readExact :: "nat \<Rightarrow> stream \<Rightarrow> ws_error + string \<times> stream" where
  "readExact len s =
     (if len = 0 then Inr ([], s)
      else (case stream_read len s of
              Inl e \<Rightarrow> Inl (Stream_error e)
            | Inr (bs, s') \<Rightarrow>
                if bs = [] then Inl Connection_closed
                else (case readExact (len - length bs) s' of
                        Inl e \<Rightarrow> Inl e
                      | Inr (cs, s'') \<Rightarrow> Inr (bs @ cs, s''))))"
  by auto
termination
  by (relation "measure fst") auto

declare readExact.simps [simp del]

text \<open>The big-endian number of the extended length.\<close>

definition be_number :: "string \<Rightarrow> nat" where
  "be_number bs = fold (\<lambda>b n. (n * 256 + unat (to_u8 b)) mod 2 ^ 64) bs 0"

definition read_length :: "u8 \<Rightarrow> stream \<Rightarrow> ws_error + nat \<times> stream" where
  "read_length h s =
     (let payloadLen = unat (h AND 0x7F) in
      if payloadLen = 126 then
        (case readExact 2 s of Inl e \<Rightarrow> Inl e | Inr (ext, s') \<Rightarrow> Inr (be_number ext, s'))
      else if payloadLen = 127 then
        (case readExact 8 s of Inl e \<Rightarrow> Inl e | Inr (ext, s') \<Rightarrow> Inr (be_number ext, s'))
      else Inr (payloadLen, s))"

definition xor_char :: "char \<Rightarrow> char \<Rightarrow> char" where
  "xor_char k c = from_u8 (to_u8 c XOR to_u8 k)"

definition apply_mask :: "string \<Rightarrow> string \<Rightarrow> string" where
  "apply_mask key d = map (\<lambda>i. xor_char (key ! (i mod 4)) (d ! i)) [0..<length d]"

text \<open>
  One frame behind \<open>offset\<close> bytes of payload. \<open>payload.resize(offset + payloadLen)\<close> computes the size
  in 64 bits; when the sum wraps, the bytes are stored behind the end of the string.
\<close>

definition read_frame :: "nat \<Rightarrow> stream \<Rightarrow> ws_error + (bool \<times> u8 \<times> string) \<times> stream" where
  "read_frame offset s =
     (case readExact 2 s of
        Inl e \<Rightarrow> Inl e
      | Inr (header, s) \<Rightarrow>
          (let h0 = to_u8 (header ! 0); h1 = to_u8 (header ! 1);
               fin = (h0 AND 0x80 \<noteq> 0); opcode = h0 AND 0x0F; masked = (h1 AND 0x80 \<noteq> 0)
           in case read_length h1 s of
                Inl e \<Rightarrow> Inl e
              | Inr (payloadLen, s) \<Rightarrow>
                  (case (if masked then readExact 4 s else Inr (replicate 4 (CHR 0x00), s)) of
                     Inl e \<Rightarrow> Inl e
                   | Inr (maskKey, s) \<Rightarrow>
                       (let new_size = (offset + payloadLen) mod 2 ^ 64 in
                        if max_size < new_size then Inl Length_error
                        else if new_size < offset + payloadLen then Inl Out_of_bounds
                        else (case readExact payloadLen s of
                                Inl e \<Rightarrow> Inl e
                              | Inr (d, s) \<Rightarrow>
                                  Inr ((fin, opcode, if masked then apply_mask maskKey d else d), s))))))"

section \<open>Sending\<close>

definition frame_length :: "u8 \<Rightarrow> nat \<Rightarrow> string" where
  "frame_length maskBit len =
     (if len < 126 then [from_u8 (maskBit OR of_nat len)]
      else if len < 65536 then
        [from_u8 (maskBit OR 126), from_u8 (of_nat (len div 256)), from_u8 (of_nat len)]
      else from_u8 (maskBit OR 127) # map (\<lambda>i. from_u8 (of_nat (len div 2 ^ (i * 8)))) (rev [0..<8]))"

definition sendFrame :: "u8 \<Rightarrow> string \<Rightarrow> bool \<Rightarrow> stream \<Rightarrow> stream" where
  "sendFrame opcode d masking s =
     stream_write (from_u8 (0x80 OR opcode) # frame_length (if masking then 0x80 else 0) (length d) @ d) s"

definition ws_send :: "string \<Rightarrow> ws_message_type \<Rightarrow> stream \<Rightarrow> stream" where
  "ws_send d ty s = sendFrame (if ty = Binary then op_Binary else op_Text) d False s"

definition ws_shutdown :: "nat \<Rightarrow> string \<Rightarrow> stream \<Rightarrow> stream" where
  "ws_shutdown code reason s =
     sendFrame op_Close (from_u8 (of_nat (code div 256)) # from_u8 (of_nat code) # reason) False s"

definition forceClose :: "stream \<Rightarrow> stream" where
  "forceClose s = stream_shutdown s"

section \<open>A message\<close>

lemma readExact_bytes:
  "readExact len s = Inr (bs, s') \<Longrightarrow> to_come s = bs @ to_come s' \<and> length bs = len \<and> sent s' = sent s \<and> fails s' = fails s"
proof (induction len s arbitrary: bs s' rule: readExact.induct)
  case (1 len s)
  show ?case
  proof (cases "len = 0")
    case True
    with 1(2) show ?thesis by (simp add: readExact.simps)
  next
    case False
    with 1(2) obtain ds s1 where r: "stream_read len s = Inr (ds, s1)" "ds \<noteq> []"
      by (subst (asm) readExact.simps) (auto split: sum.splits prod.splits if_splits)
    then obtain cs where cs: "readExact (len - length ds) s1 = Inr (cs, s')" "bs = ds @ cs"
      using 1(2) False by (subst (asm) readExact.simps) (auto split: sum.splits)
    have d: "to_come s = ds @ to_come s1" "length ds \<le> len" "sent s1 = sent s" "fails s1 = fails s"
      using r(1) by (auto simp: stream_read_def to_come_def split: list.splits if_splits)
    show ?thesis using 1(1) [OF False r(1) refl r(2) cs(1)] d cs(2) by simp
  qed
qed

lemma readExact_length: "readExact len s = Inr (bs, s') \<Longrightarrow> length (to_come s) = length (to_come s') + len"
  using readExact_bytes by fastforce

lemma read_length_length: "read_length h s = Inr (n, s') \<Longrightarrow> length (to_come s') \<le> length (to_come s)"
  by (auto simp: read_length_def Let_def split: sum.splits prod.splits if_splits dest!: readExact_length)

lemma read_frame_shorter:
  assumes "read_frame off s = Inr (f, s')"
  shows "length (to_come s') < length (to_come s)"
  using assms
  by (auto simp: read_frame_def Let_def split: sum.splits prod.splits if_splits
      dest!: readExact_length read_length_length)

lemma to_come_sendFrame [simp]: "to_come (sendFrame opc d m s) = to_come s"
  by (simp add: sendFrame_def stream_write_def to_come_def)

function receive_loop :: "string \<Rightarrow> u8 \<Rightarrow> stream \<Rightarrow> ws_error + ws_message option \<times> stream" where
  "receive_loop payload finalOpcode s =
     (case read_frame (length payload) s of
        Inl e \<Rightarrow> Inl e
      | Inr ((fin, opcode, d), s) \<Rightarrow>
          if opcode = op_Ping then receive_loop payload finalOpcode (sendFrame op_Pong d False s)
          else if opcode = op_Close then Inr (None, s)
          else
            (let payload = payload @ d;
                 finalOpcode = (if opcode \<noteq> op_Continuation then opcode else finalOpcode)
             in if fin
                then Inr (Some \<lparr>ws_type = (if finalOpcode = op_Binary then Binary else Text), ws_payload = payload\<rparr>, s)
                else receive_loop payload finalOpcode s))"
  by pat_completeness auto
termination
  by (relation "measure (\<lambda>(payload, f, s). length (to_come s))") (auto dest: read_frame_shorter)

declare receive_loop.simps [simp del]

definition ws_receive :: "stream \<Rightarrow> ws_error + ws_message option \<times> stream" where
  "ws_receive s = receive_loop [] op_Continuation s"

section \<open>Frames on the wire\<close>

text \<open>
  A frame of RFC 6455: the first byte with the end mark and the opcode, the length, the masking key
  of a client and the (masked) payload.
\<close>

definition frame_bytes :: "bool \<Rightarrow> u8 \<Rightarrow> string option \<Rightarrow> string \<Rightarrow> string" where
  "frame_bytes fin opcode key d =
     from_u8 ((if fin then 0x80 else 0) OR opcode) #
     frame_length (if key = None then 0 else 0x80) (length d) @
     (case key of None \<Rightarrow> d | Some k \<Rightarrow> k @ apply_mask k d)"

definition key_ok :: "string option \<Rightarrow> bool" where
  "key_ok key \<longleftrightarrow> (\<forall>k. key = Some k \<longrightarrow> length k = 4)"

lemma xor_char_twice [simp]: "xor_char k (xor_char k c) = c"
  by (simp add: xor_char_def xor.assoc)

lemma apply_mask_twice [simp]: "apply_mask k (apply_mask k d) = d"
  by (auto simp: apply_mask_def intro: nth_equalityI)

lemma length_apply_mask [simp]: "length (apply_mask k d) = length d"
  by (simp add: apply_mask_def)

lemma low_bits: "n < 128 \<Longrightarrow> (of_nat n :: u8) AND 0x7F = of_nat n"
proof -
  assume n: "n < 128"
  have "(0x7F :: u8) = Bit_Operations.mask 7" by (simp add: mask_eq_exp_minus_1)
  then have "(of_nat n :: u8) AND 0x7F = take_bit 7 (of_nat n)" by (simp only: take_bit_eq_mask)
  also have "\<dots> = of_nat (take_bit 7 n)" by (simp add: of_nat_take_bit)
  finally show ?thesis using n by (simp add: take_bit_nat_eq_self)
qed

lemma high_bit: "n < 128 \<Longrightarrow> (of_nat n :: u8) AND 0x80 = 0"
proof -
  assume "n < 128"
  then have "(of_nat n :: u8) AND 0x80 = (of_nat n AND 0x7F) AND 0x80" using low_bits by simp
  also have "\<dots> = 0" by (simp add: and.assoc)
  finally show ?thesis .
qed

text \<open>The length byte: the mask bit and seven bits of length.\<close>

lemma length_byte:
  assumes "n < 128"
  shows "unat (((if m then 0x80 else 0) OR of_nat n) AND (0x7F :: u8)) = n"
    and "((if m then 0x80 else 0) OR of_nat n) AND (0x80 :: u8) \<noteq> 0 \<longleftrightarrow> m"
  using low_bits [OF assms] high_bit [OF assms] assms
  by (simp_all add: bit.conj_disj_distrib2 unat_of_nat)

lemma be_number_two: "n < 65536 \<Longrightarrow> be_number [from_u8 (of_nat (n div 256)), from_u8 (of_nat n)] = n"
  by (simp add: be_number_def unat_of_nat)

lemma be_number_step:
  "n < 2 ^ 64 \<Longrightarrow>
    fold (\<lambda>b m. (m * 256 + unat (to_u8 b)) mod 2 ^ 64)
      (map (\<lambda>i. from_u8 (of_nat (n div 2 ^ (i * 8)))) (rev [0..<k])) (n div 2 ^ (k * 8)) = n"
proof (induction k)
  case (Suc k)
  have "n div 2 ^ (Suc k * 8) = n div 2 ^ (k * 8) div 256"
    by (simp add: div_mult2_eq [symmetric] power_add mult.commute)
  then have "n div 2 ^ (Suc k * 8) * 256 + n div 2 ^ (k * 8) mod 256 = n div 2 ^ (k * 8)"
    by (simp only: div_mult_mod_eq)
  moreover have "n div 2 ^ (k * 8) < 2 ^ 64" using Suc.prems by (meson div_le_dividend le_less_trans)
  ultimately show ?case using Suc.IH [OF Suc.prems] by (simp add: unat_of_nat)
qed simp

lemma be_number_eight:
  "n < 2 ^ 64 \<Longrightarrow> be_number (map (\<lambda>i. from_u8 (of_nat (n div 2 ^ (i * 8)))) (rev [0..<8])) = n"
  using be_number_step [of n 8] unfolding be_number_def by (simp del: upt.simps upt_rec)

lemma stream_read_some:
  assumes "stream_wf s" "to_come s \<noteq> []" "0 < len"
  obtains bs s' where "stream_read len s = Inr (bs, s')" "bs \<noteq> []" "to_come s = bs @ to_come s'"
    "stream_wf s'" "sent s' = sent s" "length bs \<le> len"
proof -
  obtain seg rest where i: "incoming s = seg # rest" using assms(2) by (cases "incoming s") (auto simp: to_come_def)
  then have "seg \<noteq> []" using assms(1) by (auto simp: stream_wf_def)
  then show thesis using that i assms by (auto simp: stream_read_def to_come_def stream_wf_def)
qed

lemma readExact_ok:
  "stream_wf s \<Longrightarrow> to_come s = bs @ rest \<Longrightarrow> length bs = len \<Longrightarrow>
    \<exists>s'. readExact len s = Inr (bs, s') \<and> to_come s' = rest \<and> stream_wf s' \<and> sent s' = sent s"
proof (induction len s arbitrary: bs rule: readExact.induct)
  case (1 len s)
  show ?case
  proof (cases "len = 0")
    case True
    with 1 show ?thesis by (simp add: readExact.simps)
  next
    case False
    then have "to_come s \<noteq> []" using 1 by auto
    then obtain ds s1 where r: "stream_read len s = Inr (ds, s1)" "ds \<noteq> []" "to_come s = ds @ to_come s1"
      "stream_wf s1" "sent s1 = sent s" "length ds \<le> len"
      using stream_read_some [of s len] 1(2) False by auto
    then have "ds = take (length ds) bs" "to_come s1 = drop (length ds) bs @ rest"
      using 1(3,4) by (auto simp: append_eq_append_conv_if split: if_splits)
    moreover have "length (drop (length ds) bs) = len - length ds" using 1(4) by simp
    ultimately obtain s2 where "readExact (len - length ds) s1 = Inr (drop (length ds) bs, s2)" "to_come s2 = rest"
      "stream_wf s2" "sent s2 = sent s1"
      using 1(1) [OF False r(1) refl r(2,4)] by blast
    moreover have "ds @ drop (length ds) bs = bs" using \<open>ds = take (length ds) bs\<close> by (metis append_take_drop_id)
    ultimately show ?thesis using r False by (subst readExact.simps) simp
  qed
qed

lemma read_length_ok:
  assumes "n < 2 ^ 64"
  obtains h ext where "frame_length (if m then 0x80 else 0) n = from_u8 h # ext" "h AND 0x80 \<noteq> 0 \<longleftrightarrow> m"
    "\<And>s rest. stream_wf s \<Longrightarrow> to_come s = ext @ rest \<Longrightarrow>
       \<exists>s'. read_length h s = Inr (n, s') \<and> to_come s' = rest \<and> stream_wf s' \<and> sent s' = sent s"
proof -
  let ?m = "if m then 0x80 else 0 :: u8"
  consider "n < 126" | "126 \<le> n" "n < 65536" | "65536 \<le> n" by linarith
  then show thesis
  proof cases
    case 1
    show thesis
    proof (rule that [of "?m OR of_nat n" "[]"])
      show "frame_length ?m n = [from_u8 (?m OR of_nat n)]" using 1 by (simp add: frame_length_def)
      show "(?m OR of_nat n) AND 0x80 \<noteq> 0 \<longleftrightarrow> m" using length_byte(2) [of n m] 1 by simp
      have "unat ((?m OR of_nat n) AND 0x7F) = n" using length_byte(1) [of n m] 1 by simp
      then show "\<exists>s'. read_length (?m OR of_nat n) s = Inr (n, s') \<and> to_come s' = rest \<and> stream_wf s' \<and> sent s' = sent s"
        if "stream_wf s" "to_come s = [] @ rest" for s rest
        using that 1 by (simp add: read_length_def)
    qed
  next
    case 2
    let ?ext = "[from_u8 (of_nat (n div 256)), from_u8 (of_nat n)]"
    have l: "unat ((?m OR 126) AND 0x7F) = 126" "(?m OR 126) AND 0x80 \<noteq> 0 \<longleftrightarrow> m"
      using length_byte [of 126 m] by simp_all
    show thesis
    proof (rule that [of "?m OR 126" ?ext])
      show "frame_length ?m n = from_u8 (?m OR 126) # ?ext" using 2 by (simp add: frame_length_def)
      show "\<exists>s'. read_length (?m OR 126) s = Inr (n, s') \<and> to_come s' = rest \<and> stream_wf s' \<and> sent s' = sent s"
        if "stream_wf s" "to_come s = ?ext @ rest" for s rest
        using readExact_ok [OF that, of 2] l(1) be_number_two [of n] 2(2) by (auto simp: read_length_def Let_def)
    qed (rule l(2))
  next
    case 3
    let ?ext = "map (\<lambda>i. from_u8 (of_nat (n div 2 ^ (i * 8)))) (rev [0..<8])"
    have l: "unat ((?m OR 127) AND 0x7F) = 127" "(?m OR 127) AND 0x80 \<noteq> 0 \<longleftrightarrow> m"
      using length_byte [of 127 m] by simp_all
    show thesis
    proof (rule that [of "?m OR 127" ?ext])
      show "frame_length ?m n = from_u8 (?m OR 127) # ?ext" using 3 by (simp add: frame_length_def)
      show "\<exists>s'. read_length (?m OR 127) s = Inr (n, s') \<and> to_come s' = rest \<and> stream_wf s' \<and> sent s' = sent s"
        if prem: "stream_wf s" "to_come s = ?ext @ rest" for s rest
      proof -
        obtain s' where "readExact 8 s = Inr (?ext, s')" "to_come s' = rest" "stream_wf s'" "sent s' = sent s"
          using readExact_ok [OF prem, of 8] by auto
        then show ?thesis using l(1) be_number_eight [OF assms] by (simp add: read_length_def Let_def del: upt.simps upt_rec)
      qed
    qed (rule l(2))
  qed
qed

text \<open>The opcodes fit into four bits.\<close>

lemma opcode_byte:
  assumes "opc \<in> {op_Continuation, op_Text, op_Binary, op_Close, op_Ping, op_Pong}"
  shows "((if fin then 0x80 else 0) OR opc) AND 0x0F = opc" "((if fin then 0x80 else 0) OR opc) AND 0x80 \<noteq> 0 \<longleftrightarrow> fin"
  using assms by (auto simp: opcodes bit.conj_disj_distrib2)

lemma read_frame_ok:
  assumes "stream_wf s" "to_come s = frame_bytes fin opc key d @ rest" "key_ok key"
    "opc \<in> {op_Continuation, op_Text, op_Binary, op_Close, op_Ping, op_Pong}" "off + length d \<le> max_size"
  shows "\<exists>s'. read_frame off s = Inr ((fin, opc, d), s') \<and> to_come s' = rest \<and> stream_wf s' \<and> sent s' = sent s"
proof -
  have len: "length d < 2 ^ 64" "off + length d < 2 ^ 64" using assms(5) by (simp_all add: max_size_def)
  obtain h ext where h: "frame_length (if key \<noteq> None then 0x80 else 0) (length d) = from_u8 h # ext"
    "h AND 0x80 \<noteq> 0 \<longleftrightarrow> key \<noteq> None"
    "\<And>s rest. stream_wf s \<Longrightarrow> to_come s = ext @ rest \<Longrightarrow>
       \<exists>s'. read_length h s = Inr (length d, s') \<and> to_come s' = rest \<and> stream_wf s' \<and> sent s' = sent s"
    using read_length_ok [OF len(1), where m = "key \<noteq> None"] by blast
  let ?b0 = "(if fin then 0x80 else 0) OR opc"
  let ?tail = "(case key of None \<Rightarrow> d | Some k \<Rightarrow> k @ apply_mask k d) @ rest"
  have "to_come s = [from_u8 ?b0, from_u8 h] @ ext @ ?tail"
    using assms(2) h(1) by (cases key) (simp_all add: frame_bytes_def)
  then obtain s1 where s1: "readExact 2 s = Inr ([from_u8 ?b0, from_u8 h], s1)" "to_come s1 = ext @ ?tail"
    "stream_wf s1" "sent s1 = sent s" using readExact_ok [OF assms(1), of "[from_u8 ?b0, from_u8 h]" "ext @ ?tail" 2] by auto
  then obtain s2 where s2: "read_length h s1 = Inr (length d, s2)" "to_come s2 = ?tail" "stream_wf s2" "sent s2 = sent s"
    using h(3) [OF s1(3,2)] by auto
  note b0 = opcode_byte [OF assms(4), of fin]
  show ?thesis
  proof (cases key)
    case None
    then obtain s3 where "readExact (length d) s2 = Inr (d, s3)" "to_come s3 = rest" "stream_wf s3" "sent s3 = sent s"
      using readExact_ok [OF s2(3), of d rest] s2(2,4) by auto
    then show ?thesis using s1 s2 b0 h(2) None len(2) assms(5) by (simp add: read_frame_def Let_def)
  next
    case (Some k)
    then have k: "length k = 4" "to_come s2 = k @ apply_mask k d @ rest" using assms(3) s2(2) by (auto simp: key_ok_def)
    then obtain s3 where s3: "readExact 4 s2 = Inr (k, s3)" "to_come s3 = apply_mask k d @ rest" "stream_wf s3" "sent s3 = sent s"
      using readExact_ok [OF s2(3) k(2)] s2(4) by auto
    then obtain s4 where "readExact (length d) s3 = Inr (apply_mask k d, s4)" "to_come s4 = rest" "stream_wf s4" "sent s4 = sent s"
      using readExact_ok [OF s3(3,2)] by auto
    then show ?thesis using s1 s2 s3 b0 h(2) Some len(2) assms(5) by (simp add: read_frame_def Let_def)
  qed
qed

section \<open>Messages on the wire\<close>

text \<open>
  What a peer may send for one message: its fragments, masked or not, the last one with the end
  mark, with pings between them.
\<close>

datatype ws_item = Ping "string option" string | Part "string option" string

definition type_opcode :: "ws_message_type \<Rightarrow> u8" where
  "type_opcode ty = (if ty = Binary then op_Binary else op_Text)"

fun message_text :: "bool \<Rightarrow> ws_message_type \<Rightarrow> ws_item list \<Rightarrow> string" where
  "message_text started ty [] = []"
| "message_text started ty (Ping k d # is) = frame_bytes True op_Ping k d @ message_text started ty is"
| "message_text started ty (Part k d # is) =
     frame_bytes (is = []) (if started then op_Continuation else type_opcode ty) k d @ message_text True ty is"

fun item_data :: "ws_item \<Rightarrow> string" where
  "item_data (Ping k d) = d"
| "item_data (Part k d) = d"

fun item_key :: "ws_item \<Rightarrow> string option" where
  "item_key (Ping k d) = k"
| "item_key (Part k d) = k"

fun parts :: "ws_item list \<Rightarrow> string" where
  "parts [] = []"
| "parts (Ping k d # is) = parts is"
| "parts (Part k d # is) = d @ parts is"

fun pongs :: "ws_item list \<Rightarrow> string list" where
  "pongs [] = []"
| "pongs (Ping k d # is) = frame_bytes True op_Pong None d # pongs is"
| "pongs (Part k d # is) = pongs is"

definition items_ok :: "ws_item list \<Rightarrow> bool" where
  "items_ok is \<longleftrightarrow> is \<noteq> [] \<and> (\<exists>k d. last is = Part k d) \<and> (\<forall>i\<in>set is. key_ok (item_key i)) \<and>
     sum_list (map (length \<circ> item_data) is) \<le> max_size"

lemma sendFrame_bytes: "sendFrame opc d False s = stream_write (frame_bytes True opc None d) s"
  by (simp add: sendFrame_def frame_bytes_def)

lemma sendFrame_sel [simp]:
  "stream_wf (sendFrame opc d m s) = stream_wf s"
  by (simp add: sendFrame_def stream_write_def stream_wf_def)

lemma type_opcode_simps [simp]:
  "type_opcode ty \<noteq> op_Continuation" "type_opcode ty \<noteq> op_Ping" "type_opcode ty \<noteq> op_Close"
  "type_opcode ty = op_Binary \<longleftrightarrow> ty = Binary" "type_opcode ty \<in> {op_Text, op_Binary}"
  "op_Continuation \<noteq> op_Ping" "op_Continuation \<noteq> op_Close"
  by (cases ty; simp add: type_opcode_def opcodes)+

lemma receive_loop_items:
  assumes "stream_wf s" "to_come s = message_text started ty is @ rest" "is \<noteq> []" "\<exists>k d. last is = Part k d"
    "\<forall>i\<in>set is. key_ok (item_key i)" "length payload + sum_list (map (length \<circ> item_data) is) \<le> max_size"
    "started \<Longrightarrow> final = type_opcode ty"
  shows "\<exists>s'. receive_loop payload final s = Inr (Some \<lparr>ws_type = ty, ws_payload = payload @ parts is\<rparr>, s') \<and>
    to_come s' = rest \<and> stream_wf s' \<and> sent s' = sent s @ pongs is"
  using assms
proof (induction "is" arbitrary: started payload final s)
  case (Cons i "is")
  show ?case
  proof (cases i)
    case (Ping k d)
    then obtain s1 where s1: "read_frame (length payload) s = Inr ((True, op_Ping, d), s1)"
      "to_come s1 = message_text started ty is @ rest" "stream_wf s1" "sent s1 = sent s"
      using read_frame_ok [OF Cons.prems(1), of True op_Ping k d "message_text started ty is @ rest" "length payload"]
        Cons.prems by auto
    let ?s2 = "sendFrame op_Pong d False s1"
    have "is \<noteq> []" using Cons.prems(4) Ping by auto
    then obtain s3 where "receive_loop payload final ?s2 = Inr (Some \<lparr>ws_type = ty, ws_payload = payload @ parts is\<rparr>, s3)"
      "to_come s3 = rest" "stream_wf s3" "sent s3 = sent ?s2 @ pongs is"
      using Cons.IH [of ?s2 started payload final] Cons.prems s1 by auto
    then show ?thesis using s1 Ping
      by (subst receive_loop.simps) (simp add: sendFrame_bytes stream_write_def)
  next
    case (Part k d)
    let ?opc = "if started then op_Continuation else type_opcode ty"
    have opc: "?opc \<in> {op_Continuation, op_Text, op_Binary, op_Close, op_Ping, op_Pong}"
      using type_opcode_simps(5) [of ty] by auto
    have tc: "to_come s = frame_bytes (is = []) ?opc k d @ message_text True ty is @ rest" "key_ok k"
      "length payload + length d \<le> max_size" using Cons.prems(2,5,6) Part by simp_all
    obtain s1 where s1: "read_frame (length payload) s = Inr ((is = [], ?opc, d), s1)"
      "to_come s1 = message_text True ty is @ rest" "stream_wf s1" "sent s1 = sent s"
      using read_frame_ok [OF Cons.prems(1) tc(1,2) opc tc(3)] by blast
    have f: "(if ?opc \<noteq> op_Continuation then ?opc else final) = type_opcode ty" using Cons.prems(7) by simp
    show ?thesis
    proof (cases "is = []")
      case True
      then show ?thesis using s1 Part f by (subst receive_loop.simps) (cases ty; auto simp: type_opcode_def opcodes)
    next
      case False
      then obtain s2 where "receive_loop (payload @ d) (type_opcode ty) s1 =
          Inr (Some \<lparr>ws_type = ty, ws_payload = (payload @ d) @ parts is\<rparr>, s2)"
        "to_come s2 = rest" "stream_wf s2" "sent s2 = sent s1 @ pongs is"
        using Cons.IH [of s1 True "payload @ d" "type_opcode ty"] Cons.prems Part s1 by auto
      then show ?thesis using s1 Part f False by (subst receive_loop.simps) (auto simp: Let_def)
    qed
  qed
qed simp

section \<open>The properties of the connection\<close>

text \<open>
  C8. A message arrives whole: whatever the peer does within the protocol (it may fragment the
  message, mask the fragments with any keys, send pings between them, and the bytes may arrive in
  any segments), receive returns the message with its type and its fragments joined, has answered
  every ping with a pong that carries the same data, in order, and leaves the bytes behind the message.
\<close>

theorem ws_receive_reassembles:
  assumes "stream_wf s" "to_come s = message_text False ty is @ rest" "items_ok is"
  shows "\<exists>s'. ws_receive s = Inr (Some \<lparr>ws_type = ty, ws_payload = parts is\<rparr>, s') \<and>
    to_come s' = rest \<and> stream_wf s' \<and> sent s' = sent s @ pongs is"
  using receive_loop_items [OF assms(1,2), of "[]" op_Continuation] assms(3)
  by (simp add: ws_receive_def items_ok_def)

theorem ws_receive_reassembles_witness:
  "\<exists>s'. ws_receive \<lparr>incoming = [message_text False Text [Part (Some ''abcd'') ''He'', Ping None ''x'', Part None ''llo'']],
       fails = False, sent = [], closed = False\<rparr> =
     Inr (Some \<lparr>ws_type = Text, ws_payload = ''Hello''\<rparr>, s') \<and> sent s' = [frame_bytes True op_Pong None ''x'']"
proof -
  let ?is = "[Part (Some ''abcd'') ''He'', Ping None ''x'', Part None ''llo'']"
  let ?s = "\<lparr>incoming = [message_text False Text ?is], fails = False, sent = [], closed = False\<rparr>"
  have "stream_wf ?s" by (simp add: stream_wf_def frame_bytes_def)
  moreover have "to_come ?s = message_text False Text ?is @ []" by (simp add: to_come_def)
  moreover have "items_ok ?is" by (simp add: items_ok_def key_ok_def max_size_def)
  ultimately show ?thesis using ws_receive_reassembles [of ?s Text ?is "[]"] by (simp, blast)
qed

text \<open>
  What send writes is received as it was: for data of any size that a string can have, the
  frame that send writes, with any of the three length forms, read back by receive from any
  segmentation, gives the same data and type.
\<close>

theorem ws_round_trip:
  assumes "length d \<le> max_size" "stream_wf s" "to_come s = concat (sent (ws_send d ty ob)) @ rest"
    "sent ob = []"
  shows "\<exists>s'. ws_receive s = Inr (Some \<lparr>ws_type = ty, ws_payload = d\<rparr>, s') \<and> to_come s' = rest \<and> sent s' = sent s"
proof -
  have "to_come s = message_text False ty [Part None d] @ rest"
    using assms(3,4) by (simp add: ws_send_def sendFrame_bytes stream_write_def type_opcode_def)
  moreover have "items_ok [Part None d]" using assms(1) by (simp add: items_ok_def key_ok_def)
  ultimately show ?thesis using receive_loop_items [OF assms(2), of False ty "[Part None d]" rest "[]" op_Continuation] assms(1)
    by (auto simp: ws_receive_def key_ok_def)
qed

theorem ws_round_trip_witness:
  "\<exists>s s'. ws_receive s = Inr (Some \<lparr>ws_type = Binary, ws_payload = replicate 200 (CHR ''x'')\<rparr>, s')"
proof -
  let ?e = "\<lparr>incoming = [], fails = False, sent = [], closed = False\<rparr>" and ?d = "replicate 200 (CHR ''x'')"
  let ?s = "?e\<lparr>incoming := [concat (sent (ws_send ?d Binary ?e))]\<rparr>"
  have "concat (sent (ws_send ?d Binary ?e)) \<noteq> []" by (simp add: ws_send_def sendFrame_def stream_write_def)
  then have "stream_wf ?s" "to_come ?s = concat (sent (ws_send ?d Binary ?e)) @ []"
    by (simp_all add: stream_wf_def to_come_def)
  moreover have "length ?d \<le> max_size" by (simp add: max_size_def)
  ultimately show ?thesis using ws_round_trip [of ?d ?s Binary ?e "[]"] by auto
qed


text \<open>
  A pong is taken for a message: receive returns it to the caller as a text message with the
  pong's data, since only ping and close frames are set apart.
\<close>

theorem ws_pong_delivered_as_text:
  assumes "stream_wf s" "to_come s = frame_bytes True op_Pong None d @ rest" "length d \<le> max_size"
  shows "\<exists>s'. ws_receive s = Inr (Some \<lparr>ws_type = Text, ws_payload = d\<rparr>, s') \<and> to_come s' = rest"
proof -
  obtain s1 where "read_frame 0 s = Inr ((True, op_Pong, d), s1)" "to_come s1 = rest"
    using read_frame_ok [OF assms(1,2), of 0] assms(3) by (auto simp: key_ok_def)
  moreover have "op_Pong \<noteq> op_Ping" "op_Pong \<noteq> op_Close" "op_Pong \<noteq> op_Continuation" "op_Pong \<noteq> op_Binary"
    by (simp_all add: opcodes)
  ultimately show ?thesis by (simp add: ws_receive_def receive_loop.simps)
qed

theorem ws_pong_delivered_as_text_witness:
  "\<exists>s'. ws_receive \<lparr>incoming = [frame_bytes True op_Pong None ''p''], fails = False, sent = [], closed = False\<rparr> =
     Inr (Some \<lparr>ws_type = Text, ws_payload = ''p''\<rparr>, s')"
  using ws_pong_delivered_as_text [of "\<lparr>incoming = [frame_bytes True op_Pong None ''p''], fails = False, sent = [], closed = False\<rparr>" "''p''" "[]"]
  by (auto simp: stream_wf_def to_come_def max_size_def frame_bytes_def)

end
