(* ===== verification/Ws_Server.thy ===== *)
theory Ws_Server
  imports Prelude Base64 Digest Byte_Stream Http_Header Http_Message Http_Parser Http_Body Http_Outgoing Http_Server Web_Socket
begin

text \<open>
  The upgrade of an HTTP connection to a WebSocket (\<^verbatim>\<open>src/extensions/websocket/src/WsServer.cc\<close>): the
  handshake, the routes, and how the server of \<open>Http_Server\<close> hands the connection over. A handler
  is a program over the connection; since it only reads and writes the stream, it is a function of
  the stream, which may end with an exception.
\<close>

section \<open>The handshake\<close>

definition kWebSocketGuid :: string where
  "kWebSocketGuid = ''258EAFA5-E914-47DA-95CA-C5AB0DC85B11''"

text \<open>\<open>sha1\<close> has no result for inputs of four gigabytes and more (\<open>Digest\<close>).\<close>

definition computeAccept :: "string \<Rightarrow> string option" where
  "computeAccept key = map_option (\<lambda>digest. base64Encode (map from_u8 digest)) (sha1 (map to_u8 (key @ kWebSocketGuid)))"

type_synonym ws_handler = "stream \<Rightarrow> io_error + stream"

record ws_server =
  routes :: "ws_handler omap"

definition ws_route :: "string \<Rightarrow> ws_handler \<Rightarrow> ws_server \<Rightarrow> ws_server" where
  "ws_route path h ws = ws\<lparr>routes := omap_assign path h (routes ws)\<rparr>"

definition accept_response :: "string \<Rightarrow> outgoing \<Rightarrow> outgoing" where
  "accept_response acc ob =
     setHeader_code NC_SecWebSocketAccept acc
       (setHeader_code NC_Connection ''Upgrade''
         (setHeader_code NC_Upgrade ''websocket''
           (setStatus 101 [] ob)))"

definition handleUpgrade :: "method_registry \<Rightarrow> string \<Rightarrow> ws_server \<Rightarrow> http_request \<Rightarrow> upgrade" where
  "handleUpgrade reg date ws req =
     (if toLower (getHeader_code (req_headers req) NC_Upgrade) \<noteq> ''websocket'' then Decline H_return
      else case omap_find (routes ws) (req_path req) of
        None \<Rightarrow> Decline H_return
      | Some h \<Rightarrow>
          (let key = getHeader_code (req_headers req) NC_SecWebSocketKey in
           if key = [] then Decline H_return
           else Take (\<lambda>b ob c.
             case computeAccept key of
               None \<Rightarrow> Inl (Runtime_error ''sha1'')
             | Some acc \<Rightarrow>
                 (case out_end reg date (accept_response acc ob) (peer c) of
                    Inl e \<Rightarrow> Inl e
                  | Inr (ob', s) \<Rightarrow>
                      (case h s of Inl e \<Rightarrow> Inl e | Inr s' \<Rightarrow> Inr (c\<lparr>peer := s'\<rparr>))))))"

definition attachTo :: "method_registry \<Rightarrow> string \<Rightarrow> ws_server \<Rightarrow> http_server \<Rightarrow> http_server" where
  "attachTo reg date ws sv = setRequestUpgrader (handleUpgrade reg date ws) sv"

section \<open>What the client sees\<close>

definition accept_text :: "string \<Rightarrow> string" where
  "accept_text acc =
     ''HTTP/1.1 101 Switching Protocols'' @ crlf @
     ''connection: Upgrade'' @ crlf @
     ''content-length: 0'' @ crlf @
     ''sec-websocket-accept: '' @ acc @ crlf @
     ''upgrade: websocket'' @ crlf @ crlf"

lemma accept_name_order:
  "''connection'' < ''upgrade''" "\<not> ''sec-websocket-accept'' < ''connection''" "''sec-websocket-accept'' < ''upgrade''"
  "\<not> ''content-length'' < ''connection''" "''content-length'' < ''sec-websocket-accept''"
  by (simp_all add: less_char_def)

lemma accept_headers:
  "out_data (accept_response acc (new_response sv prev req)) =
     Out_response (response_default\<lparr>resp_statusCode := 101, resp_statusReason := ''Switching Protocols'',
       resp_shouldClose := \<not> req_keepAlive req,
       resp_headers := [(''connection'', httpHeader_of_code NC_Connection ''Upgrade''),
         (''sec-websocket-accept'', httpHeader_of_code NC_SecWebSocketAccept acc),
         (''upgrade'', httpHeader_of_code NC_Upgrade ''websocket'')]\<rparr>)"
  by (simp add: accept_response_def new_response_def setHeader_code_def Let_def setStatus_def setCloseConnection_def
      outgoing_response_def outgoing_init_def httpHeader_of_code_def response_default_def getDefaultReason_def accept_name_order)

lemma accept_sent:
  assumes "prev \<noteq> Some False" "\<not> send_date_header sv"
  shows "\<exists>ob'. out_end reg date (accept_response acc (new_response sv prev req)) s = Inr (ob', stream_write (accept_text acc) s)"
proof -
  let ?ob = "accept_response acc (new_response sv prev req)"
  have ob: "\<not> headersSent ?ob" "bodyWriter ?ob = None" "bodyLength ?ob = 0" "\<not> sendDateHeader ?ob" "\<not> finished ?ob"
    "prevFuture ?ob = prev"
    using assms(2) by (simp_all add: accept_response_def new_response_def setHeader_code_def Let_def setStatus_def
        setCloseConnection_def outgoing_response_def outgoing_init_def)
  show ?thesis using ob assms(1)
    by (simp add: out_end_def accept_headers writeHeaders_def setHeader_code_def [of NC_ContentLength] Let_def await_prev_def
        buildHeaders_def buildHeaders_response_def header_lines_def httpHeader_of_code_def accept_name_order
        response_default_def toVersionString_def show_base.simps accept_text_def finish_def out_writer_end_def)
qed

lemma computeAccept_defined:
  assumes "length key < 2 ^ 31"
  shows "\<exists>acc. computeAccept key = Some acc"
proof -
  let ?input = "map to_u8 (key @ kWebSocketGuid)"
  have "length ?input + 72 < 2 ^ 32" using assms by (simp add: kWebSocketGuid_def)
  then obtain msg where "pad_message be_bytes64 ?input = Some msg"
    using pad_message_padded [of ?input be_bytes64] by (auto simp: be_bytes64_def)
  then show ?thesis by (simp add: computeAccept_def sha1_digest_eq)
qed

text \<open>
  The handshake: a request that asks for an upgrade to a WebSocket on a registered path, with a
  key, is answered with exactly one response, 101 Switching Protocols with the accept value
  computed from the key, and then the handler of that path runs on the connection, which the
  HTTP loop no longer serves. A request for another protocol, another path or without a key is left
  to the HTTP routes.
\<close>

theorem ws_handshake:
  assumes "isUpgradeRequest req" "prev \<noteq> Some False" "\<not> send_date_header sv"
    and "key = getHeader_code (req_headers req) NC_SecWebSocketKey" "length key < 2 ^ 31"
    and "accepted = (toLower (getHeader_code (req_headers req) NC_Upgrade) = ''websocket'' \<and>
           omap_find (routes ws) (req_path req) \<noteq> None \<and> key \<noteq> [])"
  shows "\<exists>acc. computeAccept key = Some acc \<and>
    handle_request reg date rx (attachTo reg date ws sv) prev req c =
    (if accepted then
       (case the (omap_find (routes ws) (req_path req)) (stream_write (accept_text acc) (peer c)) of
          Inl e \<Rightarrow> Inl e
        | Inr s \<Rightarrow> Inr (c\<lparr>peer := s\<rparr>, None))
     else dispatch reg date rx (attachTo reg date ws sv) req
            (reader_create (req_transferMode req) (req_contentLength req)) (new_response sv prev req) c)"
proof -
  obtain acc where acc: "computeAccept key = Some acc" using computeAccept_defined [OF assms(5)] by blast
  obtain ob' where ob': "out_end reg date (accept_response acc (new_response sv prev req)) (peer c) =
      Inr (ob', stream_write (accept_text acc) (peer c))" using accept_sent [OF assms(2,3)] by blast
  have nr: "new_response (attachTo reg date ws sv) prev req = new_response sv prev req"
    by (simp add: new_response_def attachTo_def setRequestUpgrader_def)
  show ?thesis
  proof (cases accepted)
    case True
    then obtain h where h: "omap_find (routes ws) (req_path req) = Some h" using assms(6) by auto
    have u: "handleUpgrade reg date ws req = Take (\<lambda>b ob c.
        case out_end reg date (accept_response acc ob) (peer c) of
          Inl e \<Rightarrow> Inl e
        | Inr (ob', s) \<Rightarrow> (case h s of Inl e \<Rightarrow> Inl e | Inr s' \<Rightarrow> Inr (c\<lparr>peer := s'\<rparr>)))"
      using True assms(4,6) acc h by (simp add: handleUpgrade_def)
    show ?thesis using True assms(1) acc u h ob' nr
      by (cases "h (stream_write (accept_text acc) (peer c))")
        (simp_all add: handle_request_def Let_def attachTo_def setRequestUpgrader_def)
  next
    case False
    then have u: "handleUpgrade reg date ws req = Decline H_return"
      using assms(4,6) by (auto simp: handleUpgrade_def Let_def split: option.splits)
    show ?thesis using False assms(1) acc u nr
      by (simp add: handle_request_def Let_def attachTo_def setRequestUpgrader_def)
  qed
qed

text \<open>A request with the key of RFC 6455 and a handler that closes at once.\<close>

definition sample_upgrade :: http_request where
  "sample_upgrade = request_default\<lparr>req_path := ''/chat'', req_headers :=
     [(''connection'', httpHeader_of_code NC_Connection ''Upgrade''),
      (''sec-websocket-key'', httpHeader_of_code NC_SecWebSocketKey ''dGhlIHNhbXBsZSBub25jZQ==''),
      (''upgrade'', httpHeader_of_code NC_Upgrade ''WebSocket'')]\<rparr>"

definition sample_ws :: ws_server where
  "sample_ws = ws_route ''/chat'' (\<lambda>s. Inr (ws_shutdown 1000 [] s)) \<lparr>routes = []\<rparr>"

theorem ws_handshake_witness:
  "\<exists>acc. handle_request methodRegistry [] (\<lambda>_ _. None) (attachTo methodRegistry [] sample_ws (server_init None False)) None
      sample_upgrade \<lparr>buffer = [], peer = \<lparr>incoming = [], fails = False, sent = [], closed = False\<rparr>\<rparr> =
    Inr (\<lparr>buffer = [], peer = ws_shutdown 1000 [] (stream_write (accept_text acc)
      \<lparr>incoming = [], fails = False, sent = [], closed = False\<rparr>)\<rparr>, None)"
proof -
  have h: "isUpgradeRequest sample_upgrade"
    "getHeader_code (req_headers sample_upgrade) NC_SecWebSocketKey = ''dGhlIHNhbXBsZSBub25jZQ==''"
    "toLower (getHeader_code (req_headers sample_upgrade) NC_Upgrade) = ''websocket''"
    "req_path sample_upgrade = ''/chat''"
    by (simp_all add: sample_upgrade_def isUpgradeRequest_def getHeader_code_def codeToName_def httpHeader_of_code_def
        toLower_def char_eval)
  then show ?thesis
    using ws_handshake [of sample_upgrade None "server_init None False" "''dGhlIHNhbXBsZSBub25jZQ==''" True sample_ws
        methodRegistry "[]" "\<lambda>_ _. None" "\<lparr>buffer = [], peer = \<lparr>incoming = [], fails = False, sent = [], closed = False\<rparr>\<rparr>"]
    by (simp add: sample_ws_def ws_route_def server_init_def) blast
qed

end
