(* ===== verification/Runs.thy ===== *)
theory Runs
  imports Main
begin

text \<open>
  Runs of labelled step relations. The components that several threads or coroutines use at the
  same time are modelled by a relation whose steps are the atomic actions of one participant; a
  run is a sequence of such steps in any order. Two contracts are shared by these models: an
  invariant that every step keeps, and a simulation by an abstract machine that sees some of the
  labels.
\<close>

inductive run :: "('s \<Rightarrow> 'l \<Rightarrow> 's \<Rightarrow> bool) \<Rightarrow> 's \<Rightarrow> 'l list \<Rightarrow> 's \<Rightarrow> bool" for step where
  run_nil: "run step s [] s"
| run_cons: "step s l u \<Longrightarrow> run step u ls t \<Longrightarrow> run step s (l # ls) t"

inductive_simps run_nil_iff [simp]: "run step s [] t"
inductive_simps run_cons_iff [simp]: "run step s (l # ls) t"

lemma run_append: "run step s (ls @ ms) t \<longleftrightarrow> (\<exists>u. run step s ls u \<and> run step u ms t)"
  by (induction ls arbitrary: s) auto

lemma run_snoc: "run step s ls u \<Longrightarrow> step u l t \<Longrightarrow> run step s (ls @ [l]) t"
  by (auto simp: run_append)

lemma run_trans: "run step s ls u \<Longrightarrow> run step u ms t \<Longrightarrow> run step s (ls @ ms) t"
  by (auto simp: run_append)

text \<open>Induction on a run that is extended at its end, with the labels so far as history.\<close>

lemma run_history_induct [consumes 1, case_names start step]:
  assumes "run step s ls t" "P [] s"
    and "\<And>ls u l v. run step s ls u \<Longrightarrow> P ls u \<Longrightarrow> step u l v \<Longrightarrow> P (ls @ [l]) v"
  shows "P ls t"
proof -
  have "run step s ks u \<Longrightarrow> P ks u \<Longrightarrow> run step u ls t \<Longrightarrow> P (ks @ ls) t" for ks u
  proof (induction ls arbitrary: ks u)
    case Nil
    then show ?case by simp
  next
    case (Cons l ls)
    then obtain v where "step u l v" "run step v ls t" by auto
    then show ?case using Cons.IH [of "ks @ [l]" v] Cons.prems(1,2) assms(3) run_snoc by fastforce
  qed
  from this [of "[]" s] show ?thesis using assms(1,2) by simp
qed

text \<open>A property that one step keeps holds after every run.\<close>

locale step_invariant =
  fixes step :: "'s \<Rightarrow> 'l \<Rightarrow> 's \<Rightarrow> bool" and inv :: "'s \<Rightarrow> bool"
  assumes step_keeps: "inv s \<Longrightarrow> step s l t \<Longrightarrow> inv t"
begin

lemma run_keeps: "run step s ls t \<Longrightarrow> inv s \<Longrightarrow> inv t"
  by (induction rule: run.induct) (blast intro: step_keeps)+

end

text \<open>
  A simulation: the steps whose label the abstract machine does not see change nothing in the
  abstract state, the others are matched by the abstract step with the seen label.
\<close>

locale observed_simulation =
  fixes step :: "'s \<Rightarrow> 'l \<Rightarrow> 's \<Rightarrow> bool"
    and spec :: "'a \<Rightarrow> 'm \<Rightarrow> 'a \<Rightarrow> bool"
    and sees :: "'l \<Rightarrow> 'm option"
    and rel :: "'s \<Rightarrow> 'a \<Rightarrow> bool"
  assumes step_simulated: "rel s a \<Longrightarrow> step s l t \<Longrightarrow>
    (case sees l of None \<Rightarrow> rel t a | Some m \<Rightarrow> (\<exists>b. spec a m b \<and> rel t b))"
begin

lemma run_simulated:
  "run step s ls t \<Longrightarrow> rel s a \<Longrightarrow> \<exists>b. run spec a (List.map_filter sees ls) b \<and> rel t b"
proof (induction arbitrary: a rule: run.induct)
  case (run_nil s)
  then show ?case by (auto simp: map_filter_simps)
next
  case (run_cons s l u ls t)
  show ?case
  proof (cases "sees l")
    case None
    then have "rel u a" using step_simulated [OF run_cons.prems run_cons.hyps(1)] by simp
    then show ?thesis using run_cons.IH None by (simp add: map_filter_simps)
  next
    case (Some m)
    then obtain b where "spec a m b" "rel u b"
      using step_simulated [OF run_cons.prems run_cons.hyps(1)] by auto
    then show ?thesis using run_cons.IH [of b] Some by (auto simp: map_filter_simps)
  qed
qed

end

section \<open>Linked awaiters\<close>

text \<open>
  The synchronisation primitives link awaiters, objects inside the frames of suspended coroutines,
  through a pointer to the next one. A coroutine waits at one place, so an awaiter is named by its
  coroutine.
\<close>

type_synonym coro = nat

datatype awaiter_ptr = Null | Awaiter coro

text \<open>The awaiters that a pointer leads to along \<open>next_ptr\<close>.\<close>

fun chain :: "(coro \<Rightarrow> awaiter_ptr) \<Rightarrow> awaiter_ptr \<Rightarrow> coro list \<Rightarrow> bool" where
  "chain n p [] \<longleftrightarrow> p = Null"
| "chain n p (x # xs) \<longleftrightarrow> p = Awaiter x \<and> chain n (n x) xs"

lemma chain_null [simp]: "chain n Null xs \<longleftrightarrow> xs = []"
  by (cases xs) auto

lemma chain_awaiter: "chain n (Awaiter w) xs \<longleftrightarrow> (\<exists>ys. xs = w # ys \<and> chain n (n w) ys)"
  by (cases xs) auto

lemma chain_upd [simp]: "x \<notin> set xs \<Longrightarrow> chain (n(x := p)) q xs \<longleftrightarrow> chain n q xs"
  by (induction xs arbitrary: q) auto

lemma chain_unique: "chain n p xs \<Longrightarrow> chain n p ys \<Longrightarrow> xs = ys"
  by (induction xs arbitrary: p ys) (auto simp: chain_awaiter)

end
