(* ===== verification/Coro_Mutex.thy ===== *)
theory Coro_Mutex
  imports Runs
begin

text \<open>
  The coroutine mutex of \<^verbatim>\<open>src/include/nitrocoro/core/Mutex.h\<close>. The word \<open>state\<close> (\<^verbatim>\<open>state_\<close>) is the
  address of the mutex itself (unlocked), null (locked, nobody arrived since) or the newest
  awaiter of a stack linked by \<open>next_ptr\<close>; \<open>waiters\<close> is the list of older waiters in their order of
  arrival, which only the holder touches. Every access to \<open>state\<close> is one atomic step, and the
  accesses of different coroutines are interleaved in any order; atomics are taken as sequentially
  consistent. An awaiter is named by its coroutine, since a coroutine waits at one place.

  The simulation shows that the pointer structure is a first-in first-out lock: mutual exclusion,
  the order of the grants, the absence of lost wakeups and the assertions of \<open>unlock\<close> follow.
\<close>

section \<open>The mutex and its operations\<close>

datatype mutex_word = Unlocked | Locked awaiter_ptr

text \<open>
  Where a coroutine is: outside, at the load of \<open>asynclockImpl\<close>, at one of its two
  compare-exchanges, suspended, scheduled by a handover, holding the lock, or at a point of
  \<open>unlock\<close>.
\<close>

datatype pc =
    Outside
  | AsyncLoad
  | AsyncTest mutex_word
  | AsyncPush awaiter_ptr
  | Suspended
  | Scheduled
  | Holding
  | UnlockLoad
  | UnlockCas
  | UnlockExchange
  | Reversing awaiter_ptr awaiter_ptr
  | Handover awaiter_ptr

record mutex =
  state :: mutex_word
  waiters :: awaiter_ptr
  next_ptr :: "coro \<Rightarrow> awaiter_ptr"
  has_sched :: "coro \<Rightarrow> bool"
  pcs :: "coro \<Rightarrow> pc"

definition goto :: "coro \<Rightarrow> pc \<Rightarrow> mutex \<Rightarrow> mutex" where
  "goto i p s = s\<lparr>pcs := (pcs s)(i := p)\<rparr>"

definition mutex_init :: "(coro \<Rightarrow> bool) \<Rightarrow> mutex" where
  "mutex_init sch = \<lparr>state = Unlocked, waiters = Null, next_ptr = (\<lambda>_. Null), has_sched = sch,
     pcs = (\<lambda>_. Outside)\<rparr>"

text \<open>
  The labels say what a step did: \<open>Acquire\<close>, \<open>Enqueue\<close>, \<open>Grant\<close> and \<open>Release\<close> change who holds
  or waits for the lock, \<open>Local\<close> is any other step of a coroutine.
\<close>

datatype mutex_event = Acquire coro | Enqueue coro | Grant coro coro | Release coro | Local coro

inductive mutex_step :: "mutex \<Rightarrow> mutex_event \<Rightarrow> mutex \<Rightarrow> bool" where
  \<comment> \<open>\<open>try_lock\<close>, also as \<open>await_ready\<close>\<close>
  try_lock_ok: "pcs s i = Outside \<Longrightarrow> state s = Unlocked \<Longrightarrow>
    mutex_step s (Acquire i) (goto i Holding (s\<lparr>state := Locked Null\<rparr>))"
| try_lock_fails: "pcs s i = Outside \<Longrightarrow> state s \<noteq> Unlocked \<Longrightarrow> mutex_step s (Local i) s"
| await_not_ready: "pcs s i = Outside \<Longrightarrow> state s \<noteq> Unlocked \<Longrightarrow>
    mutex_step s (Local i) (goto i AsyncLoad s)"
  \<comment> \<open>\<open>asynclockImpl\<close>; a weak compare-exchange may also fail without reason\<close>
| async_load: "pcs s i = AsyncLoad \<Longrightarrow> mutex_step s (Local i) (goto i (AsyncTest (state s)) s)"
| async_lock_ok: "pcs s i = AsyncTest Unlocked \<Longrightarrow> state s = Unlocked \<Longrightarrow>
    mutex_step s (Acquire i) (goto i Holding (s\<lparr>state := Locked Null\<rparr>))"
| async_lock_fails: "pcs s i = AsyncTest Unlocked \<Longrightarrow>
    mutex_step s (Local i) (goto i (AsyncTest (state s)) s)"
| async_link: "pcs s i = AsyncTest (Locked p) \<Longrightarrow>
    mutex_step s (Local i) (goto i (AsyncPush p) (s\<lparr>next_ptr := (next_ptr s)(i := p)\<rparr>))"
| async_push_ok: "pcs s i = AsyncPush p \<Longrightarrow> state s = Locked p \<Longrightarrow>
    mutex_step s (Enqueue i) (goto i Suspended (s\<lparr>state := Locked (Awaiter i)\<rparr>))"
| async_push_fails: "pcs s i = AsyncPush p \<Longrightarrow>
    mutex_step s (Local i) (goto i (AsyncTest (state s)) s)"
  \<comment> \<open>the scheduler resumes a coroutine that was handed the lock\<close>
| resume: "pcs s i = Scheduled \<Longrightarrow> mutex_step s (Local i) (goto i Holding s)"
  \<comment> \<open>\<open>unlock\<close>, called by the holder\<close>
| unlock_no_waiters: "pcs s i = Holding \<Longrightarrow> waiters s = Null \<Longrightarrow>
    mutex_step s (Local i) (goto i UnlockLoad s)"
| unlock_waiters: "pcs s i = Holding \<Longrightarrow> waiters s = Awaiter h \<Longrightarrow>
    mutex_step s (Local i) (goto i (Handover (Awaiter h)) s)"
| unlock_load_null: "pcs s i = UnlockLoad \<Longrightarrow> state s = Locked Null \<Longrightarrow>
    mutex_step s (Local i) (goto i UnlockCas s)"
| unlock_load_other: "pcs s i = UnlockLoad \<Longrightarrow> state s \<noteq> Locked Null \<Longrightarrow>
    mutex_step s (Local i) (goto i UnlockExchange s)"
| unlock_cas_ok: "pcs s i = UnlockCas \<Longrightarrow> state s = Locked Null \<Longrightarrow>
    mutex_step s (Release i) (goto i Outside (s\<lparr>state := Unlocked\<rparr>))"
| unlock_cas_fails: "pcs s i = UnlockCas \<Longrightarrow> state s \<noteq> Locked Null \<Longrightarrow>
    mutex_step s (Local i) (goto i UnlockExchange s)"
| unlock_exchange: "pcs s i = UnlockExchange \<Longrightarrow> state s = Locked (Awaiter w) \<Longrightarrow>
    mutex_step s (Local i) (goto i (Reversing (Awaiter w) Null) (s\<lparr>state := Locked Null\<rparr>))"
| unlock_reverse: "pcs s i = Reversing (Awaiter w) h \<Longrightarrow>
    mutex_step s (Local i)
      (goto i (case next_ptr s w of Null \<Rightarrow> Handover (Awaiter w) | Awaiter v \<Rightarrow> Reversing (Awaiter v) (Awaiter w))
        (s\<lparr>next_ptr := (next_ptr s)(w := h)\<rparr>))"
| unlock_handover: "pcs s i = Handover (Awaiter h) \<Longrightarrow>
    mutex_step s (Grant i h)
      (goto h (if has_sched s h then Scheduled else Holding) (goto i Outside (s\<lparr>waiters := next_ptr s h\<rparr>)))"

section \<open>The lock it implements\<close>

text \<open>A first-in first-out lock: the holder and the queue of the waiting coroutines.\<close>

record fifo_lock =
  holder :: "coro option"
  queue :: "coro list"

definition fifo_init :: fifo_lock where
  "fifo_init = \<lparr>holder = None, queue = []\<rparr>"

inductive fifo_step :: "fifo_lock \<Rightarrow> mutex_event \<Rightarrow> fifo_lock \<Rightarrow> bool" where
  fifo_acquire: "holder a = None \<Longrightarrow> fifo_step a (Acquire i) (a\<lparr>holder := Some i\<rparr>)"
| fifo_enqueue: "holder a \<noteq> None \<Longrightarrow> holder a \<noteq> Some i \<Longrightarrow> i \<notin> set (queue a) \<Longrightarrow>
    fifo_step a (Enqueue i) (a\<lparr>queue := queue a @ [i]\<rparr>)"
| fifo_grant: "holder a = Some i \<Longrightarrow> queue a = h # q \<Longrightarrow>
    fifo_step a (Grant i h) (a\<lparr>holder := Some h, queue := q\<rparr>)"
| fifo_release: "holder a = Some i \<Longrightarrow> queue a = [] \<Longrightarrow> fifo_step a (Release i) (a\<lparr>holder := None\<rparr>)"

inductive_simps fifo_step_simps [simp]:
  "fifo_step a (Acquire i) b" "fifo_step a (Enqueue i) b" "fifo_step a (Grant i h) b"
  "fifo_step a (Release i) b" "fifo_step a (Local i) b"

fun sees :: "mutex_event \<Rightarrow> mutex_event option" where
  "sees (Local i) = None"
| "sees e = Some e"

text \<open>The coroutines that queued up, and those the lock was handed to, in order.\<close>

fun enqueued :: "mutex_event list \<Rightarrow> coro list" where
  "enqueued [] = []"
| "enqueued (Enqueue i # es) = i # enqueued es"
| "enqueued (e # es) = enqueued es"

fun granted :: "mutex_event list \<Rightarrow> coro list" where
  "granted [] = []"
| "granted (Grant i h # es) = h # granted es"
| "granted (e # es) = granted es"

text \<open>The coroutine that makes the step.\<close>

fun actor :: "mutex_event \<Rightarrow> coro" where
  "actor (Acquire i) = i"
| "actor (Enqueue i) = i"
| "actor (Grant i h) = i"
| "actor (Release i) = i"
| "actor (Local i) = i"

fun owns :: "pc \<Rightarrow> bool" where
  "owns Outside = False"
| "owns AsyncLoad = False"
| "owns (AsyncTest w) = False"
| "owns (AsyncPush p) = False"
| "owns Suspended = False"
| "owns _ = True"

section \<open>The simulation\<close>

text \<open>
  The queue is, oldest first: what the unlocking holder has in its hands (or \<open>waiters\<close>), then the
  stack of \<open>state\<close> read backwards. While the holder reverses the detached stack, the part not yet
  reversed holds the newer ones.
\<close>

fun front :: "mutex \<Rightarrow> pc \<Rightarrow> coro list \<Rightarrow> bool" where
  "front s (Reversing w h) q \<longleftrightarrow>
     waiters s = Null \<and> w \<noteq> Null \<and> (\<exists>xs ys. chain (next_ptr s) w xs \<and> chain (next_ptr s) h ys \<and> q = rev xs @ ys)"
| "front s (Handover h) q \<longleftrightarrow> h \<noteq> Null \<and> chain (next_ptr s) h q"
| "front s UnlockLoad q \<longleftrightarrow> waiters s = Null \<and> q = []"
| "front s UnlockCas q \<longleftrightarrow> waiters s = Null \<and> q = []"
| "front s UnlockExchange q \<longleftrightarrow> waiters s = Null \<and> q = [] \<and> state s \<noteq> Locked Null"
| "front s _ q \<longleftrightarrow> chain (next_ptr s) (waiters s) q"

definition mutex_rel :: "mutex \<Rightarrow> fifo_lock \<Rightarrow> bool" where
  "mutex_rel s a \<longleftrightarrow>
     (\<forall>i. owns (pcs s i) \<longleftrightarrow> holder a = Some i) \<and>
     (\<forall>i. pcs s i = Suspended \<longleftrightarrow> i \<in> set (queue a)) \<and>
     (\<forall>i p. pcs s i = AsyncPush p \<longrightarrow> next_ptr s i = p) \<and>
     distinct (queue a) \<and>
     (case holder a of
        None \<Rightarrow> state s = Unlocked \<and> waiters s = Null \<and> queue a = []
      | Some i \<Rightarrow> (\<exists>p q stack. state s = Locked p \<and> chain (next_ptr s) p stack \<and>
          front s (pcs s i) q \<and> queue a = q @ rev stack))"

lemma goto_sel [simp]:
  "state (goto i p s) = state s" "waiters (goto i p s) = waiters s" "next_ptr (goto i p s) = next_ptr s"
  "has_sched (goto i p s) = has_sched s" "pcs (goto i p s) = (pcs s)(i := p)"
  by (simp_all add: goto_def)

lemma front_cong:
  "waiters t = waiters s \<Longrightarrow> next_ptr t = next_ptr s \<Longrightarrow> state t = state s \<Longrightarrow> front t p q = front s p q"
  by (cases p) auto

lemma front_goto [simp]: "front (goto i p' s) p q = front s p q"
  by (rule front_cong) simp_all

text \<open>What is in the queue does not depend on the link of a coroutine outside it.\<close>

lemma front_link:
  assumes "front s p q" "i \<notin> set q"
  shows "front (s\<lparr>next_ptr := (next_ptr s)(i := r)\<rparr>) p q"
proof (cases p)
  case (Reversing w h)
  then obtain xs ys where c: "chain (next_ptr s) w xs" "chain (next_ptr s) h ys" "q = rev xs @ ys"
    "waiters s = Null" "w \<noteq> Null" using assms(1) by auto
  then have "chain ((next_ptr s)(i := r)) w xs" "chain ((next_ptr s)(i := r)) h ys"
    using assms(2) by auto
  then show ?thesis using c Reversing by auto
qed (use assms in auto)

text \<open>A push only makes \<open>state\<close> point to an awaiter.\<close>

lemma front_push: "front s p q \<Longrightarrow> front (s\<lparr>state := Locked (Awaiter i)\<rparr>) p q"
  by (cases p) auto

lemma relD:
  assumes "mutex_rel s a"
  shows "owns (pcs s i) \<longleftrightarrow> holder a = Some i" "pcs s i = Suspended \<longleftrightarrow> i \<in> set (queue a)"
    "pcs s i = AsyncPush p \<Longrightarrow> next_ptr s i = p" "distinct (queue a)"
  using assms by (auto simp: mutex_rel_def)

lemma rel_free: "mutex_rel s a \<Longrightarrow> holder a = None \<Longrightarrow> state s = Unlocked \<and> waiters s = Null \<and> queue a = []"
  by (simp add: mutex_rel_def)

lemma rel_held:
  assumes "mutex_rel s a" "holder a = Some i"
  obtains p q stack where "state s = Locked p" "chain (next_ptr s) p stack" "front s (pcs s i) q"
    "queue a = q @ rev stack"
  using assms by (auto simp: mutex_rel_def)

lemma rel_heldI:
  assumes "holder a = Some i" "\<And>k. owns (pcs s k) \<longleftrightarrow> k = i" "\<And>k. pcs s k = Suspended \<longleftrightarrow> k \<in> set (queue a)"
    "\<And>k p. pcs s k = AsyncPush p \<Longrightarrow> next_ptr s k = p" "distinct (queue a)"
    "state s = Locked p" "chain (next_ptr s) p stack" "front s (pcs s i) q" "queue a = q @ rev stack"
  shows "mutex_rel s a"
  using assms by (auto simp: mutex_rel_def)

lemma rel_unlocked_iff: "mutex_rel s a \<Longrightarrow> state s = Unlocked \<longleftrightarrow> holder a = None"
  by (cases "holder a") (auto simp: mutex_rel_def)

text \<open>A step of a coroutine that neither holds nor waits.\<close>

lemma rel_local:
  assumes "mutex_rel s a" "\<not> owns (pcs s i)" "pcs s i \<noteq> Suspended" "\<not> owns p" "p \<noteq> Suspended"
    and "\<And>r. p = AsyncPush r \<Longrightarrow> n = r"
  shows "mutex_rel (goto i p (s\<lparr>next_ptr := (next_ptr s)(i := n)\<rparr>)) a"
proof -
  have i: "holder a \<noteq> Some i" "i \<notin> set (queue a)"
    using relD [OF assms(1)] assms(2,3) by auto
  show ?thesis
  proof (cases "holder a")
    case None
    then show ?thesis using assms i by (simp add: mutex_rel_def)
  next
    case (Some k)
    with assms(1) obtain q stack r where r: "state s = Locked r" "chain (next_ptr s) r stack"
      "front s (pcs s k) q" "queue a = q @ rev stack" by (rule rel_held)
    with i have "front (s\<lparr>next_ptr := (next_ptr s)(i := n)\<rparr>) (pcs s k) q" "i \<notin> set stack"
      by (auto intro: front_link)
    then show ?thesis using Some r i assms relD [OF assms(1)]
      by (intro rel_heldI [of a k _ r stack q]) (auto split: if_splits)
  qed
qed

lemma rel_local_goto:
  assumes "mutex_rel s a" "\<not> owns (pcs s i)" "pcs s i \<noteq> Suspended" "\<not> owns p" "p \<noteq> Suspended"
    and "\<And>r. p \<noteq> AsyncPush r"
  shows "mutex_rel (goto i p s) a"
  using rel_local [OF assms(1-5), of "next_ptr s i"] assms(6) by simp

text \<open>A step of the holder that leaves the queue as it is.\<close>

lemma rel_owner:
  assumes "mutex_rel s a" "holder a = Some i" "owns p" "queue a = q @ rev stack" "state t = Locked r"
    "chain (next_ptr t) r stack" "front t p q" "pcs t = (pcs s)(i := p)"
    and "\<And>k. k \<notin> set (queue a) \<Longrightarrow> k \<noteq> i \<Longrightarrow> next_ptr t k = next_ptr s k"
  shows "mutex_rel t a"
proof -
  have own: "owns (pcs s i)" using relD(1) [OF assms(1)] assms(2) by simp
  have "i \<notin> set (queue a)" using own relD(2) [OF assms(1), of i] by auto
  moreover have "next_ptr t k = next_ptr s k" if "pcs s k = AsyncPush r" for k r
    using assms(9) [of k] relD(1,2) [OF assms(1), of k] that assms(2) by fastforce
  ultimately show ?thesis using own assms relD [OF assms(1)]
    by (intro rel_heldI [of a i _ r stack q]) (auto split: if_splits)
qed

section \<open>Every step is a step of the lock\<close>

lemma rel_acquire:
  assumes "mutex_rel s a" "\<not> owns (pcs s i)" "state s = Unlocked"
  shows "\<exists>b. fifo_step a (Acquire i) b \<and> mutex_rel (goto i Holding (s\<lparr>state := Locked Null\<rparr>)) b"
proof -
  have free: "holder a = None" "waiters s = Null" "queue a = []"
    using rel_unlocked_iff rel_free assms(1,3) by auto
  have "mutex_rel (goto i Holding (s\<lparr>state := Locked Null\<rparr>)) (a\<lparr>holder := Some i\<rparr>)"
    using free relD [OF assms(1)]
    by (intro rel_heldI [of _ i _ Null "[]" "[]"]) (auto split: if_splits)
  with free show ?thesis by simp
qed

lemma rel_enqueue:
  assumes "mutex_rel s a" "pcs s i = AsyncPush p" "state s = Locked p"
  shows "\<exists>b. fifo_step a (Enqueue i) b \<and> mutex_rel (goto i Suspended (s\<lparr>state := Locked (Awaiter i)\<rparr>)) b"
proof -
  have i: "holder a \<noteq> Some i" "i \<notin> set (queue a)" "next_ptr s i = p"
    using relD(1-3) [OF assms(1), of i] assms(2) by auto
  obtain k where k: "holder a = Some k" using rel_unlocked_iff [OF assms(1)] assms(3) by auto
  with assms(1) obtain r q stack where r: "state s = Locked r" "chain (next_ptr s) r stack"
    "front s (pcs s k) q" "queue a = q @ rev stack" by (rule rel_held)
  have "mutex_rel (goto i Suspended (s\<lparr>state := Locked (Awaiter i)\<rparr>)) (a\<lparr>queue := queue a @ [i]\<rparr>)"
    using i k r assms(3) relD [OF assms(1)]
    by (intro rel_heldI [of _ k _ "Awaiter i" "i # stack" q]) (auto simp: front_push split: if_splits)
  with i k show ?thesis by simp
qed

lemma rel_release:
  assumes "mutex_rel s a" "pcs s i = UnlockCas" "state s = Locked Null"
  shows "\<exists>b. fifo_step a (Release i) b \<and> mutex_rel (goto i Outside (s\<lparr>state := Unlocked\<rparr>)) b"
proof -
  have i: "holder a = Some i" using relD(1) [OF assms(1), of i] assms(2) by simp
  with assms(1) obtain r q stack where r: "state s = Locked r" "chain (next_ptr s) r stack"
    "front s (pcs s i) q" "queue a = q @ rev stack" by (rule rel_held)
  then have e: "queue a = []" "waiters s = Null" using assms by auto
  have "mutex_rel (goto i Outside (s\<lparr>state := Unlocked\<rparr>)) (a\<lparr>holder := None\<rparr>)"
    using i e relD [OF assms(1)] by (auto simp: mutex_rel_def split: if_splits)
  with i e show ?thesis by simp
qed

lemma rel_grant:
  assumes "mutex_rel s a" "pcs s i = Handover (Awaiter h)" "owns g"
    "front (s\<lparr>waiters := next_ptr s h\<rparr>) g = (\<lambda>q. chain (next_ptr s) (next_ptr s h) q)"
  shows "\<exists>b. fifo_step a (Grant i h) b \<and>
    mutex_rel (goto h g (goto i Outside (s\<lparr>waiters := next_ptr s h\<rparr>))) b"
proof -
  have i: "holder a = Some i" using relD(1) [OF assms(1), of i] assms(2) by simp
  with assms(1) obtain r q stack where r: "state s = Locked r" "chain (next_ptr s) r stack"
    "front s (pcs s i) q" "queue a = q @ rev stack" by (rule rel_held)
  then obtain q' where q': "q = h # q'" "chain (next_ptr s) (next_ptr s h) q'"
    using assms(2) by (auto simp: chain_awaiter)
  have h: "pcs s h = Suspended" "h \<notin> set q' \<union> set stack"
    using relD(2,4) [OF assms(1)] r(4) q'(1) by auto
  then have "h \<noteq> i" using assms(2) by auto
  moreover have "i \<notin> set (queue a)" using relD(2) [OF assms(1), of i] assms(2) by simp
  ultimately have "mutex_rel (goto h g (goto i Outside (s\<lparr>waiters := next_ptr s h\<rparr>)))
      (a\<lparr>holder := Some h, queue := q' @ rev stack\<rparr>)"
    using i r q' h assms(2-) relD [OF assms(1)]
    by (intro rel_heldI [of _ h _ r stack q']) (auto split: if_splits)
  with i r(4) q'(1) show ?thesis by simp
qed

text \<open>The steps of \<open>unlock\<close> before the lock is passed on.\<close>

lemma rel_unlock_local:
  assumes "mutex_rel s a" "pcs s i = p" "owns p" "owns p'"
    "\<And>r q. state s = Locked r \<Longrightarrow> front s p q \<Longrightarrow> front s p' q"
  shows "mutex_rel (goto i p' s) a"
proof -
  have i: "holder a = Some i" using relD(1) [OF assms(1), of i] assms(2,3) by simp
  with assms(1) obtain r q stack where r: "state s = Locked r" "chain (next_ptr s) r stack"
    "front s (pcs s i) q" "queue a = q @ rev stack" by (rule rel_held)
  with assms i show ?thesis by (intro rel_owner [OF assms(1), of i p' q stack _ r]) auto
qed

lemma rel_exchange:
  assumes "mutex_rel s a" "pcs s i = UnlockExchange" "state s = Locked (Awaiter w)"
  shows "mutex_rel (goto i (Reversing (Awaiter w) Null) (s\<lparr>state := Locked Null\<rparr>)) a"
proof -
  have i: "holder a = Some i" using relD(1) [OF assms(1), of i] assms(2) by simp
  with assms(1) obtain r q stack where r: "state s = Locked r" "chain (next_ptr s) r stack"
    "front s (pcs s i) q" "queue a = q @ rev stack" by (rule rel_held)
  with assms i show ?thesis
    by (intro rel_owner [OF assms(1), of i "Reversing (Awaiter w) Null" "rev stack" "[]" _ Null]) auto
qed

lemma rel_reverse:
  assumes "mutex_rel s a" "pcs s i = Reversing (Awaiter w) h"
  shows "mutex_rel (goto i (case next_ptr s w of Null \<Rightarrow> Handover (Awaiter w)
      | Awaiter v \<Rightarrow> Reversing (Awaiter v) (Awaiter w)) (s\<lparr>next_ptr := (next_ptr s)(w := h)\<rparr>)) a"
    (is "mutex_rel (goto i ?p ?s) a")
proof -
  have i: "holder a = Some i" using relD(1) [OF assms(1), of i] assms(2) by simp
  with assms(1) obtain r q stack where r: "state s = Locked r" "chain (next_ptr s) r stack"
    "front s (pcs s i) q" "queue a = q @ rev stack" by (rule rel_held)
  then obtain xs ys where q: "q = rev xs @ w # ys" "chain (next_ptr s) (next_ptr s w) xs"
    "chain (next_ptr s) h ys" "waiters s = Null" using assms(2) by (auto simp: chain_awaiter)
  have w: "w \<notin> set xs" "w \<notin> set ys" "w \<notin> set stack"
    using relD(4) [OF assms(1)] r(4) q(1) by auto
  have "front ?s ?p q"
  proof (cases "next_ptr s w")
    case Null
    then show ?thesis using q w by simp
  next
    case (Awaiter v)
    then have "chain ((next_ptr s)(w := h)) (Awaiter v) xs" "chain ((next_ptr s)(w := h)) (Awaiter w) (w # ys)"
      using q w by auto
    then show ?thesis using Awaiter q(1,4) by auto
  qed
  then show ?thesis using assms(1) i r q(1) w
    by (intro rel_owner [OF assms(1), of i ?p q stack _ r]) (auto split: awaiter_ptr.split)
qed

text \<open>The holder is the only one past the load of \<open>unlock\<close>, so the stack can only grow there.\<close>

lemma exchange_not_null:
  assumes "mutex_rel s a" "owns (pcs s i)" "state s \<noteq> Locked Null" obtains w where "state s = Locked (Awaiter w)"
proof -
  have "holder a \<noteq> None" using relD(1) [OF assms(1), of i] assms(2) by simp
  then have "state s \<noteq> Unlocked" using rel_unlocked_iff [OF assms(1)] by simp
  with assms(3) show thesis by (metis that awaiter_ptr.exhaust mutex_word.exhaust)
qed

lemma mutex_step_simulated:
  assumes "mutex_step s l t" "mutex_rel s a"
  shows "case sees l of None \<Rightarrow> mutex_rel t a | Some m \<Rightarrow> \<exists>b. fifo_step a m b \<and> mutex_rel t b"
  using assms
proof (induction rule: mutex_step.induct)
  case (try_lock_ok s i)
  then show ?case using rel_acquire [of s a i] by simp
next
  case (await_not_ready s i)
  then show ?case by (simp add: rel_local_goto)
next
  case (async_load s i)
  then show ?case by (simp add: rel_local_goto)
next
  case (async_lock_ok s i)
  then show ?case using rel_acquire [of s a i] by simp
next
  case (async_lock_fails s i)
  then show ?case by (simp add: rel_local_goto)
next
  case (async_link s i p)
  then show ?case using rel_local [of s a i "AsyncPush p" p] by simp
next
  case (async_push_ok s i p)
  then show ?case using rel_enqueue [of s a i p] by simp
next
  case (async_push_fails s i p)
  then show ?case by (simp add: rel_local_goto)
next
  case (unlock_load_other s i)
  then show ?case by (auto intro: rel_unlock_local)
next
  case (unlock_cas_ok s i)
  then show ?case using rel_release [of s a i] by simp
next
  case (unlock_exchange s i w)
  then show ?case by (simp add: rel_exchange)
next
  case (unlock_reverse s i w h)
  then show ?case by (simp add: rel_reverse)
next
  case (unlock_handover s i h)
  then show ?case
    using rel_grant [of s a i h "if has_sched s h then Scheduled else Holding"] by (simp add: fun_eq_iff)
qed (auto intro: rel_unlock_local)

interpretation fifo: observed_simulation mutex_step fifo_step sees mutex_rel
  by unfold_locales (rule mutex_step_simulated)

section \<open>A waiter is served\<close>

lemma rel_init: "mutex_rel (mutex_init sch) fifo_init"
  by (simp add: mutex_rel_def mutex_init_def fifo_init_def)

lemma rel_after_local: "mutex_rel s a \<Longrightarrow> mutex_step s (Local i) t \<Longrightarrow> mutex_rel t a"
  using mutex_step_simulated by fastforce

text \<open>Some continuation hands the lock to the oldest waiter.\<close>

definition serves :: "mutex \<Rightarrow> fifo_lock \<Rightarrow> bool" where
  "serves s a \<longleftrightarrow> (\<exists>ms t b. run mutex_step s ms t \<and> mutex_rel t b \<and>
     queue b = tl (queue a) \<and> pcs t (hd (queue a)) = Holding)"

lemma serves_local:
  assumes "mutex_rel s a" "mutex_step s (Local i) t" "mutex_rel t a \<Longrightarrow> serves t a"
  shows "serves s a"
proof -
  have "serves t a" using assms rel_after_local by blast
  then show ?thesis using assms(2) unfolding serves_def by (meson run_cons)
qed

lemma serves_handover:
  assumes "mutex_rel s a" "pcs s i = Handover p"
  shows "serves s a"
proof -
  have i: "holder a = Some i" using relD(1) [OF assms(1), of i] assms(2) by simp
  with assms(1) obtain r q stack where "front s (pcs s i) q" by (rule rel_held)
  then obtain h where p: "p = Awaiter h" using assms(2) by (cases p) auto
  define t where "t = goto h (if has_sched s h then Scheduled else Holding) (goto i Outside (s\<lparr>waiters := next_ptr s h\<rparr>))"
  then have t: "mutex_step s (Grant i h) t" "pcs t h = Scheduled \<or> pcs t h = Holding"
    using mutex_step.unlock_handover [of s i h] assms(2) p by simp_all
  then obtain b where b: "mutex_rel t b" "h = hd (queue a)" "queue b = tl (queue a)"
    using mutex_step_simulated [OF t(1) assms(1)] by auto
  have r: "run mutex_step s [Grant i h] t" using t(1) by simp
  show ?thesis
  proof (cases "pcs t h = Holding")
    case True
    then show ?thesis using r b unfolding serves_def by blast
  next
    case False
    then have "mutex_step t (Local h) (goto h Holding t)" using t(2) mutex_step.resume by blast
    then have "run mutex_step s ([Grant i h] @ [Local h]) (goto h Holding t)" "mutex_rel (goto h Holding t) b"
      using run_snoc [OF r] rel_after_local [OF b(1)] by blast+
    then show ?thesis using b(2,3) unfolding serves_def by fastforce
  qed
qed

lemma serves_reversing:
  "chain (next_ptr s) w xs \<Longrightarrow> mutex_rel s a \<Longrightarrow> pcs s i = Reversing w h \<Longrightarrow> serves s a"
proof (induction xs arbitrary: s w h)
  case Nil
  have i: "holder a = Some i" using relD(1) [OF Nil.prems(2), of i] Nil.prems(3) by simp
  with Nil.prems(2) obtain r q stack where "front s (pcs s i) q" by (rule rel_held)
  with Nil.prems show ?case by simp
next
  case (Cons x xs)
  have i: "holder a = Some i" using relD(1) [OF Cons.prems(2), of i] Cons.prems(3) by simp
  with Cons.prems(2) obtain r q stack where q: "front s (pcs s i) q" "queue a = q @ rev stack"
    by (rule rel_held)
  then obtain ys zs where ys: "chain (next_ptr s) w ys" "q = rev ys @ zs" using Cons.prems(3) by auto
  then have "ys = x # xs" using chain_unique [OF Cons.prems(1)] by simp
  then have x: "x \<notin> set xs" using relD(4) [OF Cons.prems(2)] q(2) ys(2) by auto
  note step = mutex_step.unlock_reverse [of s i x h]
  show ?case
  proof (rule serves_local [OF Cons.prems(2) step])
    show "pcs s i = Reversing (Awaiter x) h" using Cons.prems by simp
    let ?p = "case next_ptr s x of Null \<Rightarrow> Handover (Awaiter x) | Awaiter v \<Rightarrow> Reversing (Awaiter v) (Awaiter x)"
    let ?t = "goto i ?p (s\<lparr>next_ptr := (next_ptr s)(x := h)\<rparr>)"
    assume t: "mutex_rel ?t a"
    show "serves ?t a"
    proof (cases "next_ptr s x")
      case Null
      then show ?thesis using serves_handover [OF t, of i] by simp
    next
      case (Awaiter v)
      have "chain (next_ptr ?t) (Awaiter v) xs" using Cons.prems(1) x Awaiter by simp
      then show ?thesis by (rule Cons.IH [OF _ t]) (simp add: Awaiter)
    qed
  qed
qed

lemma serves_exchange:
  assumes "mutex_rel s a" "pcs s i = UnlockExchange"
  shows "serves s a"
proof -
  have i: "holder a = Some i" using relD(1) [OF assms(1), of i] assms(2) by simp
  with assms(1) obtain r q stack where r: "state s = Locked r" "chain (next_ptr s) r stack"
    "front s (pcs s i) q" by (rule rel_held)
  then obtain w where w: "state s = Locked (Awaiter w)" using assms(2) by (cases r) auto
  show ?thesis
  proof (rule serves_local [OF assms(1) mutex_step.unlock_exchange [OF assms(2) w]])
    let ?t = "goto i (Reversing (Awaiter w) Null) (s\<lparr>state := Locked Null\<rparr>)"
    assume "mutex_rel ?t a"
    then show "serves ?t a" using serves_reversing [of ?t "Awaiter w" stack a i Null] r w by simp
  qed
qed

text \<open>With an empty \<open>waiters\<close> list the queue is the stack of \<open>state\<close>.\<close>

lemma serves_unlock_load:
  assumes "mutex_rel s a" "pcs s i = UnlockLoad \<or> pcs s i = UnlockCas" "queue a \<noteq> []"
  shows "serves s a"
proof -
  have i: "holder a = Some i" using relD(1) [OF assms(1), of i] assms(2) by auto
  with assms(1) obtain r q stack where r: "state s = Locked r" "chain (next_ptr s) r stack"
    "front s (pcs s i) q" "queue a = q @ rev stack" by (rule rel_held)
  then have "state s \<noteq> Locked Null" using assms(2,3) by auto
  then have step: "mutex_step s (Local i) (goto i UnlockExchange s)"
    using assms(2) mutex_step.unlock_load_other mutex_step.unlock_cas_fails by blast
  show ?thesis by (rule serves_local [OF assms(1) step]) (rule serves_exchange [of _ a i], simp_all)
qed

lemma serves_holding:
  assumes "mutex_rel s a" "pcs s i = Holding" "queue a \<noteq> []"
  shows "serves s a"
proof (cases "waiters s")
  case Null
  show ?thesis
    by (rule serves_local [OF assms(1) mutex_step.unlock_no_waiters [OF assms(2) Null]])
       (rule serves_unlock_load [of _ a i], use assms(3) in simp_all)
next
  case (Awaiter h)
  show ?thesis
    by (rule serves_local [OF assms(1) mutex_step.unlock_waiters [OF assms(2) Awaiter]])
       (rule serves_handover [of _ a i], simp_all)
qed

lemma oldest_is_served:
  assumes "mutex_rel s a" "queue a \<noteq> []"
  shows "serves s a"
proof -
  obtain i where i: "holder a = Some i" using rel_free [OF assms(1)] assms(2) by (cases "holder a") auto
  then have "owns (pcs s i)" using relD(1) [OF assms(1)] by simp
  then show ?thesis
  proof (cases "pcs s i")
    case Scheduled
    show ?thesis
      by (rule serves_local [OF assms(1) mutex_step.resume [OF Scheduled]])
         (rule serves_holding [of _ a i], use assms(2) in simp_all)
  next
    case (Reversing w h)
    from assms(1) i obtain p q stack where "front s (pcs s i) q" by (rule rel_held)
    then obtain xs where "chain (next_ptr s) w xs" using Reversing by auto
    then show ?thesis using assms(1) Reversing by (rule serves_reversing)
  qed (use assms serves_holding serves_unlock_load [OF assms(1) _ assms(2), of i] serves_exchange serves_handover in auto)
qed

lemma every_waiter_is_served:
  assumes "mutex_rel s a" "queue a = xs @ w # ys"
  shows "\<exists>ms t b. run mutex_step s ms t \<and> mutex_rel t b \<and> queue b = ys \<and> pcs t w = Holding"
  using assms
proof (induction xs arbitrary: s a)
  case Nil
  then show ?case using oldest_is_served [of s a] by (auto simp: serves_def)
next
  case (Cons x xs)
  then obtain ms t b where t: "run mutex_step s ms t" "mutex_rel t b" "queue b = xs @ w # ys"
    using oldest_is_served [of s a] by (auto simp: serves_def)
  then show ?case using Cons.IH [OF t(2,3)] run_trans [of mutex_step s ms t] by blast
qed

section \<open>The properties of the mutex\<close>

lemma reachable_rel:
  assumes "run mutex_step (mutex_init sch) ls s"
  obtains a where "run fifo_step fifo_init (List.map_filter sees ls) a" "mutex_rel s a"
  using fifo.run_simulated [OF assms rel_init] by blast

lemma fifo_order:
  "run fifo_step a (List.map_filter sees ls) b \<Longrightarrow> queue a @ enqueued ls = granted ls @ queue b"
proof (induction ls arbitrary: a)
  case Nil
  then show ?case by (simp add: map_filter_simps)
next
  case (Cons l ls)
  then show ?case by (cases l) (fastforce simp: map_filter_simps)+
qed

text \<open>What the assertions of \<open>unlock\<close> and its pointer accesses need holds for the holder.\<close>

lemma owner_has_step:
  assumes "mutex_rel s a" "owns (pcs s i)" "pcs s i \<noteq> Holding"
  shows "\<exists>l t. mutex_step s l t \<and> actor l = i"
proof -
  have i: "holder a = Some i" using relD(1) [OF assms(1)] assms(2) by simp
  with assms(1) obtain r q stack where r: "state s = Locked r" "front s (pcs s i) q" by (rule rel_held)
  show ?thesis
  proof (cases "pcs s i")
    case UnlockExchange
    then obtain w where "state s = Locked (Awaiter w)" using r by (cases r) auto
    then show ?thesis using mutex_step.unlock_exchange [OF UnlockExchange] by fastforce
  next
    case (Reversing w h)
    then obtain x where "w = Awaiter x" using r(2) by (cases w) auto
    then show ?thesis using mutex_step.unlock_reverse [of s i x h] Reversing by fastforce
  next
    case (Handover h)
    then obtain x where "h = Awaiter x" using r(2) by (cases h) auto
    then show ?thesis using mutex_step.unlock_handover [of s i x] Handover by fastforce
  next
    case Scheduled
    then show ?thesis using mutex_step.resume by fastforce
  next
    case UnlockLoad
    then show ?thesis using mutex_step.unlock_load_null mutex_step.unlock_load_other by (metis actor.simps(5))
  next
    case UnlockCas
    then show ?thesis
      using mutex_step.unlock_cas_ok mutex_step.unlock_cas_fails by (metis actor.simps(4,5))
  qed (use assms in auto)
qed

lemma locker_has_step:
  assumes "\<not> owns (pcs s i)" "pcs s i \<notin> {Outside, Suspended}"
  shows "\<exists>l t. mutex_step s l t \<and> actor l = i"
proof (cases "pcs s i")
  case AsyncLoad
  then show ?thesis using mutex_step.async_load by fastforce
next
  case (AsyncTest w)
  then show ?thesis
    using mutex_step.async_lock_fails mutex_step.async_link by (cases w) (metis actor.simps(5))+
next
  case (AsyncPush p)
  then show ?thesis using mutex_step.async_push_fails by (metis actor.simps(5))
qed (use assms in auto)

text \<open>
  C2. The mutex is a first-in first-out lock. In every state that any interleaving of the atomic
  steps of any number of coroutines can reach, the steps that change who holds or waits are steps
  of the abstract lock with one holder and one queue; the coroutines inside the critical section
  (or inside unlock, or scheduled by a handover) are exactly the one holder, and the suspended ones
  are exactly those in the queue.
\<close>

theorem mutex_refines_fifo_lock:
  assumes "run mutex_step (mutex_init sch) ls s"
  shows "\<exists>a. run fifo_step fifo_init (List.map_filter sees ls) a \<and>
    (\<forall>i. owns (pcs s i) \<longleftrightarrow> holder a = Some i) \<and> (\<forall>i. pcs s i = Suspended \<longleftrightarrow> i \<in> set (queue a))"
proof -
  obtain a where "run fifo_step fifo_init (List.map_filter sees ls) a" "mutex_rel s a"
    using reachable_rel [OF assms] by blast
  with relD(1,2) show ?thesis by blast
qed

text \<open>The two coroutines 0 and 1: the first holds the lock, the second has queued up.\<close>

lemma sample_run:
  "\<exists>s. run mutex_step (mutex_init (\<lambda>_. True)) [Acquire 0, Local 1, Local 1, Local 1, Enqueue 1] s \<and>
     pcs s 0 = Holding \<and> pcs s 1 = Suspended"
proof -
  let ?s0 = "mutex_init (\<lambda>_. True)"
  let ?s1 = "goto 0 Holding (?s0\<lparr>state := Locked Null\<rparr>)"
  let ?s2 = "goto 1 AsyncLoad ?s1"
  let ?s3 = "goto 1 (AsyncTest (state ?s2)) ?s2"
  let ?s4 = "goto 1 (AsyncPush Null) (?s3\<lparr>next_ptr := (next_ptr ?s3)(1 := Null)\<rparr>)"
  let ?s5 = "goto 1 Suspended (?s4\<lparr>state := Locked (Awaiter 1)\<rparr>)"
  have "mutex_step ?s0 (Acquire 0) ?s1" by (rule try_lock_ok) (simp_all add: mutex_init_def)
  moreover have "mutex_step ?s1 (Local 1) ?s2" by (rule await_not_ready) (simp_all add: mutex_init_def)
  moreover have "mutex_step ?s2 (Local 1) ?s3" by (rule async_load) simp
  moreover have "mutex_step ?s3 (Local 1) ?s4" by (rule async_link) simp
  moreover have "mutex_step ?s4 (Enqueue 1) ?s5" by (rule async_push_ok) simp_all
  ultimately have "run mutex_step ?s0 [Acquire 0, Local 1, Local 1, Local 1, Enqueue 1] ?s5"
    unfolding run_cons_iff run_nil_iff by blast
  then show ?thesis by (intro exI [of _ ?s5]) simp
qed

theorem mutex_refines_fifo_lock_witness:
  "\<exists>s a. run mutex_step (mutex_init (\<lambda>_. True)) [Acquire 0, Local 1, Local 1, Local 1, Enqueue 1] s \<and>
     run fifo_step fifo_init (List.map_filter sees [Acquire 0, Local 1, Local 1, Local 1, Enqueue 1]) a \<and>
     holder a = Some 0 \<and> 1 \<in> set (queue a)"
proof -
  obtain s where s: "run mutex_step (mutex_init (\<lambda>_. True)) [Acquire 0, Local 1, Local 1, Local 1, Enqueue 1] s"
    "pcs s 0 = Holding" "pcs s 1 = Suspended" using sample_run by blast
  obtain a where "run fifo_step fifo_init (List.map_filter sees [Acquire 0, Local 1, Local 1, Local 1, Enqueue 1]) a"
    "\<forall>i. owns (pcs s i) \<longleftrightarrow> holder a = Some i" "\<forall>i. pcs s i = Suspended \<longleftrightarrow> i \<in> set (queue a)"
    using mutex_refines_fifo_lock [OF s(1)] by blast
  with s show ?thesis by (metis owns.simps(7))
qed

text \<open>
  First come, first served: in every run, the coroutines that queued up are, in order, those
  the lock was handed to followed by the ones that are suspended now; no waiter is lost, served
  twice or overtaken by another waiter.
\<close>

theorem mutex_serves_in_order:
  assumes "run mutex_step (mutex_init sch) ls s"
  shows "\<exists>q. enqueued ls = granted ls @ q \<and> distinct q \<and> set q = {i. pcs s i = Suspended}"
proof -
  obtain a where a: "run fifo_step fifo_init (List.map_filter sees ls) a" "mutex_rel s a"
    using reachable_rel [OF assms] by blast
  show ?thesis
    using fifo_order [OF a(1)] relD(2,4) [OF a(2)] by (auto simp: fifo_init_def)
qed

theorem mutex_serves_in_order_witness:
  "\<exists>s q. run mutex_step (mutex_init (\<lambda>_. True)) [Acquire 0, Local 1, Local 1, Local 1, Enqueue 1] s \<and>
     set q = {i. pcs s i = Suspended} \<and> q = [1]"
proof -
  obtain s where s: "run mutex_step (mutex_init (\<lambda>_. True)) [Acquire 0, Local 1, Local 1, Local 1, Enqueue 1] s"
    using sample_run by blast
  obtain q where "enqueued [Acquire 0, Local 1, Local 1, Local 1, Enqueue 1] =
      granted [Acquire 0, Local 1, Local 1, Local 1, Enqueue 1] @ q" "set q = {i. pcs s i = Suspended}"
    using mutex_serves_in_order [OF s] by blast
  then have "set q = {i. pcs s i = Suspended}" "q = [1]" by simp_all
  then show ?thesis using s by (intro exI [of _ s] exI [of _ q] conjI)
qed

text \<open>
  C26. No wakeup is lost: from every reachable state in which a coroutine is suspended, whatever
  the others are doing, there is a continuation in which it is resumed with the lock. In
  particular the pushes that race with unlock are never missed by it.
\<close>

theorem mutex_no_lost_wakeup:
  assumes "run mutex_step (mutex_init sch) ls s" "pcs s w = Suspended"
  shows "\<exists>ms t. run mutex_step s ms t \<and> pcs t w = Holding"
proof -
  obtain a where a: "mutex_rel s a" using reachable_rel [OF assms(1)] by blast
  then obtain xs ys where "queue a = xs @ w # ys" using relD(2) assms(2) by (metis split_list)
  then show ?thesis using every_waiter_is_served [OF a] by blast
qed

theorem mutex_no_lost_wakeup_witness:
  "\<exists>s ms t. run mutex_step (mutex_init (\<lambda>_. True)) [Acquire 0, Local 1, Local 1, Local 1, Enqueue 1] s \<and>
     pcs s 1 = Suspended \<and> run mutex_step s ms t \<and> pcs t 1 = Holding"
  using sample_run mutex_no_lost_wakeup [of "\<lambda>_. True" "[Acquire 0, Local 1, Local 1, Local 1, Enqueue 1]" _ 1]
  by blast

text \<open>
  C33. The assertions of unlock hold and no operation gets stuck: in every reachable state each
  coroutine inside an operation (neither outside, suspended nor holding) has a next step. In
  particular unlock finds the mutex locked, the exchanged pointer is an awaiter, neither null nor
  the mutex itself, and the list it hands over from is not empty.
\<close>

theorem mutex_never_stuck:
  assumes "run mutex_step (mutex_init sch) ls s" "pcs s i \<notin> {Outside, Suspended, Holding}"
  shows "\<exists>l t. mutex_step s l t \<and> actor l = i"
proof -
  obtain a where a: "mutex_rel s a" using reachable_rel [OF assms(1)] by blast
  show ?thesis
  proof (cases "owns (pcs s i)")
    case True
    then show ?thesis using owner_has_step [OF a] assms(2) by blast
  next
    case False
    then show ?thesis using locker_has_step assms(2) by blast
  qed
qed

theorem mutex_never_stuck_witness:
  "\<exists>s l t. run mutex_step (mutex_init (\<lambda>_. True)) [Acquire 0, Local 0] s \<and> pcs s 0 = UnlockLoad \<and>
     mutex_step s l t \<and> actor l = 0"
proof -
  let ?s0 = "mutex_init (\<lambda>_. True)"
  let ?s1 = "goto 0 Holding (?s0\<lparr>state := Locked Null\<rparr>)"
  let ?s2 = "goto 0 UnlockLoad ?s1"
  have "mutex_step ?s0 (Acquire 0) ?s1" by (rule try_lock_ok) (simp_all add: mutex_init_def)
  moreover have "mutex_step ?s1 (Local 0) ?s2" by (rule unlock_no_waiters) (simp_all add: mutex_init_def)
  ultimately have r: "run mutex_step ?s0 [Acquire 0, Local 0] ?s2"
    unfolding run_cons_iff run_nil_iff by blast
  have "pcs ?s2 0 = UnlockLoad" by simp
  then show ?thesis using r mutex_never_stuck [OF r, of 0] by fastforce
qed

end
