(* ===== verification/Coro_Future.thy ===== *)
theory Coro_Future
  imports Runs
begin

text \<open>
  The promise and future of \<^verbatim>\<open>src/include/nitrocoro/core/Future.h\<close> and the one-shot list of
  \<^verbatim>\<open>src/include/nitrocoro/core/LockFreeList.h\<close> on which they rest. A shared state holds the list of
  suspended awaiters, or the mark that it is closed, and the result. Awaiting coroutines (of one
  future or of many copies of a shared future) and threads that satisfy the promise run
  concurrently; each access to the head of the list is one atomic step, atomics are sequentially
  consistent, and the plain fields are written where the code writes them.
\<close>

section \<open>The one-shot list\<close>

datatype list_head = Closed | Open awaiter_ptr

definition closed :: "list_head \<Rightarrow> bool" where
  "closed h \<longleftrightarrow> h = Closed"

text \<open>\<open>close\<close> exchanges the head for the mark and returns the old head.\<close>

definition close :: "list_head \<Rightarrow> list_head \<times> list_head" where
  "close h = (h, Closed)"

text \<open>
  Where a coroutine is that awaits: before \<open>await_ready\<close>, at the load of \<open>push\<close>, at the test of
  the loaded head, at its compare-exchange, suspended, scheduled by the promise, at \<open>await_resume\<close>,
  or past it with what it read: nothing when the optional was empty.
\<close>

datatype 'r awaiter_pc =
    Fresh
  | PushLoad
  | PushTest list_head
  | PushCas awaiter_ptr
  | Suspended
  | Scheduled
  | AtResume
  | Got "'r option"

section \<open>The shared state\<close>

text \<open>
  A result is a value or an exception. A thread that satisfies the promise is idle, past \<open>close\<close>
  with the list in its hands, waking the awaiters, finished, or has got the error
  \<open>promise_already_satisfied\<close>.
\<close>

datatype 'v outcome = Value 'v | Exception string

datatype 'r setter_pc =
    Idle
  | Emplacing 'r awaiter_ptr
  | Waking awaiter_ptr
  | Finished
  | Already_satisfied

record 'v future_state =
  waiters :: list_head
  result :: "'v outcome option"
  next_ptr :: "coro \<Rightarrow> awaiter_ptr"
  awaiting :: "coro \<Rightarrow> 'v outcome awaiter_pc"
  setting :: "nat \<Rightarrow> 'v outcome setter_pc"

definition future_init :: "'v future_state" where
  "future_init = \<lparr>waiters = Open Null, result = None, next_ptr = (\<lambda>_. Null), awaiting = (\<lambda>_. Fresh),
     setting = (\<lambda>_. Idle)\<rparr>"

definition awaiter_at :: "coro \<Rightarrow> 'v outcome awaiter_pc \<Rightarrow> 'v future_state \<Rightarrow> 'v future_state" where
  "awaiter_at i p s = s\<lparr>awaiting := (awaiting s)(i := p)\<rparr>"

definition setter_at :: "nat \<Rightarrow> 'v outcome setter_pc \<Rightarrow> 'v future_state \<Rightarrow> 'v future_state" where
  "setter_at t p s = s\<lparr>setting := (setting s)(t := p)\<rparr>"

text \<open>
  The handles: \<open>get\<close> may be called once on a future, \<open>get_future\<close> once on a promise, and neither on
  a handle that was moved from. The argument says whether the handle has its state.
\<close>

datatype future_error = No_state | Future_already_retrieved

definition future_get :: "bool \<Rightarrow> future_error + bool" where
  "future_get has_state = (if \<not> has_state then Inl No_state else Inr False)"

definition get_future :: "bool \<Rightarrow> bool \<Rightarrow> future_error + bool" where
  "get_future has_state retrieved =
     (if \<not> has_state then Inl No_state else if retrieved then Inl Future_already_retrieved else Inr True)"

text \<open>The end of a promise that was not satisfied.\<close>

definition broken_promise :: "'v outcome" where
  "broken_promise = Exception ''broken_promise''"

text \<open>Labels: the awaiter or setter that moves, and the events that matter to the outside.\<close>

datatype 'v future_event =
    Await coro
  | Suspend coro
  | Wake nat coro
  | Read coro "'v outcome option"
  | Satisfy nat "'v outcome"
  | Reject nat
  | Set_step nat

text \<open>The steps of an awaiting coroutine: \<open>await_ready\<close>, \<open>await_suspend\<close> and \<open>await_resume\<close>.\<close>

inductive awaiter_step :: "'v future_state \<Rightarrow> 'v future_event \<Rightarrow> 'v future_state \<Rightarrow> bool" where
  \<comment> \<open>\<open>await_ready\<close>\<close>
  ready: "awaiting s i = Fresh \<Longrightarrow> closed (waiters s) \<Longrightarrow> awaiter_step s (Await i) (awaiter_at i AtResume s)"
| not_ready: "awaiting s i = Fresh \<Longrightarrow> \<not> closed (waiters s) \<Longrightarrow>
    awaiter_step s (Await i) (awaiter_at i PushLoad s)"
  \<comment> \<open>\<open>await_suspend\<close> is \<open>push\<close>; a refused push resumes at once\<close>
| push_load: "awaiting s i = PushLoad \<Longrightarrow> awaiter_step s (Await i) (awaiter_at i (PushTest (waiters s)) s)"
| push_closed: "awaiting s i = PushTest Closed \<Longrightarrow> awaiter_step s (Await i) (awaiter_at i AtResume s)"
| push_link: "awaiting s i = PushTest (Open p) \<Longrightarrow>
    awaiter_step s (Await i) (awaiter_at i (PushCas p) (s\<lparr>next_ptr := (next_ptr s)(i := p)\<rparr>))"
| push_ok: "awaiting s i = PushCas p \<Longrightarrow> waiters s = Open p \<Longrightarrow>
    awaiter_step s (Suspend i) (awaiter_at i Suspended (s\<lparr>waiters := Open (Awaiter i)\<rparr>))"
| push_fails: "awaiting s i = PushCas p \<Longrightarrow> awaiter_step s (Await i) (awaiter_at i (PushTest (waiters s)) s)"
| resume: "awaiting s i = Scheduled \<Longrightarrow> awaiter_step s (Await i) (awaiter_at i AtResume s)"
  \<comment> \<open>\<open>await_resume\<close>\<close>
| await_resume: "awaiting s i = AtResume \<Longrightarrow>
    awaiter_step s (Read i (result s)) (awaiter_at i (Got (result s)) s)"

text \<open>The steps of a thread that satisfies or destroys the promise.\<close>

inductive setter_step :: "'v future_state \<Rightarrow> 'v future_event \<Rightarrow> 'v future_state \<Rightarrow> bool" where
  \<comment> \<open>\<open>set_value\<close> and \<open>set_exception\<close>; the destructor sets \<open>broken_promise\<close>\<close>
  set_close: "setting s t = Idle \<Longrightarrow> close (waiters s) = (Open p, h) \<Longrightarrow>
    setter_step s (Satisfy t r) (setter_at t (Emplacing r p) (s\<lparr>waiters := h\<rparr>))"
| set_again: "setting s t = Idle \<Longrightarrow> close (waiters s) = (Closed, h) \<Longrightarrow>
    setter_step s (Reject t) (setter_at t Already_satisfied (s\<lparr>waiters := h\<rparr>))"
| destroy: "setting s t = Idle \<Longrightarrow> \<not> closed (waiters s) \<Longrightarrow> close (waiters s) = (Open p, h) \<Longrightarrow>
    setter_step s (Satisfy t broken_promise) (setter_at t (Emplacing broken_promise p) (s\<lparr>waiters := h\<rparr>))"
| set_result: "setting s t = Emplacing r p \<Longrightarrow>
    setter_step s (Set_step t) (setter_at t (Waking p) (s\<lparr>result := Some r\<rparr>))"
  \<comment> \<open>\<open>resumeAll\<close>: the next pointer is read before the coroutine is handed to the scheduler\<close>
| wake_one: "setting s t = Waking (Awaiter n) \<Longrightarrow> awaiting s n = Suspended \<Longrightarrow>
    setter_step s (Wake t n) (setter_at t (Waking (next_ptr s n)) (awaiter_at n Scheduled s))"
| wake_done: "setting s t = Waking Null \<Longrightarrow> setter_step s (Set_step t) (setter_at t Finished s)"

definition future_step :: "'v future_state \<Rightarrow> 'v future_event \<Rightarrow> 'v future_state \<Rightarrow> bool" where
  "future_step s l u \<longleftrightarrow> awaiter_step s l u \<or> setter_step s l u"

lemma by_awaiter: "awaiter_step s l u \<Longrightarrow> future_step s l u"
  by (simp add: future_step_def)

lemma by_setter: "setter_step s l u \<Longrightarrow> future_step s l u"
  by (simp add: future_step_def)

lemmas ready = awaiter_step.ready [THEN by_awaiter]
lemmas not_ready = awaiter_step.not_ready [THEN by_awaiter]
lemmas push_load = awaiter_step.push_load [THEN by_awaiter]
lemmas push_closed = awaiter_step.push_closed [THEN by_awaiter]
lemmas push_link = awaiter_step.push_link [THEN by_awaiter]
lemmas push_ok = awaiter_step.push_ok [THEN by_awaiter]
lemmas push_fails = awaiter_step.push_fails [THEN by_awaiter]
lemmas resume = awaiter_step.resume [THEN by_awaiter]
lemmas await_resume = awaiter_step.await_resume [THEN by_awaiter]
lemmas set_close = setter_step.set_close [THEN by_setter]
lemmas set_again = setter_step.set_again [THEN by_setter]
lemmas destroy = setter_step.destroy [THEN by_setter]
lemmas set_result = setter_step.set_result [THEN by_setter]
lemmas wake_one = setter_step.wake_one [THEN by_setter]
lemmas wake_done = setter_step.wake_done [THEN by_setter]

lemma future_step_induct [consumes 1, case_names ready not_ready push_load push_closed push_link push_ok push_fails resume await_resume set_close set_again destroy set_result wake_one wake_done]:
  assumes "future_step s l u"
    and "\<And>s i. awaiting s i = Fresh \<Longrightarrow> closed (waiters s) \<Longrightarrow> P s (Await i) (awaiter_at i AtResume s)"
    and "\<And>s i. awaiting s i = Fresh \<Longrightarrow> \<not> closed (waiters s) \<Longrightarrow> P s (Await i) (awaiter_at i PushLoad s)"
    and "\<And>s i. awaiting s i = PushLoad \<Longrightarrow> P s (Await i) (awaiter_at i (PushTest (waiters s)) s)"
    and "\<And>s i. awaiting s i = PushTest Closed \<Longrightarrow> P s (Await i) (awaiter_at i AtResume s)"
    and "\<And>s i p. awaiting s i = PushTest (Open p) \<Longrightarrow> P s (Await i) (awaiter_at i (PushCas p) (s\<lparr>next_ptr := (next_ptr s)(i := p)\<rparr>))"
    and "\<And>s i p. awaiting s i = PushCas p \<Longrightarrow> waiters s = Open p \<Longrightarrow> P s (Suspend i) (awaiter_at i Suspended (s\<lparr>waiters := Open (Awaiter i)\<rparr>))"
    and "\<And>s i p. awaiting s i = PushCas p \<Longrightarrow> P s (Await i) (awaiter_at i (PushTest (waiters s)) s)"
    and "\<And>s i. awaiting s i = Scheduled \<Longrightarrow> P s (Await i) (awaiter_at i AtResume s)"
    and "\<And>s i. awaiting s i = AtResume \<Longrightarrow> P s (Read i (result s)) (awaiter_at i (Got (result s)) s)"
    and "\<And>s t p h r. setting s t = Idle \<Longrightarrow> close (waiters s) = (Open p, h) \<Longrightarrow> P s (Satisfy t r) (setter_at t (Emplacing r p) (s\<lparr>waiters := h\<rparr>))"
    and "\<And>s t h. setting s t = Idle \<Longrightarrow> close (waiters s) = (Closed, h) \<Longrightarrow> P s (Reject t) (setter_at t Already_satisfied (s\<lparr>waiters := h\<rparr>))"
    and "\<And>s t p h. setting s t = Idle \<Longrightarrow> \<not> closed (waiters s) \<Longrightarrow> close (waiters s) = (Open p, h) \<Longrightarrow> P s (Satisfy t broken_promise) (setter_at t (Emplacing broken_promise p) (s\<lparr>waiters := h\<rparr>))"
    and "\<And>s t r p. setting s t = Emplacing r p \<Longrightarrow> P s (Set_step t) (setter_at t (Waking p) (s\<lparr>result := Some r\<rparr>))"
    and "\<And>s t n. setting s t = Waking (Awaiter n) \<Longrightarrow> awaiting s n = Suspended \<Longrightarrow> P s (Wake t n) (setter_at t (Waking (next_ptr s n)) (awaiter_at n Scheduled s))"
    and "\<And>s t. setting s t = Waking Null \<Longrightarrow> P s (Set_step t) (setter_at t Finished s)"
  shows "P s l u"
  using assms(1) unfolding future_step_def
proof
  assume "awaiter_step s l u"
  then show ?thesis by (induction rule: awaiter_step.induct) (blast intro: assms(2-10))+
next
  assume "setter_step s l u"
  then show ?thesis by (induction rule: setter_step.induct) (blast intro: assms(11-16))+
qed

section \<open>The invariant\<close>

definition suspended :: "'v future_state \<Rightarrow> coro set" where
  "suspended s = {i. awaiting s i = Suspended}"

text \<open>The list from \<open>p\<close> holds every suspended awaiter once.\<close>

definition holds_all :: "'v future_state \<Rightarrow> awaiter_ptr \<Rightarrow> bool" where
  "holds_all s p \<longleftrightarrow> (\<exists>xs. chain (next_ptr s) p xs \<and> distinct xs \<and> set xs = suspended s)"

fun winner :: "'v future_state \<Rightarrow> 'v outcome setter_pc \<Rightarrow> bool" where
  "winner s (Emplacing r p) \<longleftrightarrow> result s = None \<and> holds_all s p"
| "winner s (Waking p) \<longleftrightarrow> result s \<noteq> None \<and> holds_all s p"
| "winner s Finished \<longleftrightarrow> result s \<noteq> None \<and> suspended s = {}"
| "winner s _ \<longleftrightarrow> False"

definition future_inv :: "'v future_state \<Rightarrow> bool" where
  "future_inv s \<longleftrightarrow>
     (\<forall>i p. awaiting s i = PushCas p \<longrightarrow> next_ptr s i = p) \<and>
     (\<forall>i. awaiting s i = Scheduled \<longrightarrow> result s \<noteq> None) \<and>
     (case waiters s of
        Open p \<Rightarrow> result s = None \<and> holds_all s p \<and> (\<forall>t. setting s t = Idle)
      | Closed \<Rightarrow> \<exists>t. winner s (setting s t) \<and> (\<forall>u. u \<noteq> t \<longrightarrow> setting s u = Idle \<or> setting s u = Already_satisfied))"

lemma at_sel [simp]:
  "waiters (awaiter_at i p s) = waiters s" "result (awaiter_at i p s) = result s"
  "next_ptr (awaiter_at i p s) = next_ptr s" "setting (awaiter_at i p s) = setting s"
  "awaiting (awaiter_at i p s) = (awaiting s)(i := p)"
  "waiters (setter_at t q s) = waiters s" "result (setter_at t q s) = result s"
  "next_ptr (setter_at t q s) = next_ptr s" "awaiting (setter_at t q s) = awaiting s"
  "setting (setter_at t q s) = (setting s)(t := q)"
  by (simp_all add: awaiter_at_def setter_at_def)

lemma winner_cong:
  "result t = result s \<Longrightarrow> suspended t = suspended s \<Longrightarrow> (\<And>p. holds_all s p \<Longrightarrow> holds_all t p) \<Longrightarrow>
    winner s q \<Longrightarrow> winner t q"
  by (cases q) auto

text \<open>A step of an awaiter that is not and does not become suspended.\<close>

lemma inv_awaiter:
  assumes "future_inv s" "awaiting s i \<noteq> Suspended" "p \<noteq> Suspended" "p \<noteq> Scheduled"
    and "\<And>r. p = PushCas r \<Longrightarrow> n = r"
  shows "future_inv (awaiter_at i p (s\<lparr>next_ptr := (next_ptr s)(i := n)\<rparr>))" (is "future_inv ?t")
proof -
  have sus: "suspended ?t = suspended s" "i \<notin> suspended s" using assms(2,3) by (auto simp: suspended_def)
  then have "holds_all ?t q" if "holds_all s q" for q
  proof -
    from that obtain xs where xs: "chain (next_ptr s) q xs" "distinct xs" "set xs = suspended s"
      by (auto simp: holds_all_def)
    then have "chain (next_ptr ?t) q xs" using sus(2) by simp
    with xs sus(1) show ?thesis unfolding holds_all_def by blast
  qed
  moreover have "winner ?t q" if "winner s q" for q
    using that sus calculation by (intro winner_cong [of ?t s]) auto
  ultimately show ?thesis using assms
    by (auto simp: future_inv_def split: list_head.splits)
qed

lemma inv_awaiter_at:
  assumes "future_inv s" "awaiting s i \<noteq> Suspended" "p \<noteq> Suspended" "p \<noteq> Scheduled"
    "\<And>r. p \<noteq> PushCas r"
  shows "future_inv (awaiter_at i p s)"
  using inv_awaiter [OF assms(1-4), of "next_ptr s i"] assms(5) by simp

lemma inv_push:
  assumes "future_inv s" "awaiting s i = PushCas p" "waiters s = Open p"
  shows "future_inv (awaiter_at i Suspended (s\<lparr>waiters := Open (Awaiter i)\<rparr>))" (is "future_inv ?t")
proof -
  have s: "next_ptr s i = p" "holds_all s p" using assms by (auto simp: future_inv_def)
  have "suspended ?t = insert i (suspended s)" "i \<notin> suspended s" using assms(2) by (auto simp: suspended_def)
  with s have "holds_all ?t (Awaiter i)"
    by (auto simp: holds_all_def chain_awaiter)
  with assms show ?thesis by (auto simp: future_inv_def)
qed

lemma inv_close:
  assumes "future_inv s" "waiters s = Open p"
  shows "future_inv (setter_at t (Emplacing r p) (s\<lparr>waiters := Closed\<rparr>))"
  using assms by (auto simp: future_inv_def holds_all_def suspended_def)

lemma inv_reject:
  assumes "future_inv s" "setting s t = Idle" "waiters s = Closed"
  shows "future_inv (setter_at t Already_satisfied s)" (is "future_inv ?t")
proof -
  obtain u where u: "winner s (setting s u)" "\<forall>v. v \<noteq> u \<longrightarrow> setting s v = Idle \<or> setting s v = Already_satisfied"
    using assms(1,3) by (auto simp: future_inv_def)
  then have "u \<noteq> t" using assms(2) by auto
  have "winner ?t (setting s u)" using u(1)
    by (intro winner_cong [of ?t s]) (auto simp: suspended_def holds_all_def)
  then show ?thesis using u \<open>u \<noteq> t\<close> assms(1,3) by (auto simp: future_inv_def)
qed

text \<open>A step of the thread that won.\<close>

lemma inv_winner:
  assumes "future_inv s" "winner s (setting s t)" "winner u (setting u t)"
    "\<And>v. v \<noteq> t \<Longrightarrow> setting u v = setting s v" "waiters u = waiters s" "next_ptr u = next_ptr s"
    "result s \<noteq> None \<Longrightarrow> result u \<noteq> None"
    "\<And>i. awaiting u i = awaiting s i \<or> awaiting u i = Scheduled \<and> result s \<noteq> None"
  shows "future_inv u"
proof -
  obtain w where w: "waiters s = Closed" "\<forall>v. v \<noteq> w \<longrightarrow> setting s v = Idle \<or> setting s v = Already_satisfied"
    using assms(1,2) by (auto simp: future_inv_def split: list_head.splits)
  then have "w = t" using assms(2) by (metis winner.simps(4,5))
  then have "winner u (setting u w)" "\<forall>v. v \<noteq> w \<longrightarrow> setting u v = Idle \<or> setting u v = Already_satisfied"
    using assms(3,4) w(2) by auto
  moreover have "next_ptr u i = p" if "awaiting u i = PushCas p" for i p
    using that assms(1,6) assms(8) [of i] by (auto simp: future_inv_def)
  moreover have "result u \<noteq> None" if "awaiting u i = Scheduled" for i
  proof -
    have "awaiting s i = Scheduled \<Longrightarrow> result s \<noteq> None" using assms(1) unfolding future_inv_def by blast
    then show ?thesis using that assms(7) assms(8) [of i] by metis
  qed
  ultimately show ?thesis using assms(5) w(1) by (auto simp: future_inv_def)
qed

text \<open>Only the thread that closed the list can be past \<open>close\<close>.\<close>

lemma winner_of:
  assumes "future_inv s" "setting s t \<noteq> Idle" "setting s t \<noteq> Already_satisfied"
  shows "winner s (setting s t)"
proof (cases "waiters s")
  case Closed
  then obtain u where "winner s (setting s u)"
    "\<And>v. v \<noteq> u \<Longrightarrow> setting s v = Idle \<or> setting s v = Already_satisfied"
    using assms(1) by (auto simp: future_inv_def)
  with assms(2,3) show ?thesis by metis
qed (use assms in \<open>auto simp: future_inv_def\<close>)

lemma future_step_inv:
  assumes "future_step s l u" "future_inv s"
  shows "future_inv u"
  using assms
proof (induction rule: future_step_induct)
  case (push_link s i p)
  then show ?case using inv_awaiter [of s i "PushCas p" p] by simp
next
  case (push_ok s i p)
  then show ?case by (simp add: inv_push)
next
  case (set_close s t p h r)
  then show ?case using inv_close by (auto simp: close_def)
next
  case (set_again s t h)
  then have "waiters s = Closed" "s\<lparr>waiters := h\<rparr> = s" by (auto simp: close_def)
  then show ?case using inv_reject [of s t] set_again by simp
next
  case (destroy s t p h)
  then show ?case using inv_close by (auto simp: close_def)
next
  case (set_result s t r p)
  then have w: "winner s (setting s t)" using winner_of [of s t] by simp
  then show ?case using set_result
    by (intro inv_winner [OF set_result(2) w]) (auto simp: holds_all_def suspended_def)
next
  case (wake_one s t n)
  then have w: "winner s (setting s t)" using winner_of [of s t] by simp
  then obtain xs where xs: "chain (next_ptr s) (next_ptr s n) xs" "distinct (n # xs)" "set (n # xs) = suspended s"
    using wake_one(1) by (auto simp: holds_all_def chain_awaiter)
  let ?u = "setter_at t (Waking (next_ptr s n)) (awaiter_at n Scheduled s)"
  have "suspended ?u = set xs" using xs(2,3) by (auto simp: suspended_def)
  then have "holds_all ?u (next_ptr s n)" using xs(1,2) unfolding holds_all_def by auto
  then show ?case using wake_one w
    by (intro inv_winner [OF wake_one(3) w]) auto
next
  case (wake_done s t)
  then have w: "winner s (setting s t)" using winner_of [of s t] by simp
  then show ?case using wake_done
    by (intro inv_winner [OF wake_done(2) w]) (auto simp: holds_all_def suspended_def)
qed (simp_all add: inv_awaiter_at)

interpretation future: step_invariant future_step future_inv
  by unfold_locales (rule future_step_inv)

lemma future_init_inv: "future_inv future_init"
  by (simp add: future_inv_def future_init_def holds_all_def suspended_def)

section \<open>What awaiters read\<close>

text \<open>The results that won, in order; the history of a run against the state it reached.\<close>

fun satisfied :: "'v future_event list \<Rightarrow> 'v outcome list" where
  "satisfied [] = []"
| "satisfied (Satisfy t r # es) = r # satisfied es"
| "satisfied (e # es) = satisfied es"

lemma satisfied_append [simp]: "satisfied (es @ fs) = satisfied es @ satisfied fs"
  by (induction es rule: satisfied.induct) auto

definition decided :: "'v future_event list \<Rightarrow> 'v future_state \<Rightarrow> bool" where
  "decided ls s \<longleftrightarrow> (case waiters s of
      Open p \<Rightarrow> satisfied ls = []
    | Closed \<Rightarrow> \<exists>r. satisfied ls = [r] \<and> (\<forall>x. result s = Some x \<longrightarrow> x = r) \<and>
        (\<forall>t x p. setting s t = Emplacing x p \<longrightarrow> x = r))"

definition told :: "'v future_event list \<Rightarrow> 'v future_state \<Rightarrow> bool" where
  "told ls s \<longleftrightarrow> (\<forall>i x. Read i x \<in> set ls \<longrightarrow> awaiting s i = Got x) \<and>
     (\<forall>i. Suspend i \<in> set ls \<longrightarrow> awaiting s i = Suspended \<or> awaiting s i = Scheduled \<or>
        result s \<noteq> None \<and> (awaiting s i = AtResume \<or> awaiting s i = Got (result s)))"

lemma decided_init: "decided [] future_init"
  by (simp add: decided_def future_init_def)

lemma told_init: "told [] future_init"
  by (simp add: told_def)

lemma decided_step:
  assumes "future_step s l u" "future_inv s" "decided ls s"
  shows "decided (ls @ [l]) u"
  using assms
proof (induction rule: future_step_induct)
  case (set_close s t p h r)
  then show ?case by (auto simp: decided_def close_def future_inv_def)
next
  case (destroy s t p h)
  then show ?case by (auto simp: decided_def close_def future_inv_def)
next
  case (set_again s t h)
  then have "waiters s = Closed" "s\<lparr>waiters := h\<rparr> = s" by (auto simp: close_def)
  then show ?case using set_again by (auto simp: decided_def)
next
  case (set_result s t r p)
  then have "waiters s = Closed" by (cases "waiters s") (auto simp: future_inv_def)
  then obtain r' where "satisfied ls = [r']" "\<forall>t x p. setting s t = Emplacing x p \<longrightarrow> x = r'"
    using set_result(3) unfolding decided_def by (simp only: list_head.case) blast
  moreover then have "r' = r" using set_result(1) by blast
  ultimately show ?case using \<open>waiters s = Closed\<close> set_result(1) by (auto simp: decided_def)
qed (auto simp: decided_def split: list_head.splits)

text \<open>A result that is set stays as it is.\<close>

lemma result_stays:
  assumes "future_step s l u" "future_inv s" "result s \<noteq> None"
  shows "result u = result s"
  using assms
proof (induction rule: future_step_induct)
  case (set_result s t r p)
  then show ?case using winner_of [of s t] by simp
qed auto

lemma told_step:
  assumes "future_step s l u" "future_inv s" "told ls s"
  shows "told (ls @ [l]) u"
proof -
  note keep = result_stays [OF assms(1,2)]
  show ?thesis using assms keep
  proof (induction rule: future_step_induct)
    case (resume s i)
    then have "result s \<noteq> None" unfolding future_inv_def by blast
    with resume show ?case by (auto simp: told_def)
  next
    case (set_result s t r p)
    then show ?case using winner_of [of s t] by (auto simp: told_def)
  qed (auto simp: told_def)
qed

lemma future_history:
  assumes "run future_step future_init ls s"
  shows "future_inv s \<and> decided ls s \<and> told ls s"
  using assms
proof (induction rule: run_history_induct)
  case start
  show ?case using future_init_inv decided_init told_init by blast
next
  case (step ls u l v)
  then show ?case using future_step_inv decided_step told_step by blast
qed

lemma result_decided:
  assumes "future_inv s" "decided ls s" "result s = Some r"
  shows "satisfied ls = [r]"
proof -
  have "waiters s = Closed" using assms(1,3) by (cases "waiters s") (auto simp: future_inv_def)
  then show ?thesis using assms(2,3) by (auto simp: decided_def)
qed

section \<open>Every suspended awaiter is woken\<close>

lemma waking_wakes:
  "chain (next_ptr s) p xs \<Longrightarrow> future_inv s \<Longrightarrow> setting s t = Waking p \<Longrightarrow> w \<in> set xs \<Longrightarrow>
    \<exists>ms u. run future_step s ms u \<and> future_inv u \<and> satisfied ms = [] \<and> awaiting u w = Scheduled"
proof (induction xs arbitrary: s p)
  case (Cons x xs)
  have "holds_all s p" using winner_of [OF Cons.prems(2), of t] Cons.prems(3) by simp
  then obtain ys where ys: "chain (next_ptr s) p ys" "distinct ys" "set ys = suspended s"
    by (auto simp: holds_all_def)
  have "ys = x # xs" using chain_unique [OF ys(1) Cons.prems(1)] .
  then have sus: "x \<in> suspended s" "x \<notin> set xs" using ys by auto
  let ?u = "setter_at t (Waking (next_ptr s x)) (awaiter_at x Scheduled s)"
  have step: "future_step s (Wake t x) ?u"
    using Cons.prems(1,3) sus by (intro wake_one) (simp_all add: suspended_def)
  then have inv: "future_inv ?u" using Cons.prems(2) by (rule future_step_inv)
  show ?case
  proof (cases "w = x")
    case True
    then show ?thesis using step inv by (intro exI [of _ "[Wake t x]"] exI [of _ ?u]) simp
  next
    case False
    then have "w \<in> set xs" using Cons.prems(4) by simp
    moreover have "chain (next_ptr ?u) (next_ptr s x) xs" using Cons.prems(1) by simp
    ultimately obtain ms u where "run future_step ?u ms u" "future_inv u" "satisfied ms = []" "awaiting u w = Scheduled"
      using Cons.IH [of ?u "next_ptr s x"] inv by auto
    then show ?thesis using step by (intro exI [of _ "Wake t x # ms"] exI [of _ u]) (auto intro: run_cons)
  qed
qed simp

lemma winner_wakes:
  assumes "future_inv s" "winner s (setting s t)" "awaiting s w = Suspended"
  shows "\<exists>ms u. run future_step s ms u \<and> future_inv u \<and> satisfied ms = [] \<and> awaiting u w = Scheduled"
proof (cases "setting s t")
  case (Emplacing r p)
  let ?u = "setter_at t (Waking p) (s\<lparr>result := Some r\<rparr>)"
  obtain xs where "chain (next_ptr s) p xs" "set xs = suspended s"
    using assms(2) Emplacing by (auto simp: holds_all_def)
  then have xs: "chain (next_ptr ?u) p xs" "w \<in> set xs" using assms(3) by (auto simp: suspended_def)
  have step: "future_step s (Set_step t) ?u" by (rule set_result [OF Emplacing])
  then have "future_inv ?u" using assms(1) by (rule future_step_inv)
  then obtain ms u where "run future_step ?u ms u" "future_inv u" "satisfied ms = []" "awaiting u w = Scheduled"
    using waking_wakes [OF xs(1), of t w] xs(2) by auto
  then show ?thesis using step by (intro exI [of _ "Set_step t # ms"] exI [of _ u]) (auto intro: run_cons)
next
  case (Waking p)
  then obtain xs where "chain (next_ptr s) p xs" "w \<in> set xs"
    using assms(2,3) by (auto simp: holds_all_def suspended_def)
  then show ?thesis using waking_wakes assms(1) Waking by blast
qed (use assms in \<open>auto simp: suspended_def\<close>)

lemma awaiter_reads:
  assumes "run future_step future_init ls s" "closed (waiters s)" "awaiting s w = Suspended"
  shows "\<exists>ms u r. run future_step s ms u \<and> Read w (Some r) \<in> set ms \<and> awaiting u w = Got (Some r) \<and>
    satisfied (ls @ ms) = [r]"
proof -
  have inv: "future_inv s" using future_history [OF assms(1)] by simp
  then obtain t where t: "winner s (setting s t)" using assms(2) by (auto simp: future_inv_def closed_def)
  obtain ms u where u: "run future_step s ms u" "future_inv u" "satisfied ms = []" "awaiting u w = Scheduled"
    using winner_wakes [OF inv t assms(3)] by blast
  then obtain r where r: "result u = Some r" unfolding future_inv_def by blast
  let ?v = "awaiter_at w AtResume u" and ?x = "awaiter_at w (Got (Some r)) (awaiter_at w AtResume u)"
  have "future_step u (Await w) ?v" by (rule resume [OF u(4)])
  moreover have "future_step ?v (Read w (Some r)) ?x" using await_resume [of ?v w] r by simp
  ultimately have "run future_step s (ms @ [Await w, Read w (Some r)]) ?x"
    using u(1) by (intro run_trans [of _ _ ms u]) (auto simp del: at_sel)
  moreover have "satisfied (ls @ ms) = [r]"
    using future_history [OF run_trans [OF assms(1) u(1)]] r result_decided by blast
  ultimately show ?thesis by (intro exI [of _ "ms @ [Await w, Read w (Some r)]"] exI [of _ ?x] exI [of _ r]) simp
qed

section \<open>The properties of promise and future\<close>

text \<open>Coroutine 1 suspends, thread 0 satisfies the promise.\<close>

lemma sample_suspends:
  "\<exists>s. run future_step (future_init :: nat future_state) [Await 1, Await 1, Await 1, Suspend 1, Satisfy 0 (Value 7)] s \<and>
     closed (waiters s) \<and> awaiting s 1 = Suspended"
proof -
  let ?s0 = "future_init :: nat future_state"
  let ?s1 = "awaiter_at 1 PushLoad ?s0"
  let ?s2 = "awaiter_at 1 (PushTest (waiters ?s1)) ?s1"
  let ?s3 = "awaiter_at 1 (PushCas Null) (?s2\<lparr>next_ptr := (next_ptr ?s2)(1 := Null)\<rparr>)"
  let ?s4 = "awaiter_at 1 Suspended (?s3\<lparr>waiters := Open (Awaiter 1)\<rparr>)"
  let ?s5 = "setter_at 0 (Emplacing (Value 7) (Awaiter 1)) (?s4\<lparr>waiters := Closed\<rparr>)"
  have "future_step ?s0 (Await 1) ?s1" by (rule not_ready) (simp_all add: future_init_def closed_def)
  moreover have "future_step ?s1 (Await 1) ?s2" by (rule push_load) simp
  moreover have "future_step ?s2 (Await 1) ?s3" by (rule push_link) (simp add: future_init_def)
  moreover have "future_step ?s3 (Suspend 1) ?s4" by (rule push_ok) (simp_all add: future_init_def)
  moreover have "future_step ?s4 (Satisfy 0 (Value 7)) ?s5"
    by (rule set_close) (simp_all add: future_init_def close_def)
  ultimately have "run future_step ?s0 [Await 1, Await 1, Await 1, Suspend 1, Satisfy 0 (Value 7)] ?s5"
    unfolding run_cons_iff run_nil_iff by blast
  then show ?thesis by (intro exI [of _ ?s5]) (simp add: closed_def)
qed

text \<open>
  C10. A coroutine that suspended on a future reads the result of the promise: in every
  interleaving, one call of set_value, set_exception or the destructor wins, and whatever a
  coroutine that had suspended reads is the result of that call.
\<close>

theorem future_waiters_read_result:
  assumes "run future_step future_init ls s" "Suspend i \<in> set ls" "Read i x \<in> set ls"
  shows "\<exists>r. x = Some r \<and> satisfied ls = [r]"
proof -
  have h: "future_inv s" "decided ls s" "told ls s" using future_history [OF assms(1)] by auto
  then have "awaiting s i = Got x" using assms(3) by (simp add: told_def)
  then have "result s = x" "x \<noteq> None" using h(3) assms(2) by (force simp: told_def)+
  then show ?thesis using result_decided [OF h(1,2)] by auto
qed

theorem future_waiters_read_result_witness:
  "\<exists>ls s x. run future_step (future_init :: nat future_state) ls s \<and> Suspend 1 \<in> set ls \<and> Read 1 x \<in> set ls \<and>
     (\<exists>r. x = Some r \<and> satisfied ls = [r])"
proof -
  let ?ls = "[Await 1, Await 1, Await 1, Suspend 1, Satisfy 0 (Value 7)]"
  obtain s where s: "run future_step (future_init :: nat future_state) ?ls s"
    "closed (waiters s)" "awaiting s 1 = Suspended" using sample_suspends by blast
  then obtain ms u r where u: "run future_step s ms u" "Read 1 (Some r) \<in> set ms"
    using awaiter_reads by blast
  have "run future_step future_init (?ls @ ms) u" using s(1) u(1) by (rule run_trans)
  moreover have "Suspend 1 \<in> set (?ls @ ms)" "Read 1 (Some r) \<in> set (?ls @ ms)" using u(2) by simp_all
  ultimately show ?thesis using future_waiters_read_result by blast
qed

text \<open>
  C27. Once the promise is satisfied, every coroutine that is suspended on the future (one or, for
  a shared future, many) can be woken by the thread that satisfied it and reads the result; no
  awaiter that was pushed before the list was closed is missed.
\<close>

theorem future_wakes_all:
  assumes "run future_step future_init ls s" "closed (waiters s)" "awaiting s w = Suspended"
  shows "\<exists>ms u r. run future_step s ms u \<and> awaiting u w = Got (Some r) \<and> satisfied (ls @ ms) = [r]"
  using awaiter_reads [OF assms] by blast

theorem future_wakes_all_witness:
  "\<exists>s ms u r. run future_step (future_init :: nat future_state) [Await 1, Await 1, Await 1, Suspend 1, Satisfy 0 (Value 7)] s \<and>
     run future_step s ms u \<and> awaiting u 1 = Got (Some r) \<and> satisfied ms = [] \<and> r = Value 7"
proof -
  obtain s where s: "run future_step (future_init :: nat future_state) [Await 1, Await 1, Await 1, Suspend 1, Satisfy 0 (Value 7)] s"
    "closed (waiters s)" "awaiting s 1 = Suspended" using sample_suspends by blast
  obtain ms u r where "run future_step s ms u" "awaiting u 1 = Got (Some r)" "satisfied ms = []" "r = Value 7"
    using future_wakes_all [OF s] by auto
  with s(1) show ?thesis by blast
qed

text \<open>
  A coroutine that does not suspend can read an empty result: set_value closes the list of
  waiters before it stores the value, and a coroutine on another thread that tests await_ready
  in between goes on to dereference the empty optional.
\<close>

theorem future_read_before_value:
  "\<exists>s. run future_step future_init [Satisfy 0 (Value v), Await 1, Read 1 None] s"
proof -
  let ?s1 = "setter_at 0 (Emplacing (Value v) Null) (future_init\<lparr>waiters := Closed\<rparr>)"
  let ?s2 = "awaiter_at 1 AtResume ?s1"
  let ?s3 = "awaiter_at 1 (Got None) ?s2"
  have "future_step future_init (Satisfy 0 (Value v)) ?s1"
    by (rule set_close) (simp_all add: future_init_def close_def)
  moreover have "future_step ?s1 (Await 1) ?s2"
    by (rule ready) (simp_all add: future_init_def closed_def)
  moreover have "future_step ?s2 (Read 1 None) ?s3"
    using await_resume [of ?s2 1] by (simp add: future_init_def)
  ultimately show ?thesis unfolding run_cons_iff run_nil_iff by blast
qed

end
