(* ===== verification/Cancel_Token.thy ===== *)
theory Cancel_Token
  imports Runs Coro_Future "HOL-Library.Multiset"
begin

text \<open>
  Cancellation (\<^verbatim>\<open>src/include/nitrocoro/core/CancelToken.h\<close>): a source that is cancelled once, callbacks
  registered with its token and withdrawn again, and coroutines that wait for the cancellation.
  Threads interleave at the accesses to the head of the list of waiters, at the critical sections
  under \<^verbatim>\<open>cbMutex_\<close> and at the flags of the callbacks. The thread whose exchange closed the list runs
  through \<^verbatim>\<open>cancel\<close>; for every other caller \<^verbatim>\<open>cancel\<close> is over with that exchange. Callbacks are named by
  numbers, \<open>has_sched\<close> tells which were registered on a scheduler, and they do not throw.
\<close>

section \<open>The state\<close>

type_synonym callback = nat

text \<open>\<^verbatim>\<open>addCallback\<close> and the registration it returns.\<close>

datatype registration =
    Unknown         \<comment> \<open>not yet added\<close>
  | Adding          \<comment> \<open>inside the critical section, the source was seen open\<close>
  | Too_late        \<comment> \<open>the source was seen cancelled\<close>
  | Called_directly \<comment> \<open>called or dispatched by \<open>addCallback\<close> itself; there is no registration\<close>
  | Registered
  | Unregistered

text \<open>Tasks that were dispatched to a scheduler: with the test of the flag, or without.\<close>

datatype thunk = Guarded callback | Plain callback

text \<open>\<^verbatim>\<open>cancel\<close>: before it, about to take the callbacks, calling them, resuming the waiters, over.\<close>

datatype cancel_pc =
    Not_cancelled
  | Swapping awaiter_ptr
  | Firing "callback list" awaiter_ptr
  | Resuming awaiter_ptr
  | Cancelled

text \<open>\<^verbatim>\<open>co_await token.cancelled()\<close>.\<close>

datatype token_pc = Before | At_load | At_test list_head | At_cas awaiter_ptr | Waiting | Resumable | Through

record cancel_state =
  head :: list_head
  next_node :: "coro \<Rightarrow> awaiter_ptr"
  coros :: "coro \<Rightarrow> token_pc"
  mutex_of :: "callback option"
  callbacks :: "callback list"
  flag :: "callback \<Rightarrow> bool"
  regs :: "callback \<Rightarrow> registration"
  tasks :: "thunk multiset"
  cancelling :: cancel_pc

definition cancel_init :: cancel_state where
  "cancel_init = \<lparr>head = Open Null, next_node = (\<lambda>_. Null), coros = (\<lambda>_. Before), mutex_of = None, callbacks = [],
     flag = (\<lambda>_. False), regs = (\<lambda>_. Unknown), tasks = {#}, cancelling = Not_cancelled\<rparr>"

definition isCancelled :: "cancel_state \<Rightarrow> bool" where
  "isCancelled s \<longleftrightarrow> closed (head s)"

definition reg_at :: "callback \<Rightarrow> registration \<Rightarrow> cancel_state \<Rightarrow> cancel_state" where
  "reg_at k r s = s\<lparr>regs := (regs s)(k := r)\<rparr>"

definition coro_at :: "coro \<Rightarrow> token_pc \<Rightarrow> cancel_state \<Rightarrow> cancel_state" where
  "coro_at i p s = s\<lparr>coros := (coros s)(i := p)\<rparr>"

definition test_and_set :: "callback \<Rightarrow> cancel_state \<Rightarrow> cancel_state" where
  "test_and_set k s = s\<lparr>flag := (flag s)(k := True)\<rparr>"

datatype cancel_event =
    Call callback
  | Register callback
  | Unregister callback
  | Cancel
  | Wait coro
  | Wake coro
  | Silent

section \<open>The steps\<close>

text \<open>\<^verbatim>\<open>has_sched\<close> is fixed for each callback and each coroutine: \<^verbatim>\<open>Scheduler::current()\<close> was not null.\<close>

inductive callback_step :: "(callback \<Rightarrow> bool) \<Rightarrow> cancel_state \<Rightarrow> cancel_event \<Rightarrow> cancel_state \<Rightarrow> bool" for has_sched where
  \<comment> \<open>\<open>addCallback\<close>\<close>
  add_open: "regs s k = Unknown \<Longrightarrow> mutex_of s = None \<Longrightarrow> \<not> isCancelled s \<Longrightarrow>
    callback_step has_sched s Silent (reg_at k Adding (s\<lparr>mutex_of := Some k\<rparr>))"
| add_cancelled: "regs s k = Unknown \<Longrightarrow> mutex_of s = None \<Longrightarrow> isCancelled s \<Longrightarrow>
    callback_step has_sched s Silent (reg_at k Too_late s)"
| add_push: "regs s k = Adding \<Longrightarrow>
    callback_step has_sched s (Register k) (reg_at k Registered (s\<lparr>callbacks := callbacks s @ [k], mutex_of := None\<rparr>))"
| add_dispatch: "regs s k = Too_late \<Longrightarrow> has_sched k \<Longrightarrow>
    callback_step has_sched s Silent (reg_at k Called_directly (s\<lparr>tasks := add_mset (Plain k) (tasks s)\<rparr>))"
| add_call: "regs s k = Too_late \<Longrightarrow> \<not> has_sched k \<Longrightarrow>
    callback_step has_sched s (Call k) (reg_at k Called_directly s)"
  \<comment> \<open>\<open>CancelRegistration::unregister\<close>\<close>
| unregister: "regs s k = Registered \<Longrightarrow>
    callback_step has_sched s (Unregister k) (reg_at k Unregistered (test_and_set k s))"
  \<comment> \<open>a scheduler runs a dispatched task\<close>
| run_guarded: "Guarded k \<in># tasks s \<Longrightarrow> \<not> flag s k \<Longrightarrow>
    callback_step has_sched s (Call k) (test_and_set k (s\<lparr>tasks := tasks s - {#Guarded k#}\<rparr>))"
| skip_guarded: "Guarded k \<in># tasks s \<Longrightarrow> flag s k \<Longrightarrow>
    callback_step has_sched s Silent (s\<lparr>tasks := tasks s - {#Guarded k#}\<rparr>)"
| run_plain: "Plain k \<in># tasks s \<Longrightarrow>
    callback_step has_sched s (Call k) (s\<lparr>tasks := tasks s - {#Plain k#}\<rparr>)"

inductive canceller_step :: "(callback \<Rightarrow> bool) \<Rightarrow> cancel_state \<Rightarrow> cancel_event \<Rightarrow> cancel_state \<Rightarrow> bool" for has_sched where
  \<comment> \<open>\<open>cancel\<close>\<close>
  cancel_close: "close (head s) = (Open p, h) \<Longrightarrow>
    canceller_step has_sched s Cancel (s\<lparr>head := h, cancelling := Swapping p\<rparr>)"
| cancel_again: "close (head s) = (Closed, h) \<Longrightarrow> canceller_step has_sched s Silent (s\<lparr>head := h\<rparr>)"
| swap: "cancelling s = Swapping p \<Longrightarrow> mutex_of s = None \<Longrightarrow>
    canceller_step has_sched s Silent (s\<lparr>cancelling := Firing (callbacks s) p, callbacks := []\<rparr>)"
| fire_dispatch: "cancelling s = Firing (k # ks) p \<Longrightarrow> has_sched k \<Longrightarrow>
    canceller_step has_sched s Silent (s\<lparr>cancelling := Firing ks p, tasks := add_mset (Guarded k) (tasks s)\<rparr>)"
| fire_call: "cancelling s = Firing (k # ks) p \<Longrightarrow> \<not> has_sched k \<Longrightarrow> \<not> flag s k \<Longrightarrow>
    canceller_step has_sched s (Call k) (test_and_set k (s\<lparr>cancelling := Firing ks p\<rparr>))"
| fire_skip: "cancelling s = Firing (k # ks) p \<Longrightarrow> \<not> has_sched k \<Longrightarrow> flag s k \<Longrightarrow>
    canceller_step has_sched s Silent (s\<lparr>cancelling := Firing ks p\<rparr>)"
| fired: "cancelling s = Firing [] p \<Longrightarrow> canceller_step has_sched s Silent (s\<lparr>cancelling := Resuming p\<rparr>)"
| resume_one: "cancelling s = Resuming (Awaiter n) \<Longrightarrow>
    canceller_step has_sched s (Wake n) (coro_at n Resumable (s\<lparr>cancelling := Resuming (next_node s n)\<rparr>))"
| resumed: "cancelling s = Resuming Null \<Longrightarrow> canceller_step has_sched s Silent (s\<lparr>cancelling := Cancelled\<rparr>)"

text \<open>\<^verbatim>\<open>CancelledAwaiter\<close>; the push is that of the one-shot list.\<close>

inductive waiter_step :: "cancel_state \<Rightarrow> cancel_event \<Rightarrow> cancel_state \<Rightarrow> bool" where
  await_ready: "coros s i = Before \<Longrightarrow> isCancelled s \<Longrightarrow> waiter_step s Silent (coro_at i Through s)"
| await_not_ready: "coros s i = Before \<Longrightarrow> \<not> isCancelled s \<Longrightarrow> waiter_step s Silent (coro_at i At_load s)"
| await_load: "coros s i = At_load \<Longrightarrow> waiter_step s Silent (coro_at i (At_test (head s)) s)"
| await_closed: "coros s i = At_test Closed \<Longrightarrow> waiter_step s Silent (coro_at i Through s)"
| await_link: "coros s i = At_test (Open p) \<Longrightarrow>
    waiter_step s Silent (coro_at i (At_cas p) (s\<lparr>next_node := (next_node s)(i := p)\<rparr>))"
| await_push: "coros s i = At_cas p \<Longrightarrow> head s = Open p \<Longrightarrow>
    waiter_step s (Wait i) (coro_at i Waiting (s\<lparr>head := Open (Awaiter i)\<rparr>))"
| await_retry: "coros s i = At_cas p \<Longrightarrow> waiter_step s Silent (coro_at i (At_test (head s)) s)"
| await_resume: "coros s i = Resumable \<Longrightarrow> waiter_step s Silent (coro_at i Through s)"

definition cancel_step :: "(callback \<Rightarrow> bool) \<Rightarrow> cancel_state \<Rightarrow> cancel_event \<Rightarrow> cancel_state \<Rightarrow> bool" where
  "cancel_step has_sched s l u \<longleftrightarrow> callback_step has_sched s l u \<or> canceller_step has_sched s l u \<or> waiter_step s l u"

section \<open>Callbacks\<close>

definition firing :: "cancel_state \<Rightarrow> callback list" where
  "firing s = (case cancelling s of Firing ks p \<Rightarrow> ks | _ \<Rightarrow> [])"

fun past_swap :: "cancel_pc \<Rightarrow> bool" where
  "past_swap Not_cancelled = False"
| "past_swap (Swapping p) = False"
| "past_swap _ = True"

text \<open>Where a callback can be that has still to be called.\<close>

definition held :: "callback \<Rightarrow> cancel_state \<Rightarrow> bool" where
  "held k s \<longleftrightarrow> k \<in> set (callbacks s) \<or> k \<in> set (firing s) \<or> Guarded k \<in># tasks s"

definition cancel_inv :: "cancel_state \<Rightarrow> bool" where
  "cancel_inv s \<longleftrightarrow>
     (\<forall>k. regs s k = Adding \<longleftrightarrow> mutex_of s = Some k) \<and>
     (isCancelled s \<longleftrightarrow> cancelling s \<noteq> Not_cancelled) \<and>
     (past_swap (cancelling s) \<longrightarrow> callbacks s = [] \<and> mutex_of s = None) \<and>
     (\<forall>k. held k s \<longrightarrow> regs s k = Registered \<or> regs s k = Unregistered) \<and>
     (\<forall>k. regs s k = Registered \<and> \<not> flag s k \<longrightarrow> held k s)"

lemma at_simps [simp]:
  "head (reg_at k r s) = head s" "next_node (reg_at k r s) = next_node s" "coros (reg_at k r s) = coros s"
  "mutex_of (reg_at k r s) = mutex_of s" "callbacks (reg_at k r s) = callbacks s" "flag (reg_at k r s) = flag s"
  "regs (reg_at k r s) = (regs s)(k := r)" "tasks (reg_at k r s) = tasks s" "cancelling (reg_at k r s) = cancelling s"
  "head (coro_at i p s) = head s" "next_node (coro_at i p s) = next_node s" "coros (coro_at i p s) = (coros s)(i := p)"
  "mutex_of (coro_at i p s) = mutex_of s" "callbacks (coro_at i p s) = callbacks s" "flag (coro_at i p s) = flag s"
  "regs (coro_at i p s) = regs s" "tasks (coro_at i p s) = tasks s" "cancelling (coro_at i p s) = cancelling s"
  "head (test_and_set k s) = head s" "next_node (test_and_set k s) = next_node s" "coros (test_and_set k s) = coros s"
  "mutex_of (test_and_set k s) = mutex_of s" "callbacks (test_and_set k s) = callbacks s"
  "flag (test_and_set k s) = (flag s)(k := True)" "regs (test_and_set k s) = regs s" "tasks (test_and_set k s) = tasks s"
  "cancelling (test_and_set k s) = cancelling s"
  by (simp_all add: reg_at_def coro_at_def test_and_set_def)

lemma firing_frame [simp]:
  "firing (reg_at k r s) = firing s" "firing (coro_at i p s) = firing s" "firing (test_and_set k s) = firing s"
  "firing (s\<lparr>mutex_of := m\<rparr>) = firing s" "firing (s\<lparr>callbacks := c\<rparr>) = firing s" "firing (s\<lparr>tasks := t\<rparr>) = firing s"
  "firing (s\<lparr>head := h\<rparr>) = firing s" "firing (s\<lparr>next_node := n\<rparr>) = firing s"
  by (simp_all add: firing_def)

lemma isCancelled_cong: "head t = head s \<Longrightarrow> isCancelled t = isCancelled s"
  by (simp add: isCancelled_def)

lemma in_minus_one: "x \<noteq> y \<Longrightarrow> x \<in># A - {#y#} \<longleftrightarrow> x \<in># A"
  by (simp add: in_diff_count)

lemma mutex_holder: "cancel_inv s \<Longrightarrow> regs s k \<noteq> Adding \<Longrightarrow> mutex_of s \<noteq> Some k"
  by (simp add: cancel_inv_def)

lemma callback_step_inv:
  assumes "callback_step hs s l u" "cancel_inv s"
  shows "cancel_inv u"
  using assms
proof (induction rule: callback_step.induct)
  case (add_open s k)
  then show ?case by (auto simp: cancel_inv_def held_def isCancelled_def)
next
  case (add_cancelled s k)
  then show ?case by (auto simp: cancel_inv_def held_def isCancelled_def)
next
  case (add_push s k)
  then have "\<not> past_swap (cancelling s)" by (auto simp: cancel_inv_def)
  with add_push show ?case by (auto simp: cancel_inv_def held_def isCancelled_def)
next
  case (add_dispatch s k)
  then have "mutex_of s \<noteq> Some k" using mutex_holder [of s k] by simp
  with add_dispatch show ?case by (auto simp: cancel_inv_def held_def isCancelled_def)
next
  case (add_call s k)
  then have "mutex_of s \<noteq> Some k" using mutex_holder [of s k] by simp
  with add_call show ?case by (auto simp: cancel_inv_def held_def isCancelled_def)
next
  case (unregister s k)
  then have "mutex_of s \<noteq> Some k" using mutex_holder [of s k] by simp
  with unregister show ?case by (auto simp: cancel_inv_def held_def isCancelled_def)
next
  case (run_guarded k s)
  have "Guarded j \<in># tasks s - {#Guarded k#} \<longleftrightarrow> Guarded j \<in># tasks s" if "j \<noteq> k" for j
    using that by (simp add: in_minus_one)
  with run_guarded show ?case
    by (auto simp: cancel_inv_def held_def isCancelled_def dest: in_diffD)
next
  case (skip_guarded k s)
  have "Guarded j \<in># tasks s - {#Guarded k#} \<longleftrightarrow> Guarded j \<in># tasks s" if "\<not> flag s j" for j
    using that skip_guarded(2) by (intro in_minus_one) auto
  with skip_guarded show ?case
    by (auto simp: cancel_inv_def held_def isCancelled_def dest: in_diffD)
next
  case (run_plain k s)
  then show ?case
    by (auto simp: cancel_inv_def held_def isCancelled_def in_minus_one dest: in_diffD)
qed

lemma canceller_step_inv:
  assumes "canceller_step hs s l u" "cancel_inv s"
  shows "cancel_inv u"
  using assms
  by (induction rule: canceller_step.induct)
    (auto simp: cancel_inv_def held_def firing_def isCancelled_def closed_def close_def split: cancel_pc.splits)

lemma waiter_step_inv:
  assumes "waiter_step s l u" "cancel_inv s"
  shows "cancel_inv u"
  using assms
  by (induction rule: waiter_step.induct)
    (auto simp: cancel_inv_def held_def firing_def isCancelled_def closed_def)

interpretation cancel: step_invariant "cancel_step hs" cancel_inv for hs
  by unfold_locales (auto simp: cancel_step_def intro: callback_step_inv canceller_step_inv waiter_step_inv)

lemma cancel_init_inv: "cancel_inv cancel_init"
  by (simp add: cancel_inv_def cancel_init_def held_def firing_def isCancelled_def closed_def)

section \<open>How often a callback was called\<close>

definition calls :: "callback \<Rightarrow> cancel_event list \<Rightarrow> nat" where
  "calls k ls = count_list ls (Call k)"

lemma calls_simps [simp]: "calls k [] = 0" "calls k (ls @ [l]) = calls k ls + (if l = Call k then 1 else 0)"
  by (simp_all add: calls_def)

fun accounted :: "registration \<Rightarrow> nat \<Rightarrow> nat \<Rightarrow> bool \<Rightarrow> bool" where
  "accounted Called_directly n m f \<longleftrightarrow> n + m = 1"
| "accounted Registered n m f \<longleftrightarrow> n = (if f then 1 else 0) \<and> m = 0"
| "accounted Unregistered n m f \<longleftrightarrow> n \<le> 1 \<and> m = 0 \<and> f"
| "accounted _ n m f \<longleftrightarrow> n = 0 \<and> m = 0 \<and> \<not> f"

definition calls_ok :: "cancel_event list \<Rightarrow> cancel_state \<Rightarrow> bool" where
  "calls_ok ls s \<longleftrightarrow> (\<forall>k. accounted (regs s k) (calls k ls) (count (tasks s) (Plain k)) (flag s k))"

lemma calls_okD: "calls_ok ls s \<Longrightarrow> accounted (regs s k) (calls k ls) (count (tasks s) (Plain k)) (flag s k)"
  by (simp add: calls_ok_def)

lemma accounted_le: "accounted r n m f \<Longrightarrow> n \<le> 1"
  by (cases "(r, n, m, f)" rule: accounted.cases) auto

lemma callback_step_calls:
  assumes "callback_step hs s l u" "cancel_inv s" "calls_ok ls s"
  shows "calls_ok (ls @ [l]) u"
  using assms
proof (induction rule: callback_step.induct)
  case (run_guarded k s)
  then have "held k s" by (simp add: held_def)
  then have "regs s k = Registered \<or> regs s k = Unregistered" using run_guarded(3) by (simp add: cancel_inv_def)
  moreover have "accounted (regs s k) (calls k ls) (count (tasks s) (Plain k)) (flag s k)"
    using run_guarded(4) by (simp add: calls_ok_def)
  ultimately show ?case using run_guarded by (auto simp: calls_ok_def)
next
  case (run_plain k s)
  have a: "accounted (regs s k) (calls k ls) (count (tasks s) (Plain k)) (flag s k)" "0 < count (tasks s) (Plain k)"
    using run_plain by (simp_all add: calls_ok_def)
  then have r: "regs s k = Called_directly" by (cases "regs s k") auto
  with a have "calls k ls + count (tasks s) (Plain k) = 1" by simp
  with a(2) have "calls k ls = 0" "count (tasks s) (Plain k) = 1" by linarith+
  then show ?case using run_plain r by (auto simp: calls_ok_def)
next
  case (add_push s k)
  then have "accounted (regs s k) (calls k ls) (count (tasks s) (Plain k)) (flag s k)" by (intro calls_okD)
  then show ?case using add_push by (auto simp: calls_ok_def)
next
  case (unregister s k)
  then have "accounted (regs s k) (calls k ls) (count (tasks s) (Plain k)) (flag s k)" by (intro calls_okD)
  then show ?case using unregister by (auto simp: calls_ok_def)
next
  case (add_dispatch s k)
  then have "accounted (regs s k) (calls k ls) (count (tasks s) (Plain k)) (flag s k)" by (intro calls_okD)
  then show ?case using add_dispatch by (auto simp: calls_ok_def)
next
  case (add_call s k)
  then have "accounted (regs s k) (calls k ls) (count (tasks s) (Plain k)) (flag s k)" by (intro calls_okD)
  then show ?case using add_call by (auto simp: calls_ok_def)
next
  case (add_open s k)
  then have "accounted (regs s k) (calls k ls) (count (tasks s) (Plain k)) (flag s k)" by (intro calls_okD)
  then show ?case using add_open by (auto simp: calls_ok_def)
next
  case (add_cancelled s k)
  then have "accounted (regs s k) (calls k ls) (count (tasks s) (Plain k)) (flag s k)" by (intro calls_okD)
  then show ?case using add_cancelled by (auto simp: calls_ok_def)
qed (auto simp: calls_ok_def)

lemma canceller_step_calls:
  assumes "canceller_step hs s l u" "cancel_inv s" "calls_ok ls s"
  shows "calls_ok (ls @ [l]) u"
  using assms
proof (induction rule: canceller_step.induct)
  case (fire_call s k ks p)
  then have "held k s" by (simp add: held_def firing_def)
  then have "regs s k = Registered \<or> regs s k = Unregistered" using fire_call by (simp add: cancel_inv_def)
  moreover have "accounted (regs s k) (calls k ls) (count (tasks s) (Plain k)) False"
    using fire_call(3,5) unfolding calls_ok_def by metis
  ultimately have "regs s k = Registered" "calls k ls = 0" "count (tasks s) (Plain k) = 0" by auto
  then show ?case using fire_call by (auto simp: calls_ok_def)
qed (auto simp: calls_ok_def)

lemma waiter_step_calls:
  assumes "waiter_step s l u" "calls_ok ls s"
  shows "calls_ok (ls @ [l]) u"
  using assms by (induction rule: waiter_step.induct) (auto simp: calls_ok_def)

lemma cancel_history:
  assumes "run (cancel_step hs) cancel_init ls s"
  shows "cancel_inv s" "calls_ok ls s"
proof -
  have "cancel_inv s \<and> calls_ok ls s"
    using assms
  proof (induction rule: run_history_induct)
    case start
    then show ?case using cancel_init_inv by (simp add: calls_ok_def cancel_init_def)
  next
    case (step ls u l v)
    then have "cancel_inv v" using cancel.step_keeps by blast
    moreover have "calls_ok (ls @ [l]) v"
      using step callback_step_calls canceller_step_calls waiter_step_calls unfolding cancel_step_def by blast
    ultimately show ?case by blast
  qed
  then show "cancel_inv s" "calls_ok ls s" by simp_all
qed

text \<open>A callback that was withdrawn is not called any more.\<close>

definition withdrawn :: "callback \<Rightarrow> cancel_state \<Rightarrow> bool" where
  "withdrawn k s \<longleftrightarrow> regs s k = Unregistered \<and> flag s k \<and> Plain k \<notin># tasks s"

lemma withdrawn_step:
  assumes "cancel_step hs s l u" "withdrawn k s"
  shows "withdrawn k u" "l \<noteq> Call k"
proof -
  have "withdrawn k u \<and> l \<noteq> Call k"
    using assms(1) unfolding cancel_step_def
  proof (elim disjE)
    assume "callback_step hs s l u"
    then show ?thesis using assms(2)
      by (induction rule: callback_step.induct) (auto simp: withdrawn_def dest: in_diffD)
  next
    assume "canceller_step hs s l u"
    then show ?thesis using assms(2) by (induction rule: canceller_step.induct) (auto simp: withdrawn_def)
  next
    assume "waiter_step s l u"
    then show ?thesis using assms(2) by (induction rule: waiter_step.induct) (auto simp: withdrawn_def)
  qed
  then show "withdrawn k u" "l \<noteq> Call k" by simp_all
qed

lemma withdrawn_run: "run (cancel_step hs) s ls u \<Longrightarrow> withdrawn k s \<Longrightarrow> Call k \<notin> set ls"
  by (induction rule: run.induct) (auto dest: withdrawn_step)

section \<open>Waiting coroutines\<close>

definition waiting :: "cancel_state \<Rightarrow> coro set" where
  "waiting s = {i. coros s i = Waiting}"

definition waiter_list :: "cancel_state \<Rightarrow> awaiter_ptr" where
  "waiter_list s = (case cancelling s of
       Not_cancelled \<Rightarrow> (case head s of Open p \<Rightarrow> p | Closed \<Rightarrow> Null)
     | Swapping p \<Rightarrow> p | Firing ks p \<Rightarrow> p | Resuming p \<Rightarrow> p | Cancelled \<Rightarrow> Null)"

definition wait_inv :: "cancel_state \<Rightarrow> bool" where
  "wait_inv s \<longleftrightarrow>
     (isCancelled s \<longleftrightarrow> cancelling s \<noteq> Not_cancelled) \<and>
     (\<forall>i p. coros s i = At_cas p \<longrightarrow> next_node s i = p) \<and>
     (\<exists>xs. chain (next_node s) (waiter_list s) xs \<and> distinct xs \<and> set xs = waiting s)"

lemma waiter_list_cong: "head t = head s \<Longrightarrow> cancelling t = cancelling s \<Longrightarrow> waiter_list t = waiter_list s"
  unfolding waiter_list_def by (simp only:)

lemma wait_invI:
  assumes "isCancelled s \<longleftrightarrow> cancelling s \<noteq> Not_cancelled" "\<And>i p. coros s i = At_cas p \<Longrightarrow> next_node s i = p"
    and "chain (next_node s) (waiter_list s) xs \<and> distinct xs \<and> set xs = waiting s"
  shows "wait_inv s"
  using assms unfolding wait_inv_def by blast

lemma wait_inv_cong:
  assumes "head t = head s" "next_node t = next_node s" "coros t = coros s" "cancelling t = cancelling s"
  shows "wait_inv t \<longleftrightarrow> wait_inv s"
  using assms unfolding wait_inv_def waiter_list_def waiting_def isCancelled_def by (simp only:)

lemma callback_step_frame:
  "callback_step hs s l u \<Longrightarrow>
     head u = head s \<and> next_node u = next_node s \<and> coros u = coros s \<and> cancelling u = cancelling s"
  by (induction rule: callback_step.induct) simp_all

lemma callback_step_wait: "callback_step hs s l u \<Longrightarrow> wait_inv s \<Longrightarrow> wait_inv u"
  using callback_step_frame wait_inv_cong by metis

lemma canceller_step_wait: "canceller_step hs s l u \<Longrightarrow> wait_inv s \<Longrightarrow> wait_inv u"
proof (induction rule: canceller_step.induct)
  case (cancel_close s p h)
  then show ?case by (auto simp: wait_inv_def waiter_list_def waiting_def isCancelled_def closed_def close_def)
next
  case (cancel_again s h)
  then have "s\<lparr>head := h\<rparr> = s" by (cases s) (auto simp: close_def)
  then show ?case using cancel_again by simp
next
  case (resume_one s n)
  then obtain xs where xs: "chain (next_node s) (Awaiter n) xs" "distinct xs" "set xs = waiting s"
    by (auto simp: wait_inv_def waiter_list_def)
  then obtain ys where "xs = n # ys" "chain (next_node s) (next_node s n) ys" by (auto simp: chain_awaiter)
  moreover from this xs have "set ys = waiting (coro_at n Resumable (s\<lparr>cancelling := Resuming (next_node s n)\<rparr>))"
    by (auto simp: waiting_def)
  ultimately show ?case using resume_one xs by (auto simp: wait_inv_def waiter_list_def isCancelled_def)
qed (auto simp: wait_inv_def waiter_list_def waiting_def isCancelled_def closed_def close_def)

lemma coro_at_waiting:
  "p \<noteq> Waiting \<Longrightarrow> coros s i \<noteq> Waiting \<Longrightarrow> waiting (coro_at i p s) = waiting s"
  by (auto simp: waiting_def)

lemma wait_inv_local:
  assumes "wait_inv s" "p \<noteq> Waiting" "coros s i \<noteq> Waiting" "\<forall>q. p = At_cas q \<longrightarrow> next_node s i = q"
  shows "wait_inv (coro_at i p s)"
proof -
  have "waiter_list (coro_at i p s) = waiter_list s" by (rule waiter_list_cong) simp_all
  then show ?thesis using assms by (simp add: wait_inv_def isCancelled_def coro_at_waiting)
qed

lemma waiter_step_wait: "waiter_step s l u \<Longrightarrow> wait_inv s \<Longrightarrow> wait_inv u"
proof (induction rule: waiter_step.induct)
  case (await_link s i p)
  let ?s = "s\<lparr>next_node := (next_node s)(i := p)\<rparr>"
  have "i \<notin> waiting s" using await_link by (simp add: waiting_def)
  moreover have "waiter_list ?s = waiter_list s" by (rule waiter_list_cong) simp_all
  moreover have "waiting ?s = waiting s" "isCancelled ?s = isCancelled s" by (simp_all add: waiting_def isCancelled_def)
  moreover obtain xs where "chain (next_node s) (waiter_list s) xs" "distinct xs" "set xs = waiting s"
    using await_link(2) by (auto simp: wait_inv_def)
  ultimately have "chain (next_node ?s) (waiter_list ?s) xs \<and> distinct xs \<and> set xs = waiting ?s" by simp
  then have "wait_inv ?s"
    using await_link \<open>isCancelled ?s = isCancelled s\<close> by (auto simp: wait_inv_def)
  then show ?case using await_link by (intro wait_inv_local) auto
next
  case (await_push s i p)
  then have n: "cancelling s = Not_cancelled" "next_node s i = p" by (auto simp: wait_inv_def isCancelled_def closed_def)
  then obtain xs where xs: "chain (next_node s) p xs" "distinct xs" "set xs = waiting s"
    using await_push by (auto simp: wait_inv_def waiter_list_def)
  let ?u = "coro_at i Waiting (s\<lparr>head := Open (Awaiter i)\<rparr>)"
  have "i \<notin> set xs" "waiting ?u = insert i (waiting s)" using xs await_push by (auto simp: waiting_def)
  then have "chain (next_node ?u) (waiter_list ?u) (i # xs) \<and> distinct (i # xs) \<and> set (i # xs) = waiting ?u"
    using xs n by (simp add: waiter_list_def)
  then show ?case
    using await_push n by (intro wait_invI [where xs = "i # xs"]) (auto simp: wait_inv_def isCancelled_def closed_def split: if_splits)
qed (auto intro!: wait_inv_local)

interpretation cancel_wait: step_invariant "cancel_step hs" wait_inv for hs
  by unfold_locales (auto simp: cancel_step_def intro: callback_step_wait canceller_step_wait waiter_step_wait)

lemma cancel_init_wait: "wait_inv cancel_init"
  by (auto simp: wait_inv_def cancel_init_def waiter_list_def waiting_def isCancelled_def closed_def intro!: exI [of _ "[]"])

section \<open>What the events of a run say about its last state\<close>

definition told :: "cancel_event list \<Rightarrow> cancel_state \<Rightarrow> bool" where
  "told ls s \<longleftrightarrow>
     (\<forall>k. Register k \<in> set ls \<longleftrightarrow> regs s k = Registered \<or> regs s k = Unregistered) \<and>
     (\<forall>k. Unregister k \<in> set ls \<longleftrightarrow> regs s k = Unregistered) \<and>
     (\<forall>i. Wait i \<in> set ls \<longrightarrow> i \<in> waiting s \<or> Wake i \<in> set ls)"

lemma cancel_step_told: "cancel_step hs s l u \<Longrightarrow> told ls s \<Longrightarrow> told (ls @ [l]) u"
  unfolding cancel_step_def
proof (elim disjE)
  assume "callback_step hs s l u" "told ls s"
  then show ?thesis by (induction rule: callback_step.induct) (auto simp: told_def waiting_def)
next
  assume "canceller_step hs s l u" "told ls s"
  then show ?thesis by (induction rule: canceller_step.induct) (auto simp: told_def waiting_def)
next
  assume "waiter_step s l u" "told ls s"
  then show ?thesis by (induction rule: waiter_step.induct) (auto simp: told_def waiting_def)
qed

lemma cancel_told: "run (cancel_step hs) cancel_init ls s \<Longrightarrow> told ls s"
proof (induction rule: run_history_induct)
  case start
  show ?case by (simp add: told_def cancel_init_def)
qed (rule cancel_step_told)

section \<open>Finishing a cancellation\<close>

lemma canceller_run: "canceller_step hs s l u \<Longrightarrow> run (cancel_step hs) u ls v \<Longrightarrow> run (cancel_step hs) s (l # ls) v"
  by (auto simp: cancel_step_def)

lemma callback_run: "callback_step hs s l u \<Longrightarrow> run (cancel_step hs) u ls v \<Longrightarrow> run (cancel_step hs) s (l # ls) v"
  by (auto simp: cancel_step_def)

lemma waiter_run: "waiter_step s l u \<Longrightarrow> run (cancel_step hs) u ls v \<Longrightarrow> run (cancel_step hs) s (l # ls) v"
  by (auto simp: cancel_step_def)

text \<open>The phases of \<^verbatim>\<open>cancel\<close>, from the last to the first, and the tasks that are then left.\<close>

lemma resuming_ends:
  "cancelling s = Resuming p \<Longrightarrow> chain (next_node s) p xs \<Longrightarrow>
     \<exists>ls u. run (cancel_step hs) s ls u \<and> cancelling u = Cancelled"
proof (induction xs arbitrary: s p)
  case Nil
  then have "cancelling s = Resuming Null" by (cases p) (auto simp: chain_awaiter)
  then have "run (cancel_step hs) s [Silent] (s\<lparr>cancelling := Cancelled\<rparr>)"
    by (intro canceller_run [OF resumed run_nil])
  then show ?case by (intro exI [of _ "[Silent]"] exI [of _ "s\<lparr>cancelling := Cancelled\<rparr>"]) simp
next
  case (Cons n xs)
  then have p: "p = Awaiter n" "chain (next_node s) (next_node s n) xs" by (cases p; auto)+
  let ?u = "coro_at n Resumable (s\<lparr>cancelling := Resuming (next_node s n)\<rparr>)"
  have "\<exists>ls u. run (cancel_step hs) ?u ls u \<and> cancelling u = Cancelled"
    using p by (intro Cons.IH [of ?u "next_node s n"]) simp_all
  then show ?case using canceller_run [OF resume_one] Cons.prems(1) p(1) by blast
qed

lemma firing_ends:
  "cancelling s = Firing ks p \<Longrightarrow> chain (next_node s) p xs \<Longrightarrow>
     \<exists>ls u. run (cancel_step hs) s ls u \<and> cancelling u = Cancelled"
proof (induction ks arbitrary: s)
  case Nil
  let ?u = "s\<lparr>cancelling := Resuming p\<rparr>"
  have "\<exists>ls u. run (cancel_step hs) ?u ls u \<and> cancelling u = Cancelled"
    using Nil by (intro resuming_ends [of ?u p xs]) simp_all
  then show ?case using canceller_run [OF fired] Nil(1) by blast
next
  case (Cons k ks)
  obtain l u where u: "canceller_step hs s l u" "cancelling u = Firing ks p" "next_node u = next_node s"
  proof -
    consider "hs k" | "\<not> hs k" "flag s k" | "\<not> hs k" "\<not> flag s k" by blast
    then show ?thesis
    proof cases
    case 1
      then show ?thesis using that [OF fire_dispatch] Cons.prems(1) by simp
    next
      case 2
      then show ?thesis using that [OF fire_skip] Cons.prems(1) by simp
    next
      case 3
      then show ?thesis using that [OF fire_call] Cons.prems(1) by simp
    qed
  qed
  then have "\<exists>ls v. run (cancel_step hs) u ls v \<and> cancelling v = Cancelled"
    using Cons.IH [of u] Cons.prems(2) by simp
  then show ?case using canceller_run [OF u(1)] by blast
qed

lemma swapping_ends:
  assumes "cancelling s = Swapping p" "mutex_of s = None" "chain (next_node s) p xs"
  shows "\<exists>ls u. run (cancel_step hs) s ls u \<and> cancelling u = Cancelled"
proof -
  let ?u = "s\<lparr>cancelling := Firing (callbacks s) p, callbacks := []\<rparr>"
  have "\<exists>ls u. run (cancel_step hs) ?u ls u \<and> cancelling u = Cancelled"
    using assms by (intro firing_ends [of ?u "callbacks s" p xs]) simp_all
  then show ?thesis using canceller_run [OF swap] assms(1,2) by blast
qed

lemma locked_swapping_ends:
  assumes "cancelling s = Swapping p" "cancel_inv s" "chain (next_node s) p xs"
  shows "\<exists>ls u. run (cancel_step hs) s ls u \<and> cancelling u = Cancelled"
proof (cases "mutex_of s")
  case None
  then show ?thesis using assms swapping_ends by blast
next
  case (Some k)
  then have k: "regs s k = Adding" using assms(2) by (simp add: cancel_inv_def)
  let ?u = "reg_at k Registered (s\<lparr>callbacks := callbacks s @ [k], mutex_of := None\<rparr>)"
  have "\<exists>ls u. run (cancel_step hs) ?u ls u \<and> cancelling u = Cancelled"
    using assms by (intro swapping_ends [of ?u p xs]) simp_all
  then show ?thesis using callback_run [OF add_push] k by blast
qed

lemma cancel_ends:
  assumes "isCancelled s" "cancel_inv s" "wait_inv s"
  shows "\<exists>ls u. run (cancel_step hs) s ls u \<and> cancelling u = Cancelled"
proof -
  obtain xs where xs: "chain (next_node s) (waiter_list s) xs" using assms(3) by (auto simp: wait_inv_def)
  show ?thesis
  proof (cases "cancelling s")
    case Not_cancelled
    then show ?thesis using assms(1,2) by (simp add: cancel_inv_def)
  next
    case (Swapping p)
    then show ?thesis using locked_swapping_ends [OF _ assms(2)] xs by (simp add: waiter_list_def)
  next
    case (Firing ks p)
    then show ?thesis using firing_ends xs by (simp add: waiter_list_def)
  next
    case (Resuming p)
    then show ?thesis using resuming_ends xs by (simp add: waiter_list_def)
  next
    case Cancelled
    then show ?thesis by (blast intro: run_nil)
  qed
qed

lemma tasks_end:
  "\<exists>ls u. run (cancel_step hs) s ls u \<and> cancelling u = cancelling s \<and> tasks u = {#}"
proof (induction "size (tasks s)" arbitrary: s)
  case 0
  then show ?case by (intro exI [of _ "[]"] exI [of _ s]) simp
next
  case (Suc n)
  then obtain t where t: "t \<in># tasks s" by (metis multiset_nonemptyE size_empty nat.distinct(1))
  obtain l u where u: "callback_step hs s l u" "tasks u = tasks s - {#t#}" "cancelling u = cancelling s"
  proof (cases t)
    case (Guarded k)
    then show ?thesis
      using that [OF skip_guarded] that [OF run_guarded] t by (cases "flag s k") simp_all
  next
    case (Plain k)
    then show ?thesis using that [OF run_plain] t by simp
  qed
  then have "n = size (tasks u)" using Suc(2) t by (simp add: size_Diff_singleton)
  then show ?case using Suc(1) [of u] u(3) callback_run [OF u(1)] by metis
qed

text \<open>A callback registered, a coroutine suspended, and the source cancelled.\<close>

lemma sample_cancelled:
  "\<exists>s. run (cancel_step (\<lambda>_. False)) cancel_init [Silent, Register 0, Silent, Silent, Silent, Wait 1, Cancel] s \<and>
     isCancelled s"
proof -
  let ?s1 = "reg_at 0 Adding (cancel_init\<lparr>mutex_of := Some 0\<rparr>)"
  let ?s2 = "reg_at 0 Registered (?s1\<lparr>callbacks := callbacks ?s1 @ [0], mutex_of := None\<rparr>)"
  let ?s3 = "coro_at 1 At_load ?s2"
  let ?s4 = "coro_at 1 (At_test (head ?s3)) ?s3"
  let ?s5 = "coro_at 1 (At_cas Null) (?s4\<lparr>next_node := (next_node ?s4)(1 := Null)\<rparr>)"
  let ?s6 = "coro_at 1 Waiting (?s5\<lparr>head := Open (Awaiter 1)\<rparr>)"
  let ?s7 = "?s6\<lparr>head := Closed, cancelling := Swapping (Awaiter 1)\<rparr>"
  note d = cancel_init_def isCancelled_def closed_def close_def
  have c: "callback_step (\<lambda>_. False) cancel_init Silent ?s1" by (rule add_open) (simp_all add: d)
  have c': "callback_step (\<lambda>_. False) ?s1 (Register 0) ?s2" by (rule add_push) simp
  have w: "waiter_step ?s2 Silent ?s3" by (rule await_not_ready) (simp_all add: d)
  have w': "waiter_step ?s3 Silent ?s4" by (rule await_load) simp
  have w'': "waiter_step ?s5 (Wait 1) ?s6" by (rule await_push) (simp_all add: d)
  have l: "waiter_step ?s4 Silent ?s5" by (rule await_link) (simp add: d)
  have k: "canceller_step (\<lambda>_. False) ?s6 Cancel ?s7" by (rule cancel_close) (simp add: d)
  have "run (cancel_step (\<lambda>_. False)) cancel_init [Silent, Register 0, Silent, Silent, Silent, Wait 1, Cancel] ?s7"
    by (intro callback_run [OF c] callback_run [OF c'] waiter_run [OF w] waiter_run [OF w'] waiter_run [OF l]
      waiter_run [OF w''] canceller_run [OF k] run_nil)
  moreover have "isCancelled ?s7" by (simp add: isCancelled_def closed_def)
  ultimately show ?thesis by blast
qed

section \<open>Properties\<close>


text \<open>
  C39. When \<^verbatim>\<open>cancel\<close> has returned and the schedulers have run the tasks it dispatched, nothing was
  lost: every callback that was registered and not withdrawn was called once, one that came too
  late for the list was called by \<^verbatim>\<open>addCallback\<close>, and every coroutine that was suspended on the token
  was resumed.
\<close>

theorem cancel_loses_nothing:
  assumes "run (cancel_step hs) cancel_init ls s" "cancelling s = Cancelled" "tasks s = {#}"
  shows "(Register k \<in> set ls \<and> Unregister k \<notin> set ls \<or> regs s k = Called_directly \<longrightarrow> calls k ls = 1) \<and>
    (Wait i \<in> set ls \<longrightarrow> Wake i \<in> set ls)"
proof -
  have inv: "cancel_inv s" "told ls s" "accounted (regs s k) (calls k ls) (count (tasks s) (Plain k)) (flag s k)"
    using cancel_history [OF assms(1)] cancel_told [OF assms(1)] calls_okD by blast+
  have "\<not> held k s" using inv(1) assms(2,3) by (simp add: cancel_inv_def held_def firing_def)
  then have "regs s k = Registered \<Longrightarrow> flag s k" using inv(1) by (auto simp: cancel_inv_def)
  then have "regs s k = Registered \<or> regs s k = Called_directly \<Longrightarrow> calls k ls = 1" using inv(3) assms(3) by auto
  moreover have "waiting s = {}"
    using cancel_wait.run_keeps [OF assms(1) cancel_init_wait] assms(2) by (auto simp: wait_inv_def waiter_list_def)
  ultimately show ?thesis using inv(2) unfolding told_def by blast
qed

text \<open>
  A cancellation is never stuck: from every state in which the source was cancelled, the
  critical section of \<^verbatim>\<open>cbMutex_\<close>, the rest of \<^verbatim>\<open>cancel\<close> and the dispatched tasks can run to their end,
  whatever callbacks and coroutines there are.
\<close>

theorem cancel_completes:
  assumes "run (cancel_step hs) cancel_init ls s" "isCancelled s"
  shows "\<exists>ms u. run (cancel_step hs) s ms u \<and> cancelling u = Cancelled \<and> tasks u = {#}"
proof -
  obtain ms u where u: "run (cancel_step hs) s ms u" "cancelling u = Cancelled"
    using cancel_ends assms(2) cancel_history(1) [OF assms(1)] cancel_wait.run_keeps [OF assms(1) cancel_init_wait] by blast
  obtain ns v where v: "run (cancel_step hs) u ns v" "cancelling v = cancelling u" "tasks v = {#}" using tasks_end by blast
  show ?thesis using run_trans [OF u(1) v(1)] u(2) v(2,3) by auto
qed


theorem cancel_loses_nothing_witness:
  "\<exists>ls s. run (cancel_step (\<lambda>_. False)) cancel_init ls s \<and> Register 0 \<in> set ls \<and> Wait 1 \<in> set ls \<and>
     (Unregister 0 \<notin> set ls \<longrightarrow> calls 0 ls = 1) \<and> Wake 1 \<in> set ls"
proof -
  let ?ls = "[Silent, Register 0, Silent, Silent, Silent, Wait 1, Cancel]"
  obtain s where s: "run (cancel_step (\<lambda>_. False)) cancel_init ?ls s" "isCancelled s" using sample_cancelled by blast
  obtain ms u where u: "run (cancel_step (\<lambda>_. False)) s ms u" "cancelling u = Cancelled"
    using cancel_ends s(2) cancel_history(1) [OF s(1)] cancel_wait.run_keeps [OF s(1) cancel_init_wait] by blast
  obtain ns v where v: "run (cancel_step (\<lambda>_. False)) u ns v" "cancelling v = cancelling u" "tasks v = {#}"
    using tasks_end by blast
  have r: "run (cancel_step (\<lambda>_. False)) cancel_init (?ls @ ms @ ns) v" using s(1) u(1) v(1) by (auto simp only: run_append)
  have e: "Register 0 \<in> set (?ls @ ms @ ns)" "Wait 1 \<in> set (?ls @ ms @ ns)" by simp_all
  have f: "cancelling v = Cancelled" using u(2) v(2) by simp
  have "Wake 1 \<in> set (?ls @ ms @ ns)" "Unregister 0 \<notin> set (?ls @ ms @ ns) \<longrightarrow> calls 0 (?ls @ ms @ ns) = 1"
    using cancel_loses_nothing [OF r f v(3), where k = 0 and i = 1] e by blast+
  with r e show ?thesis by blast
qed

theorem cancel_completes_witness:
  "\<exists>s ms u. run (cancel_step (\<lambda>_. False)) cancel_init [Silent, Register 0, Silent, Silent, Silent, Wait 1, Cancel] s \<and>
     run (cancel_step (\<lambda>_. False)) s ms u \<and> cancelling u = Cancelled \<and> tasks u = {#}"
  using sample_cancelled cancel_completes by blast

end
