(* ===== verification/Coro_Timeout.thy ===== *)
theory Coro_Timeout
  imports Runs
begin

text \<open>
  \<^verbatim>\<open>withTimeout\<close> (\<^verbatim>\<open>src/include/nitrocoro/core/Timeout.h\<close>): an awaitable raced against a timer. The inner
  coroutine and the timer may end on different threads; they interleave at their accesses to the
  shared state. A result is the value of the awaitable or its exception.
\<close>

section \<open>Steps\<close>

datatype 'v inner_outcome = Inner_value 'v | Inner_throws string

datatype inner_pc = Inner_waiting | Inner_cas | Inner_schedule | Inner_done

datatype timer_pc = Timer_sleeping | Timer_mark | Timer_schedule | Timer_done

text \<open>What \<^verbatim>\<open>await_resume\<close> does; \<open>Reads_nothing\<close> is the access to an empty optional.\<close>

datatype 'v timeout_result = Timeout_exception | Rethrown string | Returned 'v | Reads_nothing

record 'v timeout_state =
  done_flag :: bool
  value_of :: "'v option"
  exception_of :: "string option"
  timed_out :: bool
  scheduled :: nat                        \<comment> \<open>how often the handle of the caller is in a queue\<close>
  inner :: inner_pc
  timer :: timer_pc
  results :: "'v timeout_result list"     \<comment> \<open>what the caller got, at each resumption\<close>

definition timeout_init :: "'v timeout_state" where
  "timeout_init = \<lparr>done_flag = False, value_of = None, exception_of = None, timed_out = False, scheduled = 0,
     inner = Inner_waiting, timer = Timer_sleeping, results = []\<rparr>"

definition await_resume :: "'v timeout_state \<Rightarrow> 'v timeout_result" where
  "await_resume s =
     (if timed_out s then Timeout_exception
      else case exception_of s of
          Some e \<Rightarrow> Rethrown e
        | None \<Rightarrow> (case value_of s of Some v \<Rightarrow> Returned v | None \<Rightarrow> Reads_nothing))"

datatype 'v timeout_event = Inner_ends "'v inner_outcome" | Timer_expires | Inner_wins | Timer_wins | Resumes | Internal

inductive timeout_step :: "'v timeout_state \<Rightarrow> 'v timeout_event \<Rightarrow> 'v timeout_state \<Rightarrow> bool" where
  inner_value: "inner s = Inner_waiting \<Longrightarrow>
    timeout_step s (Inner_ends (Inner_value v)) (s\<lparr>value_of := Some v, inner := Inner_cas\<rparr>)"
| inner_throws: "inner s = Inner_waiting \<Longrightarrow>
    timeout_step s (Inner_ends (Inner_throws e)) (s\<lparr>exception_of := Some e, inner := Inner_cas\<rparr>)"
| inner_wins: "inner s = Inner_cas \<Longrightarrow> \<not> done_flag s \<Longrightarrow>
    timeout_step s Inner_wins (s\<lparr>done_flag := True, inner := Inner_schedule\<rparr>)"
| inner_loses: "inner s = Inner_cas \<Longrightarrow> done_flag s \<Longrightarrow> timeout_step s Internal (s\<lparr>inner := Inner_done\<rparr>)"
| inner_schedule: "inner s = Inner_schedule \<Longrightarrow>
    timeout_step s Internal (s\<lparr>scheduled := scheduled s + 1, inner := Inner_done\<rparr>)"
| timer_wins: "timer s = Timer_sleeping \<Longrightarrow> \<not> done_flag s \<Longrightarrow>
    timeout_step s Timer_wins (s\<lparr>done_flag := True, timer := Timer_mark\<rparr>)"
| timer_loses: "timer s = Timer_sleeping \<Longrightarrow> done_flag s \<Longrightarrow> timeout_step s Timer_expires (s\<lparr>timer := Timer_done\<rparr>)"
| timer_mark: "timer s = Timer_mark \<Longrightarrow> timeout_step s Internal (s\<lparr>timed_out := True, timer := Timer_schedule\<rparr>)"
| timer_schedule: "timer s = Timer_schedule \<Longrightarrow>
    timeout_step s Internal (s\<lparr>scheduled := scheduled s + 1, timer := Timer_done\<rparr>)"
| resume_caller: "0 < scheduled s \<Longrightarrow>
    timeout_step s Resumes (s\<lparr>scheduled := scheduled s - 1, results := results s @ [await_resume s]\<rparr>)"

section \<open>Who wins\<close>

definition outcomes :: "'v timeout_event list \<Rightarrow> 'v inner_outcome list" where
  "outcomes ls = List.map_filter (\<lambda>l. case l of Inner_ends x \<Rightarrow> Some x | _ \<Rightarrow> None) ls"

fun inner_result :: "'v inner_outcome \<Rightarrow> 'v timeout_result" where
  "inner_result (Inner_value v) = Returned v"
| "inner_result (Inner_throws e) = Rethrown e"

lemma outcomes_simps [simp]:
  "outcomes [] = []" "outcomes (ls @ [l]) = outcomes ls @ (case l of Inner_ends x \<Rightarrow> [x] | _ \<Rightarrow> [])"
  by (auto simp: outcomes_def List.map_filter_def split: timeout_event.splits)

text \<open>What has happened decides the shared state.\<close>

definition timeout_inv :: "'v timeout_event list \<Rightarrow> 'v timeout_state \<Rightarrow> bool" where
  "timeout_inv ls s \<longleftrightarrow>
     (outcomes ls = (if inner s = Inner_waiting then []
        else (case exception_of s of Some e \<Rightarrow> [Inner_throws e] | None \<Rightarrow> (case value_of s of Some v \<Rightarrow> [Inner_value v] | None \<Rightarrow> [])))) \<and>
     (inner s \<noteq> Inner_waiting \<longrightarrow> value_of s \<noteq> None \<or> exception_of s \<noteq> None) \<and>
     (inner s = Inner_waiting \<longrightarrow> value_of s = None \<and> exception_of s = None) \<and>
     (value_of s = None \<or> exception_of s = None) \<and>
     (done_flag s \<longleftrightarrow> Inner_wins \<in> set ls \<or> Timer_wins \<in> set ls) \<and>
     \<not> (Inner_wins \<in> set ls \<and> Timer_wins \<in> set ls) \<and>
     (Inner_wins \<in> set ls \<longrightarrow> inner s = Inner_schedule \<or> inner s = Inner_done) \<and>
     (inner s = Inner_schedule \<longrightarrow> Inner_wins \<in> set ls) \<and>
     (timer s = Timer_mark \<or> timer s = Timer_schedule \<longrightarrow> Timer_wins \<in> set ls) \<and>
     (Timer_wins \<in> set ls \<longrightarrow> timer s \<noteq> Timer_sleeping) \<and>
     (timed_out s \<longleftrightarrow> Timer_wins \<in> set ls \<and> timer s \<noteq> Timer_mark) \<and>
     (timer s \<noteq> Timer_sleeping \<or> inner s = Inner_done \<longrightarrow> done_flag s)"

text \<open>The handle of the caller is scheduled once, by the winner, and the caller then reads the verdict.\<close>

definition owed :: "'v timeout_event list \<Rightarrow> 'v timeout_result list" where
  "owed ls = (if Timer_wins \<in> set ls then [Timeout_exception] else if Inner_wins \<in> set ls then map inner_result (outcomes ls) else [])"

definition deliver_inv :: "'v timeout_event list \<Rightarrow> 'v timeout_state \<Rightarrow> bool" where
  "deliver_inv ls s \<longleftrightarrow>
     (scheduled s + length (results s) =
        (if Inner_wins \<in> set ls \<and> inner s = Inner_done \<or> Timer_wins \<in> set ls \<and> timer s = Timer_done then 1 else 0)) \<and>
     (results s \<noteq> [] \<longrightarrow> results s = owed ls)"

lemma timeout_step_inv:
  assumes "timeout_step s l t" "timeout_inv ls s"
  shows "timeout_inv (ls @ [l]) t"
  using assms by (induction rule: timeout_step.induct) (auto simp: timeout_inv_def split: option.splits)

lemma decided_result:
  assumes "timeout_inv ls s" "Inner_wins \<in> set ls \<and> inner s = Inner_done \<or> Timer_wins \<in> set ls \<and> timer s = Timer_done"
  shows "owed ls = [await_resume s]"
  using assms by (auto simp: timeout_inv_def owed_def await_resume_def split: option.splits if_splits)

lemma owed_kept: "timeout_step s l t \<Longrightarrow> timeout_inv ls s \<Longrightarrow> owed ls \<noteq> [] \<Longrightarrow> owed (ls @ [l]) = owed ls"
  by (induction rule: timeout_step.induct) (auto simp: timeout_inv_def owed_def split: if_splits)

lemma timeout_step_deliver:
  assumes "timeout_step s l t" "timeout_inv ls s" "deliver_inv ls s"
  shows "deliver_inv (ls @ [l]) t"
proof -
  have r: "results s = [] \<or> results s = owed (ls @ [l])"
    using owed_kept [OF assms(1,2)] assms(3) unfolding deliver_inv_def by metis
  show ?thesis
    using assms(1,2,3) r
  proof (induction rule: timeout_step.induct)
    case (resume_caller s)
    let ?d = "Inner_wins \<in> set ls \<and> inner s = Inner_done \<or> Timer_wins \<in> set ls \<and> timer s = Timer_done"
    have "scheduled s + length (results s) = (if ?d then 1 else 0)" using resume_caller(3) by (simp add: deliver_inv_def)
    then have d: ?d "results s = []" "scheduled s = 1" using resume_caller(1) by (cases "results s"; simp split: if_splits)+
    moreover have "owed (ls @ [Resumes]) = owed ls" by (simp add: owed_def)
    ultimately have "owed (ls @ [Resumes]) = [await_resume s]" using decided_result [OF resume_caller(2)] by simp
    then show ?case using d by (simp add: deliver_inv_def)
  qed (auto simp: deliver_inv_def timeout_inv_def split: if_splits)
qed

lemma delivered_once: "deliver_inv ls s \<Longrightarrow> results s \<noteq> [] \<Longrightarrow> length (results s) = 1 \<and> scheduled s = 0"
proof -
  assume "deliver_inv ls s" "results s \<noteq> []"
  then have "scheduled s + length (results s) \<le> 1" "1 \<le> length (results s)"
    by (auto simp: deliver_inv_def Suc_le_eq)
  then show ?thesis by linarith
qed

lemma timeout_history:
  assumes "run timeout_step timeout_init ls s"
  shows "timeout_inv ls s" "deliver_inv ls s"
proof -
  have "timeout_inv ls s \<and> deliver_inv ls s"
    using assms
  proof (induction rule: run_history_induct)
    case start
    show ?case by (simp add: timeout_inv_def deliver_inv_def timeout_init_def)
  next
    case (step ls u l v)
    then show ?case using timeout_step_inv timeout_step_deliver by blast
  qed
  then show "timeout_inv ls s" "deliver_inv ls s" by simp_all
qed

section \<open>Getting an answer\<close>

lemma timeout_run: "timeout_step s l u \<Longrightarrow> run timeout_step u ls t \<Longrightarrow> run timeout_step s (l # ls) t"
  by (rule run_cons)

lemma winner_resumes:
  assumes "timeout_inv ls s" "deliver_inv ls s" "done_flag s"
  shows "\<exists>ms t. run timeout_step s ms t \<and> results t \<noteq> []"
proof (cases "results s = []")
  case True
  have sched: "\<exists>ms t. run timeout_step u ms t \<and> results t \<noteq> []" if "0 < scheduled u" for u :: "'a timeout_state"
    by (intro exI conjI, rule timeout_run [OF resume_caller [OF that] run_nil]) simp
  have inner: "\<exists>ms t. run timeout_step u ms t \<and> results t \<noteq> []" if "inner u = Inner_schedule" for u :: "'a timeout_state"
    using sched [of "u\<lparr>scheduled := scheduled u + 1, inner := Inner_done\<rparr>"] timeout_run [OF inner_schedule [OF that]] by fastforce
  have timer: "\<exists>ms t. run timeout_step u ms t \<and> results t \<noteq> []" if "timer u = Timer_schedule" for u :: "'a timeout_state"
    using sched [of "u\<lparr>scheduled := scheduled u + 1, timer := Timer_done\<rparr>"] timeout_run [OF timer_schedule [OF that]] by fastforce
  have mark: "\<exists>ms t. run timeout_step u ms t \<and> results t \<noteq> []" if "timer u = Timer_mark" for u :: "'a timeout_state"
    using timer [of "u\<lparr>timed_out := True, timer := Timer_schedule\<rparr>"] timeout_run [OF timer_mark [OF that]] by fastforce
  have "Inner_wins \<in> set ls \<or> Timer_wins \<in> set ls" using assms(1,3) by (simp add: timeout_inv_def)
  then consider "0 < scheduled s" | "inner s = Inner_schedule" | "timer s = Timer_schedule" | "timer s = Timer_mark"
    using assms(1,2) True by (cases "timer s") (auto simp: timeout_inv_def deliver_inv_def split: if_splits)
  then show ?thesis using sched inner timer mark by cases blast+
qed (blast intro: run_nil)

section \<open>Properties\<close>

text \<open>
  C17. \<^verbatim>\<open>withTimeout\<close> answers once: in every interleaving of the awaitable and the timer the caller is
  resumed at most once, and it then gets the time-out exception when the timer was first, and
  otherwise the value or the exception of the awaitable; it never reads an empty result.
\<close>

theorem timeout_answers_once:
  assumes "run timeout_step timeout_init ls s"
  shows "results s = [] \<or> results s = (if Timer_wins \<in> set ls then [Timeout_exception] else map inner_result (outcomes ls)) \<and>
    length (results s) = 1 \<and> scheduled s = 0"
proof -
  note h = timeout_history [OF assms]
  have "results s \<noteq> [] \<Longrightarrow> results s = owed ls \<and> length (results s) = 1 \<and> scheduled s = 0"
    using delivered_once [OF h(2)] h(2) by (auto simp: deliver_inv_def)
  moreover have "owed ls \<noteq> [] \<Longrightarrow> owed ls = (if Timer_wins \<in> set ls then [Timeout_exception] else map inner_result (outcomes ls))"
    by (auto simp: owed_def)
  ultimately show ?thesis by (metis (no_types))
qed

text \<open>
  Once the awaitable has ended or the timer has expired, the caller can be resumed.
\<close>

theorem timeout_answers:
  assumes "run timeout_step timeout_init ls s" "inner s \<noteq> Inner_waiting \<or> timer s \<noteq> Timer_sleeping"
  shows "\<exists>ms t. run timeout_step s ms t \<and> results t \<noteq> []"
proof (cases "done_flag s")
  case True
  then show ?thesis using winner_resumes timeout_history [OF assms(1)] by blast
next
  case False
  then have "inner s = Inner_cas"
    using assms(2) timeout_history(1) [OF assms(1)] by (cases "inner s"; cases "timer s") (auto simp: timeout_inv_def)
  then have step: "timeout_step s Inner_wins (s\<lparr>done_flag := True, inner := Inner_schedule\<rparr>)" using False by (rule inner_wins)
  then have "run timeout_step timeout_init (ls @ [Inner_wins]) (s\<lparr>done_flag := True, inner := Inner_schedule\<rparr>)"
    using assms(1) by (simp add: run_snoc)
  then obtain ms t where "run timeout_step (s\<lparr>done_flag := True, inner := Inner_schedule\<rparr>) ms t" "results t \<noteq> []"
    using winner_resumes [OF timeout_history] by fastforce
  then show ?thesis using timeout_run [OF step] by blast
qed

lemma sample_timeout:
  "\<exists>s. run timeout_step (timeout_init :: nat timeout_state) [Inner_ends (Inner_value 7), Inner_wins, Internal, Resumes] s \<and>
     results s \<noteq> [] \<and> inner s = Inner_done"
proof -
  let ?s1 = "(timeout_init :: nat timeout_state)\<lparr>value_of := Some 7, inner := Inner_cas\<rparr>"
  let ?s2 = "?s1\<lparr>done_flag := True, inner := Inner_schedule\<rparr>"
  let ?s3 = "?s2\<lparr>scheduled := scheduled ?s2 + 1, inner := Inner_done\<rparr>"
  let ?s4 = "?s3\<lparr>scheduled := scheduled ?s3 - 1, results := results ?s3 @ [await_resume ?s3]\<rparr>"
  have a: "timeout_step timeout_init (Inner_ends (Inner_value 7)) ?s1" by (rule inner_value) (simp add: timeout_init_def)
  have b: "timeout_step ?s1 Inner_wins ?s2" by (rule inner_wins) (simp_all add: timeout_init_def)
  have c: "timeout_step ?s2 Internal ?s3" by (rule inner_schedule) simp
  have d: "timeout_step ?s3 Resumes ?s4" by (rule resume_caller) simp
  have "run timeout_step timeout_init [Inner_ends (Inner_value 7), Inner_wins, Internal, Resumes] ?s4"
    by (intro timeout_run [OF a] timeout_run [OF b] timeout_run [OF c] timeout_run [OF d] run_nil)
  moreover have "results ?s4 \<noteq> [] \<and> inner ?s4 = Inner_done" by simp
  ultimately show ?thesis by blast
qed

theorem timeout_answers_once_witness:
  "\<exists>s. run timeout_step (timeout_init :: nat timeout_state) [Inner_ends (Inner_value 7), Inner_wins, Internal, Resumes] s \<and>
     results s = [Returned 7]"
proof -
  let ?ls = "[Inner_ends (Inner_value 7), Inner_wins, Internal, Resumes]"
  obtain s where s: "run timeout_step (timeout_init :: nat timeout_state) ?ls s" "results s \<noteq> []" using sample_timeout by blast
  have "outcomes ?ls = [Inner_value (7 :: nat)]" by (simp add: outcomes_def List.map_filter_def)
  then have "results s = [Returned 7]" using timeout_answers_once [OF s(1)] s(2) by simp
  with s(1) show ?thesis by blast
qed

theorem timeout_answers_witness:
  "\<exists>s ms t. run timeout_step (timeout_init :: nat timeout_state) [Inner_ends (Inner_value 7), Inner_wins, Internal, Resumes] s \<and>
     run timeout_step s ms t \<and> results t \<noteq> []"
proof -
  obtain s where s: "run timeout_step (timeout_init :: nat timeout_state) [Inner_ends (Inner_value 7), Inner_wins, Internal, Resumes] s"
    "inner s = Inner_done" using sample_timeout by blast
  then have "inner s \<noteq> Inner_waiting \<or> timer s \<noteq> Timer_sleeping" by simp
  with s show ?thesis using timeout_answers by blast
qed

end
