(* ===== verification/Mpsc_Queue.thy ===== *)
theory Mpsc_Queue
  imports Runs
begin

text \<open>
  The queue of \<^verbatim>\<open>src/include/nitrocoro/core/MpscQueue.h\<close>: any number of producers, one consumer. A
  producer exchanges the tail pointer and only then links its node to the previous one, so
  between the two steps the queue holds values that the consumer cannot reach yet. Nodes are
  allocated and deleted; an address may be used again once its node is deleted.
\<close>

section \<open>The queue\<close>

type_synonym node = nat

datatype producer_pc = Idle | Linking node node

record 'a mpsc =
  head :: node
  tail :: node
  val :: "node \<Rightarrow> 'a"
  nxt :: "node \<Rightarrow> node option"
  live :: "node set"
  pcs :: "nat \<Rightarrow> producer_pc"

text \<open>The constructor allocates a stub node, whose value is never read.\<close>

definition mpsc_init :: "node \<Rightarrow> 'a \<Rightarrow> 'a mpsc" where
  "mpsc_init stub v = \<lparr>head = stub, tail = stub, val = (\<lambda>_. v), nxt = (\<lambda>_. None), live = {stub},
     pcs = (\<lambda>_. Idle)\<rparr>"

datatype 'a mpsc_event = Push nat 'a | Link nat | Pop 'a | Pop_none | Empty bool

inductive mpsc_step :: "'a mpsc \<Rightarrow> 'a mpsc_event \<Rightarrow> 'a mpsc \<Rightarrow> bool" where
  push_exchange: "pcs s t = Idle \<Longrightarrow> n \<notin> live s \<Longrightarrow>
    mpsc_step s (Push t v) (s\<lparr>tail := n, val := (val s)(n := v), nxt := (nxt s)(n := None),
      live := insert n (live s), pcs := (pcs s)(t := Linking (tail s) n)\<rparr>)"
| push_link: "pcs s t = Linking p n \<Longrightarrow>
    mpsc_step s (Link t) (s\<lparr>nxt := (nxt s)(p := Some n), pcs := (pcs s)(t := Idle)\<rparr>)"
| pop_some: "nxt s (head s) = Some n \<Longrightarrow>
    mpsc_step s (Pop (val s n)) (s\<lparr>head := n, live := live s - {head s}\<rparr>)"
| pop_none: "nxt s (head s) = None \<Longrightarrow> mpsc_step s Pop_none s"
| empty_test: "mpsc_step s (Empty (nxt s (head s) = None)) s"

section \<open>What the consumer sees\<close>

text \<open>
  The abstract queue is a list of values in the order of the exchanges; a value whose producer has
  not linked it yet carries that producer. The consumer gets the oldest value when it is linked.
\<close>

type_synonym 'a entry = "nat option \<times> 'a"

definition settle :: "nat \<Rightarrow> 'a entry list \<Rightarrow> 'a entry list" where
  "settle t q = map (\<lambda>(p, v). (if p = Some t then None else p, v)) q"

definition pending :: "'a entry list \<Rightarrow> nat set" where
  "pending q = {t. Some t \<in> fst ` set q}"

fun blocked :: "'a entry list \<Rightarrow> bool" where
  "blocked ((None, v) # q) = False"
| "blocked q = True"

inductive mpsc_spec :: "'a entry list \<Rightarrow> 'a mpsc_event \<Rightarrow> 'a entry list \<Rightarrow> bool" where
  spec_push: "t \<notin> pending q \<Longrightarrow> mpsc_spec q (Push t v) (q @ [(Some t, v)])"
| spec_link: "t \<in> pending q \<Longrightarrow> mpsc_spec q (Link t) (settle t q)"
| spec_pop: "mpsc_spec ((None, v) # q) (Pop v) q"
| spec_pop_none: "blocked q \<Longrightarrow> mpsc_spec q Pop_none q"
| spec_empty: "mpsc_spec q (Empty (blocked q)) q"

inductive_simps mpsc_spec_simps [simp]:
  "mpsc_spec q (Push t v) r" "mpsc_spec q (Link t) r" "mpsc_spec q (Pop v) r" "mpsc_spec q Pop_none r"
  "mpsc_spec q (Empty b) r"

lemma settle_simps [simp]:
  "settle t [] = []" "settle t ((p, v) # q) = ((if p = Some t then None else p), v) # settle t q"
  by (simp_all add: settle_def)

lemma pending_simps [simp]:
  "pending [] = {}" "pending ((None, v) # q) = pending q" "pending ((Some t, v) # q) = insert t (pending q)"
  "pending (q @ r) = pending q \<union> pending r"
  by (auto simp: pending_def)

lemma settle_other: "t \<notin> pending q \<Longrightarrow> settle t q = q"
  by (induction q) (auto simp: pending_def)

lemma snd_settle [simp]: "map snd (settle t q) = map snd q"
  by (simp add: settle_def case_prod_beta comp_def)

lemma pending_settle [simp]: "pending (settle t q) = pending q - {t}"
proof (induction q)
  case (Cons e q)
  then show ?case by (cases e; cases "fst e") auto
qed simp

section \<open>The simulation\<close>

text \<open>The nodes after \<open>h\<close> carry the values of the queue, and the last one is the tail.\<close>

fun linked :: "'a mpsc \<Rightarrow> node \<Rightarrow> node list \<Rightarrow> 'a entry list \<Rightarrow> bool" where
  "linked s h [] [] \<longleftrightarrow> tail s = h \<and> nxt s h = None"
| "linked s h (n # ns) ((p, v) # q) \<longleftrightarrow> val s n = v \<and>
     (case p of None \<Rightarrow> nxt s h = Some n | Some t \<Rightarrow> nxt s h = None \<and> pcs s t = Linking h n) \<and>
     linked s n ns q"
| "linked s h _ _ \<longleftrightarrow> False"

definition mpsc_rel :: "'a mpsc \<Rightarrow> 'a entry list \<Rightarrow> bool" where
  "mpsc_rel s q \<longleftrightarrow> (\<exists>ns. linked s (head s) ns q \<and> distinct (head s # ns) \<and> live s = set (head s # ns)) \<and>
     (\<forall>t p n. pcs s t = Linking p n \<longrightarrow> t \<in> pending q)"

text \<open>A pending producer points to two neighbours in the list.\<close>

lemma linked_pending:
  "linked s h ns q \<Longrightarrow> t \<in> pending q \<Longrightarrow>
    \<exists>p n. pcs s t = Linking p n \<and> p \<in> insert h (set ns) \<and> n \<in> set ns \<and> nxt s p = None"
  by (induction s h ns q rule: linked.induct) (auto split: option.splits)

lemma linked_link:
  assumes "linked s h ns q" "pcs s t = Linking p n" "t \<in> pending q \<or> p \<notin> insert h (set ns)" "distinct (h # ns)"
  shows "linked (s\<lparr>nxt := (nxt s)(p := Some n), pcs := (pcs s)(t := Idle)\<rparr>) h ns (settle t q)"
  using assms
proof (induction s h ns q rule: linked.induct)
  case (2 s h m ns x v q)
  show ?case
  proof (cases "x = Some t")
    case True
    then have "p = h" "n = m" "p \<notin> insert m (set ns)" using 2 by auto
    then show ?thesis using 2 True by auto
  next
    case False
    then have "p \<noteq> h" using 2 linked_pending [of s m ns q t] by (auto split: option.splits)
    then show ?thesis using 2 False by (auto split: option.splits)
  qed
qed auto

lemma linked_push:
  assumes "linked s h ns q" "m \<notin> insert h (set ns)" "t \<notin> pending q" "pcs s t = Idle"
  shows "linked (s\<lparr>tail := m, val := (val s)(m := v), nxt := (nxt s)(m := None),
      live := insert m (live s), pcs := (pcs s)(t := Linking (tail s) m)\<rparr>) h (ns @ [m]) (q @ [(Some t, v)])"
  using assms
  by (induction s h ns q rule: linked.induct) (auto split: option.splits)

lemma linked_pop: "linked s h ns q \<Longrightarrow> linked (s\<lparr>head := n, live := l\<rparr>) h ns q"
  by (induction s h ns q rule: linked.induct) (auto split: option.splits)

lemma linked_blocked: "linked s h ns q \<Longrightarrow> nxt s h = None \<longleftrightarrow> blocked q"
  by (induction s h ns q rule: linked.induct) (auto split: option.splits)

lemma mpsc_step_simulated:
  assumes "mpsc_step s l u" "mpsc_rel s q"
  shows "\<exists>r. mpsc_spec q l r \<and> mpsc_rel u r"
  using assms
proof (induction rule: mpsc_step.induct)
  case (push_exchange s t m v)
  then obtain ns where ns: "linked s (head s) ns q" "distinct (head s # ns)" "live s = set (head s # ns)"
    by (auto simp: mpsc_rel_def)
  then have t: "t \<notin> pending q" using push_exchange linked_pending by fastforce
  have "m \<notin> insert (head s) (set ns)" using push_exchange ns by simp
  then show ?case using linked_push [OF ns(1) _ t] ns push_exchange t
    by (intro exI [of _ "q @ [(Some t, v)]"]) (auto simp: mpsc_rel_def intro!: exI [of _ "ns @ [m]"])
next
  case (push_link s t p n)
  then obtain ns where ns: "linked s (head s) ns q" "distinct (head s # ns)" "live s = set (head s # ns)"
    "t \<in> pending q" by (auto simp: mpsc_rel_def)
  then show ?case using linked_link [OF ns(1) push_link(1)] push_link
    by (intro exI [of _ "settle t q"]) (auto simp: mpsc_rel_def)
next
  case (pop_some s n)
  then obtain ns where ns: "linked s (head s) ns q" "distinct (head s # ns)" "live s = set (head s # ns)"
    by (auto simp: mpsc_rel_def)
  then obtain ns' q' where q: "ns = n # ns'" "q = (None, val s n) # q'" "linked s n ns' q'"
    using pop_some(1) by (cases "(s, head s, ns, q)" rule: linked.cases) (auto split: option.splits)
  then have "linked (s\<lparr>head := n, live := live s - {head s}\<rparr>) n ns' q'" by (simp add: linked_pop)
  then show ?case using ns q pop_some(2) by (intro exI [of _ q']) (auto simp: mpsc_rel_def)
next
  case (pop_none s)
  then show ?case using linked_blocked by (auto simp: mpsc_rel_def)
next
  case (empty_test s)
  then show ?case using linked_blocked by (fastforce simp: mpsc_rel_def)
qed

interpretation mpsc: observed_simulation mpsc_step mpsc_spec Some mpsc_rel
  by unfold_locales (simp add: mpsc_step_simulated)

section \<open>The properties of the queue\<close>

fun pushed :: "'a mpsc_event list \<Rightarrow> 'a list" where
  "pushed [] = []"
| "pushed (Push t v # es) = v # pushed es"
| "pushed (e # es) = pushed es"

fun popped :: "'a mpsc_event list \<Rightarrow> 'a list" where
  "popped [] = []"
| "popped (Pop v # es) = v # popped es"
| "popped (e # es) = popped es"

lemma spec_order: "run mpsc_spec q ls r \<Longrightarrow> map snd q @ pushed ls = popped ls @ map snd r"
proof (induction ls arbitrary: q)
  case (Cons l ls)
  then show ?case by (cases l) (auto, force+)
qed simp

lemma map_filter_Some: "List.map_filter Some xs = xs"
  by (induction xs) (simp_all add: map_filter_simps)

lemma mpsc_init_rel: "mpsc_rel (mpsc_init stub v) []"
  by (auto simp: mpsc_rel_def mpsc_init_def intro!: exI [of _ "[]"])

lemma mpsc_reachable:
  assumes "run mpsc_step (mpsc_init stub v) ls s"
  shows "\<exists>q. run mpsc_spec [] ls q \<and> mpsc_rel s q"
  using mpsc.run_simulated [OF assms mpsc_init_rel] by (simp add: map_filter_Some)

text \<open>
  C9. The queue is first-in first-out for any interleaving of its producers with the consumer:
  every run is a run of the abstract queue with the same pushes, links and answers, so the values
  popped followed by those still inside are the values pushed, in the order of the exchanges; and
  pop answers that it is empty only when it is, or when the oldest value's producer is still
  between its two steps.
\<close>

theorem mpsc_queue_fifo:
  assumes "run mpsc_step (mpsc_init stub v) ls s"
  shows "\<exists>q. run mpsc_spec [] ls q \<and> pushed ls = popped ls @ map snd q \<and> pending q = {t. pcs s t \<noteq> Idle}"
proof -
  obtain q where q: "run mpsc_spec [] ls q" "mpsc_rel s q" using mpsc_reachable [OF assms] by blast
  then have "pending q = {t. pcs s t \<noteq> Idle}"
    using linked_pending [of s "head s" _ q] unfolding mpsc_rel_def
    by (metis (mono_tags, lifting) Collect_cong Collect_mem_eq producer_pc.distinct(1) producer_pc.exhaust)
  with q show ?thesis using spec_order [OF q(1)] by auto
qed

text \<open>
  Producers and consumer only touch nodes that exist: in every reachable state the head, its
  successor and both nodes of a producer that has yet to link are allocated, although the consumer
  deletes nodes while producers hold pointers into the queue; and the node a producer will link to
  still has no successor.
\<close>

theorem mpsc_memory_safe:
  assumes "run mpsc_step (mpsc_init stub v) ls s"
  shows "head s \<in> live s \<and> (\<forall>n. nxt s (head s) = Some n \<longrightarrow> n \<in> live s \<and> n \<noteq> head s) \<and>
    (\<forall>t p n. pcs s t = Linking p n \<longrightarrow> p \<in> live s \<and> n \<in> live s \<and> nxt s p = None)"
proof -
  obtain q where q: "mpsc_rel s q" using mpsc_reachable [OF assms] by blast
  then obtain ns where ns: "linked s (head s) ns q" "distinct (head s # ns)" "live s = set (head s # ns)"
    by (auto simp: mpsc_rel_def)
  have "p \<in> live s \<and> n \<in> live s \<and> nxt s p = None" if "pcs s t = Linking p n" for t p n
    using that q linked_pending [OF ns(1), of t] ns(3) by (force simp: mpsc_rel_def)
  moreover have "n \<in> live s \<and> n \<noteq> head s" if "nxt s (head s) = Some n" for n
    using ns that by (cases "(s, head s, ns, q)" rule: linked.cases) (auto split: option.splits)
  ultimately show ?thesis using ns(3) by auto
qed

lemma sample_push:
  "\<exists>s. run mpsc_step (mpsc_init 0 (0::nat)) [Push 1 7, Push 2 8, Link 2, Pop_none, Link 1, Pop 7] s"
proof -
  let ?s0 = "mpsc_init 0 (0::nat)"
  define s1 where "s1 = ?s0\<lparr>tail := 1, val := (val ?s0)(1 := 7), nxt := (nxt ?s0)(1 := None),
    live := insert 1 (live ?s0), pcs := (pcs ?s0)(1 := Linking (tail ?s0) 1)\<rparr>"
  define s2 where "s2 = s1\<lparr>tail := 2, val := (val s1)(2 := 8), nxt := (nxt s1)(2 := None),
    live := insert 2 (live s1), pcs := (pcs s1)(2 := Linking (tail s1) 2)\<rparr>"
  define s3 where "s3 = s2\<lparr>nxt := (nxt s2)(1 := Some 2), pcs := (pcs s2)(2 := Idle)\<rparr>"
  define s4 where "s4 = s3\<lparr>nxt := (nxt s3)(0 := Some 1), pcs := (pcs s3)(1 := Idle)\<rparr>"
  define s5 where "s5 = s4\<lparr>head := 1, live := live s4 - {head s4}\<rparr>"
  note s = s1_def s2_def s3_def s4_def s5_def mpsc_init_def
  have "mpsc_step ?s0 (Push 1 7) s1" unfolding s1_def by (rule push_exchange) (simp_all add: s)
  moreover have "mpsc_step s1 (Push 2 8) s2" unfolding s2_def by (rule push_exchange) (simp_all add: s)
  moreover have "mpsc_step s2 (Link 2) s3" unfolding s3_def by (rule push_link) (simp_all add: s)
  moreover have "mpsc_step s3 Pop_none s3" by (rule pop_none) (simp add: s)
  moreover have "mpsc_step s3 (Link 1) s4" unfolding s4_def by (rule push_link) (simp_all add: s)
  moreover have "mpsc_step s4 (Pop 7) s5" using pop_some [of s4 1] by (simp add: s)
  ultimately show ?thesis unfolding run_cons_iff run_nil_iff by blast
qed

theorem mpsc_queue_fifo_witness:
  "\<exists>s q. run mpsc_step (mpsc_init 0 (0::nat)) [Push 1 7, Push 2 8, Link 2, Pop_none, Link 1, Pop 7] s \<and>
     map snd q = [8 :: nat] \<and> pending q = {t. pcs s t \<noteq> Idle}"
proof -
  obtain s where s: "run mpsc_step (mpsc_init 0 (0::nat)) [Push 1 7, Push 2 8, Link 2, Pop_none, Link 1, Pop 7] s"
    using sample_push by blast
  obtain q where "pushed [Push 1 7, Push 2 8, Link 2, Pop_none, Link 1, Pop 7] =
      popped [Push 1 7, Push 2 8, Link 2, Pop_none, Link 1, Pop (7::nat)] @ map snd q" "pending q = {t. pcs s t \<noteq> Idle}"
    using mpsc_queue_fifo [OF s] by blast
  then have "map snd q = [8]" "pending q = {t. pcs s t \<noteq> Idle}" by simp_all
  then show ?thesis using s by (intro exI [of _ s] exI [of _ q] conjI)
qed

theorem mpsc_memory_safe_witness:
  "\<exists>s. run mpsc_step (mpsc_init 0 (0::nat)) [Push 1 7, Push 2 8, Link 2, Pop_none, Link 1, Pop 7] s \<and> head s \<in> live s"
  using sample_push mpsc_memory_safe [of 0 "0::nat" "[Push 1 7, Push 2 8, Link 2, Pop_none, Link 1, Pop 7]"]
  by blast

end
