(* ===== verification/Scheduler_Loop.thy ===== *)
theory Scheduler_Loop
  imports Mpsc_Queue "HOL-Library.Word" "HOL-Library.Multiset"
begin

text \<open>
  The event loop of \<^verbatim>\<open>src/src/Scheduler.cc\<close> and \<^verbatim>\<open>src/include/nitrocoro/core/Scheduler.h\<close>: the
  ready queue, the timers and the wakeup protocol. The loop thread goes round
  \<open>get_next_timeout\<close>, \<open>process_io_events\<close>, \<open>process_timers\<close>, \<open>process_ready_queue\<close>; other threads
  schedule tasks and timers and stop the loop at any moment, each by a push in two steps and a
  write to the eventfd. The two queues are the abstract queue of \<open>Mpsc_Queue\<close>, which the real one
  refines. What a resumed coroutine or an I/O handler does with the scheduler is a choice of the
  steps; time passes by steps of the clock.
\<close>

section \<open>Timers\<close>

text \<open>Times are nanoseconds of the steady clock, a task is named by a number.\<close>

type_synonym time = int
type_synonym task = nat

record timer =
  due :: time
  task_of :: task

text \<open>\<open>sleep_for\<close> and \<open>sleep_until\<close> suspend the coroutine with a timer; the deadline is fixed at the call.\<close>

definition sleep_until :: "time \<Rightarrow> task \<Rightarrow> timer" where
  "sleep_until t h = \<lparr>due = t, task_of = h\<rparr>"

definition sleep_for :: "time \<Rightarrow> time \<Rightarrow> task \<Rightarrow> timer" where
  "sleep_for current dur h = sleep_until (current + dur) h"

text \<open>
  The priority queue \<open>timers_\<close> as a list ordered by time. The order of timers for the same moment
  is not fixed by the library, and no property here depends on it.
\<close>

definition timers_push :: "timer \<Rightarrow> timer list \<Rightarrow> timer list" where
  "timers_push t ts = insort_key due t ts"

definition kDefaultTimeoutMs :: int where
  "kDefaultTimeoutMs = 10000"

text \<open>The end of \<open>get_next_timeout\<close>, after the pending timers are taken: milliseconds to wait.\<close>

definition get_next_timeout :: "time \<Rightarrow> timer list \<Rightarrow> int" where
  "get_next_timeout now ts =
     (case ts of [] \<Rightarrow> kDefaultTimeoutMs
      | t # _ \<Rightarrow> if due t \<le> now then 0 else (due t - now) div 1000000)"

text \<open>\<open>run\<close> passes it on as an \<open>int\<close> of 32 bits; a negative value makes epoll wait for ever.\<close>

definition as_int :: "int \<Rightarrow> int" where
  "as_int n = sint (word_of_int n :: 32 word)"

fun process_timers :: "time \<Rightarrow> timer list \<Rightarrow> task list \<times> timer list" where
  "process_timers now [] = ([], [])"
| "process_timers now (t # ts) =
     (if due t \<le> now then (let (fired, rest) = process_timers now ts in (task_of t # fired, rest))
      else ([], t # ts))"

section \<open>The loop and the threads that use it\<close>

datatype phase =
    Loop_head
  | Next_timeout
  | Polling int time
  | Events
  | Draining
  | Returned

text \<open>A thread other than the loop's: idle, between the two steps of a push, or before \<open>wakeup\<close>.\<close>

datatype client_pc = Resting | Link_ready | Link_timer | Wakeup

record sched =
  phase :: phase
  running :: bool
  ready :: "task entry list"
  pending_timers :: "timer entry list"
  timers :: "timer list"
  counter :: nat
  clients :: "nat \<Rightarrow> client_pc"
  now :: time

definition sched_init :: "time \<Rightarrow> sched" where
  "sched_init t = \<lparr>phase = Loop_head, running = True, ready = [], pending_timers = [], timers = [],
     counter = 0, clients = (\<lambda>_. Resting), now = t\<rparr>"

text \<open>A push by the loop's own thread, which is the only consumer, is complete when it is next read.\<close>

definition own_push :: "'a \<Rightarrow> 'a entry list \<Rightarrow> 'a entry list" where
  "own_push v q = q @ [(None, v)]"

datatype sched_event =
    Schedule task
  | Schedule_at timer
  | Client nat
  | Stop
  | Tick
  | Loop
  | Poll_return
  | Fire "task list"
  | Run task

inductive sched_step :: "sched \<Rightarrow> sched_event \<Rightarrow> sched \<Rightarrow> bool" where
  \<comment> \<open>another thread: \<open>schedule\<close>, \<open>schedule_at\<close>, \<open>stop\<close>\<close>
  schedule: "clients s t = Resting \<Longrightarrow> mpsc_spec (ready s) (Push t v) q \<Longrightarrow>
    sched_step s (Schedule v) (s\<lparr>ready := q, clients := (clients s)(t := Link_ready)\<rparr>)"
| schedule_link: "clients s t = Link_ready \<Longrightarrow> mpsc_spec (ready s) (Link t) q \<Longrightarrow>
    sched_step s (Client t) (s\<lparr>ready := q, clients := (clients s)(t := Wakeup)\<rparr>)"
| schedule_at: "clients s t = Resting \<Longrightarrow> mpsc_spec (pending_timers s) (Push t m) q \<Longrightarrow>
    sched_step s (Schedule_at m) (s\<lparr>pending_timers := q, clients := (clients s)(t := Link_timer)\<rparr>)"
| schedule_at_link: "clients s t = Link_timer \<Longrightarrow> mpsc_spec (pending_timers s) (Link t) q \<Longrightarrow>
    sched_step s (Client t) (s\<lparr>pending_timers := q, clients := (clients s)(t := Wakeup)\<rparr>)"
| wakeup: "clients s t = Wakeup \<Longrightarrow>
    sched_step s (Client t) (s\<lparr>counter := Suc (counter s), clients := (clients s)(t := Resting)\<rparr>)"
| stop: "clients s t = Resting \<Longrightarrow>
    sched_step s Stop (s\<lparr>running := False, clients := (clients s)(t := Wakeup)\<rparr>)"
  \<comment> \<open>time\<close>
| tick: "0 \<le> d \<Longrightarrow> sched_step s Tick (s\<lparr>now := now s + d\<rparr>)"
  \<comment> \<open>\<open>run\<close>\<close>
| loop_again: "phase s = Loop_head \<Longrightarrow> running s \<Longrightarrow> sched_step s Loop (s\<lparr>phase := Next_timeout\<rparr>)"
| loop_end: "phase s = Loop_head \<Longrightarrow> \<not> running s \<Longrightarrow> sched_step s Loop (s\<lparr>phase := Returned\<rparr>)"
| take_timer: "phase s = Next_timeout \<Longrightarrow> mpsc_spec (pending_timers s) (Pop m) q \<Longrightarrow>
    sched_step s Loop (s\<lparr>pending_timers := q, timers := timers_push m (timers s)\<rparr>)"
| poll: "phase s = Next_timeout \<Longrightarrow> mpsc_spec (pending_timers s) Pop_none q \<Longrightarrow>
    sched_step s Loop (s\<lparr>phase := Polling (as_int (get_next_timeout (now s) (timers s))) (now s)\<rparr>)"
  \<comment> \<open>\<open>epoll_wait\<close> returns: with the eventfd, which is then read, or with other descriptors or time-out\<close>
| poll_wakeup: "phase s = Polling n st \<Longrightarrow> 0 < counter s \<Longrightarrow>
    sched_step s Poll_return (s\<lparr>phase := Events, counter := 0\<rparr>)"
| poll_other: "phase s = Polling n st \<Longrightarrow> sched_step s Poll_return (s\<lparr>phase := Events\<rparr>)"
  \<comment> \<open>I/O handlers and resumed coroutines use the scheduler from its own thread\<close>
| own_schedule: "phase s = Events \<or> phase s = Draining \<Longrightarrow>
    sched_step s (Schedule v) (s\<lparr>ready := own_push v (ready s)\<rparr>)"
| own_schedule_at: "phase s = Events \<or> phase s = Draining \<Longrightarrow>
    sched_step s (Schedule_at m) (s\<lparr>pending_timers := own_push m (pending_timers s)\<rparr>)"
| own_stop: "phase s = Events \<or> phase s = Draining \<Longrightarrow> sched_step s Stop (s\<lparr>running := False\<rparr>)"
  \<comment> \<open>\<open>process_timers\<close> and \<open>process_ready_queue\<close>\<close>
| fire: "phase s = Events \<Longrightarrow> process_timers (now s) (timers s) = (vs, ts) \<Longrightarrow>
    sched_step s (Fire vs) (s\<lparr>phase := Draining, timers := ts, ready := fold own_push vs (ready s)\<rparr>)"
| run_task: "phase s = Draining \<Longrightarrow> mpsc_spec (ready s) (Pop v) q \<Longrightarrow>
    sched_step s (Run v) (s\<lparr>ready := q\<rparr>)"
| drained: "phase s = Draining \<Longrightarrow> mpsc_spec (ready s) Pop_none q \<Longrightarrow>
    sched_step s Loop (s\<lparr>phase := Loop_head\<rparr>)"

section \<open>The invariant\<close>

definition busy :: "sched \<Rightarrow> bool" where
  "busy s \<longleftrightarrow> 0 < counter s \<or> (\<exists>t. clients s t \<noteq> Resting)"

text \<open>The phases in which the loop no longer looks at a queue before it sleeps.\<close>

fun past_ready :: "phase \<Rightarrow> bool" where
  "past_ready Loop_head = True"
| "past_ready Next_timeout = True"
| "past_ready (Polling n st) = True"
| "past_ready _ = False"

fun past_stop :: "phase \<Rightarrow> bool" where
  "past_stop Next_timeout = True"
| "past_stop (Polling n st) = True"
| "past_stop _ = False"

fun past_timers :: "phase \<Rightarrow> bool" where
  "past_timers (Polling n st) = True"
| "past_timers _ = False"

definition sched_inv :: "sched \<Rightarrow> bool" where
  "sched_inv s \<longleftrightarrow>
     pending (ready s) \<subseteq> {t. clients s t = Link_ready} \<and>
     pending (pending_timers s) \<subseteq> {t. clients s t = Link_timer} \<and>
     (past_ready (phase s) \<and> ready s \<noteq> [] \<longrightarrow> busy s) \<and>
     (past_stop (phase s) \<and> \<not> running s \<longrightarrow> busy s) \<and>
     (past_timers (phase s) \<and> pending_timers s \<noteq> [] \<longrightarrow> busy s) \<and>
     sorted (map due (timers s)) \<and>
     (\<forall>n st. phase s = Polling n st \<longrightarrow> st \<le> now s \<and> n = as_int (get_next_timeout st (timers s)))"

lemma own_push_simps [simp]:
  "own_push v q \<noteq> []" "pending (own_push v q) = pending q" "map snd (own_push v q) = map snd q @ [v]"
  by (simp_all add: own_push_def)

lemma own_push_fold [simp]:
  "pending (fold own_push vs q) = pending q" "map snd (fold own_push vs q) = map snd q @ vs"
  by (induction vs arbitrary: q) simp_all

text \<open>Exactly the timers that are due fire, earliest first.\<close>

lemma process_timers_split:
  "process_timers t ts = (map task_of (takeWhile (\<lambda>m. due m \<le> t) ts), dropWhile (\<lambda>m. due m \<le> t) ts)"
  by (induction ts) auto

lemma sorted_takeWhile_due:
  "sorted (map due ts) \<Longrightarrow> takeWhile (\<lambda>m. due m \<le> t) ts = filter (\<lambda>m. due m \<le> t) ts"
  by (induction ts) (auto simp: empty_filter_conv)

lemma sorted_dropWhile_due: "sorted (map due ts) \<Longrightarrow> sorted (map due (dropWhile (\<lambda>m. due m \<le> t) ts))"
  using sorted_wrt_dropWhile by (metis sorted_map)

lemma timers_push_sorted: "sorted (map due ts) \<Longrightarrow> sorted (map due (timers_push m ts))"
  by (simp add: timers_push_def sorted_insort_key)

lemma blocked_pending: "blocked q \<Longrightarrow> q \<noteq> [] \<Longrightarrow> pending q \<noteq> {}"
  by (cases q rule: blocked.cases) auto

lemma pending_pop: "mpsc_spec q (Pop v) r \<Longrightarrow> pending r = pending q"
  by auto

lemma busy_client: "clients s t \<noteq> Resting \<Longrightarrow> busy s"
  by (auto simp: busy_def)

lemma blocked_busy:
  "blocked q \<Longrightarrow> q \<noteq> [] \<Longrightarrow> pending q \<subseteq> {t. clients s t = p} \<Longrightarrow> p \<noteq> Resting \<Longrightarrow> busy s"
  using blocked_pending [of q] busy_client [of s] by blast

lemma busy_after_client [simp]:
  "p \<noteq> Resting \<Longrightarrow> busy (s\<lparr>clients := (clients s)(t := p)\<rparr>)"
  by (auto simp: busy_def)

lemma busy_frame [simp]:
  "busy (s\<lparr>ready := q\<rparr>) = busy s" "busy (s\<lparr>pending_timers := r\<rparr>) = busy s" "busy (s\<lparr>timers := ts\<rparr>) = busy s"
  "busy (s\<lparr>phase := p\<rparr>) = busy s" "busy (s\<lparr>running := b\<rparr>) = busy s" "busy (s\<lparr>now := n\<rparr>) = busy s"
  by (simp_all add: busy_def)

text \<open>A step of another thread leaves it busy or the eventfd readable.\<close>

lemma inv_client:
  assumes "sched_inv s" "busy u" "phase u = phase s" "now u = now s" "timers u = timers s"
    "pending (ready u) \<subseteq> {t. clients u t = Link_ready}" "pending (pending_timers u) \<subseteq> {t. clients u t = Link_timer}"
  shows "sched_inv u"
  using assms by (simp add: sched_inv_def)

lemma sched_step_inv:
  assumes "sched_step s l u" "sched_inv s"
  shows "sched_inv u"
  using assms
proof (induction rule: sched_step.induct)
  case (schedule s t v q)
  then show ?case by (intro inv_client [OF schedule(3)]) (auto simp: sched_inv_def busy_def)
next
  case (schedule_link s t q)
  then show ?case by (intro inv_client [OF schedule_link(3)]) (auto simp: sched_inv_def busy_def)
next
  case (schedule_at s t m q)
  then show ?case by (intro inv_client [OF schedule_at(3)]) (auto simp: sched_inv_def busy_def)
next
  case (schedule_at_link s t q)
  then show ?case by (intro inv_client [OF schedule_at_link(3)]) (auto simp: sched_inv_def busy_def)
next
  case (wakeup s t)
  then show ?case by (intro inv_client [OF wakeup(2)]) (auto simp: sched_inv_def busy_def)
next
  case (stop s t)
  then show ?case by (intro inv_client [OF stop(2)]) (auto simp: sched_inv_def busy_def)
next
  case (tick d s)
  then show ?case by (fastforce simp: sched_inv_def)
next
  case (take_timer s m q)
  then show ?case using timers_push_sorted by (auto simp: sched_inv_def)
next
  case (poll s q)
  then have "pending_timers s \<noteq> [] \<longrightarrow> busy s"
    using blocked_busy [of "pending_timers s" s Link_timer] by (simp add: sched_inv_def)
  then show ?case using poll by (simp add: sched_inv_def)
next
  case (fire s vs ts)
  then show ?case using sorted_dropWhile_due
    by (auto simp: sched_inv_def process_timers_split)
next
  case (drained s q)
  then have "ready s \<noteq> [] \<longrightarrow> busy s"
    using blocked_busy [of "ready s" s Link_ready] by (simp add: sched_inv_def)
  then show ?case using drained by (simp add: sched_inv_def)
qed (auto simp: sched_inv_def)

interpretation sched: step_invariant sched_step sched_inv
  by unfold_locales (rule sched_step_inv)

lemma sched_init_inv: "sched_inv (sched_init t)"
  by (simp add: sched_inv_def sched_init_def)

section \<open>The history of a run\<close>

text \<open>The tasks that entered the ready queue and those that ran, in order; the timers set and fired.\<close>

fun queued :: "sched_event list \<Rightarrow> task list" where
  "queued [] = []"
| "queued (Schedule v # es) = v # queued es"
| "queued (Fire vs # es) = vs @ queued es"
| "queued (e # es) = queued es"

fun ran :: "sched_event list \<Rightarrow> task list" where
  "ran [] = []"
| "ran (Run v # es) = v # ran es"
| "ran (e # es) = ran es"

fun timed :: "sched_event list \<Rightarrow> task list" where
  "timed [] = []"
| "timed (Schedule_at m # es) = task_of m # timed es"
| "timed (e # es) = timed es"

fun fired :: "sched_event list \<Rightarrow> task list" where
  "fired [] = []"
| "fired (Fire vs # es) = vs @ fired es"
| "fired (e # es) = fired es"

lemma history_append [simp]:
  "queued (es @ fs) = queued es @ queued fs" "ran (es @ fs) = ran es @ ran fs"
  "timed (es @ fs) = timed es @ timed fs" "fired (es @ fs) = fired es @ fired fs"
proof -
  show "queued (es @ fs) = queued es @ queued fs" by (induction es rule: queued.induct) auto
  show "ran (es @ fs) = ran es @ ran fs" by (induction es rule: ran.induct) auto
  show "timed (es @ fs) = timed es @ timed fs" by (induction es rule: timed.induct) auto
  show "fired (es @ fs) = fired es @ fired fs" by (induction es rule: fired.induct) auto
qed

definition waiting_timers :: "sched \<Rightarrow> task multiset" where
  "waiting_timers s = mset (map task_of (timers s)) + mset (map (task_of \<circ> snd) (pending_timers s))"

lemma task_of_settle: "map (task_of \<circ> snd) (settle t q) = map (task_of \<circ> snd) q"
  by (simp add: settle_def comp_def case_prod_beta)

lemma task_of_own_push: "map (task_of \<circ> snd) (own_push m q) = map (task_of \<circ> snd) q @ [task_of m]"
  by (simp add: own_push_def)

lemma mset_timers_push: "mset (timers_push m ts) = add_mset m (mset ts)"
  by (simp add: timers_push_def)

lemma mset_process_timers:
  "process_timers t ts = (vs, rest) \<Longrightarrow> mset (map task_of ts) = mset vs + mset (map task_of rest)"
  unfolding process_timers_split
  by (metis map_append mset_append prod.inject takeWhile_dropWhile_id)

lemma sched_step_history:
  assumes "sched_step s l u"
  shows "map snd (ready s) @ queued [l] = ran [l] @ map snd (ready u)"
    and "waiting_timers s + mset (timed [l]) = mset (fired [l]) + waiting_timers u"
  using assms
proof (induction rule: sched_step.induct)
  case (schedule_link s t q)
  { case 1 show ?case using schedule_link by auto next case 2 show ?case by (simp add: waiting_timers_def) }
next
  case (schedule_at_link s t q)
  { case 1 show ?case by simp
  next case 2 show ?case using schedule_at_link by (auto simp: waiting_timers_def task_of_settle) }
next
  case (take_timer s m q)
  { case 1 show ?case by simp
  next case 2 show ?case using take_timer by (auto simp: waiting_timers_def mset_timers_push) }
next
  case (fire s vs ts)
  { case 1 show ?case by simp
  next case 2 show ?case using mset_process_timers [OF fire(2)] by (simp add: waiting_timers_def) }
next
  case (own_schedule_at s m)
  { case 1 show ?case by simp
  next case 2 show ?case by (simp add: waiting_timers_def task_of_own_push) }
qed (auto simp: waiting_timers_def)

lemma sched_history:
  assumes "run sched_step (sched_init t) ls s"
  shows "queued ls = ran ls @ map snd (ready s) \<and> mset (timed ls) = mset (fired ls) + waiting_timers s"
  using assms
proof (induction rule: run_history_induct)
  case start
  show ?case by (simp add: sched_init_def waiting_timers_def)
next
  case (step ls u l v)
  have "queued (ls @ [l]) = ran ls @ map snd (ready u) @ queued [l]" using step.IH by simp
  also have "\<dots> = ran (ls @ [l]) @ map snd (ready v)"
    using sched_step_history(1) [OF step.hyps(2)] by (simp only: history_append append.assoc)
  finally have "queued (ls @ [l]) = ran (ls @ [l]) @ map snd (ready v)" .
  moreover have "mset (timed (ls @ [l])) = mset (fired (ls @ [l])) + waiting_timers v"
    using step.IH sched_step_history(2) [OF step.hyps(2)]
    by (simp only: history_append mset_append union_assoc)
  ultimately show ?case by blast
qed

section \<open>The properties of the loop\<close>

lemma as_int_small: "0 \<le> n \<Longrightarrow> n < 2 ^ 31 \<Longrightarrow> as_int n = n"
  by (simp add: as_int_def sint_sbintrunc' signed_take_bit_int_eq_self)

lemma sched_reachable_inv: "run sched_step (sched_init t) ls s \<Longrightarrow> sched_inv s"
  using sched.run_keeps sched_init_inv by blast

text \<open>While the time-out has not passed, the earliest timer is not due.\<close>

lemma timeout_before_due:
  assumes "sorted (map due ts)" "st \<le> t" "n = as_int (get_next_timeout st ts)"
    "n < 0 \<or> t < st + n * 1000000" "\<forall>m\<in>set ts. due m - st < 2 ^ 31 * 1000000" "m \<in> set ts"
  shows "t < due m"
proof (cases ts)
  case (Cons f rest)
  then have f: "due f \<le> due m" using assms(1,6) by auto
  have far: "due f - st < 2 ^ 31 * 1000000" using assms(5) Cons by simp
  show ?thesis
  proof (cases "due f \<le> st")
    case True
    then have "n = 0" using assms(3) Cons by (simp add: get_next_timeout_def as_int_small)
    then show ?thesis using assms(2,4) by simp
  next
    case False
    let ?k = "(due f - st) div 1000000"
    have "0 \<le> ?k" "?k < 2 ^ 31" using False far by (auto simp: div_less_iff_less_mult pos_imp_zdiv_nonneg_iff)
    then have "n = ?k" using assms(3) Cons False by (simp add: get_next_timeout_def as_int_small)
    then have "t < st + ?k * 1000000" using assms(4) \<open>0 \<le> ?k\<close> by auto
    also have "\<dots> \<le> due f" by (simp add: minus_mod_eq_div_mult [symmetric])
    finally show ?thesis using f by simp
  qed
qed (use assms in simp)

text \<open>Thread 1 sets a timer for task 9 that is due at once; the loop takes it and polls.\<close>

definition sample_timer :: timer where
  "sample_timer = \<lparr>due = 0, task_of = 9\<rparr>"

lemma sample_loop:
  "\<exists>s u. run sched_step (sched_init 0)
     [Schedule_at sample_timer, Client 1, Client 1, Loop, Loop, Loop, Poll_return] s \<and>
     sched_step s (Fire [9]) u \<and> timers s = [sample_timer] \<and> now s = 0"
proof -
  let ?s0 = "sched_init 0"
  define s1 where "s1 = ?s0\<lparr>pending_timers := [(Some 1, sample_timer)], clients := (clients ?s0)(1 := Link_timer)\<rparr>"
  define s2 where "s2 = s1\<lparr>pending_timers := [(None, sample_timer)], clients := (clients s1)(1 := Wakeup)\<rparr>"
  define s3 where "s3 = s2\<lparr>counter := Suc (counter s2), clients := (clients s2)(1 := Resting)\<rparr>"
  define s4 where "s4 = s3\<lparr>phase := Next_timeout\<rparr>"
  define s5 where "s5 = s4\<lparr>pending_timers := [], timers := timers_push sample_timer (timers s4)\<rparr>"
  define s6 where "s6 = s5\<lparr>phase := Polling (as_int (get_next_timeout (now s5) (timers s5))) (now s5)\<rparr>"
  define s7 where "s7 = s6\<lparr>phase := Events, counter := 0\<rparr>"
  define s8 where "s8 = s7\<lparr>phase := Draining, timers := [], ready := fold own_push [9] (ready s7)\<rparr>"
  note s = s1_def s2_def s3_def s4_def s5_def s6_def s7_def sched_init_def
  have "sched_step ?s0 (Schedule_at sample_timer) s1" unfolding s1_def by (rule schedule_at) (simp_all add: s)
  moreover have "sched_step s1 (Client 1) s2" unfolding s2_def by (rule schedule_at_link) (simp_all add: s)
  moreover have "sched_step s2 (Client 1) s3" unfolding s3_def by (rule wakeup) (simp add: s)
  moreover have "sched_step s3 Loop s4" unfolding s4_def by (rule loop_again) (simp_all add: s)
  moreover have "sched_step s4 Loop s5" unfolding s5_def by (rule take_timer) (simp_all add: s)
  moreover have "sched_step s5 Loop s6" unfolding s6_def by (rule poll) (simp_all add: s)
  moreover have "sched_step s6 Poll_return s7"
    unfolding s7_def by (rule poll_wakeup [of _ "as_int (get_next_timeout (now s5) (timers s5))" "now s5"]) (simp_all add: s)
  ultimately have r: "run sched_step ?s0
      [Schedule_at sample_timer, Client 1, Client 1, Loop, Loop, Loop, Poll_return] s7"
    unfolding run_cons_iff run_nil_iff by blast
  have "sched_step s7 (Fire [9]) s8" unfolding s8_def
    by (rule fire) (simp_all add: s timers_push_def sample_timer_def)
  moreover have "timers s7 = [sample_timer]" "now s7 = 0" by (simp_all add: s timers_push_def)
  ultimately show ?thesis using r by blast
qed

text \<open>
  C3. The loop sleeps only when there is nothing to do. In every reachable state in which it may
  stay blocked in epoll_wait (the eventfd is not readable, no other thread is inside schedule,
  schedule_at or stop, and the time-out has not passed), both queues are empty, the loop was not
  stopped and no timer is due; timers more than 2^31 milliseconds ahead are excluded.
\<close>

theorem sched_sleeps_only_when_idle:
  assumes "run sched_step (sched_init t) ls s" "phase s = Polling n st" "counter s = 0"
    "\<forall>c. clients s c = Resting" "n < 0 \<or> now s < st + n * 1000000"
    "\<forall>m\<in>set (timers s). due m - st < 2 ^ 31 * 1000000"
  shows "ready s = [] \<and> pending_timers s = [] \<and> running s \<and> (\<forall>m\<in>set (timers s). now s < due m)"
proof -
  have inv: "sched_inv s" by (rule sched_reachable_inv [OF assms(1)])
  have "\<not> busy s" using assms(3,4) by (simp add: busy_def)
  then have "ready s = []" "pending_timers s = []" "running s" using inv assms(2) by (auto simp: sched_inv_def)
  moreover have "\<forall>m\<in>set (timers s). now s < due m"
    using timeout_before_due [of "timers s" st "now s" n] inv assms(2,5,6) by (auto simp: sched_inv_def)
  ultimately show ?thesis by blast
qed

theorem sched_sleeps_only_when_idle_witness:
  "\<exists>s. run sched_step (sched_init 0) [Loop, Loop] s \<and> phase s = Polling 10000 0 \<and> ready s = [] \<and> running s"
proof -
  let ?s1 = "sched_init 0\<lparr>phase := Next_timeout\<rparr>"
  let ?s2 = "?s1\<lparr>phase := Polling (as_int (get_next_timeout (now ?s1) (timers ?s1))) (now ?s1)\<rparr>"
  have "sched_step (sched_init 0) Loop ?s1" by (rule loop_again) (simp_all add: sched_init_def)
  moreover have "sched_step ?s1 Loop ?s2" by (rule poll) (simp_all add: sched_init_def)
  ultimately have r: "run sched_step (sched_init 0) [Loop, Loop] ?s2"
    unfolding run_cons_iff run_nil_iff by blast
  have p: "phase ?s2 = Polling 10000 0"
    by (simp add: sched_init_def get_next_timeout_def kDefaultTimeoutMs_def as_int_small)
  have "ready ?s2 = [] \<and> pending_timers ?s2 = [] \<and> running ?s2 \<and> (\<forall>m\<in>set (timers ?s2). now ?s2 < due m)"
    by (rule sched_sleeps_only_when_idle [OF r p]) (simp_all add: sched_init_def)
  then show ?thesis using r p by blast
qed

text \<open>
  C28. Every task that was scheduled, from any thread or by a timer, runs once, in the order in
  which the tasks entered the ready queue: those that ran followed by those still queued are those
  that were queued. No timer is lost either: the timers set are those that fired and those that wait.
\<close>

theorem sched_runs_in_order:
  assumes "run sched_step (sched_init t) ls s"
  shows "queued ls = ran ls @ map snd (ready s) \<and> mset (timed ls) = mset (fired ls) + waiting_timers s"
  by (rule sched_history [OF assms])

theorem sched_runs_in_order_witness:
  "\<exists>s. run sched_step (sched_init 0)
     [Schedule_at sample_timer, Client 1, Client 1, Loop, Loop, Loop, Poll_return] s \<and> waiting_timers s = {#9#}"
proof -
  obtain s where s: "run sched_step (sched_init 0)
      [Schedule_at sample_timer, Client 1, Client 1, Loop, Loop, Loop, Poll_return] s" using sample_loop by blast
  have "waiting_timers s = {#9#}" using sched_runs_in_order [OF s] by (simp add: sample_timer_def)
  with s show ?thesis by blast
qed

text \<open>
  A timer fires neither early nor late: when process_timers runs in a reachable state, it makes
  ready the tasks of exactly those timers whose moment has come, and keeps the others.
\<close>

theorem timers_fire_when_due:
  assumes "run sched_step (sched_init t) ls s" "sched_step s (Fire vs) u"
  shows "vs = map task_of (filter (\<lambda>m. due m \<le> now s) (timers s)) \<and>
    timers u = filter (\<lambda>m. now s < due m) (timers s)"
proof -
  have so: "sorted (map due (timers s))" using sched_reachable_inv [OF assms(1)] by (simp add: sched_inv_def)
  obtain ts where ts: "process_timers (now s) (timers s) = (vs, ts)" "timers u = ts"
    using assms(2) by (auto elim: sched_step.cases)
  have "dropWhile (\<lambda>m. due m \<le> now s) xs = filter (\<lambda>m. now s < due m) xs" if "sorted (map due xs)" for xs
    using that by (induction xs) (auto intro!: filter_True [symmetric])
  from this [OF so] show ?thesis using ts so by (simp add: process_timers_split sorted_takeWhile_due)
qed

theorem timers_fire_when_due_witness:
  "\<exists>s u. run sched_step (sched_init 0)
     [Schedule_at sample_timer, Client 1, Client 1, Loop, Loop, Loop, Poll_return] s \<and>
     sched_step s (Fire [9]) u \<and> timers u = []"
proof -
  obtain s u where s: "run sched_step (sched_init 0)
      [Schedule_at sample_timer, Client 1, Client 1, Loop, Loop, Loop, Poll_return] s"
    "sched_step s (Fire [9]) u" "timers s = [sample_timer]" "now s = 0" using sample_loop by blast
  have "timers u = []" using timers_fire_when_due [OF s(1,2)] s(3,4) by (simp add: sample_timer_def)
  with s show ?thesis by blast
qed

text \<open>
  A timer 2^31 milliseconds (about 25 days) ahead makes the loop sleep without limit: the
  time-out is narrowed to a signed 32-bit int and becomes negative, which epoll_wait takes as
  forever.
\<close>

theorem far_timer_sleeps_forever:
  "as_int (get_next_timeout t [\<lparr>due = t + 2147483648 * 1000000, task_of = k\<rparr>]) = - 2147483648"
  by (simp add: get_next_timeout_def as_int_def)

end
