(* ===== verification/Thread_Pool.thy ===== *)
theory Thread_Pool
  imports Runs
begin

text \<open>
  The thread pool of \<^verbatim>\<open>src/src/TaskQueue.cc\<close>, on which blocking calls such as name resolution run. The
  critical sections of its mutex are atomic steps; a worker leaves the mutex when it waits on the
  condition variable, and may wake up without being notified.
\<close>

section \<open>Steps\<close>

datatype 't worker_pc =
    Checking            \<comment> \<open>about to take the mutex or to test the predicate again\<close>
  | Blocked             \<comment> \<open>waiting on \<open>cv_\<close>\<close>
  | Executing 't
  | Exited

record 't thread_pool =
  pool_tasks :: "'t list"
  pool_stop :: bool
  notifying :: nat                     \<comment> \<open>callers of \<open>post\<close> between the mutex and \<open>notify_one\<close>\<close>
  stop_notified :: bool                \<comment> \<open>the destructor has called \<open>notify_all\<close>\<close>
  workers :: "'t worker_pc list"

text \<open>\<^verbatim>\<open>std::clamp(hardware_concurrency(), 1, 8)\<close> workers when no number is given.\<close>

definition worker_count :: "nat \<Rightarrow> nat \<Rightarrow> nat" where
  "worker_count hardware n = (if n = 0 then max 1 (min 8 hardware) else n)"

definition pool_init :: "nat \<Rightarrow> nat \<Rightarrow> 't thread_pool" where
  "pool_init hardware n = \<lparr>pool_tasks = [], pool_stop = False, notifying = 0, stop_notified = False,
     workers = replicate (worker_count hardware n) Checking\<rparr>"

definition worker_at :: "nat \<Rightarrow> 't worker_pc \<Rightarrow> 't thread_pool \<Rightarrow> 't thread_pool" where
  "worker_at i p s = s\<lparr>workers := (workers s)[i := p]\<rparr>"

definition pool_post :: "'t \<Rightarrow> 't thread_pool \<Rightarrow> 't thread_pool" where
  "pool_post t s = s\<lparr>pool_tasks := pool_tasks s @ [t], notifying := notifying s + 1\<rparr>"

text \<open>The two parts of \<^verbatim>\<open>~ThreadPool\<close>; it then joins the workers.\<close>

definition pool_destroy :: "'t thread_pool \<Rightarrow> 't thread_pool" where
  "pool_destroy s = s\<lparr>pool_stop := True\<rparr>"

definition pool_notify_all :: "'t thread_pool \<Rightarrow> 't thread_pool" where
  "pool_notify_all s =
     s\<lparr>stop_notified := True, workers := map (\<lambda>p. if p = Blocked then Checking else p) (workers s)\<rparr>"

datatype 't pool_event = Post 't | Take 't | Finish 't | Notify | Stop_pool | Exit | Pool_internal

inductive pool_step :: "'t thread_pool \<Rightarrow> 't pool_event \<Rightarrow> 't thread_pool \<Rightarrow> bool" where
  \<comment> \<open>\<open>post\<close>\<close>
  post: "pool_step s (Post t) (pool_post t s)"
| notify_one: "notifying s = Suc n \<Longrightarrow> i < length (workers s) \<Longrightarrow> workers s ! i = Blocked \<Longrightarrow>
    pool_step s Notify (worker_at i Checking (s\<lparr>notifying := n\<rparr>))"
| notify_none: "notifying s = Suc n \<Longrightarrow> Blocked \<notin> set (workers s) \<Longrightarrow> pool_step s Notify (s\<lparr>notifying := n\<rparr>)"
  \<comment> \<open>\<open>workerThread\<close>\<close>
| block: "i < length (workers s) \<Longrightarrow> workers s ! i = Checking \<Longrightarrow> \<not> pool_stop s \<Longrightarrow> pool_tasks s = [] \<Longrightarrow>
    pool_step s Pool_internal (worker_at i Blocked s)"
| spurious: "i < length (workers s) \<Longrightarrow> workers s ! i = Blocked \<Longrightarrow> pool_step s Pool_internal (worker_at i Checking s)"
| exit: "i < length (workers s) \<Longrightarrow> workers s ! i = Checking \<Longrightarrow> pool_stop s \<Longrightarrow> pool_step s Exit (worker_at i Exited s)"
| take_task: "i < length (workers s) \<Longrightarrow> workers s ! i = Checking \<Longrightarrow> \<not> pool_stop s \<Longrightarrow> pool_tasks s = t # ts \<Longrightarrow>
    pool_step s (Take t) (worker_at i (Executing t) (s\<lparr>pool_tasks := ts\<rparr>))"
| finish: "i < length (workers s) \<Longrightarrow> workers s ! i = Executing t \<Longrightarrow> pool_step s (Finish t) (worker_at i Checking s)"
  \<comment> \<open>\<open>~ThreadPool\<close>\<close>
| stop_pool: "pool_step s Stop_pool (pool_destroy s)"
| notify_all: "pool_stop s \<Longrightarrow> pool_step s Pool_internal (pool_notify_all s)"

section \<open>Order\<close>

definition posted :: "'t pool_event list \<Rightarrow> 't list" where
  "posted ls = List.map_filter (\<lambda>l. case l of Post t \<Rightarrow> Some t | _ \<Rightarrow> None) ls"

definition started_tasks :: "'t pool_event list \<Rightarrow> 't list" where
  "started_tasks ls = List.map_filter (\<lambda>l. case l of Take t \<Rightarrow> Some t | _ \<Rightarrow> None) ls"

lemma pool_history_simps [simp]:
  "posted [] = []" "posted (ls @ [l]) = posted ls @ (case l of Post t \<Rightarrow> [t] | _ \<Rightarrow> [])"
  "started_tasks [] = []" "started_tasks (ls @ [l]) = started_tasks ls @ (case l of Take t \<Rightarrow> [t] | _ \<Rightarrow> [])"
  by (auto simp: posted_def started_tasks_def List.map_filter_def split: pool_event.splits)

lemma pool_parts [simp]:
  "pool_tasks (pool_post t s) = pool_tasks s @ [t]" "notifying (pool_post t s) = notifying s + 1"
  "pool_stop (pool_post t s) = pool_stop s" "stop_notified (pool_post t s) = stop_notified s" "workers (pool_post t s) = workers s"
  "pool_tasks (pool_destroy s) = pool_tasks s" "notifying (pool_destroy s) = notifying s"
  "pool_stop (pool_destroy s)" "stop_notified (pool_destroy s) = stop_notified s" "workers (pool_destroy s) = workers s"
  "pool_tasks (pool_notify_all s) = pool_tasks s" "notifying (pool_notify_all s) = notifying s"
  "pool_stop (pool_notify_all s) = pool_stop s" "stop_notified (pool_notify_all s)"
  "workers (pool_notify_all s) = map (\<lambda>p. if p = Blocked then Checking else p) (workers s)"
  by (simp_all add: pool_post_def pool_destroy_def pool_notify_all_def)

lemma worker_at_simps [simp]:
  "pool_tasks (worker_at i p s) = pool_tasks s" "pool_stop (worker_at i p s) = pool_stop s"
  "notifying (worker_at i p s) = notifying s" "stop_notified (worker_at i p s) = stop_notified s"
  "workers (worker_at i p s) = (workers s)[i := p]"
  by (simp_all add: worker_at_def)

section \<open>No task is forgotten\<close>

text \<open>
  While a worker sleeps, every queued task has a worker that is about to look for one or a
  notification that is still to come.
\<close>

definition pool_inv :: "'t thread_pool \<Rightarrow> bool" where
  "pool_inv s \<longleftrightarrow>
     (\<not> pool_stop s \<longrightarrow> Exited \<notin> set (workers s)) \<and>
     (\<not> pool_stop s \<longrightarrow> Blocked \<in> set (workers s) \<longrightarrow> length (pool_tasks s) \<le> notifying s + count_list (workers s) Checking) \<and>
     (pool_stop s \<longrightarrow> stop_notified s \<longrightarrow> Blocked \<notin> set (workers s)) \<and>
     (stop_notified s \<longrightarrow> pool_stop s)"

lemma count_list_update:
  "i < length xs \<Longrightarrow> count_list (xs[i := y]) z + (if xs ! i = z then 1 else 0) = count_list xs z + (if y = z then 1 else 0)"
proof (induction xs arbitrary: i)
  case (Cons x xs)
  show ?case
  proof (cases i)
    case (Suc j)
    then show ?thesis using Cons.IH [of j] Cons.prems by auto
  qed simp
qed simp

lemma thread_pool_step_inv:
  assumes "pool_step s l t" "pool_inv s"
  shows "pool_inv t"
  using assms
proof (induction rule: pool_step.induct)
  case (notify_one s n i)
  then show ?case
    using count_list_update [of i "workers s" Checking Checking]
    by (auto simp: pool_inv_def dest!: set_update_subset_insert [THEN subsetD])
next
  case (block i s)
  then show ?case by (auto simp: pool_inv_def dest!: set_update_subset_insert [THEN subsetD])
next
  case (spurious i s)
  then show ?case
    using count_list_update [of i "workers s" Checking Checking]
    by (auto simp: pool_inv_def dest!: set_update_subset_insert [THEN subsetD])
next
  case (exit i s)
  then show ?case by (auto simp: pool_inv_def dest!: set_update_subset_insert [THEN subsetD])
next
  case (take_task i s x ts)
  then show ?case
    using count_list_update [of i "workers s" "Executing x" Checking]
    by (auto simp: pool_inv_def dest!: set_update_subset_insert [THEN subsetD])
next
  case (finish i s x)
  then show ?case
    using count_list_update [of i "workers s" Checking Checking]
    by (auto simp: pool_inv_def dest!: set_update_subset_insert [THEN subsetD])
qed (auto simp: pool_inv_def)

interpretation pool_workers: step_invariant pool_step pool_inv
  by unfold_locales (rule thread_pool_step_inv)

lemma thread_pool_init_inv: "pool_inv (pool_init hardware n)"
  by (simp add: pool_inv_def pool_init_def)

lemma workers_kept: "pool_step s l t \<Longrightarrow> length (workers t) = length (workers s)"
  by (induction rule: pool_step.induct) simp_all

lemma workers_run: "run pool_step s ls t \<Longrightarrow> length (workers t) = length (workers s)"
  by (induction rule: run.induct) (auto dest: workers_kept)

lemma worker_exists: "run pool_step (pool_init hardware n) ls s \<Longrightarrow> workers s \<noteq> []"
  using workers_run by (fastforce simp: pool_init_def worker_count_def split: if_splits)

lemma pool_run: "pool_step s l u \<Longrightarrow> run pool_step u ls t \<Longrightarrow> run pool_step s (l # ls) t"
  by (rule run_cons)

lemma checking_takes:
  assumes "i < length (workers s)" "workers s ! i = Checking" "\<not> pool_stop s" "pool_tasks s = t # ts"
  shows "\<exists>ls u. run pool_step s ls u \<and> Take t \<in> set ls"
proof -
  have "run pool_step s [Take t] (worker_at i (Executing t) (s\<lparr>pool_tasks := ts\<rparr>))"
    by (rule pool_run [OF take_task [OF assms] run_nil])
  then show ?thesis by (intro exI conjI) (assumption, simp)
qed

lemma free_worker_takes:
  assumes "pool_inv s" "\<not> pool_stop s" "pool_tasks s = t # ts" "workers s \<noteq> []"
  shows "\<exists>ls u. run pool_step s ls u \<and> Take t \<in> set ls"
proof -
  obtain i where i: "i < length (workers s)" using assms(4) by auto
  have next_one: "\<exists>ls u. run pool_step s ls u \<and> Take t \<in> set ls"
    if w: "pool_step s l (worker_at j Checking v)" "j < length (workers s)" "workers v = workers s" "pool_stop v = pool_stop s" "pool_tasks v = pool_tasks s" for l j v
  proof -
    obtain ls u where "run pool_step (worker_at j Checking v) ls u" "Take t \<in> set ls"
      using w assms(2,3) checking_takes [of j "worker_at j Checking v" t ts] by auto
    then have "run pool_step s (l # ls) u" "Take t \<in> set (l # ls)" using pool_run [OF w(1)] by (blast, simp)
    then show ?thesis by blast
  qed
  show ?thesis
  proof (cases "workers s ! i")
    case Checking
    then show ?thesis by (rule checking_takes [OF i _ assms(2,3)])
  next
    case (Executing x)
    then show ?thesis using next_one [OF finish [OF i Executing] i] by simp
  next
    case Exited
    then show ?thesis using assms(1,2) i by (auto simp: pool_inv_def dest!: nth_mem)
  next
    case Blocked
    then have "Blocked \<in> set (workers s)" using i nth_mem by metis
    then have le: "length (pool_tasks s) \<le> notifying s + count_list (workers s) Checking" using assms(1,2) by (simp add: pool_inv_def)
    show ?thesis
    proof (cases "notifying s")
      case (Suc n)
      then show ?thesis using next_one [OF notify_one [OF Suc i Blocked] i] by simp
    next
      case 0
      then have "Checking \<in> set (workers s)" using le assms(3) count_list_0_iff [of "workers s" Checking] by fastforce
      then obtain j where j: "j < length (workers s)" "workers s ! j = Checking" by (auto simp: in_set_conv_nth)
      show ?thesis by (rule checking_takes [OF j assms(2,3)])
    qed
  qed
qed

section \<open>Properties\<close>

text \<open>
  The thread pool starts tasks once and in the order in which they were posted; none is started
  out of turn or twice, however producers and workers interleave.
\<close>

theorem pool_runs_in_order:
  assumes "run pool_step (pool_init hardware n) ls s"
  shows "posted ls = started_tasks ls @ pool_tasks s"
  using assms
proof (induction rule: run_history_induct)
  case start
  show ?case by (simp add: pool_init_def)
next
  case (step ls u l v)
  from step(2,3) show ?case by (induction rule: pool_step.induct) auto
qed


text \<open>Once the pool is being destroyed, no task is started any more, whatever is in the queue.\<close>

lemma stopped_pool_starts_nothing: "run pool_step s ls u \<Longrightarrow> pool_stop s \<Longrightarrow> Take t \<notin> set ls"
proof (induction rule: run.induct)
  case (run_cons s l u ls v)
  then have "pool_stop u" "l \<noteq> Take t" by (auto elim: pool_step.cases)
  then show ?case using run_cons by auto
qed simp

lemma sample_post: "run pool_step (pool_init 4 0 :: nat thread_pool) [Post 7] ((pool_init 4 0)\<lparr>pool_tasks := [7], notifying := 1\<rparr>)"
  using pool_run [OF post [of "pool_init 4 0" 7] run_nil] by (simp add: pool_init_def pool_post_def del: run_cons_iff)

theorem pool_runs_in_order_witness:
  "\<exists>s. run pool_step (pool_init 4 0 :: nat thread_pool) [Post 7] s \<and> posted [Post 7] = started_tasks [Post (7 :: nat)] @ pool_tasks s"
  using sample_post pool_runs_in_order [OF sample_post] by blast


end
