(* ===== verification/Future_Handles.thy ===== *)
theory Future_Handles
  imports Main
begin

text \<open>
  Promises, futures and shared futures as their users see them (\<^verbatim>\<open>src/include/nitrocoro/core/Future.h\<close>): which object holds the shared
  state, and every error of \<^verbatim>\<open>std::future_error\<close>. The operations are taken one after the other here; their atomic steps are the
  subject of \<^verbatim>\<open>Coro_Future\<close>.
\<close>

section \<open>State and operations\<close>

datatype future_errc = No_state | Future_already_retrieved | Promise_already_satisfied | Broken_promise

type_synonym awaiter = nat

datatype ('v, 'e) outcome = Value 'v | Error 'e | Future_error future_errc

text \<open>
  One shared state with its handles: whether the promise and the future hold it, how many shared futures do, and the
  coroutines that wait and that have been resumed. \<open>outcome\<close> is present once the list of waiters is closed.
\<close>

record ('v, 'e) shared =
  promise_has :: bool
  future_has :: bool
  shared_count :: nat
  retrieved :: bool
  outcome :: "('v, 'e) outcome option"
  waiting :: "awaiter list"
  resumed :: "awaiter list"

text \<open>\<^verbatim>\<open>Promise::Promise\<close>\<close>

definition new_promise :: "('v, 'e) shared" where
  "new_promise = \<lparr>promise_has = True, future_has = False, shared_count = 0, retrieved = False, outcome = None, waiting = [], resumed = []\<rparr>"

definition get_future :: "('v, 'e) shared \<Rightarrow> future_errc option \<times> ('v, 'e) shared" where
  "get_future s =
     (if \<not> promise_has s then (Some No_state, s)
      else if retrieved s then (Some Future_already_retrieved, s)
      else (None, s\<lparr>retrieved := True, future_has := True\<rparr>))"

text \<open>\<^verbatim>\<open>set_value\<close> and \<^verbatim>\<open>set_exception\<close>: close the list, store, and resume everybody who waits.\<close>

definition satisfy :: "('v, 'e) outcome \<Rightarrow> ('v, 'e) shared \<Rightarrow> future_errc option \<times> ('v, 'e) shared" where
  "satisfy r s =
     (if \<not> promise_has s then (Some No_state, s)
      else if outcome s \<noteq> None then (Some Promise_already_satisfied, s)
      else (None, s\<lparr>outcome := Some r, resumed := resumed s @ waiting s, waiting := []\<rparr>))"

text \<open>\<^verbatim>\<open>Promise::~Promise\<close>; a promise that was moved from has no state.\<close>

definition drop_promise :: "('v, 'e) shared \<Rightarrow> ('v, 'e) shared" where
  "drop_promise s =
     (let s = (if promise_has s \<and> outcome s = None then snd (satisfy (Future_error Broken_promise) s) else s)
      in s\<lparr>promise_has := False\<rparr>)"

text \<open>\<^verbatim>\<open>Future::get\<close> gives an awaiter and lets go of the state; \<^verbatim>\<open>SharedFuture::get\<close> keeps it.\<close>

definition future_get :: "('v, 'e) shared \<Rightarrow> future_errc option \<times> ('v, 'e) shared" where
  "future_get s = (if \<not> future_has s then (Some No_state, s) else (None, s\<lparr>future_has := False\<rparr>))"

definition shared_get :: "bool \<Rightarrow> ('v, 'e) shared \<Rightarrow> future_errc option" where
  "shared_get valid s = (if \<not> valid then Some No_state else None)"

definition share :: "('v, 'e) shared \<Rightarrow> ('v, 'e) shared" where
  "share s = (if future_has s then s\<lparr>future_has := False, shared_count := shared_count s + 1\<rparr> else s)"

definition copy_shared :: "('v, 'e) shared \<Rightarrow> ('v, 'e) shared" where
  "copy_shared s = (if 0 < shared_count s then s\<lparr>shared_count := shared_count s + 1\<rparr> else s)"

text \<open>An awaiter: it goes on at once when the list is closed, and waits otherwise.\<close>

definition await_future :: "awaiter \<Rightarrow> ('v, 'e) shared \<Rightarrow> ('v, 'e) shared" where
  "await_future w s = (if outcome s \<noteq> None then s\<lparr>resumed := resumed s @ [w]\<rparr> else s\<lparr>waiting := waiting s @ [w]\<rparr>)"

text \<open>\<^verbatim>\<open>await_resume\<close>\<close>

definition await_result :: "('v, 'e) shared \<Rightarrow> ('v, 'e) outcome option" where
  "await_result s = outcome s"

datatype ('v, 'e) op =
    Get_future | Satisfy "('v, 'e) outcome" | Drop_promise | Future_get awaiter | Shared_get awaiter | Share | Copy

text \<open>The awaiters of a future and of a shared future that exists are used at once.\<close>

fun do_op :: "('v, 'e) op \<Rightarrow> ('v, 'e) shared \<Rightarrow> ('v, 'e) shared" where
  "do_op Get_future s = snd (get_future s)"
| "do_op (Satisfy r) s = snd (satisfy r s)"
| "do_op Drop_promise s = drop_promise s"
| "do_op (Future_get w) s = (case future_get s of (None, t) \<Rightarrow> await_future w t | (Some e, t) \<Rightarrow> t)"
| "do_op (Shared_get w) s = (if shared_get (0 < shared_count s) s = None then await_future w s else s)"
| "do_op Share s = share s"
| "do_op Copy s = copy_shared s"

definition run_ops :: "('v, 'e) op list \<Rightarrow> ('v, 'e) shared" where
  "run_ops xs = fold do_op xs new_promise"

section \<open>Properties\<close>

definition handles_inv :: "('v, 'e) shared \<Rightarrow> bool" where
  "handles_inv s \<longleftrightarrow> (outcome s \<noteq> None \<longrightarrow> waiting s = []) \<and> (\<not> promise_has s \<longrightarrow> outcome s \<noteq> None) \<and>
     (future_has s \<longrightarrow> retrieved s \<and> shared_count s = 0) \<and> (0 < shared_count s \<longrightarrow> retrieved s) \<and> (outcome s = None \<longrightarrow> resumed s = [])"

lemmas op_defs = get_future_def satisfy_def drop_promise_def future_get_def shared_get_def share_def copy_shared_def await_future_def

lemma do_op_inv: "handles_inv s \<Longrightarrow> handles_inv (do_op x s)"
  by (cases x) (auto simp: handles_inv_def op_defs Let_def)

lemma run_ops_inv: "handles_inv (run_ops xs)"
proof -
  have "handles_inv s \<Longrightarrow> handles_inv (fold do_op xs s)" for s :: "('a, 'b) shared"
    by (induction xs arbitrary: s) (auto intro: do_op_inv)
  moreover have "handles_inv new_promise" by (simp add: handles_inv_def new_promise_def)
  ultimately show ?thesis by (simp add: run_ops_def)
qed

text \<open>
  Nobody waits for a promise that is satisfied or gone: after any calls, a coroutine that waits on the future has a promise that
  lives and has no result yet. A promise that is destroyed without a result gives everybody \<^verbatim>\<open>broken_promise\<close>.
\<close>

theorem nobody_waits_in_vain:
  assumes "w \<in> set (waiting (run_ops xs))"
  shows "promise_has (run_ops xs) \<and> outcome (run_ops xs) = None \<and>
    w \<in> set (resumed (drop_promise (run_ops xs))) \<and> outcome (drop_promise (run_ops xs)) = Some (Future_error Broken_promise)"
proof -
  have o: "outcome (run_ops xs) = None" "promise_has (run_ops xs)" using run_ops_inv [of xs] assms by (auto simp: handles_inv_def)
  then show ?thesis using assms by (simp add: drop_promise_def satisfy_def Let_def)
qed

text \<open>The first result stays: no later call changes it.\<close>

theorem first_result_stays:
  assumes "outcome (run_ops xs) = Some r"
  shows "outcome (run_ops (xs @ ys)) = Some r"
proof -
  have "outcome s = Some r \<Longrightarrow> outcome (do_op x s) = Some r" for x and s :: "('a, 'b) shared"
    by (cases x) (auto simp: op_defs Let_def)
  then have "outcome s = Some r \<Longrightarrow> outcome (fold do_op ys s) = Some r" for s :: "('a, 'b) shared"
    by (induction ys arbitrary: s) auto
  then show ?thesis using assms by (simp add: run_ops_def)
qed

text \<open>The future can be retrieved once.\<close>

theorem future_retrieved_once:
  assumes "fst (get_future (run_ops xs)) = None"
  shows "fst (get_future (run_ops (xs @ Get_future # ys))) \<noteq> None"
proof -
  have "retrieved s \<Longrightarrow> retrieved (do_op x s)" for x and s :: "('a, 'b) shared"
    by (cases x) (auto simp: op_defs Let_def)
  then have "retrieved s \<Longrightarrow> retrieved (fold do_op ys s)" for s :: "('a, 'b) shared" by (induction ys arbitrary: s) auto
  moreover have "retrieved (snd (get_future (run_ops xs)))" using assms by (auto simp: get_future_def split: if_splits)
  ultimately have "retrieved (run_ops (xs @ Get_future # ys))" by (simp add: run_ops_def)
  then show ?thesis by (simp add: get_future_def)
qed

theorem nobody_waits_in_vain_witness:
  "promise_has (run_ops [Get_future, Future_get 5] :: (nat, nat) shared)"
  using nobody_waits_in_vain [of 5 "[Get_future, Future_get 5] :: (nat, nat) op list"]
  by (simp add: run_ops_def new_promise_def op_defs)

end
