(* ===== verification/Coro_Task.thy ===== *)
theory Coro_Task
  imports Main
begin

text \<open>
  Tasks and generators (\<^verbatim>\<open>src/include/nitrocoro/core/Task.h\<close>, \<^verbatim>\<open>Generator.h\<close>, \<^verbatim>\<open>Scheduler::spawn\<close>). A machine with coroutine frames on
  a heap, handles and continuations is compared with the meaning that the code of a coroutine has
  when \<^verbatim>\<open>co_await\<close> is read as a function call.
\<close>

section \<open>Coroutine bodies\<close>

text \<open>
  The body of a coroutine, up to its next \<^verbatim>\<open>co_await\<close>: it returns, throws, awaits another task and goes on with its
  result or exception, or waits for something outside, such as an event of a descriptor.
\<close>

datatype ('v, 'e, 'i) prog =
    Return 'v
  | Throw 'e
  | Co_await "('v, 'e, 'i) prog" "'e + 'v \<Rightarrow> ('v, 'e, 'i) prog"
  | Wait "'i \<Rightarrow> ('v, 'e, 'i) prog"

text \<open>The meaning: the inputs from outside are consumed one by one; \<open>None\<close> when there are not enough of them.\<close>

primrec eval :: "('v, 'e, 'i) prog \<Rightarrow> 'i list \<Rightarrow> (('e + 'v) \<times> 'i list) option" where
  "eval (Return v) = (\<lambda>is. Some (Inr v, is))"
| "eval (Throw e) = (\<lambda>is. Some (Inl e, is))"
| "eval (Co_await p k) = (\<lambda>is. case eval p is of None \<Rightarrow> None | Some (r, js) \<Rightarrow> eval (k r) js)"
| "eval (Wait f) = (\<lambda>is. case is of [] \<Rightarrow> None | i # js \<Rightarrow> eval (f i) js)"

section \<open>The machine\<close>

type_synonym handle = nat

datatype ('v, 'e, 'i) code =
    Run "('v, 'e, 'i) prog"
  | Awaiting handle "'e + 'v \<Rightarrow> ('v, 'e, 'i) prog"   \<comment> \<open>suspended in \<open>co_await\<close> of a task\<close>
  | Parked "'i \<Rightarrow> ('v, 'e, 'i) prog"
  | At_end                                            \<comment> \<open>at the final suspend point\<close>

text \<open>A frame with its promise; \<open>detached\<close> for the coroutine of \<^verbatim>\<open>spawn\<close>.\<close>

record ('v, 'e, 'i) frame =
  code :: "('v, 'e, 'i) code"
  continuation :: "handle option"
  value_of :: "'v option"
  exception_of :: "'e option"
  detached :: bool

record ('v, 'e, 'i) machine =
  frames :: "handle \<Rightarrow> ('v, 'e, 'i) frame option"
  next_handle :: handle
  running :: "handle option"
  parked :: "handle option"
  inputs :: "'i list"
  terminated :: bool

text \<open>\<^verbatim>\<open>get_return_object\<close> and \<^verbatim>\<open>initial_suspend\<close>: a new frame is suspended before its first statement.\<close>

definition new_frame :: "bool \<Rightarrow> ('v, 'e, 'i) prog \<Rightarrow> ('v, 'e, 'i) frame" where
  "new_frame d p = \<lparr>code = Run p, continuation = None, value_of = None, exception_of = None, detached = d\<rparr>"

text \<open>\<^verbatim>\<open>result()\<close>: rethrows, or gives the value; \<open>None\<close> is the access to an empty optional.\<close>

definition result :: "('v, 'e, 'i) frame \<Rightarrow> ('e + 'v) option" where
  "result f = (case exception_of f of Some e \<Rightarrow> Some (Inl e) | None \<Rightarrow> map_option Inr (value_of f))"

definition set_frame :: "handle \<Rightarrow> ('v, 'e, 'i) frame \<Rightarrow> ('v, 'e, 'i) machine \<Rightarrow> ('v, 'e, 'i) machine" where
  "set_frame h f m = m\<lparr>frames := (frames m)(h \<mapsto> f)\<rparr>"

text \<open>\<^verbatim>\<open>destroy()\<close>\<close>

definition destroy :: "handle \<Rightarrow> ('v, 'e, 'i) machine \<Rightarrow> ('v, 'e, 'i) machine" where
  "destroy h m = m\<lparr>frames := (frames m)(h := None)\<rparr>"

text \<open>
  The end of a body: \<^verbatim>\<open>return_value\<close> or \<^verbatim>\<open>unhandled_exception\<close>, then \<^verbatim>\<open>final_suspend\<close>, which transfers control to the
  continuation. A detached coroutine is destroyed instead, and its exception terminates the program.
\<close>

definition finish :: "handle \<Rightarrow> ('v, 'e, 'i) frame \<Rightarrow> 'e + 'v \<Rightarrow> ('v, 'e, 'i) machine \<Rightarrow> ('v, 'e, 'i) machine" where
  "finish h f r m =
     (if detached f then
        (case r of Inl e \<Rightarrow> m\<lparr>terminated := True\<rparr> | Inr v \<Rightarrow> (destroy h m)\<lparr>running := None\<rparr>)
      else
        (let f = (case r of Inl e \<Rightarrow> f\<lparr>exception_of := Some e\<rparr> | Inr v \<Rightarrow> f\<lparr>value_of := Some v\<rparr>)
         in (set_frame h (f\<lparr>code := At_end\<rparr>) m)\<lparr>running := continuation f\<rparr>))"

text \<open>
  \<^verbatim>\<open>TaskAwaiter\<close>: the awaited task has not started, so \<^verbatim>\<open>await_ready\<close> is false; \<^verbatim>\<open>await_suspend\<close> stores the continuation
  and transfers control. When the coroutine is resumed, \<^verbatim>\<open>await_resume\<close> takes the result, and the temporary task is
  destroyed.
\<close>

definition await_task :: "handle \<Rightarrow> ('v, 'e, 'i) frame \<Rightarrow> ('v, 'e, 'i) prog \<Rightarrow> ('e + 'v \<Rightarrow> ('v, 'e, 'i) prog) \<Rightarrow> ('v, 'e, 'i) machine \<Rightarrow> ('v, 'e, 'i) machine" where
  "await_task h f p k m =
     (let c = next_handle m;
          m = set_frame h (f\<lparr>code := Awaiting c k\<rparr>) (m\<lparr>next_handle := c + 1\<rparr>);
          m = set_frame c ((new_frame False p)\<lparr>continuation := Some h\<rparr>) m
      in m\<lparr>running := Some c\<rparr>)"

definition resume_task :: "handle \<Rightarrow> ('v, 'e, 'i) frame \<Rightarrow> handle \<Rightarrow> ('e + 'v \<Rightarrow> ('v, 'e, 'i) prog) \<Rightarrow> ('v, 'e, 'i) machine \<Rightarrow> ('v, 'e, 'i) machine option" where
  "resume_task h f c k m =
     (case frames m c of
        None \<Rightarrow> None
      | Some g \<Rightarrow> (case result g of None \<Rightarrow> None | Some r \<Rightarrow> Some (destroy c (set_frame h (f\<lparr>code := Run (k r)\<rparr>) m))))"

text \<open>
  One step of the running coroutine, or of the scheduler when none is running. \<open>None\<close>: nothing can be done, or a handle
  is used whose frame does not exist.
\<close>

definition machine_step :: "('v, 'e, 'i) machine \<Rightarrow> ('v, 'e, 'i) machine option" where
  "machine_step m =
     (if terminated m then None
      else case running m of
          Some h \<Rightarrow>
            (case frames m h of
               None \<Rightarrow> None
             | Some f \<Rightarrow>
                 (case code f of
                    Run (Return v) \<Rightarrow> Some (finish h f (Inr v) m)
                  | Run (Throw e) \<Rightarrow> Some (finish h f (Inl e) m)
                  | Run (Co_await p k) \<Rightarrow> Some (await_task h f p k m)
                  | Run (Wait g) \<Rightarrow> Some ((set_frame h (f\<lparr>code := Parked g\<rparr>) m)\<lparr>running := None, parked := Some h\<rparr>)
                  | Awaiting c k \<Rightarrow> resume_task h f c k m
                  | _ \<Rightarrow> None))
        | None \<Rightarrow>
            (case (parked m, inputs m) of
               (Some h, i # is) \<Rightarrow>
                 (case frames m h of
                    Some f \<Rightarrow>
                      (case code f of
                         Parked g \<Rightarrow> Some ((set_frame h (f\<lparr>code := Run (g i)\<rparr>) m)\<lparr>running := Some h, parked := None, inputs := is\<rparr>)
                       | _ \<Rightarrow> None)
                  | None \<Rightarrow> None)
             | _ \<Rightarrow> None))"

inductive steps :: "('v, 'e, 'i) machine \<Rightarrow> ('v, 'e, 'i) machine \<Rightarrow> bool" where
  steps_refl: "steps m m"
| steps_step: "machine_step m = Some n \<Longrightarrow> steps n k \<Longrightarrow> steps m k"

lemma steps_trans: "steps a b \<Longrightarrow> steps b c \<Longrightarrow> steps a c"
  by (induction rule: steps.induct) (auto intro: steps_step)

text \<open>\<^verbatim>\<open>spawn\<close>: a detached coroutine that awaits the task.\<close>

definition spawn :: "('v, 'e, 'i) prog \<Rightarrow> 'v \<Rightarrow> 'i list \<Rightarrow> ('v, 'e, 'i) machine" where
  "spawn p unit is =
     \<lparr>frames = [0 \<mapsto> new_frame True (Co_await p (\<lambda>r. case r of Inl e \<Rightarrow> Throw e | Inr _ \<Rightarrow> Return unit))],
      next_handle = 1, running = Some 0, parked = None, inputs = is, terminated = False\<rparr>"

section \<open>The machine computes the meaning\<close>

text \<open>A frame that has ended with a result.\<close>

definition ended :: "('v, 'e, 'i) frame \<Rightarrow> 'e + 'v \<Rightarrow> ('v, 'e, 'i) frame" where
  "ended f r = (case r of Inl e \<Rightarrow> f\<lparr>exception_of := Some e, code := At_end\<rparr> | Inr v \<Rightarrow> f\<lparr>value_of := Some v, code := At_end\<rparr>)"

lemma ended_code: "ended (f\<lparr>code := c\<rparr>) r = ended f r"
  by (cases r) (simp_all add: ended_def)

definition ready :: "('v, 'e, 'i) machine \<Rightarrow> handle \<Rightarrow> ('v, 'e, 'i) frame \<Rightarrow> bool" where
  "ready m h f \<longleftrightarrow> \<not> terminated m \<and> running m = Some h \<and> parked m = None \<and> frames m h = Some f \<and>
     (\<forall>x \<ge> next_handle m. frames m x = None)"

text \<open>From state \<open>m\<close> the coroutine \<open>h\<close> has come to its end in state \<open>n\<close>; all other frames are as they were.\<close>

definition returns :: "('v, 'e, 'i) machine \<Rightarrow> handle \<Rightarrow> ('v, 'e, 'i) frame \<Rightarrow> 'e + 'v \<Rightarrow> 'i list \<Rightarrow> ('v, 'e, 'i) machine \<Rightarrow> bool" where
  "returns m h f r js n \<longleftrightarrow> steps m n \<and> running n = continuation f \<and> parked n = None \<and> \<not> terminated n \<and> inputs n = js \<and>
     frames n = (frames m)(h \<mapsto> ended f r) \<and> next_handle m \<le> next_handle n"

lemma returns_later:
  assumes "steps m k" "returns k h (f\<lparr>code := c\<rparr>) r js n" "frames k = (frames m)(h \<mapsto> g)" "next_handle m \<le> next_handle k"
  shows "returns m h f r js n"
  using assms by (auto simp: returns_def ended_code intro: steps_trans)

text \<open>A coroutine that is not detached runs to its end, and leaves everything else as it was.\<close>

definition completes :: "('v, 'e, 'i) prog \<Rightarrow> bool" where
  "completes p \<longleftrightarrow> (\<forall>m h f r js. ready m h f \<longrightarrow> code f = Run p \<longrightarrow> \<not> detached f \<longrightarrow> eval p (inputs m) = Some (r, js) \<longrightarrow>
     (\<exists>n. returns m h f r js n))"

lemma result_ended [simp]: "value_of f = None \<Longrightarrow> exception_of f = None \<Longrightarrow> result (ended f r) = Some r"
  by (cases r) (simp_all add: ended_def result_def)

lemma steps_one: "machine_step m = Some n \<Longrightarrow> steps m n"
  by (auto intro: steps_step steps_refl)

lemma finish_returns:
  assumes "ready m h f" "\<not> detached f" "machine_step m = Some (finish h f r m)"
  shows "returns m h f r (inputs m) (finish h f r m)"
  using assms by (cases r) (auto simp: returns_def finish_def ready_def set_frame_def ended_def Let_def intro: steps_one)

text \<open>The await of a task that completes, up to the point where its result was taken.\<close>

lemma await_completes:
  assumes "completes p" "ready m h f" "code f = Run (Co_await p k)" "eval p (inputs m) = Some (r, js)"
  obtains n where "steps m n" "ready n h (f\<lparr>code := Run (k r)\<rparr>)" "inputs n = js" "frames n = (frames m)(h \<mapsto> f\<lparr>code := Run (k r)\<rparr>)"
    "next_handle m \<le> next_handle n"
proof -
  let ?c = "next_handle m"
  let ?g = "(new_frame False p)\<lparr>continuation := Some h\<rparr>"
  let ?a = "await_task h f p k m"
  have m: "\<not> terminated m" "running m = Some h" "parked m = None" "frames m h = Some f" "\<And>x. ?c \<le> x \<Longrightarrow> frames m x = None"
    using assms(2) by (simp_all add: ready_def)
  have ne: "h \<noteq> ?c" using m(4) m(5) [of ?c] by auto
  have s1: "machine_step m = Some ?a" using m assms(3) by (simp add: machine_step_def)
  have a: "frames ?a = (frames m)(h \<mapsto> f\<lparr>code := Awaiting ?c k\<rparr>, ?c \<mapsto> ?g)" "running ?a = Some ?c" "parked ?a = None" "\<not> terminated ?a"
    "inputs ?a = inputs m" "next_handle ?a = ?c + 1"
    using m by (simp_all add: await_task_def set_frame_def Let_def)
  have ra: "ready ?a ?c ?g" using m(4,5) ne by (auto simp: ready_def a)
  have c: "code ?g = Run p" "\<not> detached ?g" "value_of ?g = None" "exception_of ?g = None" by (simp_all add: new_frame_def)
  obtain n where n: "steps ?a n" "running n = Some h" "parked n = None" "\<not> terminated n" "inputs n = js"
    "frames n = (frames ?a)(?c \<mapsto> ended ?g r)" "?c + 1 \<le> next_handle n"
    using assms(1) [unfolded completes_def, rule_format, OF ra c(1,2)] assms(4) a(5,6) by (auto simp: returns_def)
  let ?f = "f\<lparr>code := Run (k r)\<rparr>"
  let ?e = "destroy ?c (set_frame h ?f n)"
  have "frames n h = Some (f\<lparr>code := Awaiting ?c k\<rparr>)" "frames n ?c = Some (ended ?g r)" using ne by (simp_all add: n(6) a(1))
  then have s2: "machine_step n = Some ?e" using n(2,4) c(3,4) by (simp add: machine_step_def resume_task_def)
  have fe: "frames ?e = (frames m)(h \<mapsto> ?f)"
    using ne m(5) [of ?c] by (auto simp: destroy_def set_frame_def n(6) a(1))
  have "ready ?e h ?f" using n m(4,5) ne by (auto simp: ready_def fe) (simp_all add: destroy_def set_frame_def)
  moreover have "steps m ?e" using steps_step [OF s1 steps_trans [OF n(1) steps_one [OF s2]]] .
  moreover have "inputs ?e = js" "?c \<le> next_handle ?e" using n(5,7) by (simp_all add: destroy_def set_frame_def)
  ultimately show thesis using fe by (intro that)
qed

lemma completesI:
  assumes "\<And>m h f r js. ready m h f \<Longrightarrow> code f = Run p \<Longrightarrow> \<not> detached f \<Longrightarrow> eval p (inputs m) = Some (r, js) \<Longrightarrow> \<exists>n. returns m h f r js n"
  shows "completes p"
  using assms unfolding completes_def by blast

lemma completesD:
  assumes "completes p" "ready m h f" "code f = Run p" "\<not> detached f" "eval p (inputs m) = Some (r, js)"
  obtains n where "returns m h f r js n"
  using assms unfolding completes_def by blast

lemma all_complete: "completes p"
proof (induction p)
  case (Return v)
  show ?case
  proof (rule completesI)
    fix m :: "('a, 'b, 'c) machine" and h f js and r :: "'b + 'a"
    assume a: "ready m h f" "code f = Run (Return v)" "\<not> detached f" "eval (Return v) (inputs m) = Some (r, js)"
    have "machine_step m = Some (finish h f r m)" using a by (auto simp: machine_step_def ready_def)
    then show "\<exists>n. returns m h f r js n" using finish_returns [OF a(1,3)] a(4) by auto
  qed
next
  case (Throw e)
  show ?case
  proof (rule completesI)
    fix m :: "('a, 'b, 'c) machine" and h f js and r :: "'b + 'a"
    assume a: "ready m h f" "code f = Run (Throw e)" "\<not> detached f" "eval (Throw e) (inputs m) = Some (r, js)"
    have "machine_step m = Some (finish h f r m)" using a by (auto simp: machine_step_def ready_def)
    then show "\<exists>n. returns m h f r js n" using finish_returns [OF a(1,3)] a(4) by auto
  qed
next
  case (Co_await p k)
  show ?case
  proof (rule completesI)
    fix m :: "('a, 'b, 'c) machine" and h f js and r :: "'b + 'a"
    assume a: "ready m h f" "code f = Run (Co_await p k)" "\<not> detached f" "eval (Co_await p k) (inputs m) = Some (r, js)"
    obtain q ks where q: "eval p (inputs m) = Some (q, ks)" "eval (k q) ks = Some (r, js)" using a(4) by (auto split: option.splits)
    obtain n where n: "steps m n" "ready n h (f\<lparr>code := Run (k q)\<rparr>)" "inputs n = ks" "frames n = (frames m)(h \<mapsto> f\<lparr>code := Run (k q)\<rparr>)"
      "next_handle m \<le> next_handle n"
      by (rule await_completes [OF Co_await(1) a(1,2) q(1)])
    have "completes (k q)" using Co_await(2) by blast
    then obtain l where "returns n h (f\<lparr>code := Run (k q)\<rparr>) r js l"
      by (rule completesD [OF _ n(2)]) (use n(3) q(2) a(3) in simp_all)
    then show "\<exists>n. returns m h f r js n" using returns_later [OF n(1) _ n(4,5)] by blast
  qed
next
  case (Wait g)
  show ?case
  proof (rule completesI)
    fix m :: "('a, 'b, 'c) machine" and h f js and r :: "'b + 'a"
    assume a: "ready m h f" "code f = Run (Wait g)" "\<not> detached f" "eval (Wait g) (inputs m) = Some (r, js)"
    obtain i ks where i: "inputs m = i # ks" "eval (g i) ks = Some (r, js)" using a(4) by (auto split: list.splits)
    let ?p = "(set_frame h (f\<lparr>code := Parked g\<rparr>) m)\<lparr>running := None, parked := Some h\<rparr>"
    let ?f = "f\<lparr>code := Run (g i)\<rparr>"
    let ?n = "(set_frame h ?f ?p)\<lparr>running := Some h, parked := None, inputs := ks\<rparr>"
    have "machine_step m = Some ?p" using a(1,2) by (simp add: machine_step_def ready_def)
    moreover have "machine_step ?p = Some ?n" using a(1) i(1) by (simp add: machine_step_def ready_def set_frame_def)
    ultimately have s: "steps m ?n" by (blast intro: steps_step steps_refl)
    have "ready ?n h ?f" using a(1) by (auto simp: ready_def set_frame_def)
    moreover have "completes (g i)" using Wait by blast
    ultimately obtain l where "returns ?n h ?f r js l"
      using completesD [of "g i" ?n h ?f r js] i(2) a(3) by auto
    then show "\<exists>n. returns m h f r js n" using returns_later [OF s, where h = h and f = f and n = l and g = ?f] by (auto simp: set_frame_def)
  qed
qed

section \<open>Owning a frame\<close>

text \<open>
  Objects of type \<^verbatim>\<open>Task\<close> and \<^verbatim>\<open>Generator\<close> own a frame or none. \<open>None\<close> as a result: a frame was destroyed twice.
\<close>

record ownership =
  owns :: "nat \<Rightarrow> handle option"
  alive :: "handle set"
  fresh :: handle

definition own_init :: ownership where
  "own_init = \<lparr>owns = (\<lambda>_. None), alive = {}, fresh = 0\<rparr>"

definition destroy_owned :: "nat \<Rightarrow> ownership \<Rightarrow> ownership option" where
  "destroy_owned d s =
     (case owns s d of
        None \<Rightarrow> Some s
      | Some h \<Rightarrow> if h \<in> alive s then Some (s\<lparr>alive := alive s - {h}\<rparr>) else None)"

text \<open>A call of a coroutine, the move constructor, the move assignment and the destructor.\<close>

definition own_create :: "nat \<Rightarrow> ownership \<Rightarrow> ownership option" where
  "own_create d s = Some (s\<lparr>owns := (owns s)(d \<mapsto> fresh s), alive := insert (fresh s) (alive s), fresh := fresh s + 1\<rparr>)"

definition own_move :: "nat \<Rightarrow> nat \<Rightarrow> ownership \<Rightarrow> ownership option" where
  "own_move d e s = Some (s\<lparr>owns := (owns s)(d := owns s e, e := None)\<rparr>)"

definition own_assign :: "nat \<Rightarrow> nat \<Rightarrow> ownership \<Rightarrow> ownership option" where
  "own_assign d e s =
     (if d = e then Some s
      else (case destroy_owned d s of None \<Rightarrow> None | Some s \<Rightarrow> Some (s\<lparr>owns := (owns s)(d := owns s e, e := None)\<rparr>)))"

definition own_destroy :: "nat \<Rightarrow> ownership \<Rightarrow> ownership option" where
  "own_destroy d s = (case destroy_owned d s of None \<Rightarrow> None | Some s \<Rightarrow> Some (s\<lparr>owns := (owns s)(d := None)\<rparr>))"

datatype own_op = Create nat | Move nat nat | Assign nat nat | Destroy nat

text \<open>The objects that are constructed, by a call or by a move, are new ones.\<close>

fun own_do :: "own_op \<Rightarrow> ownership \<Rightarrow> ownership option" where
  "own_do (Create d) s = (if owns s d = None then own_create d s else Some s)"
| "own_do (Move d e) s = (if owns s d = None \<and> d \<noteq> e then own_move d e s else Some s)"
| "own_do (Assign d e) s = own_assign d e s"
| "own_do (Destroy d) s = own_destroy d s"

fun own_run :: "own_op list \<Rightarrow> ownership \<Rightarrow> ownership option" where
  "own_run [] s = Some s"
| "own_run (x # xs) s = (case own_do x s of None \<Rightarrow> None | Some s \<Rightarrow> own_run xs s)"

definition own_inv :: "ownership \<Rightarrow> bool" where
  "own_inv s \<longleftrightarrow> (\<forall>d e h. owns s d = Some h \<longrightarrow> owns s e = Some h \<longrightarrow> d = e) \<and> alive s = ran (owns s) \<and> (\<forall>h\<in>alive s. h < fresh s)"

lemma own_destroyed:
  assumes "own_inv s"
  obtains t where "destroy_owned d s = Some t" "alive t = alive s - set_option (owns s d)" "owns t = owns s" "fresh t = fresh s"
proof -
  have "h \<in> alive s" if "owns s d = Some h" for h using assms that unfolding own_inv_def by (auto intro: ranI)
  then have "destroy_owned d s = Some (s\<lparr>alive := alive s - set_option (owns s d)\<rparr>)"
    by (cases "owns s d") (auto simp: destroy_owned_def)
  then show thesis by (rule that) simp_all
qed

lemma own_step_inv:
  assumes "own_inv s"
  shows "\<exists>t. own_do x s = Some t \<and> own_inv t"
proof (cases x)
  case (Create d)
  have "ran ((owns s)(d \<mapsto> fresh s)) = insert (fresh s) (ran (owns s))" if "owns s d = None" using that by (rule ran_map_upd)
  then show ?thesis using assms Create unfolding own_inv_def by (auto simp: own_create_def less_Suc_eq intro: ranI)
next
  case (Move d e)
  have "ran ((owns s)(d := owns s e, e := None)) = ran (owns s)" if "owns s d = None" "d \<noteq> e"
  proof (intro set_eqI iffI)
    fix h assume "h \<in> ran (owns s)"
    then obtain a where "owns s a = Some h" by (auto simp: ran_def)
    then show "h \<in> ran ((owns s)(d := owns s e, e := None))" using that by (intro ranI [of _ "if a = e then d else a"]) auto
  qed (auto simp: ran_def split: if_splits)
  then show ?thesis using assms Move unfolding own_inv_def by (auto simp: own_move_def split: if_splits)
next
  case (Assign d e)
  obtain t where t: "destroy_owned d s = Some t" "alive t = alive s - set_option (owns s d)" "owns t = owns s" "fresh t = fresh s"
    by (rule own_destroyed [OF assms])
  show ?thesis
  proof (cases "d = e")
    case False
    let ?u = "t\<lparr>owns := (owns s)(d := owns s e, e := None)\<rparr>"
    have "ran ((owns s)(d := owns s e, e := None)) = ran (owns s) - set_option (owns s d)"
      using assms False unfolding own_inv_def by (auto simp: ran_def split: if_splits) metis+
    then have "own_inv ?u" using assms t unfolding own_inv_def by auto
    then show ?thesis using Assign False t by (auto simp: own_assign_def)
  qed (use assms Assign in \<open>simp add: own_assign_def\<close>)
next
  case (Destroy d)
  obtain t where t: "destroy_owned d s = Some t" "alive t = alive s - set_option (owns s d)" "owns t = owns s" "fresh t = fresh s"
    by (rule own_destroyed [OF assms])
  have "ran ((owns s)(d := None)) = ran (owns s) - set_option (owns s d)"
    using assms unfolding own_inv_def by (auto simp: ran_def split: if_splits)
  then have "own_inv (t\<lparr>owns := (owns s)(d := None)\<rparr>)" using assms t unfolding own_inv_def by auto
  then show ?thesis using Destroy t by (auto simp: own_destroy_def)
qed

lemma own_run_inv: "own_inv s \<Longrightarrow> \<exists>t. own_run xs s = Some t \<and> own_inv t"
proof (induction xs arbitrary: s)
  case (Cons x xs)
  then show ?case using own_step_inv [OF Cons.prems, of x] by auto
qed simp

section \<open>Generators\<close>

text \<open>
  The body of a generator: the values it yields, and how it ends. A generator is where its body is,
  with the promise; \<open>g_value\<close> is what \<^verbatim>\<open>value_\<close> points to.
\<close>

datatype 'e ending = Returns | Throws 'e

record ('a, 'e) generator =
  rest :: "'a list"
  ending :: "'e ending"
  g_value :: "'a option"
  g_exception :: "'e option"
  g_done :: bool

definition new_generator :: "'a list \<Rightarrow> 'e ending \<Rightarrow> ('a, 'e) generator" where
  "new_generator ys e = \<lparr>rest = ys, ending = e, g_value = None, g_exception = None, g_done = False\<rparr>"

text \<open>\<^verbatim>\<open>handle_.resume()\<close>: up to the next \<^verbatim>\<open>co_yield\<close> or to the final suspend point.\<close>

definition resume_generator :: "('a, 'e) generator \<Rightarrow> ('a, 'e) generator" where
  "resume_generator g =
     (case rest g of
        y # ys \<Rightarrow> g\<lparr>g_value := Some y, rest := ys\<rparr>
      | [] \<Rightarrow> (case ending g of Returns \<Rightarrow> g\<lparr>g_done := True\<rparr> | Throws e \<Rightarrow> g\<lparr>g_exception := Some e, g_done := True\<rparr>))"

text \<open>An iterator: \<open>None\<close> is the end, with a null handle. \<^verbatim>\<open>begin\<close> and \<^verbatim>\<open>operator++\<close> may rethrow.\<close>

definition gen_begin :: "('a, 'e) generator \<Rightarrow> 'e + ('a, 'e) generator option" where
  "gen_begin g =
     (let g = resume_generator g in
      if g_done g then Inr None
      else case g_exception g of Some e \<Rightarrow> Inl e | None \<Rightarrow> Inr (Some g))"

definition gen_next :: "('a, 'e) generator \<Rightarrow> 'e + ('a, 'e) generator option" where
  "gen_next g =
     (let g = resume_generator g in
      if g_done g then (case g_exception g of Some e \<Rightarrow> Inl e | None \<Rightarrow> Inr None)
      else Inr (Some g))"

lemma resume_shorter: "\<not> g_done (resume_generator g) \<Longrightarrow> \<not> g_done g \<Longrightarrow> length (rest (resume_generator g)) < length (rest g)"
  by (auto simp: resume_generator_def split: list.splits ending.splits)

text \<open>The loop \<^verbatim>\<open>for (auto & x : generator)\<close>: the values seen, and the exception that left it.\<close>

function gen_loop :: "('a, 'e) generator \<Rightarrow> 'a list \<times> 'e option" where
  "gen_loop g =
     (if g_done g then ([], None)
      else case gen_next g of
          Inl e \<Rightarrow> (map the [g_value g], Some e)
        | Inr None \<Rightarrow> (map the [g_value g], None)
        | Inr (Some h) \<Rightarrow> (case gen_loop h of (xs, e) \<Rightarrow> (the (g_value g) # xs, e)))"
  by pat_completeness auto

termination
  by (relation "measure (length \<circ> rest)") (auto simp: gen_next_def Let_def split: if_splits option.splits intro: resume_shorter)

declare gen_loop.simps [simp del]

definition for_each :: "('a, 'e) generator \<Rightarrow> 'a list \<times> 'e option" where
  "for_each g = (case gen_begin g of Inl e \<Rightarrow> ([], Some e) | Inr None \<Rightarrow> ([], None) | Inr (Some h) \<Rightarrow> gen_loop h)"

fun ending_exception :: "'e ending \<Rightarrow> 'e option" where
  "ending_exception Returns = None"
| "ending_exception (Throws e) = Some e"

lemma gen_loop_yields:
  "\<not> g_done g \<Longrightarrow> g_exception g = None \<Longrightarrow> g_value g = Some y \<Longrightarrow> gen_loop g = (y # rest g, ending_exception (ending g))"
proof (induction "rest g" arbitrary: g y)
  case Nil
  then show ?case by (subst gen_loop.simps) (auto simp: gen_next_def resume_generator_def Let_def split: ending.splits)
next
  case (Cons z zs)
  let ?h = "g\<lparr>g_value := Some z, rest := zs\<rparr>"
  have n: "gen_next g = Inr (Some ?h)" using Cons(2) Cons.prems by (simp add: gen_next_def resume_generator_def Let_def flip: Cons(2))
  have "gen_loop ?h = (z # zs, ending_exception (ending g))" using Cons.hyps(1) [of ?h z] Cons.prems by simp
  then show ?case using Cons.prems n by (subst gen_loop.simps) (simp flip: Cons.hyps(2))
qed

section \<open>Properties\<close>

text \<open>
  C19. Coroutine tasks behave like function calls: for every body, \<^verbatim>\<open>spawn\<close> runs it to its end when enough input arrives, with
  the result or the exception that the body has when each \<^verbatim>\<open>co_await\<close> is read as a call; no handle is used
  after its frame was destroyed, and all frames are gone afterwards. An exception that leaves the
  spawned task terminates the program.
\<close>

theorem tasks_are_calls:
  assumes "eval p ks = Some (r, js)"
  shows "\<exists>n. steps (spawn p u ks) n \<and> inputs n = js \<and>
    (case r of Inr v \<Rightarrow> frames n = Map.empty \<and> running n = None \<and> \<not> terminated n | Inl e \<Rightarrow> terminated n)"
proof -
  let ?k = "\<lambda>r. case r of Inl e \<Rightarrow> Throw e | Inr _ \<Rightarrow> Return u"
  let ?m = "spawn p u ks"
  let ?f = "new_frame True (Co_await p ?k)"
  have m: "ready ?m 0 ?f" "code ?f = Run (Co_await p ?k)" "eval p (inputs ?m) = Some (r, js)"
    using assms by (auto simp: ready_def spawn_def new_frame_def)
  obtain n where n: "steps ?m n" "ready n 0 (?f\<lparr>code := Run (?k r)\<rparr>)" "inputs n = js" "frames n = (frames ?m)(0 \<mapsto> ?f\<lparr>code := Run (?k r)\<rparr>)"
    by (rule await_completes [OF all_complete m])
  let ?e = "finish 0 (?f\<lparr>code := Run (?k r)\<rparr>) (case r of Inl e \<Rightarrow> Inl e | Inr _ \<Rightarrow> Inr u) n"
  have s: "machine_step n = Some ?e" using n(2) by (cases r) (simp_all add: machine_step_def ready_def)
  have "frames n = [0 \<mapsto> ?f\<lparr>code := Run (?k r)\<rparr>]" using n(4) by (simp add: spawn_def)
  then have "inputs ?e = js \<and> (case r of Inr v \<Rightarrow> frames ?e = Map.empty \<and> running ?e = None \<and> \<not> terminated ?e | Inl e \<Rightarrow> terminated ?e)"
    using n(2,3) by (cases r) (simp_all add: finish_def new_frame_def destroy_def ready_def)
  then show ?thesis using steps_trans [OF n(1) steps_one [OF s]] by blast
qed

text \<open>
  Frames are neither leaked nor destroyed twice, in any sequence of calls, moves, assignments and destructions: the
  frames that are alive are those that some object owns, and each has one owner.
\<close>

theorem frames_owned_once:
  "\<exists>t. own_run xs own_init = Some t \<and> alive t = ran (owns t) \<and> (\<forall>d e h. owns t d = Some h \<longrightarrow> owns t e = Some h \<longrightarrow> d = e)"
proof -
  have "own_inv own_init" by (simp add: own_inv_def own_init_def)
  from own_run_inv [OF this, of xs] show ?thesis unfolding own_inv_def by blast
qed

text \<open>A loop over a generator that yields at least one value sees all values in order, and then the exception of the body.\<close>

theorem generator_yields_all: "for_each (new_generator (y # ys) e) = (y # ys, ending_exception e)"
  using gen_loop_yields [of "\<lparr>rest = ys, ending = e, g_value = Some y, g_exception = None, g_done = False\<rparr>" y]
  by (simp add: for_each_def gen_begin_def new_generator_def resume_generator_def Let_def)

text \<open>An exception before the first value is lost.\<close>

theorem generator_first_exception_lost: "for_each (new_generator [] (Throws e)) = ([], None)"
  by (simp add: for_each_def gen_begin_def new_generator_def resume_generator_def Let_def)

theorem tasks_are_calls_witness:
  "\<exists>n. steps (spawn (Co_await (Wait (\<lambda>i. if i = (0 :: nat) then Throw ''bad'' else Return i)) (\<lambda>r. case r of Inl e \<Rightarrow> Return 7 | Inr v \<Rightarrow> Return v)) 0 [0 :: nat]) n \<and>
     frames n = Map.empty \<and> \<not> terminated n"
  using tasks_are_calls [of "Co_await (Wait (\<lambda>i. if i = (0 :: nat) then Throw ''bad'' else Return i)) (\<lambda>r. case r of Inl e \<Rightarrow> Return 7 | Inr v \<Rightarrow> Return v)"
    "[0]" "Inr 7" "[]" 0] by auto

end
