(* ===== verification/Io_Table.thy ===== *)
theory Io_Table
  imports Main "HOL-Library.Word"
begin

unbundle bit_operations_syntax

text \<open>
  The I/O contexts of a scheduler (\<^verbatim>\<open>setIoHandler\<close>, \<^verbatim>\<open>updateIo\<close>, \<^verbatim>\<open>removeIo\<close>, \<^verbatim>\<open>process_io_events\<close> of
  \<^verbatim>\<open>src/src/Scheduler.cc\<close>). The table maps a file descriptor to the channel that registered it, named by
  its increasing id, with its handler and whether it was added to epoll. The calls of
  \<^verbatim>\<open>epoll_ctl\<close> are logged; their success is decided by a parameter that may depend on the calls before.
  A failed assertion, the call of an empty function and an exception are errors.
\<close>

section \<open>Contexts\<close>

type_synonym fd = int
type_synonym ev_mask = "32 word"

definition EPOLLIN :: ev_mask where "EPOLLIN = 0x001"

definition EPOLLOUT :: ev_mask where "EPOLLOUT = 0x004"

definition EPOLLERR :: ev_mask where "EPOLLERR = 0x008"

definition EPOLLHUP :: ev_mask where "EPOLLHUP = 0x010"

definition EPOLLET :: ev_mask where "EPOLLET = 0x80000000"

definition has :: "ev_mask \<Rightarrow> ev_mask \<Rightarrow> bool" where
  "has ev m \<longleftrightarrow> ev AND m \<noteq> 0"

datatype trigger_mode = EdgeTriggered | LevelTriggered

record 'h io_context =
  io_id :: "64 word"
  handler :: "'h option"
  addedToEpoll :: bool

datatype epoll_call =
    Ctl_add fd ev_mask
  | Ctl_mod fd ev_mask
  | Ctl_del fd
  | Fd_closed fd      \<comment> \<open>not a call of the scheduler: the descriptor was closed, which removes it from epoll\<close>

datatype io_error = Assertion_failed | Bad_function_call | Epoll_ctl_failed

record 'h io_table =
  ioContexts :: "fd \<rightharpoonup> 'h io_context"
  ctl_log :: "(epoll_call \<times> bool) list"

definition io_table_empty :: "'h io_table" where
  "io_table_empty = \<lparr>ioContexts = Map.empty, ctl_log = []\<rparr>"

definition put_context :: "fd \<Rightarrow> 'h io_context \<Rightarrow> 'h io_table \<Rightarrow> 'h io_table" where
  "put_context fd c t = t\<lparr>ioContexts := (ioContexts t)(fd \<mapsto> c)\<rparr>"

definition setIoHandler :: "fd \<Rightarrow> 64 word \<Rightarrow> 'h \<Rightarrow> 'h io_table \<Rightarrow> io_error + 'h io_table" where
  "setIoHandler fd i h t =
     (case ioContexts t fd of
        Some c \<Rightarrow>
          if io_id c \<noteq> i then
            (if i < io_id c then Inr t
             else Inr (put_context fd \<lparr>io_id = i, handler = Some h, addedToEpoll = False\<rparr> t))
          else if handler c \<noteq> None then Inl Assertion_failed
          else Inr (put_context fd (c\<lparr>handler := Some h\<rparr>) t)
      | None \<Rightarrow> Inr (put_context fd \<lparr>io_id = i, handler = Some h, addedToEpoll = False\<rparr> t))"

text \<open>\<^verbatim>\<open>epoll_ctl\<close>: \<open>ok\<close> gives the outcome of a call after the calls logged so far.\<close>

type_synonym ctl_outcome = "(epoll_call \<times> bool) list \<Rightarrow> epoll_call \<Rightarrow> bool"

definition epoll_ctl :: "ctl_outcome \<Rightarrow> epoll_call \<Rightarrow> 'h io_table \<Rightarrow> bool \<times> 'h io_table" where
  "epoll_ctl ok call t = (let r = ok (ctl_log t) call in (r, t\<lparr>ctl_log := ctl_log t @ [(call, r)]\<rparr>))"

text \<open>The context that \<^verbatim>\<open>updateIo\<close> works on; none when the operation is stale.\<close>

definition update_context :: "fd \<Rightarrow> 64 word \<Rightarrow> 'h io_table \<Rightarrow> 'h io_context option" where
  "update_context fd i t =
     (case ioContexts t fd of
        Some c \<Rightarrow>
          if io_id c \<noteq> i then
            (if i < io_id c then None else Some \<lparr>io_id = i, handler = None, addedToEpoll = False\<rparr>)
          else Some c
      | None \<Rightarrow> Some \<lparr>io_id = i, handler = None, addedToEpoll = False\<rparr>)"

definition epoll_flags :: "ev_mask \<Rightarrow> trigger_mode \<Rightarrow> ev_mask" where
  "epoll_flags events mode = events OR (if mode = EdgeTriggered then EPOLLET else 0)"

definition updateIo :: "ctl_outcome \<Rightarrow> fd \<Rightarrow> 64 word \<Rightarrow> ev_mask \<Rightarrow> trigger_mode \<Rightarrow> 'h io_table \<Rightarrow> io_error + 'h io_table" where
  "updateIo ok fd i events mode t =
     (case update_context fd i t of
        None \<Rightarrow> Inr t
      | Some c \<Rightarrow>
          (let t = put_context fd c t in
           if events = 0 then
             (if addedToEpoll c
              then (case epoll_ctl ok (Ctl_del fd) t of (_, t) \<Rightarrow> Inr (put_context fd (c\<lparr>addedToEpoll := False\<rparr>) t))
              else Inr t)
           else
             (let ev = epoll_flags events mode;
                  call = (if addedToEpoll c then Ctl_mod fd ev else Ctl_add fd ev)
              in case epoll_ctl ok call t of
                   (False, _) \<Rightarrow> Inl Epoll_ctl_failed
                 | (True, t) \<Rightarrow> Inr (put_context fd (c\<lparr>addedToEpoll := True\<rparr>) t))))"

definition removeIo :: "ctl_outcome \<Rightarrow> fd \<Rightarrow> 64 word \<Rightarrow> 'h io_table \<Rightarrow> io_error + 'h io_table" where
  "removeIo ok fd i t =
     (case ioContexts t fd of
        None \<Rightarrow> Inl Assertion_failed
      | Some c \<Rightarrow>
          if io_id c \<noteq> i then Inr t
          else
            (let t = t\<lparr>ioContexts := (ioContexts t)(fd := None)\<rparr> in
             if \<not> addedToEpoll c then Inr t
             else Inr (snd (epoll_ctl ok (Ctl_del fd) t))))"

text \<open>
  \<^verbatim>\<open>process_io_events\<close> for the events that \<^verbatim>\<open>epoll_wait\<close> returned; \<open>invoke\<close> is the effect of a handler on
  the state of the scheduler, of which \<open>table\<close> is a part. The events of the wakeup descriptor only
  empty its counter.
\<close>

fun process_io_events ::
  "('s \<Rightarrow> 'h io_table) \<Rightarrow> ('h \<Rightarrow> fd \<Rightarrow> ev_mask \<Rightarrow> 's \<Rightarrow> 's) \<Rightarrow> ('s \<Rightarrow> 's) \<Rightarrow> fd \<Rightarrow> (fd \<times> ev_mask) list \<Rightarrow> 's \<Rightarrow> io_error + 's"
where
  "process_io_events table invoke drain wakeupFd [] s = Inr s"
| "process_io_events table invoke drain wakeupFd ((fd, ev) # evs) s =
     (if fd = wakeupFd then process_io_events table invoke drain wakeupFd evs (drain s)
      else case ioContexts (table s) fd of
          None \<Rightarrow> process_io_events table invoke drain wakeupFd evs s
        | Some c \<Rightarrow>
            (case handler c of
               None \<Rightarrow> Inl Bad_function_call
             | Some h \<Rightarrow> process_io_events table invoke drain wakeupFd evs (invoke h fd ev s)))"

section \<open>Operations of channels\<close>

datatype 'h io_op =
    Set_handler fd "64 word" 'h
  | Update fd "64 word" ev_mask trigger_mode
  | Remove fd "64 word"
  | Close fd

fun apply_op :: "ctl_outcome \<Rightarrow> 'h io_op \<Rightarrow> 'h io_table \<Rightarrow> io_error + 'h io_table" where
  "apply_op ok (Set_handler fd i h) t = setIoHandler fd i h t"
| "apply_op ok (Update fd i events mode) t = updateIo ok fd i events mode t"
| "apply_op ok (Remove fd i) t = removeIo ok fd i t"
| "apply_op ok (Close fd) t = Inr (t\<lparr>ctl_log := ctl_log t @ [(Fd_closed fd, True)]\<rparr>)"

fun apply_ops :: "ctl_outcome \<Rightarrow> 'h io_op list \<Rightarrow> 'h io_table \<Rightarrow> io_error + 'h io_table" where
  "apply_ops ok [] t = Inr t"
| "apply_ops ok (x # xs) t = (case apply_op ok x t of Inl e \<Rightarrow> Inl e | Inr t \<Rightarrow> apply_ops ok xs t)"

fun op_fd :: "'h io_op \<Rightarrow> fd" where
  "op_fd (Set_handler fd i h) = fd"
| "op_fd (Update fd i ev m) = fd"
| "op_fd (Remove fd i) = fd"
| "op_fd (Close fd) = fd"

text \<open>Operations of a channel that is older than the one the table knows.\<close>

fun stale_op :: "fd \<Rightarrow> 64 word \<Rightarrow> 'h io_op \<Rightarrow> bool" where
  "stale_op fd i (Set_handler fd' j h) \<longleftrightarrow> fd' = fd \<and> j < i"
| "stale_op fd i (Update fd' j ev m) \<longleftrightarrow> fd' = fd \<and> j < i"
| "stale_op fd i (Remove fd' j) \<longleftrightarrow> fd' = fd \<and> j < i"
| "stale_op fd i (Close fd') \<longleftrightarrow> False"

definition owner :: "fd \<Rightarrow> 'h io_table \<Rightarrow> 64 word option" where
  "owner fd t = map_option io_id (ioContexts t fd)"

lemma put_context_simps [simp]:
  "ioContexts (put_context fd c t) = (ioContexts t)(fd \<mapsto> c)" "ctl_log (put_context fd c t) = ctl_log t"
  "owner fd' (put_context fd c t) = (if fd' = fd then Some (io_id c) else owner fd' t)"
  by (simp_all add: put_context_def owner_def)

lemma stale_op_no_effect: "owner fd t = Some i \<Longrightarrow> stale_op fd i x \<Longrightarrow> apply_op ok x t = Inr t"
  by (cases x) (auto simp: owner_def setIoHandler_def updateIo_def update_context_def removeIo_def)

text \<open>Operations that keep a newer channel as the owner: its own ones but the removal, and those on other descriptors.\<close>

fun keeps_owner :: "fd \<Rightarrow> 64 word \<Rightarrow> 'h io_op \<Rightarrow> bool" where
  "keeps_owner fd i (Set_handler fd' j h) \<longleftrightarrow> fd' = fd \<longrightarrow> j = i"
| "keeps_owner fd i (Update fd' j ev m) \<longleftrightarrow> fd' = fd \<longrightarrow> j = i"
| "keeps_owner fd i (Remove fd' j) \<longleftrightarrow> fd' \<noteq> fd"
| "keeps_owner fd i (Close fd') \<longleftrightarrow> True"

lemma keeps_owner_op:
  assumes "owner fd t = Some i" "keeps_owner fd i x" "apply_op ok x t = Inr u"
  shows "owner fd u = Some i"
  using assms
  by (cases x)
    (auto simp: owner_def setIoHandler_def updateIo_def update_context_def removeIo_def epoll_ctl_def Let_def
      split: option.splits if_splits bool.splits)

section \<open>What the kernel watches\<close>

fun watch_step :: "epoll_call \<times> bool \<Rightarrow> (fd \<rightharpoonup> ev_mask) \<Rightarrow> (fd \<rightharpoonup> ev_mask)" where
  "watch_step (Ctl_add fd ev, r) w = (if r then w(fd \<mapsto> ev) else w)"
| "watch_step (Ctl_mod fd ev, r) w = (if r then w(fd \<mapsto> ev) else w)"
| "watch_step (Ctl_del fd, r) w = w(fd := None)"
| "watch_step (Fd_closed fd, r) w = w(fd := None)"

definition watched :: "(epoll_call \<times> bool) list \<Rightarrow> fd \<rightharpoonup> ev_mask" where
  "watched log = fold watch_step log Map.empty"

text \<open>\<^verbatim>\<open>epoll_ctl\<close> refuses to add a descriptor that is watched and to modify one that is not, and nothing else.\<close>

definition epoll_ctl_works :: "ctl_outcome \<Rightarrow> bool" where
  "epoll_ctl_works ok \<longleftrightarrow>
     (\<forall>log fd ev. (watched log fd = None \<longrightarrow> ok log (Ctl_add fd ev)) \<and> (watched log fd \<noteq> None \<longrightarrow> ok log (Ctl_mod fd ev)))"

text \<open>
  The discipline of guarded channels: one channel at a time on a descriptor, its handler is set once,
  it is removed after it was registered, and the descriptor is closed after the removal.
\<close>

fun proper :: "'h io_table \<Rightarrow> 'h io_op \<Rightarrow> bool" where
  "proper t (Set_handler fd i h) = (case ioContexts t fd of None \<Rightarrow> True | Some c \<Rightarrow> io_id c = i \<and> handler c = None)"
| "proper t (Update fd i ev m) = (case ioContexts t fd of None \<Rightarrow> True | Some c \<Rightarrow> io_id c = i)"
| "proper t (Remove fd i) = (case ioContexts t fd of None \<Rightarrow> False | Some c \<Rightarrow> io_id c = i)"
| "proper t (Close fd) = (ioContexts t fd = None)"

fun proper_ops :: "ctl_outcome \<Rightarrow> 'h io_op list \<Rightarrow> 'h io_table \<Rightarrow> bool" where
  "proper_ops ok [] t = True"
| "proper_ops ok (x # xs) t = (proper t x \<and> (case apply_op ok x t of Inl e \<Rightarrow> True | Inr u \<Rightarrow> proper_ops ok xs u))"

text \<open>What the channels asked for last.\<close>

fun interest_step :: "'h io_op \<Rightarrow> (fd \<rightharpoonup> ev_mask) \<Rightarrow> (fd \<rightharpoonup> ev_mask)" where
  "interest_step (Set_handler fd i h) w = w"
| "interest_step (Update fd i ev m) w = (if ev = 0 then w(fd := None) else w(fd \<mapsto> epoll_flags ev m))"
| "interest_step (Remove fd i) w = w(fd := None)"
| "interest_step (Close fd) w = w(fd := None)"

definition in_sync :: "'h io_table \<Rightarrow> bool" where
  "in_sync t \<longleftrightarrow> (\<forall>fd. watched (ctl_log t) fd \<noteq> None \<longleftrightarrow> (\<exists>c. ioContexts t fd = Some c \<and> addedToEpoll c))"

lemma watched_snoc [simp]: "watched (log @ [x]) = watch_step x (watched log)"
  by (simp add: watched_def)

lemma watched_nil [simp]: "watched [] = Map.empty"
  by (simp add: watched_def)

lemma updateIo_proper:
  fixes t :: "'h io_table"
  assumes "epoll_ctl_works ok" "in_sync t" "proper t (Update fd i ev m)"
  shows "\<exists>u. updateIo ok fd i ev m t = Inr u \<and> in_sync u \<and>
    watched (ctl_log u) = interest_step (Update fd i ev m :: 'h io_op) (watched (ctl_log t))"
proof -
  have w: "watched (ctl_log t) fd \<noteq> None \<longleftrightarrow> (\<exists>c. ioContexts t fd = Some c \<and> addedToEpoll c)"
    using assms(2) unfolding in_sync_def by blast
  then obtain c where c: "update_context fd i t = Some c" "addedToEpoll c \<longleftrightarrow> watched (ctl_log t) fd \<noteq> None"
    using assms(3) by (auto simp: update_context_def split: option.splits)
  let ?call = "if addedToEpoll c then Ctl_mod fd (epoll_flags ev m) else Ctl_add fd (epoll_flags ev m)"
  have ok: "ok (ctl_log t) ?call" using assms(1) c(2) by (auto simp: epoll_ctl_works_def)
  obtain u where u: "updateIo ok fd i ev m t = Inr u"
    "ioContexts u = (ioContexts t)(fd \<mapsto> c\<lparr>addedToEpoll := ev \<noteq> 0\<rparr>)"
    "watched (ctl_log u) = interest_step (Update fd i ev m :: 'h io_op) (watched (ctl_log t))"
  proof (cases "ev = 0 \<and> \<not> addedToEpoll c")
    case True
    then have "c = c\<lparr>addedToEpoll := ev \<noteq> 0\<rparr>" by (cases c) simp
    moreover have "watched (ctl_log t) = (watched (ctl_log t))(fd := None)"
      using True c(2) by (intro fun_upd_idem [symmetric]) simp
    moreover have "updateIo ok fd i ev m t = Inr (put_context fd c t)" using True c(1) by (simp add: updateIo_def)
    ultimately show thesis using True that [of "put_context fd c t"] by (metis interest_step.simps(2) put_context_simps(1,2))
  next
    case False
    then show thesis using c(1) ok that by (cases "ev = 0") (auto simp: updateIo_def epoll_ctl_def Let_def)
  qed
  have "in_sync u" using assms(2) unfolding in_sync_def u(2,3) by simp
  with u(1,3) show ?thesis by (intro exI [of _ u] conjI)
qed

lemma apply_op_proper:
  assumes "epoll_ctl_works ok" "in_sync t" "proper t x"
  shows "\<exists>u. apply_op ok x t = Inr u \<and> in_sync u \<and> watched (ctl_log u) = interest_step x (watched (ctl_log t))"
proof (cases x)
  case (Set_handler fd i h)
  then show ?thesis using assms by (auto simp: setIoHandler_def in_sync_def split: option.splits)
next
  case (Update fd i ev m)
  then show ?thesis using updateIo_proper [OF assms(1,2)] assms(3) by (simp only: apply_op.simps)
next
  case (Remove fd i)
  then obtain c where c: "ioContexts t fd = Some c" "io_id c = i" using assms(3) by (auto split: option.splits)
  then have "addedToEpoll c \<longleftrightarrow> watched (ctl_log t) fd \<noteq> None" using assms(2) by (auto simp: in_sync_def)
  then have "\<not> addedToEpoll c \<Longrightarrow> (watched (ctl_log t))(fd := None) = watched (ctl_log t)"
    by (intro fun_upd_idem) simp
  then show ?thesis
    using assms(2) c Remove by (cases "addedToEpoll c") (auto simp: removeIo_def epoll_ctl_def Let_def in_sync_def)
next
  case (Close fd)
  then show ?thesis using assms by (auto simp: in_sync_def)
qed

lemma apply_ops_proper:
  "epoll_ctl_works ok \<Longrightarrow> in_sync t \<Longrightarrow> proper_ops ok xs t \<Longrightarrow>
     \<exists>u. apply_ops ok xs t = Inr u \<and> in_sync u \<and> watched (ctl_log u) = fold interest_step xs (watched (ctl_log t))"
proof (induction xs arbitrary: t)
  case (Cons x xs)
  obtain v where v: "apply_op ok x t = Inr v" "in_sync v" "watched (ctl_log v) = interest_step x (watched (ctl_log t))"
    using apply_op_proper Cons.prems by (metis proper_ops.simps(2))
  then show ?case using Cons.IH [of v] Cons.prems by simp
qed simp

section \<open>Properties\<close>

text \<open>
  File descriptors are reused: while a channel owns a descriptor, every operation that an older
  channel on the same descriptor still has in flight (its handler, a change of its events, its
  removal) is without effect on the table and on epoll, wherever it comes among the other operations.
\<close>

theorem io_table_ignores_stale:
  assumes "owner fd t = Some i" "\<forall>x\<in>set xs. stale_op fd i x \<or> keeps_owner fd i x"
  shows "apply_ops ok xs t = apply_ops ok (filter (\<lambda>x. \<not> stale_op fd i x) xs) t"
  using assms
proof (induction xs arbitrary: t)
  case (Cons x xs)
  show ?case
  proof (cases "stale_op fd i x")
    case True
    then have "apply_op ok x t = Inr t" using Cons.prems(1) by (rule stale_op_no_effect [rotated])
    then show ?thesis using Cons True by simp
  next
    case False
    then have "keeps_owner fd i x" using Cons.prems by simp
    then have "apply_op ok x t = Inr u \<Longrightarrow> owner fd u = Some i" for u using Cons.prems(1) keeps_owner_op by blast
    then show ?thesis using Cons False by (auto split: sum.splits)
  qed
qed simp


text \<open>A channel that is destroyed before the task of its constructor has run was never registered.\<close>

lemma unregistered_channel_removal_fails: "ioContexts t fd = None \<Longrightarrow> removeIo ok fd i t = Inl Assertion_failed"
  by (simp add: removeIo_def)

definition strict_ctl :: ctl_outcome where
  "strict_ctl log call =
     (case call of Ctl_add fd ev \<Rightarrow> watched log fd = None | Ctl_mod fd ev \<Rightarrow> watched log fd \<noteq> None
      | Ctl_del fd \<Rightarrow> watched log fd \<noteq> None | Fd_closed fd \<Rightarrow> True)"

theorem io_table_ignores_stale_witness:
  "apply_ops strict_ctl [Set_handler 5 2 True, Update 5 2 EPOLLIN EdgeTriggered, Remove 5 1, Update 5 1 EPOLLOUT EdgeTriggered]
     (put_context 5 \<lparr>io_id = 2, handler = None, addedToEpoll = False\<rparr> io_table_empty) =
   apply_ops strict_ctl [Set_handler 5 2 True, Update 5 2 EPOLLIN EdgeTriggered]
     (put_context 5 \<lparr>io_id = 2, handler = None, addedToEpoll = False\<rparr> io_table_empty)"
  using io_table_ignores_stale [of 5 "put_context 5 \<lparr>io_id = 2, handler = None, addedToEpoll = False\<rparr> io_table_empty" 2
    "[Set_handler 5 2 True, Update 5 2 EPOLLIN EdgeTriggered, Remove 5 1, Update 5 1 EPOLLOUT EdgeTriggered]" strict_ctl]
  by simp


end
