(* ===== verification/Io_Channel.thy ===== *)
theory Io_Channel
  imports Runs Io_Table
begin

unbundle bit_operations_syntax

text \<open>
  Channels (\<^verbatim>\<open>src/src/Channel.cc\<close>, \<^verbatim>\<open>src/include/nitrocoro/io/Channel.h\<close>): operations on a descriptor that wait
  for it to become readable or writable. The first part is the set of events of a channel and its
  way into the table of the scheduler. The second part is \<^verbatim>\<open>performImpl\<close> as a step relation on the
  thread of the scheduler: coroutines run from one suspension to the next, between them the scheduler
  handles events and other code cancels operations. What the function of an operation answers, which
  events come and when operations are cancelled is left open.
\<close>

section \<open>The events of a channel\<close>

record channel_reg =
  ch_id :: "64 word"
  ch_fd :: fd
  triggerMode :: trigger_mode
  ch_events :: ev_mask

definition set_ch_events :: "ctl_outcome \<Rightarrow> ev_mask \<Rightarrow> channel_reg \<Rightarrow> 'h io_table \<Rightarrow> io_error + channel_reg \<times> 'h io_table" where
  "set_ch_events ok ev c t =
     (let c = c\<lparr>ch_events := ev\<rparr> in
      case updateIo ok (ch_fd c) (ch_id c) (ch_events c) (triggerMode c) t of Inl e \<Rightarrow> Inl e | Inr t \<Rightarrow> Inr (c, t))"

definition enableReading :: "ctl_outcome \<Rightarrow> channel_reg \<Rightarrow> 'h io_table \<Rightarrow> io_error + channel_reg \<times> 'h io_table" where
  "enableReading ok c t =
     (if \<not> has (ch_events c) EPOLLIN then set_ch_events ok (ch_events c OR EPOLLIN) c t else Inr (c, t))"

definition disableReading :: "ctl_outcome \<Rightarrow> channel_reg \<Rightarrow> 'h io_table \<Rightarrow> io_error + channel_reg \<times> 'h io_table" where
  "disableReading ok c t =
     (if has (ch_events c) EPOLLIN then set_ch_events ok (ch_events c AND NOT EPOLLIN) c t else Inr (c, t))"

definition enableWriting :: "ctl_outcome \<Rightarrow> channel_reg \<Rightarrow> 'h io_table \<Rightarrow> io_error + channel_reg \<times> 'h io_table" where
  "enableWriting ok c t =
     (if \<not> has (ch_events c) EPOLLOUT then set_ch_events ok (ch_events c OR EPOLLOUT) c t else Inr (c, t))"

definition disableWriting :: "ctl_outcome \<Rightarrow> channel_reg \<Rightarrow> 'h io_table \<Rightarrow> io_error + channel_reg \<times> 'h io_table" where
  "disableWriting ok c t =
     (if has (ch_events c) EPOLLOUT then set_ch_events ok (ch_events c AND NOT EPOLLOUT) c t else Inr (c, t))"

definition disableAll :: "ctl_outcome \<Rightarrow> channel_reg \<Rightarrow> 'h io_table \<Rightarrow> io_error + channel_reg \<times> 'h io_table" where
  "disableAll ok c t = (if ch_events c \<noteq> 0 then set_ch_events ok 0 c t else Inr (c, t))"

text \<open>
  The tasks that the constructor and the destructor of a channel dispatch; \<open>alive\<close>: the state of the
  channel still exists when the task runs.
\<close>

definition channel_construct :: "bool \<Rightarrow> channel_reg \<Rightarrow> 'h \<Rightarrow> 'h io_table \<Rightarrow> io_error + 'h io_table" where
  "channel_construct alive c h t = (if alive then setIoHandler (ch_fd c) (ch_id c) h t else Inr t)"

definition channel_destroy :: "ctl_outcome \<Rightarrow> channel_reg \<Rightarrow> 'h io_table \<Rightarrow> io_error + 'h io_table" where
  "channel_destroy ok c t = removeIo ok (ch_fd c) (ch_id c) t"

text \<open>\<^verbatim>\<open>CallbackChannel::setEvents\<close>, through which all its changes go.\<close>

definition setEvents :: "ctl_outcome \<Rightarrow> ev_mask \<Rightarrow> channel_reg \<Rightarrow> 'h io_table \<Rightarrow> io_error + channel_reg \<times> 'h io_table" where
  "setEvents ok ev c t =
     (if ch_events c = ev then Inr (c, t) else set_ch_events ok ev (c\<lparr>triggerMode := LevelTriggered\<rparr>) t)"

definition cb_enableReading :: "ctl_outcome \<Rightarrow> channel_reg \<Rightarrow> 'h io_table \<Rightarrow> io_error + channel_reg \<times> 'h io_table" where
  "cb_enableReading ok c t = setEvents ok (ch_events c OR EPOLLIN) c t"

definition cb_disableReading :: "ctl_outcome \<Rightarrow> channel_reg \<Rightarrow> 'h io_table \<Rightarrow> io_error + channel_reg \<times> 'h io_table" where
  "cb_disableReading ok c t = setEvents ok (ch_events c AND NOT EPOLLIN) c t"

definition cb_enableWriting :: "ctl_outcome \<Rightarrow> channel_reg \<Rightarrow> 'h io_table \<Rightarrow> io_error + channel_reg \<times> 'h io_table" where
  "cb_enableWriting ok c t = setEvents ok (ch_events c OR EPOLLOUT) c t"

definition cb_disableWriting :: "ctl_outcome \<Rightarrow> channel_reg \<Rightarrow> 'h io_table \<Rightarrow> io_error + channel_reg \<times> 'h io_table" where
  "cb_disableWriting ok c t = setEvents ok (ch_events c AND NOT EPOLLOUT) c t"

definition cb_disableAll :: "ctl_outcome \<Rightarrow> channel_reg \<Rightarrow> 'h io_table \<Rightarrow> io_error + channel_reg \<times> 'h io_table" where
  "cb_disableAll ok c t = setEvents ok 0 c t"

text \<open>\<^verbatim>\<open>CallbackChannel::handleIoEvents\<close>: the callbacks that are called, in order, of those that are set.\<close>

datatype io_callback = On_close | On_error | On_readable | On_writable

text \<open>The setters; \<open>present\<close>: the function is not empty.\<close>

definition set_callback :: "io_callback \<Rightarrow> bool \<Rightarrow> io_callback set \<Rightarrow> io_callback set" where
  "set_callback k present cbs = (if present then insert k cbs else cbs - {k})"

definition callback_events :: "io_callback set \<Rightarrow> ev_mask \<Rightarrow> io_callback list" where
  "callback_events cbs ev =
     (if has ev EPOLLHUP \<and> \<not> has ev EPOLLIN \<and> On_close \<in> cbs then [On_close] else []) @
     (if has ev EPOLLERR \<and> On_error \<in> cbs then [On_error] else []) @
     (if has ev EPOLLIN \<and> On_readable \<in> cbs then [On_readable] else []) @
     (if has ev EPOLLOUT \<and> On_writable \<in> cbs then [On_writable] else [])"

text \<open>The channel is the one the table knows for its descriptor, and epoll watches the events it has set.\<close>

definition registered :: "channel_reg \<Rightarrow> 'h io_table \<Rightarrow> bool" where
  "registered c t \<longleftrightarrow> in_sync t \<and> (ioContexts t (ch_fd c) = None \<or> owner (ch_fd c) t = Some (ch_id c)) \<and>
     watched (ctl_log t) (ch_fd c) = (if ch_events c = 0 then None else Some (epoll_flags (ch_events c) (triggerMode c)))"

lemma updateIo_owner: "updateIo ok fd i ev m t = Inr u \<Longrightarrow> ioContexts t fd = None \<or> owner fd t = Some i \<Longrightarrow> owner fd u = Some i"
  by (auto simp: updateIo_def update_context_def owner_def epoll_ctl_def Let_def split: option.splits if_splits bool.splits)

lemma set_ch_events_registered:
  assumes "epoll_ctl_works ok" "registered c t"
  shows "\<exists>u. set_ch_events ok ev c t = Inr (c\<lparr>ch_events := ev\<rparr>, u) \<and> registered (c\<lparr>ch_events := ev\<rparr>) u"
proof -
  have p: "proper t (Update (ch_fd c) (ch_id c) ev (triggerMode c))" "in_sync t"
    using assms(2) by (auto simp: registered_def owner_def split: option.splits)
  obtain u where "updateIo ok (ch_fd c) (ch_id c) ev (triggerMode c) t = Inr u" "in_sync u"
    "watched (ctl_log u) = interest_step (Update (ch_fd c) (ch_id c) ev (triggerMode c) :: 'a io_op) (watched (ctl_log t))"
    using updateIo_proper [OF assms(1) p(2,1)] by blast
  moreover from this have "owner (ch_fd c) u = Some (ch_id c)"
    using updateIo_owner assms(2) unfolding registered_def by blast
  ultimately show ?thesis by (simp add: set_ch_events_def registered_def)
qed

lemma has_set [simp]: "m \<noteq> 0 \<Longrightarrow> has (e OR m) m"
proof -
  have "(e OR m) AND m = m" by (rule bit_eqI) (auto simp: bit_simps)
  then show "m \<noteq> 0 \<Longrightarrow> has (e OR m) m" by (simp add: has_def)
qed

lemma has_clear [simp]: "\<not> has (e AND NOT m) m"
  unfolding has_def by (simp add: and.assoc)

text \<open>
  Each change of the events succeeds and leaves epoll watching exactly what the channel has set.
\<close>

theorem channel_events_watched:
  assumes "epoll_ctl_works ok" "registered c t"
  shows "\<exists>d u. enableReading ok c t = Inr (d, u) \<and> registered d u \<and> has (ch_events d) EPOLLIN"
    and "\<exists>d u. disableReading ok c t = Inr (d, u) \<and> registered d u \<and> \<not> has (ch_events d) EPOLLIN"
    and "\<exists>d u. enableWriting ok c t = Inr (d, u) \<and> registered d u \<and> has (ch_events d) EPOLLOUT"
    and "\<exists>d u. disableWriting ok c t = Inr (d, u) \<and> registered d u \<and> \<not> has (ch_events d) EPOLLOUT"
    and "\<exists>d u. disableAll ok c t = Inr (d, u) \<and> registered d u \<and> ch_events d = 0"
proof -
  have s: "\<exists>d u. set_ch_events ok ev c t = Inr (d, u) \<and> registered d u \<and> ch_events d = ev" for ev
    using set_ch_events_registered [OF assms, of ev] by fastforce
  have n: "EPOLLIN \<noteq> 0" "EPOLLOUT \<noteq> 0" by (simp_all add: EPOLLIN_def EPOLLOUT_def)
  show "\<exists>d u. enableReading ok c t = Inr (d, u) \<and> registered d u \<and> has (ch_events d) EPOLLIN"
    using s [of "ch_events c OR EPOLLIN"] assms(2) n by (cases "has (ch_events c) EPOLLIN") (auto simp: enableReading_def)
  show "\<exists>d u. disableReading ok c t = Inr (d, u) \<and> registered d u \<and> \<not> has (ch_events d) EPOLLIN"
    using s [of "ch_events c AND NOT EPOLLIN"] assms(2) by (cases "has (ch_events c) EPOLLIN") (auto simp: disableReading_def)
  show "\<exists>d u. enableWriting ok c t = Inr (d, u) \<and> registered d u \<and> has (ch_events d) EPOLLOUT"
    using s [of "ch_events c OR EPOLLOUT"] assms(2) n by (cases "has (ch_events c) EPOLLOUT") (auto simp: enableWriting_def)
  show "\<exists>d u. disableWriting ok c t = Inr (d, u) \<and> registered d u \<and> \<not> has (ch_events d) EPOLLOUT"
    using s [of "ch_events c AND NOT EPOLLOUT"] assms(2) by (cases "has (ch_events c) EPOLLOUT") (auto simp: disableWriting_def)
  show "\<exists>d u. disableAll ok c t = Inr (d, u) \<and> registered d u \<and> ch_events d = 0"
    using s [of 0] assms(2) by (cases "ch_events c = 0") (auto simp: disableAll_def)
qed

text \<open>
  A level-triggered channel with callbacks: the same, and the callbacks are those of the events, where
  a hang-up counts as a close only when there is nothing left to read.
\<close>

theorem callback_channel_watched:
  assumes "epoll_ctl_works ok" "registered c t" "triggerMode c = LevelTriggered"
  shows "\<exists>d u. setEvents ok ev c t = Inr (d, u) \<and> registered d u \<and> ch_events d = ev \<and> triggerMode d = LevelTriggered"
proof (cases "ch_events c = ev")
  case True
  then show ?thesis using assms by (simp add: setEvents_def)
next
  case False
  have "c\<lparr>triggerMode := LevelTriggered\<rparr> = c" using assms(3) by (cases c) simp
  then have "setEvents ok ev c t = set_ch_events ok ev c t" using False by (simp only: setEvents_def if_False)
  then show ?thesis using set_ch_events_registered [OF assms(1,2), of ev] assms(3) by auto
qed

lemma callback_close_last: "has ev EPOLLIN \<Longrightarrow> On_close \<notin> set (callback_events cbs ev)"
  by (simp add: callback_events_def)

text \<open>A channel that is destroyed before the task of its constructor has run was never registered.\<close>

lemma early_destroyed_channel_fails:
  assumes "ioContexts t (ch_fd c) = None" "channel_construct False c h t = Inr u"
  shows "channel_destroy ok c u = Inl Assertion_failed"
  using assms by (simp add: channel_construct_def channel_destroy_def unregistered_channel_removal_fails)

section \<open>Operations\<close>

datatype direction = Reading | Writing

datatype wait_hint = Hint direction | Hint_none

datatype io_status = Success | NeedRead | NeedWrite | Retry | Eof | Error

datatype io_result = Io_success | Io_eof | Io_error | Io_canceled

text \<open>Where a call of \<^verbatim>\<open>performImpl\<close> is.\<close>

datatype perform_pc =
    Idle
  | Posted wait_hint     \<comment> \<open>\<open>switch_to\<close> has put it into the queue of the scheduler\<close>
  | Loop wait_hint       \<comment> \<open>at the head of the loop\<close>
  | Suspended direction
  | Woken direction      \<comment> \<open>behind the \<open>co_await\<close>\<close>
  | Calling              \<comment> \<open>calling the function of the operation\<close>
  | Done io_result

record channel =
  readable :: bool
  writable :: bool
  errored :: bool
  readableWaiter :: "coro option"
  writableWaiter :: "coro option"
  readCanceled :: bool
  writeCanceled :: bool
  ready :: "coro list"       \<comment> \<open>coroutines of this channel in the queue of the scheduler\<close>
  running :: "coro option"   \<comment> \<open>the one that the scheduler is executing\<close>
  ops :: "coro \<Rightarrow> perform_pc"

definition channel_init :: channel where
  "channel_init = \<lparr>readable = False, writable = True, errored = False, readableWaiter = None, writableWaiter = None,
     readCanceled = False, writeCanceled = False, ready = [], running = None, ops = (\<lambda>_. Idle)\<rparr>"

definition wake_reader :: "channel \<Rightarrow> channel" where
  "wake_reader s =
     (case readableWaiter s of None \<Rightarrow> s | Some h \<Rightarrow> s\<lparr>readableWaiter := None, ready := ready s @ [h]\<rparr>)"

definition wake_writer :: "channel \<Rightarrow> channel" where
  "wake_writer s =
     (case writableWaiter s of None \<Rightarrow> s | Some h \<Rightarrow> s\<lparr>writableWaiter := None, ready := ready s @ [h]\<rparr>)"

definition handleIoEvents :: "ev_mask \<Rightarrow> channel \<Rightarrow> channel" where
  "handleIoEvents ev s =
     (let s = (if has ev EPOLLERR then wake_writer (wake_reader (s\<lparr>errored := True\<rparr>)) else s);
          s = (if has ev (EPOLLIN OR EPOLLHUP) then wake_reader (s\<lparr>readable := True\<rparr>) else s)
      in if has ev EPOLLOUT then wake_writer (s\<lparr>writable := True\<rparr>) else s)"

definition cancelRead :: "channel \<Rightarrow> channel" where
  "cancelRead s = (if readableWaiter s \<noteq> None then wake_reader (s\<lparr>readCanceled := True\<rparr>) else s)"

definition cancelWrite :: "channel \<Rightarrow> channel" where
  "cancelWrite s = (if writableWaiter s \<noteq> None then wake_writer (s\<lparr>writeCanceled := True\<rparr>) else s)"

definition cancelAll :: "channel \<Rightarrow> channel" where
  "cancelAll s = cancelWrite (cancelRead s)"

text \<open>The members that belong to one direction.\<close>

fun able :: "direction \<Rightarrow> channel \<Rightarrow> bool" where
  "able Reading s = readable s"
| "able Writing s = writable s"

fun waiter :: "direction \<Rightarrow> channel \<Rightarrow> coro option" where
  "waiter Reading s = readableWaiter s"
| "waiter Writing s = writableWaiter s"

fun canceled :: "direction \<Rightarrow> channel \<Rightarrow> bool" where
  "canceled Reading s = readCanceled s"
| "canceled Writing s = writeCanceled s"

fun not_able :: "direction \<Rightarrow> channel \<Rightarrow> channel" where
  "not_able Reading s = s\<lparr>readable := False\<rparr>"
| "not_able Writing s = s\<lparr>writable := False\<rparr>"

fun clear_canceled :: "direction \<Rightarrow> channel \<Rightarrow> channel" where
  "clear_canceled Reading s = s\<lparr>readCanceled := False\<rparr>"
| "clear_canceled Writing s = s\<lparr>writeCanceled := False\<rparr>"

fun set_waiter :: "direction \<Rightarrow> coro \<Rightarrow> channel \<Rightarrow> channel" where
  "set_waiter Reading h s = s\<lparr>readableWaiter := Some h\<rparr>"
| "set_waiter Writing h s = s\<lparr>writableWaiter := Some h\<rparr>"

fun cancel_dir :: "direction \<Rightarrow> channel \<Rightarrow> channel" where
  "cancel_dir Reading s = cancelRead s"
| "cancel_dir Writing s = cancelWrite s"

text \<open>\<^verbatim>\<open>ReadableAwaiter::await_ready\<close>, \<^verbatim>\<open>WritableAwaiter::await_ready\<close>\<close>

definition await_ready :: "direction \<Rightarrow> channel \<Rightarrow> bool" where
  "await_ready d s \<longleftrightarrow> able d s \<or> errored s"

text \<open>\<^verbatim>\<open>await_suspend\<close> tests again; nothing has run in between, so the answer is the same.\<close>

definition await_suspend :: "direction \<Rightarrow> coro \<Rightarrow> channel \<Rightarrow> bool \<times> channel" where
  "await_suspend d h s = (if able d s \<or> errored s then (False, s) else (True, set_waiter d h s))"

fun hint_dir :: "wait_hint \<Rightarrow> direction option" where
  "hint_dir (Hint d) = Some d"
| "hint_dir Hint_none = None"

definition must_wait :: "wait_hint \<Rightarrow> channel \<Rightarrow> direction option" where
  "must_wait h s = (case h of Hint d \<Rightarrow> if \<not> able d s then Some d else None | Hint_none \<Rightarrow> None)"

definition op_at :: "coro \<Rightarrow> perform_pc \<Rightarrow> channel \<Rightarrow> channel" where
  "op_at c p s = s\<lparr>ops := (ops s)(c := p)\<rparr>"

text \<open>What \<^verbatim>\<open>performImpl\<close> does with the answer of the function.\<close>

fun on_status :: "coro \<Rightarrow> io_status \<Rightarrow> channel \<Rightarrow> channel" where
  "on_status c Success s = op_at c (Done Io_success) (s\<lparr>running := None\<rparr>)"
| "on_status c Eof s = op_at c (Done Io_eof) (s\<lparr>running := None\<rparr>)"
| "on_status c Error s = op_at c (Done Io_error) (s\<lparr>running := None\<rparr>)"
| "on_status c NeedRead s = op_at c (Loop (Hint Reading)) (not_able Reading s)"
| "on_status c NeedWrite s = op_at c (Loop (Hint Writing)) (not_able Writing s)"
| "on_status c Retry s = op_at c (Loop Hint_none) s"

fun active :: "perform_pc \<Rightarrow> bool" where
  "active Idle = False"
| "active (Done r) = False"
| "active _ = True"

datatype channel_event =
    Start coro
  | Resume coro
  | Suspend coro direction
  | Status coro io_status
  | Return_canceled coro
  | Events ev_mask
  | Cancel_op direction
  | Tau

text \<open>
  \<open>uses c d\<close>: the operations of coroutine \<open>c\<close> may wait in direction \<open>d\<close>. A channel supports one reader and
  one writer at a time, so an operation is only started when no other one uses the same direction.
\<close>

definition compatible :: "(coro \<Rightarrow> direction \<Rightarrow> bool) \<Rightarrow> coro \<Rightarrow> wait_hint \<Rightarrow> channel \<Rightarrow> bool" where
  "compatible uses c h s \<longleftrightarrow> \<not> active (ops s c) \<and> (\<forall>d. hint_dir h = Some d \<longrightarrow> uses c d) \<and>
     (\<forall>b d. b \<noteq> c \<longrightarrow> active (ops s b) \<longrightarrow> \<not> (uses b d \<and> uses c d))"

fun answers :: "(coro \<Rightarrow> direction \<Rightarrow> bool) \<Rightarrow> coro \<Rightarrow> io_status \<Rightarrow> bool" where
  "answers uses c NeedRead = uses c Reading"
| "answers uses c NeedWrite = uses c Writing"
| "answers uses c _ = True"

inductive perform_step :: "(coro \<Rightarrow> direction \<Rightarrow> bool) \<Rightarrow> channel \<Rightarrow> channel_event \<Rightarrow> channel \<Rightarrow> bool" for uses where
  start_here: "running s = None \<Longrightarrow> compatible uses c h s \<Longrightarrow>
    perform_step uses s (Start c) (op_at c (Loop h) (s\<lparr>running := Some c\<rparr>))"
| start_posted: "compatible uses c h s \<Longrightarrow>
    perform_step uses s (Start c) (op_at c (Posted h) (s\<lparr>ready := ready s @ [c]\<rparr>))"
| resume_posted: "running s = None \<Longrightarrow> ready s = c # q \<Longrightarrow> ops s c = Posted h \<Longrightarrow>
    perform_step uses s (Resume c) (op_at c (Loop h) (s\<lparr>ready := q, running := Some c\<rparr>))"
| resume_suspended: "running s = None \<Longrightarrow> ready s = c # q \<Longrightarrow> ops s c = Suspended d \<Longrightarrow>
    perform_step uses s (Resume c) (op_at c (Woken d) (s\<lparr>ready := q, running := Some c\<rparr>))"
| wait_ready: "running s = Some c \<Longrightarrow> ops s c = Loop h \<Longrightarrow> must_wait h s = Some d \<Longrightarrow> await_ready d s \<Longrightarrow>
    perform_step uses s Tau (op_at c (Woken d) s)"
| wait_suspend: "running s = Some c \<Longrightarrow> ops s c = Loop h \<Longrightarrow> must_wait h s = Some d \<Longrightarrow> \<not> await_ready d s \<Longrightarrow>
    await_suspend d c s = (True, t) \<Longrightarrow>
    perform_step uses s (Suspend c d) (op_at c (Suspended d) (t\<lparr>running := None\<rparr>))"
| no_wait: "running s = Some c \<Longrightarrow> ops s c = Loop h \<Longrightarrow> must_wait h s = None \<Longrightarrow>
    perform_step uses s Tau (op_at c Calling s)"
| woken_canceled: "running s = Some c \<Longrightarrow> ops s c = Woken d \<Longrightarrow> canceled d s \<Longrightarrow>
    perform_step uses s (Return_canceled c) (op_at c (Done Io_canceled) ((clear_canceled d s)\<lparr>running := None\<rparr>))"
| woken_call: "running s = Some c \<Longrightarrow> ops s c = Woken d \<Longrightarrow> \<not> canceled d s \<Longrightarrow>
    perform_step uses s Tau (op_at c Calling s)"
| call: "running s = Some c \<Longrightarrow> ops s c = Calling \<Longrightarrow> answers uses c st \<Longrightarrow>
    perform_step uses s (Status c st) (on_status c st s)"

inductive environment_step :: "channel \<Rightarrow> channel_event \<Rightarrow> channel \<Rightarrow> bool" where
  io_events: "running s = None \<Longrightarrow> environment_step s (Events ev) (handleIoEvents ev s)"
| cancel_op: "running s = None \<Longrightarrow> environment_step s (Cancel_op d) (cancel_dir d s)"

definition channel_step :: "(coro \<Rightarrow> direction \<Rightarrow> bool) \<Rightarrow> channel \<Rightarrow> channel_event \<Rightarrow> channel \<Rightarrow> bool" where
  "channel_step uses s l t \<longleftrightarrow> perform_step uses s l t \<or> environment_step s l t"

section \<open>Invariants\<close>

fun wake :: "direction \<Rightarrow> channel \<Rightarrow> channel" where
  "wake Reading s = wake_reader s"
| "wake Writing s = wake_writer s"

fun set_able :: "direction \<Rightarrow> channel \<Rightarrow> channel" where
  "set_able Reading s = s\<lparr>readable := True\<rparr>"
| "set_able Writing s = s\<lparr>writable := True\<rparr>"

fun set_canceled :: "direction \<Rightarrow> channel \<Rightarrow> channel" where
  "set_canceled Reading s = s\<lparr>readCanceled := True\<rparr>"
| "set_canceled Writing s = s\<lparr>writeCanceled := True\<rparr>"

lemma wake_simps [simp]:
  "able e (wake d s) = able e s" "errored (wake d s) = errored s" "canceled e (wake d s) = canceled e s"
  "waiter e (wake d s) = (if e = d then None else waiter e s)"
  "ready (wake d s) = ready s @ (case waiter d s of None \<Rightarrow> [] | Some h \<Rightarrow> [h])"
  "running (wake d s) = running s" "ops (wake d s) = ops s"
  by (cases d; cases e; simp add: wake_reader_def wake_writer_def split: option.splits)+

lemma dir_simps [simp]:
  "able e (set_able d s) = (e = d \<or> able e s)" "errored (set_able d s) = errored s" "canceled e (set_able d s) = canceled e s"
  "waiter e (set_able d s) = waiter e s" "ready (set_able d s) = ready s" "running (set_able d s) = running s"
  "ops (set_able d s) = ops s"
  "able e (set_canceled d s) = able e s" "errored (set_canceled d s) = errored s"
  "canceled e (set_canceled d s) = (e = d \<or> canceled e s)" "waiter e (set_canceled d s) = waiter e s"
  "ready (set_canceled d s) = ready s" "running (set_canceled d s) = running s" "ops (set_canceled d s) = ops s"
  "able e (not_able d s) = (e \<noteq> d \<and> able e s)" "errored (not_able d s) = errored s" "canceled e (not_able d s) = canceled e s"
  "waiter e (not_able d s) = waiter e s" "ready (not_able d s) = ready s" "running (not_able d s) = running s"
  "ops (not_able d s) = ops s"
  "able e (clear_canceled d s) = able e s" "errored (clear_canceled d s) = errored s"
  "canceled e (clear_canceled d s) = (e \<noteq> d \<and> canceled e s)" "waiter e (clear_canceled d s) = waiter e s"
  "ready (clear_canceled d s) = ready s" "running (clear_canceled d s) = running s" "ops (clear_canceled d s) = ops s"
  "able e (set_waiter d h s) = able e s" "errored (set_waiter d h s) = errored s" "canceled e (set_waiter d h s) = canceled e s"
  "waiter e (set_waiter d h s) = (if e = d then Some h else waiter e s)"
  "ready (set_waiter d h s) = ready s" "running (set_waiter d h s) = running s" "ops (set_waiter d h s) = ops s"
  by (cases d; cases e; simp)+

lemma field_simps_channel [simp]:
  "able e (op_at c p s) = able e s" "errored (op_at c p s) = errored s" "canceled e (op_at c p s) = canceled e s"
  "waiter e (op_at c p s) = waiter e s" "ready (op_at c p s) = ready s" "running (op_at c p s) = running s"
  "ops (op_at c p s) = (ops s)(c := p)"
  "able e (s\<lparr>running := r\<rparr>) = able e s" "waiter e (s\<lparr>running := r\<rparr>) = waiter e s" "canceled e (s\<lparr>running := r\<rparr>) = canceled e s"
  "able e (s\<lparr>ready := q\<rparr>) = able e s" "waiter e (s\<lparr>ready := q\<rparr>) = waiter e s" "canceled e (s\<lparr>ready := q\<rparr>) = canceled e s"
  "able e (s\<lparr>errored := b\<rparr>) = able e s" "waiter e (s\<lparr>errored := b\<rparr>) = waiter e s" "canceled e (s\<lparr>errored := b\<rparr>) = canceled e s"
  by (cases e; simp add: op_at_def)+

lemma handleIoEvents_alt:
  "handleIoEvents ev s =
     (let s = (if has ev EPOLLERR then (wake Writing (wake Reading s))\<lparr>errored := True\<rparr> else s);
          s = (if has ev (EPOLLIN OR EPOLLHUP) then set_able Reading (wake Reading s) else s)
      in if has ev EPOLLOUT then set_able Writing (wake Writing s) else s)"
  by (simp add: handleIoEvents_def Let_def wake_reader_def wake_writer_def split: option.splits)

lemma cancel_dir_alt:
  "cancel_dir d s = (if waiter d s = None then s else set_canceled d (wake d s))"
  by (cases d) (auto simp: cancelRead_def cancelWrite_def wake_reader_def wake_writer_def)

lemmas direction_simps = able.simps waiter.simps canceled.simps not_able.simps clear_canceled.simps set_waiter.simps
  cancel_dir.simps wake.simps set_able.simps set_canceled.simps

declare direction_simps [simp del]

fun executing :: "perform_pc \<Rightarrow> bool" where
  "executing (Loop h) = True"
| "executing (Woken d) = True"
| "executing Calling = True"
| "executing _ = False"

fun pc_dir :: "perform_pc \<Rightarrow> direction option" where
  "pc_dir (Loop h) = hint_dir h"
| "pc_dir (Posted h) = hint_dir h"
| "pc_dir (Suspended d) = Some d"
| "pc_dir (Woken d) = Some d"
| "pc_dir _ = None"

text \<open>A suspended coroutine is either known to the channel or in the queue; the channel knows only suspended ones.\<close>

definition queue_inv :: "channel \<Rightarrow> bool" where
  "queue_inv s \<longleftrightarrow>
     (\<forall>d c. waiter d s = Some c \<longrightarrow> ops s c = Suspended d \<and> c \<notin> set (ready s) \<and> \<not> able d s \<and> \<not> errored s) \<and>
     (\<forall>d c. ops s c = Suspended d \<longrightarrow> waiter d s = Some c \<or> c \<in> set (ready s)) \<and>
     (\<forall>c. c \<in> set (ready s) \<longrightarrow> (\<exists>d. ops s c = Suspended d) \<or> (\<exists>h. ops s c = Posted h)) \<and>
     distinct (ready s)"

definition use_inv :: "(coro \<Rightarrow> direction \<Rightarrow> bool) \<Rightarrow> channel \<Rightarrow> bool" where
  "use_inv uses s \<longleftrightarrow>
     (\<forall>c. running s = Some c \<longleftrightarrow> executing (ops s c)) \<and>
     (\<forall>c d. pc_dir (ops s c) = Some d \<longrightarrow> uses c d) \<and>
     (\<forall>b c d. b \<noteq> c \<longrightarrow> active (ops s b) \<longrightarrow> active (ops s c) \<longrightarrow> \<not> (uses b d \<and> uses c d))"

definition cancel_ok :: "channel \<Rightarrow> bool" where
  "cancel_ok s \<longleftrightarrow> (\<forall>d. canceled d s \<longrightarrow> (\<exists>c. ops s c = Suspended d \<and> c \<in> set (ready s) \<or> ops s c = Woken d))"

definition channel_inv :: "(coro \<Rightarrow> direction \<Rightarrow> bool) \<Rightarrow> channel \<Rightarrow> bool" where
  "channel_inv uses s \<longleftrightarrow> queue_inv s \<and> use_inv uses s \<and> cancel_ok s"

lemma queue_invD:
  assumes "queue_inv s"
  shows "waiter d s = Some c \<Longrightarrow> ops s c = Suspended d" "waiter d s = Some c \<Longrightarrow> c \<notin> set (ready s)"
    "waiter d s = Some c \<Longrightarrow> \<not> able d s" "waiter d s = Some c \<Longrightarrow> \<not> errored s"
    "ops s c = Suspended d \<Longrightarrow> waiter d s = Some c \<or> c \<in> set (ready s)"
    "c \<in> set (ready s) \<Longrightarrow> (\<exists>d. ops s c = Suspended d) \<or> (\<exists>h. ops s c = Posted h)" "distinct (ready s)"
  using assms unfolding queue_inv_def by blast+

lemma queue_invI:
  assumes "\<And>d c. waiter d s = Some c \<Longrightarrow> ops s c = Suspended d \<and> c \<notin> set (ready s) \<and> \<not> able d s \<and> \<not> errored s"
    and "\<And>d c. ops s c = Suspended d \<Longrightarrow> waiter d s = Some c \<or> c \<in> set (ready s)"
    and "\<And>c. c \<in> set (ready s) \<Longrightarrow> (\<exists>d. ops s c = Suspended d) \<or> (\<exists>h. ops s c = Posted h)"
    and "distinct (ready s)"
  shows "queue_inv s"
  using assms unfolding queue_inv_def by blast

lemma wake_queue: "queue_inv s \<Longrightarrow> queue_inv (wake d s)"
proof (cases "waiter d s")
  case (Some h)
  assume q: "queue_inv s"
  note h = queue_invD(1,2) [OF q Some]
  show ?thesis
  proof (rule queue_invI)
    fix e c assume "waiter e (wake d s) = Some c"
    then have e: "e \<noteq> d" "waiter e s = Some c" by (auto split: if_splits)
    then have "c \<noteq> h" using queue_invD(1) [OF q e(2)] h by auto
    then show "ops (wake d s) c = Suspended e \<and> c \<notin> set (ready (wake d s)) \<and> \<not> able e (wake d s) \<and> \<not> errored (wake d s)"
      using queue_invD(1-4) [OF q e(2)] Some by simp
  next
    fix e c assume c: "ops (wake d s) c = Suspended e"
    then show "waiter e (wake d s) = Some c \<or> c \<in> set (ready (wake d s))"
      using queue_invD(5) [OF q, of c e] Some by auto
  qed (use q h Some queue_invD(6,7) [OF q] in auto)
next
  case None
  then have "wake d s = s" by (cases d) (simp_all add: direction_simps wake_reader_def wake_writer_def)
  then show "queue_inv s \<Longrightarrow> queue_inv (wake d s)" by simp
qed

lemma wake_inv: "channel_inv uses s \<Longrightarrow> channel_inv uses (wake d s)"
  using wake_queue by (auto simp: channel_inv_def use_inv_def cancel_ok_def)

lemma set_able_inv: "waiter d s = None \<Longrightarrow> channel_inv uses s \<Longrightarrow> channel_inv uses (set_able d s)"
  by (auto simp: channel_inv_def queue_inv_def use_inv_def cancel_ok_def)

lemma errored_inv: "(\<And>d. waiter d s = None) \<Longrightarrow> channel_inv uses s \<Longrightarrow> channel_inv uses (s\<lparr>errored := True\<rparr>)"
  by (simp add: channel_inv_def queue_inv_def use_inv_def cancel_ok_def)

lemma wake_both: "waiter d (wake Writing (wake Reading s)) = None"
  by (cases d) simp_all

lemma handleIoEvents_inv: "channel_inv uses s \<Longrightarrow> channel_inv uses (handleIoEvents ev s)"
  unfolding handleIoEvents_alt Let_def
  by (auto intro!: set_able_inv errored_inv [OF wake_both] wake_inv)

lemma cancel_dir_inv:
  assumes "channel_inv uses s"
  shows "channel_inv uses (cancel_dir d s)"
proof (cases "waiter d s")
  case (Some c)
  then have "ops s c = Suspended d" "c \<in> set (ready (wake d s))"
    using assms by (auto simp: channel_inv_def queue_inv_def)
  then show ?thesis
    using Some wake_inv [OF assms, of d] by (auto simp: cancel_dir_alt channel_inv_def queue_inv_def use_inv_def cancel_ok_def)
qed (use assms in \<open>simp add: cancel_dir_alt\<close>)

text \<open>A coroutine that is neither suspended before nor after a step leaves the queue as it is.\<close>

fun pending :: "perform_pc \<Rightarrow> bool" where
  "pending (Suspended d) = True"
| "pending (Posted h) = True"
| "pending _ = False"

lemma pending_iff: "pending p \<longleftrightarrow> (\<exists>d. p = Suspended d) \<or> (\<exists>h. p = Posted h)"
  by (cases p) auto

lemma not_pending:
  assumes "queue_inv s" "\<not> pending (ops s c)"
  shows "waiter d s \<noteq> Some c" "c \<notin> set (ready s)"
  using assms(2) by (auto simp: pending_iff dest: queue_invD(1,6) [OF assms(1)])

lemma queue_inv_local:
  assumes "queue_inv s" "\<not> pending (ops s c)" "ops t = (ops s)(c := ops t c)" "\<not> pending (ops t c)"
    and "\<And>e. waiter e t = waiter e s" "\<And>e. able e t \<Longrightarrow> able e s" "errored t = errored s" "ready t = ready s"
  shows "queue_inv t"
proof (rule queue_invI)
  note n = not_pending [OF assms(1,2)]
  fix d b assume "waiter d t = Some b"
  then have b: "waiter d s = Some b" "b \<noteq> c" using assms(5) n(1) by auto
  then show "ops t b = Suspended d \<and> b \<notin> set (ready t) \<and> \<not> able d t \<and> \<not> errored t"
    using queue_invD(1-4) [OF assms(1) b(1)] fun_cong [OF assms(3), of b] assms(6,7,8) by auto
next
  fix d b assume "ops t b = Suspended d"
  then show "waiter d t = Some b \<or> b \<in> set (ready t)"
    using queue_invD(5) [OF assms(1), of b d] fun_cong [OF assms(3), of b] assms(4,5,8) by (auto split: if_splits)
next
  fix b assume "b \<in> set (ready t)"
  then show "(\<exists>d. ops t b = Suspended d) \<or> (\<exists>h. ops t b = Posted h)"
    using queue_invD(6) [OF assms(1), of b] not_pending(2) [OF assms(1,2)] fun_cong [OF assms(3), of b] assms(8) by auto
qed (use queue_invD(7) [OF assms(1)] assms(8) in simp)

lemma queue_inv_resume:
  assumes "queue_inv s" "ready s = c # q" "\<not> pending p"
  shows "queue_inv (op_at c p (s\<lparr>ready := q, running := r\<rparr>))"
proof (rule queue_invI)
  let ?t = "op_at c p (s\<lparr>ready := q, running := r\<rparr>)"
  fix d b assume "waiter d ?t = Some b"
  then have b: "waiter d s = Some b" by simp
  moreover have "b \<noteq> c" using queue_invD(2) [OF assms(1) b] assms(2) by auto
  ultimately show "ops ?t b = Suspended d \<and> b \<notin> set (ready ?t) \<and> \<not> able d ?t \<and> \<not> errored ?t"
    using queue_invD(1-4) [OF assms(1) b] assms(2) by simp
next
  let ?t = "op_at c p (s\<lparr>ready := q, running := r\<rparr>)"
  fix d b assume "ops ?t b = Suspended d"
  then have "b \<noteq> c" "ops s b = Suspended d" using assms(3) by (auto split: if_splits)
  then show "waiter d ?t = Some b \<or> b \<in> set (ready ?t)" using queue_invD(5) [OF assms(1), of b d] assms(2) by auto
next
  let ?t = "op_at c p (s\<lparr>ready := q, running := r\<rparr>)"
  fix b assume "b \<in> set (ready ?t)"
  then show "(\<exists>d. ops ?t b = Suspended d) \<or> (\<exists>h. ops ?t b = Posted h)"
    using queue_invD(6) [OF assms(1), of b] queue_invD(7) [OF assms(1)] assms(2) by auto
qed (use queue_invD(7) [OF assms(1)] assms(2) in simp)

lemma queue_inv_posted:
  assumes "queue_inv s" "\<not> pending (ops s c)"
  shows "queue_inv (op_at c (Posted h) (s\<lparr>ready := ready s @ [c]\<rparr>))"
  using not_pending [OF assms] queue_invD(7) [OF assms(1)]
  by (intro queue_invI) (auto split: if_splits dest: queue_invD(1-6) [OF assms(1)])

lemma queue_inv_suspend:
  assumes "queue_inv s" "\<not> pending (ops s c)" "\<not> able d s" "\<not> errored s" "waiter d s = None"
  shows "queue_inv (op_at c (Suspended d) ((set_waiter d c s)\<lparr>running := None\<rparr>))"
  using not_pending [OF assms(1,2)] queue_invD(7) [OF assms(1)] assms(3-5)
  by (intro queue_invI) (auto split: if_splits dest: queue_invD(1-6) [OF assms(1)])

lemma executing_facts: "executing p \<Longrightarrow> \<not> pending p" "executing p \<Longrightarrow> active p" "pending p \<Longrightarrow> active p"
  by (cases p; simp)+

lemma compatible_idle:
  assumes "compatible uses c h s"
  shows "\<not> pending (ops s c)" "\<not> executing (ops s c)"
  using assms executing_facts unfolding compatible_def by metis+

lemma use_invD:
  assumes "use_inv uses s"
  shows "running s = Some c \<longleftrightarrow> executing (ops s c)" "pc_dir (ops s c) = Some d \<Longrightarrow> uses c d"
    "b \<noteq> c \<Longrightarrow> active (ops s b) \<Longrightarrow> active (ops s c) \<Longrightarrow> \<not> (uses b d \<and> uses c d)"
  using assms unfolding use_inv_def by blast+

lemma must_wait_dir: "must_wait h s = Some d \<Longrightarrow> hint_dir h = Some d \<and> \<not> able d s"
  by (auto simp: must_wait_def split: wait_hint.splits if_splits)

lemma perform_step_queue:
  assumes "perform_step uses s l t" "queue_inv s" "use_inv uses s"
  shows "queue_inv t"
  using assms
proof (induction rule: perform_step.induct)
  case (start_here s c h)
  have "\<not> pending (ops s c)" using start_here(2) by (rule compatible_idle(1))
  then show ?case using start_here(3) by (intro queue_inv_local [OF start_here(3), where c = c]) simp_all
next
  case (start_posted c h s)
  have "\<not> pending (ops s c)" using start_posted(1) by (rule compatible_idle(1))
  then show ?case using start_posted(2) by (intro queue_inv_posted [OF start_posted(2)]) simp_all
next
  case (resume_posted s c q h)
  then show ?case by (intro queue_inv_resume [OF resume_posted(4)]) simp_all
next
  case (resume_suspended s c q d)
  then show ?case by (intro queue_inv_resume [OF resume_suspended(4)]) simp_all
next
  case (wait_ready s c h d)
  then show ?case by (intro queue_inv_local [OF wait_ready(5), where c = c]) simp_all
next
  case (wait_suspend s c h d t)
  have d: "\<not> able d s" "\<not> errored s" "t = set_waiter d c s"
    using wait_suspend(4,5) by (auto simp: await_ready_def await_suspend_def split: if_splits)
  have "uses c d" using use_invD(2) [OF wait_suspend(7), of c d] wait_suspend(2,3) must_wait_dir by fastforce
  have "waiter d s \<noteq> Some b" for b
  proof
    assume b: "waiter d s = Some b"
    then have "ops s b = Suspended d" using queue_invD(1) [OF wait_suspend(6)] by blast
    moreover from this have "uses b d" using use_invD(2) [OF wait_suspend(7), of b d] by simp
    ultimately show False
      using use_invD(3) [OF wait_suspend(7), of b c d] \<open>uses c d\<close> wait_suspend(2) by (cases "b = c") auto
  qed
  then show ?case using wait_suspend(2,6) d by (auto intro!: queue_inv_suspend)
next
  case (no_wait s c h)
  then show ?case by (intro queue_inv_local [OF no_wait(4), where c = c]) simp_all
next
  case (woken_canceled s c d)
  then show ?case by (intro queue_inv_local [OF woken_canceled(4), where c = c]) simp_all
next
  case (woken_call s c d)
  then show ?case by (intro queue_inv_local [OF woken_call(4), where c = c]) simp_all
next
  case (call s c st)
  then show ?case by (cases st) (auto intro!: queue_inv_local [OF call(4), where c = c])
qed

lemma use_inv_upd:
  assumes "use_inv uses s" "ops t = (ops s)(c := ops t c)" "\<And>d. pc_dir (ops t c) = Some d \<Longrightarrow> uses c d"
    and "active (ops s c) \<or> \<not> active (ops t c) \<or> (\<forall>b d. b \<noteq> c \<longrightarrow> active (ops s b) \<longrightarrow> \<not> (uses b d \<and> uses c d))"
    and "running t = (if executing (ops t c) then Some c else if running s = Some c then None else running s)"
    and "executing (ops t c) \<Longrightarrow> running s = None \<or> running s = Some c"
  shows "use_inv uses t"
  unfolding use_inv_def
proof (intro conjI allI impI)
  fix b
  show "running t = Some b \<longleftrightarrow> executing (ops t b)"
    using use_invD(1) [OF assms(1), of b] use_invD(1) [OF assms(1), of c] fun_cong [OF assms(2), of b] assms(5,6) by (auto split: if_splits)
next
  fix b d assume "pc_dir (ops t b) = Some d"
  then show "uses b d" using use_invD(2) [OF assms(1), of b d] fun_cong [OF assms(2), of b] assms(3) by (auto split: if_splits)
next
  fix a b d assume "a \<noteq> b" "active (ops t a)" "active (ops t b)"
  then show "\<not> (uses a d \<and> uses b d)"
    using use_invD(3) [OF assms(1), of a b d] fun_cong [OF assms(2), of a] fun_cong [OF assms(2), of b] assms(4) by (cases "a = c"; cases "b = c") auto
qed

lemma perform_step_use:
  assumes "perform_step uses s l t" "use_inv uses s"
  shows "use_inv uses t"
  using assms
proof (induction rule: perform_step.induct)
  case (start_here s c h)
  then show ?case by (intro use_inv_upd [OF start_here(3), where c = c]) (auto simp: compatible_def)
next
  case (start_posted c h s)
  then have "running s \<noteq> Some c" using use_invD(1) [OF start_posted(2), of c] compatible_idle(2) by blast
  with start_posted show ?case by (intro use_inv_upd [OF start_posted(2), where c = c]) (auto simp: compatible_def)
next
  case (resume_posted s c q h)
  then show ?case using use_invD(2) [OF resume_posted(4), of c] by (intro use_inv_upd [OF resume_posted(4), where c = c]) auto
next
  case (resume_suspended s c q d)
  then show ?case using use_invD(2) [OF resume_suspended(4), of c] by (intro use_inv_upd [OF resume_suspended(4), where c = c]) auto
next
  case (wait_ready s c h d)
  then have "uses c d" using use_invD(2) [OF wait_ready(5), of c d] must_wait_dir by fastforce
  with wait_ready show ?case by (intro use_inv_upd [OF wait_ready(5), where c = c]) auto
next
  case (wait_suspend s c h d t)
  then have "uses c d" "t = set_waiter d c s"
    using use_invD(2) [OF wait_suspend(6), of c d] must_wait_dir by (fastforce simp: await_suspend_def split: if_splits)+
  with wait_suspend show ?case by (intro use_inv_upd [OF wait_suspend(6), where c = c]) auto
next
  case (no_wait s c h)
  then show ?case by (intro use_inv_upd [OF no_wait(4), where c = c]) auto
next
  case (woken_canceled s c d)
  then show ?case by (intro use_inv_upd [OF woken_canceled(4), where c = c]) auto
next
  case (woken_call s c d)
  then show ?case by (intro use_inv_upd [OF woken_call(4), where c = c]) auto
next
  case (call s c st)
  then show ?case by (cases st) (auto intro!: use_inv_upd [OF call(4), where c = c])
qed

lemma cancel_ok_upd:
  assumes "cancel_ok s" "ops t = (ops s)(c := ops t c)" "\<And>e. canceled e t \<Longrightarrow> canceled e s"
    "set (ready s) - {c} \<subseteq> set (ready t)"
    "\<And>e. canceled e t \<Longrightarrow> ops s c = Suspended e \<or> ops s c = Woken e \<Longrightarrow> ops t c = Woken e"
  shows "cancel_ok t"
  unfolding cancel_ok_def
proof (intro allI impI)
  fix d assume d: "canceled d t"
  then obtain b where b: "ops s b = Suspended d \<and> b \<in> set (ready s) \<or> ops s b = Woken d"
    using assms(1,3) unfolding cancel_ok_def by blast
  show "\<exists>b. ops t b = Suspended d \<and> b \<in> set (ready t) \<or> ops t b = Woken d"
  proof (cases "b = c")
    case True
    then show ?thesis using b assms(5) [OF d] by blast
  next
    case False
    then have "ops t b = ops s b" "b \<in> set (ready s) \<Longrightarrow> b \<in> set (ready t)"
      using fun_cong [OF assms(2), of b] assms(4) by auto
    then show ?thesis using b by auto
  qed
qed

lemma perform_step_cancel:
  assumes "perform_step uses s l t" "cancel_ok s"
  shows "cancel_ok t"
  using assms
proof (induction rule: perform_step.induct)
  case (start_here s c h)
  then show ?case by (intro cancel_ok_upd [OF start_here(3), where c = c]) (auto simp: compatible_def)
next
  case (start_posted c h s)
  then show ?case by (intro cancel_ok_upd [OF start_posted(2), where c = c]) (auto simp: compatible_def)
next
  case (wait_suspend s c h d t)
  then have "t = set_waiter d c s" by (auto simp: await_suspend_def split: if_splits)
  with wait_suspend show ?case by (intro cancel_ok_upd [OF wait_suspend(6), where c = c]) auto
next
  case (resume_posted s c q h)
  then show ?case by (intro cancel_ok_upd [OF resume_posted(4), where c = c]) auto
next
  case (resume_suspended s c q d)
  then show ?case by (intro cancel_ok_upd [OF resume_suspended(4), where c = c]) auto
next
  case (wait_ready s c h d)
  then show ?case by (intro cancel_ok_upd [OF wait_ready(5), where c = c]) auto
next
  case (no_wait s c h)
  then show ?case by (intro cancel_ok_upd [OF no_wait(4), where c = c]) auto
next
  case (woken_canceled s c d)
  then show ?case by (intro cancel_ok_upd [OF woken_canceled(4), where c = c]) auto
next
  case (woken_call s c d)
  then show ?case by (intro cancel_ok_upd [OF woken_call(4), where c = c]) auto
next
  case (call s c st)
  then show ?case by (cases st) (auto intro!: cancel_ok_upd [OF call(4), where c = c])
qed

interpretation channel: step_invariant "channel_step uses" "channel_inv uses" for uses
proof unfold_locales
  fix s l t assume s: "channel_inv uses s" "channel_step uses s l t"
  show "channel_inv uses t"
  proof (cases "perform_step uses s l t")
    case True
    then show ?thesis
      using s(1) perform_step_queue perform_step_use perform_step_cancel unfolding channel_inv_def by blast
  next
    case False
    then have "environment_step s l t" using s(2) by (simp add: channel_step_def)
    then show ?thesis using s(1) by cases (auto intro: handleIoEvents_inv cancel_dir_inv)
  qed
qed

lemma channel_init_inv: "channel_inv uses channel_init"
proof -
  have "waiter d channel_init = None" "\<not> canceled d channel_init" for d
    by (cases d; simp add: channel_init_def direction_simps)+
  then show ?thesis
    by (simp add: channel_inv_def queue_inv_def use_inv_def cancel_ok_def) (simp add: channel_init_def)
qed

lemma channel_reachable: "run (channel_step uses) channel_init ls s \<Longrightarrow> channel_inv uses s"
  using channel.run_keeps channel_init_inv by blast

section \<open>Events\<close>

fun relevant :: "direction \<Rightarrow> ev_mask \<Rightarrow> bool" where
  "relevant Reading ev = has ev (EPOLLIN OR EPOLLHUP)"
| "relevant Writing ev = has ev EPOLLOUT"

fun need :: "direction \<Rightarrow> io_status" where
  "need Reading = NeedRead"
| "need Writing = NeedWrite"

lemma able_handleIoEvents: "able d (handleIoEvents ev s) \<longleftrightarrow> able d s \<or> relevant d ev"
  by (cases d) (auto simp: handleIoEvents_alt Let_def)

lemma errored_handleIoEvents: "errored (handleIoEvents ev s) \<longleftrightarrow> errored s \<or> has ev EPOLLERR"
  by (simp add: handleIoEvents_alt Let_def)

lemma able_kept:
  assumes "channel_step uses s l t" "able d s" "\<And>b. l \<noteq> Status b (need d)"
  shows "able d t"
  using assms(1) unfolding channel_step_def
proof (elim disjE)
  assume "perform_step uses s l t"
  then show ?thesis using assms(2,3)
  proof (induction rule: perform_step.induct)
    case (call s c st)
    then show ?case by (cases st; cases d) auto
  next
    case (wait_suspend s c h d t)
    then show ?case by (auto simp: await_suspend_def split: if_splits)
  qed auto
next
  assume "environment_step s l t"
  then show ?thesis using assms(2) by cases (auto simp: able_handleIoEvents cancel_dir_alt)
qed

lemma errored_kept:
  assumes "channel_step uses s l t" "errored s"
  shows "errored t"
  using assms(1) unfolding channel_step_def
proof (elim disjE)
  assume "perform_step uses s l t"
  then show ?thesis using assms(2)
  proof (induction rule: perform_step.induct)
    case (call s c st)
    then show ?case by (cases st) auto
  next
    case (wait_suspend s c h d t)
    then show ?case by (auto simp: await_suspend_def split: if_splits)
  qed auto
next
  assume "environment_step s l t"
  then show ?thesis using assms(2) by cases (auto simp: errored_handleIoEvents cancel_dir_alt)
qed

lemma able_run: "run (channel_step uses) s ls t \<Longrightarrow> able d s \<Longrightarrow> \<forall>b. Status b (need d) \<notin> set ls \<Longrightarrow> able d t"
proof (induction rule: run.induct)
  case (run_cons s l u ls t)
  then have "able d u" using able_kept [OF run_cons(1,4)] by auto
  then show ?case using run_cons by auto
qed

lemma errored_run: "run (channel_step uses) s ls t \<Longrightarrow> errored s \<Longrightarrow> errored t"
  by (induction rule: run.induct) (auto dest: errored_kept)

text \<open>An error is never forgotten, and with it no operation suspends any more.\<close>

lemma errored_never_suspends:
  assumes "run (channel_step uses) s ls t" "errored s"
  shows "Suspend c d \<notin> set ls"
  using assms
proof (induction rule: run.induct)
  case (run_cons s l u ls t)
  have "l \<noteq> Suspend c d"
    using run_cons(1,4) unfolding channel_step_def
    by (auto elim!: perform_step.cases environment_step.cases simp: await_ready_def)
  then show ?case using run_cons errored_kept by auto
qed simp

lemma events_step:
  "channel_step uses s (Events ev) t \<longleftrightarrow> running s = None \<and> t = handleIoEvents ev s"
  by (auto simp: channel_step_def elim: perform_step.cases environment_step.cases intro: io_events)

section \<open>Cancelling\<close>

text \<open>A flag that is set belongs to one operation, which was suspended when \<^verbatim>\<open>cancelRead\<close> or \<^verbatim>\<open>cancelWrite\<close> came.\<close>

definition cancel_told :: "channel_event list \<Rightarrow> channel \<Rightarrow> bool" where
  "cancel_told ls s \<longleftrightarrow> (\<forall>c d. ops s c = Suspended d \<longrightarrow> Suspend c d \<in> set ls) \<and>
     (\<forall>d. canceled d s \<longrightarrow> (\<exists>c ks ms. (ops s c = Suspended d \<and> c \<in> set (ready s) \<or> ops s c = Woken d) \<and>
        ls = ks @ Cancel_op d # ms \<and> Suspend c d \<in> set ks \<and> (\<forall>b. Suspend b d \<notin> set ms)))"

lemma one_user:
  assumes "use_inv uses s" "pc_dir (ops s b) = Some d" "pc_dir (ops s c) = Some d"
  shows "b = c"
proof (rule ccontr)
  assume "b \<noteq> c"
  moreover have "active p" if "pc_dir p = Some d" for p using that by (cases p) auto
  ultimately show False using use_invD(3) [OF assms(1), of b c d] use_invD(2) [OF assms(1)] assms(2,3) by blast
qed

lemma flag_owner:
  assumes "cancel_told ls s" "canceled d s"
  obtains c ks ms where "pc_dir (ops s c) = Some d" "ops s c = Suspended d \<and> c \<in> set (ready s) \<or> ops s c = Woken d"
    "ls = ks @ Cancel_op d # ms" "Suspend c d \<in> set ks" "\<forall>b. Suspend b d \<notin> set ms"
proof -
  obtain c ks ms where c: "ops s c = Suspended d \<and> c \<in> set (ready s) \<or> ops s c = Woken d"
    "ls = ks @ Cancel_op d # ms" "Suspend c d \<in> set ks" "\<forall>b. Suspend b d \<notin> set ms"
    using assms unfolding cancel_told_def by blast
  then have "pc_dir (ops s c) = Some d" by auto
  with c show thesis using that by blast
qed

lemma upd_other: "f = g(c := f c) \<Longrightarrow> b \<noteq> c \<Longrightarrow> f b = g b"
  by (metis fun_upd_other)

lemma cancel_told_upd:
  assumes "cancel_told ls s" "ops t = (ops s)(c := ops t c)" "\<And>e. canceled e t \<Longrightarrow> canceled e s"
    "set (ready s) - {c} \<subseteq> set (ready t)"
    "\<And>e. canceled e t \<Longrightarrow> ops s c = Suspended e \<or> ops s c = Woken e \<Longrightarrow> ops t c = Woken e"
    "\<And>e. ops t c = Suspended e \<Longrightarrow> l = Suspend c e \<or> ops s c = Suspended e" "\<And>b e. canceled e t \<Longrightarrow> l \<noteq> Suspend b e"
  shows "cancel_told (ls @ [l]) t"
  unfolding cancel_told_def
proof (intro conjI allI impI)
  fix b d assume b: "ops t b = Suspended d"
  have "ops s b = Suspended d \<or> l = Suspend b d"
  proof (cases "b = c")
    case True
    then show ?thesis using b assms(6) [of d] by blast
  next
    case False
    then show ?thesis using b upd_other [OF assms(2)] by simp
  qed
  moreover have "ops s b = Suspended d \<Longrightarrow> Suspend b d \<in> set ls" using assms(1) unfolding cancel_told_def by blast
  ultimately show "Suspend b d \<in> set (ls @ [l])" by auto
next
  fix d assume d: "canceled d t"
  obtain b ks ms where b: "ops s b = Suspended d \<and> b \<in> set (ready s) \<or> ops s b = Woken d"
    "ls = ks @ Cancel_op d # ms" "Suspend b d \<in> set ks" "\<forall>b. Suspend b d \<notin> set ms"
    by (rule flag_owner [OF assms(1) assms(3) [OF d]]) (rule that)
  have "ops t b = Suspended d \<and> b \<in> set (ready t) \<or> ops t b = Woken d"
  proof (cases "b = c")
    case True
    then show ?thesis using b assms(5) [OF d] by blast
  next
    case False
    then show ?thesis using b(1) upd_other [OF assms(2)] assms(4) by auto
  qed
  moreover have "ls @ [l] = ks @ Cancel_op d # (ms @ [l])" using b(2) by simp
  moreover have "\<forall>b. Suspend b d \<notin> set (ms @ [l])" using b(4) assms(7) [OF d] by auto
  ultimately show "\<exists>b ks ms. (ops t b = Suspended d \<and> b \<in> set (ready t) \<or> ops t b = Woken d) \<and>
      ls @ [l] = ks @ Cancel_op d # ms \<and> Suspend b d \<in> set ks \<and> (\<forall>b. Suspend b d \<notin> set ms)"
    using b(3) by blast
qed

lemma perform_step_told:
  assumes "perform_step uses s l t" "use_inv uses s" "cancel_told ls s"
  shows "cancel_told (ls @ [l]) t"
  using assms
proof (induction rule: perform_step.induct)
  case (start_here s c h)
  then show ?case by (intro cancel_told_upd [OF start_here(4), where c = c]) (auto simp: compatible_def)
next
  case (start_posted c h s)
  then show ?case by (intro cancel_told_upd [OF start_posted(3), where c = c]) (auto simp: compatible_def)
next
  case (wait_suspend s c h d t)
  have t: "t = set_waiter d c s" using wait_suspend(5) by (auto simp: await_suspend_def split: if_splits)
  have "\<not> canceled d s"
  proof
    assume "canceled d s"
    then obtain b where b: "pc_dir (ops s b) = Some d" "ops s b = Suspended d \<or> ops s b = Woken d"
      using flag_owner [OF wait_suspend(7)] by metis
    have "b = c" using one_user [OF wait_suspend(6) b(1)] wait_suspend(2,3) must_wait_dir by fastforce
    then show False using b(2) wait_suspend(2) by simp
  qed
  then show ?case using t wait_suspend(2) by (intro cancel_told_upd [OF wait_suspend(7), where c = c]) auto
next
  case (resume_posted s c q h)
  then show ?case by (intro cancel_told_upd [OF resume_posted(5), where c = c]) auto
next
  case (resume_suspended s c q d)
  then show ?case by (intro cancel_told_upd [OF resume_suspended(5), where c = c]) auto
next
  case (wait_ready s c h d)
  then show ?case by (intro cancel_told_upd [OF wait_ready(6), where c = c]) auto
next
  case (no_wait s c h)
  then show ?case by (intro cancel_told_upd [OF no_wait(5), where c = c]) auto
next
  case (woken_canceled s c d)
  then show ?case by (intro cancel_told_upd [OF woken_canceled(5), where c = c]) auto
next
  case (woken_call s c d)
  then show ?case by (intro cancel_told_upd [OF woken_call(5), where c = c]) auto
next
  case (call s c st)
  then show ?case by (cases st) (auto intro!: cancel_told_upd [OF call(5), where c = c])
qed

lemma frame_told:
  assumes "cancel_told ls s" "ops t = ops s" "set (ready s) \<subseteq> set (ready t)"
    and "\<And>d. canceled d t \<Longrightarrow> canceled d s \<or> l = Cancel_op d \<and> (\<exists>c. ops s c = Suspended d \<and> c \<in> set (ready t))"
    and "\<And>b d. l \<noteq> Suspend b d"
  shows "cancel_told (ls @ [l]) t"
  unfolding cancel_told_def
proof (intro conjI allI impI)
  fix c d assume "ops t c = Suspended d"
  then show "Suspend c d \<in> set (ls @ [l])" using assms(1,2) by (simp add: cancel_told_def)
next
  fix d assume d: "canceled d t"
  consider "canceled d s" | c where "l = Cancel_op d" "ops s c = Suspended d" "c \<in> set (ready t)" using assms(4) [OF d] by blast
  then show "\<exists>c ks ms. (ops t c = Suspended d \<and> c \<in> set (ready t) \<or> ops t c = Woken d) \<and>
      ls @ [l] = ks @ Cancel_op d # ms \<and> Suspend c d \<in> set ks \<and> (\<forall>b. Suspend b d \<notin> set ms)"
  proof cases
    case 1
    obtain c ks ms where "ops s c = Suspended d \<and> c \<in> set (ready s) \<or> ops s c = Woken d"
      "ls = ks @ Cancel_op d # ms" "Suspend c d \<in> set ks" "\<forall>b. Suspend b d \<notin> set ms"
      by (rule flag_owner [OF assms(1) 1]) (rule that)
    then show ?thesis
      using assms(2,3,5) by (intro exI [of _ c] exI [of _ ks] exI [of _ "ms @ [l]"]) auto
  next
    case 2
    then have "Suspend c d \<in> set ls" using assms(1) by (simp add: cancel_told_def)
    then show ?thesis using 2 assms(2) by (intro exI [of _ c] exI [of _ ls] exI [of _ "[]"]) simp
  qed
qed

lemma ready_handleIoEvents: "set (ready s) \<subseteq> set (ready (handleIoEvents ev s))" "ops (handleIoEvents ev s) = ops s"
  "canceled d (handleIoEvents ev s) = canceled d s"
  by (auto simp: handleIoEvents_alt Let_def)

lemma environment_step_told:
  assumes "environment_step s l t" "queue_inv s" "cancel_told ls s"
  shows "cancel_told (ls @ [l]) t"
  using assms(1)
proof cases
  case (io_events ev)
  then show ?thesis using assms(3) by (intro frame_told [OF assms(3)]) (simp_all add: ready_handleIoEvents)
next
  case (cancel_op d)
  then show ?thesis
    by (intro frame_told [OF assms(3)])
      (auto simp: cancel_dir_alt split: if_splits option.splits dest: queue_invD(1) [OF assms(2)])
qed

lemma channel_history:
  assumes "run (channel_step uses) channel_init ls s"
  shows "cancel_told ls s"
  using assms
proof (induction rule: run_history_induct)
  case start
  have "\<not> canceled d channel_init" for d by (cases d) (simp_all add: channel_init_def direction_simps)
  then show ?case by (simp add: cancel_told_def) (simp add: channel_init_def)
next
  case (step ls u l v)
  then have "channel_inv uses u" by (blast intro: channel_reachable)
  then show ?case
    using step(2,3) perform_step_told environment_step_told unfolding channel_step_def channel_inv_def by blast
qed

text \<open>An operation whose flag was set does nothing but return.\<close>

definition doomed :: "coro \<Rightarrow> direction \<Rightarrow> channel \<Rightarrow> bool" where
  "doomed c d s \<longleftrightarrow> canceled d s \<and> (ops s c = Suspended d \<and> c \<in> set (ready s) \<or> ops s c = Woken d)"

lemma doomed_perform_step:
  assumes "perform_step uses s l t" "use_inv uses s" "doomed c d s" "l \<noteq> Return_canceled c"
  shows "doomed c d t \<and> l \<noteq> Status c st"
  using assms
proof (induction rule: perform_step.induct)
  case (woken_canceled s b e)
  then have "b \<noteq> c" by auto
  moreover have "e \<noteq> d" using one_user [OF woken_canceled(4), of b d c] woken_canceled(2,5) \<open>b \<noteq> c\<close> by (auto simp: doomed_def)
  ultimately show ?case using woken_canceled by (auto simp: doomed_def)
next
  case (wait_suspend s b h e t)
  then show ?case by (auto simp: doomed_def await_suspend_def split: if_splits)
next
  case (call s b st')
  then show ?case by (cases st') (auto simp: doomed_def)
next
  case (start_posted b h s)
  then show ?case by (auto simp: doomed_def compatible_def)
next
  case (start_here s b h)
  then show ?case by (auto simp: doomed_def compatible_def)
qed (auto simp: doomed_def)

lemma doomed_step:
  assumes "channel_step uses s l t" "channel_inv uses s" "doomed c d s" "l \<noteq> Return_canceled c"
  shows "doomed c d t" "l \<noteq> Status c st"
proof -
  have "doomed c d t \<and> l \<noteq> Status c st"
    using assms(1) unfolding channel_step_def
  proof (elim disjE)
    assume "perform_step uses s l t"
    then show ?thesis using assms(2-4) doomed_perform_step unfolding channel_inv_def by blast
  next
    assume "environment_step s l t"
    then show ?thesis
    proof cases
      case (io_events ev)
      then show ?thesis using assms(3) ready_handleIoEvents by (auto simp: doomed_def)
    next
      case (cancel_op e)
      then show ?thesis using assms(3) by (auto simp: doomed_def cancel_dir_alt)
    qed
  qed
  then show "doomed c d t" "l \<noteq> Status c st" by simp_all
qed

lemma doomed_run:
  "run (channel_step uses) s ls t \<Longrightarrow> channel_inv uses s \<Longrightarrow> doomed c d s \<Longrightarrow> Return_canceled c \<notin> set ls \<Longrightarrow>
     doomed c d t \<and> Status c st \<notin> set ls"
proof (induction rule: run.induct)
  case (run_cons s l u ls t)
  then have "doomed c d u" "l \<noteq> Status c st" "channel_inv uses u"
    using doomed_step [OF run_cons(1,4,5)] channel.step_keeps by auto
  then show ?case using run_cons by auto
qed simp

section \<open>Properties\<close>

text \<open>
  C13. No readiness is lost between the kernel and an operation: while an operation is suspended until
  the descriptor is readable (or writable), no error was reported, and since the last event that
  said so the descriptor was tried and found not ready. With edge-triggered epoll, which does not
  repeat an event, this is what keeps operations from hanging.
\<close>

theorem channel_no_lost_event:
  assumes "run (channel_step uses) channel_init ls s" "waiter d s = Some c" "ls = ks @ Events ev # ms"
  shows "\<not> has ev EPOLLERR \<and> (relevant d ev \<longrightarrow> (\<exists>b. Status b (need d) \<in> set ms))"
proof -
  have q: "\<not> able d s" "\<not> errored s"
    using queue_invD(3,4) channel_reachable [OF assms(1)] assms(2) unfolding channel_inv_def by blast+
  obtain u where u: "run (channel_step uses) (handleIoEvents ev u) ms s"
    using assms(1,3) by (auto simp: run_append events_step)
  show ?thesis
    using able_run [OF u, of d] errored_run [OF u] q by (auto simp: able_handleIoEvents errored_handleIoEvents)
qed

text \<open>
  C14. The handles in the queue of the scheduler belong to suspended operations and occur there once,
  so no coroutine is resumed twice or while it runs; and no suspended operation is forgotten: it is
  in the queue or the channel knows it as its waiter.
\<close>

theorem channel_handles_consistent:
  assumes "run (channel_step uses) channel_init ls s"
  shows "distinct (ready s) \<and> (\<forall>c\<in>set (ready s). pending (ops s c) \<and> running s \<noteq> Some c) \<and>
    (\<forall>c d. ops s c = Suspended d \<longrightarrow> waiter d s = Some c \<or> c \<in> set (ready s))"
proof -
  have i: "queue_inv s" "use_inv uses s" using channel_reachable [OF assms] by (simp_all add: channel_inv_def)
  have "pending (ops s c)" if "c \<in> set (ready s)" for c using queue_invD(6) [OF i(1) that] by (auto simp: pending_iff)
  then show ?thesis using queue_invD(5,7) [OF i(1)] use_invD(1) [OF i(2)] executing_facts(1) by blast
qed

text \<open>
  Cancelling an operation that waits ends it: whatever happens afterwards, its function is not
  called again, and the only thing it does is to return \<^verbatim>\<open>Canceled\<close>.
\<close>

theorem channel_cancel_stops:
  assumes "run (channel_step uses) channel_init ls s" "waiter d s = Some c"
    and "run (channel_step uses) s (Cancel_op d # ms) u" "Return_canceled c \<notin> set ms"
  shows "Status c st \<notin> set ms \<and> (ops u c = Suspended d \<and> c \<in> set (ready u) \<or> ops u c = Woken d)"
proof -
  obtain t where t: "channel_step uses s (Cancel_op d) t" "run (channel_step uses) t ms u" using assms(3) by auto
  have i: "channel_inv uses s" using channel_reachable [OF assms(1)] .
  then have "ops s c = Suspended d" using queue_invD(1) assms(2) unfolding channel_inv_def by blast
  moreover have "t = cancel_dir d s"
    using t(1) by (auto simp: channel_step_def elim: perform_step.cases environment_step.cases)
  ultimately have "doomed c d t" using assms(2) by (simp add: doomed_def cancel_dir_alt)
  then show ?thesis using doomed_run [OF t(2) channel.step_keeps [OF i t(1)] _ assms(4)] by (auto simp: doomed_def)
qed

text \<open>
  An operation returns \<^verbatim>\<open>Canceled\<close> only when it was cancelled while it was suspended; a cancellation
  never leaks into a later operation of the channel.
\<close>

theorem channel_canceled_was_waiting:
  assumes "run (channel_step uses) channel_init (ls @ [Return_canceled c]) s"
  shows "\<exists>d ks ms. uses c d \<and> ls = ks @ Cancel_op d # ms \<and> Suspend c d \<in> set ks \<and> (\<forall>b. Suspend b d \<notin> set ms)"
proof -
  obtain u where u: "run (channel_step uses) channel_init ls u" "channel_step uses u (Return_canceled c) s"
    using assms by (auto simp: run_append)
  obtain d where d: "ops u c = Woken d" "canceled d u"
    using u(2) by (auto simp: channel_step_def elim: perform_step.cases environment_step.cases)
  have i: "use_inv uses u" using channel_reachable [OF u(1)] by (simp add: channel_inv_def)
  obtain b ks ms where b: "pc_dir (ops u b) = Some d" "ls = ks @ Cancel_op d # ms" "Suspend b d \<in> set ks"
    "\<forall>b. Suspend b d \<notin> set ms"
    by (rule flag_owner [OF channel_history [OF u(1)] d(2)]) (rule that)
  have "b = c" using one_user [OF i b(1)] d(1) by simp
  moreover have "uses c d" using use_invD(2) [OF i, of c d] d(1) by simp
  ultimately show ?thesis using b by blast
qed

section \<open>One reader\<close>

definition reads :: "coro \<Rightarrow> direction \<Rightarrow> bool" where
  "reads c d \<longleftrightarrow> d = Reading"

definition sample :: "bool \<Rightarrow> coro option \<Rightarrow> bool \<Rightarrow> coro list \<Rightarrow> coro option \<Rightarrow> perform_pc \<Rightarrow> channel" where
  "sample r w b q x p = \<lparr>readable = r, writable = True, errored = False, readableWaiter = w, writableWaiter = None,
     readCanceled = b, writeCanceled = False, ready = q, running = x, ops = (\<lambda>_. Idle)(0 := p)\<rparr>"

lemma sample_simps [simp]:
  "op_at 0 p' (sample r w b q x p) = sample r w b q x p'" "(sample r w b q x p)\<lparr>running := x'\<rparr> = sample r w b q x' p"
  "(sample r w b q x p)\<lparr>ready := q'\<rparr> = sample r w b q' x p" "running (sample r w b q x p) = x"
  "ready (sample r w b q x p) = q" "ops (sample r w b q x p) c = (if c = 0 then p else Idle)" "errored (sample r w b q x p) = False"
  "able Reading (sample r w b q x p) = r" "canceled Reading (sample r w b q x p) = b" "waiter Reading (sample r w b q x p) = w"
  "not_able Reading (sample r w b q x p) = sample False w b q x p"
  "set_waiter Reading h (sample r w b q x p) = sample r (Some h) b q x p"
  "clear_canceled Reading (sample r w b q x p) = sample r w False q x p"
  by (simp_all add: sample_def op_at_def direction_simps)

lemma sample_init: "channel_init = sample False None False [] None Idle"
  by (simp add: channel_init_def sample_def fun_upd_def)

lemma channel_run:
  "channel_step uses s l u \<Longrightarrow> run (channel_step uses) u ls t \<Longrightarrow> run (channel_step uses) s (l # ls) t"
  by (rule run_cons)

lemma sample_steps:
  "channel_step reads (sample r w b q None Idle) (Start 0) (sample r w b q (Some 0) (Loop (Hint Reading)))"
  "channel_step reads (sample False w b q (Some 0) (Loop (Hint Reading))) (Suspend 0 Reading)
     (sample False (Some 0) b q None (Suspended Reading))"
  "channel_step reads (sample True w b q (Some 0) (Loop (Hint Reading))) Tau (sample True w b q (Some 0) Calling)"
  "channel_step reads (sample r w b q (Some 0) Calling) (Status 0 NeedRead) (sample False w b q (Some 0) (Loop (Hint Reading)))"
  "channel_step reads (sample r w b (0 # q) None (Suspended Reading)) (Resume 0) (sample r w b q (Some 0) (Woken Reading))"
  "channel_step reads (sample r w False q (Some 0) (Woken Reading)) Tau (sample r w False q (Some 0) Calling)"
  "channel_step reads (sample r w True q (Some 0) (Woken Reading)) (Return_canceled 0) (sample r w False q None (Done Io_canceled))"
  unfolding channel_step_def
  using start_here [of "sample r w b q None Idle" reads 0 "Hint Reading"]
    wait_suspend [of "sample False w b q (Some 0) (Loop (Hint Reading))" 0 "Hint Reading" Reading
      "sample False (Some 0) b q (Some 0) (Loop (Hint Reading))" reads]
    no_wait [of "sample True w b q (Some 0) (Loop (Hint Reading))" 0 "Hint Reading"]
    call [of "sample r w b q (Some 0) Calling" 0 reads NeedRead]
    resume_suspended [of "sample r w b (0 # q) None (Suspended Reading)" 0 q Reading]
    woken_call [of "sample r w False q (Some 0) (Woken Reading)" 0 Reading]
    woken_canceled [of "sample r w True q (Some 0) (Woken Reading)" 0 Reading]
  by (simp_all add: compatible_def reads_def must_wait_def await_ready_def await_suspend_def)

lemma sample_environment:
  "channel_step reads (sample r None b q None p) (Events EPOLLIN) (sample True None b q None p)"
  "channel_step reads (sample r (Some 0) b [] None p) (Events EPOLLIN) (sample True None b [0] None p)"
  "channel_step reads (sample r None b q None p) (Cancel_op Reading) (sample r None b q None p)"
  "channel_step reads (sample r (Some 0) b [] None p) (Cancel_op Reading) (sample r None True [0] None p)"
  unfolding channel_step_def
  using io_events [of "sample r None b q None p" EPOLLIN] io_events [of "sample r (Some 0) b [] None p" EPOLLIN]
    cancel_op [of "sample r None b q None p" Reading] cancel_op [of "sample r (Some 0) b [] None p" Reading]
  by (auto simp: handleIoEvents_def wake_reader_def has_def EPOLLIN_def EPOLLERR_def EPOLLHUP_def EPOLLOUT_def
    direction_simps cancelRead_def sample_def)

lemma sample_waits:
  "run (channel_step reads) channel_init [Events EPOLLIN, Start 0, Tau, Status 0 NeedRead, Suspend 0 Reading]
     (sample False (Some 0) False [] None (Suspended Reading))"
  unfolding sample_init by (intro channel_run [OF sample_environment(1)] channel_run [OF sample_steps(1)] channel_run [OF sample_steps(3)]
    channel_run [OF sample_steps(4)] channel_run [OF sample_steps(2)] run_nil)

text \<open>
  A cancellation that comes after the event but before the operation is resumed is lost: the
  operation tries once more, and when the descriptor is not ready after all, it waits again.
\<close>

lemma channel_cancel_lost:
  "\<exists>s. run (channel_step reads) channel_init [Start 0, Suspend 0 Reading, Events EPOLLIN, Cancel_op Reading, Resume 0, Tau,
      Status 0 NeedRead, Suspend 0 Reading] s \<and> waiter Reading s = Some 0 \<and> \<not> canceled Reading s"
proof -
  have "run (channel_step reads) channel_init [Start 0, Suspend 0 Reading, Events EPOLLIN, Cancel_op Reading, Resume 0, Tau,
      Status 0 NeedRead, Suspend 0 Reading] (sample False (Some 0) False [] None (Suspended Reading))"
    unfolding sample_init by (intro channel_run [OF sample_steps(1)] channel_run [OF sample_steps(2)]
      channel_run [OF sample_environment(2)] channel_run [OF sample_environment(3)] channel_run [OF sample_steps(5)]
      channel_run [OF sample_steps(6)] channel_run [OF sample_steps(4)] run_nil)
  then show ?thesis by (intro exI [of _ "sample False (Some 0) False [] None (Suspended Reading)"]) simp
qed

theorem channel_no_lost_event_witness:
  "\<exists>s. run (channel_step reads) channel_init [Events EPOLLIN, Start 0, Tau, Status 0 NeedRead, Suspend 0 Reading] s \<and>
     waiter Reading s = Some 0 \<and> \<not> has EPOLLIN EPOLLERR"
  using channel_no_lost_event [OF sample_waits, of Reading 0 "[]"] sample_waits
  by (intro exI [of _ "sample False (Some 0) False [] None (Suspended Reading)"]) simp

theorem channel_handles_consistent_witness:
  "\<exists>s. run (channel_step reads) channel_init [Events EPOLLIN, Start 0, Tau, Status 0 NeedRead, Suspend 0 Reading] s \<and>
     distinct (ready s)"
  using channel_handles_consistent [OF sample_waits] sample_waits by blast

theorem channel_cancel_stops_witness:
  "\<exists>s u. run (channel_step reads) channel_init [Events EPOLLIN, Start 0, Tau, Status 0 NeedRead, Suspend 0 Reading] s \<and>
     run (channel_step reads) s [Cancel_op Reading, Resume 0] u \<and> ops u 0 = Woken Reading"
proof -
  let ?s = "sample False (Some 0) False [] None (Suspended Reading)"
  let ?u = "sample False None True [] (Some 0) (Woken Reading)"
  have u: "run (channel_step reads) ?s [Cancel_op Reading, Resume 0] ?u"
    by (intro channel_run [OF sample_environment(4)] channel_run [OF sample_steps(5)] run_nil)
  then have "ops ?u 0 = Suspended Reading \<and> 0 \<in> set (ready ?u) \<or> ops ?u 0 = Woken Reading"
    using channel_cancel_stops [OF sample_waits, of Reading 0 "[Resume 0]" ?u] by simp
  then have "ops ?u 0 = Woken Reading" by simp
  with u sample_waits show ?thesis by blast
qed

theorem channel_canceled_was_waiting_witness:
  "\<exists>s d ks ms. run (channel_step reads) channel_init ([Start 0, Suspend 0 Reading, Cancel_op Reading, Resume 0] @ [Return_canceled 0]) s \<and>
     reads 0 d \<and> [Start 0, Suspend 0 Reading, Cancel_op Reading, Resume 0] = ks @ Cancel_op d # ms \<and> Suspend 0 d \<in> set ks"
proof -
  have "run (channel_step reads) channel_init ([Start 0, Suspend 0 Reading, Cancel_op Reading, Resume 0] @ [Return_canceled 0])
      (sample False None False [] None (Done Io_canceled))"
    unfolding sample_init append.simps by (intro channel_run [OF sample_steps(1)] channel_run [OF sample_steps(2)]
      channel_run [OF sample_environment(4)] channel_run [OF sample_steps(5)] channel_run [OF sample_steps(7)] run_nil)
  from this channel_canceled_was_waiting [OF this] show ?thesis by blast
qed

end
