(* ===== verification/Inet_Address.thy ===== *)
theory Inet_Address
  imports Prelude
begin

text \<open>
  Network addresses (\<^verbatim>\<open>src/src/InetAddress.cc\<close>, \<^verbatim>\<open>src/include/nitrocoro/net/InetAddress.h\<close>) and the set-up of a listening socket
  (\<^verbatim>\<open>TcpServer::setup_socket\<close>). Ports and addresses are kept in network byte order; \<^verbatim>\<open>inet_pton\<close> and \<^verbatim>\<open>inet_ntop\<close> are
  arguments, and so are the answers of the system calls.
\<close>

section \<open>Byte order\<close>

unbundle bit_operations_syntax

text \<open>The host is little-endian, so that \<^verbatim>\<open>htons\<close> and \<^verbatim>\<open>ntohs\<close> swap the two bytes, and \<^verbatim>\<open>htonl\<close> and \<^verbatim>\<open>ntohl\<close> the four.\<close>

definition htons :: "16 word \<Rightarrow> 16 word" where
  "htons w = push_bit 8 w OR drop_bit 8 w"

definition htonl :: "32 word \<Rightarrow> 32 word" where
  "htonl w = push_bit 24 w OR push_bit 8 (w AND 0xFF00) OR (drop_bit 8 w AND 0xFF00) OR drop_bit 24 w"

lemma htons_htons [simp]: "htons (htons w) = w"
  by (rule bit_word_eqI) (auto simp: htons_def bit_simps)

section \<open>Addresses\<close>

text \<open>
  The union of the two socket address structures: the family, and the members of the one that is in
  use. An IPv6 address is four 32-bit words, as the code reads it.
\<close>

datatype sockaddr =
    V4 "16 word" "32 word"                                              \<comment> \<open>\<open>sin_port\<close>, \<open>s_addr\<close>\<close>
  | V6 "16 word" "32 word \<times> 32 word \<times> 32 word \<times> 32 word"               \<comment> \<open>\<open>sin6_port\<close>, \<open>sin6_addr\<close>\<close>

definition inaddr_loopback :: "32 word" where "inaddr_loopback = 0x7f000001"

definition in6addr_loopback :: "32 word \<times> 32 word \<times> 32 word \<times> 32 word" where "in6addr_loopback = (0, 0, 0, htonl 1)"

definition InetAddress :: "16 word \<Rightarrow> bool \<Rightarrow> bool \<Rightarrow> sockaddr" where
  "InetAddress port loopback_only ipv6 =
     (if ipv6 then V6 (htons port) (if loopback_only then in6addr_loopback else (0, 0, 0, 0))
      else V4 (htons port) (htonl (if loopback_only then inaddr_loopback else 0)))"

text \<open>From a text; when \<^verbatim>\<open>inet_pton\<close> refuses it, the address stays zero.\<close>

definition InetAddress_ip ::
  "(string \<Rightarrow> 32 word option) \<Rightarrow> (string \<Rightarrow> (32 word \<times> 32 word \<times> 32 word \<times> 32 word) option) \<Rightarrow> string \<Rightarrow> 16 word \<Rightarrow> bool \<Rightarrow> sockaddr" where
  "InetAddress_ip pton4 pton6 ip port ipv6 =
     (if ipv6 then V6 (htons port) (case pton6 ip of Some a \<Rightarrow> a | None \<Rightarrow> (0, 0, 0, 0))
      else V4 (htons port) (case pton4 ip of Some a \<Rightarrow> a | None \<Rightarrow> 0))"

fun isIpV6 :: "sockaddr \<Rightarrow> bool" where
  "isIpV6 (V4 p a) = False"
| "isIpV6 (V6 p a) = True"

text \<open>The port is at the same place in both structures.\<close>

fun portNetEndian :: "sockaddr \<Rightarrow> 16 word" where
  "portNetEndian (V4 p a) = p"
| "portNetEndian (V6 p a) = p"

definition toPort :: "sockaddr \<Rightarrow> 16 word" where
  "toPort s = htons (portNetEndian s)"

fun toIp :: "(32 word \<Rightarrow> string) \<Rightarrow> (32 word \<times> 32 word \<times> 32 word \<times> 32 word \<Rightarrow> string) \<Rightarrow> sockaddr \<Rightarrow> string" where
  "toIp ntop4 ntop6 (V4 p a) = ntop4 a"
| "toIp ntop4 ntop6 (V6 p a) = ntop6 a"

definition toIpPort :: "(32 word \<Rightarrow> string) \<Rightarrow> (32 word \<times> 32 word \<times> 32 word \<times> 32 word \<Rightarrow> string) \<Rightarrow> sockaddr \<Rightarrow> string" where
  "toIpPort ntop4 ntop6 s = toIp ntop4 ntop6 s @ '':'' @ to_string (unat (toPort s))"

fun isLoopbackIp :: "sockaddr \<Rightarrow> bool" where
  "isLoopbackIp (V4 p a) = (htonl a = 0x7f000001)"
| "isLoopbackIp (V6 p (a, b, c, d)) = (a = 0 \<and> b = 0 \<and> c = 0 \<and> htonl d = 1)"

section \<open>Listening sockets\<close>

text \<open>What the system calls answer: whether \<^verbatim>\<open>socket\<close> and \<^verbatim>\<open>bind\<close> succeed, and the address of \<^verbatim>\<open>getsockname\<close>.\<close>

record setup_answers =
  socketOk :: bool
  bindError :: "string option"
  sockname :: "sockaddr option"

datatype socket_option = Reuse_addr | Reuse_port | V6_only

text \<open>The options that are set, and the address the server then has; the error otherwise.\<close>

definition setup_socket :: "setup_answers \<Rightarrow> sockaddr \<Rightarrow> string + socket_option list \<times> sockaddr" where
  "setup_socket r addr =
     (if \<not> socketOk r then Inl ''Failed to create socket''
      else
        (let opts = [Reuse_addr, Reuse_port] @ (if isIpV6 addr then [V6_only] else []) in
         case bindError r of
           Some e \<Rightarrow> Inl (''Failed to bind socket: '' @ e)
         | None \<Rightarrow>
             if toPort addr = 0 then (case sockname r of Some a \<Rightarrow> Inr (opts, a) | None \<Rightarrow> Inr (opts, addr))
             else Inr (opts, addr)))"

section \<open>Properties\<close>

lemma htonl_zero: "htonl 0 = 0"
  by (simp add: htonl_def)

lemma htonl_loopback: "htonl (htonl inaddr_loopback) = 0x7f000001" "htonl (htonl 1) = 1" "htonl (htonl 0) = 0"
  by (code_simp; simp)+

text \<open>The port that was given is the port that is reported, and the loopback address is recognised.\<close>

theorem address_port_round_trip:
  "toPort (InetAddress port lo v6) = port \<and> toPort (InetAddress_ip p4 p6 ip port v6) = port \<and> isIpV6 (InetAddress port lo v6) = v6 \<and>
   isLoopbackIp (InetAddress port lo v6) = lo"
  using htonl_loopback by (auto simp: InetAddress_def InetAddress_ip_def toPort_def in6addr_loopback_def htonl_zero)

text \<open>A server that was given a port listens on it; with port zero it knows the port that was chosen for it.\<close>

theorem setup_keeps_port:
  assumes "setup_socket r addr = Inr (opts, a)"
  shows "(toPort addr \<noteq> 0 \<longrightarrow> a = addr) \<and> (toPort addr = 0 \<longrightarrow> sockname r \<noteq> None \<longrightarrow> sockname r = Some a) \<and> (V6_only \<in> set opts \<longleftrightarrow> isIpV6 addr)"
  using assms by (auto simp: setup_socket_def Let_def split: if_splits option.splits)

theorem setup_keeps_port_witness:
  "toPort (InetAddress 80 True False) \<noteq> 0 \<longrightarrow>
   setup_socket \<lparr>socketOk = True, bindError = None, sockname = None\<rparr> (InetAddress 80 True False) = Inr ([Reuse_addr, Reuse_port], InetAddress 80 True False)"
proof -
  have s: "setup_socket \<lparr>socketOk = True, bindError = None, sockname = None\<rparr> (InetAddress 80 True False) =
    Inr ([Reuse_addr, Reuse_port], InetAddress 80 True False)"
    using address_port_round_trip [of 80 True False] by (simp add: setup_socket_def)
  show ?thesis using setup_keeps_port [OF s] s by simp
qed

text \<open>A text that is not an address gives the address of all interfaces.\<close>

lemma bad_text_is_any: "p4 ip = None \<Longrightarrow> InetAddress_ip p4 p6 ip port False = InetAddress port False False"
  by (simp add: InetAddress_ip_def InetAddress_def htonl_zero)

text \<open>Other addresses of the loopback network are not recognised.\<close>

lemma loopback_net_missed: "\<not> isLoopbackIp (V4 p (htonl 0x7f000002))"
  by code_simp

end
