(* ===== verification/Dns_Resolver.thy ===== *)
theory Dns_Resolver
  imports Prelude Runs
begin

text \<open>
  The asynchronous name resolver (\<^verbatim>\<open>src/src/DnsResolver.cc\<close>): a cache with a time to live, callers that share
  one look-up, and the task that runs it on a pool of threads. A step is one section under the mutex, or
  one action between two of them; what \<^verbatim>\<open>getaddrinfo\<close> answers and the clock are left open.
\<close>

section \<open>Keys and addresses\<close>

definition cacheKey :: "string \<Rightarrow> string \<Rightarrow> int \<Rightarrow> string" where
  "cacheKey hostname service family = hostname @ ''|'' @ service @ ''|'' @ to_string_int family"

text \<open>An entry of the list that \<^verbatim>\<open>getaddrinfo\<close> gives: its family and its address, if it has one.\<close>

datatype family = AF_INET | AF_INET6 | Other_family

datatype dns_error = No_result int | Gai_error int | No_usable

definition usable :: "(family \<times> 'a option) list \<Rightarrow> 'a list" where
  "usable res = List.map_filter (\<lambda>(f, x). if f = AF_INET \<or> f = AF_INET6 then x else None) res"

text \<open>The answer of the look-up: the code of the error and the list, null when there is none.\<close>

definition lookup_result :: "int \<Rightarrow> (family \<times> 'a option) list option \<Rightarrow> dns_error + 'a list" where
  "lookup_result err res =
     (case res of
        None \<Rightarrow> Inl (No_result err)
      | Some xs \<Rightarrow>
          if err \<noteq> 0 then Inl (Gai_error err)
          else if usable xs = [] then Inl No_usable
          else Inr (usable xs))"

section \<open>The state\<close>

type_synonym caller = nat
type_synonym task = nat

text \<open>
  Where the task of a look-up is. It starts with the caller that found no other one for its key.
\<close>

datatype 'a task_pc =
    No_task
  | To_post string                                  \<comment> \<open>registered, not posted yet\<close>
  | Queued string                                   \<comment> \<open>in the task queue\<close>
  | Got string "'a list" nat                        \<comment> \<open>addresses, with the time\<close>
  | Failed string "dns_error"
  | Counting nat "caller list" "'a list"            \<comment> \<open>stored\<close>
  | Purging nat "caller list" "'a list"
  | Answering "caller list" "dns_error + 'a list"
  | Over

datatype caller_pc = Outside | Entered string nat | Inside string nat

record 'a resolver =
  ttl :: nat
  clock :: nat
  cache :: "string \<rightharpoonup> 'a list \<times> nat"
  pending :: "string \<rightharpoonup> caller list"
  expiryQueue :: "(nat \<times> string) list"
  writeCount :: "32 word"
  tasks :: "task \<Rightarrow> 'a task_pc"
  callers :: "caller \<Rightarrow> caller_pc"
  answers :: "caller \<Rightarrow> (dns_error + 'a list) list"
  found :: "(string \<times> nat \<times> 'a list) set"     \<comment> \<open>every successful look-up so far\<close>

definition resolver_init :: "nat \<Rightarrow> 'a resolver" where
  "resolver_init t = \<lparr>ttl = t, clock = 0, cache = Map.empty, pending = Map.empty, expiryQueue = [], writeCount = 0,
     tasks = (\<lambda>_. No_task), callers = (\<lambda>_. Outside), answers = (\<lambda>_. []), found = {}\<rparr>"

section \<open>Sections under the mutex\<close>

definition answer_to :: "caller \<Rightarrow> dns_error + 'a list \<Rightarrow> 'a resolver \<Rightarrow> 'a resolver" where
  "answer_to w r s = s\<lparr>answers := (answers s)(w := answers s w @ [r])\<rparr>"

text \<open>\<^verbatim>\<open>resolveImpl\<close> for key \<open>k\<close>, with the time read before; \<open>i\<close> is the task that is started, if one is.\<close>

definition resolve_section :: "caller \<Rightarrow> string \<Rightarrow> nat \<Rightarrow> task \<Rightarrow> 'a resolver \<Rightarrow> 'a resolver" where
  "resolve_section w k t i s =
     (let s = s\<lparr>callers := (callers s)(w := Inside k t)\<rparr> in
      case cache s k of
        Some (a, e) \<Rightarrow>
          if t < e then answer_to w (Inr a) s
          else (case pending s k of
              Some ws \<Rightarrow> s\<lparr>pending := (pending s)(k \<mapsto> ws @ [w])\<rparr>
            | None \<Rightarrow> s\<lparr>pending := (pending s)(k \<mapsto> [w]), tasks := (tasks s)(i := To_post k)\<rparr>)
      | None \<Rightarrow>
          (case pending s k of
              Some ws \<Rightarrow> s\<lparr>pending := (pending s)(k \<mapsto> ws @ [w])\<rparr>
            | None \<Rightarrow> s\<lparr>pending := (pending s)(k \<mapsto> [w]), tasks := (tasks s)(i := To_post k)\<rparr>))"

definition take_pending :: "string \<Rightarrow> 'a resolver \<Rightarrow> caller list \<times> 'a resolver" where
  "take_pending k s = (case pending s k of None \<Rightarrow> ([], s) | Some ws \<Rightarrow> (ws, s\<lparr>pending := (pending s)(k := None)\<rparr>))"

definition store_section :: "task \<Rightarrow> string \<Rightarrow> 'a list \<Rightarrow> nat \<Rightarrow> 'a resolver \<Rightarrow> 'a resolver" where
  "store_section i k a t s =
     (let e = t + ttl s;
          (ws, s) = take_pending k (s\<lparr>cache := (cache s)(k \<mapsto> (a, e)), expiryQueue := insort_key fst (e, k) (expiryQueue s)\<rparr>)
      in s\<lparr>tasks := (tasks s)(i := Counting t ws a)\<rparr>)"

definition fail_section :: "task \<Rightarrow> string \<Rightarrow> dns_error \<Rightarrow> 'a resolver \<Rightarrow> 'a resolver" where
  "fail_section i k e s = (let (ws, s) = take_pending k s in s\<lparr>tasks := (tasks s)(i := Answering ws (Inl e))\<rparr>)"

text \<open>The loop over the queue of expiry times, the earliest first.\<close>

fun purge :: "nat \<Rightarrow> (nat \<times> string) list \<Rightarrow> (string \<rightharpoonup> 'a list \<times> nat) \<Rightarrow> (nat \<times> string) list \<times> (string \<rightharpoonup> 'a list \<times> nat)" where
  "purge t [] c = ([], c)"
| "purge t ((e, k) # q) c =
     (if e \<le> t then
        purge t q (case c k of None \<Rightarrow> c | Some (a, f) \<Rightarrow> if f \<le> t then c(k := None) else c)
      else ((e, k) # q, c))"

definition purge_section :: "nat \<Rightarrow> 'a resolver \<Rightarrow> 'a resolver" where
  "purge_section t s = (let (q, c) = purge t (expiryQueue s) (cache s) in s\<lparr>expiryQueue := q, cache := c\<rparr>)"

section \<open>Steps\<close>

datatype dns_event =
    Tick | Enter caller | Section caller | Post task | Look_up task | Store task | Fail task | Count task | Purge task | Answer task

definition task_at :: "task \<Rightarrow> 'a task_pc \<Rightarrow> 'a resolver \<Rightarrow> 'a resolver" where
  "task_at i p s = s\<lparr>tasks := (tasks s)(i := p)\<rparr>"

inductive dns_step :: "'a resolver \<Rightarrow> dns_event \<Rightarrow> 'a resolver \<Rightarrow> bool" where
  tick: "clock s \<le> t \<Longrightarrow> dns_step s Tick (s\<lparr>clock := t\<rparr>)"
| enter: "callers s w = Outside \<Longrightarrow> dns_step s (Enter w) (s\<lparr>callers := (callers s)(w := Entered k (clock s))\<rparr>)"
| sect: "callers s w = Entered k t \<Longrightarrow> tasks s i = No_task \<Longrightarrow> dns_step s (Section w) (resolve_section w k t i s)"
| post: "tasks s i = To_post k \<Longrightarrow> dns_step s (Post i) (task_at i (Queued k) s)"
| look_up_ok: "tasks s i = Queued k \<Longrightarrow> lookup_result err res = Inr a \<Longrightarrow>
    dns_step s (Look_up i) ((task_at i (Got k a (clock s)) s)\<lparr>found := insert (k, clock s, a) (found s)\<rparr>)"
| look_up_fails: "tasks (s :: 'a resolver) i = Queued k \<Longrightarrow> lookup_result err res = (Inl e :: dns_error + 'a list) \<Longrightarrow> dns_step s (Look_up i) (task_at i (Failed k e) s)"
| store: "tasks s i = Got k a t \<Longrightarrow> dns_step s (Store i) (store_section i k a t s)"
| fail: "tasks s i = Failed k e \<Longrightarrow> dns_step s (Fail i) (fail_section i k e s)"
| count: "tasks s i = Counting t ws a \<Longrightarrow>
    dns_step s (Count i) (task_at i (if unat (writeCount s) mod 16 = 0 then Purging t ws a else Answering ws (Inr a))
      (s\<lparr>writeCount := writeCount s + 1\<rparr>))"
| purge: "tasks s i = Purging t ws a \<Longrightarrow> dns_step s (Purge i) (task_at i (Answering ws (Inr a)) (purge_section t s))"
| answer: "tasks s i = Answering (w # ws) r \<Longrightarrow> dns_step s (Answer i) (task_at i (Answering ws r) (answer_to w r s))"
| over: "tasks s i = Answering [] r \<Longrightarrow> dns_step s (Answer i) (task_at i Over s)"

section \<open>Invariants\<close>

text \<open>The key a task is going to answer, and the callers it has taken over.\<close>

fun task_key :: "'a task_pc \<Rightarrow> string option" where
  "task_key (To_post k) = Some k"
| "task_key (Queued k) = Some k"
| "task_key (Got k a t) = Some k"
| "task_key (Failed k e) = Some k"
| "task_key _ = None"

fun task_callers :: "'a task_pc \<Rightarrow> caller list" where
  "task_callers (Counting t ws a) = ws"
| "task_callers (Purging t ws a) = ws"
| "task_callers (Answering ws r) = ws"
| "task_callers _ = []"

fun task_answer :: "'a task_pc \<Rightarrow> 'a list option" where
  "task_answer (Counting t ws a) = Some a"
| "task_answer (Purging t ws a) = Some a"
| "task_answer (Answering ws (Inr a)) = Some a"
| "task_answer _ = None"

text \<open>One task for each key with callers.\<close>

definition key_once :: "'a resolver \<Rightarrow> bool" where
  "key_once s \<longleftrightarrow> (\<forall>i j k. task_key (tasks s i) = Some k \<longrightarrow> task_key (tasks s j) = Some k \<longrightarrow> i = j)"

definition one_task :: "'a resolver \<Rightarrow> bool" where
  "one_task s \<longleftrightarrow> key_once s \<and>
     (\<forall>k. pending s k \<noteq> None \<longleftrightarrow> (\<exists>i. task_key (tasks s i) = Some k))"

text \<open>A caller without an answer is in one place.\<close>

definition pending_ok :: "'a resolver \<Rightarrow> bool" where
  "pending_ok s \<longleftrightarrow>
     (\<forall>k ws. pending s k = Some ws \<longrightarrow> distinct ws \<and>
        (\<forall>w\<in>set ws. (\<exists>t. callers s w = Inside k t) \<and> answers s w = [] \<and> (\<forall>i. w \<notin> set (task_callers (tasks s i)))))"

definition taken_once :: "'a resolver \<Rightarrow> bool" where
  "taken_once s \<longleftrightarrow> (\<forall>i j w. w \<in> set (task_callers (tasks s i)) \<longrightarrow> w \<in> set (task_callers (tasks s j)) \<longrightarrow> i = j)"

definition taken_ok :: "'a resolver \<Rightarrow> bool" where
  "taken_ok s \<longleftrightarrow>
     (\<forall>i. distinct (task_callers (tasks s i))) \<and>
     (\<forall>i. \<forall>w\<in>set (task_callers (tasks s i)). answers s w = [] \<and>
        (\<exists>k t. callers s w = Inside k t \<and> (\<forall>a. task_answer (tasks s i) = Some a \<longrightarrow> (\<exists>u. (k, u, a) \<in> found s)))) \<and> taken_once s"

definition answers_ok :: "'a resolver \<Rightarrow> bool" where
  "answers_ok s \<longleftrightarrow>
     (\<forall>w. length (answers s w) \<le> 1) \<and>
     (\<forall>w r. r \<in> set (answers s w) \<longrightarrow> (\<exists>k t. callers s w = Inside k t \<and> (\<forall>a. r = Inr a \<longrightarrow> (\<exists>u. (k, u, a) \<in> found s))))"

definition nobody_lost :: "'a resolver \<Rightarrow> bool" where
  "nobody_lost s \<longleftrightarrow>
     (\<forall>w k t. callers s w = Inside k t \<longrightarrow>
        answers s w \<noteq> [] \<or> (\<exists>ws. pending s k = Some ws \<and> w \<in> set ws) \<or> (\<exists>i. w \<in> set (task_callers (tasks s i))))"

definition cache_ok :: "'a resolver \<Rightarrow> bool" where
  "cache_ok s \<longleftrightarrow>
     (\<forall>k a e. cache s k = Some (a, e) \<longrightarrow> (\<exists>u. (k, u, a) \<in> found s \<and> e = u + ttl s) \<and> (e, k) \<in> set (expiryQueue s)) \<and>
     (\<forall>i k a t. tasks s i = Got k a t \<longrightarrow> (k, t, a) \<in> found s) \<and> sorted (map fst (expiryQueue s))"

definition dns_inv :: "'a resolver \<Rightarrow> bool" where
  "dns_inv s \<longleftrightarrow> one_task s \<and> pending_ok s \<and> taken_ok s \<and> answers_ok s \<and> nobody_lost s \<and> cache_ok s"

subsection \<open>Purging\<close>

lemma purge_queue: "fst (purge t q c) = dropWhile (\<lambda>x. fst x \<le> t) q"
  by (induction t q c rule: purge.induct) auto

lemma sorted_rest: "sorted (map fst q) \<Longrightarrow> sorted (map fst (dropWhile P q))"
  by (induction q) auto

lemma purge_sub: "snd (purge t q c) k = Some x \<Longrightarrow> c k = Some x"
  by (induction t q c rule: purge.induct) (auto split: if_splits option.splits prod.splits)

lemma purge_removes: "(e, k) \<in> set q \<Longrightarrow> sorted (map fst q) \<Longrightarrow> e \<le> t \<Longrightarrow> snd (purge t q c) k = Some (a, f) \<Longrightarrow> t < f"
proof (induction t q c rule: purge.induct)
  case (2 t e' k' q c)
  have le: "e' \<le> t" using "2.prems" by auto
  let ?c = "case c k' of None \<Rightarrow> c | Some (a, f) \<Rightarrow> if f \<le> t then c(k' := None) else c"
  have p: "snd (purge t q ?c) k = Some (a, f)" using "2.prems"(4) le by simp
  show ?case
  proof (cases "(e, k) = (e', k')")
    case True
    then show ?thesis using purge_sub [OF p] by (auto split: option.splits if_splits)
  next
    case False
    then show ?thesis using "2.IH" [OF le] "2.prems"(1-3) p by auto
  qed
qed simp

lemma purge_complete:
  assumes "sorted (map fst q)" "\<And>k a e. c k = Some (a, e) \<Longrightarrow> (e, k) \<in> set q" "snd (purge t q c) k = Some (a, e)"
  shows "t < e" "(e, k) \<in> set (fst (purge t q c))"
proof -
  have c: "c k = Some (a, e)" using assms(3) by (rule purge_sub)
  show e: "t < e" using purge_removes [OF assms(2) [OF c] assms(1) _ assms(3)] by (cases "e \<le> t") auto
  have "(e, k) \<in> set (takeWhile (\<lambda>x. fst x \<le> t) q) \<or> (e, k) \<in> set (dropWhile (\<lambda>x. fst x \<le> t) q)"
    using assms(2) [OF c] by (metis Un_iff set_append takeWhile_dropWhile_id)
  then show "(e, k) \<in> set (fst (purge t q c))" using e by (auto simp: purge_queue dest: set_takeWhileD)
qed

subsection \<open>Steps of tasks\<close>

text \<open>A step that leaves the callers, and what the tasks are going to do for them, as they are.\<close>

definition same_work :: "'a resolver \<Rightarrow> 'a resolver \<Rightarrow> bool" where
  "same_work s u \<longleftrightarrow>
     (\<forall>i. task_key (tasks u i) = task_key (tasks s i) \<and> task_callers (tasks u i) = task_callers (tasks s i) \<and>
        (task_callers (tasks s i) \<noteq> [] \<longrightarrow> task_answer (tasks u i) = task_answer (tasks s i))) \<and>
     pending u = pending s \<and> callers u = callers s \<and> answers u = answers s \<and> found s \<subseteq> found u"

lemma same_work_inv:
  assumes "same_work s u" "dns_inv s" "cache_ok u"
  shows "dns_inv u"
proof -
  have k: "task_key (tasks u i) = task_key (tasks s i)" "task_callers (tasks u i) = task_callers (tasks s i)"
    and n: "task_callers (tasks s i) \<noteq> [] \<Longrightarrow> task_answer (tasks u i) = task_answer (tasks s i)" for i
    using assms(1) by (simp_all add: same_work_def)
  have e: "pending u = pending s" "callers u = callers s" "answers u = answers s" "found s \<subseteq> found u"
    using assms(1) by (simp_all add: same_work_def)
  have inv: "one_task s" "pending_ok s" "taken_ok s" "answers_ok s" "nobody_lost s" using assms(2) by (simp_all add: dns_inv_def)
  have "key_once u = key_once s" "taken_once u = taken_once s" by (simp_all only: key_once_def taken_once_def k)
  moreover have "one_task u" using inv(1) calculation(1) by (simp add: one_task_def k e)
  moreover have "pending_ok u" using inv(2) unfolding pending_ok_def k e .
  moreover have "answers_ok u" using inv(4) e(4) unfolding answers_ok_def e by (meson subsetD)
  moreover have "nobody_lost u" using inv(5) unfolding nobody_lost_def k e .
  moreover have "taken_ok u"
  proof -
    have "answers s w = [] \<and> (\<exists>k t. callers s w = Inside k t \<and> (\<forall>a. task_answer (tasks u i) = Some a \<longrightarrow> (\<exists>v. (k, v, a) \<in> found u)))"
      if w: "w \<in> set (task_callers (tasks s i))" for i w
    proof -
      obtain x t where "callers s w = Inside x t" "\<forall>a. task_answer (tasks s i) = Some a \<longrightarrow> (\<exists>v. (x, v, a) \<in> found s)" "answers s w = []"
        using inv(3) w unfolding taken_ok_def by blast
      moreover have "task_answer (tasks u i) = task_answer (tasks s i)" using w by (intro n) auto
      ultimately show ?thesis using e(4) by auto
    qed
    then show ?thesis using inv(3) calculation(2) unfolding taken_ok_def k e by simp
  qed
  ultimately show ?thesis using assms(3) by (simp add: dns_inv_def)
qed

lemma same_work_task:
  assumes "task_key p = task_key (tasks s i)" "task_callers p = task_callers (tasks s i)"
    "task_callers (tasks s i) \<noteq> [] \<Longrightarrow> task_answer p = task_answer (tasks s i)"
    "pending u = pending s" "callers u = callers s" "answers u = answers s" "found s \<subseteq> found u" "tasks u = (tasks s)(i := p)"
  shows "same_work s u"
  using assms by (simp add: same_work_def)

text \<open>The first section of a task that has its result takes over the callers of its key.\<close>

lemma key_no_callers: "task_key p = Some k \<Longrightarrow> task_callers p = []"
  by (cases p) auto

lemma key_pending:
  assumes "dns_inv s" "task_key (tasks s i) = Some k"
  obtains ws where "pending s k = Some ws"
  using assms unfolding dns_inv_def one_task_def by blast

lemma take_over_inv:
  assumes "dns_inv s" "task_key (tasks s i) = Some k" "pending s k = Some ws" "cache_ok u"
    and p: "task_key p = None" "task_callers p = ws" "\<And>a. task_answer p = Some a \<Longrightarrow> (\<exists>v. (k, v, a) \<in> found s)"
    and u: "tasks u = (tasks s)(i := p)" "pending u = (pending s)(k := None)" "callers u = callers s" "answers u = answers s" "found u = found s"
  shows "dns_inv u"
proof -
  have inv: "one_task s" "pending_ok s" "taken_ok s" "answers_ok s" "nobody_lost s" using assms(1) by (simp_all add: dns_inv_def)
  have uniq: "j = i" if "task_key (tasks s j) = Some k" for j
    using inv(1) assms(2) that unfolding one_task_def key_once_def by blast
  have ws: "distinct ws" "\<And>w. w \<in> set ws \<Longrightarrow> (\<exists>t. callers s w = Inside k t) \<and> answers s w = [] \<and> (\<forall>i. w \<notin> set (task_callers (tasks s i)))"
    using inv(2) assms(3) unfolding pending_ok_def by blast+
  have none: "task_callers (tasks s i) = []" using assms(2) by (rule key_no_callers)
  have "key_once u" using inv(1) p(1) unfolding one_task_def key_once_def u(1) by (metis fun_upd_apply option.distinct(1))
  moreover have "pending u x \<noteq> None \<longleftrightarrow> (\<exists>j. task_key (tasks u j) = Some x)" for x
  proof (cases "x = k")
    case True
    then show ?thesis using uniq p(1) by (auto simp: u(1,2))
  next
    case False
    have "(\<exists>j. task_key (tasks u j) = Some x) \<longleftrightarrow> (\<exists>j. task_key (tasks s j) = Some x)"
      using False assms(2) p(1) by (auto simp: u(1)) (metis option.inject)
    then show ?thesis using inv(1) False unfolding one_task_def u(2) by simp
  qed
  ultimately have "one_task u" by (simp add: one_task_def)
  moreover have "pending_ok u"
    unfolding pending_ok_def u
  proof (intro allI impI conjI ballI)
    fix x vs assume x: "((pending s)(k := None)) x = Some vs"
    then have v: "pending s x = Some vs" "x \<noteq> k" by (auto split: if_splits)
    then show "distinct vs" using inv(2) unfolding pending_ok_def by blast
    fix w assume "w \<in> set vs"
    then have w: "\<exists>t. callers s w = Inside x t" "answers s w = []" "\<And>j. w \<notin> set (task_callers (tasks s j))"
      using v(1) inv(2) unfolding pending_ok_def by blast+
    show "\<exists>t. callers s w = Inside x t" "answers s w = []" by fact+
    fix j show "w \<notin> set (task_callers (((tasks s)(i := p)) j))" using w v(2) ws(2) [of w] p(2) by auto
  qed
  moreover have "taken_ok u"
  proof -
    have "taken_once u" using inv(3) ws(2) none p(2) unfolding taken_ok_def taken_once_def u(1) by (metis fun_upd_apply)
    moreover have "distinct (task_callers (tasks u j))" for j using inv(3) ws(1) p(2) by (simp add: taken_ok_def u(1))
    moreover have "answers u w = [] \<and> (\<exists>x t. callers u w = Inside x t \<and> (\<forall>a. task_answer (tasks u j) = Some a \<longrightarrow> (\<exists>v. (x, v, a) \<in> found u)))"
      if w: "w \<in> set (task_callers (tasks u j))" for j w
    proof (cases "j = i")
      case True
      then have "w \<in> set ws" using w p(2) by (simp add: u(1))
      then obtain t where "callers s w = Inside k t" "answers s w = []" using ws(2) by blast
      then show ?thesis using p(3) True by (auto simp: u intro!: exI [of _ k])
    next
      case False
      then have "w \<in> set (task_callers (tasks s j))" using w by (simp add: u(1))
      then show ?thesis using inv(3) False unfolding taken_ok_def u by auto
    qed
    ultimately show ?thesis by (simp add: taken_ok_def)
  qed
  moreover have "answers_ok u" using inv(4) by (simp add: answers_ok_def u)
  moreover have "nobody_lost u"
    unfolding nobody_lost_def u
  proof (intro allI impI)
    fix w x t assume "callers s w = Inside x t"
    then consider "answers s w \<noteq> []" | vs where "pending s x = Some vs" "w \<in> set vs" | j where "w \<in> set (task_callers (tasks s j))"
      using inv(5) unfolding nobody_lost_def by blast
    then show "answers s w \<noteq> [] \<or> (\<exists>vs. ((pending s)(k := None)) x = Some vs \<and> w \<in> set vs) \<or> (\<exists>j. w \<in> set (task_callers (((tasks s)(i := p)) j)))"
    proof cases
      case 2
      then show ?thesis using assms(3) p(2) by (cases "x = k") auto
    next
      case 3
      then show ?thesis using none by (intro disjI2 exI [of _ j]) (auto split: if_splits)
    qed simp
  qed
  ultimately show ?thesis using assms(4) by (simp add: dns_inv_def)
qed

lemma answer_inv:
  assumes "dns_inv s" "tasks s i = Answering (w # ws) r"
  shows "dns_inv (task_at i (Answering ws r) (answer_to w r s))"
proof -
  let ?u = "task_at i (Answering ws r) (answer_to w r s)"
  have inv: "one_task s" "pending_ok s" "taken_ok s" "answers_ok s" "nobody_lost s" "cache_ok s" using assms(1) by (simp_all add: dns_inv_def)
  have u: "tasks ?u = (tasks s)(i := Answering ws r)" "pending ?u = pending s" "callers ?u = callers s"
    "answers ?u = (answers s)(w := answers s w @ [r])" "found ?u = found s" by (simp_all add: task_at_def answer_to_def)
  have w: "w \<in> set (task_callers (tasks s i))" using assms(2) by simp
  have k: "task_key (tasks ?u j) = task_key (tasks s j)" for j using assms(2) by (simp add: u(1))
  have sub: "set (task_callers (tasks ?u j)) \<subseteq> set (task_callers (tasks s j))" for j using assms(2) by (auto simp: u(1))
  have notin: "w \<notin> set (task_callers (tasks ?u j))" for j
  proof (cases "j = i")
    case True
    have "distinct (w # ws)" using inv(3) assms(2) unfolding taken_ok_def by (metis task_callers.simps(3))
    then show ?thesis using True by (simp add: u(1))
  next
    case False
    then show ?thesis using inv(3) w unfolding taken_ok_def taken_once_def u(1) by (metis fun_upd_other)
  qed
  have a: "answers s w = []" "\<exists>x t. callers s w = Inside x t \<and> (\<forall>a. task_answer (tasks s i) = Some a \<longrightarrow> (\<exists>v. (x, v, a) \<in> found s))"
    using inv(3) w unfolding taken_ok_def by blast+
  have "one_task ?u" using inv(1) unfolding one_task_def key_once_def k u(2) .
  moreover have "pending_ok ?u"
    unfolding pending_ok_def u(2,3)
  proof (intro allI impI conjI ballI)
    fix x vs assume v: "pending s x = Some vs"
    then show "distinct vs" using inv(2) unfolding pending_ok_def by blast
    fix z assume z: "z \<in> set vs"
    show "\<exists>t. callers s z = Inside x t" using v z inv(2) unfolding pending_ok_def by blast
    have nz: "z \<notin> set (task_callers (tasks s j))" for j using v z inv(2) unfolding pending_ok_def by blast
    then have "z \<noteq> w" using w by auto
    then show "answers ?u z = []" using v z inv(2) unfolding pending_ok_def u(4) by auto
    fix j show "z \<notin> set (task_callers (tasks ?u j))" using nz sub by blast
  qed
  moreover have "taken_ok ?u"
  proof -
    have "taken_once ?u" using inv(3) sub unfolding taken_ok_def taken_once_def by blast
    moreover have "distinct (task_callers (tasks ?u j))" for j
    proof (cases "j = i")
      case True
      have "distinct (w # ws)" using inv(3) assms(2) unfolding taken_ok_def by (metis task_callers.simps(3))
      then show ?thesis using True by (simp add: u(1))
    qed (use inv(3) in \<open>simp add: taken_ok_def u(1)\<close>)
    moreover have "answers ?u z = [] \<and> (\<exists>x t. callers ?u z = Inside x t \<and> (\<forall>a. task_answer (tasks ?u j) = Some a \<longrightarrow> (\<exists>v. (x, v, a) \<in> found ?u)))"
      if z: "z \<in> set (task_callers (tasks ?u j))" for j z
    proof -
      have "z \<noteq> w" using z notin by blast
      moreover have "task_answer (tasks ?u j) = task_answer (tasks s j)" using assms(2) by (cases r) (simp_all add: task_at_def answer_to_def)
      moreover have "z \<in> set (task_callers (tasks s j))" using z sub by blast
      ultimately show ?thesis using inv(3) unfolding taken_ok_def u(3,4,5) by simp
    qed
    ultimately show ?thesis by (simp add: taken_ok_def)
  qed
  moreover have "answers_ok ?u"
  proof -
    have "\<exists>x t. callers s w = Inside x t \<and> (\<forall>a. r = Inr a \<longrightarrow> (\<exists>v. (x, v, a) \<in> found s))" using a(2) assms(2) by auto
    then show ?thesis using inv(4) a(1) unfolding answers_ok_def u(3,4,5) by simp
  qed
  moreover have "nobody_lost ?u"
    unfolding nobody_lost_def u(2,3)
  proof (intro allI impI)
    fix z x t assume z: "callers s z = Inside x t"
    show "answers ?u z \<noteq> [] \<or> (\<exists>vs. pending s x = Some vs \<and> z \<in> set vs) \<or> (\<exists>j. z \<in> set (task_callers (tasks ?u j)))"
    proof (cases "z = w")
      case True
      then show ?thesis by (simp add: u(4))
    next
      case False
      have "z \<in> set (task_callers (tasks ?u j)) \<longleftrightarrow> z \<in> set (task_callers (tasks s j))" for j
        using False assms(2) by (cases "j = i") (simp_all add: u(1))
      then show ?thesis using False z inv(5) unfolding nobody_lost_def u(4) by simp
    qed
  qed
  moreover have "cache_ok ?u" using inv(6) by (auto simp: cache_ok_def task_at_def answer_to_def)
  ultimately show ?thesis by (simp add: dns_inv_def)
qed

subsection \<open>Steps of callers\<close>

text \<open>A caller that is not inside is nowhere else.\<close>

lemma outside_nowhere:
  assumes "dns_inv s" "\<And>k t. callers s w \<noteq> Inside k t"
  shows "answers s w = []" "pending s k = Some ws \<Longrightarrow> w \<notin> set ws" "w \<notin> set (task_callers (tasks s i))"
proof -
  have inv: "pending_ok s" "taken_ok s" "answers_ok s" using assms(1) by (simp_all add: dns_inv_def)
  show "answers s w = []"
  proof (rule ccontr)
    assume "answers s w \<noteq> []"
    then have "hd (answers s w) \<in> set (answers s w)" by simp
    then show False using inv(3) assms(2) unfolding answers_ok_def by blast
  qed
  show "pending s k = Some ws \<Longrightarrow> w \<notin> set ws" using inv(1) assms(2) unfolding pending_ok_def by blast
  show "w \<notin> set (task_callers (tasks s i))" using inv(2) assms(2) unfolding taken_ok_def by blast
qed

text \<open>What is said about other callers stays true when one caller moves.\<close>

lemma caller_moves:
  assumes "dns_inv s" "\<And>k t. callers s w \<noteq> Inside k t"
    and u: "tasks u = tasks s" "pending u = pending s" "callers u = (callers s)(w := c)" "answers u = answers s" "found u = found s"
  shows "one_task u" "pending_ok u" "taken_ok u" "answers_ok u" "(\<And>k t. c \<noteq> Inside k t) \<Longrightarrow> nobody_lost u"
proof -
  have inv: "one_task s" "pending_ok s" "taken_ok s" "answers_ok s" "nobody_lost s" using assms(1) by (simp_all add: dns_inv_def)
  note n = outside_nowhere [OF assms(1,2)]
  show "one_task u" using inv(1) unfolding one_task_def key_once_def u(1,2) .
  show "pending_ok u" using inv(2) n(2) unfolding pending_ok_def u by (metis fun_upd_other)
  have "taken_once u" using inv(3) unfolding taken_ok_def taken_once_def u(1) by blast
  then show "taken_ok u" using inv(3) n(3) unfolding taken_ok_def u by (metis fun_upd_other)
  show "answers_ok u" using inv(4) n(1) unfolding answers_ok_def u by (metis fun_upd_other empty_iff empty_set)
  show "nobody_lost u" if "\<And>k t. c \<noteq> Inside k t" using inv(5) that unfolding nobody_lost_def u by (metis fun_upd_apply)
qed

lemma hit_inv:
  assumes "dns_inv s" "callers s w = Entered k t" "cache s k = Some (a, e)"
  shows "dns_inv (answer_to w (Inr a) (s\<lparr>callers := (callers s)(w := Inside k t)\<rparr>))"
proof -
  let ?s = "s\<lparr>callers := (callers s)(w := Inside k t)\<rparr>"
  let ?u = "answer_to w (Inr a) ?s"
  have o: "callers s w \<noteq> Inside x y" for x y using assms(2) by simp
  note n = outside_nowhere [OF assms(1) o]
  note m = caller_moves [OF assms(1) o, of ?s "Inside k t", simplified]
  have c: "cache_ok s" "nobody_lost s" "answers_ok s" using assms(1) by (simp_all add: dns_inv_def)
  have u: "tasks ?u = tasks s" "pending ?u = pending s" "callers ?u = callers ?s" "answers ?u = (answers s)(w := [Inr a])" "found ?u = found s"
    using n(1) by (simp_all add: answer_to_def)
  have "one_task ?u" using m(1) by (simp add: one_task_def key_once_def u)
  moreover have "pending_ok ?u" using m(2) n(2) by (auto simp: pending_ok_def u)
  moreover have "taken_ok ?u" using m(3) n(3) by (auto simp: taken_ok_def taken_once_def u)
  moreover have "\<exists>v. (k, v, a) \<in> found s" using c(1) assms(3) unfolding cache_ok_def by blast
  then have "answers_ok ?u" using c(3) by (simp add: answers_ok_def u)
  moreover have "nobody_lost ?u" using c(2) by (auto simp: nobody_lost_def u)
  moreover have "cache_ok ?u" using c(1) by (simp add: cache_ok_def answer_to_def)
  ultimately show ?thesis by (simp add: dns_inv_def)
qed

text \<open>A caller that has to wait is added to the callers of its key.\<close>

definition waiting_on :: "'a resolver \<Rightarrow> string \<Rightarrow> caller list" where
  "waiting_on s k = (case pending s k of None \<Rightarrow> [] | Some ws \<Rightarrow> ws)"

lemma wait_inv:
  assumes "dns_inv s" "callers s w = Entered k t" "one_task u" "cache_ok u"
    and u: "pending u = (pending s)(k \<mapsto> waiting_on s k @ [w])" "callers u = (callers s)(w := Inside k t)" "answers u = answers s" "found u = found s"
      "\<And>j. task_callers (tasks u j) = task_callers (tasks s j)" "\<And>j. task_answer (tasks u j) = task_answer (tasks s j)"
  shows "dns_inv u"
proof -
  have o: "callers s w \<noteq> Inside x y" for x y using assms(2) by simp
  note n = outside_nowhere [OF assms(1) o]
  note m = caller_moves [OF assms(1) o, of "s\<lparr>callers := (callers s)(w := Inside k t)\<rparr>" "Inside k t", simplified]
  have inv: "pending_ok s" "nobody_lost s" "answers_ok s" using assms(1) by (simp_all add: dns_inv_def)
  have ws: "distinct (waiting_on s k)" "w \<notin> set (waiting_on s k)"
    "\<And>z. z \<in> set (waiting_on s k) \<Longrightarrow> (\<exists>t. callers s z = Inside k t) \<and> answers s z = [] \<and> (\<forall>i. z \<notin> set (task_callers (tasks s i)))"
    using inv(1) n(2) unfolding waiting_on_def pending_ok_def by (cases "pending s k"; auto)+
  have "pending_ok u"
    unfolding pending_ok_def
  proof (intro allI impI)
    fix x vs assume x: "pending u x = Some vs"
    show "distinct vs \<and> (\<forall>z\<in>set vs. (\<exists>t. callers u z = Inside x t) \<and> answers u z = [] \<and> (\<forall>i. z \<notin> set (task_callers (tasks u i))))"
    proof (cases "x = k")
      case True
      then have vs: "vs = waiting_on s k @ [w]" using x by (simp add: u(1))
      show ?thesis unfolding vs True u using ws n(1,3) by auto
    next
      case False
      then have "pending s x = Some vs" using x by (simp add: u(1))
      then show ?thesis using m(2) unfolding pending_ok_def u by simp
    qed
  qed
  moreover have "taken_ok u"
  proof -
    have "taken_once u" using m(3) by (simp add: taken_ok_def taken_once_def u(5))
    then show ?thesis using m(3) unfolding taken_ok_def u by simp
  qed
  moreover have "answers_ok u" using m(4) unfolding answers_ok_def u by simp
  moreover have "nobody_lost u"
    unfolding nobody_lost_def u
  proof (intro allI impI)
    fix z x y assume z: "((callers s)(w := Inside k t)) z = Inside x y"
    show "answers s z \<noteq> [] \<or> (\<exists>vs. ((pending s)(k \<mapsto> waiting_on s k @ [w])) x = Some vs \<and> z \<in> set vs) \<or> (\<exists>j. z \<in> set (task_callers (tasks s j)))"
    proof (cases "z = w")
      case True
      then show ?thesis using z by auto
    next
      case False
      then have "answers s z \<noteq> [] \<or> (\<exists>vs. pending s x = Some vs \<and> z \<in> set vs) \<or> (\<exists>j. z \<in> set (task_callers (tasks s j)))"
        using inv(2) z unfolding nobody_lost_def by auto
      then show ?thesis by (auto simp: waiting_on_def)
    qed
  qed
  ultimately show ?thesis using assms(3,4) by (simp add: dns_inv_def)
qed

lemma section_cases:
  assumes "callers s w = Entered k t"
  obtains (hit) a e where "cache s k = Some (a, e)" "t < e" "resolve_section w k t i s = answer_to w (Inr a) (s\<lparr>callers := (callers s)(w := Inside k t)\<rparr>)"
  | (join) ws where "pending s k = Some ws"
      "resolve_section w k t i s = s\<lparr>callers := (callers s)(w := Inside k t), pending := (pending s)(k \<mapsto> ws @ [w])\<rparr>"
  | (start) "pending s k = None"
      "resolve_section w k t i s = s\<lparr>callers := (callers s)(w := Inside k t), pending := (pending s)(k \<mapsto> [w]), tasks := (tasks s)(i := To_post k)\<rparr>"
proof (cases "\<exists>a e. cache s k = Some (a, e) \<and> t < e")
  case True
  then show thesis using hit by (auto simp: resolve_section_def Let_def)
next
  case False
  show thesis
  proof (cases "pending s k")
    case None
    then show ?thesis using False by (intro start) (auto simp: resolve_section_def Let_def split: option.splits)
  next
    case (Some ws)
    then show ?thesis using False by (intro join) (auto simp: resolve_section_def Let_def split: option.splits)
  qed
qed

lemma section_inv:
  assumes "dns_inv s" "callers s w = Entered k t" "tasks s i = No_task"
  shows "dns_inv (resolve_section w k t i s)"
proof -
  have inv: "one_task s" "cache_ok s" using assms(1) by (simp_all add: dns_inv_def)
  show ?thesis
    using assms(2)
  proof (cases rule: section_cases [where i = i])
    case (hit a e)
    then show ?thesis using hit_inv [OF assms(1,2)] by simp
  next
    case (join ws)
    have "\<exists>j. task_key (tasks s j) = Some k" using inv(1) join(1) unfolding one_task_def by blast
    then have "one_task (resolve_section w k t i s)" using inv(1) unfolding join(2) one_task_def key_once_def by simp
    moreover have "cache_ok (resolve_section w k t i s)" using inv(2) unfolding join(2) cache_ok_def by simp
    ultimately show ?thesis by (rule wait_inv [OF assms(1,2)]) (simp_all add: join waiting_on_def)
  next
    case start
    have none: "task_key (tasks s j) \<noteq> Some k" for j using inv(1) start(1) unfolding one_task_def by blast
    have "one_task (resolve_section w k t i s)"
    proof -
      have "key_once (resolve_section w k t i s)"
        using inv(1) none unfolding start(2) one_task_def key_once_def by auto
      moreover have "(\<exists>j. task_key (((tasks s)(i := To_post k)) j) = Some x) \<longleftrightarrow> x = k \<or> (\<exists>j. task_key (tasks s j) = Some x)" for x
      proof
        assume "\<exists>j. task_key (((tasks s)(i := To_post k)) j) = Some x"
        then show "x = k \<or> (\<exists>j. task_key (tasks s j) = Some x)" by (auto split: if_splits)
      next
        assume "x = k \<or> (\<exists>j. task_key (tasks s j) = Some x)"
        then show "\<exists>j. task_key (((tasks s)(i := To_post k)) j) = Some x"
        proof
          assume "\<exists>j. task_key (tasks s j) = Some x"
          then obtain j where "task_key (tasks s j) = Some x" by blast
          moreover from this have "j \<noteq> i" using assms(3) by auto
          ultimately show ?thesis by (intro exI [of _ j]) simp
        qed (intro exI [of _ i], simp)
      qed
      ultimately show ?thesis using inv(1) unfolding one_task_def start(2) by auto
    qed
    moreover have "cache_ok (resolve_section w k t i s)" using inv(2) unfolding start(2) cache_ok_def by auto
    ultimately show ?thesis by (rule wait_inv [OF assms(1,2)]) (simp_all add: start waiting_on_def assms(3))
  qed
qed

lemma dns_step_inv:
  assumes "dns_inv s" "dns_step s l u"
  shows "dns_inv u"
  using assms(2)
proof cases
  case (tick t)
  show ?thesis unfolding tick(2)
  proof (rule same_work_inv [OF _ assms(1)])
    show "same_work s (s\<lparr>clock := t\<rparr>)" by (simp add: same_work_def)
    show "cache_ok (s\<lparr>clock := t\<rparr>)" using assms(1) by (simp add: dns_inv_def cache_ok_def)
  qed
next
  case (enter w k)
  have o: "callers s w \<noteq> Inside x y" for x y using enter(3) by simp
  note m = caller_moves [OF assms(1) o, of u "Entered k (clock s)"]
  have "cache_ok u" using assms(1) unfolding enter(2) by (simp add: dns_inv_def cache_ok_def)
  then show ?thesis using m by (simp add: dns_inv_def enter(2))
next
  case (sect w k t i)
  then show ?thesis using section_inv [OF assms(1)] by simp
next
  case (post i k)
  show ?thesis unfolding post(2)
  proof (rule same_work_inv [OF _ assms(1)])
    show "same_work s (task_at i (Queued k) s)" using post(3) by (intro same_work_task [where i = i]) (simp_all add: task_at_def)
    show "cache_ok (task_at i (Queued k) s)" using assms(1) by (simp add: dns_inv_def cache_ok_def task_at_def)
  qed
next
  case (look_up_ok i k err res a)
  show ?thesis
  proof (rule same_work_inv [OF _ assms(1)])
    show "same_work s u" unfolding look_up_ok(2) using look_up_ok(3) by (intro same_work_task [where i = i]) (auto simp: task_at_def)
    have "cache_ok s" using assms(1) by (simp add: dns_inv_def)
    then show "cache_ok u" unfolding look_up_ok(2) cache_ok_def task_at_def by simp blast
  qed
next
  case (look_up_fails i k err res e)
  show ?thesis
  proof (rule same_work_inv [OF _ assms(1)])
    show "same_work s u" unfolding look_up_fails(2) using look_up_fails(3) by (intro same_work_task [where i = i]) (auto simp: task_at_def)
    show "cache_ok u" unfolding look_up_fails(2) using assms(1) by (auto simp: dns_inv_def cache_ok_def task_at_def)
  qed
next
  case (store i k a t)
  have k: "task_key (tasks s i) = Some k" using store(3) by simp
  obtain ws where ws: "pending s k = Some ws" by (rule key_pending [OF assms(1) k])
  have f: "(k, t, a) \<in> found s" using assms(1) store(3) by (simp add: dns_inv_def cache_ok_def)
  have u: "u = s\<lparr>cache := (cache s)(k \<mapsto> (a, t + ttl s)), expiryQueue := insort_key fst (t + ttl s, k) (expiryQueue s),
      pending := (pending s)(k := None), tasks := (tasks s)(i := Counting t ws a)\<rparr>"
    unfolding store(2) by (simp add: store_section_def take_pending_def ws Let_def)
  have "cache_ok u" using assms(1) f unfolding u by (auto simp: dns_inv_def cache_ok_def sorted_insort_key set_insort_key)
  then show ?thesis using f by (intro take_over_inv [OF assms(1) k ws, where p = "Counting t ws a"]) (auto simp: u)
next
  case (fail i k e)
  have k: "task_key (tasks s i) = Some k" using fail(3) by simp
  obtain ws where ws: "pending s k = Some ws" by (rule key_pending [OF assms(1) k])
  have u: "u = s\<lparr>pending := (pending s)(k := None), tasks := (tasks s)(i := Answering ws (Inl e))\<rparr>"
    unfolding fail(2) by (simp add: fail_section_def take_pending_def ws)
  have "cache_ok u" using assms(1) unfolding u by (auto simp: dns_inv_def cache_ok_def)
  then show ?thesis by (intro take_over_inv [OF assms(1) k ws, where p = "Answering ws (Inl e)"]) (auto simp: u)
next
  case (count i t ws a)
  show ?thesis
  proof (rule same_work_inv [OF _ assms(1)])
    show "same_work s u" unfolding count(2) using count(3) by (intro same_work_task [where i = i]) (auto simp: task_at_def)
    show "cache_ok u" unfolding count(2) using assms(1) by (auto simp: dns_inv_def cache_ok_def task_at_def)
  qed
next
  case (purge i t ws a)
  obtain q c where p: "Dns_Resolver.purge t (expiryQueue s) (cache s) = (q, c)" by fastforce
  have u: "u = s\<lparr>expiryQueue := q, cache := c, tasks := (tasks s)(i := Answering ws (Inr a))\<rparr>"
    unfolding purge(2) by (simp add: purge_section_def p task_at_def)
  have c: "cache_ok s" using assms(1) by (simp add: dns_inv_def)
  have "sorted (map fst q)" using c purge_queue [of t "expiryQueue s" "cache s"] by (simp add: p cache_ok_def sorted_rest)
  show ?thesis
  proof (rule same_work_inv [OF _ assms(1)])
    show "same_work s u" unfolding u using purge(3) by (intro same_work_task [where i = i]) auto
    have "(\<exists>v. (x, v, b) \<in> found s \<and> e = v + ttl s) \<and> (e, x) \<in> set q" if "c x = Some (b, e)" for x b e
    proof -
      have "cache s x = Some (b, e)" using that purge_sub [of t "expiryQueue s" "cache s" x] by (simp add: p)
      moreover have "(e, x) \<in> set q"
        using purge_complete(2) [of "expiryQueue s" "cache s" t x b e] c that by (simp add: p cache_ok_def)
      ultimately show ?thesis using c unfolding cache_ok_def by blast
    qed
    then show "cache_ok u" unfolding u using c \<open>sorted (map fst q)\<close> by (auto simp: cache_ok_def)
  qed
next
  case (answer i w ws r)
  then show ?thesis using answer_inv [OF assms(1)] by simp
next
  case (over i r)
  show ?thesis
  proof (rule same_work_inv [OF _ assms(1)])
    show "same_work s u" unfolding over(2) using over(3) by (intro same_work_task [where i = i]) (auto simp: task_at_def)
    show "cache_ok u" unfolding over(2) using assms(1) by (auto simp: dns_inv_def cache_ok_def task_at_def)
  qed
qed

interpretation dns: step_invariant dns_step dns_inv
  by unfold_locales (rule dns_step_inv)

lemma resolver_init_inv: "dns_inv (resolver_init t)"
  by (simp add: dns_inv_def one_task_def key_once_def pending_ok_def taken_ok_def taken_once_def answers_ok_def nobody_lost_def
      cache_ok_def resolver_init_def)

lemmas dns_reachable = dns.run_keeps [OF _ resolver_init_inv]

section \<open>Properties\<close>

text \<open>
  C20. Callers of the resolver that wait for the same name share one look-up, and none of them is
  forgotten: in every reachable state a caller without an answer is either in the list of its key,
  for which exactly one task is still going to produce a result, or has been taken over by a
  task that answers it.
\<close>

theorem dns_nobody_forgotten:
  assumes "run dns_step (resolver_init n) ls s" "callers s w = Inside k t" "answers s w = []"
  shows "(\<exists>ws. pending s k = Some ws \<and> w \<in> set ws \<and> (\<exists>!i. task_key (tasks s i) = Some k)) \<or> (\<exists>!i. w \<in> set (task_callers (tasks s i)))"
proof -
  have inv: "one_task s" "taken_ok s" "nobody_lost s" using dns_reachable [OF assms(1)] by (simp_all add: dns_inv_def)
  then consider ws where "pending s k = Some ws" "w \<in> set ws" | i where "w \<in> set (task_callers (tasks s i))"
    using assms(2,3) unfolding nobody_lost_def by blast
  then show ?thesis
  proof cases
    case 1
    then have "\<exists>!i. task_key (tasks s i) = Some k" using inv(1) unfolding one_task_def key_once_def by blast
    then show ?thesis using 1 by blast
  next
    case 2
    then have "\<exists>!i. w \<in> set (task_callers (tasks s i))" using inv(2) unfolding taken_ok_def taken_once_def by blast
    then show ?thesis by blast
  qed
qed

text \<open>
  A caller of the resolver is answered at most once, and addresses are always the result of a
  successful look-up of the name it asked for.
\<close>

theorem dns_answers_once:
  assumes "run dns_step (resolver_init n) ls s"
  shows "length (answers s w) \<le> 1 \<and>
    (\<forall>a. Inr a \<in> set (answers s w) \<longrightarrow> (\<exists>k t u. callers s w = Inside k t \<and> (k, u, a) \<in> found s))"
  using dns_reachable [OF assms] unfolding dns_inv_def answers_ok_def by blast

text \<open>An answer from the cache is younger than the time to live.\<close>

theorem dns_cache_fresh:
  assumes "run dns_step (resolver_init n) ls s" "callers s w = Entered k t" "answers (resolve_section w k t i s) w = [Inr a]"
  shows "\<exists>u. (k, u, a) \<in> found s \<and> t < u + ttl s"
proof -
  have inv: "dns_inv s" using dns_reachable [OF assms(1)] .
  have o: "answers s w = []" using outside_nowhere(1) [OF inv] assms(2) by simp
  show ?thesis
    using assms(2)
  proof (cases rule: section_cases [where i = i])
    case (hit b e)
    then have "b = a" using assms(3) o by (simp add: answer_to_def)
    then show ?thesis using hit inv unfolding dns_inv_def cache_ok_def by blast
  qed (use assms(3) o in simp_all)
qed

text \<open>Purging leaves no entry that is out of date.\<close>

theorem dns_purge_complete:
  assumes "run dns_step (resolver_init n) ls s" "cache (purge_section t s) k = Some (a, e)"
  shows "t < e \<and> cache s k = Some (a, e)"
proof -
  have c: "cache_ok s" using dns_reachable [OF assms(1)] by (simp add: dns_inv_def)
  have p: "snd (purge t (expiryQueue s) (cache s)) k = Some (a, e)"
    using assms(2) by (simp add: purge_section_def case_prod_unfold Let_def)
  have q: "\<And>k a e. cache s k = Some (a, e) \<Longrightarrow> (e, k) \<in> set (expiryQueue s)" using c unfolding cache_ok_def by blast
  have "t < e" using c by (intro purge_complete(1) [OF _ q p]) (simp add: cache_ok_def)
  then show ?thesis using purge_sub [OF p] by simp
qed

text \<open>Different questions can have the same key.\<close>

lemma key_collision: "cacheKey ''a|b'' [] f = cacheKey ''a'' ''b|'' f"
  by (simp add: cacheKey_def)

text \<open>An error of \<^verbatim>\<open>getaddrinfo\<close>, which then gives no list, is never reported with its own text.\<close>

lemma gai_error_text_lost: "err \<noteq> 0 \<Longrightarrow> lookup_result err None = Inl (No_result err)"
  by (simp add: lookup_result_def)

section \<open>A sample\<close>

text \<open>Two callers ask for the same name; the second one joins the look-up of the first one.\<close>

definition asked1 :: "string resolver" where
  "asked1 = resolve_section 0 ''h'' 0 0 ((resolver_init 300)\<lparr>callers := (\<lambda>_. Outside)(0 := Entered ''h'' 0)\<rparr>)"

definition asked2 :: "string resolver" where
  "asked2 = resolve_section 1 ''h'' 0 1 (asked1\<lparr>callers := (callers asked1)(1 := Entered ''h'' 0)\<rparr>)"

lemma asked_facts:
  "callers asked1 1 = Outside" "clock asked1 = 0" "tasks asked1 1 = No_task" "pending asked2 ''h'' = Some [0, 1]"
  "callers asked2 1 = Inside ''h'' 0" "answers asked2 1 = []" "tasks asked2 0 = To_post ''h''"
  by (simp_all add: asked1_def asked2_def resolve_section_def resolver_init_def)

lemma asked2_run: "run dns_step (resolver_init 300) [Enter 0, Section 0, Enter 1, Section 1] asked2"
proof -
  let ?e0 = "(resolver_init 300)\<lparr>callers := (\<lambda>_. Outside)(0 := Entered ''h'' 0)\<rparr> :: string resolver"
  let ?e1 = "asked1\<lparr>callers := (callers asked1)(1 := Entered ''h'' 0)\<rparr>"
  have "dns_step (resolver_init 300) (Enter 0) ?e0" using enter [of "resolver_init 300" 0 "''h''"] by (simp add: resolver_init_def)
  moreover have "dns_step ?e0 (Section 0) asked1" unfolding asked1_def by (rule sect) (simp_all add: resolver_init_def)
  moreover have "dns_step asked1 (Enter 1) ?e1" using enter [OF asked_facts(1), of "''h''"] by (simp only: asked_facts)
  moreover have "dns_step ?e1 (Section 1) asked2" unfolding asked2_def by (rule sect) (use asked_facts(3) in simp_all)
  ultimately show ?thesis by (blast intro: run_cons run_nil)
qed

theorem dns_nobody_forgotten_witness:
  "(\<exists>ws. pending asked2 ''h'' = Some ws \<and> 1 \<in> set ws \<and> (\<exists>!i. task_key (tasks asked2 i) = Some ''h'')) \<or>
   (\<exists>!i. 1 \<in> set (task_callers (tasks asked2 i)))"
  using dns_nobody_forgotten [OF asked2_run asked_facts(5,6)] .

theorem dns_answers_once_witness: "length (answers asked2 1) \<le> 1"
  using dns_answers_once [OF asked2_run] by blast

end
