(* ===== verification/Tcp_Connection.thy ===== *)
theory Tcp_Connection
  imports Io_Channel "HOL-Library.Sublist"
begin

text \<open>
  TCP connections (\<^verbatim>\<open>src/src/TcpConnection.cc\<close>, \<^verbatim>\<open>src/include/nitrocoro/io/adapters\<close>): the functions that a channel
  calls for reading, writing and connecting, and the operations of a connection. An operation of a
  channel is determined by its turns, the answers of the system calls that its function made, or
  that it was cancelled while it waited; \<open>None\<close> stands for an operation that has not returned yet.
\<close>

section \<open>System calls\<close>

datatype errno = EAGAIN | EINTR | EPIPE | ECONNRESET | EINPROGRESS | EALREADY | EISCONN | Other_errno nat

text \<open>\<^verbatim>\<open>read\<close>: the bytes (none at the end of the stream) or the error.\<close>

datatype read_answer = Got string | Read_failed errno

text \<open>\<^verbatim>\<open>write\<close>: how many bytes were taken, more than none, or the error.\<close>

datatype write_answer = Wrote nat | Write_failed errno

text \<open>\<^verbatim>\<open>connect\<close>, and \<^verbatim>\<open>getsockopt\<close> for the state of an attempt that was started.\<close>

datatype connect_answer =
    Connect_done
  | Connect_failed errno
  | So_error "errno option"
  | Getsockopt_failed

section \<open>Adapters\<close>

text \<open>
  \<^verbatim>\<open>performImpl\<close>: the function \<open>f\<close> of the operation keeps a state of its own. The waits in between and
  the wakeups are the subject of \<^verbatim>\<open>Io_Channel\<close>.
\<close>

datatype 'r turn = Called 'r | Canceled_wait

fun perform :: "('r \<Rightarrow> 'f \<Rightarrow> io_status \<times> 'f) \<Rightarrow> 'r turn list \<Rightarrow> 'f \<Rightarrow> (io_result \<times> 'f) option" where
  "perform f [] s = None"
| "perform f (Canceled_wait # ts) s = Some (Io_canceled, s)"
| "perform f (Called r # ts) s =
     (case f r s of
        (Success, s) \<Rightarrow> Some (Io_success, s)
      | (Eof, s) \<Rightarrow> Some (Io_eof, s)
      | (Error, s) \<Rightarrow> Some (Io_error, s)
      | (NeedRead, s) \<Rightarrow> perform f ts s
      | (NeedWrite, s) \<Rightarrow> perform f ts s
      | (Retry, s) \<Rightarrow> perform f ts s)"

text \<open>\<^verbatim>\<open>BufferReader\<close> with a buffer of \<open>len\<close> bytes; the state is what was read.\<close>

fun read_status :: "errno \<Rightarrow> io_status" where
  "read_status EAGAIN = NeedRead"
| "read_status EINTR = Retry"
| "read_status _ = Error"

definition buffer_reader :: "nat \<Rightarrow> read_answer \<Rightarrow> string \<Rightarrow> io_status \<times> string" where
  "buffer_reader len r bs =
     (if len = 0 then (Success, bs)
      else case r of
          Got xs \<Rightarrow> if xs \<noteq> [] then (Success, xs) else (Eof, bs)
        | Read_failed e \<Rightarrow> (read_status e, bs))"

text \<open>\<^verbatim>\<open>BufferWriter\<close>: the bytes taken so far, and whether the channel watches for writability.\<close>

record writer_state =
  taken :: string
  wroteLen :: nat
  outEnabled :: bool

definition buffer_writer :: "string \<Rightarrow> write_answer \<Rightarrow> writer_state \<Rightarrow> io_status \<times> writer_state" where
  "buffer_writer buf r w =
     (if buf = [] then (Success, w)
      else case r of
          Wrote n \<Rightarrow>
            (let w = w\<lparr>taken := taken w @ take n (drop (wroteLen w) buf), wroteLen := wroteLen w + n\<rparr> in
             if length buf \<le> wroteLen w then (Success, w\<lparr>outEnabled := False\<rparr>) else (Retry, w))
        | Write_failed e \<Rightarrow>
            (case e of
               EAGAIN \<Rightarrow> (NeedWrite, w\<lparr>outEnabled := True\<rparr>)
             | EINTR \<Rightarrow> (Retry, w)
             | EPIPE \<Rightarrow> (Eof, w)
             | ECONNRESET \<Rightarrow> (Eof, w)
             | _ \<Rightarrow> (Error, w)))"

text \<open>\<^verbatim>\<open>Connector\<close>: whether an attempt was started, and whether the channel watches for writability.\<close>

record connector_state =
  connecting :: bool
  connOut :: bool

text \<open>An answer of the wrong system call is not possible; it is mapped to an error.\<close>

definition connector :: "connect_answer \<Rightarrow> connector_state \<Rightarrow> io_status \<times> connector_state" where
  "connector r c =
     (if connecting c then
        (case r of
           So_error None \<Rightarrow> (Success, c\<lparr>connOut := False\<rparr>)
         | So_error (Some e) \<Rightarrow> ((if e = EINPROGRESS \<or> e = EALREADY then NeedWrite else Error), c)
         | _ \<Rightarrow> (Error, c))
      else
        (case r of
           Connect_done \<Rightarrow> (Success, c\<lparr>connOut := False\<rparr>)
         | Connect_failed e \<Rightarrow>
             (case e of
                EISCONN \<Rightarrow> (Success, c\<lparr>connOut := False\<rparr>)
              | EINPROGRESS \<Rightarrow> (NeedWrite, c\<lparr>connecting := True, connOut := True\<rparr>)
              | EALREADY \<Rightarrow> (NeedWrite, c\<lparr>connecting := True, connOut := True\<rparr>)
              | EINTR \<Rightarrow> (Retry, c)
              | _ \<Rightarrow> (Error, c))
         | _ \<Rightarrow> (Error, c)))"

section \<open>Connections\<close>

datatype tcp_state = Connected | LocalShutdown | PeerShutdown | Closed

datatype tcp_error = Tcp_read_error | Tcp_write_error | Connect_error | Null_channel

text \<open>\<open>has_channel\<close>: \<^verbatim>\<open>ioChannelPtr_\<close> is not null; \<open>fins\<close> counts the calls of \<^verbatim>\<open>shutdownWrite\<close>.\<close>

record tcp_conn =
  tcp_state :: tcp_state
  has_channel :: bool
  out_events :: bool
  sent :: string
  fins :: nat

definition tcp_connected :: tcp_conn where
  "tcp_connected = \<lparr>tcp_state = Connected, has_channel = True, out_events = False, sent = [], fins = 0\<rparr>"

text \<open>\<^verbatim>\<open>connect\<close>; the failure to create a socket is the error of a connection attempt as well.\<close>

definition tcp_connect :: "connect_answer turn list \<Rightarrow> (tcp_error + tcp_conn) option" where
  "tcp_connect ts =
     map_option (\<lambda>(res, c). if res = Io_success then Inr tcp_connected else Inl Connect_error)
       (perform connector ts \<lparr>connecting = False, connOut = False\<rparr>)"

definition tcp_read :: "read_answer turn list \<Rightarrow> nat \<Rightarrow> tcp_conn \<Rightarrow> ((tcp_error + string) \<times> tcp_conn) option" where
  "tcp_read ts len c =
     (if \<not> has_channel c then Some (Inl Null_channel, c)
      else case perform (buffer_reader len) ts [] of
          None \<Rightarrow> None
        | Some (Io_eof, _) \<Rightarrow>
            Some (Inr [], c\<lparr>tcp_state := (if tcp_state c = LocalShutdown then Closed else PeerShutdown)\<rparr>)
        | Some (Io_success, bs) \<Rightarrow> Some (Inr bs, c)
        | Some (_, _) \<Rightarrow> Some (Inl Tcp_read_error, c\<lparr>tcp_state := Closed\<rparr>))"

definition tcp_write :: "write_answer turn list \<Rightarrow> string \<Rightarrow> tcp_conn \<Rightarrow> ((tcp_error + nat) \<times> tcp_conn) option" where
  "tcp_write ts buf c =
     (if \<not> has_channel c then Some (Inl Null_channel, c)
      else case perform (buffer_writer buf) ts \<lparr>taken = [], wroteLen = 0, outEnabled = out_events c\<rparr> of
          None \<Rightarrow> None
        | Some (res, w) \<Rightarrow>
            (let c = c\<lparr>sent := sent c @ taken w, out_events := outEnabled w\<rparr> in
             if res = Io_eof then Some (Inr 0, c\<lparr>tcp_state := Closed\<rparr>)
             else if res \<noteq> Io_success then Some (Inl Tcp_write_error, c\<lparr>tcp_state := Closed\<rparr>)
             else Some (Inr (length buf), c)))"

definition tcp_shutdown :: "tcp_conn \<Rightarrow> tcp_error + tcp_conn" where
  "tcp_shutdown c =
     (if \<not> has_channel c then Inl Null_channel
      else if tcp_state c = LocalShutdown \<or> tcp_state c = Closed then Inr c
      else Inr (c\<lparr>tcp_state := (if tcp_state c = PeerShutdown then Closed else LocalShutdown), fins := fins c + 1\<rparr>))"

definition tcp_forceClose :: "tcp_conn \<Rightarrow> tcp_error + tcp_conn" where
  "tcp_forceClose c =
     (if \<not> has_channel c then Inl Null_channel
      else Inr (c\<lparr>tcp_state := Closed, out_events := False, has_channel := False\<rparr>))"

section \<open>Writing\<close>

definition writer_ok :: "string \<Rightarrow> writer_state \<Rightarrow> bool" where
  "writer_ok buf w \<longleftrightarrow> taken w = take (wroteLen w) buf"

lemma writer_step:
  assumes "buffer_writer buf r w = (st, u)" "writer_ok buf w" "wroteLen w < length buf"
  shows "writer_ok buf u" "st = Success \<Longrightarrow> taken u = buf \<and> \<not> outEnabled u" "st \<noteq> Success \<Longrightarrow> wroteLen u < length buf"
    "st = NeedWrite \<Longrightarrow> outEnabled u" "st \<noteq> NeedRead"
  using assms
  by (auto simp: writer_ok_def buffer_writer_def Let_def take_add split: write_answer.splits if_splits errno.splits)

lemma writer_unfinished:
  assumes "writer_ok buf w" "wroteLen w < length buf"
  shows "prefix (taken w) buf" "taken w \<noteq> buf"
  using assms by (auto simp: writer_ok_def take_is_prefix)

lemma perform_writer:
  "perform (buffer_writer buf) ts w = Some (res, v) \<Longrightarrow> writer_ok buf w \<Longrightarrow> wroteLen w < length buf \<Longrightarrow>
     prefix (taken v) buf \<and> (res = Io_success \<longleftrightarrow> taken v = buf) \<and> (res = Io_success \<longrightarrow> \<not> outEnabled v)"
proof (induction ts arbitrary: w)
  case (Cons t ts)
  show ?case
  proof (cases t)
    case (Called r)
    obtain st u where u: "buffer_writer buf r w = (st, u)" by fastforce
    note w = writer_step [OF u Cons.prems(2,3)]
    show ?thesis
    proof (cases "st = Success")
      case True
      then show ?thesis using Cons.prems(1) Called u w(2) by auto
    next
      case False
      then show ?thesis
        using Cons.IH [of u] Cons.prems(1) Called u w(1,3) writer_unfinished [OF w(1) w(3) [OF False]] by (cases st) auto
    qed
  next
    case Canceled_wait
    then show ?thesis using Cons.prems writer_unfinished by auto
  qed
qed simp

lemma tcp_write_cases:
  assumes "tcp_write ts buf c = Some (x, d)" "has_channel c"
  obtains (empty) "buf = []" | (ended) res w where "perform (buffer_writer buf) ts \<lparr>taken = [], wroteLen = 0, outEnabled = out_events c\<rparr> = Some (res, w)"
    "sent d = sent c @ taken w" "out_events d = outEnabled w" "prefix (taken w) buf" "res = Io_success \<longleftrightarrow> taken w = buf"
    "res = Io_success \<longrightarrow> \<not> outEnabled w"
    "x = (if res = Io_eof then Inr 0 else if res \<noteq> Io_success then Inl Tcp_write_error else Inr (length buf))"
    "tcp_state d = (if res = Io_success then tcp_state c else Closed)"
proof (cases "buf = []")
  case False
  obtain res w where w: "perform (buffer_writer buf) ts \<lparr>taken = [], wroteLen = 0, outEnabled = out_events c\<rparr> = Some (res, w)"
    using assms by (auto simp: tcp_write_def split: option.splits)
  have "prefix (taken w) buf \<and> (res = Io_success \<longleftrightarrow> taken w = buf) \<and> (res = Io_success \<longrightarrow> \<not> outEnabled w)"
    using False by (intro perform_writer [OF w]) (simp_all add: writer_ok_def)
  then show thesis
    using assms w by (intro ended [OF w]) (auto simp: tcp_write_def Let_def split: if_splits)
qed (rule that(1))

section \<open>Progress\<close>

fun moves :: "write_answer turn \<Rightarrow> nat" where
  "moves (Called (Wrote n)) = n"
| "moves _ = 0"

fun harmless :: "write_answer turn \<Rightarrow> bool" where
  "harmless (Called (Wrote n)) = True"
| "harmless (Called (Write_failed e)) = (e = EAGAIN \<or> e = EINTR)"
| "harmless Canceled_wait = False"

lemma perform_writer_ends:
  "\<forall>t\<in>set ts. harmless t \<Longrightarrow> length buf \<le> wroteLen w + sum_list (map moves ts) \<Longrightarrow> wroteLen w < length buf \<Longrightarrow>
     \<exists>v. perform (buffer_writer buf) ts w = Some (Io_success, v)"
proof (induction ts arbitrary: w)
  case (Cons t ts)
  obtain r where t: "t = Called r" using Cons.prems(1) by (cases t) auto
  obtain st u where u: "buffer_writer buf r w = (st, u)" by fastforce
  have "st = Success \<or> (st = Retry \<or> st = NeedWrite) \<and> wroteLen u < length buf \<and> wroteLen u = wroteLen w + moves t"
    using u t Cons.prems by (cases r) (auto simp: buffer_writer_def Let_def split: if_splits errno.splits)
  then show ?case using Cons.IH [of u] Cons.prems u t by auto
qed simp

section \<open>Reading and connecting\<close>

definition read_again :: "read_answer turn \<Rightarrow> bool" where
  "read_again t \<longleftrightarrow> t = Called (Read_failed EAGAIN) \<or> t = Called (Read_failed EINTR)"

lemma perform_reader:
  "perform (buffer_reader len) ts bs = Some (res, xs) \<Longrightarrow> 0 < len \<Longrightarrow>
     \<exists>ks t ms. ts = ks @ t # ms \<and> (\<forall>k\<in>set ks. read_again k) \<and>
       (res = Io_success \<and> xs \<noteq> [] \<and> t = Called (Got xs) \<or> res = Io_eof \<and> t = Called (Got []) \<or>
        res = Io_error \<and> (\<exists>e. t = Called (Read_failed e)) \<and> \<not> read_again t \<or> res = Io_canceled \<and> t = Canceled_wait)"
proof (induction ts)
  case (Cons t ts)
  show ?case
  proof (cases "read_again t")
    case True
    moreover have "buffer_reader len (Read_failed EAGAIN) bs = (NeedRead, bs)" "buffer_reader len (Read_failed EINTR) bs = (Retry, bs)"
      using Cons.prems(2) by (simp_all add: buffer_reader_def)
    ultimately have "perform (buffer_reader len) ts bs = Some (res, xs)" using Cons.prems by (auto simp: read_again_def)
    then obtain ks u ms where "ts = ks @ u # ms" "\<forall>k\<in>set ks. read_again k"
      "res = Io_success \<and> xs \<noteq> [] \<and> u = Called (Got xs) \<or> res = Io_eof \<and> u = Called (Got []) \<or>
        res = Io_error \<and> (\<exists>e. u = Called (Read_failed e)) \<and> \<not> read_again u \<or> res = Io_canceled \<and> u = Canceled_wait"
      using Cons.IH Cons.prems(2) by blast
    then show ?thesis using True by (intro exI [of _ "t # ks"] exI [of _ u] exI [of _ ms]) auto
  next
    case False
    have "read_status e = Error" if "t = Called (Read_failed e)" for e using False that by (cases e) (auto simp: read_again_def)
    then show ?thesis
      using Cons.prems False
      by (intro exI [of _ "[]"] exI [of _ t] exI [of _ ts])
        (cases t; auto simp: buffer_reader_def split: read_answer.splits if_splits)
  qed
qed simp

text \<open>The turns of a connection attempt that the kernel has confirmed.\<close>

fun established :: "bool \<Rightarrow> connect_answer turn list \<Rightarrow> bool" where
  "established b [] = False"
| "established b (Called Connect_done # ts) = (\<not> b)"
| "established b (Called (Connect_failed e) # ts) =
     (\<not> b \<and> (e = EISCONN \<or> (e = EINPROGRESS \<or> e = EALREADY) \<and> established True ts \<or> e = EINTR \<and> established False ts))"
| "established b (Called (So_error None) # ts) = b"
| "established b (Called (So_error (Some e)) # ts) = (b \<and> (e = EINPROGRESS \<or> e = EALREADY) \<and> established True ts)"
| "established b (Called Getsockopt_failed # ts) = False"
| "established b (Canceled_wait # ts) = False"

lemma connector_simps:
  "connector Connect_done c = (if connecting c then (Error, c) else (Success, c\<lparr>connOut := False\<rparr>))"
  "connector (So_error None) c = (if connecting c then (Success, c\<lparr>connOut := False\<rparr>) else (Error, c))"
  "connector (So_error (Some e)) c =
     (if connecting c \<and> (e = EINPROGRESS \<or> e = EALREADY) then (NeedWrite, c) else (Error, c))"
  "connector (Connect_failed e) c =
     (if connecting c then (Error, c)
      else if e = EISCONN then (Success, c\<lparr>connOut := False\<rparr>)
      else if e = EINPROGRESS \<or> e = EALREADY then (NeedWrite, c\<lparr>connecting := True, connOut := True\<rparr>)
      else if e = EINTR then (Retry, c) else (Error, c))"
  "connector Getsockopt_failed c = (Error, c)"
  by (auto simp: connector_def split: errno.splits)

lemma perform_connector:
  "(\<exists>d. perform connector ts c = Some (Io_success, d)) \<longleftrightarrow> established (connecting c) ts"
proof (induction ts arbitrary: c)
  case (Cons t ts)
  show ?case
  proof (cases t)
    case (Called r)
    then show ?thesis
    proof (cases r)
      case (So_error e)
      then show ?thesis using Called Cons [of c] by (cases e) (auto simp: connector_simps)
    next
      case (Connect_failed e)
      then show ?thesis
        using Called Cons [of c] Cons [of "c\<lparr>connecting := True, connOut := True\<rparr>"] by (auto simp: connector_simps)
    qed (simp_all add: connector_simps)
  qed simp
qed simp

section \<open>Properties\<close>

text \<open>
  C16. A write that returns a length has handed all bytes of its buffer to the kernel, once and in
  order, however many system calls it took; when it fails or the peer is gone, what was handed over
  is a prefix of the buffer and the connection counts as closed. After a complete write the channel
  no longer watches for writability.
\<close>

theorem tcp_write_exact:
  assumes "tcp_write ts buf c = Some (x, d)" "has_channel c" "buf \<noteq> []"
  shows "\<exists>bs. sent d = sent c @ bs \<and> prefix bs buf \<and>
    (case x of Inr n \<Rightarrow> n = length buf \<and> bs = buf \<and> tcp_state d = tcp_state c \<and> \<not> out_events d \<or> n = 0 \<and> bs \<noteq> buf \<and> tcp_state d = Closed
     | Inl e \<Rightarrow> e = Tcp_write_error \<and> bs \<noteq> buf \<and> tcp_state d = Closed)"
  using assms(1,2)
proof (cases rule: tcp_write_cases)
  case (ended res w)
  then show ?thesis by (intro exI [of _ "taken w"]) (auto split: if_splits)
qed (use assms(3) in simp)

text \<open>
  A write always finishes when the kernel takes the bytes: once the answers of the system calls
  add up to the length of the buffer, interrupted and refused calls among them, \<^verbatim>\<open>write\<close> returns.
\<close>

theorem tcp_write_finishes:
  assumes "has_channel c" "\<forall>t\<in>set ts. harmless t" "length buf \<le> sum_list (map moves ts)" "buf \<noteq> []"
  shows "\<exists>d. tcp_write ts buf c = Some (Inr (length buf), d)"
  using perform_writer_ends [OF assms(2), of buf "\<lparr>taken = [], wroteLen = 0, outEnabled = out_events c\<rparr>"] assms(1,3,4)
  by (auto simp: tcp_write_def Let_def)

text \<open>
  A read returns exactly the bytes of one system call, and none were dropped before it: all calls
  before it were interrupted or found nothing. The empty answer means the end of the stream, and
  the connection then knows that the peer has closed; every other outcome is an error.
\<close>

theorem tcp_read_exact:
  assumes "tcp_read ts len c = Some (x, d)" "has_channel c" "0 < len"
  shows "\<exists>ks t ms. ts = ks @ t # ms \<and> (\<forall>k\<in>set ks. read_again k) \<and>
    (case x of
       Inr bs \<Rightarrow> t = Called (Got bs) \<and>
         tcp_state d = (if bs \<noteq> [] then tcp_state c else if tcp_state c = LocalShutdown then Closed else PeerShutdown)
     | Inl e \<Rightarrow> e = Tcp_read_error \<and> tcp_state d = Closed \<and> (t = Canceled_wait \<or> \<not> read_again t \<and> (\<exists>e. t = Called (Read_failed e))))"
proof -
  obtain res xs where p: "perform (buffer_reader len) ts [] = Some (res, xs)"
    using assms(1,2) by (auto simp: tcp_read_def split: option.splits)
  obtain ks t ms where "ts = ks @ t # ms" "\<forall>k\<in>set ks. read_again k"
    "res = Io_success \<and> xs \<noteq> [] \<and> t = Called (Got xs) \<or> res = Io_eof \<and> t = Called (Got []) \<or>
        res = Io_error \<and> (\<exists>e. t = Called (Read_failed e)) \<and> \<not> read_again t \<or> res = Io_canceled \<and> t = Canceled_wait"
    using perform_reader [OF p assms(3)] by blast
  then show ?thesis
    using assms(1,2) p by (intro exI [of _ ks] exI [of _ t] exI [of _ ms]) (auto simp: tcp_read_def)
qed

text \<open>
  \<^verbatim>\<open>connect\<close> gives a connection exactly when the kernel confirmed it: at once, or after an attempt
  in progress whose socket reported no error; interrupted attempts are continued.
\<close>

theorem tcp_connect_exact: "(\<exists>c. tcp_connect ts = Some (Inr c)) \<longleftrightarrow> established False ts"
  using perform_connector [of ts "\<lparr>connecting = False, connOut = False\<rparr>"] by (auto simp: tcp_connect_def split: if_splits)

text \<open>After \<^verbatim>\<open>forceClose\<close> the channel is gone, and every further operation goes through the null pointer.\<close>

lemma forceClose_then_null:
  assumes "tcp_forceClose c = Inr d"
  shows "tcp_forceClose d = Inl Null_channel" "tcp_shutdown d = Inl Null_channel" "tcp_read ts len d = Some (Inl Null_channel, d)"
    "tcp_write us buf d = Some (Inl Null_channel, d)"
  using assms by (auto simp: tcp_forceClose_def tcp_shutdown_def tcp_read_def tcp_write_def split: if_splits)

text \<open>A closed connection that still reads the end of the stream counts as half open again, and is shut down twice.\<close>

lemma closed_reopened_by_eof:
  assumes "has_channel c" "tcp_state c = Closed" "0 < len"
  shows "\<exists>d e. tcp_read [Called (Got [])] len c = Some (Inr [], d) \<and> tcp_state d = PeerShutdown \<and>
    tcp_shutdown d = Inr e \<and> fins e = fins c + 1"
  using assms by (auto simp: tcp_read_def buffer_reader_def tcp_shutdown_def)

theorem tcp_write_exact_witness:
  "\<exists>x d bs. tcp_write [Called (Wrote 1), Called (Write_failed EAGAIN), Called (Wrote 2)] ''abc'' tcp_connected = Some (x, d) \<and>
     sent d = sent tcp_connected @ bs \<and> prefix bs ''abc''"
proof -
  have "\<exists>x d. tcp_write [Called (Wrote 1), Called (Write_failed EAGAIN), Called (Wrote 2)] ''abc'' tcp_connected = Some (x, d)"
    by (simp add: tcp_write_def buffer_writer_def tcp_connected_def Let_def)
  moreover have "has_channel tcp_connected" by (simp add: tcp_connected_def)
  ultimately show ?thesis using tcp_write_exact [of _ "''abc''" tcp_connected] by blast
qed

theorem tcp_write_finishes_witness:
  "\<exists>d. tcp_write [Called (Wrote 1), Called (Write_failed EAGAIN), Called (Wrote 2)] ''abc'' tcp_connected = Some (Inr (length ''abc''), d)"
  using tcp_write_finishes [of tcp_connected "[Called (Wrote 1), Called (Write_failed EAGAIN), Called (Wrote 2)]" "''abc''"]
  by (simp add: tcp_connected_def)

theorem tcp_read_exact_witness:
  "\<exists>x d ks t ms. tcp_read [Called (Read_failed EAGAIN), Called (Got ''ab'')] 10 tcp_connected = Some (x, d) \<and>
     [Called (Read_failed EAGAIN), Called (Got ''ab'')] = ks @ t # ms \<and> (\<forall>k\<in>set ks. read_again k)"
proof -
  have "\<exists>x d. tcp_read [Called (Read_failed EAGAIN), Called (Got ''ab'')] 10 tcp_connected = Some (x, d)"
    by (simp add: tcp_read_def buffer_reader_def tcp_connected_def)
  moreover have "has_channel tcp_connected" by (simp add: tcp_connected_def)
  ultimately show ?thesis using tcp_read_exact [of _ 10 tcp_connected] by fastforce
qed

end
