(* ===== verification/Tcp_Server.thy ===== *)
theory Tcp_Server
  imports Runs Tcp_Connection
begin

text \<open>
  The TCP server (\<^verbatim>\<open>src/src/TcpServer.cc\<close>): \<^verbatim>\<open>start\<close> with its loop, the handlers that it spawns and
  \<^verbatim>\<open>stop\<close>, as steps on the thread of the scheduler between two suspensions. Connections are named by
  numbers. What the operations on the listening channel answer, how long handlers run and what they do
  with their connection is left open.
\<close>

section \<open>Accepting\<close>

text \<open>\<^verbatim>\<open>accept4\<close>: the descriptor of the connection or the error; and \<^verbatim>\<open>Acceptor\<close>, which keeps the new socket.\<close>

datatype accept_answer = Accepted fd | Accept_failed errno

fun acceptor :: "accept_answer \<Rightarrow> fd option \<Rightarrow> io_status \<times> fd option" where
  "acceptor (Accepted fd) sock = (Success, Some fd)"
| "acceptor (Accept_failed EAGAIN) sock = (NeedRead, sock)"
| "acceptor (Accept_failed EINTR) sock = (Retry, sock)"
| "acceptor (Accept_failed e) sock = (Error, sock)"

definition accept_again :: "accept_answer turn \<Rightarrow> bool" where
  "accept_again t \<longleftrightarrow> t = Called (Accept_failed EAGAIN) \<or> t = Called (Accept_failed EINTR)"

lemma accept_success:
  "perform acceptor ts sock = Some (Io_success, sock') \<Longrightarrow>
     \<exists>ks fd ms. ts = ks @ Called (Accepted fd) # ms \<and> sock' = Some fd \<and> (\<forall>k\<in>set ks. accept_again k)"
proof (induction ts)
  case (Cons t ts)
  show ?case
  proof (cases "accept_again t")
    case True
    then have "perform acceptor ts sock = Some (Io_success, sock')" using Cons.prems by (auto simp: accept_again_def)
    then obtain ks fd ms where "ts = ks @ Called (Accepted fd) # ms \<and> sock' = Some fd \<and> (\<forall>k\<in>set ks. accept_again k)"
      using Cons.IH by blast
    then show ?thesis using True by (intro exI [of _ "t # ks"] exI [of _ fd] exI [of _ ms]) simp
  next
    case False
    obtain r where "t = Called r" using Cons.prems by (cases t) simp_all
    then obtain fd where "t = Called (Accepted fd)" "sock' = Some fd"
      using Cons.prems False by (cases "(r, sock)" rule: acceptor.cases) (auto simp: accept_again_def)
    then show ?thesis by (intro exI [of _ "[]"] exI [of _ fd] exI [of _ ts]) simp
  qed
qed simp

section \<open>Steps\<close>

datatype server_error = Already_started | Failed_to_listen | Null_listen_channel | Null_connection_channel | Promise_already_satisfied

text \<open>Where a call of \<^verbatim>\<open>start\<close> or \<^verbatim>\<open>stop\<close> is.\<close>

datatype start_pc =
    Not_started
  | Accepting                \<comment> \<open>waiting in \<open>performRead\<close>\<close>
  | Start_returned
  | Start_failed server_error

datatype stop_pc =
    Not_stopping
  | Shutting "nat list"      \<comment> \<open>connections that are still to be shut down\<close>
  | Waiting_stopped
  | Stop_returned
  | Stop_failed server_error

record tcp_server =
  started :: bool
  stopped :: bool
  listenChannel :: bool          \<comment> \<open>the pointer is not null\<close>
  startDone :: bool              \<comment> \<open>\<open>startPromise_\<close> was satisfied\<close>
  stopDone :: bool               \<comment> \<open>\<open>stopPromise_\<close> was satisfied\<close>
  connSet :: "nat set"
  tcp_conns :: "nat \<Rightarrow> tcp_conn"
  accepted :: nat                \<comment> \<open>the number of connections so far, which is the name of the next one\<close>
  starter :: start_pc
  stopper :: stop_pc

definition server_init :: tcp_server where
  "server_init = \<lparr>started = False, stopped = False, listenChannel = False, startDone = False, stopDone = False,
     connSet = {}, tcp_conns = (\<lambda>_. tcp_connected), accepted = 0, starter = Not_started, stopper = Not_stopping\<rparr>"

text \<open>\<^verbatim>\<open>set_value\<close> on a promise that is satisfied throws.\<close>

definition satisfy_stop :: "start_pc \<Rightarrow> tcp_server \<Rightarrow> tcp_server" where
  "satisfy_stop p s =
     (if stopDone s then s\<lparr>starter := Start_failed Promise_already_satisfied\<rparr> else s\<lparr>stopDone := True, starter := p\<rparr>)"

text \<open>The head of the loop: it is left when the server was stopped meanwhile.\<close>

definition accept_next :: "tcp_server \<Rightarrow> tcp_server" where
  "accept_next s = (if stopped s then satisfy_stop Start_returned s else s\<lparr>starter := Accepting\<rparr>)"

definition server_start :: "bool \<Rightarrow> tcp_server \<Rightarrow> tcp_server" where
  "server_start listen_ok s =
     (let s = s\<lparr>started := True\<rparr> in
      if \<not> listen_ok then satisfy_stop (Start_failed Failed_to_listen) (s\<lparr>stopped := True\<rparr>)
      else if startDone s then s\<lparr>listenChannel := True, starter := Start_failed Promise_already_satisfied\<rparr>
      else accept_next (s\<lparr>listenChannel := True, startDone := True\<rparr>))"

text \<open>One turn of the loop with the result of \<^verbatim>\<open>performRead\<close>.\<close>

definition server_accept :: "io_result \<Rightarrow> tcp_server \<Rightarrow> tcp_server" where
  "server_accept r s =
     (if r \<noteq> Io_success then satisfy_stop Start_returned s
      else accept_next (s\<lparr>connSet := insert (accepted s) (connSet s),
        tcp_conns := (tcp_conns s)(accepted s := tcp_connected), accepted := accepted s + 1\<rparr>))"

text \<open>\<open>stop\<close> up to the first suspension; \<open>conns\<close> is the copy of the set in some order.\<close>

definition server_stop :: "nat list \<Rightarrow> tcp_server \<Rightarrow> tcp_server" where
  "server_stop conns s =
     (if stopped s then s\<lparr>stopper := Stop_returned\<rparr>
      else
        (let s = s\<lparr>stopped := True\<rparr> in
         if \<not> listenChannel s then s\<lparr>stopper := Stop_failed Null_listen_channel\<rparr>
         else s\<lparr>stopper := Shutting conns\<rparr>))"

definition server_shut_one :: "tcp_server \<Rightarrow> tcp_server" where
  "server_shut_one s =
     (case stopper s of
        Shutting (c # cs) \<Rightarrow>
          (case tcp_shutdown (tcp_conns s c) of
             Inl e \<Rightarrow> s\<lparr>stopper := Stop_failed Null_connection_channel\<rparr>
           | Inr t \<Rightarrow> s\<lparr>tcp_conns := (tcp_conns s)(c := t), stopper := Shutting cs\<rparr>)
      | Shutting [] \<Rightarrow> s\<lparr>stopper := Waiting_stopped\<rparr>
      | Waiting_stopped \<Rightarrow> if stopDone s then s\<lparr>stopper := Stop_returned\<rparr> else s
      | _ \<Rightarrow> s)"

datatype server_event =
    Server_start bool
  | Accept_result io_result
  | Handler_acts nat
  | Handler_returns nat
  | Server_stop
  | Stop_goes_on

text \<open>
  A second \<^verbatim>\<open>start\<close> throws and changes nothing, so it has no rule. The channel answers \<^verbatim>\<open>Canceled\<close> after
  \<^verbatim>\<open>cancelAll\<close>; it may also answer something else, when the waiting operation was woken before.
\<close>

inductive server_step :: "tcp_server \<Rightarrow> server_event \<Rightarrow> tcp_server \<Rightarrow> bool" where
  start: "\<not> started s \<Longrightarrow> server_step s (Server_start ok) (server_start ok s)"
| accept: "starter s = Accepting \<Longrightarrow> server_step s (Accept_result r) (server_accept r s)"
| handler_acts: "c \<in> connSet s \<Longrightarrow> server_step s (Handler_acts c) (s\<lparr>tcp_conns := (tcp_conns s)(c := t)\<rparr>)"
| handler_returns: "c \<in> connSet s \<Longrightarrow> server_step s (Handler_returns c) (s\<lparr>connSet := connSet s - {c}\<rparr>)"
| stop: "stopper s = Not_stopping \<Longrightarrow> distinct cs \<Longrightarrow> set cs = connSet s \<Longrightarrow> server_step s Server_stop (server_stop cs s)"
| stop_on: "server_step s Stop_goes_on (server_shut_one s)"

section \<open>Invariant\<close>

fun start_ended :: "start_pc \<Rightarrow> bool" where
  "start_ended Start_returned = True"
| "start_ended (Start_failed e) = True"
| "start_ended _ = False"

definition server_inv :: "tcp_server \<Rightarrow> bool" where
  "server_inv s \<longleftrightarrow> (started s \<longleftrightarrow> starter s \<noteq> Not_started) \<and> (stopDone s \<longleftrightarrow> start_ended (starter s)) \<and>
     starter s \<noteq> Start_failed Promise_already_satisfied \<and> (startDone s \<longrightarrow> started s) \<and> (listenChannel s \<longleftrightarrow> startDone s) \<and>
     (starter s = Accepting \<longrightarrow> startDone s)"

lemma server_step_inv:
  assumes "server_step s l t" "server_inv s"
  shows "server_inv t"
  using assms
proof (induction rule: server_step.induct)
  case (stop_on s)
  then show ?case by (auto simp: server_inv_def server_shut_one_def split: stop_pc.splits list.splits sum.splits)
qed (auto simp: server_inv_def server_start_def server_accept_def server_stop_def accept_next_def satisfy_stop_def Let_def)

interpretation server: step_invariant server_step server_inv
  by unfold_locales (rule server_step_inv)

lemma server_init_inv: "server_inv server_init"
  by (simp add: server_inv_def server_init_def)

lemma server_reachable: "run server_step server_init ls s \<Longrightarrow> server_inv s"
  using server.run_keeps server_init_inv by blast

text \<open>The set of connections and what has happened so far.\<close>

definition conns_told :: "server_event list \<Rightarrow> tcp_server \<Rightarrow> bool" where
  "conns_told ls s \<longleftrightarrow> connSet s = {c. c < accepted s \<and> Handler_returns c \<notin> set ls} \<and>
     (\<forall>c. Handler_returns c \<in> set ls \<longrightarrow> c < accepted s) \<and> accepted s = count_list ls (Accept_result Io_success) \<and>
     (startDone s \<longleftrightarrow> Server_start True \<in> set ls)"

lemma satisfy_stop_frame [simp]:
  "connSet (satisfy_stop p s) = connSet s" "accepted (satisfy_stop p s) = accepted s" "startDone (satisfy_stop p s) = startDone s"
  "tcp_conns (satisfy_stop p s) = tcp_conns s" "stopped (satisfy_stop p s) = stopped s" "stopper (satisfy_stop p s) = stopper s"
  by (simp_all add: satisfy_stop_def)

lemma accept_next_frame [simp]:
  "connSet (accept_next s) = connSet s" "accepted (accept_next s) = accepted s" "startDone (accept_next s) = startDone s"
  "tcp_conns (accept_next s) = tcp_conns s" "stopped (accept_next s) = stopped s" "stopper (accept_next s) = stopper s"
  by (simp_all add: accept_next_def)

lemma server_shut_one_frame [simp]:
  "connSet (server_shut_one s) = connSet s" "accepted (server_shut_one s) = accepted s"
  "startDone (server_shut_one s) = startDone s" "stopped (server_shut_one s) = stopped s"
  "starter (server_shut_one s) = starter s" "stopDone (server_shut_one s) = stopDone s"
  by (simp_all add: server_shut_one_def split: stop_pc.splits list.splits sum.splits)

lemma server_step_told:
  assumes "server_step s l t" "server_inv s" "conns_told ls s"
  shows "conns_told (ls @ [l]) t"
  using assms
proof (induction rule: server_step.induct)
  case (start s ok)
  then have "\<not> startDone s" by (auto simp: server_inv_def)
  with start show ?case by (cases ok) (auto simp: conns_told_def server_start_def Let_def)
next
  case (accept s r)
  then show ?case by (auto simp: conns_told_def server_accept_def less_Suc_eq)
qed (auto simp: conns_told_def server_stop_def Let_def)

lemma server_told: "run server_step server_init ls s \<Longrightarrow> conns_told ls s"
proof (induction rule: run_history_induct)
  case start
  show ?case by (simp add: conns_told_def server_init_def)
next
  case (step ls u l v)
  then show ?case using server_step_told server_reachable by blast
qed

section \<open>Stopping\<close>

lemma shut_many_frame:
  "stopped ((server_shut_one ^^ n) s) = stopped s" "starter ((server_shut_one ^^ n) s) = starter s"
  "stopDone ((server_shut_one ^^ n) s) = stopDone s"
  by (induction n) simp_all

lemma shutdown_shuts:
  "has_channel c \<Longrightarrow> \<exists>d. tcp_shutdown c = Inr d \<and> (tcp_state d = LocalShutdown \<or> tcp_state d = Closed)"
  by (cases "tcp_state c") (simp_all add: tcp_shutdown_def)

lemma shut_all:
  assumes "stopper s = Shutting cs" "distinct cs" "\<forall>c\<in>set cs. has_channel (tcp_conns s c)"
  shows "\<exists>t. (server_shut_one ^^ Suc (length cs)) s = t \<and> stopper t = Waiting_stopped \<and>
    (\<forall>c\<in>set cs. tcp_state (tcp_conns t c) = LocalShutdown \<or> tcp_state (tcp_conns t c) = Closed) \<and>
    (\<forall>c. c \<notin> set cs \<longrightarrow> tcp_conns t c = tcp_conns s c)"
  using assms
proof (induction cs arbitrary: s)
  case Nil
  then show ?case by (simp add: server_shut_one_def)
next
  case (Cons c cs)
  obtain d where d: "tcp_shutdown (tcp_conns s c) = Inr d" "tcp_state d = LocalShutdown \<or> tcp_state d = Closed"
    using shutdown_shuts [of "tcp_conns s c"] Cons.prems(3) by auto
  let ?u = "s\<lparr>tcp_conns := (tcp_conns s)(c := d), stopper := Shutting cs\<rparr>"
  have u: "server_shut_one s = ?u" using Cons.prems(1) d(1) by (simp add: server_shut_one_def)
  have "\<exists>t. (server_shut_one ^^ Suc (length cs)) ?u = t \<and> stopper t = Waiting_stopped \<and>
    (\<forall>c\<in>set cs. tcp_state (tcp_conns t c) = LocalShutdown \<or> tcp_state (tcp_conns t c) = Closed) \<and>
    (\<forall>c. c \<notin> set cs \<longrightarrow> tcp_conns t c = tcp_conns ?u c)"
    using Cons.prems by (intro Cons.IH) auto
  moreover have "(server_shut_one ^^ Suc (length (c # cs))) s = (server_shut_one ^^ Suc (length cs)) ?u"
    using u by (simp only: funpow_Suc_right length_Cons o_apply)
  ultimately show ?case using d(2) Cons.prems(2) by auto
qed

section \<open>Properties\<close>

text \<open>
  The futures of a server are exact, in every order of starting, accepting, returning handlers and
  stopping: \<^verbatim>\<open>started\<close> is ready when the server listens, \<^verbatim>\<open>wait\<close> is ready exactly when \<^verbatim>\<open>start\<close> has ended,
  no promise is satisfied twice; and the set that \<^verbatim>\<open>stop\<close> goes through holds exactly the connections
  whose handler has not returned.
\<close>

theorem server_lifecycle:
  assumes "run server_step server_init ls s"
  shows "(startDone s \<longleftrightarrow> Server_start True \<in> set ls) \<and> (stopDone s \<longleftrightarrow> start_ended (starter s)) \<and>
    starter s \<noteq> Start_failed Promise_already_satisfied \<and> accepted s = count_list ls (Accept_result Io_success) \<and>
    connSet s = {c. c < accepted s \<and> Handler_returns c \<notin> set ls}"
  using server_reachable [OF assms] server_told [OF assms] by (simp add: server_inv_def conns_told_def)

text \<open>
  A server that listens can be stopped: \<^verbatim>\<open>stop\<close> shuts down every connection it finds, the loop ends
  with the next answer of the listening channel, whatever it is, and then \<^verbatim>\<open>stop\<close> returns.
\<close>

theorem server_stops:
  assumes "run server_step server_init ls s" "starter s = Accepting" "\<not> stopped s" "distinct cs" "set cs = connSet s"
    and "\<forall>c\<in>connSet s. has_channel (tcp_conns s c)"
  shows "\<exists>t. (server_shut_one ^^ Suc (length cs)) (server_stop cs s) = t \<and>
    (\<forall>c\<in>connSet s. tcp_state (tcp_conns t c) = LocalShutdown \<or> tcp_state (tcp_conns t c) = Closed) \<and>
    stopper (server_shut_one (server_accept r t)) = Stop_returned \<and> starter (server_accept r t) = Start_returned"
proof -
  have inv: "listenChannel s" "\<not> stopDone s"
    using server_reachable [OF assms(1)] assms(2) by (auto simp: server_inv_def)
  let ?s = "server_stop cs s" and ?t = "(server_shut_one ^^ Suc (length cs)) (server_stop cs s)"
  have s: "stopper ?s = Shutting cs" "tcp_conns ?s = tcp_conns s" "stopped ?s" "starter ?s = Accepting" "\<not> stopDone ?s"
    using inv assms(2,3) by (simp_all add: server_stop_def Let_def)
  have "stopper ?t = Waiting_stopped \<and>
      (\<forall>c\<in>connSet s. tcp_state (tcp_conns ?t c) = LocalShutdown \<or> tcp_state (tcp_conns ?t c) = Closed)"
    using shut_all [OF s(1) assms(4)] s(2) assms(5,6) by auto
  moreover have "stopped ?t" "\<not> stopDone ?t" using s(3-5) shut_many_frame [of "Suc (length cs)" ?s] by auto
  ultimately show ?thesis
    by (intro exI [of _ ?t])
      (auto simp del: funpow.simps simp: server_accept_def accept_next_def satisfy_stop_def server_shut_one_def)
qed

text \<open>\<^verbatim>\<open>stop\<close> on a server that was never started follows the null pointer of the listening channel.\<close>

lemma stop_before_start: "stopper (server_stop [] server_init) = Stop_failed Null_listen_channel"
  by (simp add: server_stop_def server_init_def Let_def)

text \<open>A connection that its handler has closed by force is still in the set, and \<^verbatim>\<open>stop\<close> follows its null pointer.\<close>

lemma stop_after_forceClose:
  assumes "stopper s = Shutting (c # cs)" "tcp_forceClose d = Inr (tcp_conns s c)"
  shows "stopper (server_shut_one s) = Stop_failed Null_connection_channel"
  using assms(1) forceClose_then_null(2) [OF assms(2)] by (simp add: server_shut_one_def)

text \<open>Any failure of \<^verbatim>\<open>accept4\<close> but \<^verbatim>\<open>EAGAIN\<close> and \<^verbatim>\<open>EINTR\<close>, also a passing one, ends the server.\<close>

lemma accept_failure_ends_server:
  assumes "starter s = Accepting" "\<not> stopDone s"
  shows "perform acceptor [Called (Accept_failed (Other_errno n))] None = Some (Io_error, None)"
    "starter (server_accept Io_error s) = Start_returned"
  using assms by (simp_all add: server_accept_def satisfy_stop_def)

text \<open>A connection that is accepted after \<^verbatim>\<open>stop\<close> has copied the set is not shut down.\<close>

lemma late_connection_stays_open:
  assumes "stopped s" "accepted s \<notin> set cs" "stopper s = Shutting cs"
  shows "accepted s \<in> connSet (server_accept Io_success s)" "stopper (server_accept Io_success s) = Shutting cs"
  using assms by (simp_all add: server_accept_def)

lemma sample_server:
  "run server_step server_init [Server_start True, Accept_result Io_success] (server_accept Io_success (server_start True server_init))"
proof -
  have "server_step server_init (Server_start True) (server_start True server_init)"
    by (rule start) (simp add: server_init_def)
  moreover have "server_step (server_start True server_init) (Accept_result Io_success)
      (server_accept Io_success (server_start True server_init))"
    by (rule accept) (simp add: server_init_def server_start_def accept_next_def)
  ultimately show ?thesis by (auto simp del: run_cons_iff intro: run_cons run_nil)
qed

theorem server_lifecycle_witness:
  "\<exists>s. run server_step server_init [Server_start True, Accept_result Io_success] s \<and> startDone s \<and> accepted s = 1"
proof -
  let ?s = "server_accept Io_success (server_start True server_init)"
  have "startDone ?s \<and> accepted ?s = 1" using server_lifecycle [OF sample_server] by simp
  with sample_server show ?thesis by blast
qed

theorem server_stops_witness:
  "\<exists>s t. run server_step server_init [Server_start True, Accept_result Io_success] s \<and>
     (server_shut_one ^^ Suc (length [0])) (server_stop [0] s) = t \<and>
     stopper (server_shut_one (server_accept Io_canceled t)) = Stop_returned"
proof -
  let ?s = "server_accept Io_success (server_start True server_init)"
  have "starter ?s = Accepting" "\<not> stopped ?s" "set [0] = connSet ?s" "\<forall>c\<in>connSet ?s. has_channel (tcp_conns ?s c)"
    by (simp_all add: server_accept_def server_start_def accept_next_def server_init_def tcp_connected_def)
  then have "\<exists>t. (server_shut_one ^^ Suc (length [0])) (server_stop [0] ?s) = t \<and>
      stopper (server_shut_one (server_accept Io_canceled t)) = Stop_returned"
    using server_stops [OF sample_server, of "[0]" Io_canceled] by auto
  with sample_server show ?thesis by blast
qed

end
