(* ===== verification/Tls_Provider.thy ===== *)
theory Tls_Provider
  imports Prelude
begin

text \<open>
  The TLS provider on top of OpenSSL (\<^verbatim>\<open>src/extensions/tls/src/providers/OpenSSLProvider.cc\<close>): building a context
  from a policy, the negotiation of an application protocol, and the functions that a stream calls.
  The answers of OpenSSL are arguments.
\<close>

section \<open>Contexts\<close>

record tls_policy =
  certPath :: string
  keyPath :: string
  caPath :: string
  certPem :: string
  keyPem :: string
  hostname :: string
  alpn :: "string list"
  validate :: bool
  useSystemCertStore :: bool

definition plain_policy :: tls_policy where
  "plain_policy = \<lparr>certPath = [], keyPath = [], caPath = [], certPem = [], keyPem = [], hostname = [], alpn = [], validate = True,
     useSystemCertStore = True\<rparr>"

definition defaultServer :: "string \<Rightarrow> string \<Rightarrow> tls_policy" where
  "defaultServer cert key = plain_policy\<lparr>certPath := cert, keyPath := key, validate := False, useSystemCertStore := False\<rparr>"

definition defaultClient :: "string \<Rightarrow> tls_policy" where
  "defaultClient host = plain_policy\<lparr>hostname := host, validate := True, useSystemCertStore := True\<rparr>"

text \<open>Which of the calls that load something succeed.\<close>

record load_answers =
  newOk :: bool
  certPemOk :: bool
  certFileOk :: bool
  keyPemOk :: bool
  keyFileOk :: bool
  keyMatches :: bool
  caOk :: bool

record tls_context =
  policy :: tls_policy
  isServer :: bool
  systemStore :: bool
  caLoaded :: bool
  verifyNone :: bool
  alpnCb :: bool
  sniCb :: bool

definition load_cert :: "load_answers \<Rightarrow> tls_policy \<Rightarrow> string option" where
  "load_cert a p =
     (if certPem p \<noteq> [] then (if certPemOk a then None else Some ''Failed to load certificate from PEM'')
      else if certPath p \<noteq> [] then (if certFileOk a then None else Some (''Failed to load certificate: '' @ certPath p))
      else None)"

definition load_key :: "load_answers \<Rightarrow> tls_policy \<Rightarrow> string option" where
  "load_key a p =
     (if keyPem p \<noteq> [] then
        (if \<not> keyPemOk a then Some ''Failed to load private key from PEM''
         else if \<not> keyMatches a then Some ''Private key does not match certificate'' else None)
      else if keyPath p \<noteq> [] then
        (if \<not> keyFileOk a then Some (''Failed to load private key: '' @ keyPath p)
         else if \<not> keyMatches a then Some ''Private key does not match certificate'' else None)
      else None)"

definition load_ca :: "load_answers \<Rightarrow> tls_policy \<Rightarrow> string option" where
  "load_ca a p =
     (if validate p \<and> caPath p \<noteq> [] \<and> \<not> caOk a then Some (''Failed to load CA: '' @ caPath p) else None)"

text \<open>The constructor of \<^verbatim>\<open>OpenSSLContext\<close>.\<close>

definition create_context :: "load_answers \<Rightarrow> tls_policy \<Rightarrow> bool \<Rightarrow> string + tls_context" where
  "create_context a p server =
     (if \<not> newOk a then Inl ''SSL_CTX_new failed''
      else case load_cert a p of Some e \<Rightarrow> Inl e
      | None \<Rightarrow> case load_key a p of Some e \<Rightarrow> Inl e
      | None \<Rightarrow> case load_ca a p of Some e \<Rightarrow> Inl e
      | None \<Rightarrow> Inr \<lparr>policy = p, isServer = server, systemStore = (validate p \<and> useSystemCertStore p),
                    caLoaded = (validate p \<and> caPath p \<noteq> []), verifyNone = (\<not> validate p),
                    alpnCb = (alpn p \<noteq> [] \<and> server), sniCb = server\<rparr>)"

text \<open>The callback for the server name: the context that OpenSSL continues with.\<close>

definition sni_select :: "(string \<Rightarrow> tls_context option) option \<Rightarrow> string option \<Rightarrow> tls_context \<Rightarrow> tls_context" where
  "sni_select resolver name c =
     (case resolver of
        None \<Rightarrow> c
      | Some f \<Rightarrow> (case name of None \<Rightarrow> c | Some n \<Rightarrow> (case f n of None \<Rightarrow> c | Some d \<Rightarrow> d)))"

section \<open>Application protocols\<close>

text \<open>The client's list on the wire: a byte with the length, then the name.\<close>

definition alpn_wire :: "string list \<Rightarrow> string" where
  "alpn_wire ps = concat (map (\<lambda>p. char_of (length p) # p) ps)"

text \<open>The inner loop of \<^verbatim>\<open>alpnSelectCb\<close>, over the list of the client.\<close>

function offered :: "string \<Rightarrow> string \<Rightarrow> bool" where
  "offered proto [] = False"
| "offered proto (c # cur) =
     (let plen = of_char c :: nat in
      if length cur < plen then False
      else if length proto = plen \<and> take plen cur = proto then True
      else offered proto (drop plen cur))"
  by pat_completeness auto

termination by (relation "measure (length \<circ> snd)") auto

fun alpnSelectCb :: "string list \<Rightarrow> string \<Rightarrow> string option" where
  "alpnSelectCb [] wire = None"
| "alpnSelectCb (proto # ps) wire = (if offered proto wire then Some proto else alpnSelectCb ps wire)"

section \<open>Providers\<close>

datatype ssl_error = Ssl_none | Ssl_want_read | Ssl_want_write | Ssl_zero_return | Ssl_other

datatype feed_result = Feed_ok | Feed_handshake_done | Feed_eof | Feed_error

record provider =
  ctx :: tls_context
  providerEof :: bool
  sniName :: string
  negotiatedAlpn :: string
  lastError :: string

definition new_provider :: "tls_context \<Rightarrow> provider" where
  "new_provider c = \<lparr>ctx = c, providerEof = False, sniName = [], negotiatedAlpn = [], lastError = []\<rparr>"

text \<open>\<^verbatim>\<open>flushWbio\<close>: \<open>bio\<close> is what OpenSSL has written, taken in pieces of the size of the local array.\<close>

function flush_wbio :: "string \<Rightarrow> string \<Rightarrow> string" where
  "flush_wbio bio out = (if bio = [] then out else flush_wbio (drop 16384 bio) (out @ take 16384 bio))"
  by pat_completeness auto

termination by (relation "measure (length \<circ> fst)") auto

declare flush_wbio.simps [simp del]

text \<open>The server name that is sent by a client.\<close>

definition client_sni :: "tls_context \<Rightarrow> string option" where
  "client_sni c = (if \<not> isServer c \<and> hostname (policy c) \<noteq> [] then Some (hostname (policy c)) else None)"

text \<open>\<open>bio\<close>: what the first handshake step of a client writes. The result also has the protocols offered.\<close>

definition startHandshake :: "string \<Rightarrow> provider \<Rightarrow> string \<Rightarrow> string option \<times> string" where
  "startHandshake bio p encOut =
     (if isServer (ctx p) then (None, encOut)
      else ((if alpn (policy (ctx p)) \<noteq> [] then Some (alpn_wire (alpn (policy (ctx p)))) else None), flush_wbio bio encOut))"

text \<open>The prefix, and the text of the error queue of OpenSSL if it has one.\<close>

definition sslError :: "string \<Rightarrow> string option \<Rightarrow> string" where
  "sslError pre e = (case e of None \<Rightarrow> pre | Some t \<Rightarrow> pre @ '': '' @ t)"

record feed_answers =
  initFinished :: bool         \<comment> \<open>\<open>SSL_is_init_finished\<close>\<close>
  handshakeOk :: bool          \<comment> \<open>\<open>SSL_do_handshake\<close> returned 1\<close>
  handshakeErr :: ssl_error
  servername :: "string option"
  selected :: "string option"
  peerCert :: bool
  verifyResult :: "string option"   \<comment> \<open>\<open>None\<close> when the chain was verified\<close>
  reads :: "string list"       \<comment> \<open>what \<open>SSL_read\<close> returned, until it returned nothing\<close>
  readErr :: ssl_error
  errText :: "string option"
  wbio :: string

definition finishHandshake :: "feed_answers \<Rightarrow> provider \<Rightarrow> bool \<times> provider" where
  "finishHandshake a p =
     (let p = (case servername a of
                 Some n \<Rightarrow> p\<lparr>sniName := n\<rparr>
               | None \<Rightarrow> if \<not> isServer (ctx p) then p\<lparr>sniName := hostname (policy (ctx p))\<rparr> else p);
          p = (case selected a of Some n \<Rightarrow> p\<lparr>negotiatedAlpn := n\<rparr> | None \<Rightarrow> p)
      in if validate (policy (ctx p)) then
           (if \<not> peerCert a then (False, p\<lparr>lastError := ''No peer certificate''\<rparr>)
            else (case verifyResult a of
                Some e \<Rightarrow> (False, p\<lparr>lastError := ''Certificate verification failed: '' @ e\<rparr>)
              | None \<Rightarrow> (True, p)))
         else (True, p))"

definition drainPlaintext :: "feed_answers \<Rightarrow> provider \<Rightarrow> string \<Rightarrow> provider \<times> string" where
  "drainPlaintext a p out =
     (let out = out @ concat (reads a) in
      if readErr a = Ssl_zero_return then (p\<lparr>providerEof := True\<rparr>, out)
      else if readErr a \<noteq> Ssl_want_read \<and> readErr a \<noteq> Ssl_want_write \<and> readErr a \<noteq> Ssl_none then
        (p\<lparr>lastError := sslError ''SSL_read failed'' (errText a)\<rparr>, out)
      else (p, out))"

text \<open>The result, the provider, and the two buffers that were appended to.\<close>

definition feedEncrypted :: "feed_answers \<Rightarrow> provider \<Rightarrow> string \<Rightarrow> string \<Rightarrow> feed_result \<times> provider \<times> string \<times> string" where
  "feedEncrypted a p plainOut encOut =
     (if \<not> initFinished a then
        (let encOut = flush_wbio (wbio a) encOut in
         if handshakeOk a then
           (let (ok, p) = finishHandshake a p in
            if \<not> ok then (Feed_error, p, plainOut, encOut)
            else (let (p, plainOut) = drainPlaintext a p plainOut in (Feed_handshake_done, p, plainOut, encOut)))
         else if handshakeErr a \<noteq> Ssl_want_read \<and> handshakeErr a \<noteq> Ssl_want_write then
           (Feed_error, p\<lparr>lastError := sslError ''TLS handshake failed'' (errText a)\<rparr>, plainOut, encOut)
         else (Feed_ok, p, plainOut, encOut))
      else
        (let (p, plainOut) = drainPlaintext a p plainOut;
             encOut = flush_wbio (wbio a) encOut
         in if lastError p \<noteq> [] then (Feed_error, p, plainOut, encOut)
            else if providerEof p then (Feed_eof, p, plainOut, encOut)
            else (Feed_ok, p, plainOut, encOut)))"

text \<open>
  \<^verbatim>\<open>sendPlain\<close>: the length goes through \<^verbatim>\<open>int\<close>; \<open>write\<close> is \<^verbatim>\<open>SSL_write\<close>, which gives the number of bytes taken and what
  was written to the BIO, or an error.
\<close>

definition sendPlain ::
  "(string \<Rightarrow> int \<Rightarrow> ssl_error + nat \<times> string) \<Rightarrow> string option \<Rightarrow> string \<Rightarrow> provider \<Rightarrow> string \<Rightarrow> int \<times> provider \<times> string" where
  "sendPlain write e xs p encOut =
     (case write xs (sint (of_nat (length xs) :: 32 word)) of
        Inl err \<Rightarrow>
          if err = Ssl_want_write \<or> err = Ssl_want_read then (0, p, encOut)
          else (- 1, p\<lparr>lastError := sslError ''SSL_write failed'' e\<rparr>, encOut)
      | Inr (n, bio) \<Rightarrow> (int n, p, flush_wbio bio encOut))"

definition close_provider :: "bool \<Rightarrow> string \<Rightarrow> string \<Rightarrow> string" where
  "close_provider finished bio encOut = (if finished then flush_wbio bio encOut else encOut)"

section \<open>Lemmas\<close>

lemma flush_wbio_append: "flush_wbio bio out = out @ bio"
  by (induction bio out rule: flush_wbio.induct) (subst flush_wbio.simps, simp)

lemma sslError_not_empty [simp]: "pre \<noteq> [] \<Longrightarrow> sslError pre e \<noteq> []"
  by (simp add: sslError_def split: option.splits)

lemma offered_wire:
  assumes "length q < 256"
  shows "offered proto (char_of (length q) # q @ r) \<longleftrightarrow> q = proto \<or> offered proto r"
  using assms by (auto simp: Let_def)

lemma offered_alpn_wire: "\<forall>q\<in>set ps. length q < 256 \<Longrightarrow> offered proto (alpn_wire ps) \<longleftrightarrow> proto \<in> set ps"
proof (induction ps)
  case (Cons q ps)
  then show ?case using offered_wire [of q proto "alpn_wire ps"] by (auto simp: alpn_wire_def)
qed (simp add: alpn_wire_def)

lemma offered_inside: "offered proto wire \<Longrightarrow> \<exists>pre post. wire = pre @ char_of (length proto) # proto @ post"
proof (induction proto wire rule: offered.induct)
  case (2 proto c cur)
  let ?n = "of_char c :: nat"
  show ?case
  proof (cases "length proto = ?n \<and> take ?n cur = proto")
    case True
    then have "c # cur = [] @ char_of (length proto) # proto @ drop ?n cur" by (metis append_Nil append_take_drop_id char_of_char)
    then show ?thesis by blast
  next
    case False
    then have "\<not> length cur < ?n" "offered proto (drop ?n cur)" using "2.prems" by (auto simp: Let_def split: if_splits)
    then obtain pre post where "drop ?n cur = pre @ char_of (length proto) # proto @ post" using 2(1) [OF refl] False by blast
    then have "c # cur = (c # take ?n cur @ pre) @ char_of (length proto) # proto @ post" by (metis append_Cons append_assoc append_take_drop_id)
    then show ?thesis by blast
  qed
qed simp

text \<open>Feeding one piece after the other.\<close>

fun feed_all :: "feed_answers list \<Rightarrow> provider \<Rightarrow> string \<Rightarrow> string \<Rightarrow> feed_result list" where
  "feed_all [] p plain enc = []"
| "feed_all (a # as) p plain enc =
     (case feedEncrypted a p plain enc of (r, p, plain, enc) \<Rightarrow> r # feed_all as p plain enc)"

text \<open>The answers are consistent: the handshake is finished once \<^verbatim>\<open>SSL_do_handshake\<close> has succeeded.\<close>

fun consistent :: "bool \<Rightarrow> feed_answers list \<Rightarrow> bool" where
  "consistent fin [] = True"
| "consistent fin (a # as) = (initFinished a = fin \<and> consistent (fin \<or> handshakeOk a) as)"

definition verified :: "feed_answers \<Rightarrow> bool" where
  "verified a \<longleftrightarrow> handshakeOk a \<and> peerCert a \<and> verifyResult a = None"

lemma policy_kept: "feedEncrypted a p plain enc = (r, q, x, y) \<Longrightarrow> ctx q = ctx p"
  by (auto simp: feedEncrypted_def finishHandshake_def drainPlaintext_def Let_def split: if_splits prod.splits option.splits)

lemma error_sticks:
  assumes "feedEncrypted a p plain enc = (r, q, x, y)" "lastError p \<noteq> []" "initFinished a"
  shows "r = Feed_error \<and> lastError q \<noteq> []"
  using assms by (auto simp: feedEncrypted_def drainPlaintext_def Let_def split: if_splits)

lemma unverified_error:
  assumes "feedEncrypted a p plain enc = (r, q, x, y)" "\<not> initFinished a" "handshakeOk a" "\<not> verified a" "validate (policy (ctx p))"
  shows "r = Feed_error \<and> lastError q \<noteq> []"
  using assms by (auto simp: feedEncrypted_def finishHandshake_def verified_def Let_def split: if_splits prod.splits option.splits)

lemma errors_stick:
  "consistent True as \<Longrightarrow> lastError p \<noteq> [] \<Longrightarrow> i < length as \<Longrightarrow> feed_all as p plain enc ! i = Feed_error"
proof (induction as arbitrary: p plain enc i)
  case (Cons a as)
  obtain r q x y where f: "feedEncrypted a p plain enc = (r, q, x, y)" by (metis prod_cases4)
  then have "r = Feed_error" "lastError q \<noteq> []" using error_sticks [OF f] Cons.prems by auto
  then show ?case using Cons.IH [of q _ x y] Cons.prems f by (cases i) auto
qed simp

section \<open>Properties\<close>

text \<open>
  Nothing is accepted from a peer that was not verified: when the policy asks for validation, every
  piece of input after the handshake that is not answered with an error comes after a handshake
  in which the peer presented a certificate whose chain was verified. A failed verification is
  never forgotten, however often the provider is fed afterwards.
\<close>

theorem tls_no_data_unverified:
  assumes "consistent False as" "validate (policy (ctx p))" "i < length as" "initFinished (as ! i)"
    "feed_all as p plain enc ! i \<noteq> Feed_error"
  shows "\<exists>j < i. verified (as ! j)"
  using assms
proof (induction as arbitrary: p plain enc i)
  case (Cons a as)
  obtain r q x y where f: "feedEncrypted a p plain enc = (r, q, x, y)" by (metis prod_cases4)
  have c: "\<not> initFinished a" "consistent (handshakeOk a) as" using Cons.prems(1) by auto
  then obtain k where i: "i = Suc k" using Cons.prems(4) by (cases i) auto
  then have k: "k < length as" "initFinished (as ! k)" "feed_all as q x y ! k \<noteq> Feed_error" using Cons.prems(3-5) f by auto
  show ?case
  proof (cases "handshakeOk a")
    case True
    then have "verified a" using unverified_error [OF f c(1)] errors_stick [of as q k x y] c(2) k Cons.prems(2) by auto
    then show ?thesis using i by auto
  next
    case False
    then obtain j where "j < k" "verified (as ! j)" using Cons.IH [OF _ _ k] c(2) Cons.prems(2) policy_kept [OF f] by auto
    then show ?thesis using i by (intro exI [of _ "Suc j"]) simp
  qed
qed simp

text \<open>
  The server chooses the first of its own protocols that the client offers, when the names of the client are shorter than 256
  bytes, and none when there is none.
\<close>

theorem alpn_select_exact:
  assumes "\<forall>q\<in>set client. length q < 256"
  shows "alpnSelectCb server (alpn_wire client) = find (\<lambda>p. p \<in> set client) server"
  by (induction server) (simp_all add: offered_alpn_wire [OF assms])

text \<open>Whatever bytes the client sends, the name that is chosen lies inside of them, behind a byte with its length.\<close>

lemma alpn_select_inside:
  "alpnSelectCb server wire = Some p \<Longrightarrow> p \<in> set server \<and> (\<exists>pre post. wire = pre @ char_of (length p) # p @ post)"
  by (induction server) (auto simp: offered_inside split: if_splits)

text \<open>A name of 256 bytes is announced with length zero.\<close>

lemma alpn_length_wraps: "alpn_wire [replicate 256 CHR ''a''] = CHR 0x00 # replicate 256 CHR ''a''"
proof -
  have "char_of (256 :: nat) = CHR 0x00" by code_simp
  then show ?thesis by (simp add: alpn_wire_def)
qed

definition sample_answers :: feed_answers where
  "sample_answers = \<lparr>initFinished = False, handshakeOk = True, handshakeErr = Ssl_none, servername = None, selected = None,
     peerCert = True, verifyResult = None, reads = [], readErr = Ssl_want_read, errText = None, wbio = []\<rparr>"

definition sample_context :: tls_context where
  "sample_context = \<lparr>policy = defaultClient ''a'', isServer = False, systemStore = True, caLoaded = False, verifyNone = False,
     alpnCb = False, sniCb = False\<rparr>"

theorem tls_no_data_unverified_witness:
  "\<exists>j < 1. verified ([sample_answers, sample_answers\<lparr>initFinished := True, handshakeOk := False, reads := [''hi'']\<rparr>] ! j)"
proof (rule tls_no_data_unverified [of _ "new_provider sample_context" _ "[]" "[]"])
  show "feed_all [sample_answers, sample_answers\<lparr>initFinished := True, handshakeOk := False, reads := [''hi'']\<rparr>]
    (new_provider sample_context) [] [] ! 1 \<noteq> Feed_error"
    by (simp add: feedEncrypted_def sample_answers_def new_provider_def finishHandshake_def drainPlaintext_def flush_wbio_append
        sample_context_def Let_def)
qed (simp_all add: sample_answers_def sample_context_def new_provider_def defaultClient_def plain_policy_def)

theorem alpn_select_exact_witness:
  "alpnSelectCb [''h2'', ''http/1.1''] (alpn_wire [''http/1.1'', ''h2'']) = find (\<lambda>p. p \<in> set [''http/1.1'', ''h2'']) [''h2'', ''http/1.1'']"
  by (rule alpn_select_exact) simp

text \<open>A server that is asked to validate refuses every client, because it does not ask for a certificate.\<close>

lemma server_validation_refuses:
  assumes "isServer (ctx p)" "validate (policy (ctx p))" "\<not> peerCert a" "\<not> initFinished a" "handshakeOk a"
  shows "fst (feedEncrypted a p plain enc) = Feed_error"
  using assms by (simp add: feedEncrypted_def finishHandshake_def Let_def split: option.splits)

text \<open>The name of the server has no part in the verification.\<close>

lemma hostname_not_verified:
  assumes "verified a" "\<not> initFinished a" "reads a = []" "readErr a = Ssl_want_read"
  shows "fst (feedEncrypted a (p\<lparr>ctx := (ctx p)\<lparr>policy := (policy (ctx p))\<lparr>hostname := h\<rparr>\<rparr>\<rparr>) plain enc) = Feed_handshake_done"
  using assms by (simp add: feedEncrypted_def finishHandshake_def drainPlaintext_def verified_def Let_def split: option.splits)

text \<open>The end that the peer announces together with the last part of the handshake is not reported.\<close>

lemma close_with_handshake_not_reported:
  assumes "verified a" "\<not> initFinished a" "readErr a = Ssl_zero_return"
  shows "\<exists>q x y. feedEncrypted a p plain enc = (Feed_handshake_done, q, x, y) \<and> providerEof q"
  using assms by (simp add: feedEncrypted_def finishHandshake_def drainPlaintext_def verified_def Let_def split: option.splits)

end
