(* ===== verification/Tls_Stream.thy ===== *)
theory Tls_Stream
  imports Tls_Provider Runs "HOL-Library.Sublist"
begin

text \<open>
  TLS streams (\<^verbatim>\<open>src/extensions/tls/src/TlsStream.cc\<close>). The functions of the provider are arguments, and so are the
  answers of the TCP connection. \<open>None\<close> stands for an operation that has not returned yet.
\<close>

section \<open>Streams\<close>

text \<open>
  The provider functions append to the buffers they are given: \<open>feed p bytes plain enc\<close> and \<open>send p bytes enc\<close>.
\<close>

type_synonym 'p feeder = "'p \<Rightarrow> string \<Rightarrow> string \<Rightarrow> string \<Rightarrow> feed_result \<times> 'p \<times> string \<times> string"

type_synonym 'p sender = "'p \<Rightarrow> string \<Rightarrow> string \<Rightarrow> int \<times> 'p \<times> string"

text \<open>\<open>wire\<close>: what was handed to the TCP connection; \<open>finished\<close>: the connection was shut down.\<close>

record 'p tls_stream =
  tls_provider :: 'p
  plainBuf :: string
  encryptedOutBuf :: string
  tls_eof :: bool
  wire :: string
  finished :: bool

datatype tls_error = Provider_error | Closed_in_handshake | Write_returned_zero | Conn_error

text \<open>
  \<^verbatim>\<open>TcpConnection::write\<close>: everything was sent; the peer has closed, or an exception, after some bytes.
\<close>

datatype conn_answer = Conn_ok | Conn_closed nat | Conn_failed nat

text \<open>\<^verbatim>\<open>TcpConnection::read\<close>: some bytes, none at the end, or an exception.\<close>

datatype chunk = Chunk string | Chunk_failed

definition new_stream :: "'p \<Rightarrow> 'p tls_stream" where
  "new_stream p = \<lparr>tls_provider = p, plainBuf = [], encryptedOutBuf = [], tls_eof = False, wire = [], finished = False\<rparr>"

definition sent_bytes :: "conn_answer \<Rightarrow> string \<Rightarrow> string" where
  "sent_bytes w bs = (case w of Conn_ok \<Rightarrow> bs | Conn_closed k \<Rightarrow> take k bs | Conn_failed k \<Rightarrow> take k bs)"

definition flushEncrypted :: "conn_answer list \<Rightarrow> 'p tls_stream \<Rightarrow> ((tls_error + bool) \<times> 'p tls_stream \<times> conn_answer list) option" where
  "flushEncrypted ws t =
     (if encryptedOutBuf t = [] then Some (Inr True, t, ws)
      else case ws of
          [] \<Rightarrow> None
        | w # ws \<Rightarrow>
            (let t = t\<lparr>encryptedOutBuf := [], wire := wire t @ sent_bytes w (encryptedOutBuf t)\<rparr> in
             Some (case w of Conn_ok \<Rightarrow> Inr True | Conn_closed k \<Rightarrow> Inr False | Conn_failed k \<Rightarrow> Inl Conn_error, t, ws)))"

text \<open>What the connection answers during an operation: to its reads, and to its writes.\<close>

type_synonym net = "chunk list \<times> conn_answer list"

definition feedOnce :: "'p feeder \<Rightarrow> net \<Rightarrow> 'p tls_stream \<Rightarrow> ((tls_error + feed_result) \<times> 'p tls_stream \<times> net) option" where
  "feedOnce feed net t =
     (case net of
        ([], ws) \<Rightarrow> None
      | (Chunk_failed # rs, ws) \<Rightarrow> Some (Inl Conn_error, t, rs, ws)
      | (Chunk raw # rs, ws) \<Rightarrow>
          if raw = [] then Some (Inr Feed_eof, t\<lparr>tls_eof := True\<rparr>, rs, ws)
          else (case feed (tls_provider t) raw (plainBuf t) (encryptedOutBuf t) of
              (result, p, plain, enc) \<Rightarrow>
                (case flushEncrypted ws (t\<lparr>tls_provider := p, plainBuf := plain, encryptedOutBuf := enc\<rparr>) of
                   None \<Rightarrow> None
                 | Some (Inl e, t, ws) \<Rightarrow> Some (Inl e, t, rs, ws)
                 | Some (Inr False, t, ws) \<Rightarrow> Some (Inr Feed_eof, t\<lparr>tls_eof := True\<rparr>, rs, ws)
                 | Some (Inr True, t, ws) \<Rightarrow>
                     Some (Inr result, (if result = Feed_eof then t\<lparr>tls_eof := True\<rparr> else t), rs, ws))))"

lemma feedOnce_consumes: "feedOnce feed net t = Some (x, u, net') \<Longrightarrow> length (fst net') < length (fst net)"
  by (auto simp: feedOnce_def split: prod.splits list.splits chunk.splits if_splits option.splits sum.splits bool.splits)

section \<open>Operations\<close>

text \<open>The loops of \<^verbatim>\<open>accept\<close> and \<^verbatim>\<open>connect\<close>, which are the same.\<close>

function handshake_loop :: "'p feeder \<Rightarrow> net \<Rightarrow> 'p tls_stream \<Rightarrow> ((tls_error + 'p tls_stream) \<times> net) option" where
  "handshake_loop feed net t =
     (case feedOnce feed net t of
        None \<Rightarrow> None
      | Some (Inl e, t, net) \<Rightarrow> Some (Inl e, net)
      | Some (Inr Feed_handshake_done, t, net) \<Rightarrow> Some (Inr t, net)
      | Some (Inr Feed_error, t, net) \<Rightarrow> Some (Inl Provider_error, net)
      | Some (Inr Feed_eof, t, net) \<Rightarrow> Some (Inl Closed_in_handshake, net)
      | Some (Inr Feed_ok, t, net) \<Rightarrow> handshake_loop feed net t)"
  by pat_completeness auto

termination by (relation "measure (\<lambda>(f, n, t). length (fst n))") (auto dest: feedOnce_consumes)

declare handshake_loop.simps [simp del]

text \<open>\<open>start\<close>: the bytes that \<^verbatim>\<open>startHandshake\<close> appends. Whether the peer has closed is not looked at.\<close>

definition tls_accept :: "'p feeder \<Rightarrow> net \<Rightarrow> string \<Rightarrow> 'p \<Rightarrow> ((tls_error + 'p tls_stream) \<times> net) option" where
  "tls_accept feed net start p =
     (case flushEncrypted (snd net) ((new_stream p)\<lparr>encryptedOutBuf := start\<rparr>) of
        None \<Rightarrow> None
      | Some (Inl e, t, ws) \<Rightarrow> Some (Inl e, fst net, ws)
      | Some (Inr _, t, ws) \<Rightarrow> handshake_loop feed (fst net, ws) t)"

definition tls_connect :: "'p feeder \<Rightarrow> net \<Rightarrow> string \<Rightarrow> 'p \<Rightarrow> ((tls_error + 'p tls_stream) \<times> net) option" where
  "tls_connect feed net start p =
     (case flushEncrypted (snd net) ((new_stream p)\<lparr>encryptedOutBuf := start\<rparr>) of
        None \<Rightarrow> None
      | Some (Inl e, t, ws) \<Rightarrow> Some (Inl e, fst net, ws)
      | Some (Inr _, t, ws) \<Rightarrow> handshake_loop feed (fst net, ws) t)"

text \<open>The loop of \<^verbatim>\<open>read\<close>, until there is plaintext or the end.\<close>

function fill_plain :: "'p feeder \<Rightarrow> net \<Rightarrow> 'p tls_stream \<Rightarrow> ((tls_error + unit) \<times> 'p tls_stream \<times> net) option" where
  "fill_plain feed net t =
     (if plainBuf t \<noteq> [] \<or> tls_eof t then Some (Inr (), t, net)
      else case feedOnce feed net t of
          None \<Rightarrow> None
        | Some (Inl e, t, net) \<Rightarrow> Some (Inl e, t, net)
        | Some (Inr r, t, net) \<Rightarrow> if r = Feed_error then Some (Inl Provider_error, t, net) else fill_plain feed net t)"
  by pat_completeness auto

termination by (relation "measure (\<lambda>(f, n, t). length (fst n))") (auto dest: feedOnce_consumes)

declare fill_plain.simps [simp del]

definition tls_read :: "'p feeder \<Rightarrow> net \<Rightarrow> nat \<Rightarrow> 'p tls_stream \<Rightarrow> ((tls_error + string) \<times> 'p tls_stream \<times> net) option" where
  "tls_read feed net len t =
     (case fill_plain feed net t of
        None \<Rightarrow> None
      | Some (Inl e, t, net) \<Rightarrow> Some (Inl e, t, net)
      | Some (Inr _, t, net) \<Rightarrow>
          if plainBuf t = [] then Some (Inr [], t, net)
          else (let copy = min len (length (plainBuf t)) in
                Some (Inr (take copy (plainBuf t)), t\<lparr>plainBuf := drop copy (plainBuf t)\<rparr>, net)))"

text \<open>The loop of \<^verbatim>\<open>write\<close>; \<open>xs\<close> is what is left of the buffer.\<close>

function write_loop :: "'p sender \<Rightarrow> conn_answer list \<Rightarrow> string \<Rightarrow> nat \<Rightarrow> 'p tls_stream \<Rightarrow> ((tls_error + nat) \<times> 'p tls_stream \<times> conn_answer list) option" where
  "write_loop send ws xs sent t =
     (if xs = [] then Some (Inr sent, t, ws)
      else case send (tls_provider t) xs (encryptedOutBuf t) of
          (n, p, enc) \<Rightarrow>
            (let t = t\<lparr>tls_provider := p, encryptedOutBuf := enc\<rparr> in
             if n < 0 then Some (Inl Provider_error, t, ws)
             else if n = 0 then Some (Inl Write_returned_zero, t, ws)
             else case flushEncrypted ws t of
                 None \<Rightarrow> None
               | Some (Inl e, t, ws) \<Rightarrow> Some (Inl e, t, ws)
               | Some (Inr False, t, ws) \<Rightarrow> Some (Inr sent, t, ws)
               | Some (Inr True, t, ws) \<Rightarrow> write_loop send ws (drop (nat n) xs) (sent + nat n) t))"
  by pat_completeness auto

termination by (relation "measure (\<lambda>(f, ws, xs, d, t). length xs)") auto

declare write_loop.simps [simp del]

definition tls_write :: "'p sender \<Rightarrow> conn_answer list \<Rightarrow> string \<Rightarrow> 'p tls_stream \<Rightarrow> ((tls_error + nat) \<times> 'p tls_stream \<times> conn_answer list) option" where
  "tls_write send ws xs t = (if xs = [] then Some (Inr 0, t, ws) else write_loop send ws xs 0 t)"

text \<open>\<open>close\<close>: the provider and the bytes it appends.\<close>

definition tls_shutdown :: "('p \<Rightarrow> string \<Rightarrow> 'p \<times> string) \<Rightarrow> conn_answer list \<Rightarrow> 'p tls_stream \<Rightarrow> ((tls_error + unit) \<times> 'p tls_stream \<times> conn_answer list) option" where
  "tls_shutdown close ws t =
     (case close (tls_provider t) (encryptedOutBuf t) of
        (p, enc) \<Rightarrow>
          (case flushEncrypted ws (t\<lparr>tls_provider := p, encryptedOutBuf := enc\<rparr>) of
             None \<Rightarrow> None
           | Some (Inl e, t, ws) \<Rightarrow> Some (Inl e, t, ws)
           | Some (Inr _, t, ws) \<Rightarrow> Some (Inr (), t\<lparr>finished := True\<rparr>, ws)))"

section \<open>A session of two providers\<close>

text \<open>
  What TLS promises after the handshake: \<open>linked s r c p\<close> says that the ciphertext \<open>c\<close> that is on the way from a provider in state \<open>s\<close> to
  one in state \<open>r\<close> stands for the plaintext \<open>p\<close>. Sending takes some of the plaintext and makes ciphertext for it;
  feeding any piece of the ciphertext gives a part of the plaintext; and without ciphertext on the
  way there is no plaintext on the way.
\<close>

definition tls_session :: "'s sender \<Rightarrow> 'r feeder \<Rightarrow> ('s \<Rightarrow> 'r \<Rightarrow> string \<Rightarrow> string \<Rightarrow> bool) \<Rightarrow> bool" where
  "tls_session send feed linked \<longleftrightarrow>
     (\<forall>s r c p x enc. linked s r c p \<longrightarrow> x \<noteq> [] \<longrightarrow>
        (\<exists>n s' e. send s x enc = (int n, s', enc @ e) \<and> 0 < n \<and> n \<le> length x \<and> linked s' r (c @ e) (p @ take n x))) \<and>
     (\<forall>s r c d p plain enc. linked s r (c @ d) p \<longrightarrow> c \<noteq> [] \<longrightarrow>
        (\<exists>r' p1 p2 e. feed r c plain enc = (Feed_ok, r', plain @ p1, enc @ e) \<and> p = p1 @ p2 \<and> linked s r' d p2)) \<and>
     (\<forall>s r p. linked s r [] p \<longrightarrow> p = [])"

lemma session_send:
  assumes "tls_session send feed linked" "linked s r c p" "x \<noteq> []"
  obtains n s' e where "send s x enc = (int n, s', enc @ e)" "0 < n" "n \<le> length x" "linked s' r (c @ e) (p @ take n x)"
  using assms unfolding tls_session_def by blast

lemma session_feed:
  assumes "tls_session send feed linked" "linked s r (c @ d) p" "c \<noteq> []"
  obtains r' p1 p2 e where "feed r c plain enc = (Feed_ok, r', plain @ p1, enc @ e)" "p = p1 @ p2" "linked s r' d p2"
  using assms unfolding tls_session_def by blast

lemma session_empty: "tls_session send feed linked \<Longrightarrow> linked s r [] p \<Longrightarrow> p = []"
  unfolding tls_session_def by blast

lemma flush_ok:
  assumes "set ws \<subseteq> {Conn_ok}"
  shows "flushEncrypted ws t = (if encryptedOutBuf t \<noteq> [] \<and> ws = [] then None
     else Some (Inr True, t\<lparr>encryptedOutBuf := [], wire := wire t @ encryptedOutBuf t\<rparr>, if encryptedOutBuf t = [] then ws else tl ws))"
  using assms by (cases ws) (auto simp: flushEncrypted_def sent_bytes_def)

lemma write_loop_session:
  assumes "tls_session send feed linked"
  shows "linked (tls_provider t) r c p \<Longrightarrow> encryptedOutBuf t = [] \<Longrightarrow> set ws \<subseteq> {Conn_ok} \<Longrightarrow> length xs \<le> length ws \<Longrightarrow>
    \<exists>u ws' e. write_loop send ws xs k t = Some (Inr (k + length xs), u, ws') \<and> encryptedOutBuf u = [] \<and> wire u = wire t @ e \<and>
      linked (tls_provider u) r (c @ e) (p @ xs)"
proof (induction xs arbitrary: t c p ws k rule: length_induct)
  case (1 xs)
  show ?case
  proof (cases "xs = []")
    case True
    then show ?thesis using "1.prems" by (subst write_loop.simps) simp
  next
    case False
    obtain n s' e where s: "send (tls_provider t) xs [] = (int n, s', [] @ e)" "0 < n" "n \<le> length xs" "linked s' r (c @ e) (p @ take n xs)"
      by (rule session_send [OF assms "1.prems"(1) False]) (rule that)
    let ?u = "t\<lparr>tls_provider := s', encryptedOutBuf := [], wire := wire t @ e\<rparr>"
    let ?ws = "if e = [] then ws else tl ws"
    have ws: "ws \<noteq> []" using False "1.prems"(4) by auto
    have w: "write_loop send ws xs k t = write_loop send ?ws (drop n xs) (k + n) ?u"
      using False s(1,2) ws "1.prems"(2,3) by (subst write_loop.simps) (simp add: flush_ok)
    have "length (drop n xs) < length xs" "set ?ws \<subseteq> {Conn_ok}" "length (drop n xs) \<le> length ?ws"
      using s(2) False "1.prems"(3,4) by (auto dest: list.set_sel(2) [OF ws])
    then obtain u ws' f where "write_loop send ?ws (drop n xs) (k + n) ?u = Some (Inr (k + n + length (drop n xs)), u, ws')"
      "encryptedOutBuf u = []" "wire u = wire ?u @ f" "linked (tls_provider u) r ((c @ e) @ f) ((p @ take n xs) @ drop n xs)"
      using "1.IH" [rule_format, of "drop n xs" ?u "c @ e" "p @ take n xs" ?ws "k + n"] s(4) by auto
    then show ?thesis using w s(3) by (intro exI [of _ u] exI [of _ ws'] exI [of _ "e @ f"]) simp
  qed
qed

lemma fill_plain_session:
  assumes "tls_session send feed linked"
  shows "linked s (tls_provider t) (concat cs @ d) p \<Longrightarrow> \<not> tls_eof t \<Longrightarrow> set ws \<subseteq> {Conn_ok} \<Longrightarrow> [] \<notin> set cs \<Longrightarrow>
    fill_plain feed (map Chunk cs, ws) t = Some (x, u, rs', ws') \<Longrightarrow>
    \<exists>cs' p1 p2. x = Inr () \<and> rs' = map Chunk cs' \<and> p = p1 @ p2 \<and> plainBuf u = plainBuf t @ p1 \<and> plainBuf u \<noteq> [] \<and> \<not> tls_eof u \<and>
      linked s (tls_provider u) (concat cs' @ d) p2"
proof (induction cs arbitrary: t p ws)
  case Nil
  then show ?case by (subst (asm) fill_plain.simps) (auto simp: feedOnce_def split: if_splits)
next
  case (Cons c cs)
  show ?case
  proof (cases "plainBuf t = []")
    case False
    then have "x = Inr () \<and> t = u \<and> rs' = map Chunk (c # cs)" using Cons.prems(5) by (subst (asm) fill_plain.simps) auto
    then show ?thesis using False Cons.prems by (intro exI [of _ "c # cs"] exI [of _ "[]"] exI [of _ p]) simp
  next
    case True
    have "linked s (tls_provider t) (c @ (concat cs @ d)) p" "c \<noteq> []" using Cons.prems by auto
    then obtain r' p1 p2 e where f: "feed (tls_provider t) c (plainBuf t) (encryptedOutBuf t) = (Feed_ok, r', plainBuf t @ p1, encryptedOutBuf t @ e)"
      "p = p1 @ p2" "linked s r' (concat cs @ d) p2"
      by (rule session_feed [OF assms]) (rule that)
    let ?t = "t\<lparr>tls_provider := r', plainBuf := plainBuf t @ p1, encryptedOutBuf := [], wire := wire t @ encryptedOutBuf t @ e\<rparr>"
    let ?ws = "if encryptedOutBuf t @ e = [] then ws else tl ws"
    have fo: "feedOnce feed (map Chunk (c # cs), ws) t =
      (if encryptedOutBuf t @ e \<noteq> [] \<and> ws = [] then None else Some (Inr Feed_ok, ?t, map Chunk cs, ?ws))"
      using f(1) \<open>c \<noteq> []\<close> by (simp add: feedOnce_def flush_ok [OF Cons.prems(3)])
    have "\<not> (encryptedOutBuf t @ e \<noteq> [] \<and> ws = [])"
    proof
      assume "encryptedOutBuf t @ e \<noteq> [] \<and> ws = []"
      then have "feedOnce feed (map Chunk (c # cs), ws) t = None" using fo by (metis (no_types))
      then have "fill_plain feed (map Chunk (c # cs), ws) t = None" using True Cons.prems(2) by (subst fill_plain.simps) (simp del: list.map)
      then show False using Cons.prems(5) by simp
    qed
    then have "feedOnce feed (map Chunk (c # cs), ws) t = Some (Inr Feed_ok, ?t, map Chunk cs, ?ws)" using fo by (simp only: if_False)
    then have "fill_plain feed (map Chunk (c # cs), ws) t = fill_plain feed (map Chunk cs, ?ws) ?t"
      using True Cons.prems(2) by (subst fill_plain.simps) (simp del: list.map)
    then have "fill_plain feed (map Chunk cs, ?ws) ?t = Some (x, u, rs', ws')" using Cons.prems(5) by (simp only:)
    moreover have "set ?ws \<subseteq> {Conn_ok}" using Cons.prems(3) by (cases ws) auto
    ultimately obtain cs' q1 q2 where "x = Inr ()" "rs' = map Chunk cs'" "p2 = q1 @ q2" "plainBuf u = plainBuf ?t @ q1" "plainBuf u \<noteq> []" "\<not> tls_eof u"
      "linked s (tls_provider u) (concat cs' @ d) q2"
      using Cons.IH [of ?t p2 ?ws] Cons.prems(2,4) f(3) by auto
    then show ?thesis using f(2) by (intro exI [of _ cs'] exI [of _ "p1 @ q1"] exI [of _ q2]) simp
  qed
qed

text \<open>
  The two ends, and the ciphertext on the way. The network delivers it in any pieces; what a read has
  not taken stays.
\<close>

record ('s, 'r) tls_pair =
  local_end :: "'s tls_stream"
  remote_end :: "'r tls_stream"
  in_flight :: string
  written :: string
  received :: string

datatype pair_event = Written | Received

inductive pair_step :: "'s sender \<Rightarrow> 'r feeder \<Rightarrow> ('s, 'r) tls_pair \<Rightarrow> pair_event \<Rightarrow> ('s, 'r) tls_pair \<Rightarrow> bool" for send feed where
  pair_write: "set ws \<subseteq> {Conn_ok} \<Longrightarrow> length xs \<le> length ws \<Longrightarrow> tls_write send ws xs (local_end k) = Some (x, u, ws') \<Longrightarrow>
    pair_step send feed k Written (k\<lparr>local_end := u, in_flight := in_flight k @ drop (length (wire (local_end k))) (wire u), written := written k @ xs\<rparr>)"
| pair_read: "in_flight k = concat cs @ d \<Longrightarrow> [] \<notin> set cs \<Longrightarrow> set ws \<subseteq> {Conn_ok} \<Longrightarrow>
    tls_read feed (map Chunk cs, ws) len (remote_end k) = Some (Inr bs, u, map Chunk cs', ws') \<Longrightarrow>
    pair_step send feed k Received (k\<lparr>remote_end := u, in_flight := concat cs' @ d, received := received k @ bs\<rparr>)"

definition new_pair :: "'s tls_stream \<Rightarrow> 'r tls_stream \<Rightarrow> ('s, 'r) tls_pair" where
  "new_pair s r = \<lparr>local_end = s, remote_end = r, in_flight = [], written = [], received = []\<rparr>"

definition pair_inv :: "('s \<Rightarrow> 'r \<Rightarrow> string \<Rightarrow> string \<Rightarrow> bool) \<Rightarrow> ('s, 'r) tls_pair \<Rightarrow> bool" where
  "pair_inv linked k \<longleftrightarrow> encryptedOutBuf (local_end k) = [] \<and> \<not> tls_eof (remote_end k) \<and>
     (\<exists>p. written k = received k @ plainBuf (remote_end k) @ p \<and>
        linked (tls_provider (local_end k)) (tls_provider (remote_end k)) (in_flight k) p)"

lemma tls_read_session:
  assumes "tls_session send feed linked" "linked s (tls_provider t) (concat cs @ d) p" "\<not> tls_eof t" "set ws \<subseteq> {Conn_ok}" "[] \<notin> set cs"
    "tls_read feed (map Chunk cs, ws) len t = Some (x, u, rs', ws')"
  obtains cs' p1 p2 bs where "x = Inr bs" "rs' = map Chunk cs'" "p = p1 @ p2" "plainBuf t @ p1 = bs @ plainBuf u" "0 < len \<longrightarrow> bs \<noteq> []"
    "\<not> tls_eof u" "linked s (tls_provider u) (concat cs' @ d) p2"
proof -
  obtain y v rs ws1 where v: "fill_plain feed (map Chunk cs, ws) t = Some (y, v, rs, ws1)"
    using assms(6) by (auto simp: tls_read_def split: option.splits)
  obtain cs' p1 p2 where f: "y = Inr ()" "rs = map Chunk cs'" "p = p1 @ p2" "plainBuf v = plainBuf t @ p1" "plainBuf v \<noteq> []" "\<not> tls_eof v"
    "linked s (tls_provider v) (concat cs' @ d) p2"
    using fill_plain_session [OF assms(1-5) v] by blast
  let ?n = "min len (length (plainBuf v))"
  have u: "x = Inr (take ?n (plainBuf v))" "u = v\<lparr>plainBuf := drop ?n (plainBuf v)\<rparr>" "rs' = rs"
    using assms(6) v f(1,5) by (simp_all add: tls_read_def Let_def)
  have "plainBuf t @ p1 = take ?n (plainBuf v) @ plainBuf u" unfolding f(4) [symmetric] u(2) by simp
  moreover have "0 < len \<longrightarrow> take ?n (plainBuf v) \<noteq> []" using f(5) by simp
  moreover have "\<not> tls_eof u" "linked s (tls_provider u) (concat cs' @ d) p2" using f(6,7) u(2) by simp_all
  ultimately show thesis by (intro that [OF u(1) _ f(3)]) (simp_all only: u(3) f(2) not_False_eq_True)
qed

lemma pair_step_inv:
  assumes "tls_session send feed linked" "pair_inv linked k" "pair_step send feed k e l"
  shows "pair_inv linked l"
  using assms(3)
proof cases
  case (pair_write ws xs x u ws')
  obtain p where p: "written k = received k @ plainBuf (remote_end k) @ p"
    "linked (tls_provider (local_end k)) (tls_provider (remote_end k)) (in_flight k) p" "encryptedOutBuf (local_end k) = []"
    using assms(2) by (auto simp: pair_inv_def)
  obtain u' ws2 e where w: "write_loop send ws xs 0 (local_end k) = Some (Inr (0 + length xs), u', ws2)" "encryptedOutBuf u' = []"
    "wire u' = wire (local_end k) @ e" "linked (tls_provider u') (tls_provider (remote_end k)) (in_flight k @ e) (p @ xs)"
    using write_loop_session [OF assms(1) p(2,3) pair_write(3,4)] by blast
  have "write_loop send ws [] 0 (local_end k) = Some (Inr 0, local_end k, ws)" by (subst write_loop.simps) simp
  then have "u = u'" using pair_write(5) w(1) by (auto simp: tls_write_def split: if_splits)
  then show ?thesis using assms(2) p w(2-4) pair_write(2) by (auto simp: pair_inv_def intro!: exI [of _ "p @ xs"])
next
  case (pair_read cs d ws len bs u cs' ws')
  obtain p where p: "written k = received k @ plainBuf (remote_end k) @ p"
    "linked (tls_provider (local_end k)) (tls_provider (remote_end k)) (concat cs @ d) p" "\<not> tls_eof (remote_end k)"
    using assms(2) pair_read(3) by (auto simp: pair_inv_def)
  obtain ds p1 p2 as where "Inr bs = (Inr as :: tls_error + string)" "map Chunk cs' = map Chunk ds" "p = p1 @ p2" "plainBuf (remote_end k) @ p1 = as @ plainBuf u"
    "\<not> tls_eof u" "linked (tls_provider (local_end k)) (tls_provider u) (concat ds @ d) p2"
    by (rule tls_read_session [OF assms(1) p(2,3) pair_read(5,4,6)])
  moreover have "inj Chunk" by (rule injI) simp
  ultimately show ?thesis using assms(2) p(1) pair_read(2) by (auto simp: pair_inv_def inj_map_eq_map intro!: exI [of _ p2])
qed

lemma pair_run_inv: "run (pair_step send feed) k es l \<Longrightarrow> tls_session send feed linked \<Longrightarrow> pair_inv linked k \<Longrightarrow> pair_inv linked l"
  by (induction rule: run.induct) (auto intro: pair_step_inv)

lemma new_pair_inv:
  "linked s r [] [] \<Longrightarrow> pair_inv linked (new_pair (new_stream s) (new_stream r))"
  by (simp add: pair_inv_def new_pair_def new_stream_def)

section \<open>Properties\<close>


text \<open>
  Nothing that was written gets stuck in a TLS stream: as long as something has not been read, a read
  that is given the ciphertext on the way returns some of it.
\<close>

theorem tls_delivers:
  assumes "tls_session send feed linked" "linked s r [] []"
    "run (pair_step send feed) (new_pair (new_stream s) (new_stream r)) es k" "received k \<noteq> written k" "0 < len"
  shows "\<exists>bs u net. bs \<noteq> [] \<and> tls_read feed ([Chunk (in_flight k)], [Conn_ok]) len (remote_end k) = Some (Inr bs, u, net)"
proof -
  let ?t = "remote_end k"
  have "pair_inv linked k" using pair_run_inv [OF assms(3,1) new_pair_inv [of linked s r, OF assms(2)]] .
  then obtain p where p: "written k = received k @ plainBuf ?t @ p" "linked (tls_provider (local_end k)) (tls_provider ?t) (in_flight k) p"
    "\<not> tls_eof ?t" by (auto simp: pair_inv_def)
  show ?thesis
  proof (cases "plainBuf ?t = []")
    case False
    have f: "fill_plain feed ([Chunk (in_flight k)], [Conn_ok]) ?t = Some (Inr (), ?t, [Chunk (in_flight k)], [Conn_ok])"
      using False by (subst fill_plain.simps) simp
    show ?thesis using False assms(5) by (auto simp: tls_read_def f Let_def)
  next
    case True
    then have "p \<noteq> []" using assms(4) p(1) by auto
    then have c: "in_flight k \<noteq> []" using session_empty [OF assms(1)] p(2) by metis
    obtain r' p1 p2 e where f: "feed (tls_provider ?t) (in_flight k) (plainBuf ?t) (encryptedOutBuf ?t) = (Feed_ok, r', plainBuf ?t @ p1, encryptedOutBuf ?t @ e)"
      "p = p1 @ p2" "linked (tls_provider (local_end k)) r' [] p2"
      using session_feed [OF assms(1), of _ _ "in_flight k" "[]" p] p(2) c by (metis append_Nil2)
    then have p1: "p1 \<noteq> []" using session_empty [OF assms(1) f(3)] \<open>p \<noteq> []\<close> by simp
    let ?u = "?t\<lparr>tls_provider := r', plainBuf := p1, encryptedOutBuf := [], wire := wire ?t @ encryptedOutBuf ?t @ e\<rparr>"
    let ?ws = "if encryptedOutBuf ?t @ e = [] then [Conn_ok] else []"
    have "feedOnce feed ([Chunk (in_flight k)], [Conn_ok]) ?t = Some (Inr Feed_ok, ?u, [], ?ws)"
      using f(1) c True by (simp add: feedOnce_def flush_ok)
    then have "fill_plain feed ([Chunk (in_flight k)], [Conn_ok]) ?t = fill_plain feed ([], ?ws) ?u"
      using True p(3) by (subst fill_plain.simps) simp
    also have "\<dots> = Some (Inr (), ?u, [], ?ws)" using p1 by (subst fill_plain.simps) simp
    finally show ?thesis using p1 assms(5) by (auto simp: tls_read_def Let_def)
  qed
qed

text \<open>A write on a session finishes: when the connection accepts what it is given, all bytes are taken.\<close>

theorem tls_write_finishes:
  assumes "tls_session send feed linked" "linked (tls_provider t) r c p" "encryptedOutBuf t = []"
  shows "\<exists>u ws. tls_write send (replicate (length xs) Conn_ok) xs t = Some (Inr (length xs), u, ws)"
  using write_loop_session [OF assms, of "replicate (length xs) Conn_ok" xs 0] by (auto simp: tls_write_def)

section \<open>The handshake with OpenSSL\<close>

text \<open>A provider on top of OpenSSL, with the answers that OpenSSL is going to give.\<close>

fun openssl_feed :: "(provider \<times> feed_answers list) feeder" where
  "openssl_feed (p, []) raw plain enc = (Feed_error, (p, []), plain, enc)"
| "openssl_feed (p, a # as) raw plain enc =
     (case feedEncrypted a p plain enc of (r, q, plain, enc) \<Rightarrow> (r, (q, as), plain, enc))"

lemma feed_done_verified:
  assumes "openssl_feed (p, as) raw plain enc = (Feed_handshake_done, (q, bs), x, y)" "validate (policy (ctx p))"
  shows "\<exists>a\<in>set as. verified a"
  using assms by (cases as)
    (auto simp: feedEncrypted_def finishHandshake_def verified_def Let_def split: if_splits prod.splits option.splits)

lemma openssl_feed_keeps:
  assumes "openssl_feed (p, as) raw plain enc = (r, (q, bs), x, y)"
  shows "ctx q = ctx p" "set bs \<subseteq> set as"
  using assms by (cases as; auto split: prod.splits dest: policy_kept)+

lemma feedOnce_done:
  assumes "feedOnce openssl_feed net t = Some (Inr r, u, net')" "tls_provider t = (p, as)" "validate (policy (ctx p))"
  shows "(r = Feed_handshake_done \<longrightarrow> (\<exists>a\<in>set as. verified a)) \<and> ctx (fst (tls_provider u)) = ctx p \<and> set (snd (tls_provider u)) \<subseteq> set as"
proof -
  have fl: "tls_provider v = tls_provider w" if "flushEncrypted ws w = Some (x, v, ws')" for ws w x ws' and v :: "(provider \<times> feed_answers list) tls_stream"
    using that by (auto simp: flushEncrypted_def Let_def split: if_splits list.splits)
  obtain raw rs ws where n: "net = (Chunk raw # rs, ws)"
    using assms(1) by (auto simp: feedOnce_def split: prod.splits list.splits chunk.splits)
  show ?thesis
  proof (cases "raw = []")
    case True
    then show ?thesis using assms n by (auto simp: feedOnce_def)
  next
    case False
    obtain r0 q bs x y where f: "openssl_feed (p, as) raw (plainBuf t) (encryptedOutBuf t) = (r0, (q, bs), x, y)" by (metis prod_cases5 surj_pair)
    obtain ok v ws' where v: "flushEncrypted ws (t\<lparr>tls_provider := (q, bs), plainBuf := x, encryptedOutBuf := y\<rparr>) = Some (Inr ok, v, ws')"
      using assms(1,2) n False f by (auto simp: feedOnce_def split: option.splits sum.splits)
    have "tls_provider v = (q, bs)" using fl [OF v] by simp
    moreover have "r = (if ok then r0 else Feed_eof)" "tls_provider u = tls_provider v"
      using assms(1,2) n False f v by (auto simp: feedOnce_def split: bool.splits if_splits)
    ultimately show ?thesis using f openssl_feed_keeps [OF f] feed_done_verified assms(3) by (auto split: if_splits)
  qed
qed

lemma handshake_verified:
  "handshake_loop openssl_feed net t = Some (Inr u, net') \<Longrightarrow> tls_provider t = (p, as) \<Longrightarrow> validate (policy (ctx p)) \<Longrightarrow> \<exists>a\<in>set as. verified a"
proof (induction "length (fst net)" arbitrary: net t p as rule: less_induct)
  case less
  obtain r v net1 where f: "feedOnce openssl_feed net t = Some (Inr r, v, net1)"
    using less.prems(1) by (subst (asm) handshake_loop.simps) (auto split: option.splits sum.splits)
  note d = feedOnce_done [OF f less.prems(2,3)]
  show ?case
  proof (cases "r = Feed_handshake_done")
    case False
    then have "handshake_loop openssl_feed net1 v = Some (Inr u, net')"
      using less.prems(1) f by (subst (asm) handshake_loop.simps) (cases r; simp)
    moreover have "length (fst net1) < length (fst net)" using f by (rule feedOnce_consumes)
    ultimately show ?thesis using less.hyps [of net1 v "fst (tls_provider v)" "snd (tls_provider v)"] d less.prems(3) by auto
  qed (use d in blast)
qed

text \<open>
  C24. \<^verbatim>\<open>accept\<close> and \<^verbatim>\<open>connect\<close> give a stream only after the certificate of the peer was verified, when the policy asks for
  validation, whatever OpenSSL and the network answer.
\<close>

theorem tls_stream_verified:
  assumes "tls_accept openssl_feed net start (p, as) = Some (Inr t, net') \<or> tls_connect openssl_feed net start (p, as) = Some (Inr t, net')"
    "validate (policy (ctx p))"
  shows "\<exists>a\<in>set as. verified a"
proof -
  obtain ws u b where u: "flushEncrypted (snd net) ((new_stream (p, as))\<lparr>encryptedOutBuf := start\<rparr>) = Some (Inr b, u, ws)"
    "handshake_loop openssl_feed (fst net, ws) u = Some (Inr t, net')"
    using assms(1) by (auto simp: tls_accept_def tls_connect_def split: option.splits sum.splits)
  have "tls_provider u = (p, as)" using u(1) by (auto simp: flushEncrypted_def new_stream_def Let_def split: if_splits list.splits)
  then show ?thesis using handshake_verified [OF u(2)] assms(2) by blast
qed

section \<open>Samples\<close>

text \<open>A pair of providers that turn every byte into its complement.\<close>

definition flip :: "string \<Rightarrow> string" where
  "flip = map (\<lambda>c. char_of (255 - of_char c :: nat))"

definition flip_send :: "unit sender" where
  "flip_send s x enc = (int (length x), s, enc @ flip x)"

definition flip_feed :: "unit feeder" where
  "flip_feed r raw plain enc = (Feed_ok, r, plain @ flip raw, enc)"

definition flip_linked :: "unit \<Rightarrow> unit \<Rightarrow> string \<Rightarrow> string \<Rightarrow> bool" where
  "flip_linked s r c p \<longleftrightarrow> p = flip c"

lemma flip_flip [simp]: "flip (flip xs) = xs"
proof -
  have x: "255 - (255 - x) = x" if "x < 256" for x :: nat using that by arith
  have "char_of (255 - of_char (char_of (255 - of_char c :: nat)) :: nat) = c" for c
    by (simp add: of_char_of x [OF of_char_less_256])
  then show ?thesis by (simp add: flip_def comp_def)
qed

lemma flip_append [simp]: "flip (xs @ ys) = flip xs @ flip ys" "flip [] = []"
  by (simp_all add: flip_def)

lemma flip_session: "tls_session flip_send flip_feed flip_linked"
  unfolding tls_session_def flip_send_def flip_feed_def flip_linked_def
  by auto

lemma flip_start: "flip_linked () () [] []"
  by (simp add: flip_linked_def flip_def)

text \<open>Three bytes are written at once, delivered in two pieces, and read with a small buffer.\<close>

definition flip_new :: "(unit, unit) tls_pair" where
  "flip_new = new_pair (new_stream ()) (new_stream ())"

definition flip_written :: "(unit, unit) tls_pair" where
  "flip_written = flip_new\<lparr>local_end := (new_stream ())\<lparr>wire := flip ''abc''\<rparr>, in_flight := flip ''abc'', written := ''abc''\<rparr>"

lemma flip_write_step: "pair_step flip_send flip_feed flip_new Written flip_written"
proof -
  have "tls_write flip_send [Conn_ok, Conn_ok, Conn_ok] ''abc'' (local_end flip_new) = Some (Inr 3, (new_stream ())\<lparr>wire := flip ''abc''\<rparr>, [Conn_ok, Conn_ok])"
    by (simp add: tls_write_def write_loop.simps flip_new_def new_pair_def flip_send_def new_stream_def flushEncrypted_def sent_bytes_def flip_def)
  from pair_write [OF _ _ this, of flip_feed] show ?thesis
    by (simp add: flip_written_def) (simp add: flip_new_def new_pair_def new_stream_def)
qed


theorem tls_delivers_witness:
  "\<exists>bs u net. bs \<noteq> [] \<and> tls_read flip_feed ([Chunk (in_flight flip_written)], [Conn_ok]) 2 (remote_end flip_written) = Some (Inr bs, u, net)"
proof -
  have r: "run (pair_step flip_send flip_feed) (new_pair (new_stream ()) (new_stream ())) [Written] flip_written"
    using flip_write_step by (simp add: flip_new_def)
  have "received flip_written \<noteq> written flip_written" by (simp add: flip_written_def flip_new_def new_pair_def)
  from tls_delivers [OF flip_session flip_start r this, of 2] show ?thesis by simp
qed

theorem tls_write_finishes_witness:
  "\<exists>u ws. tls_write flip_send (replicate (length ''abc'') Conn_ok) ''abc'' (new_stream ()) = Some (Inr (length ''abc''), u, ws)"
  by (rule tls_write_finishes [OF flip_session, of _ "()" "[]" "[]"]) (simp_all add: flip_start new_stream_def)

theorem tls_stream_verified_witness:
  "(\<exists>t net. tls_connect openssl_feed ([Chunk ''x''], []) [] (new_provider sample_context, [sample_answers]) = Some (Inr t, net)) \<and>
   (\<exists>a\<in>set [sample_answers]. verified a)"
proof -
  have t: "\<exists>t net. tls_connect openssl_feed ([Chunk ''x''], []) [] (new_provider sample_context, [sample_answers]) = Some (Inr t, net)"
    by (simp add: tls_connect_def handshake_loop.simps feedOnce_def flushEncrypted_def new_stream_def feedEncrypted_def sample_answers_def
        new_provider_def finishHandshake_def drainPlaintext_def flush_wbio_append sample_context_def Let_def)
  moreover have "validate (policy (ctx (new_provider sample_context)))"
    by (simp add: new_provider_def sample_context_def defaultClient_def plain_policy_def)
  ultimately show ?thesis using tls_stream_verified by blast
qed

end
