(* ===== verification/Pg_Pool.thy ===== *)
theory Pg_Pool
  imports Runs "HOL-Library.Multiset"
begin

text \<open>
  The connection pool of the PostgreSQL extension (\<^verbatim>\<open>src/extensions/pg/src/PoolState.cc\<close>,
  \<^verbatim>\<open>PgPool.cc\<close>, \<^verbatim>\<open>PooledConnection.cc\<close>) and transactions (\<^verbatim>\<open>PgTransaction.cc\<close>). The pool lives on
  one scheduler: the code between two suspensions is one step, and the steps of many callers of
  \<open>acquire\<close>, of the connection attempts, of the time-outs and of the returned connections come in any
  order. Connections are opened by libpq, so whether an attempt succeeds and whether a returned
  connection is still alive are choices of the steps.
\<close>

section \<open>The state of the pool\<close>

text \<open>
  A waiter is one call of \<open>acquire\<close>, a connection one live \<open>PgConnectionImpl\<close>. \<open>connecting\<close> are the
  waiters taken from the queue for which a connection is being opened, \<open>handed\<close> those whose promise
  has got a connection while \<open>acquire\<close> has not run on yet, \<open>failed\<close> those whose promise has got the
  error of an attempt, \<open>in_use\<close> the connections that callers hold.
\<close>

type_synonym waiter = nat
type_synonym conn = nat

record pool =
  maxSize :: nat
  totalCount :: nat
  idle :: "conn list"
  waiters :: "waiter list"
  cancelled :: "waiter set"
  connecting :: "waiter list"
  handed :: "(waiter \<times> conn) list"
  failed :: "waiter list"
  in_use :: "conn list"
  crashed :: bool

definition pool_init :: "nat \<Rightarrow> pool" where
  "pool_init n = \<lparr>maxSize = n, totalCount = 0, idle = [], waiters = [], cancelled = {}, connecting = [],
     handed = [], failed = [], in_use = [], crashed = False\<rparr>"

definition skip_cancelled :: "pool \<Rightarrow> waiter list" where
  "skip_cancelled p = dropWhile (\<lambda>w. w \<in> cancelled p) (waiters p)"

text \<open>\<open>PoolState::dispatch\<close>: serve one waiter from the idle connections or by a new connection.\<close>

definition dispatch :: "pool \<Rightarrow> pool" where
  "dispatch p = (case skip_cancelled p of
       [] \<Rightarrow> p\<lparr>waiters := []\<rparr>
     | w # ws \<Rightarrow>
         (case idle p of
            c # cs \<Rightarrow> p\<lparr>waiters := ws, idle := cs, handed := handed p @ [(w, c)]\<rparr>
          | [] \<Rightarrow> if totalCount p < maxSize p
                  then p\<lparr>totalCount := totalCount p + 1, waiters := ws, connecting := connecting p @ [w]\<rparr>
                  else p\<lparr>waiters := w # ws\<rparr>))"

section \<open>The operations\<close>

text \<open>\<open>PgPool::acquire\<close> up to its suspension.\<close>

definition acquire :: "waiter \<Rightarrow> pool \<Rightarrow> pool" where
  "acquire w p = dispatch (p\<lparr>waiters := waiters p @ [w]\<rparr>)"

text \<open>The end of the task that \<open>dispatch\<close> spawns.\<close>

definition connect_ok :: "waiter \<Rightarrow> conn \<Rightarrow> pool \<Rightarrow> pool" where
  "connect_ok w c p = (let q = p\<lparr>connecting := remove1 w (connecting p)\<rparr> in
     if w \<notin> cancelled p then q\<lparr>handed := handed q @ [(w, c)]\<rparr>
     else dispatch (q\<lparr>idle := idle q @ [c]\<rparr>))"

definition connect_fail :: "waiter \<Rightarrow> pool \<Rightarrow> pool" where
  "connect_fail w p = (let q = p\<lparr>connecting := remove1 w (connecting p), totalCount := totalCount p - 1\<rparr> in
     dispatch (if w \<notin> cancelled p then q\<lparr>failed := failed q @ [w]\<rparr> else q))"

text \<open>
  The callback of the cancel token. While the promise is open it gets the time-out error; when it
  has already got a connection or an error, \<open>set_exception\<close> throws out of the callback.
\<close>

definition on_cancel :: "waiter \<Rightarrow> pool \<Rightarrow> pool" where
  "on_cancel w p =
     (if w \<in> cancelled p then p
      else if w \<in> fst ` set (handed p) \<or> w \<in> set (failed p) then p\<lparr>crashed := True\<rparr>
      else p\<lparr>cancelled := insert w (cancelled p)\<rparr>)"

text \<open>\<open>acquire\<close> runs on: the caller gets the connection, or the error.\<close>

definition resume_acquire :: "waiter \<Rightarrow> conn \<Rightarrow> pool \<Rightarrow> pool" where
  "resume_acquire w c p = p\<lparr>handed := remove1 (w, c) (handed p), in_use := c # in_use p\<rparr>"

definition resume_error :: "waiter \<Rightarrow> pool \<Rightarrow> pool" where
  "resume_error w p = p\<lparr>failed := remove1 w (failed p)\<rparr>"

text \<open>\<open>returnConnection\<close>, when the handle is destroyed, and \<open>detachConnection\<close>, when it breaks first.\<close>

definition returnConnection :: "conn \<Rightarrow> bool \<Rightarrow> pool \<Rightarrow> pool" where
  "returnConnection c alive p = (let q = p\<lparr>in_use := remove1 c (in_use p)\<rparr> in
     dispatch (if alive then q\<lparr>idle := idle q @ [c]\<rparr> else q\<lparr>totalCount := totalCount q - 1\<rparr>))"

definition detachConnection :: "conn \<Rightarrow> pool \<Rightarrow> pool" where
  "detachConnection c p = dispatch (p\<lparr>in_use := remove1 c (in_use p), totalCount := totalCount p - 1\<rparr>)"

datatype pool_event =
    Acquire waiter
  | Connected waiter conn
  | Connect_failed waiter
  | Cancel waiter
  | Resume waiter conn
  | Resume_error waiter
  | Return conn bool
  | Detach conn

definition conns :: "pool \<Rightarrow> conn list" where
  "conns p = idle p @ map snd (handed p) @ in_use p"

definition busy_waiters :: "pool \<Rightarrow> waiter list" where
  "busy_waiters p = waiters p @ connecting p @ map fst (handed p) @ failed p"

inductive pool_step :: "pool \<Rightarrow> pool_event \<Rightarrow> pool \<Rightarrow> bool" where
  acquire: "\<not> crashed p \<Longrightarrow> w \<notin> set (busy_waiters p) \<Longrightarrow> w \<notin> cancelled p \<Longrightarrow> pool_step p (Acquire w) (acquire w p)"
| connected: "\<not> crashed p \<Longrightarrow> w \<in> set (connecting p) \<Longrightarrow> c \<notin> set (conns p) \<Longrightarrow>
    pool_step p (Connected w c) (connect_ok w c p)"
| connect_failed: "\<not> crashed p \<Longrightarrow> w \<in> set (connecting p) \<Longrightarrow> pool_step p (Connect_failed w) (connect_fail w p)"
| cancel: "\<not> crashed p \<Longrightarrow> w \<in> set (busy_waiters p) \<Longrightarrow> pool_step p (Cancel w) (on_cancel w p)"
| resume: "\<not> crashed p \<Longrightarrow> (w, c) \<in> set (handed p) \<Longrightarrow> pool_step p (Resume w c) (resume_acquire w c p)"
| resume_error: "\<not> crashed p \<Longrightarrow> w \<in> set (failed p) \<Longrightarrow> pool_step p (Resume_error w) (resume_error w p)"
| give_back: "\<not> crashed p \<Longrightarrow> c \<in> set (in_use p) \<Longrightarrow> pool_step p (Return c alive) (returnConnection c alive p)"
| detach: "\<not> crashed p \<Longrightarrow> c \<in> set (in_use p) \<Longrightarrow> pool_step p (Detach c) (detachConnection c p)"

section \<open>The invariant\<close>

definition live_waiters :: "pool \<Rightarrow> waiter list" where
  "live_waiters p = filter (\<lambda>w. w \<notin> cancelled p) (waiters p)"

text \<open>Every connection is counted once and has one owner.\<close>

definition accounted :: "pool \<Rightarrow> bool" where
  "accounted p \<longleftrightarrow> distinct (conns p) \<and>
     totalCount p = length (idle p) + length (connecting p) + length (handed p) + length (in_use p) \<and>
     totalCount p \<le> maxSize p"

text \<open>Nobody waits while there is a connection or room for one.\<close>

definition no_idle_wait :: "pool \<Rightarrow> bool" where
  "no_idle_wait p \<longleftrightarrow> (live_waiters p \<noteq> [] \<longrightarrow> idle p = [] \<and> totalCount p = maxSize p)"

text \<open>A call of \<open>acquire\<close> is at one place, and a promise that was satisfied was not cancelled before.\<close>

definition waiters_ok :: "pool \<Rightarrow> bool" where
  "waiters_ok p \<longleftrightarrow> distinct (busy_waiters p) \<and>
     (\<forall>w \<in> fst ` set (handed p) \<union> set (failed p). w \<notin> cancelled p)"

lemma filter_dropWhile_not: "filter (\<lambda>x. \<not> P x) (dropWhile P xs) = filter (\<lambda>x. \<not> P x) xs"
  by (induction xs) auto

lemma live_skip: "filter (\<lambda>w. w \<notin> cancelled p) (skip_cancelled p) = live_waiters p"
  by (simp add: skip_cancelled_def live_waiters_def filter_dropWhile_not)

lemma distinct_mset_subset: "mset xs \<subseteq># mset ys \<Longrightarrow> distinct ys \<Longrightarrow> distinct xs"
  unfolding distinct_count_atmost_1 by (metis (full_types) count_mset_0_iff le_antisym le_zero_eq less_one linorder_not_le mset_subset_eq_count not_less_eq_eq One_nat_def)

lemma skip_Cons:
  assumes "skip_cancelled p = w # ws"
  shows "w \<notin> cancelled p" "live_waiters p = w # filter (\<lambda>v. v \<notin> cancelled p) ws"
    "\<exists>us. waiters p = us @ w # ws"
proof -
  show "w \<notin> cancelled p" using assms hd_dropWhile [of "\<lambda>w. w \<in> cancelled p" "waiters p"]
    by (auto simp: skip_cancelled_def)
  then show "live_waiters p = w # filter (\<lambda>v. v \<notin> cancelled p) ws" using live_skip [of p] assms by simp
  show "\<exists>us. waiters p = us @ w # ws" using assms takeWhile_dropWhile_id [of "\<lambda>w. w \<in> cancelled p" "waiters p"]
    by (metis skip_cancelled_def)
qed

lemma skip_Nil: "skip_cancelled p = [] \<Longrightarrow> live_waiters p = []"
  using live_skip [of p] by simp

text \<open>\<open>dispatch\<close> keeps the books.\<close>

lemma mset_dispatch:
  "mset (conns (dispatch p)) = mset (conns p)" "mset (busy_waiters (dispatch p)) \<subseteq># mset (busy_waiters p)"
proof -
  show "mset (conns (dispatch p)) = mset (conns p)"
    by (auto simp: dispatch_def conns_def split: list.splits)
  show "mset (busy_waiters (dispatch p)) \<subseteq># mset (busy_waiters p)"
  proof (cases "skip_cancelled p")
    case Nil
    then show ?thesis by (auto simp: dispatch_def busy_waiters_def)
  next
    case (Cons w ws)
    obtain us where "waiters p = us @ w # ws" using skip_Cons(3) [OF Cons] by blast
    then show ?thesis using Cons by (auto simp: dispatch_def busy_waiters_def split: list.splits)
  qed
qed

lemma dispatch_accounted: "accounted p \<Longrightarrow> accounted (dispatch p)"
  using mset_eq_imp_distinct_iff [OF mset_dispatch(1) [of p]]
  by (auto simp: dispatch_def accounted_def split: list.splits)

lemma dispatch_waiters_ok:
  assumes "waiters_ok p"
  shows "waiters_ok (dispatch p)"
proof -
  have "distinct (busy_waiters (dispatch p))"
    using distinct_mset_subset [OF mset_dispatch(2) [of p]] assms by (simp add: waiters_ok_def)
  moreover have "\<forall>w \<in> fst ` set (handed (dispatch p)) \<union> set (failed (dispatch p)). w \<notin> cancelled (dispatch p)"
  proof (cases "skip_cancelled p")
    case Nil
    then show ?thesis using assms by (auto simp: dispatch_def waiters_ok_def)
  next
    case (Cons w ws)
    then show ?thesis using assms skip_Cons(1) [OF Cons] by (auto simp: dispatch_def waiters_ok_def split: list.splits)
  qed
  ultimately show ?thesis by (simp add: waiters_ok_def)
qed

text \<open>
  One more connection, or one more place, or one more waiter is all that a step adds, so serving one
  waiter is enough.
\<close>

definition one_more :: "pool \<Rightarrow> bool" where
  "one_more p \<longleftrightarrow> length (live_waiters p) \<le> 1 \<or> length (idle p) + (maxSize p - totalCount p) \<le> 1"

lemma dispatch_no_idle_wait:
  assumes "one_more p" "accounted p"
  shows "no_idle_wait (dispatch p)"
proof (cases "skip_cancelled p")
  case Nil
  then show ?thesis by (simp add: dispatch_def no_idle_wait_def live_waiters_def)
next
  case (Cons w ws)
  note live = skip_Cons(1,2) [OF Cons]
  show ?thesis
  proof (cases "idle p")
    case Nil
    then show ?thesis using assms Cons live
      by (auto simp: dispatch_def no_idle_wait_def one_more_def accounted_def live_waiters_def)
  next
    case (Cons c cs)
    then show ?thesis using assms \<open>skip_cancelled p = w # ws\<close> live
      by (auto simp: dispatch_def no_idle_wait_def one_more_def accounted_def live_waiters_def)
  qed
qed

definition pool_inv :: "pool \<Rightarrow> bool" where
  "pool_inv p \<longleftrightarrow> accounted p \<and> no_idle_wait p \<and> waiters_ok p"

lemma dispatch_inv: "accounted p \<Longrightarrow> waiters_ok p \<Longrightarrow> one_more p \<Longrightarrow> pool_inv (dispatch p)"
  by (simp add: pool_inv_def dispatch_accounted dispatch_no_idle_wait dispatch_waiters_ok)

text \<open>Taking a connection or an attempt away and putting a connection into the idle list.\<close>

lemma length_remove1_pos: "x \<in> set xs \<Longrightarrow> length xs = Suc (length (remove1 x xs))"
  by (induction xs) auto

lemma no_wait_one_more:
  assumes "no_idle_wait p" "accounted p" "live_waiters q = live_waiters p" "maxSize q = maxSize p"
    "length (idle q) + (maxSize q - totalCount q) \<le> Suc (length (idle p) + (maxSize p - totalCount p))"
  shows "one_more q"
  using assms by (cases "live_waiters p = []") (auto simp: one_more_def no_idle_wait_def accounted_def)

lemma live_cong: "waiters q = waiters p \<Longrightarrow> cancelled q = cancelled p \<Longrightarrow> live_waiters q = live_waiters p"
  by (simp add: live_waiters_def)

lemma acquire_inv:
  assumes "pool_inv p" "w \<notin> set (busy_waiters p)" "w \<notin> cancelled p"
  shows "pool_inv (acquire w p)"
  unfolding acquire_def
proof (rule dispatch_inv)
  let ?q = "p\<lparr>waiters := waiters p @ [w]\<rparr>"
  show "accounted ?q" using assms(1) by (simp add: pool_inv_def accounted_def conns_def)
  show "waiters_ok ?q" using assms by (auto simp: pool_inv_def waiters_ok_def busy_waiters_def)
  have "live_waiters ?q = live_waiters p @ [w]" using assms(3) by (simp add: live_waiters_def)
  then show "one_more ?q" using assms(1)
    by (cases "live_waiters p = []") (auto simp: one_more_def pool_inv_def no_idle_wait_def)
qed

lemma connect_ok_inv:
  assumes "pool_inv p" "w \<in> set (connecting p)" "c \<notin> set (conns p)"
  shows "pool_inv (connect_ok w c p)"
proof -
  let ?q = "p\<lparr>connecting := remove1 w (connecting p)\<rparr>"
  note len = length_remove1_pos [OF assms(2)]
  have d: "distinct (busy_waiters p)" using assms(1) by (simp add: pool_inv_def waiters_ok_def)
  show ?thesis
  proof (cases "w \<in> cancelled p")
    case False
    let ?r = "?q\<lparr>handed := handed ?q @ [(w, c)]\<rparr>"
    have "mset (busy_waiters ?r) = mset (busy_waiters p)" using assms(2) by (simp add: busy_waiters_def)
    then have "distinct (busy_waiters ?r)" using d mset_eq_imp_distinct_iff by blast
    then show ?thesis using assms False len live_cong [of ?r p]
      by (auto simp: connect_ok_def pool_inv_def accounted_def no_idle_wait_def waiters_ok_def conns_def)
  next
    case True
    let ?r = "?q\<lparr>idle := idle ?q @ [c]\<rparr>"
    have "pool_inv (dispatch ?r)"
    proof (rule dispatch_inv)
      show a: "accounted ?r" using assms len by (auto simp: pool_inv_def accounted_def conns_def)
      have "mset (busy_waiters ?r) \<subseteq># mset (busy_waiters p)" by (simp add: busy_waiters_def)
      then show "waiters_ok ?r" using distinct_mset_subset d assms(1) by (auto simp: waiters_ok_def pool_inv_def)
      show "one_more ?r" using assms(1) live_cong [of ?r p]
        by (intro no_wait_one_more [of p]) (auto simp: pool_inv_def)
    qed
    then show ?thesis using True by (simp add: connect_ok_def)
  qed
qed

lemma connect_fail_inv:
  assumes "pool_inv p" "w \<in> set (connecting p)"
  shows "pool_inv (connect_fail w p)"
proof -
  let ?q = "p\<lparr>connecting := remove1 w (connecting p), totalCount := totalCount p - 1\<rparr>"
  let ?r = "if w \<notin> cancelled p then ?q\<lparr>failed := failed ?q @ [w]\<rparr> else ?q"
  note len = length_remove1_pos [OF assms(2)]
  have "pool_inv (dispatch ?r)"
  proof (rule dispatch_inv)
    show "accounted ?r" using assms(1) len by (auto simp: pool_inv_def accounted_def conns_def)
    have "mset (busy_waiters ?r) \<subseteq># mset (busy_waiters p)" using assms(2) by (simp add: busy_waiters_def)
    then show "waiters_ok ?r" using distinct_mset_subset assms(1) by (auto simp: waiters_ok_def pool_inv_def)
    show "one_more ?r" using assms(1) live_cong [of ?r p]
      by (intro no_wait_one_more [of p]) (auto simp: pool_inv_def)
  qed
  then show ?thesis by (cases "w \<in> cancelled p") (simp_all add: connect_fail_def Let_def)
qed

lemma given_back_inv:
  assumes "pool_inv p" "c \<in> set (in_use p)"
  shows "pool_inv (dispatch (p\<lparr>in_use := remove1 c (in_use p), idle := idle p @ [c]\<rparr>))" (is "pool_inv (dispatch ?q)")
    and "pool_inv (dispatch (p\<lparr>in_use := remove1 c (in_use p), totalCount := totalCount p - 1\<rparr>))" (is "pool_inv (dispatch ?r)")
proof -
  note len = length_remove1_pos [OF assms(2)]
  have d: "distinct (conns p)" using assms(1) by (simp add: pool_inv_def accounted_def)
  have "mset (conns ?q) \<subseteq># mset (conns p)" "mset (conns ?r) \<subseteq># mset (conns p)"
    using assms(2) by (simp_all add: conns_def)
  then have dd: "distinct (conns ?q)" "distinct (conns ?r)" using distinct_mset_subset d by blast+
  show "pool_inv (dispatch ?q)"
  proof (rule dispatch_inv)
    show "accounted ?q" using assms(1) len dd(1) by (auto simp: pool_inv_def accounted_def)
    show "waiters_ok ?q" using assms(1) by (auto simp: waiters_ok_def pool_inv_def busy_waiters_def)
    show "one_more ?q" using assms(1) live_cong [of ?q p]
      by (intro no_wait_one_more [of p]) (auto simp: pool_inv_def)
  qed
  show "pool_inv (dispatch ?r)"
  proof (rule dispatch_inv)
    show "accounted ?r" using assms(1) len dd(2) by (auto simp: pool_inv_def accounted_def)
    show "waiters_ok ?r" using assms(1) by (auto simp: waiters_ok_def pool_inv_def busy_waiters_def)
    show "one_more ?r" using assms(1) live_cong [of ?r p]
      by (intro no_wait_one_more [of p]) (auto simp: pool_inv_def)
  qed
qed

lemma return_inv:
  assumes "pool_inv p" "c \<in> set (in_use p)"
  shows "pool_inv (returnConnection c alive p)" "pool_inv (detachConnection c p)"
  using given_back_inv [OF assms] by (simp_all add: returnConnection_def detachConnection_def Let_def)

lemma cancel_inv:
  assumes "pool_inv p"
  shows "pool_inv (on_cancel w p)"
proof -
  let ?q = "p\<lparr>cancelled := insert w (cancelled p)\<rparr>"
  have "live_waiters ?q = filter (\<lambda>v. v \<noteq> w) (live_waiters p)" by (auto simp: live_waiters_def intro: filter_cong)
  then have "no_idle_wait ?q" using assms by (auto simp: pool_inv_def no_idle_wait_def)
  then show ?thesis using assms
    by (auto simp: on_cancel_def pool_inv_def accounted_def conns_def waiters_ok_def busy_waiters_def
        no_idle_wait_def live_waiters_def)
qed

lemma resume_inv:
  assumes "pool_inv p"
  shows "(w, c) \<in> set (handed p) \<Longrightarrow> pool_inv (resume_acquire w c p)" "w \<in> set (failed p) \<Longrightarrow> pool_inv (resume_error w p)"
proof -
  have d: "distinct (conns p)" "distinct (busy_waiters p)"
    using assms by (auto simp: pool_inv_def accounted_def waiters_ok_def)
  assume m: "(w, c) \<in> set (handed p)"
  let ?q = "resume_acquire w c p"
  have h: "mset (handed p) = add_mset (w, c) (mset (remove1 (w, c) (handed p)))" using m by simp
  have "mset (map snd (handed p)) = add_mset c (mset (map snd (remove1 (w, c) (handed p))))"
    "mset (map fst (handed p)) = add_mset w (mset (map fst (remove1 (w, c) (handed p))))"
    using arg_cong [OF h, of "image_mset snd"] arg_cong [OF h, of "image_mset fst"] by simp_all
  then have "mset (conns ?q) \<subseteq># mset (conns p)" "mset (busy_waiters ?q) \<subseteq># mset (busy_waiters p)"
    by (simp_all add: conns_def busy_waiters_def resume_acquire_def)
  then have "distinct (conns ?q)" "distinct (busy_waiters ?q)" using distinct_mset_subset d by blast+
  moreover have "set (remove1 (w, c) (handed p)) \<subseteq> set (handed p)" by (rule set_remove1_subset)
  ultimately show "pool_inv ?q" using assms length_remove1_pos [OF m]
    by (fastforce simp: pool_inv_def accounted_def waiters_ok_def no_idle_wait_def live_waiters_def resume_acquire_def)
next
  assume "w \<in> set (failed p)"
  let ?q = "resume_error w p"
  have "mset (busy_waiters ?q) \<subseteq># mset (busy_waiters p)" by (simp add: busy_waiters_def resume_error_def)
  then have "distinct (busy_waiters ?q)"
    using distinct_mset_subset assms by (auto simp: pool_inv_def waiters_ok_def)
  then show "pool_inv ?q" using assms set_remove1_subset [of w "failed p"]
    by (auto simp: pool_inv_def accounted_def waiters_ok_def no_idle_wait_def live_waiters_def resume_error_def conns_def)
qed

lemma pool_step_inv: "pool_inv p \<Longrightarrow> pool_step p e q \<Longrightarrow> pool_inv q"
  by (erule pool_step.cases)
     (auto intro: acquire_inv connect_ok_inv connect_fail_inv cancel_inv resume_inv return_inv)

interpretation pool: step_invariant pool_step pool_inv
  by unfold_locales (rule pool_step_inv)

lemma pool_init_inv: "pool_inv (pool_init n)"
  by (simp add: pool_init_def pool_inv_def accounted_def no_idle_wait_def waiters_ok_def conns_def
      busy_waiters_def live_waiters_def)

lemma maxSize_dispatch [simp]: "maxSize (dispatch p) = maxSize p"
  by (simp add: dispatch_def split: list.split)

lemma pool_step_maxSize: "maxSize p = n \<Longrightarrow> pool_step p e q \<Longrightarrow> maxSize q = n"
  by (erule pool_step.cases)
     (auto simp: acquire_def connect_ok_def connect_fail_def on_cancel_def resume_acquire_def resume_error_def
       returnConnection_def detachConnection_def Let_def)

interpretation pool_size: step_invariant pool_step "\<lambda>p. maxSize p = n" for n
  by unfold_locales (rule pool_step_maxSize)

lemma pool_reachable:
  assumes "run pool_step (pool_init n) ls p"
  shows "pool_inv p" "maxSize p = n"
  using pool.run_keeps [OF assms pool_init_inv] pool_size.run_keeps [OF assms] by (simp_all add: pool_init_def)

section \<open>The properties of the pool\<close>

text \<open>
  C6. The pool never opens more connections than its limit and never gives one connection to two
  callers: in every reachable state the count is exact (idle, being opened, handed over, in use),
  at most maxSize, and the connections are pairwise different. In particular the unsigned counter
  never wraps below zero.
\<close>

theorem pool_bounded_and_exclusive:
  assumes "run pool_step (pool_init n) ls p"
  shows "totalCount p = length (idle p) + length (connecting p) + length (handed p) + length (in_use p) \<and>
    totalCount p \<le> n \<and> distinct (idle p @ map snd (handed p) @ in_use p)"
  using pool_reachable [OF assms] by (simp add: pool_inv_def accounted_def conns_def)

text \<open>One connection, one caller that gets it and a second caller that waits.\<close>

definition sample_pool_run :: "pool_event list" where
  "sample_pool_run = [Acquire 1, Connected 1 100, Resume 1 100, Acquire 2]"

lemma sample_pool:
  "\<exists>p. run pool_step (pool_init 1) sample_pool_run p \<and> in_use p = [100] \<and> live_waiters p = [2]"
proof -
  define p1 where "p1 = acquire 1 (pool_init 1)"
  define p2 where "p2 = connect_ok 1 100 p1"
  define p3 where "p3 = resume_acquire 1 100 p2"
  define p4 where "p4 = acquire 2 p3"
  have d1: "p1 = pool_init 1\<lparr>totalCount := 1, connecting := [1]\<rparr>"
    by (simp add: p1_def acquire_def dispatch_def skip_cancelled_def pool_init_def)
  have d2: "p2 = pool_init 1\<lparr>totalCount := 1, handed := [(1, 100)]\<rparr>"
    by (simp add: p2_def d1 connect_ok_def pool_init_def)
  have d3: "p3 = pool_init 1\<lparr>totalCount := 1, in_use := [100]\<rparr>"
    by (simp add: p3_def d2 resume_acquire_def pool_init_def)
  have d4: "p4 = pool_init 1\<lparr>totalCount := 1, in_use := [100], waiters := [2]\<rparr>"
    by (simp add: p4_def d3 acquire_def dispatch_def skip_cancelled_def pool_init_def)
  have "pool_step (pool_init 1) (Acquire 1) p1"
    unfolding p1_def by (rule acquire) (simp_all add: pool_init_def busy_waiters_def)
  moreover have "pool_step p1 (Connected 1 100) p2"
    unfolding p2_def by (rule connected) (simp_all add: d1 pool_init_def conns_def)
  moreover have "pool_step p2 (Resume 1 100) p3"
    unfolding p3_def by (rule resume) (simp_all add: d2 pool_init_def)
  moreover have "pool_step p3 (Acquire 2) p4"
    unfolding p4_def by (rule acquire) (simp_all add: d3 pool_init_def busy_waiters_def)
  ultimately have "run pool_step (pool_init 1) sample_pool_run p4"
    unfolding sample_pool_run_def run_cons_iff run_nil_iff by blast
  then show ?thesis by (intro exI [of _ p4]) (simp add: d4 pool_init_def live_waiters_def)
qed

theorem pool_bounded_and_exclusive_witness:
  "\<exists>p. run pool_step (pool_init 1) sample_pool_run p \<and> in_use p = [100] \<and> totalCount p \<le> 1"
  using sample_pool pool_bounded_and_exclusive [of 1 sample_pool_run] by blast

text \<open>
  C29. Nobody waits in vain: in every reachable state in which a call of acquire waits that was not
  cancelled, no connection is idle and the pool is at its limit; and when a caller gives back a
  live connection, the call that has waited longest gets that connection at once.
\<close>

theorem pool_serves_oldest:
  assumes "run pool_step (pool_init n) ls p" "live_waiters p = w # ws" "c \<in> set (in_use p)"
  shows "idle p = [] \<and> totalCount p = n \<and>
    (w, c) \<in> set (handed (returnConnection c True p)) \<and> live_waiters (returnConnection c True p) = ws"
proof -
  have inv: "idle p = []" "totalCount p = n"
    using pool_reachable [OF assms(1)] assms(2) by (auto simp: pool_inv_def no_idle_wait_def)
  let ?q = "p\<lparr>in_use := remove1 c (in_use p), idle := [c]\<rparr>"
  have live: "live_waiters ?q = w # ws" using assms(2) by (simp add: live_waiters_def)
  have "skip_cancelled ?q \<noteq> []" using skip_Nil [of ?q] live by auto
  then obtain v vs where v: "skip_cancelled ?q = v # vs" by (cases "skip_cancelled ?q") auto
  then have "v = w" "filter (\<lambda>u. u \<notin> cancelled p) vs = ws" using skip_Cons(2) [OF v] live by auto
  then have "(w, c) \<in> set (handed (dispatch ?q))" "live_waiters (dispatch ?q) = ws"
    using v by (simp_all add: dispatch_def live_waiters_def)
  then show ?thesis using inv by (simp add: returnConnection_def Let_def)
qed

theorem pool_serves_oldest_witness:
  "\<exists>p. run pool_step (pool_init 1) sample_pool_run p \<and> (2, 100) \<in> set (handed (returnConnection 100 True p))"
proof -
  obtain p where p: "run pool_step (pool_init 1) sample_pool_run p" "in_use p = [100]" "live_waiters p = [2]"
    using sample_pool by blast
  show ?thesis using pool_serves_oldest [OF p(1,3), of 100] p(1,2) by auto
qed

text \<open>
  A time-out that fires after a connection was handed over, but before acquire has run on,
  makes the cancel callback throw: it tests only its own flag and sets an exception on a promise
  that already has a value, and the error escapes into the task of the timer.
\<close>

theorem pool_late_timeout_crashes:
  "\<exists>p. run pool_step (pool_init 1) [Acquire 1, Connected 1 100, Cancel 1] p \<and> crashed p"
proof -
  define p1 where "p1 = acquire 1 (pool_init 1)"
  define p2 where "p2 = connect_ok 1 100 p1"
  define p3 where "p3 = on_cancel 1 p2"
  have d1: "p1 = pool_init 1\<lparr>totalCount := 1, connecting := [1]\<rparr>"
    by (simp add: p1_def acquire_def dispatch_def skip_cancelled_def pool_init_def)
  have d2: "p2 = pool_init 1\<lparr>totalCount := 1, handed := [(1, 100)]\<rparr>"
    by (simp add: p2_def d1 connect_ok_def pool_init_def)
  have "pool_step (pool_init 1) (Acquire 1) p1"
    unfolding p1_def by (rule acquire) (simp_all add: pool_init_def busy_waiters_def)
  moreover have "pool_step p1 (Connected 1 100) p2"
    unfolding p2_def by (rule connected) (simp_all add: d1 pool_init_def conns_def)
  moreover have "pool_step p2 (Cancel 1) p3"
    unfolding p3_def by (rule cancel) (simp_all add: d2 pool_init_def busy_waiters_def)
  ultimately have "run pool_step (pool_init 1) [Acquire 1, Connected 1 100, Cancel 1] p3"
    unfolding run_cons_iff run_nil_iff by blast
  moreover have "crashed p3" by (simp add: p3_def d2 on_cancel_def pool_init_def)
  ultimately show ?thesis by blast
qed

end
