(* ===== verification/Pg_Transaction.thy ===== *)
theory Pg_Transaction
  imports Runs
begin

text \<open>
  Transactions of the PostgreSQL extension (\<^verbatim>\<open>src/extensions/pg/src/PgTransaction.cc\<close>). A transaction
  owns a connection; what it sends over it is kept as the list of statements with the server's
  answer, which is an argument of each operation. \<open>finished\<close> is \<^verbatim>\<open>done_\<close>, and the connection
  is gone once it was released.
\<close>

section \<open>Transactions\<close>

datatype statement = Begin | Sql string | Commit | Rollback

datatype tx_error =
    Query_failed
  | Already_finished
  | Not_finished

record transaction =
  sent :: "(statement \<times> bool) list"
  has_conn :: bool
  finished :: bool
  autoCommit :: bool

text \<open>\<open>conn->execute\<close>: the statement is sent, and an error answer is thrown.\<close>

definition send_sql :: "statement \<Rightarrow> bool \<Rightarrow> transaction \<Rightarrow> (tx_error + unit) \<times> transaction" where
  "send_sql q ok t = (if ok then Inr () else Inl Query_failed, t\<lparr>sent := sent t @ [(q, ok)]\<rparr>)"

definition tx_begin :: "bool \<Rightarrow> tx_error + transaction" where
  "tx_begin ok = (if ok then Inr \<lparr>sent = [(Begin, True)], has_conn = True, finished = False, autoCommit = False\<rparr>
                  else Inl Query_failed)"

definition setAutoCommit :: "bool \<Rightarrow> transaction \<Rightarrow> transaction" where
  "setAutoCommit b t = t\<lparr>autoCommit := b\<rparr>"

definition isAlive :: "bool \<Rightarrow> transaction \<Rightarrow> bool" where
  "isAlive conn_alive t \<longleftrightarrow> \<not> finished t \<and> has_conn t \<and> conn_alive"

text \<open>\<open>query\<close> and \<open>execute\<close> differ only in the rows they return.\<close>

definition tx_execute :: "string \<Rightarrow> bool \<Rightarrow> transaction \<Rightarrow> (tx_error + unit) \<times> transaction" where
  "tx_execute q ok t = (if finished t then (Inl Already_finished, t) else send_sql (Sql q) ok t)"

definition finish_with :: "statement \<Rightarrow> bool \<Rightarrow> transaction \<Rightarrow> (tx_error + unit) \<times> transaction" where
  "finish_with q ok t =
     (if finished t then (Inl Already_finished, t)
      else (case send_sql q ok t of
              (Inl e, u) \<Rightarrow> (Inl e, u)
            | (Inr _, u) \<Rightarrow> (Inr (), u\<lparr>finished := True\<rparr>)))"

definition commit :: "bool \<Rightarrow> transaction \<Rightarrow> (tx_error + unit) \<times> transaction" where
  "commit = finish_with Commit"

definition rollback :: "bool \<Rightarrow> transaction \<Rightarrow> (tx_error + unit) \<times> transaction" where
  "rollback = finish_with Rollback"

definition release :: "transaction \<Rightarrow> (tx_error + unit) \<times> transaction" where
  "release t = (if finished t then (Inr (), t\<lparr>has_conn := False\<rparr>) else (Inl Not_finished, t))"

text \<open>The destructor; an error of its statement is only logged.\<close>

definition destroy :: "bool \<Rightarrow> transaction \<Rightarrow> transaction" where
  "destroy ok t = (if finished t then t else snd (send_sql (if autoCommit t then Commit else Rollback) ok t))"

datatype tx_call = Set_auto bool | Execute string bool | Call_commit bool | Call_rollback bool | Release

fun do_call :: "transaction \<Rightarrow> tx_call \<Rightarrow> transaction" where
  "do_call t (Set_auto b) = setAutoCommit b t"
| "do_call t (Execute q ok) = snd (tx_execute q ok t)"
| "do_call t (Call_commit ok) = snd (commit ok t)"
| "do_call t (Call_rollback ok) = snd (rollback ok t)"
| "do_call t Release = snd (release t)"

section \<open>The life of a transaction\<close>

text \<open>The statements that end the transaction on the server.\<close>

definition ends :: "statement \<times> bool \<Rightarrow> bool" where
  "ends e \<longleftrightarrow> snd e \<and> (fst e = Commit \<or> fst e = Rollback)"

text \<open>
  While it is not finished no statement has ended the transaction; once it is, exactly the last
  statement did. The connection is only given away by a finished transaction.
\<close>

definition tx_inv :: "transaction \<Rightarrow> bool" where
  "tx_inv t \<longleftrightarrow> (\<exists>es. sent t = (Begin, True) # es \<and>
     (if finished t then es \<noteq> [] \<and> ends (last es) \<and> (\<forall>e\<in>set (butlast es). \<not> ends e)
      else \<forall>e\<in>set es. \<not> ends e)) \<and> (\<not> has_conn t \<longrightarrow> finished t)"

lemma send_keeps:
  assumes "tx_inv t" "\<not> finished t" "q \<noteq> Commit" "q \<noteq> Rollback"
  shows "tx_inv (snd (send_sql q ok t))"
  using assms by (auto simp: tx_inv_def send_sql_def ends_def)

lemma finish_keeps:
  assumes "tx_inv t" "q = Commit \<or> q = Rollback"
  shows "tx_inv (snd (finish_with q ok t))"
  using assms by (auto simp: tx_inv_def finish_with_def send_sql_def ends_def)

lemma tx_call_keeps: "tx_inv t \<Longrightarrow> tx_inv (do_call t c)"
proof (cases c)
  case (Execute q ok)
  then show "tx_inv t \<Longrightarrow> ?thesis" using send_keeps by (auto simp: tx_execute_def)
next
  case (Call_commit ok)
  then show "tx_inv t \<Longrightarrow> ?thesis" using finish_keeps by (simp add: commit_def)
next
  case (Call_rollback ok)
  then show "tx_inv t \<Longrightarrow> ?thesis" using finish_keeps by (simp add: rollback_def)
qed (auto simp: tx_inv_def setAutoCommit_def release_def)

lemma tx_calls_keep: "tx_inv t \<Longrightarrow> tx_inv (fold (\<lambda>c t. do_call t c) cs t)"
  by (induction cs arbitrary: t) (auto intro: tx_call_keeps)

lemma tx_begin_inv: "tx_begin ok = Inr t \<Longrightarrow> tx_inv t"
  by (auto simp: tx_begin_def tx_inv_def split: if_splits)

text \<open>
  C32. A transaction is ended once and nothing is sent after its end: for any sequence of calls, with
  any answers of the server, the connection sees BEGIN first; at most one COMMIT or ROLLBACK succeeds,
  and it is the last statement; and when the object is destroyed the last statement is a COMMIT or a
  ROLLBACK, a ROLLBACK unless automatic commit was set or commit was called. The connection can be
  released only after the end.
\<close>

theorem transaction_ends_once:
  assumes "tx_begin True = Inr t" and "u = fold (\<lambda>c t. do_call t c) cs t" and "v = destroy ok u"
  shows "\<exists>es e. sent v = (Begin, True) # es @ [e] \<and> (\<forall>x\<in>set es. \<not> ends x) \<and>
    (fst e = Commit \<or> fst e = Rollback) \<and> (\<not> has_conn u \<longrightarrow> ends e) \<and>
    (\<not> finished u \<longrightarrow> fst e = (if autoCommit u then Commit else Rollback))"
proof -
  have inv: "tx_inv u" using tx_calls_keep [OF tx_begin_inv [OF assms(1)]] assms(2) by simp
  then obtain es where es: "sent u = (Begin, True) # es" by (auto simp: tx_inv_def)
  show ?thesis
  proof (cases "finished u")
    case True
    then have "es \<noteq> []" "ends (last es)" "\<forall>x\<in>set (butlast es). \<not> ends x"
      using inv es by (auto simp: tx_inv_def)
    then show ?thesis using True es assms(3)
      by (intro exI [of _ "butlast es"] exI [of _ "last es"]) (auto simp: destroy_def ends_def)
  next
    case False
    then show ?thesis using inv es assms(3)
      by (intro exI [of _ es]) (auto simp: destroy_def send_sql_def tx_inv_def)
  qed
qed

theorem transaction_ends_once_witness:
  "\<exists>es e. sent (destroy True (fold (\<lambda>c t. do_call t c) [Execute ''INSERT'' True, Call_commit False]
       \<lparr>sent = [(Begin, True)], has_conn = True, finished = False, autoCommit = False\<rparr>)) = (Begin, True) # es @ [e] \<and>
     (\<forall>x\<in>set es. \<not> ends x) \<and> fst e = Rollback"
  using transaction_ends_once [OF tx_begin_def [of True, simplified] refl refl, where cs = "[Execute ''INSERT'' True, Call_commit False]" and ok = True]
  by (auto simp: tx_execute_def commit_def finish_with_def send_sql_def)

end
