(* ===== verification/Pg_Config.thy ===== *)
theory Pg_Config
  imports Prelude
begin

text \<open>
  The configuration of a PostgreSQL connection (\<^verbatim>\<open>PgConnectConfig\<close> in
  \<^verbatim>\<open>src/extensions/pg/src/PgConnectionImpl.cc\<close>): the text that is given to libpq, and the way back. libpq's
  splitting of that text into keywords and values and the order in which a hash table is iterated
  are parameters.
\<close>

section \<open>The configuration\<close>

record pg_config =
  host :: string
  port :: "16 word"
  dbname :: string
  user :: string
  password :: string
  connectTimeoutMs :: int
  statementTimeoutMs :: int
  lockTimeoutMs :: int
  applicationName :: string
  options :: "string \<rightharpoonup> string"

definition default_config :: pg_config where
  "default_config = \<lparr>host = ''localhost'', port = 5432, dbname = [], user = [], password = [], connectTimeoutMs = 0,
     statementTimeoutMs = 0, lockTimeoutMs = 0, applicationName = [], options = Map.empty\<rparr>"

definition quote :: char where "quote = char_of (39 :: nat)"

definition conn_field :: "string \<Rightarrow> string \<Rightarrow> string" where
  "conn_field k v = k @ ''='' @ [quote] @ v @ [quote] @ '' ''"

text \<open>The predefined options, overridden by the explicit ones.\<close>

definition conn_options :: "pg_config \<Rightarrow> string \<rightharpoonup> string" where
  "conn_options c =
     (let m = Map.empty;
          m = (if statementTimeoutMs c > 0 then m(''statement_timeout'' \<mapsto> to_string_int (statementTimeoutMs c) @ ''ms'') else m);
          m = (if lockTimeoutMs c > 0 then m(''lock_timeout'' \<mapsto> to_string_int (lockTimeoutMs c) @ ''ms'') else m);
          m = (if applicationName c \<noteq> [] then m(''application_name'' \<mapsto> applicationName c) else m)
      in m ++ options c)"

definition option_text :: "string \<times> string \<Rightarrow> string" where
  "option_text kv = ''-c '' @ fst kv @ ''='' @ snd kv @ '' ''"

definition options_text :: "(string \<times> string) list \<Rightarrow> string" where
  "options_text kvs = concat (map option_text kvs)"

text \<open>\<open>order\<close> lists the entries of a table in the order of its iteration.\<close>

definition toConnStr :: "((string \<rightharpoonup> string) \<Rightarrow> (string \<times> string) list) \<Rightarrow> pg_config \<Rightarrow> string" where
  "toConnStr order c =
     conn_field ''host'' (host c) @
     conn_field ''port'' (to_string (unat (port c))) @
     (if dbname c \<noteq> [] then conn_field ''dbname'' (dbname c) else []) @
     (if user c \<noteq> [] then conn_field ''user'' (user c) else []) @
     (if password c \<noteq> [] then conn_field ''password'' (password c) else []) @
     (if conn_options c \<noteq> Map.empty then conn_field ''options'' (options_text (order (conn_options c))) else [])"

section \<open>Parsing\<close>

text \<open>
  The value of an option: up to the next space. When that space comes before the equals sign, the
  length \<^verbatim>\<open>sp - eq - 1\<close> is a huge \<^verbatim>\<open>size_t\<close>, and the value is the whole rest.
\<close>

definition option_value :: "nat \<Rightarrow> nat option \<Rightarrow> string \<Rightarrow> string" where
  "option_value eq sp r =
     (case sp of
        None \<Rightarrow> drop (eq + 1) r
      | Some s \<Rightarrow> take (nat ((int s - int eq - 1) mod 2 ^ 64)) (drop (eq + 1) r))"

lemma shorter_rest:
  "r \<noteq> [] \<Longrightarrow> 2 < length (dropWhile P r) \<Longrightarrow> length (dropWhile Q (drop 2 (dropWhile P r))) < length r"
proof -
  assume "2 < length (dropWhile P r)"
  moreover have "length (dropWhile Q (drop 2 (dropWhile P r))) \<le> length (dropWhile P r) - 2"
    by (metis length_dropWhile_le length_drop)
  moreover have "length (dropWhile P r) \<le> length r" by (rule length_dropWhile_le)
  ultimately show ?thesis by linarith
qed

lemma shorter_from:
  assumes "length r < n"
  shows "length (case sp of None \<Rightarrow> [] | Some s \<Rightarrow> drop s r) < n"
proof (cases sp)
  case (Some s)
  have "length (drop s r) \<le> length r" by simp
  then show ?thesis unfolding Some option.case using assms by (rule le_less_trans)
qed (use assms in auto)

text \<open>The loop over the options text; \<open>r\<close> is the text from \<^verbatim>\<open>pos\<close> on.\<close>

function parse_options :: "string \<Rightarrow> (string \<rightharpoonup> string) \<Rightarrow> (string \<rightharpoonup> string)" where
  "parse_options r m =
     (if r = [] then m
      else
        (let r = dropWhile (\<lambda>c. c = CHR '' '') r in
         if 2 < length r \<and> take 2 r = ''-c'' then
           (let r = dropWhile (\<lambda>c. c = CHR '' '') (drop 2 r);
                sp = find_char CHR '' '' r
            in case find_char CHR ''='' r of
                 Some eq \<Rightarrow>
                   parse_options (case sp of None \<Rightarrow> [] | Some s \<Rightarrow> drop s r) (m(take eq r \<mapsto> option_value eq sp r))
               | None \<Rightarrow> parse_options r m)
         else m))"
  by pat_completeness auto

termination
proof (relation "measure (length \<circ> fst)", goal_cases)
  case 2
  then show ?case by (simp add: shorter_rest)
next
  case 3
  then show ?case by (simp add: shorter_from shorter_rest del: length_drop)
qed simp

declare parse_options.simps [simp del]

text \<open>
  \<^verbatim>\<open>parseConnStr\<close>: \<open>conninfo\<close> is \<^verbatim>\<open>PQconninfoParse\<close>, a list of keywords with a value or none, or an error.
\<close>

datatype config_error = Conninfo_error string | Port_error num_error

fun set_field :: "string \<times> string option \<Rightarrow> pg_config \<Rightarrow> config_error + pg_config" where
  "set_field (kw, None) c = Inr c"
| "set_field (kw, Some v) c =
     (if kw = ''host'' then Inr (c\<lparr>host := v\<rparr>)
      else if kw = ''port'' then (case stoi v of Inl e \<Rightarrow> Inl (Port_error e) | Inr i \<Rightarrow> Inr (c\<lparr>port := word_of_int i\<rparr>))
      else if kw = ''dbname'' then Inr (c\<lparr>dbname := v\<rparr>)
      else if kw = ''user'' then Inr (c\<lparr>user := v\<rparr>)
      else if kw = ''password'' then Inr (c\<lparr>password := v\<rparr>)
      else if kw = ''options'' then Inr (c\<lparr>options := parse_options v (options c)\<rparr>)
      else Inr c)"

fun set_fields :: "(string \<times> string option) list \<Rightarrow> pg_config \<Rightarrow> config_error + pg_config" where
  "set_fields [] c = Inr c"
| "set_fields (x # xs) c = (case set_field x c of Inl e \<Rightarrow> Inl e | Inr c \<Rightarrow> set_fields xs c)"

definition parseConnStr :: "(string \<Rightarrow> string + (string \<times> string option) list) \<Rightarrow> string \<Rightarrow> config_error + pg_config" where
  "parseConnStr conninfo s = (case conninfo s of Inl e \<Rightarrow> Inl (Conninfo_error e) | Inr xs \<Rightarrow> set_fields xs default_config)"

section \<open>Round trip\<close>

text \<open>Keys and values that survive the option text.\<close>

definition plain_option :: "string \<times> string \<Rightarrow> bool" where
  "plain_option kv \<longleftrightarrow> CHR '' '' \<notin> set (fst kv) \<and> CHR ''='' \<notin> set (fst kv) \<and> CHR '' '' \<notin> set (snd kv) \<and> length (snd kv) < 2 ^ 64"

lemma parse_option_text:
  assumes "plain_option (k, v)"
  shows "parse_options (option_text (k, v) @ r) m = parse_options r (m(k \<mapsto> v))"
proof -
  let ?r = "k @ CHR ''='' # v @ CHR '' '' # r"
  have d: "dropWhile (\<lambda>c. c = CHR '' '') ?r = ?r"
    using assms by (cases k) (auto simp: plain_option_def)
  have eq: "find_char CHR ''='' ?r = Some (length k)" using assms by (simp add: plain_option_def find_char_append)
  have sp: "find_char CHR '' '' ?r = Some (Suc (length k + length v))"
    using assms find_char_append [of "CHR '' ''" "k @ CHR ''='' # v" r] by (simp add: plain_option_def)
  have "nat ((int (Suc (length k + length v)) - int (length k) - 1) mod 2 ^ 64) = length v"
    using assms by (simp add: plain_option_def)
  then have v: "option_value (length k) (Some (Suc (length k + length v))) ?r = v" by (simp only: option_value_def) simp
  have t: "option_text (k, v) @ r = CHR ''-'' # CHR ''c'' # CHR '' '' # ?r" by (simp add: option_text_def)
  have "parse_options (option_text (k, v) @ r) m = parse_options (CHR '' '' # r) (m(k \<mapsto> v))"
    unfolding t by (subst parse_options.simps) (simp add: Let_def d eq sp v)
  moreover have "parse_options (CHR '' '' # r) n = parse_options r n" for n
    by (subst (1 2) parse_options.simps) simp
  ultimately show ?thesis by simp
qed

lemma parse_options_text:
  "\<forall>kv\<in>set kvs. plain_option kv \<Longrightarrow> parse_options (options_text kvs @ r) m = parse_options r (fold (\<lambda>(k, v) m. m(k \<mapsto> v)) kvs m)"
proof (induction kvs arbitrary: m)
  case (Cons kv kvs)
  obtain k v where kv: "kv = (k, v)" by fastforce
  have "parse_options (options_text (kv # kvs) @ r) m = parse_options (options_text kvs @ r) (m(k \<mapsto> v))"
    using parse_option_text [of k v "options_text kvs @ r" m] Cons.prems by (simp add: options_text_def kv)
  then show ?case using Cons by (simp add: kv)
qed (simp add: options_text_def)

lemma fold_upd_entries:
  fixes m :: "'a \<rightharpoonup> 'b"
  shows "fold (\<lambda>(k, v) m. m(k \<mapsto> v)) kvs m = m ++ map_of (rev kvs)"
proof (induction kvs arbitrary: m)
  case (Cons kv kvs)
  moreover obtain a b where "kv = (a, b)" by fastforce
  moreover have "m(a \<mapsto> b) = m ++ [a \<mapsto> b]" for a :: 'a and b :: 'b by simp
  ultimately show ?case by (simp only: fold_Cons o_apply prod.case rev.simps map_of_append map_of.simps fst_conv snd_conv map_add_assoc)
qed simp

section \<open>Properties\<close>

text \<open>
  Options survive the round trip: whatever the order in which the table of options is written,
  reading the text back gives the same table, provided no key holds a space or an equals sign and
  no value a space.
\<close>

theorem options_round_trip:
  assumes "map_of kvs = conn_options c" "distinct (map fst kvs)" "\<forall>kv\<in>set kvs. plain_option kv"
  shows "parse_options (options_text kvs) Map.empty = conn_options c"
proof -
  have "parse_options (options_text kvs @ []) Map.empty = parse_options [] (map_of (rev kvs))"
    using parse_options_text [OF assms(3), of "[]" Map.empty] by (simp add: fold_upd_entries)
  moreover have "map_of (rev kvs) = map_of kvs" 
  proof
    fix k
    have d: "distinct (map fst (rev kvs))" using assms(2) by (simp add: rev_map [symmetric])
    show "map_of (rev kvs) k = map_of kvs k" using assms(2) map_of_eq_Some_iff [OF d, of k] map_of_eq_Some_iff [OF assms(2), of k]
      by (cases "map_of kvs k"; cases "map_of (rev kvs) k") auto
  qed
  moreover have "parse_options [] m = m" for m by (subst parse_options.simps) simp
  ultimately show ?thesis using assms(1) by simp
qed

definition sample_config :: pg_config where
  "sample_config = default_config\<lparr>statementTimeoutMs := 500, applicationName := ''app''\<rparr>"

theorem options_round_trip_witness:
  "parse_options (options_text [(''application_name'', ''app''), (''statement_timeout'', ''500ms'')]) Map.empty = conn_options sample_config"
proof (rule options_round_trip)
  have "to_string_int 500 = ''500''" by code_simp
  then show "map_of [(''application_name'', ''app''), (''statement_timeout'', ''500ms'')] = conn_options sample_config"
    by (simp add: conn_options_def sample_config_def default_config_def fun_upd_twist)
qed (simp_all add: plain_option_def)

text \<open>A value with a space is cut at the space, and what follows it is not parsed at all.\<close>

lemma option_value_cut:
  "parse_options (options_text [(''application_name'', ''my app''), (''lock_timeout'', ''5ms'')]) Map.empty =
     [''application_name'' \<mapsto> ''my'']"
  by (simp add: options_text_def option_text_def parse_options.simps option_value_def find_char_def Let_def)

text \<open>An option that is a flag without a value takes the next option into its key.\<close>

lemma flag_takes_next_option:
  "parse_options ''-c fsync -c a=1'' Map.empty = [''fsync -c a'' \<mapsto> ''1'', ''a'' \<mapsto> ''1'']"
  by (simp add: parse_options.simps option_value_def find_char_def Let_def)

text \<open>Quotes are not escaped: two different configurations have the same connection string.\<close>

lemma connstr_not_escaped:
  "toConnStr order (default_config\<lparr>dbname := ''a'' @ [quote] @ '' user='' @ [quote] @ ''b''\<rparr>) =
   toConnStr order (default_config\<lparr>dbname := ''a'', user := ''b''\<rparr>)"
proof -
  have "conn_options (default_config\<lparr>dbname := x, user := y\<rparr>) = Map.empty" "conn_options (default_config\<lparr>dbname := x\<rparr>) = Map.empty" for x y
    by (simp_all add: conn_options_def default_config_def)
  then show ?thesis by (simp add: toConnStr_def conn_field_def default_config_def)
qed

end
