(* ===== verification/Pg_Values.thy ===== *)
theory Pg_Values
  imports Complex_Main Prelude
begin

text \<open>
  The values of a query (\<^verbatim>\<open>PgValue\<close>): how \<^verbatim>\<open>sendAndReceive\<close> in \<^verbatim>\<open>src/extensions/pg/src/PgConnectionImpl.cc\<close> lays
  out the parameters for libpq, and how \<^verbatim>\<open>PgResult\<close> (\<^verbatim>\<open>src/extensions/pg/src/PgResult.cc\<close>) turns the cells
  of a result into values. \<^verbatim>\<open>std::stod\<close>, with the rounding of the processor, and \<^verbatim>\<open>PQunescapeBytea\<close> are arguments.
\<close>

section \<open>Values\<close>

text \<open>A finite \<^verbatim>\<open>double\<close> is a sign and a rational number.\<close>

datatype double = Finite bool rat | Infinite bool | Not_a_number bool

datatype pg_value = Monostate | Bool bool | Int64 "64 word" | Double double | Text string | Bytea string

definition round_even :: "rat \<Rightarrow> int" where
  "round_even x =
     (let f = \<lfloor>x\<rfloor>; d = x - of_int f in if d < 1 / 2 \<or> d = 1 / 2 \<and> even f then f else f + 1)"

text \<open>\<^verbatim>\<open>std::to_string(double)\<close> is \<^verbatim>\<open>printf\<close> with \<^verbatim>\<open>%f\<close>: six digits behind the point.\<close>

definition pad6 :: "string \<Rightarrow> string" where
  "pad6 s = replicate (6 - length s) CHR ''0'' @ s"

fun to_string_double :: "double \<Rightarrow> string" where
  "to_string_double (Finite neg m) =
     (let n = nat (round_even (m * 1000000)) in
      (if neg then ''-'' else []) @ to_string (n div 1000000) @ ''.'' @ pad6 (to_string (n mod 1000000)))"
| "to_string_double (Infinite neg) = (if neg then ''-inf'' else ''inf'')"
| "to_string_double (Not_a_number neg) = (if neg then ''-nan'' else ''nan'')"

definition stoll :: "string \<Rightarrow> num_error + int" where
  "stoll s =
     (case parse_integer 10 s of
        None \<Rightarrow> Inl Invalid_argument
      | Some (neg, v) \<Rightarrow>
          (let i = (if neg then - int v else int v)
           in if i < - (2 ^ 63) \<or> 2 ^ 63 \<le> i then Inl Out_of_range else Inr i))"

section \<open>Parameters\<close>

text \<open>Where a pointer for libpq points: into the texts made here, or into the parameter itself.\<close>

datatype param_ptr = Null_ptr | Buffer nat | Argument nat

record encoding =
  strBuffers :: "string list"
  paramValues :: "param_ptr list"
  paramLengths :: "32 word list"
  paramFormats :: "nat list"

definition empty_encoding :: encoding where
  "empty_encoding = \<lparr>strBuffers = [], paramValues = [], paramLengths = [], paramFormats = []\<rparr>"

definition push_text :: "string \<Rightarrow> encoding \<Rightarrow> encoding" where
  "push_text s e =
     (let e = e\<lparr>strBuffers := strBuffers e @ [s]\<rparr> in
      e\<lparr>paramValues := paramValues e @ [Buffer (length (strBuffers e) - 1)], paramLengths := paramLengths e @ [of_nat (length s)]\<rparr>)"

definition push_argument :: "param_ptr \<Rightarrow> string \<Rightarrow> encoding \<Rightarrow> encoding" where
  "push_argument p s e = e\<lparr>paramValues := paramValues e @ [p], paramLengths := paramLengths e @ [of_nat (length s)]\<rparr>"

text \<open>
  The visitor, for parameter number \<open>i\<close>. \<open>nil\<close>: \<^verbatim>\<open>data()\<close> of an empty vector is the null pointer, which the
  standard leaves open.
\<close>

fun encode_param :: "bool \<Rightarrow> nat \<Rightarrow> pg_value \<Rightarrow> encoding \<Rightarrow> encoding" where
  "encode_param nil i Monostate e = push_argument Null_ptr [] (e\<lparr>paramFormats := paramFormats e @ [0]\<rparr>)"
| "encode_param nil i (Bool b) e = push_text (if b then ''t'' else ''f'') (e\<lparr>paramFormats := paramFormats e @ [0]\<rparr>)"
| "encode_param nil i (Int64 w) e = push_text (to_string_int (sint w)) (e\<lparr>paramFormats := paramFormats e @ [0]\<rparr>)"
| "encode_param nil i (Double d) e = push_text (to_string_double d) (e\<lparr>paramFormats := paramFormats e @ [0]\<rparr>)"
| "encode_param nil i (Text s) e = push_argument (Argument i) s (e\<lparr>paramFormats := paramFormats e @ [0]\<rparr>)"
| "encode_param nil i (Bytea s) e =
     push_argument (if s = [] \<and> nil then Null_ptr else Argument i) s (e\<lparr>paramFormats := paramFormats e @ [1]\<rparr>)"

fun encode_from :: "bool \<Rightarrow> nat \<Rightarrow> pg_value list \<Rightarrow> encoding \<Rightarrow> encoding" where
  "encode_from nil i [] e = e"
| "encode_from nil i (v # vs) e = encode_from nil (i + 1) vs (encode_param nil i v e)"

definition encode_params :: "bool \<Rightarrow> pg_value list \<Rightarrow> encoding" where
  "encode_params nil vs = encode_from nil 0 vs empty_encoding"

section \<open>Results\<close>

text \<open>A result of libpq: the columns with their type, and the cells, null or a text.\<close>

record pg_raw =
  columns :: "(string \<times> nat) list"
  tuples :: "string option list list"

record pg_result =
  res :: "pg_raw option"
  rows :: nat
  cols :: nat

definition PgResult :: "pg_raw option \<Rightarrow> pg_result" where
  "PgResult r = \<lparr>res = r, rows = (case r of None \<Rightarrow> 0 | Some x \<Rightarrow> length (tuples x)), cols = (case r of None \<Rightarrow> 0 | Some x \<Rightarrow> length (columns x))\<rparr>"

definition colName :: "pg_result \<Rightarrow> nat \<Rightarrow> string option" where
  "colName p c = (if cols p \<le> c then None else Some (fst (columns (the (res p)) ! c)))"

definition cell_value :: "(string \<Rightarrow> num_error + double) \<Rightarrow> (string \<Rightarrow> string) \<Rightarrow> nat \<Rightarrow> string \<Rightarrow> num_error + pg_value" where
  "cell_value stod unescape oid v =
     (if oid = 16 then Inr (Bool (v \<noteq> [] \<and> hd v = CHR ''t''))
      else if oid = 20 \<or> oid = 21 \<or> oid = 23 then map_sum id (Int64 \<circ> word_of_int) (stoll v)
      else if oid = 700 \<or> oid = 701 \<or> oid = 1700 then map_sum id Double (stod v)
      else if oid = 17 then Inr (Bytea (unescape v))
      else Inr (Text v))"

definition get :: "(string \<Rightarrow> num_error + double) \<Rightarrow> (string \<Rightarrow> string) \<Rightarrow> pg_result \<Rightarrow> nat \<Rightarrow> nat \<Rightarrow> num_error + pg_value" where
  "get stod unescape p row col =
     (if rows p \<le> row \<or> cols p \<le> col then Inr Monostate
      else case tuples (the (res p)) ! row ! col of
          None \<Rightarrow> Inr Monostate
        | Some v \<Rightarrow> cell_value stod unescape (snd (columns (the (res p)) ! col)) v)"

section \<open>What libpq sends\<close>

text \<open>
  A parameter in text format ends at its first null byte, whatever its length; one in binary format
  has the length that is given.
\<close>

definition pointee :: "pg_value list \<Rightarrow> encoding \<Rightarrow> param_ptr \<Rightarrow> string option" where
  "pointee vs e p =
     (case p of
        Null_ptr \<Rightarrow> None
      | Buffer k \<Rightarrow> Some (strBuffers e ! k)
      | Argument k \<Rightarrow> (case vs ! k of Text s \<Rightarrow> Some s | Bytea s \<Rightarrow> Some s | _ \<Rightarrow> None))"

definition wire_value :: "pg_value list \<Rightarrow> encoding \<Rightarrow> nat \<Rightarrow> string option" where
  "wire_value vs e i =
     map_option (\<lambda>s. if paramFormats e ! i = 0 then takeWhile (\<lambda>c. c \<noteq> CHR 0x00) s else take (unat (paramLengths e ! i)) s)
       (pointee vs e (paramValues e ! i))"

text \<open>The bytes that stand for a value, and their format.\<close>

fun param_text :: "pg_value \<Rightarrow> string option" where
  "param_text Monostate = None"
| "param_text (Bool b) = Some (if b then ''t'' else ''f'')"
| "param_text (Int64 w) = Some (to_string_int (sint w))"
| "param_text (Double d) = Some (to_string_double d)"
| "param_text (Text s) = Some s"
| "param_text (Bytea s) = Some s"

fun param_format :: "pg_value \<Rightarrow> nat" where
  "param_format (Bytea s) = 1"
| "param_format _ = 0"

fun sendable :: "bool \<Rightarrow> pg_value \<Rightarrow> bool" where
  "sendable nil (Text s) \<longleftrightarrow> CHR 0x00 \<notin> set s"
| "sendable nil (Bytea s) \<longleftrightarrow> length s < 2 ^ 31 \<and> (s = [] \<longrightarrow> \<not> nil)"
| "sendable nil _ \<longleftrightarrow> True"

text \<open>The layout after the parameters \<open>done\<close>.\<close>

definition encoded :: "bool \<Rightarrow> pg_value list \<Rightarrow> pg_value list \<Rightarrow> encoding \<Rightarrow> bool" where
  "encoded nil vs ws e \<longleftrightarrow>
     length (paramValues e) = length ws \<and> length (paramLengths e) = length ws \<and> length (paramFormats e) = length ws \<and>
     length (strBuffers e) \<le> length ws \<and>
     (\<forall>i < length ws. paramFormats e ! i = param_format (ws ! i) \<and>
        (sendable nil (ws ! i) \<longrightarrow> pointee vs e (paramValues e ! i) = param_text (ws ! i)) \<and>
        (\<forall>k. paramValues e ! i = Buffer k \<longrightarrow> k < length (strBuffers e)) \<and>
        paramLengths e ! i = (case param_text (ws ! i) of None \<Rightarrow> 0 | Some s \<Rightarrow> of_nat (length s)))"

text \<open>The entry of the newest parameter.\<close>

lemma encode_param_new:
  assumes "encoded nil vs ws e" "vs ! length ws = v"
  shows "let e' = encode_param nil (length ws) v e in
    \<exists>p b. paramValues e' = paramValues e @ [p] \<and> paramFormats e' = paramFormats e @ [param_format v] \<and>
      paramLengths e' = paramLengths e @ [case param_text v of None \<Rightarrow> 0 | Some s \<Rightarrow> of_nat (length s)] \<and>
      strBuffers e' = strBuffers e @ b \<and> length b \<le> 1 \<and> (\<forall>k. p = Buffer k \<longrightarrow> k < length (strBuffers e')) \<and>
      (sendable nil v \<longrightarrow> pointee vs e' p = param_text v)"
  using assms(2) by (cases v) (auto simp: push_text_def push_argument_def pointee_def Let_def nth_append)

lemma pointee_more:
  assumes "strBuffers f = strBuffers e @ b" "\<And>k. p = Buffer k \<Longrightarrow> k < length (strBuffers e)"
  shows "pointee vs f p = pointee vs e p"
  using assms by (cases p) (simp_all add: pointee_def nth_append)

lemma encoded_step:
  assumes "encoded nil vs ws e" "vs ! length ws = v"
  shows "encoded nil vs (ws @ [v]) (encode_param nil (length ws) v e)"
proof -
  let ?f = "encode_param nil (length ws) v e"
  obtain p b where f: "paramValues ?f = paramValues e @ [p]" "paramFormats ?f = paramFormats e @ [param_format v]"
    "paramLengths ?f = paramLengths e @ [case param_text v of None \<Rightarrow> 0 | Some s \<Rightarrow> of_nat (length s)]"
    "strBuffers ?f = strBuffers e @ b" "length b \<le> 1" "\<And>k. p = Buffer k \<Longrightarrow> k < length (strBuffers ?f)"
    "sendable nil v \<longrightarrow> pointee vs ?f p = param_text v"
    using encode_param_new [OF assms] unfolding Let_def by blast
  have e: "length (paramValues e) = length ws" "length (paramLengths e) = length ws" "length (paramFormats e) = length ws"
    "length (strBuffers e) \<le> length ws" using assms(1) by (simp_all add: encoded_def)
  have i: "paramFormats e ! i = param_format (ws ! i)" "sendable nil (ws ! i) \<longrightarrow> pointee vs e (paramValues e ! i) = param_text (ws ! i)"
    "\<And>k. paramValues e ! i = Buffer k \<Longrightarrow> k < length (strBuffers e)"
    "paramLengths e ! i = (case param_text (ws ! i) of None \<Rightarrow> 0 | Some s \<Rightarrow> of_nat (length s))" if "i < length ws" for i
    using assms(1) that by (auto simp: encoded_def)
  have "pointee vs ?f (paramValues e ! i) = pointee vs e (paramValues e ! i)" if "i < length ws" for i
    using f(4) i(3) [OF that] by (rule pointee_more)
  moreover have "k < length (strBuffers ?f)" if "i < length ws" "paramValues e ! i = Buffer k" for i k
    using i(3) [OF that] f(4) by simp
  ultimately have "paramFormats ?f ! i = param_format ((ws @ [v]) ! i) \<and>
        (sendable nil ((ws @ [v]) ! i) \<longrightarrow> pointee vs ?f (paramValues ?f ! i) = param_text ((ws @ [v]) ! i)) \<and>
        (\<forall>k. paramValues ?f ! i = Buffer k \<longrightarrow> k < length (strBuffers ?f)) \<and>
        paramLengths ?f ! i = (case param_text ((ws @ [v]) ! i) of None \<Rightarrow> 0 | Some s \<Rightarrow> of_nat (length s))" if "i < length (ws @ [v])" for i
    using f(1-3,6,7) e i that by (cases "i = length ws") (auto simp: nth_append less_Suc_eq)
  then show ?thesis using f(1-5) e unfolding encoded_def by simp
qed

lemma encoded_from: "encoded nil vs ws e \<Longrightarrow> vs = ws @ us \<Longrightarrow> encoded nil vs vs (encode_from nil (length ws) us e)"
proof (induction us arbitrary: ws e)
  case (Cons u us)
  then show ?case using encoded_step [of nil vs ws e u] Cons.IH [of "ws @ [u]"] by simp
qed simp

lemma encode_params_encoded: "encoded nil vs vs (encode_params nil vs)"
  using encoded_from [of nil vs "[]" empty_encoding vs] by (simp add: encode_params_def encoded_def empty_encoding_def)

section \<open>Properties\<close>

lemma to_string_no_null: "CHR 0x00 \<notin> set (to_string n)"
  using to_string_no_control [of "CHR 0x00" n] by auto

lemma param_text_no_null:
  assumes "param_text v = Some s" "\<And>b. v \<noteq> Bytea b" "sendable nil v"
  shows "CHR 0x00 \<notin> set s"
proof (cases v)
  case (Double d)
  then show ?thesis using assms(1) to_string_no_null by (cases d) (auto simp: pad6_def Let_def split: if_splits)
qed (use assms to_string_no_null in \<open>auto simp: to_string_int_def split: if_splits\<close>)



lemma parse_integer_negative: "parse_integer 10 (CHR ''-'' # to_string n) = Some (True, n)"
proof -
  have d: "takeWhile (is_digit 10) (to_string n) = to_string n" using show_base_digits [of 10 _ n] by (simp add: takeWhile_eq_all_conv)
  have "\<not> isspace CHR ''-''" by code_simp
  then show ?thesis using magnitude_show_base [of 10 n] by (simp add: parse_integer_def Let_def d)
qed

text \<open>\<^verbatim>\<open>stoll\<close> reads back what \<^verbatim>\<open>std::to_string\<close> has written, over the whole range of 64 bits.\<close>

lemma stoll_to_string_int:
  assumes "- (2 ^ 63) \<le> i" "i < 2 ^ 63"
  shows "stoll (to_string_int i) = Inr i"
proof (cases "i < 0")
  case True
  have "parse_integer 10 (CHR ''-'' # to_string (nat (- i))) = Some (True, nat (- i))"
    using parse_integer_negative by simp
  then show ?thesis using True assms by (simp add: stoll_def to_string_int_def)
next
  case False
  then show ?thesis
    using parse_integer_show_base [of 10 "[]" "nat i"] assms by (simp add: stoll_def to_string_int_def)
qed

text \<open>The types whose texts are read back as the value they were written for.\<close>

fun type_oid :: "pg_value \<Rightarrow> nat option" where
  "type_oid (Bool b) = Some 16"
| "type_oid (Int64 w) = Some 20"
| "type_oid (Text s) = Some 25"
| "type_oid _ = None"

text \<open>
  C35. Values survive the way to the server and back: a cell that holds the text a boolean, an integer or a
  text was sent as, in a column of the matching type, is read as that value, for all 64-bit
  integers; a null cell and a cell outside of the result are read as null.
\<close>

theorem value_round_trip:
  assumes "row < length (tuples raw)" "col < length (columns raw)" "tuples raw ! row ! col = param_text v"
    "v = Monostate \<or> type_oid v = Some (snd (columns raw ! col))"
  shows "get stod unescape (PgResult (Some raw)) row col = Inr v"
proof -
  have "stoll (to_string_int (sint w)) = Inr (sint w)" for w :: "64 word"
    using sint_ge [of w] sint_lt [of w] by (intro stoll_to_string_int) simp_all
  then show ?thesis using assms by (cases v) (auto simp: get_def PgResult_def cell_value_def)
qed

theorem value_round_trip_witness:
  "get (\<lambda>_. Inl Invalid_argument) id (PgResult (Some \<lparr>columns = [(''n'', 20)], tuples = [[Some (to_string_int (sint (- 5 :: 64 word)))]]\<rparr>)) 0 0 =
     Inr (Int64 (- 5))"
  by (rule value_round_trip) simp_all

lemma get_outside: "rows p \<le> row \<or> cols p \<le> col \<Longrightarrow> get stod unescape p row col = Inr Monostate"
  by (simp add: get_def)

text \<open>Small numbers are sent as zero.\<close>

lemma small_double_lost: "to_string_double (Finite False (1 / 10000000)) = ''0.000000''"
proof -
  have "\<lfloor>1 / 10 :: rat\<rfloor> = 0" by (simp add: floor_eq_iff)
  then have "round_even (1 / 10) = 0" by (simp add: round_even_def Let_def)
  moreover have "to_string 0 = ''0''" by code_simp
  moreover have "pad6 ''0'' = ''000000''" by code_simp
  ultimately show ?thesis by (simp add: Let_def)
qed

text \<open>An empty byte string is sent as null, where its address is the null pointer; a text is cut at a null byte.\<close>

lemma empty_bytea_null: "wire_value [Bytea []] (encode_params True [Bytea []]) 0 = None"
  by (simp add: wire_value_def encode_params_def push_argument_def empty_encoding_def pointee_def)

lemma text_cut_at_null: "wire_value [Text [CHR ''a'', CHR 0x00, CHR ''b'']] (encode_params nil [Text [CHR ''a'', CHR 0x00, CHR ''b'']]) 0 = Some ''a''"
  by (simp add: wire_value_def encode_params_def push_argument_def empty_encoding_def pointee_def)

end
