(* ===== verification/Pg_Connection.thy ===== *)
theory Pg_Connection
  imports Tcp_Connection Pg_Config
begin

text \<open>
  A PostgreSQL connection (\<^verbatim>\<open>src/extensions/pg/src/PgConnectionImpl.cc\<close>): the handshake, the read loop
  that runs as a coroutine of its own, and the queries, which leave a promise for the read loop and
  wait for it. All of them run on the thread of one scheduler, so a step is what happens between
  two suspensions. The answers of libpq are arguments of the steps. What is used of libpq, and what
  its manual says, is that a command is refused while the previous one is in progress, and that
  the results it returns are those of the command in progress.
\<close>

section \<open>Connecting\<close>

datatype pg_error = Connection_error | Query_error | Cancelled_error | Timeout_error

datatype polling = Polling_failed | Polling_reading | Polling_writing | Polling_ok

text \<open>
  The function given to the channel, with whether the token was cancelled when it was called and the
  answer of \<^verbatim>\<open>PQconnectPoll\<close>; its state is whether the channel watches for writability.
\<close>

fun connect_turn :: "bool \<times> polling \<Rightarrow> bool \<Rightarrow> io_status \<times> bool" where
  "connect_turn (True, _) out = (Error, out)"
| "connect_turn (False, Polling_failed) out = (Error, out)"
| "connect_turn (False, Polling_writing) out = (NeedWrite, True)"
| "connect_turn (False, Polling_reading) out = (NeedRead, False)"
| "connect_turn (False, Polling_ok) out = (Success, out)"

text \<open>
  \<^verbatim>\<open>connect\<close> with a connection string. \<open>started\<close>: \<^verbatim>\<open>PQconnectStart\<close> gave an object with a socket and without an
  error; \<open>late\<close>: the token is cancelled when the handshake has ended; \<open>nonblocking\<close>: the answer of
  \<^verbatim>\<open>PQsetnonblocking\<close>. \<open>None\<close> stands for a handshake that has not ended.
\<close>

definition pg_connect :: "bool \<Rightarrow> (bool \<times> polling) turn list \<Rightarrow> bool \<Rightarrow> bool \<Rightarrow> (pg_error + unit) option" where
  "pg_connect started ts late nonblocking =
     (if \<not> started then Some (Inl Connection_error)
      else case perform connect_turn ts False of
          None \<Rightarrow> None
        | Some (res, out) \<Rightarrow>
            Some (if res = Io_canceled \<or> late then Inl Timeout_error
                  else if res \<noteq> Io_success then Inl Connection_error
                  else if \<not> nonblocking then Inl Connection_error
                  else Inr ()))"

text \<open>The deadline of \<^verbatim>\<open>connect\<close> with a configuration, in microseconds.\<close>

definition connect_deadline :: "pg_config \<Rightarrow> int option" where
  "connect_deadline cfg = (if connectTimeoutMs cfg \<le> 0 then None else Some (connectTimeoutMs cfg))"

section \<open>The state of a connection\<close>

type_synonym qid = nat

text \<open>What the read loop puts into a promise; \<open>No_result\<close> is the null pointer.\<close>

datatype 'r answer = Result 'r | No_result | Exception pg_error

text \<open>Where the coroutine of the read loop is.\<close>

datatype loop_pc =
    Posted_loop     \<comment> \<open>spawned, not run yet\<close>
  | Waiting_loop    \<comment> \<open>in the channel, waiting for readability\<close>
  | Woken_loop      \<comment> \<open>the channel has scheduled it, because of an event\<close>
  | Canceled_loop   \<comment> \<open>the channel has scheduled it, because of a cancellation\<close>
  | Ended_loop

text \<open>Where a call of \<^verbatim>\<open>sendAndReceive\<close> is.\<close>

datatype 'r query_pc =
    Not_started
  | Flush_ready      \<comment> \<open>about to call \<^verbatim>\<open>PQflush\<close>\<close>
  | Flush_waiting    \<comment> \<open>waiting for writability\<close>
  | Flush_canceled
  | Awaiting
  | Finished "pg_error + 'r"

fun live :: "'r query_pc \<Rightarrow> bool" where
  "live Not_started = False"
| "live (Finished x) = False"
| "live _ = True"

text \<open>
  \<^verbatim>\<open>ConnectionContext\<close>, with the coroutines that use it. \<open>watched\<close>: the channel watches for readability;
  \<open>in_progress\<close>: the command libpq is waiting for; \<open>stale\<close> remembers the queries that were sent when the
  connection was already broken.
\<close>

record 'r pg_conn =
  broken :: bool
  watched :: bool
  weakPromise :: "qid option"
  brokenHandler :: bool
  handlerCalls :: nat
  loop :: loop_pc
  answer :: "qid \<Rightarrow> 'r answer option"
  query :: "qid \<Rightarrow> 'r query_pc"
  token :: "qid \<Rightarrow> bool"
  in_progress :: "qid option"
  stale :: "qid \<Rightarrow> bool"

definition pg_init :: "'r pg_conn" where
  "pg_init = \<lparr>broken = False, watched = True, weakPromise = None, brokenHandler = False, handlerCalls = 0,
     loop = Posted_loop, answer = Map.empty, query = (\<lambda>_. Not_started), token = (\<lambda>_. False), in_progress = None,
     stale = (\<lambda>_. False)\<rparr>"

text \<open>\<^verbatim>\<open>Channel::cancelAll\<close> wakes only what is waiting in the channel.\<close>

definition cancel_all :: "'r pg_conn \<Rightarrow> 'r pg_conn" where
  "cancel_all c = c\<lparr>loop := (if loop c = Waiting_loop then Canceled_loop else loop c),
     query := (\<lambda>q. if query c q = Flush_waiting then Flush_canceled else query c q)\<rparr>"

definition handleBroken :: "'r pg_conn \<Rightarrow> 'r pg_conn" where
  "handleBroken c =
     (if broken c then c
      else (let c = (cancel_all (c\<lparr>broken := True\<rparr>))\<lparr>watched := False\<rparr> in
            if brokenHandler c then c\<lparr>handlerCalls := handlerCalls c + 1\<rparr> else c))"

text \<open>\<^verbatim>\<open>weakPromise.lock()\<close>: the promise lives in the frame of its query.\<close>

definition lock_promise :: "'r pg_conn \<Rightarrow> qid option" where
  "lock_promise c = (case weakPromise c of None \<Rightarrow> None | Some q \<Rightarrow> if live (query c q) then Some q else None)"

definition set_answer :: "'r answer \<Rightarrow> 'r pg_conn \<Rightarrow> 'r pg_conn" where
  "set_answer a c =
     (case lock_promise c of None \<Rightarrow> c | Some q \<Rightarrow> c\<lparr>answer := (answer c)(q \<mapsto> a), weakPromise := None\<rparr>)"

definition pg_isAlive :: "bool \<Rightarrow> 'r pg_conn \<Rightarrow> bool" where
  "pg_isAlive status_ok c \<longleftrightarrow> \<not> broken c \<and> status_ok"

definition setBrokenHandler :: "bool \<Rightarrow> 'r pg_conn \<Rightarrow> 'r pg_conn" where
  "setBrokenHandler h c = c\<lparr>brokenHandler := h\<rparr>"

section \<open>The read loop\<close>

text \<open>The answers of \<^verbatim>\<open>PQconsumeInput\<close>, \<^verbatim>\<open>PQisBusy\<close>, \<^verbatim>\<open>PQgetResult\<close> until it gives null, and \<^verbatim>\<open>PQstatus\<close>.\<close>

record 'r read_answers =
  consumed :: bool
  busy :: bool
  results :: "'r list"
  status_ok :: bool

text \<open>The loop over the results; \<open>cnt\<close> is their number, of which the first one is delivered.\<close>

fun take_results :: "nat \<Rightarrow> 'r list \<Rightarrow> 'r pg_conn \<Rightarrow> nat \<times> 'r pg_conn" where
  "take_results cnt [] c = (cnt, c)"
| "take_results cnt (r # rs) c =
     (if 1 < cnt + 1 then take_results (cnt + 1) rs c else take_results (cnt + 1) rs (set_answer (Result r) c))"

text \<open>
  The function given to \<^verbatim>\<open>performRead\<close>. Notifications are drained as well, but no handler can be set.
\<close>

definition read_turn :: "'r read_answers \<Rightarrow> 'r pg_conn \<Rightarrow> io_status \<times> 'r pg_conn" where
  "read_turn a c =
     (if \<not> consumed a then (Error, c)
      else if busy a then (NeedRead, c)
      else
        (let (cnt, c) = take_results 0 (results a) (c\<lparr>in_progress := None\<rparr>) in
         if lock_promise c \<noteq> None \<and> cnt = 0 then (Error, set_answer No_result c)
         else if \<not> status_ok a then (Error, c)
         else (NeedRead, c)))"

text \<open>What follows the end of \<^verbatim>\<open>performRead\<close>.\<close>

definition loop_end :: "io_result \<Rightarrow> 'r pg_conn \<Rightarrow> 'r pg_conn" where
  "loop_end r c =
     (set_answer (Exception (if r = Io_canceled then Cancelled_error else Connection_error)) (handleBroken c))\<lparr>loop := Ended_loop\<rparr>"

text \<open>The loop is resumed by an event, or when it starts on a channel that is readable.\<close>

definition loop_turn :: "'r read_answers \<Rightarrow> 'r pg_conn \<Rightarrow> 'r pg_conn" where
  "loop_turn a c =
     (case read_turn a c of
        (NeedRead, c) \<Rightarrow> c\<lparr>loop := Waiting_loop\<rparr>
      | (_, c) \<Rightarrow> loop_end Io_error c)"

section \<open>Queries\<close>

definition finish_query :: "qid \<Rightarrow> pg_error + 'r \<Rightarrow> 'r pg_conn \<Rightarrow> 'r pg_conn" where
  "finish_query q x c = c\<lparr>query := (query c)(q := Finished x)\<rparr>"

text \<open>Up to the flush; \<open>ok\<close> is the answer of \<^verbatim>\<open>PQsendQueryParams\<close>.\<close>

definition send_query :: "qid \<Rightarrow> bool \<Rightarrow> 'r pg_conn \<Rightarrow> 'r pg_conn" where
  "send_query q ok c =
     (if token c q then finish_query q (Inl Cancelled_error) c
      else (let c = c\<lparr>weakPromise := Some q\<rparr> in
            if \<not> ok then finish_query q (Inl Connection_error) (handleBroken c)
            else c\<lparr>in_progress := Some q, stale := (stale c)(q := broken c), query := (query c)(q := Flush_ready)\<rparr>))"

datatype flushed = Flush_done | Flush_more | Flush_failed

text \<open>The function given to \<^verbatim>\<open>performWrite\<close>, and what follows it.\<close>

definition flush_turn :: "qid \<Rightarrow> flushed \<Rightarrow> 'r pg_conn \<Rightarrow> 'r pg_conn" where
  "flush_turn q r c =
     (case r of
        Flush_more \<Rightarrow> c\<lparr>query := (query c)(q := Flush_waiting)\<rparr>
      | Flush_failed \<Rightarrow> finish_query q (Inl Connection_error) (handleBroken c)
      | Flush_done \<Rightarrow>
          if token c q then finish_query q (Inl Cancelled_error) (handleBroken c)
          else c\<lparr>query := (query c)(q := Awaiting)\<rparr>)"

definition flush_canceled :: "qid \<Rightarrow> 'r pg_conn \<Rightarrow> 'r pg_conn" where
  "flush_canceled q c = finish_query q (Inl Cancelled_error) (handleBroken c)"

text \<open>After the promise; \<open>good\<close>: the status of the result is that of rows or of a command.\<close>

definition receive :: "('r \<Rightarrow> bool) \<Rightarrow> qid \<Rightarrow> 'r answer \<Rightarrow> 'r pg_conn \<Rightarrow> 'r pg_conn" where
  "receive good q a c =
     (case a of
        Exception e \<Rightarrow> finish_query q (Inl e) c
      | No_result \<Rightarrow> finish_query q (Inl Connection_error) (handleBroken c)
      | Result r \<Rightarrow> finish_query q (if good r then Inr r else Inl Query_error) c)"

section \<open>Interleavings\<close>

datatype pg_event =
    Loop_waits | Readable | Turn | Loop_canceled
  | Send qid | Writable qid | Flush qid | Flush_cancel qid | Receive qid
  | Token qid | Token_callback qid | Set_handler bool

text \<open>What libpq promises: results come only while a command is in progress, and are results of that command.\<close>

definition libpq_answers :: "('r \<Rightarrow> qid) \<Rightarrow> 'r read_answers \<Rightarrow> 'r pg_conn \<Rightarrow> bool" where
  "libpq_answers asked a c \<longleftrightarrow> (\<forall>r\<in>set (results a). in_progress c = Some (asked r))"

text \<open>
  A callback of a cancelled token runs while it is registered, which is as long as the query is. When \<open>alone\<close> is set, the
  connection is used by one query at a time.
\<close>

inductive pg_step :: "bool \<Rightarrow> ('r \<Rightarrow> qid) \<Rightarrow> ('r \<Rightarrow> bool) \<Rightarrow> 'r pg_conn \<Rightarrow> pg_event \<Rightarrow> 'r pg_conn \<Rightarrow> bool" for alone asked good where
  loop_waits: "loop c = Posted_loop \<Longrightarrow> pg_step alone asked good c Loop_waits (c\<lparr>loop := Waiting_loop\<rparr>)"
| readable: "loop c = Waiting_loop \<Longrightarrow> watched c \<Longrightarrow> pg_step alone asked good c Readable (c\<lparr>loop := Woken_loop\<rparr>)"
| turn: "loop c = Posted_loop \<or> loop c = Woken_loop \<Longrightarrow> libpq_answers asked a c \<Longrightarrow> pg_step alone asked good c Turn (loop_turn a c)"
| loop_canceled: "loop c = Canceled_loop \<Longrightarrow> pg_step alone asked good c Loop_canceled (loop_end Io_canceled c)"
| send: "query c q = Not_started \<Longrightarrow> (alone \<longrightarrow> (\<forall>p. \<not> live (query c p))) \<Longrightarrow> (ok \<longrightarrow> in_progress c = None) \<Longrightarrow>
    pg_step alone asked good c (Send q) (send_query q ok c)"
| writable: "query c q = Flush_waiting \<Longrightarrow> pg_step alone asked good c (Writable q) (c\<lparr>query := (query c)(q := Flush_ready)\<rparr>)"
| flush: "query c q = Flush_ready \<Longrightarrow> pg_step alone asked good c (Flush q) (flush_turn q r c)"
| flush_cancel: "query c q = Flush_canceled \<Longrightarrow> pg_step alone asked good c (Flush_cancel q) (flush_canceled q c)"
| receive: "query c q = Awaiting \<Longrightarrow> answer c q = Some a \<Longrightarrow> pg_step alone asked good c (Receive q) (receive good q a c)"
| token: "pg_step alone asked good c (Token q) (c\<lparr>token := (token c)(q := True)\<rparr>)"
| token_callback: "token c q \<Longrightarrow> live (query c q) \<Longrightarrow> pg_step alone asked good c (Token_callback q) (cancel_all c)"
| set_handler: "pg_step alone asked good c (Set_handler h) (setBrokenHandler h c)"

section \<open>Invariants\<close>

text \<open>A promise that can be reached belongs to the command in progress, and is empty.\<close>

definition promise_inv :: "'r pg_conn \<Rightarrow> bool" where
  "promise_inv c \<longleftrightarrow>
     (\<forall>q. lock_promise c = Some q \<longrightarrow> in_progress c = Some q \<and> answer c q = None) \<and>
     (\<forall>q. query c q = Not_started \<longrightarrow> answer c q = None \<and> weakPromise c \<noteq> Some q)"

text \<open>Results are delivered to the query that asked for them.\<close>

definition owner_inv :: "('r \<Rightarrow> qid) \<Rightarrow> 'r pg_conn \<Rightarrow> bool" where
  "owner_inv asked c \<longleftrightarrow>
     (\<forall>q r. answer c q = Some (Result r) \<longrightarrow> asked r = q) \<and> (\<forall>q r. query c q = Finished (Inr r) \<longrightarrow> asked r = q)"

definition handler_inv :: "'r pg_conn \<Rightarrow> bool" where
  "handler_inv c \<longleftrightarrow> handlerCalls c \<le> (if broken c then 1 else 0)"

definition single :: "'r pg_conn \<Rightarrow> bool" where
  "single c \<longleftrightarrow> (\<forall>p q. live (query c p) \<longrightarrow> live (query c q) \<longrightarrow> p = q)"

lemma single_cong: "(\<And>q. live (query d q) \<Longrightarrow> live (query c q)) \<Longrightarrow> single c \<Longrightarrow> single d"
  unfolding single_def by blast

text \<open>With one query at a time, a query without an answer is known to a read loop that is running.\<close>

definition alone_inv :: "'r pg_conn \<Rightarrow> bool" where
  "alone_inv c \<longleftrightarrow>
     single c \<and>
     (\<not> broken c \<longrightarrow> watched c \<and> loop c \<noteq> Ended_loop) \<and>
     (\<forall>q. live (query c q) \<longrightarrow> \<not> stale c q \<longrightarrow> answer c q = None \<longrightarrow> weakPromise c = Some q \<and> \<not> broken c)"

definition pg_inv :: "bool \<Rightarrow> ('r \<Rightarrow> qid) \<Rightarrow> 'r pg_conn \<Rightarrow> bool" where
  "pg_inv alone asked c \<longleftrightarrow> promise_inv c \<and> owner_inv asked c \<and> handler_inv c \<and> (alone \<longrightarrow> alone_inv c)"

lemmas inv_defs = pg_inv_def promise_inv_def owner_inv_def handler_inv_def alone_inv_def

text \<open>What the basic operations leave alone.\<close>

lemma live_cancel_all [simp]: "live (query (cancel_all c) q) = live (query c q)"
  by (simp add: cancel_all_def)

lemma query_cancel_all [simp]:
  "query (cancel_all c) q = Not_started \<longleftrightarrow> query c q = Not_started"
  "query (cancel_all c) q = Finished x \<longleftrightarrow> query c q = Finished x"
  by (simp_all add: cancel_all_def)

lemma cancel_all_fields [simp]:
  "broken (cancel_all c) = broken c" "watched (cancel_all c) = watched c" "weakPromise (cancel_all c) = weakPromise c"
  "brokenHandler (cancel_all c) = brokenHandler c" "handlerCalls (cancel_all c) = handlerCalls c" "answer (cancel_all c) = answer c"
  "token (cancel_all c) = token c" "in_progress (cancel_all c) = in_progress c" "stale (cancel_all c) = stale c"
  "loop (cancel_all c) = Ended_loop \<longleftrightarrow> loop c = Ended_loop"
  by (simp_all add: cancel_all_def)

lemma handleBroken_fields [simp]:
  "broken (handleBroken c)" "weakPromise (handleBroken c) = weakPromise c" "answer (handleBroken c) = answer c"
  "token (handleBroken c) = token c" "in_progress (handleBroken c) = in_progress c" "stale (handleBroken c) = stale c"
  "live (query (handleBroken c) q) = live (query c q)"
  "query (handleBroken c) q = Not_started \<longleftrightarrow> query c q = Not_started"
  "query (handleBroken c) q = Finished x \<longleftrightarrow> query c q = Finished x"
  by (simp_all add: handleBroken_def Let_def cancel_all_def)

lemma set_answer_fields [simp]:
  "broken (set_answer a c) = broken c" "watched (set_answer a c) = watched c" "query (set_answer a c) = query c"
  "brokenHandler (set_answer a c) = brokenHandler c" "handlerCalls (set_answer a c) = handlerCalls c" "loop (set_answer a c) = loop c"
  "token (set_answer a c) = token c" "in_progress (set_answer a c) = in_progress c" "stale (set_answer a c) = stale c"
  by (simp_all add: set_answer_def split: option.splits)

lemma lock_promise_Some: "lock_promise c = Some q \<longleftrightarrow> weakPromise c = Some q \<and> live (query c q)"
  by (auto simp: lock_promise_def split: option.splits)

lemma lock_promise_cong:
  "weakPromise c = weakPromise d \<Longrightarrow> (\<And>q. live (query c q) = live (query d q)) \<Longrightarrow> lock_promise c = lock_promise d"
  by (simp add: lock_promise_def split: option.splits)

lemma lock_promise_upd [simp]:
  "lock_promise (c\<lparr>loop := p\<rparr>) = lock_promise c" "lock_promise (c\<lparr>in_progress := i\<rparr>) = lock_promise c"
  "lock_promise (c\<lparr>token := t\<rparr>) = lock_promise c" "lock_promise (c\<lparr>brokenHandler := b\<rparr>) = lock_promise c"
  by (intro lock_promise_cong; simp)+

lemma single_upd [simp]:
  "single (c\<lparr>loop := p\<rparr>) = single c" "single (c\<lparr>in_progress := i\<rparr>) = single c" "single (c\<lparr>token := t\<rparr>) = single c"
  "single (c\<lparr>brokenHandler := b\<rparr>) = single c" "single (set_answer a c) = single c" "single (cancel_all c) = single c"
  "single (handleBroken c) = single c"
  unfolding single_def by simp_all

lemma lock_cancel_all [simp]: "lock_promise (cancel_all c) = lock_promise c" "lock_promise (handleBroken c) = lock_promise c"
  by (intro lock_promise_cong; simp)+

lemma lock_set_answer [simp]: "lock_promise (set_answer a c) = None"
  by (auto simp: set_answer_def split: option.splits) (simp add: lock_promise_def)

lemma answer_set_answer: "answer (set_answer a c) q = (if lock_promise c = Some q then Some a else answer c q)"
  by (auto simp: set_answer_def split: option.splits)

lemma weak_set_answer: "weakPromise (set_answer a c) = Some q \<longleftrightarrow> weakPromise c = Some q \<and> lock_promise c = None"
  by (auto simp: set_answer_def lock_promise_Some split: option.splits)

text \<open>One turn of the loop delivers at most one answer.\<close>

definition first_answer :: "'r list \<Rightarrow> 'r answer" where
  "first_answer rs = (case rs of [] \<Rightarrow> No_result | r # _ \<Rightarrow> Result r)"

lemma take_results_later: "0 < cnt \<Longrightarrow> take_results cnt rs c = (cnt + length rs, c)"
  by (induction rs arbitrary: cnt) auto

lemma take_results_first:
  "take_results 0 rs c = (length rs, if rs = [] then c else set_answer (first_answer rs) c)"
  by (cases rs) (simp_all add: take_results_later first_answer_def)

lemma set_answer_unlocked: "lock_promise c = None \<Longrightarrow> set_answer a c = c"
  by (simp add: set_answer_def)

lemma read_turn_delivers:
  "consumed a \<Longrightarrow> \<not> busy a \<Longrightarrow> snd (read_turn a c) = set_answer (first_answer (results a)) (c\<lparr>in_progress := None\<rparr>)"
  "consumed a \<Longrightarrow> \<not> busy a \<Longrightarrow> fst (read_turn a c) \<in> {NeedRead, Error}"
proof -
  assume a: "consumed a" "\<not> busy a"
  let ?c = "c\<lparr>in_progress := None\<rparr>"
  have n: "\<not> (lock_promise (if results a = [] then ?c else set_answer x ?c) \<noteq> None \<and> length (results a) = 0)" if "lock_promise c = None \<or> results a \<noteq> []" for x
    using that by auto
  show "snd (read_turn a c) = set_answer (first_answer (results a)) ?c" "fst (read_turn a c) \<in> {NeedRead, Error}"
    using a n by (auto simp: read_turn_def take_results_first first_answer_def set_answer_unlocked)
qed

lemma loop_turn_cases:
  obtains (failed) "\<not> consumed a" "loop_turn a c = loop_end Io_error c"
  | (busy) "consumed a" "busy a" "loop_turn a c = c\<lparr>loop := Waiting_loop\<rparr>"
  | (delivered) "consumed a" "\<not> busy a"
      "loop_turn a c = (set_answer (first_answer (results a)) (c\<lparr>in_progress := None\<rparr>))\<lparr>loop := Waiting_loop\<rparr>"
  | (ended) "consumed a" "\<not> busy a"
      "loop_turn a c = loop_end Io_error (set_answer (first_answer (results a)) (c\<lparr>in_progress := None\<rparr>))"
proof (cases "consumed a \<and> \<not> busy a")
  case True
  obtain st d where d: "read_turn a c = (st, d)" by fastforce
  have "d = set_answer (first_answer (results a)) (c\<lparr>in_progress := None\<rparr>)" "st \<in> {NeedRead, Error}"
    using read_turn_delivers [of a c] True d by simp_all
  then show thesis using True delivered ended d by (auto simp: loop_turn_def)
next
  case False
  show thesis
  proof (cases "consumed a")
    case True
    then show ?thesis using False by (intro busy) (simp_all add: loop_turn_def read_turn_def)
  next
    case False
    then show ?thesis by (intro failed) (simp_all add: loop_turn_def read_turn_def)
  qed
qed

subsection \<open>Operations keep the invariant\<close>

lemma inv_loop: "pg_inv alone asked c \<Longrightarrow> p \<noteq> Ended_loop \<Longrightarrow> pg_inv alone asked (c\<lparr>loop := p\<rparr>)"
  by (auto simp: inv_defs)

lemma handler_handleBroken [simp]: "handler_inv c \<Longrightarrow> handler_inv (handleBroken c)"
  by (auto simp: handler_inv_def handleBroken_def Let_def split: if_splits)

lemma handler_same: "handler_inv c \<Longrightarrow> handlerCalls d = handlerCalls c \<Longrightarrow> broken d = broken c \<Longrightarrow> handler_inv d"
  by (simp add: handler_inv_def)

lemma promise_handleBroken [simp]: "promise_inv (handleBroken c) = promise_inv c"
  by (simp add: promise_inv_def)

lemma asked_handleBroken [simp]: "owner_inv asked (handleBroken c) = owner_inv asked c"
  by (simp add: owner_inv_def)

lemma promise_answered: "promise_inv c \<Longrightarrow> promise_inv (set_answer a c)"
  by (auto simp: promise_inv_def answer_set_answer weak_set_answer lock_promise_Some)

lemma asked_answered:
  "owner_inv asked c \<Longrightarrow> (\<And>q r. a = Result r \<Longrightarrow> lock_promise c = Some q \<Longrightarrow> asked r = q) \<Longrightarrow> owner_inv asked (set_answer a c)"
  by (auto simp: owner_inv_def answer_set_answer)

lemma alone_answered: "alone_inv c \<Longrightarrow> alone_inv (set_answer a c)"
  by (auto simp: alone_inv_def answer_set_answer weak_set_answer lock_promise_def split: if_splits option.splits)

lemma inv_end:
  assumes "pg_inv alone asked c"
  shows "pg_inv alone asked (loop_end r c)"
proof -
  let ?d = "set_answer (Exception (if r = Io_canceled then Cancelled_error else Connection_error)) (handleBroken c)"
  have c: "promise_inv c" "owner_inv asked c" "handler_inv c" "alone \<longrightarrow> alone_inv c" using assms by (simp_all add: pg_inv_def)
  have "promise_inv ?d" using c(1) by (intro promise_answered) simp
  moreover have "owner_inv asked ?d" using c(2) by (intro asked_answered) simp_all
  moreover have "handler_inv ?d" using handler_handleBroken [OF c(3)] by (rule handler_same) simp_all
  moreover have "alone_inv (?d\<lparr>loop := Ended_loop\<rparr>)" if "alone_inv c"
    using that by (auto simp: alone_inv_def answer_set_answer lock_promise_Some split: if_splits)
  ultimately show ?thesis using c(4) by (simp add: pg_inv_def loop_end_def promise_inv_def owner_inv_def handler_inv_def)
qed

lemma inv_deliver:
  assumes "pg_inv alone asked c" "\<And>r. r \<in> set rs \<Longrightarrow> in_progress c = Some (asked r)"
  shows "pg_inv alone asked (set_answer (first_answer rs) (c\<lparr>in_progress := None\<rparr>))"
proof -
  let ?d = "set_answer (first_answer rs) (c\<lparr>in_progress := None\<rparr>)"
  have c: "promise_inv c" "owner_inv asked c" "handler_inv c" "alone \<longrightarrow> alone_inv c" using assms by (simp_all add: pg_inv_def)
  have "promise_inv ?d" using c(1) by (auto simp: promise_inv_def answer_set_answer weak_set_answer lock_promise_Some)
  moreover have "asked r = q" if "first_answer rs = Result r" "lock_promise c = Some q" for r q
    using that assms(2) [of r] c(1) by (auto simp: promise_inv_def first_answer_def split: list.splits)
  then have "owner_inv asked ?d" using c(2) by (intro asked_answered) (simp_all add: owner_inv_def)
  moreover have "handler_inv ?d" using c(3) by (rule handler_same) simp_all
  moreover have "alone_inv ?d" if "alone_inv c" using that by (intro alone_answered) (simp add: alone_inv_def)
  ultimately show ?thesis using c(4) by (simp add: pg_inv_def)
qed

lemma inv_turn:
  assumes "pg_inv alone asked c" "libpq_answers asked a c"
  shows "pg_inv alone asked (loop_turn a c)"
proof -
  have d: "pg_inv alone asked (set_answer (first_answer (results a)) (c\<lparr>in_progress := None\<rparr>))"
    using assms by (intro inv_deliver) (simp_all add: libpq_answers_def)
  show ?thesis
    by (cases a c rule: loop_turn_cases) (simp_all add: inv_loop inv_end assms(1) d)
qed

text \<open>A query that goes on without an answer stays what it was.\<close>

lemma inv_query:
  assumes "pg_inv alone asked c" "live (query c q)" "live p"
  shows "pg_inv alone asked (c\<lparr>query := (query c)(q := p)\<rparr>)"
proof -
  have l: "live (((query c)(q := p)) r) = live (query c r)" for r using assms(2,3) by simp
  have k: "lock_promise (c\<lparr>query := (query c)(q := p)\<rparr>) = lock_promise c" by (rule lock_promise_cong) (simp_all add: assms(2,3))
  have n: "((query c)(q := p)) r = Not_started \<longleftrightarrow> query c r = Not_started" "((query c)(q := p)) r = Finished x \<longleftrightarrow> query c r = Finished x" for r x
    using assms(2,3) by auto
  have "single (c\<lparr>query := (query c)(q := p)\<rparr>) = single c" 
    using l by (intro iffI; elim single_cong [rotated]) simp_all
  moreover have "p \<noteq> Not_started" "p \<noteq> Finished x" for x using assms(3) by auto
  ultimately show ?thesis using assms by (simp add: inv_defs k l n)
qed

lemma inv_cancel_all: "pg_inv alone asked c \<Longrightarrow> pg_inv alone asked (cancel_all c)"
  by (simp add: inv_defs)

text \<open>A query that ends, with the connection broken or not.\<close>

lemma promise_finish:
  assumes "\<And>p. p \<noteq> q \<Longrightarrow> lock_promise c = Some p \<Longrightarrow> in_progress c = Some p \<and> answer c p = None"
    "\<And>p. p \<noteq> q \<Longrightarrow> query c p = Not_started \<Longrightarrow> answer c p = None \<and> weakPromise c \<noteq> Some p"
  shows "promise_inv (finish_query q x c)"
  using assms by (auto simp: promise_inv_def finish_query_def lock_promise_Some)

lemma alone_finish:
  assumes "\<And>p. live (query c p) \<Longrightarrow> p = q" "\<not> broken c \<Longrightarrow> watched c \<and> loop c \<noteq> Ended_loop"
  shows "alone_inv (finish_query q x c)"
proof -
  have "\<not> live (query (finish_query q x c) p)" for p using assms(1) [of p] by (auto simp: finish_query_def)
  then show ?thesis using assms(2) by (simp add: alone_inv_def single_def) (simp add: finish_query_def)
qed

lemma inv_finish:
  assumes "pg_inv alone asked c" "\<And>r. x = Inr r \<Longrightarrow> asked r = q" "d = c \<or> d = handleBroken c"
    "\<And>p. alone \<Longrightarrow> live (query c p) \<Longrightarrow> p = q"
  shows "pg_inv alone asked (finish_query q x d)"
proof -
  have c: "promise_inv c" "owner_inv asked c" "handler_inv c" "alone \<Longrightarrow> alone_inv c" using assms by (simp_all add: pg_inv_def)
  have "promise_inv (finish_query q x d)" using c(1) assms(3) by (intro promise_finish) (auto simp: promise_inv_def)
  moreover have "owner_inv asked d" using c(2) assms(3) by auto
  then have "owner_inv asked (finish_query q x d)" using assms(2) by (auto simp: owner_inv_def finish_query_def)
  moreover have "handler_inv d" using c(3) assms(3) by auto
  then have "handler_inv (finish_query q x d)" by (rule handler_same) (simp_all add: finish_query_def)
  moreover have "alone_inv (finish_query q x d)" if "alone"
    using assms(3,4) that c(4) [OF that] by (intro alone_finish) (auto simp: alone_inv_def)
  ultimately show ?thesis by (simp add: pg_inv_def)
qed

lemma inv_finish_live:
  assumes "pg_inv alone asked c" "\<And>r. x = Inr r \<Longrightarrow> asked r = q" "d = c \<or> d = handleBroken c" "live (query c q)"
  shows "pg_inv alone asked (finish_query q x d)"
proof (rule inv_finish [OF assms(1-3)])
  fix p
  assume "alone" "live (query c p)"
  moreover have "alone \<Longrightarrow> single c" using assms(1) by (simp add: pg_inv_def alone_inv_def)
  ultimately show "p = q" using assms(4) unfolding single_def by blast
qed

lemma inv_send:
  assumes "pg_inv alone asked c" "query c q = Not_started" "alone \<longrightarrow> (\<forall>p. \<not> live (query c p))" "ok \<longrightarrow> in_progress c = None"
  shows "pg_inv alone asked (send_query q ok c)"
proof -
  let ?c = "c\<lparr>weakPromise := Some q\<rparr>"
  let ?d = "?c\<lparr>in_progress := Some q, stale := (stale c)(q := broken c), query := (query c)(q := Flush_ready)\<rparr>"
  have c: "promise_inv c" "owner_inv asked c" "handler_inv c" "alone \<Longrightarrow> alone_inv c" using assms by (simp_all add: pg_inv_def)
  consider "token c q" | "\<not> token c q" "\<not> ok" | "\<not> token c q" "ok" by blast
  then show ?thesis
  proof cases
    case 1
    then show ?thesis using inv_finish [OF assms(1), of "Inl Cancelled_error" q c] assms(3) by (simp add: send_query_def)
  next
    case 2
    have "promise_inv (finish_query q (Inl Connection_error) (handleBroken ?c))"
      using c(1) by (intro promise_finish) (auto simp: promise_inv_def lock_promise_Some)
    moreover have "owner_inv asked (finish_query q (Inl Connection_error) (handleBroken ?c))"
      using c(2) by (auto simp: owner_inv_def finish_query_def)
    moreover have "handler_inv ?c" using c(3) by (rule handler_same) simp_all
    then have "handler_inv (handleBroken ?c)" by simp
    then have "handler_inv (finish_query q (Inl Connection_error) (handleBroken ?c))"
      by (rule handler_same) (simp_all add: finish_query_def)
    moreover have "alone_inv (finish_query q (Inl Connection_error) (handleBroken ?c))" if "alone"
      using assms(3) that by (intro alone_finish) auto
    ultimately show ?thesis using 2 by (simp add: pg_inv_def send_query_def)
  next
    case 3
    have "promise_inv ?d" using c(1) assms(2) by (auto simp: promise_inv_def lock_promise_Some)
    moreover have "owner_inv asked ?d" using c(2) by (auto simp: owner_inv_def)
    moreover have "handler_inv ?d" using c(3) by (rule handler_same) simp_all
    moreover have "alone_inv ?d" if "alone"
    proof -
      have "single ?d" using assms(3) that by (auto simp: single_def)
      then show ?thesis using assms(3) that c(4) [OF that] by (auto simp: alone_inv_def)
    qed
    ultimately show ?thesis using 3 by (simp add: pg_inv_def send_query_def)
  qed
qed

lemma pg_step_inv:
  assumes "pg_inv alone asked c" "pg_step alone asked good c e d"
  shows "pg_inv alone asked d"
  using assms(2)
proof cases
  case (flush q r)
  then show ?thesis
    using assms(1) by (auto simp: flush_turn_def intro!: inv_query inv_finish_live split: flushed.splits)
next
  case (flush_cancel q)
  then show ?thesis using assms(1) by (auto simp: flush_canceled_def intro!: inv_finish_live)
next
  case (receive q a)
  have "asked r = q" if "a = Result r" for r using that receive(4) assms(1) by (auto simp: pg_inv_def owner_inv_def)
  then show ?thesis
    using assms(1) receive by (auto simp: receive_def intro!: inv_finish_live split: answer.splits if_splits)
next
  case (set_handler h)
  then show ?thesis using assms(1) by (auto simp: setBrokenHandler_def inv_defs)
next
  case (token q)
  then show ?thesis using assms(1) by (auto simp: inv_defs)
qed (use assms(1) in \<open>auto intro!: inv_loop inv_turn inv_end inv_query inv_cancel_all inv_send\<close>)

lemma pg_init_inv: "pg_inv alone asked pg_init"
  by (simp add: inv_defs pg_init_def lock_promise_def single_def)

interpretation pg: step_invariant "pg_step alone asked good" "pg_inv alone asked" for alone asked good
  by unfold_locales (rule pg_step_inv)

lemmas pg_reachable = pg.run_keeps [OF _ pg_init_inv]

section \<open>Properties\<close>

text \<open>
  C21. A query returns the result of its own command, in every interleaving of queries, cancellations and
  failures: a result that libpq delivers for another command, cancelled or abandoned, is never
  given to it.
\<close>

theorem pg_result_of_own_query:
  assumes "run (pg_step alone asked good) pg_init es c" "query c q = Finished (Inr r)"
  shows "asked r = q"
  using pg_reachable [OF assms(1)] assms(2) by (simp add: pg_inv_def owner_inv_def)

text \<open>A promise that the read loop can reach gets its answer when the loop sees a result or an end.\<close>

lemma answered_by_end:
  assumes "lock_promise c = Some q"
  shows "answer (loop_end r c) q \<noteq> None"
  using assms by (simp add: loop_end_def answer_set_answer)

lemma answered_by_turn:
  assumes "lock_promise c = Some q" "\<not> (consumed a \<and> busy a)"
  shows "answer (loop_turn a c) q \<noteq> None"
proof (cases a c rule: loop_turn_cases)
  case ended
  have "answer (set_answer (first_answer (results a)) (c\<lparr>in_progress := None\<rparr>)) q \<noteq> None"
    using assms(1) by (simp add: answer_set_answer)
  then show ?thesis unfolding ended by (simp add: loop_end_def answer_set_answer)
qed (use assms answered_by_end in \<open>simp_all add: answer_set_answer\<close>)


text \<open>The handler for a broken connection is called at most once, and only when the connection is broken.\<close>

theorem pg_broken_once:
  assumes "run (pg_step alone asked good) pg_init es c"
  shows "handlerCalls c \<le> 1 \<and> (0 < handlerCalls c \<longrightarrow> broken c)"
  using pg_reachable [OF assms] by (auto simp: pg_inv_def handler_inv_def split: if_splits)

text \<open>The turns of a handshake that libpq has completed while the token was valid.\<close>

fun handshake_done :: "(bool \<times> polling) turn list \<Rightarrow> bool" where
  "handshake_done (Called (False, Polling_ok) # ts) = True"
| "handshake_done (Called (False, Polling_reading) # ts) = handshake_done ts"
| "handshake_done (Called (False, Polling_writing) # ts) = handshake_done ts"
| "handshake_done _ = False"

lemma connect_turn_failed [simp]: "connect_turn (b, Polling_failed) out = (Error, out)"
  by (cases b) simp_all

lemma perform_handshake: "(\<exists>b. perform connect_turn ts out = Some (Io_success, b)) \<longleftrightarrow> handshake_done ts"
  by (induction ts arbitrary: out rule: handshake_done.induct) auto

text \<open>
  \<^verbatim>\<open>connect\<close> succeeds exactly when the handshake was started, libpq asked for reads and writes and then
  reported success, each time with the token still valid, the token is still valid at the end, and
  the socket could be made non-blocking.
\<close>

theorem pg_connect_exact:
  "pg_connect started ts late nonblocking = Some (Inr ()) \<longleftrightarrow> started \<and> handshake_done ts \<and> \<not> late \<and> nonblocking"
proof (cases "perform connect_turn ts False")
  case None
  then have "\<not> handshake_done ts" using perform_handshake [of ts False] by simp
  then show ?thesis using None by (simp add: pg_connect_def)
next
  case (Some x)
  then have "fst x = Io_success \<longleftrightarrow> handshake_done ts" using perform_handshake [of ts False] by (cases x) auto
  then show ?thesis using Some by (cases x) (auto simp: pg_connect_def)
qed

text \<open>The time limit of a configuration is given in milliseconds, but counted in microseconds.\<close>

lemma connect_timeout_in_microseconds:
  "0 < connectTimeoutMs cfg \<Longrightarrow> connect_deadline cfg = Some (connectTimeoutMs cfg)"
  by (simp add: connect_deadline_def)

section \<open>Queries that are never answered\<close>

text \<open>Once the read loop has ended, a query that waits without an answer waits forever.\<close>

definition lost :: "qid \<Rightarrow> 'r pg_conn \<Rightarrow> bool" where
  "lost q c \<longleftrightarrow> loop c = Ended_loop \<and> query c q = Awaiting \<and> answer c q = None"

lemma handleBroken_ended: "loop c = Ended_loop \<Longrightarrow> loop (handleBroken c) = Ended_loop"
  "query c q = Awaiting \<Longrightarrow> query (handleBroken c) q = Awaiting"
  by (auto simp: handleBroken_def Let_def cancel_all_def)

lemma lost_step:
  assumes "lost q c" "pg_step alone asked good c e d"
  shows "lost q d"
  using assms(2,1)
proof cases
  case (send p ok)
  then show ?thesis using assms(1) by (auto simp: lost_def send_query_def finish_query_def Let_def handleBroken_ended)
next
  case (flush p r)
  then show ?thesis
    using assms(1) by (auto simp: lost_def flush_turn_def finish_query_def handleBroken_ended split: flushed.splits)
next
  case (flush_cancel p)
  then show ?thesis using assms(1) by (auto simp: lost_def flush_canceled_def finish_query_def handleBroken_ended)
next
  case (receive p a)
  then show ?thesis
    using assms(1) by (auto simp: lost_def receive_def finish_query_def handleBroken_ended split: answer.splits)
qed (use assms(1) in \<open>auto simp: lost_def setBrokenHandler_def cancel_all_def\<close>)

interpretation lost: step_invariant "pg_step alone asked good" "lost q" for alone asked good q
  by unfold_locales (rule lost_step)

text \<open>Results are pairs of a query and a text here.\<close>

type_synonym sample_result = "qid \<times> string"

abbreviation sample_step :: "bool \<Rightarrow> sample_result pg_conn \<Rightarrow> pg_event \<Rightarrow> sample_result pg_conn \<Rightarrow> bool" where
  "sample_step alone \<equiv> pg_step alone fst (\<lambda>_. True)"

definition answers_with :: "sample_result list \<Rightarrow> sample_result read_answers" where
  "answers_with rs = \<lparr>consumed = True, busy = False, results = rs, status_ok = True\<rparr>"

text \<open>The first query is sent, and the read loop waits.\<close>

definition sent1 :: "sample_result pg_conn" where
  "sent1 = (flush_turn 0 Flush_done (send_query 0 True pg_init))\<lparr>loop := Waiting_loop\<rparr>"

lemma sent1_eq: "sent1 = pg_init\<lparr>loop := Waiting_loop, weakPromise := Some 0, in_progress := Some 0, query := (\<lambda>_. Not_started)(0 := Awaiting)\<rparr>"
  by (simp add: sent1_def send_query_def flush_turn_def pg_init_def fun_eq_iff)

lemma sent1_run: "run (sample_step alone) pg_init [Send 0, Flush 0, Loop_waits] sent1"
proof -
  have "sample_step alone pg_init (Send 0) (send_query 0 True pg_init)" by (rule send) (simp_all add: pg_init_def)
  moreover have "sample_step alone (send_query 0 True pg_init) (Flush 0) (flush_turn 0 Flush_done (send_query 0 True pg_init))"
    by (rule flush) (simp add: send_query_def pg_init_def)
  moreover have "sample_step alone (flush_turn 0 Flush_done (send_query 0 True pg_init)) Loop_waits sent1"
    unfolding sent1_def by (rule loop_waits) (simp add: flush_turn_def send_query_def pg_init_def)
  ultimately show ?thesis by (blast intro: run_cons run_nil)
qed

text \<open>Its result arrives and is received.\<close>

definition answered1 :: "sample_result pg_conn" where
  "answered1 = loop_turn (answers_with [(0, ''one'')]) (sent1\<lparr>loop := Woken_loop\<rparr>)"

lemma answered1_eq:
  "answered1 = sent1\<lparr>weakPromise := None, in_progress := None, answer := [0 \<mapsto> Result (0, ''one'')]\<rparr>"
  by (simp add: answered1_def sent1_eq answers_with_def loop_turn_def read_turn_def set_answer_def lock_promise_def pg_init_def)

lemma answered1_run: "run (sample_step alone) pg_init [Send 0, Flush 0, Loop_waits, Readable, Turn] answered1"
proof -
  have "sample_step alone sent1 Readable (sent1\<lparr>loop := Woken_loop\<rparr>)"
    by (rule readable) (simp_all add: sent1_eq pg_init_def)
  moreover have "sample_step alone (sent1\<lparr>loop := Woken_loop\<rparr>) Turn answered1"
    unfolding answered1_def by (rule turn) (simp_all add: sent1_eq libpq_answers_def answers_with_def)
  ultimately have "run (sample_step alone) sent1 [Readable, Turn] answered1" by (blast intro: run_cons run_nil)
  from run_trans [OF sent1_run this] show ?thesis by simp
qed

definition received1 :: "sample_result pg_conn" where
  "received1 = receive (\<lambda>_. True) 0 (Result (0, ''one'')) answered1"

lemma received1_run: "run (sample_step alone) pg_init [Send 0, Flush 0, Loop_waits, Readable, Turn, Receive 0] received1"
proof -
  have "sample_step alone answered1 (Receive 0) received1"
    unfolding received1_def by (rule receive) (simp_all add: answered1_eq sent1_eq)
  from run_snoc [OF answered1_run this] show ?thesis by simp
qed

text \<open>
  A cancellation that comes after the result, but before the query has run on, ends the read loop, although
  the query succeeds; the next query on the connection is sent, and is never answered.
\<close>

definition killed1 :: "sample_result pg_conn" where
  "killed1 = loop_end Io_canceled (cancel_all (answered1\<lparr>token := (token answered1)(0 := True)\<rparr>))"

lemma killed1_eq:
  "killed1 = answered1\<lparr>token := (\<lambda>_. False)(0 := True), loop := Ended_loop, broken := True, watched := False\<rparr>"
  by (simp add: killed1_def answered1_eq sent1_eq pg_init_def loop_end_def handleBroken_def cancel_all_def set_answer_def
      lock_promise_def fun_eq_iff)

lemma killed1_run:
  "run (sample_step alone) pg_init [Send 0, Flush 0, Loop_waits, Readable, Turn, Token 0, Token_callback 0, Loop_canceled] killed1"
proof -
  let ?t = "answered1\<lparr>token := (token answered1)(0 := True)\<rparr>"
  have "sample_step alone answered1 (Token 0) ?t" by (rule token)
  moreover have "sample_step alone ?t (Token_callback 0) (cancel_all ?t)"
    by (rule token_callback) (simp_all add: answered1_eq sent1_eq)
  moreover have "sample_step alone (cancel_all ?t) Loop_canceled killed1"
    unfolding killed1_def by (rule loop_canceled) (simp add: cancel_all_def answered1_eq sent1_eq)
  ultimately have "run (sample_step alone) answered1 [Token 0, Token_callback 0, Loop_canceled] killed1"
    by (blast intro: run_cons run_nil)
  from run_trans [OF answered1_run this] show ?thesis by simp
qed

theorem late_cancel_loses_next_query:
  "\<exists>es c. run (sample_step True) pg_init es c \<and> query c 0 = Finished (Inr (0, ''one'')) \<and> \<not> token c 1 \<and>
     (\<forall>fs d. run (sample_step True) c fs d \<longrightarrow> query d 1 = Awaiting)"
proof -
  let ?r = "receive (\<lambda>_. True) 0 (Result (0, ''one'')) killed1"
  let ?s = "send_query 1 True ?r"
  let ?f = "flush_turn 1 Flush_done ?s"
  note d = killed1_eq answered1_eq sent1_eq pg_init_def receive_def send_query_def flush_turn_def finish_query_def
  have "sample_step True killed1 (Receive 0) ?r" by (rule receive) (simp_all add: d)
  moreover have "\<not> live (query ?r p)" for p by (simp add: d)
  then have "sample_step True ?r (Send 1) ?s" by (intro send) (simp_all add: d)
  moreover have "sample_step True ?s (Flush 1) ?f" by (rule flush) (simp add: d)
  ultimately have "run (sample_step True) killed1 [Receive 0, Send 1, Flush 1] ?f" by (blast intro: run_cons run_nil)
  from run_trans [OF killed1_run this]
  have r: "run (sample_step True) pg_init ([Send 0, Flush 0, Loop_waits, Readable, Turn, Token 0, Token_callback 0, Loop_canceled] @ [Receive 0, Send 1, Flush 1]) ?f" .
  moreover have l: "lost 1 ?f" by (simp add: lost_def d)
  have "query d 1 = Awaiting" if "run (sample_step True) ?f fs d" for fs d
    using lost.run_keeps [OF that l] by (simp add: lost_def)
  moreover have "query ?f 0 = Finished (Inr (0, ''one''))" "\<not> token ?f 1" by (simp_all add: d)
  ultimately show ?thesis by blast
qed

text \<open>A second query that is sent while the first one waits fails, and takes away the answer of the first one.\<close>

theorem second_query_loses_first:
  "\<exists>es c. run (sample_step False) pg_init es c \<and> query c 1 = Finished (Inl Connection_error) \<and>
     (\<forall>fs d. run (sample_step False) c fs d \<longrightarrow> query d 0 = Awaiting)"
proof -
  let ?s = "send_query 1 False sent1"
  let ?e = "loop_end Io_canceled ?s"
  note d = sent1_eq pg_init_def send_query_def finish_query_def handleBroken_def cancel_all_def loop_end_def set_answer_def lock_promise_def
  have "sample_step False sent1 (Send 1) ?s" by (rule send) (simp_all add: sent1_eq pg_init_def)
  moreover have "sample_step False ?s Loop_canceled ?e" by (rule loop_canceled) (simp add: d)
  ultimately have "run (sample_step False) sent1 [Send 1, Loop_canceled] ?e" by (blast intro: run_cons run_nil)
  from run_trans [OF sent1_run this] have "run (sample_step False) pg_init ([Send 0, Flush 0, Loop_waits] @ [Send 1, Loop_canceled]) ?e" .
  moreover have l: "lost 0 ?e" by (simp add: lost_def d)
  have "query d 0 = Awaiting" if "run (sample_step False) ?e fs d" for fs d
    using lost.run_keeps [OF that l] by (simp add: lost_def)
  moreover have "query ?e 1 = Finished (Inl Connection_error)" by (simp add: d)
  ultimately show ?thesis by blast
qed

text \<open>A cancellation that finds the read loop woken, but not resumed yet, is dropped.\<close>

theorem cancel_of_woken_loop_dropped:
  "\<exists>c. run (sample_step True) pg_init [Send 0, Flush 0, Loop_waits, Readable, Token 0, Token_callback 0] c \<and>
     token c 0 \<and> query c 0 = Awaiting \<and> loop c = Woken_loop \<and> \<not> broken c"
proof -
  let ?w = "sent1\<lparr>loop := Woken_loop\<rparr>"
  let ?t = "?w\<lparr>token := (token ?w)(0 := True)\<rparr>"
  have "sample_step True sent1 Readable ?w" by (rule readable) (simp_all add: sent1_eq pg_init_def)
  moreover have "sample_step True ?w (Token 0) ?t" by (rule token)
  moreover have "sample_step True ?t (Token_callback 0) (cancel_all ?t)" by (rule token_callback) (simp_all add: sent1_eq)
  ultimately have "run (sample_step True) sent1 [Readable, Token 0, Token_callback 0] (cancel_all ?t)" by (blast intro: run_cons run_nil)
  from run_trans [OF sent1_run this]
  have "run (sample_step True) pg_init [Send 0, Flush 0, Loop_waits, Readable, Token 0, Token_callback 0] (cancel_all ?t)" by simp
  then show ?thesis by (intro exI [of _ "cancel_all ?t"]) (simp add: cancel_all_def sent1_eq pg_init_def)
qed

theorem pg_result_of_own_query_witness:
  "\<exists>c. run (sample_step True) pg_init [Send 0, Flush 0, Loop_waits, Readable, Turn, Receive 0] c \<and>
     query c 0 = Finished (Inr (0, ''one'')) \<and> fst (0 :: qid, ''one'') = 0"
proof -
  have "query received1 0 = Finished (Inr (0, ''one''))" by (simp add: received1_def receive_def finish_query_def)
  then show ?thesis using received1_run pg_result_of_own_query [OF received1_run, of 0 "(0, ''one'')"] by blast
qed


theorem pg_broken_once_witness: "handlerCalls killed1 \<le> 1"
  using pg_broken_once [OF killed1_run [of True]] by simp

end
