(* ===== verification/Spec2Isabelle.thy ===== *)
theory Spec2Isabelle
  imports Prelude Url_Encode Base64 Digest Url Byte_Stream Http_Header Cookie Http_Message
    Http_Parser Http_Router Http_Body Http_Outgoing Http_Head Http_Exchange Http_Reply
    Http_Server Http_Client Http_Date File_Cache Static_Files Web_Socket Ws_Server
    Runs Coro_Mutex Coro_Future Cancel_Token Coro_Timeout Mpsc_Queue Scheduler_Loop
    Thread_Pool Future_Handles Coro_Task Io_Table Io_Channel Inet_Address Dns_Resolver
    Tcp_Connection Tcp_Server Tls_Provider Tls_Stream
    Pg_Pool Pg_Transaction Pg_Config Pg_Values Pg_Connection
begin

text \<open>
  A verification development for nitrocoro, a coroutine runtime for C++20 with an HTTP/1.1 server
  and client, WebSockets, TLS and a PostgreSQL client.

  \<^bold>\<open>The program.\<close> A \<^verbatim>\<open>Scheduler\<close> (\<^verbatim>\<open>src/src/Scheduler.cc\<close>) runs coroutines on one thread: other
  threads hand it tasks and timers through lock-free queues (\<^verbatim>\<open>MpscQueue\<close>) and wake it from
  \<^verbatim>\<open>epoll_wait\<close>. Coroutines wait for each other with \<^verbatim>\<open>Mutex\<close> and \<^verbatim>\<open>Future\<close>/\<^verbatim>\<open>Promise\<close>. On streams of
  bytes the HTTP extension parses message heads (\<^verbatim>\<open>HttpParser\<close>), reads and writes bodies with
  the framings of HTTP/1.1 (\<^verbatim>\<open>BodyReader\<close>, \<^verbatim>\<open>BodyWriter\<close>), routes requests (\<^verbatim>\<open>HttpRouter\<close>) and runs
  handlers in a loop per connection (\<^verbatim>\<open>HttpServer\<close>); \<^verbatim>\<open>HttpClient\<close> is its counterpart. The WebSocket
  extension takes a connection over after an HTTP handshake. The TLS extension wraps a connection
  in a session of OpenSSL. The PostgreSQL extension runs queries over libpq, shares connections
  between coroutines in a pool and wraps them in transactions.

  \<^bold>\<open>How code becomes definitions.\<close> Sequential code is translated to functions: a class is a record or
  datatype, a method a function from the old state to the new one, an exception a value on the left
  of a sum type. Strings are lists of characters, one per byte. Integers whose width matters are
  words (\<^verbatim>\<open>uint16_t\<close> ports and status codes, 32-bit digests, 64-bit lengths) or are reduced
  explicitly; the others are bounded by \<^verbatim>\<open>max_size\<close>, the largest string. Loops are recursive
  functions with a termination proof, mostly by the number of bytes that are still to arrive; no
  definition needs fuel. A stream is the list of the segments that the network still delivers and
  the list of the writes made so far, so that theorems hold for every segmentation.

  Code that several threads run at once is a step relation: one rule per atomic access, a program
  counter for each thread that is inside an operation, and arbitrary interleaving. Atomics are
  sequentially consistent, weak compare-exchange may fail spuriously. A run is a sequence of
  labelled steps (theory \<^verbatim>\<open>Runs\<close>, with the contracts \<^verbatim>\<open>step_invariant\<close> and \<^verbatim>\<open>observed_simulation\<close>).

  \<^bold>\<open>Foundations.\<close>
  \<^item> \<^verbatim>\<open>Prelude\<close>: searching in byte strings (\<^verbatim>\<open>find\<close>, \<^verbatim>\<open>substr\<close>), numbers and their texts (\<^verbatim>\<open>stoi\<close>,
    \<^verbatim>\<open>stoul\<close>, \<^verbatim>\<open>to_string\<close>), ordered maps with their contract \<^verbatim>\<open>ordered_map\<close>.
  \<^item> \<^verbatim>\<open>Url_Encode\<close> (\<^verbatim>\<open>UrlEncode.cc\<close>, \<^verbatim>\<open>Form.cc\<close>), \<^verbatim>\<open>Base64\<close>, \<^verbatim>\<open>Digest\<close> (\<^verbatim>\<open>Sha1.cc\<close>, \<^verbatim>\<open>Md5.cc\<close>), \<^verbatim>\<open>Url\<close>: codecs
    and parsers, with round trips (contracts \<^verbatim>\<open>byte_codec\<close>, \<^verbatim>\<open>pair_codec\<close>), bounds of every array access
    and the padding of digests.
  \<^item> \<^verbatim>\<open>Byte_Stream\<close> (\<^verbatim>\<open>StringBuffer.h\<close>, \<^verbatim>\<open>Stream.h\<close>): the buffer with its storage and offsets is a queue of
    bytes (contract \<^verbatim>\<open>byte_buffer\<close>).

  \<^bold>\<open>HTTP.\<close>
  \<^item> \<^verbatim>\<open>Http_Header\<close>, \<^verbatim>\<open>Cookie\<close>, \<^verbatim>\<open>Http_Message\<close>: the vocabulary (method registry, header names, cookies)
    and the message records; the tables are consistent, cookies survive printing and parsing.
  \<^item> \<^verbatim>\<open>Http_Parser\<close> (\<^verbatim>\<open>HttpParser.cc\<close>): one line at a time, both specialisations. An accepted request has
    one framing; request lines survive printing and parsing; errors are final.
  \<^item> \<^verbatim>\<open>Http_Router\<close>: the pattern tree finds exactly the registered patterns with their bindings; the
    methods listed in a refusal are those that would be routed. Matching of regular expressions and
    the iteration order of hash tables are parameters.
  \<^item> \<^verbatim>\<open>Http_Body\<close>: all readers and writers against one contract (\<^verbatim>\<open>body_source\<close>). Bodies arrive as they
    were sent, never cut short, and reading stops at the first byte of the next message.
  \<^item> \<^verbatim>\<open>Http_Outgoing\<close> (\<^verbatim>\<open>HttpOutgoingStream.cc\<close>), \<^verbatim>\<open>Http_Head\<close> (the two \<^verbatim>\<open>parseNext\<close>), \<^verbatim>\<open>Http_Exchange\<close>,
    \<^verbatim>\<open>Http_Reply\<close>: what one side writes, the other side reads, for requests and for responses.
  \<^item> \<^verbatim>\<open>Http_Server\<close> (\<^verbatim>\<open>handleConnection\<close>), \<^verbatim>\<open>Http_Client\<close>: the connection loop with every branch. Handlers
    are programs over the two streams they are given, so that statements hold for every handler:
    none of them can make the server read the body of one request as the next request. The loop
    ends, malformed requests get a complete answer. Waiting for the response before
    (\<^verbatim>\<open>prevFuture\<close>) is represented by its outcome; name resolution and connecting are parameters.
  \<^item> \<^verbatim>\<open>Http_Date\<close>: the calendar date of \<^verbatim>\<open>Cookie::formatExpires\<close>. \<^verbatim>\<open>File_Cache\<close>, \<^verbatim>\<open>Static_Files\<close>
    (\<^verbatim>\<open>StaticFiles.cc\<close>): the cache refines a least-recently-used cache; the handler reads only below
    its root, serves what the files contain, and with a faithful cache answers as without it. The
    file system and the clock are parameters.

  \<^bold>\<open>WebSocket.\<close> \<^verbatim>\<open>Web_Socket\<close> (\<^verbatim>\<open>WsConnection.cc\<close>): frames, masking, the receive loop with its 64-bit
  lengths, and \<^verbatim>\<open>send\<close>; messages are reassembled from any fragments with pings between them. \<^verbatim>\<open>Ws_Server\<close>
  (\<^verbatim>\<open>WsServer.cc\<close>): the handshake and its place in front of the HTTP routes.

  \<^bold>\<open>Coroutines and threads.\<close>
  \<^item> \<^verbatim>\<open>Coro_Mutex\<close> (\<^verbatim>\<open>Mutex.h\<close>): refinement of a first-in first-out lock, no lost wakeup, no failing
    assertion.
  \<^item> \<^verbatim>\<open>Coro_Task\<close> (\<^verbatim>\<open>Task.h\<close>, \<^verbatim>\<open>Generator.h\<close>, \<^verbatim>\<open>Scheduler::spawn\<close>): a machine with frames, handles and continuations computes what the
    code means when \<^verbatim>\<open>co_await\<close> is read as a call. The other theories rely on this reading: there a coroutine is code that runs
    from one suspension to the next.
  \<^item> \<^verbatim>\<open>Coro_Future\<close> (\<^verbatim>\<open>Future.h\<close>, \<^verbatim>\<open>LockFreeList.h\<close>): who suspended reads the result and is woken; who does
    not suspend can read too early.
    \<^verbatim>\<open>Future_Handles\<close>: which object holds the state, and the errors of the interface.
  \<^item> \<^verbatim>\<open>Cancel_Token\<close> (\<^verbatim>\<open>CancelToken.h\<close>): callbacks are called once and never after they were withdrawn;
    a cancellation can always run to its end, and then has called every callback and resumed every
    waiting coroutine.
  \<^item> \<^verbatim>\<open>Mpsc_Queue\<close> (\<^verbatim>\<open>MpscQueue.h\<close>): refinement of a queue, and memory safety.
  \<^item> \<^verbatim>\<open>Coro_Timeout\<close> (\<^verbatim>\<open>Timeout.h\<close>), \<^verbatim>\<open>Thread_Pool\<close> (\<^verbatim>\<open>TaskQueue.cc\<close>): a call with a deadline answers once; tasks
    posted to the pool start in order, and no notification is lost.
  \<^item> \<^verbatim>\<open>Scheduler_Loop\<close> (\<^verbatim>\<open>Scheduler.cc\<close>), on top of the specification of the queue: no lost wakeup, tasks run
    once and in order, timers fire when they are due.

  \<^bold>\<open>Input and output.\<close> The answers of system calls are arguments of the definitions, or left open in
  the steps, so that statements hold for every kernel; where the kernel matters, what is documented
  of \<^verbatim>\<open>epoll_ctl\<close> is a named hypothesis.
  \<^item> \<^verbatim>\<open>Io_Table\<close> (\<^verbatim>\<open>Scheduler.cc\<close>): the table of I/O contexts and its calls of epoll. Operations left over from
    an older channel on a reused descriptor have no effect; epoll watches what channels asked for.
  \<^item> \<^verbatim>\<open>Io_Channel\<close> (\<^verbatim>\<open>Channel.cc\<close>, \<^verbatim>\<open>Channel.h\<close>): operations that wait for a descriptor, one rule per action
    between two suspensions. No event is lost, no handle is resumed twice, a cancelled operation
    does nothing more.
  \<^item> \<^verbatim>\<open>Tcp_Connection\<close>, \<^verbatim>\<open>Tcp_Server\<close> (\<^verbatim>\<open>TcpConnection.cc\<close>, \<^verbatim>\<open>TcpServer.cc\<close>, the adapters): writes are complete and in
    order, reads drop nothing, a server stops.
  \<^item> \<^verbatim>\<open>Inet_Address\<close>, \<^verbatim>\<open>Dns_Resolver\<close> (\<^verbatim>\<open>InetAddress.cc\<close>, \<^verbatim>\<open>DnsResolver.cc\<close>): addresses, the set-up of a listening socket, and the resolver with
    its cache; callers share look-ups and none is forgotten.

  \<^bold>\<open>PostgreSQL.\<close> \<^verbatim>\<open>Pg_Pool\<close> (\<^verbatim>\<open>PgPool.cc\<close>, \<^verbatim>\<open>PoolState.cc\<close>, \<^verbatim>\<open>PooledConnection.cc\<close>): the pool between its callers,
  connection attempts and time-outs; it is bounded, exclusive and serves the oldest caller.
  \<^verbatim>\<open>Pg_Transaction\<close>: a transaction ends once. \<^verbatim>\<open>Pg_Config\<close>, \<^verbatim>\<open>Pg_Values\<close> and \<^verbatim>\<open>Pg_Connection\<close> (\<^verbatim>\<open>PgConnectionImpl.cc\<close>,
  \<^verbatim>\<open>PgResult.cc\<close>): the connection string, parameters and results, and a connection with its read loop and its
  queries as a step relation. The answers of libpq are arguments; its documented rule, that results
  belong to the one command in progress, is a guard of the steps. A query gets the result of its
  own command, and with one query at a time on a working connection it is not forgotten; how
  queries get lost otherwise is shown by runs of the model.

  \<^bold>\<open>TLS.\<close> \<^verbatim>\<open>Tls_Provider\<close> (\<^verbatim>\<open>OpenSSLProvider.cc\<close>): contexts, the negotiation of protocols, and the functions of
  the provider, with the answers of OpenSSL as arguments. \<^verbatim>\<open>Tls_Stream\<close> (\<^verbatim>\<open>TlsStream.cc\<close>): handshake, read, write and
  shutdown over any provider. No stream without a verified certificate when validation is asked
  for; on top of two providers that form a session (\<^verbatim>\<open>tls_session\<close>, the hypothesis that stands for the TLS protocol)
  bytes arrive as they were written.

  \<^bold>\<open>Not modelled.\<close> OpenSSL, libpq and the kernel themselves, whose code is not in the repository: their answers are
  arguments. Owners of a descriptor that only close it (\<^verbatim>\<open>Socket\<close>), type computations (\<^verbatim>\<open>CoroTraits.h\<close>), logging and the test
  framework. The text of the \<^verbatim>\<open>Date\<close> header, which comes from the clock. Weaker memory orderings than sequential
  consistency.
\<close>

end
